(* ===== verification/Prelude.thy ===== *)
theory Prelude imports Main "HOL-Library.Word"
begin

unbundle bit_operations_syntax

text \<open>
  What the components share: the names of the machine types, the collections of rules that
  carry the component proofs, and the little-endian byte layout of a machine word with its
  round trip.  Nothing here models a particular file of the node.
\<close>

section \<open>Machine types\<close>

text \<open>
  \<open>unsigned char\<close>, \<open>uint16_t\<close>, \<open>uint32_t\<close>, \<open>uint64_t\<close> of the C++ code.  A blob of 256 bits
  (\<open>uint256\<close>) or 160 bits (\<open>uint160\<close>) is the word whose little-endian bytes are the blob's
  data.  A C++ signed integer whose operations cannot overflow is an \<^typ>\<open>int\<close>; where the code's
  correctness depends on it, the bound is proved.
\<close>

type_synonym byte = "8 word"
type_synonym bytes = "byte list"
type_synonym u16 = "16 word"
type_synonym u32 = "32 word"
type_synonym u64 = "64 word"
type_synonym uint160 = "160 word"
type_synonym uint256 = "256 word"

text \<open>A computation that may fail: \<open>Inl\<close> is the exception, \<open>Inr\<close> the value.\<close>

abbreviation bind_sum :: "'e + 'a \<Rightarrow> ('a \<Rightarrow> 'e + 'b) \<Rightarrow> 'e + 'b" where
  "bind_sum m f \<equiv> (case m of Inl e \<Rightarrow> Inl e | Inr x \<Rightarrow> f x)"

named_theorems codec_simps \<open>round trips of the elementary encoders\<close>
named_theorems step_simps \<open>unfolding of the operations of a component\<close>
named_theorems inv_intros \<open>an operation keeps an invariant\<close>

section \<open>Little-endian bytes of a word\<close>

text \<open>\<open>le_bytes n w\<close> is the first \<open>n\<close> bytes of \<open>w\<close>, least significant first;
  \<open>le_word\<close> reads such a sequence back.\<close>

primrec le_bytes :: "nat \<Rightarrow> 'a::len word \<Rightarrow> bytes" where
  "le_bytes 0 w = []"
| "le_bytes (Suc n) w = ucast w # le_bytes n (drop_bit 8 w)"

primrec le_word :: "bytes \<Rightarrow> 'a::len word" where
  "le_word [] = 0"
| "le_word (b # bs) = ucast b OR push_bit 8 (le_word bs)"

lemma length_le_bytes [simp]: "length (le_bytes n w) = n"
  by (induction n arbitrary: w) auto

lemma le_word_le_bytes_take: "le_word (le_bytes n w) = take_bit (8 * n) (w :: 'a::len word)"
proof (induction n arbitrary: w)
  case 0
  then show ?case by simp
next
  case (Suc n)
  show ?case
    by (rule bit_word_eqI)
      (auto simp: Suc bit_simps algebra_simps)
qed

lemma le_word_le_bytes [simp, codec_simps]:
  "LENGTH('a) \<le> 8 * n \<Longrightarrow> le_word (le_bytes n w) = (w :: 'a::len word)"
  by (simp add: le_word_le_bytes_take take_bit_word_eq_self)

lemma le_bytes_le_word:
  "8 * length bs \<le> LENGTH('a) \<Longrightarrow> le_bytes (length bs) (le_word bs :: 'a::len word) = bs"
proof (induction bs)
  case Nil
  then show ?case by simp
next
  case (Cons b bs)
  have hd: "ucast (le_word (b # bs) :: 'a word) = b"
    using Cons.prems by (intro bit_word_eqI) (auto simp: bit_simps)
  have tl: "drop_bit 8 (le_word (b # bs) :: 'a word) = take_bit (LENGTH('a) - 8) (le_word bs)"
    by (rule bit_word_eqI) (auto simp: bit_simps dest: bit_imp_le_length)
  have small: "take_bit (LENGTH('a) - 8) (le_word bs :: 'a word) = le_word bs"
  proof -
    have "le_word bs = take_bit (8 * length bs) (le_word bs :: 'a word)"
      using Cons le_word_le_bytes_take[of "length bs" "le_word bs :: 'a word"] by simp
    moreover have "8 * length bs \<le> LENGTH('a) - 8"
      using Cons.prems by simp
    ultimately show ?thesis
      by (metis take_bit_take_bit min.absorb2)
  qed
  show ?case
    using Cons hd tl small by simp
qed

lemma le_bytes_inj:
  "LENGTH('a) \<le> 8 * n \<Longrightarrow> le_bytes n v = le_bytes n (w :: 'a::len word) \<longleftrightarrow> v = w"
  by (metis le_word_le_bytes)

section \<open>Lists and words\<close>

lemma take_drop_append [simp]:
  "length xs = n \<Longrightarrow> take n (xs @ ys) = xs" "length xs = n \<Longrightarrow> drop n (xs @ ys) = ys"
  by auto

lemma take_bit_word_small: "unat (w :: 'a::len word) < 2 ^ k \<Longrightarrow> take_bit k w = w"
  by (simp only: word_unat_eq_iff unsigned_take_bit_eq take_bit_nat_eq_self)

lemma unat_byte_less [simp]: "unat (b :: byte) < 256"
  by (rule order_less_le_trans [OF unsigned_less]) simp

lemma unat_of_nat_byte [simp]: "n < 256 \<Longrightarrow> unat (of_nat n :: byte) = n"
  by (simp add: unsigned_of_nat take_bit_nat_eq_self)

end
