(* ===== verification/Serialize.thy ===== *)
theory Serialize imports Prelude
begin

unbundle bit_operations_syntax

text \<open>
  The wire format of \<^verbatim>\<open>src/src/serialize.h\<close>: fixed-width little-endian integers, the
  compact size, the base-128 variable-length integer, byte vectors and vectors of
  serializable elements (read in bounded batches), and the in-memory stream \<open>CDataStream\<close> of
  \<^verbatim>\<open>src/src/streams.h\<close> they are read from.  A writer is a function to bytes; a reader takes the
  unread bytes of its stream and returns the value and what is left, or the exception the
  code throws.  The locale \<open>codec\<close> is the contract between a writer and its reader, and
  \<open>vector_codec\<close> lifts it to vectors.
\<close>

section \<open>Streams\<close>

text \<open>The exceptions (\<open>std::ios_base::failure\<close>) and the two ways this code can leave the
  language: reading outside the buffer, and a loop that does not end.\<close>

datatype stream_error =
    EndOfData | NegativeIgnore | NonCanonicalSize | SizeTooLarge | VarIntTooLarge
  | OutOfBounds | Diverges | BadTxFlags | BadTxIndex

type_synonym 'a reader = "bytes \<Rightarrow> stream_error + 'a \<times> bytes"

record CDataStream =
  stream_vch :: bytes
  stream_pos :: u32

definition unread :: "CDataStream \<Rightarrow> bytes" where
  "unread s = drop (unat (stream_pos s)) (stream_vch s)"

definition stream_ok :: "CDataStream \<Rightarrow> bool" where
  "stream_ok s \<longleftrightarrow> unat (stream_pos s) \<le> length (stream_vch s)"

text \<open>\<open>nReadPosNext\<close> is an \<open>unsigned int\<close>: the sum of the position and a \<open>size_t\<close> is
  truncated to 32 bits before it is compared with the buffer's size.\<close>

definition CDataStream_read :: "CDataStream \<Rightarrow> nat \<Rightarrow> stream_error + bytes \<times> CDataStream" where
  "CDataStream_read s nSize =
     (if nSize = 0 then Inr ([], s)
      else let nReadPosNext = stream_pos s + of_nat nSize in
        if length (stream_vch s) < unat nReadPosNext then Inl EndOfData
        else if length (stream_vch s) < unat (stream_pos s) + nSize then Inl OutOfBounds
        else let pch = take nSize (drop (unat (stream_pos s)) (stream_vch s)) in
          if unat nReadPosNext = length (stream_vch s) then Inr (pch, s\<lparr>stream_vch := [], stream_pos := 0\<rparr>)
          else Inr (pch, s\<lparr>stream_pos := nReadPosNext\<rparr>))"

definition CDataStream_ignore :: "CDataStream \<Rightarrow> int \<Rightarrow> stream_error + CDataStream" where
  "CDataStream_ignore s nSize =
     (if nSize < 0 then Inl NegativeIgnore
      else let nReadPosNext = stream_pos s + word_of_int nSize in
        if length (stream_vch s) \<le> unat nReadPosNext then
          (if length (stream_vch s) < unat nReadPosNext then Inl EndOfData
           else Inr (s\<lparr>stream_vch := [], stream_pos := 0\<rparr>))
        else Inr (s\<lparr>stream_pos := nReadPosNext\<rparr>))"

definition CDataStream_write :: "CDataStream \<Rightarrow> bytes \<Rightarrow> CDataStream" where
  "CDataStream_write s pch = s\<lparr>stream_vch := stream_vch s @ pch\<rparr>"

text \<open>What a reader may assume of its stream: the contract \<open>read\<close> and \<open>ignore\<close> promise.\<close>

definition stream_read :: "nat \<Rightarrow> bytes reader" where
  "stream_read n s = (if n \<le> length s then Inr (take n s, drop n s) else Inl EndOfData)"

definition stream_ignore :: "nat \<Rightarrow> unit reader" where
  "stream_ignore n s = (if n \<le> length s then Inr ((), drop n s) else Inl EndOfData)"

section \<open>Integers\<close>

definition ser_writedata8 :: "byte \<Rightarrow> bytes" where "ser_writedata8 b = [b]"
definition ser_writedata16 :: "u16 \<Rightarrow> bytes" where "ser_writedata16 w = le_bytes 2 w"
definition ser_writedata32 :: "u32 \<Rightarrow> bytes" where "ser_writedata32 w = le_bytes 4 w"
definition ser_writedata64 :: "u64 \<Rightarrow> bytes" where "ser_writedata64 w = le_bytes 8 w"

definition ser_readdata8 :: "byte reader" where
  "ser_readdata8 s = bind_sum (stream_read 1 s) (\<lambda>(bs, s'). Inr (le_word bs, s'))"
definition ser_readdata16 :: "u16 reader" where
  "ser_readdata16 s = bind_sum (stream_read 2 s) (\<lambda>(bs, s'). Inr (le_word bs, s'))"
definition ser_readdata32 :: "u32 reader" where
  "ser_readdata32 s = bind_sum (stream_read 4 s) (\<lambda>(bs, s'). Inr (le_word bs, s'))"
definition ser_readdata64 :: "u64 reader" where
  "ser_readdata64 s = bind_sum (stream_read 8 s) (\<lambda>(bs, s'). Inr (le_word bs, s'))"

section \<open>Compact sizes\<close>

definition MAX_SIZE :: u64 where "MAX_SIZE = 0x02000000"

definition GetSizeOfCompactSize :: "u64 \<Rightarrow> nat" where
  "GetSizeOfCompactSize nSize =
     (if nSize < 253 then 1
      else if nSize \<le> 0xFFFF then 1 + 2
      else if nSize \<le> 0xFFFFFFFF then 1 + 4
      else 1 + 8)"

definition WriteCompactSize :: "u64 \<Rightarrow> bytes" where
  "WriteCompactSize nSize =
     (if nSize < 253 then ser_writedata8 (ucast nSize)
      else if nSize \<le> 0xFFFF then ser_writedata8 253 @ ser_writedata16 (ucast nSize)
      else if nSize \<le> 0xFFFFFFFF then ser_writedata8 254 @ ser_writedata32 (ucast nSize)
      else ser_writedata8 255 @ ser_writedata64 nSize)"

definition ReadCompactSize :: "u64 reader" where
  "ReadCompactSize s =
     bind_sum (ser_readdata8 s) (\<lambda>(chSize, s).
     bind_sum
       (if chSize < 253 then Inr (ucast chSize, s)
        else if chSize = 253 then
          bind_sum (ser_readdata16 s) (\<lambda>(w, s). let nSizeRet = ucast w in
            if nSizeRet < 253 then Inl NonCanonicalSize else Inr (nSizeRet, s))
        else if chSize = 254 then
          bind_sum (ser_readdata32 s) (\<lambda>(w, s). let nSizeRet = ucast w in
            if nSizeRet < 0x10000 then Inl NonCanonicalSize else Inr (nSizeRet, s))
        else
          bind_sum (ser_readdata64 s) (\<lambda>(nSizeRet, s).
            if nSizeRet < 0x100000000 then Inl NonCanonicalSize else Inr (nSizeRet, s)))
       (\<lambda>(nSizeRet, s). if MAX_SIZE < nSizeRet then Inl SizeTooLarge else Inr (nSizeRet, s)))"

section \<open>Variable-length integers\<close>

text \<open>For an unsigned type \<open>I\<close> of at least eight bits.  \<open>varint_tmp\<close> is the array \<open>tmp\<close> in
  the order it is filled; the \<open>do\<close> loop writes it backwards.\<close>

lemma unat_drop7: "unat (drop_bit 7 n) = unat (n::'a::len word) div 128"
  by (simp only: unat_drop_bit_eq drop_bit_nat_def power_numeral) simp

lemma varint_wide:
  fixes n :: "'a::len word"
  assumes "\<not> n \<le> 0x7F" shows "128 \<le> unat n"
proof -
  have m: "(0x7F :: 'a word) = mask 7"
    by (simp add: mask_numeral mask_eq_exp_minus_1)
  have "7 < LENGTH('a)"
  proof (rule ccontr)
    assume "\<not> ?thesis"
    then have "(mask 7 :: 'a word) = - 1"
      by (intro bit_word_eqI) (auto simp: bit_simps)
    then show False using assms m by simp
  qed
  then have "(2::nat) ^ 7 \<le> 2 ^ LENGTH('a)"
    by (intro power_increasing) auto
  then have "unat (0x7F :: 'a word) = 127"
    by (simp add: unsigned_numeral take_bit_nat_eq_self)
  then show ?thesis using assms by (simp add: word_le_nat_alt not_le)
qed

lemma varint_next:
  fixes n :: "'a::len word"
  assumes "\<not> n \<le> 0x7F" shows "unat (drop_bit 7 n - 1) = unat n div 128 - 1"
proof -
  have "drop_bit 7 n \<noteq> 0"
    using varint_wide [OF assms] unat_drop7 [of n] by (metis div_le_mono div_self not_one_le_zero unsigned_0 zero_neq_numeral)
  then show ?thesis by (simp add: unat_minus_one unat_drop7)
qed
lemma varint_decreases: "\<not> n \<le> 0x7F \<Longrightarrow> unat (drop_bit 7 n - 1) < unat (n :: 'a::len word)"
  using varint_wide [of n] varint_next [of n] by simp

function varint_tmp :: "'a::len word \<Rightarrow> bool \<Rightarrow> bytes" where
  "varint_tmp n first =
     ((ucast n AND 0x7F) OR (if first then 0x00 else 0x80)) #
     (if n \<le> 0x7F then [] else varint_tmp (drop_bit 7 n - 1) False)"
  by pat_completeness auto
termination
  by (relation "measure (\<lambda>(n, _). unat n)") (auto simp: varint_decreases)

declare varint_tmp.simps [simp del]

definition WriteVarInt :: "'a::len word \<Rightarrow> bytes" where
  "WriteVarInt n = rev (varint_tmp n True)"

function GetSizeOfVarInt_from :: "nat \<Rightarrow> 'a::len word \<Rightarrow> nat" where
  "GetSizeOfVarInt_from nRet n =
     (if n \<le> 0x7F then nRet + 1 else GetSizeOfVarInt_from (nRet + 1) (drop_bit 7 n - 1))"
  by pat_completeness auto
termination
  by (relation "measure (\<lambda>(_, n). unat n)") (auto simp: varint_decreases)

declare GetSizeOfVarInt_from.simps [simp del]

definition GetSizeOfVarInt :: "'a::len word \<Rightarrow> nat" where
  "GetSizeOfVarInt n = GetSizeOfVarInt_from 0 n"

text \<open>\<open>-1\<close> is \<open>std::numeric_limits<I>::max()\<close>.\<close>

fun ReadVarInt_from :: "'a::len word \<Rightarrow> 'a word reader" where
  "ReadVarInt_from n [] = Inl EndOfData"
| "ReadVarInt_from n (chData # s) =
     (if drop_bit 7 (- 1) < n then Inl VarIntTooLarge
      else let n = push_bit 7 n OR ucast (chData AND 0x7F) in
        if chData AND 0x80 \<noteq> 0 then
          (if n = - 1 then Inl VarIntTooLarge else ReadVarInt_from (n + 1) s)
        else Inr (n, s))"

definition ReadVarInt :: "'a::len word reader" where
  "ReadVarInt s = ReadVarInt_from 0 s"

section \<open>Vectors\<close>

text \<open>A vector of bytes is written as its compact size and its data, and read in blocks of
  at most five million bytes; any other vector is written element by element and read in
  batches of \<open>5000000 / sizeof(T)\<close> elements.  \<open>sizeof(T)\<close> above five million would make the
  batch empty and the outer loop endless.\<close>

definition Serialize_bytes :: "bytes \<Rightarrow> bytes" where
  "Serialize_bytes v = WriteCompactSize (of_nat (length v)) @ v"

function read_blocks :: "nat \<Rightarrow> nat \<Rightarrow> bytes \<Rightarrow> bytes reader" where
  "read_blocks nSize i v s =
     (if i < nSize then
        let blk = min (nSize - i) (1 + 4999999) in
        bind_sum (stream_read blk s) (\<lambda>(bs, s). read_blocks nSize (i + blk) (v @ bs) s)
      else Inr (v, s))"
  by pat_completeness auto
termination
  by (relation "measure (\<lambda>(nSize, i, _). nSize - i)") auto

declare read_blocks.simps [simp del]

definition Unserialize_bytes :: "bytes reader" where
  "Unserialize_bytes s =
     bind_sum (ReadCompactSize s) (\<lambda>(nSize, s). read_blocks (unat nSize) 0 [] s)"

definition Serialize_vector :: "('a \<Rightarrow> bytes) \<Rightarrow> 'a list \<Rightarrow> bytes" where
  "Serialize_vector ser v = WriteCompactSize (of_nat (length v)) @ concat (map ser v)"

fun read_n :: "'a reader \<Rightarrow> nat \<Rightarrow> 'a list reader" where
  "read_n unser 0 s = Inr ([], s)"
| "read_n unser (Suc n) s =
     bind_sum (unser s) (\<lambda>(x, s). bind_sum (read_n unser n s) (\<lambda>(xs, s). Inr (x # xs, s)))"

function read_batches :: "'a reader \<Rightarrow> nat \<Rightarrow> nat \<Rightarrow> nat \<Rightarrow> 'a list \<Rightarrow> 'a list reader" where
  "read_batches unser sz nSize nMid v s =
     (if nMid < nSize then
        if 5000000 div sz = 0 then Inl Diverges
        else let nMid' = min (nMid + 5000000 div sz) nSize in
          bind_sum (read_n unser (nMid' - nMid) s)
            (\<lambda>(xs, s). read_batches unser sz nSize nMid' (v @ xs) s)
      else Inr (v, s))"
  by pat_completeness auto
termination
  by (relation "measure (\<lambda>(_, _, nSize, nMid, _). nSize - nMid)") auto

declare read_batches.simps [simp del]

definition Unserialize_vector :: "'a reader \<Rightarrow> nat \<Rightarrow> 'a list reader" where
  "Unserialize_vector unser sz s =
     bind_sum (ReadCompactSize s) (\<lambda>(nSize, s). read_batches unser sz (unat nSize) 0 [] s)"

section \<open>The stream refines the sequence of unread bytes\<close>

lemma unread_write: "stream_ok s \<Longrightarrow> unread (CDataStream_write s bs) = unread s @ bs"
  by (simp add: unread_def CDataStream_write_def stream_ok_def)

lemma nReadPosNext_no_wrap:
  "unat (p :: u32) + n < 2 ^ 32 \<Longrightarrow> unat (p + of_nat n) = unat p + n"
  by (simp add: unat_word_ariths unat_of_nat)

lemma CDataStream_read_refines:
  assumes "stream_ok s" and "unat (stream_pos s) + n < 2 ^ 32"
  shows "map_sum id (map_prod id unread) (CDataStream_read s n) = stream_read n (unread s)"
  using assms nReadPosNext_no_wrap [OF assms(2)]
  by (auto simp: CDataStream_read_def stream_read_def unread_def stream_ok_def Let_def add.commute)

lemma CDataStream_read_ok:
  assumes "CDataStream_read s n = Inr (bs, s')" and "stream_ok s"
  shows "stream_ok s'"
  using assms by (auto simp: CDataStream_read_def stream_ok_def Let_def split: if_splits)

lemma CDataStream_ignore_refines:
  assumes "stream_ok s" and "0 \<le> n" and "unat (stream_pos s) + nat n < 2 ^ 32"
  shows "map_sum id (\<lambda>s'. ((), unread s')) (CDataStream_ignore s n) = stream_ignore (nat n) (unread s)"
proof -
  have "word_of_int n = (of_nat (nat n) :: u32)"
    using assms(2) by simp
  then show ?thesis
    using assms nReadPosNext_no_wrap [OF assms(3)]
    by (auto simp: CDataStream_ignore_def stream_ignore_def unread_def stream_ok_def Let_def add.commute)
qed

text \<open>With the position at zero, a read of any multiple of \<open>2\<^sup>3\<^sup>2\<close> bytes passes the bounds
  check and copies from beyond the buffer.\<close>

lemma CDataStream_read_wraps_gen:
  assumes "stream_pos s = 0" and "(of_nat n :: u32) = 0" and "0 < n" and "length (stream_vch s) < n"
  shows "CDataStream_read s n = Inl OutOfBounds"
  using assms by (simp add: CDataStream_read_def Let_def)

lemma CDataStream_read_wraps:
  assumes "stream_pos s = 0" and "0 < k" and "length (stream_vch s) < k * 2 ^ 32"
  shows "CDataStream_read s (k * 2 ^ 32) = Inl OutOfBounds"
proof (rule CDataStream_read_wraps_gen)
  show "(of_nat (k * 2 ^ 32) :: u32) = 0"
    by (simp only: word_of_nat_eq_0_iff) simp
qed (use assms in auto)

section \<open>Writers and readers as codecs\<close>

text \<open>A reader undoes a writer on the values \<open>ok\<close>, whatever follows them in the stream.\<close>

locale codec =
  fixes ser :: "'a \<Rightarrow> bytes" and unser :: "'a reader" and ok :: "'a \<Rightarrow> bool"
  assumes unser_ser: "ok x \<Longrightarrow> unser (ser x @ s) = Inr (x, s)"
begin

lemma unser_ser_Nil: "ok x \<Longrightarrow> unser (ser x) = Inr (x, [])"
  using unser_ser [of x "[]"] by simp

lemma ser_prefix_free:
  assumes "ok x" "ok y" "ser x @ s = ser y @ t"
  shows "x = y \<and> s = t"
  by (metis assms unser_ser Inr_inject Pair_inject)

lemma read_n_ser: "list_all ok xs \<Longrightarrow> read_n unser (length xs) (concat (map ser xs) @ s) = Inr (xs, s)"
  by (induction xs) (auto simp: unser_ser)

lemma read_batches_ser:
  assumes "list_all ok xs" and "0 < sz" and "sz \<le> 5000000"
  shows "read_batches unser sz (k + length xs) k v (concat (map ser xs) @ s) = Inr (v @ xs, s)"
  using assms(1)
proof (induction "length xs" arbitrary: xs k v rule: less_induct)
  case less
  have pos: "0 < 5000000 div sz"
    using assms(2,3) by (simp add: div_greater_zero_iff)
  show ?case
  proof (cases "xs = []")
    case True
    then show ?thesis by (simp add: read_batches.simps [of _ _ k k])
  next
    case False
    define m where "m = min (5000000 div sz) (length xs)"
    have m: "0 < m" "m \<le> length xs" "min (k + 5000000 div sz) (k + length xs) = k + m"
      using False pos by (auto simp: m_def)
    have split: "concat (map ser xs) @ s =
        concat (map ser (take m xs)) @ concat (map ser (drop m xs)) @ s"
      by (metis append.assoc append_take_drop_id concat_append map_append)
    have ok: "list_all ok (take m xs)" "list_all ok (drop m xs)"
      using less.prems by (auto simp: list_all_iff dest: in_set_takeD in_set_dropD)
    have rd: "read_n unser m (concat (map ser xs) @ s) =
        Inr (take m xs, concat (map ser (drop m xs)) @ s)"
      using read_n_ser [OF ok(1)] m(2) unfolding split by (simp add: min_absorb2)
    have "length (drop m xs) < length xs" and len: "k + m + length (drop m xs) = k + length xs"
      using m False by auto
    from less.hyps [OF this(1) ok(2), of "k + m" "v @ take m xs"]
    have "read_batches unser sz (k + length xs) (k + m) (v @ take m xs)
        (concat (map ser (drop m xs)) @ s) = Inr (v @ xs, s)"
      unfolding len by simp
    then show ?thesis
      using m False pos rd
      by (simp add: read_batches.simps [of _ _ "k + length xs" k] Let_def)
  qed
qed

end

section \<open>The elementary codecs\<close>

lemma stream_read_append [simp, codec_simps]: "length bs = n \<Longrightarrow> stream_read n (bs @ s) = Inr (bs, s)"
  by (simp add: stream_read_def)

interpretation u8: codec ser_writedata8 ser_readdata8 "\<lambda>_. True"
  by unfold_locales (simp add: ser_writedata8_def ser_readdata8_def stream_read_def)

interpretation u16: codec ser_writedata16 ser_readdata16 "\<lambda>_. True"
  by unfold_locales (simp add: ser_writedata16_def ser_readdata16_def)

interpretation u32: codec ser_writedata32 ser_readdata32 "\<lambda>_. True"
  by unfold_locales (simp add: ser_writedata32_def ser_readdata32_def)

interpretation u64: codec ser_writedata64 ser_readdata64 "\<lambda>_. True"
  by unfold_locales (simp add: ser_writedata64_def ser_readdata64_def)

lemmas int_codecs [codec_simps] = u8.unser_ser u16.unser_ser u32.unser_ser u64.unser_ser

lemma stream_read_Inr: "stream_read n s = Inr (bs, r) \<longleftrightarrow> s = bs @ r \<and> length bs = n"
  by (auto simp: stream_read_def)

lemma ser_readdata_Inr:
  "ser_readdata8 s = Inr (b, r) \<longleftrightarrow> s = ser_writedata8 b @ r"
  "ser_readdata16 s = Inr (w2, r) \<longleftrightarrow> s = ser_writedata16 w2 @ r"
  "ser_readdata32 s = Inr (w4, r) \<longleftrightarrow> s = ser_writedata32 w4 @ r"
  "ser_readdata64 s = Inr (w8, r) \<longleftrightarrow> s = ser_writedata64 w8 @ r"
proof -
  have eq: "le_bytes n (le_word bs :: 'a::len word) = bs" if "LENGTH('a) = 8 * n" "length bs = n" for n bs
    using le_bytes_le_word [of bs, where 'a = 'a] that by simp
  show "ser_readdata8 s = Inr (b, r) \<longleftrightarrow> s = ser_writedata8 b @ r"
    by (cases s) (auto simp: ser_readdata8_def ser_writedata8_def stream_read_def)
  show "ser_readdata16 s = Inr (w2, r) \<longleftrightarrow> s = ser_writedata16 w2 @ r"
    unfolding ser_writedata16_def
    by (auto simp: ser_readdata16_def stream_read_Inr eq split: sum.splits)
  show "ser_readdata32 s = Inr (w4, r) \<longleftrightarrow> s = ser_writedata32 w4 @ r"
    unfolding ser_writedata32_def
    by (auto simp: ser_readdata32_def stream_read_Inr eq split: sum.splits)
  show "ser_readdata64 s = Inr (w8, r) \<longleftrightarrow> s = ser_writedata64 w8 @ r"
    unfolding ser_writedata64_def
    by (auto simp: ser_readdata64_def stream_read_Inr eq split: sum.splits)
qed

lemma byte_7F: "(c :: byte) AND 0x7F = take_bit 7 c"
  by (simp add: take_bit_eq_mask mask_numeral mask_eq_exp_minus_1)

lemma push7_drop7:
  fixes n :: "'a::len word"
  assumes "7 < LENGTH('a)" and "n \<le> drop_bit 7 (- 1)"
  shows "drop_bit 7 (push_bit 7 n OR ucast (c AND 0x7F :: byte)) = n"
    and "ucast (push_bit 7 n OR ucast (c AND 0x7F)) AND 0x7F = c AND 0x7F"
proof -
  have "unat n \<le> unat (drop_bit 7 (- 1) :: 'a word)"
    using assms(2) by (simp only: word_le_nat_alt)
  also have "\<dots> = mask (LENGTH('a) - 7)"
    by (rule bit_eqI) (auto simp: bit_simps)
  finally have "unat n \<le> 2 ^ (LENGTH('a) - 7) - 1"
    by (simp add: mask_eq_exp_minus_1)
  moreover have "(0::nat) < 2 ^ (LENGTH('a) - 7)"
    by simp
  ultimately have "unat n < 2 ^ (LENGTH('a) - 7)"
    by linarith
  then have small: "take_bit (LENGTH('a) - 7) n = n"
    by (rule take_bit_word_small)
  have bits: "bit n i \<Longrightarrow> 7 + i < LENGTH('a)" for i
    by (metis bit_take_bit_iff small less_diff_conv add.commute)
  show "drop_bit 7 (push_bit 7 n OR ucast (c AND 0x7F)) = n"
    unfolding byte_7F by (intro bit_word_eqI) (auto simp: bit_simps dest: bits)
  show "ucast (push_bit 7 n OR ucast (c AND 0x7F)) AND 0x7F = c AND 0x7F"
    unfolding byte_7F using assms(1) by (intro bit_word_eqI) (auto simp: bit_simps)
qed

lemma byte_80: "(c :: byte) AND 0x80 \<noteq> 0 \<longleftrightarrow> bit c 7"
  using bit_iff_and_push_bit_not_eq_0 [of c 7] by simp

lemma byte_no_80: "\<not> bit (c :: byte) 7 \<Longrightarrow> c AND 0x7F = c"
  unfolding byte_7F by (intro bit_word_eqI) (auto simp: bit_simps less_Suc_eq eval_nat_numeral)

lemma byte_or_80: "bit (c :: byte) 7 \<Longrightarrow> (c AND 0x7F) OR 0x80 = c"
proof -
  have "(0x80 :: byte) = push_bit 7 1" by simp
  then show "bit (c :: byte) 7 \<Longrightarrow> (c AND 0x7F) OR 0x80 = c"
    unfolding byte_7F
    by (intro bit_word_eqI) (auto simp: bit_simps less_Suc_eq eval_nat_numeral)
qed

lemma ReadVarInt_canonical:
  fixes n :: "'a::len word"
  assumes w: "7 < LENGTH('a)" and "ReadVarInt_from n s = Inr (m, r)"
  shows "\<exists>p. s = p @ r \<and>
    rev (varint_tmp m True) = (if n = 0 then [] else rev (varint_tmp (n - 1) False)) @ p"
  using assms(2)
proof (induction n s rule: ReadVarInt_from.induct)
  case (1 n)
  then show ?case by simp
next
  case (2 n c s)
  define m1 where "m1 = push_bit 7 n OR ucast (c AND 0x7F)"
  have ok: "n \<le> drop_bit 7 (- 1)" and nxt: "(if c AND 0x80 \<noteq> 0 then
      (if m1 = - 1 then Inl VarIntTooLarge else ReadVarInt_from (m1 + 1) s) else Inr (m1, s)) = Inr (m, r)"
    using "2.prems" by (auto simp: m1_def Let_def not_less split: if_splits)
  note m1 = push7_drop7 [OF w ok, of c, folded m1_def]
  have le: "m1 \<le> 0x7F \<longleftrightarrow> n = 0"
  proof
    assume "m1 \<le> 0x7F"
    have "unat m1 \<le> 127" using \<open>m1 \<le> 0x7F\<close> unfolding word_le_nat_alt
      by (rule order_trans) (simp add: unsigned_numeral take_bit_nat_less_eq_self)
    then show "n = 0" using unat_drop7 [of m1] m1(1) by (simp add: unat_eq_zero)
  next
    assume "n = 0"
    then have "m1 = ucast (c AND 0x7F)" by (simp add: m1_def)
    show "m1 \<le> 0x7F"
    proof (rule ccontr)
      assume "\<not> m1 \<le> 0x7F"
      from varint_wide [OF this] have "unat (drop_bit 7 m1) \<noteq> 0" by (simp add: unat_drop7)
      with m1(1) \<open>n = 0\<close> show False by simp
    qed
  qed
  have tmp: "rev (varint_tmp m1 b) = (if n = 0 then [] else rev (varint_tmp (n - 1) False)) @
      [(c AND 0x7F) OR (if b then 0 else 0x80)]" for b
    by (subst varint_tmp.simps) (simp add: le m1)
  show ?case
  proof (cases "bit c 7")
    case False
    then have "m = m1" "r = s" using nxt byte_80 [of c] by auto
    then show ?thesis using tmp [of True] byte_no_80 [OF False] by auto
  next
    case True
    have ne: "m1 \<noteq> - 1" and rd: "ReadVarInt_from (m1 + 1) s = Inr (m, r)"
      using nxt True byte_80 [of c] by (auto split: if_splits)
    from ne have pos: "m1 + 1 \<noteq> 0"
      by (metis add.commute add_cancel_right_right eq_neg_iff_add_eq_0)
    have "\<exists>p. s = p @ r \<and> rev (varint_tmp m True) = rev (varint_tmp m1 False) @ p"
      using "2.IH" [OF _ refl _ _ ] ok ne rd True byte_80 [of c] pos
      by (simp add: m1_def)
    then show ?thesis using tmp [of False] byte_or_80 [OF True] by auto
  qed
qed

text \<open>The reader takes the digits of \<open>n\<close> back, from the most significant one.\<close>

lemma drop7_le_max: "drop_bit 7 n \<le> drop_bit 7 (- 1 :: 'a::len word)"
  unfolding word_le_nat_alt unat_drop7 by (intro div_le_mono) (simp flip: word_le_nat_alt)

lemma push7_or_low7:
  fixes n :: "'a::len word"
  assumes "7 < LENGTH('a)"
  shows "push_bit 7 (drop_bit 7 n) OR ucast ((ucast n AND 0x7F :: byte)) = n"
proof (rule bit_word_eqI)
  fix i assume "i < LENGTH('a)"
  then show "bit (push_bit 7 (drop_bit 7 n) OR ucast ((ucast n AND 0x7F :: byte))) i = bit n i"
    using assms unfolding byte_7F by (cases "i < 7") (auto simp: bit_simps)
qed

lemma ReadVarInt_from_digits:
  fixes n :: "'a::len word"
  assumes w: "7 < LENGTH('a)"
  shows "b \<or> n \<noteq> - 1 \<Longrightarrow> ReadVarInt_from 0 (rev (varint_tmp n b) @ s) =
    (if b then Inr (n, s) else ReadVarInt_from (n + 1) s)"
proof (induction n b arbitrary: s rule: varint_tmp.induct)
  case (1 n b)
  define d where "d = ((ucast n AND 0x7F) OR (if b then 0 else 0x80) :: byte)"
  have d: "d AND 0x7F = ucast n AND 0x7F" "d AND 0x80 \<noteq> 0 \<longleftrightarrow> \<not> b"
    unfolding d_def byte_80 byte_7F
    by (auto intro!: bit_word_eqI simp: bit_simps)
  have step: "ReadVarInt_from (drop_bit 7 n) (d # s) =
      (if b then Inr (n, s) else ReadVarInt_from (n + 1) s)"
    using "1.prems" drop7_le_max [of n] by (auto simp: d push7_or_low7 [OF w] Let_def dest: leD)
  show ?case
  proof (cases "n \<le> 0x7F")
    case True
    then have "drop_bit 7 n = 0"
    proof -
      have "unat n \<le> 127" using True unfolding word_le_nat_alt
        by (rule order_trans) (simp add: unsigned_numeral take_bit_nat_less_eq_self)
      then show ?thesis using unat_drop7 [of n] by (simp add: unat_eq_zero)
    qed
    then show ?thesis using True step
      by (subst varint_tmp.simps) (simp add: d_def)
  next
    case False
    have "drop_bit 7 n - 1 \<noteq> - 1"
      using varint_wide [OF False] unat_drop7 [of n] by (auto simp: unat_eq_zero)
    then have "ReadVarInt_from 0 (rev (varint_tmp (drop_bit 7 n - 1) False) @ d # s) =
        ReadVarInt_from (drop_bit 7 n) (d # s)"
      using "1.IH" [OF False] by simp
    then show ?thesis using False step
      by (subst varint_tmp.simps) (simp add: d_def)
  qed
qed

lemma ReadVarInt_WriteVarInt:
  "7 < LENGTH('a) \<Longrightarrow> ReadVarInt (WriteVarInt n @ s) = Inr (n :: 'a::len word, s)"
  by (simp add: ReadVarInt_def WriteVarInt_def ReadVarInt_from_digits)

lemma ReadVarInt_unique:
  assumes "7 < LENGTH('a)" and "ReadVarInt s = Inr (n :: 'a::len word, r)"
  shows "s = WriteVarInt n @ r"
  using ReadVarInt_canonical [of 0 s n r] assms
  by (auto simp: ReadVarInt_def WriteVarInt_def)

lemma length_varint_tmp: "GetSizeOfVarInt_from k n = k + length (varint_tmp n b)"
proof (induction n b arbitrary: k rule: varint_tmp.induct)
  case (1 n b)
  then show ?case
    by (subst varint_tmp.simps, subst GetSizeOfVarInt_from.simps) simp
qed

lemma length_WriteVarInt: "length (WriteVarInt n) = GetSizeOfVarInt n"
  using length_varint_tmp [of 0 n True] by (simp add: WriteVarInt_def GetSizeOfVarInt_def)

section \<open>Compact sizes round trip\<close>

lemma length_WriteCompactSize: "length (WriteCompactSize n) = GetSizeOfCompactSize n"
  by (simp add: WriteCompactSize_def GetSizeOfCompactSize_def ser_writedata8_def
      ser_writedata16_def ser_writedata32_def ser_writedata64_def)

lemma ucast_le_id:
  fixes n :: u64
  shows "n < 253 \<Longrightarrow> ucast (ucast n :: byte) = n"
    and "n \<le> 0xFFFF \<Longrightarrow> ucast (ucast n :: u16) = n"
    and "n \<le> 0xFFFFFFFF \<Longrightarrow> ucast (ucast n :: u32) = n"
proof -
  have "ucast (ucast n :: byte) = take_bit 8 n" "ucast (ucast n :: u16) = take_bit 16 n"
    "ucast (ucast n :: u32) = take_bit 32 n"
    by (auto intro!: bit_word_eqI simp: bit_simps)
  then show "n < 253 \<Longrightarrow> ucast (ucast n :: byte) = n"
    and "n \<le> 0xFFFF \<Longrightarrow> ucast (ucast n :: u16) = n"
    and "n \<le> 0xFFFFFFFF \<Longrightarrow> ucast (ucast n :: u32) = n"
    by (auto simp: word_less_nat_alt word_le_nat_alt intro!: take_bit_word_small)
qed

lemma ReadCompactSize_WriteCompactSize:
  assumes "n \<le> MAX_SIZE"
  shows "ReadCompactSize (WriteCompactSize n @ s) = Inr (n, s)"
proof -
  have "n \<le> 0xFFFFFFFF" using assms by (simp add: MAX_SIZE_def word_le_nat_alt)
  moreover have "n < 253 \<Longrightarrow> (ucast n :: byte) < 253"
    by (simp add: word_less_nat_alt unsigned_ucast_eq take_bit_nat_eq_self)
  ultimately show ?thesis using assms
    by (auto simp: WriteCompactSize_def ReadCompactSize_def codec_simps ucast_le_id Let_def
        not_less word_le_nat_alt word_less_nat_alt split: if_splits)
qed

lemma ucast_up_order:
  "(ucast (w :: u16) :: u64) \<le> 0xFFFF" "(ucast (v :: u32) :: u64) \<le> 0xFFFFFFFF"
  "(b :: byte) < 253 \<Longrightarrow> (ucast b :: u64) < 253"
proof -
  have "unat w < 2 ^ 16" "unat v < 2 ^ 32" by (rule order_less_le_trans [OF unsigned_less], simp)+
  then show "(ucast (w :: u16) :: u64) \<le> 0xFFFF" "(ucast (v :: u32) :: u64) \<le> 0xFFFFFFFF"
    by (simp_all add: word_le_nat_alt unsigned_ucast_eq take_bit_nat_eq_self)
  show "(b :: byte) < 253 \<Longrightarrow> (ucast b :: u64) < 253"
    by (simp add: word_less_nat_alt unsigned_ucast_eq take_bit_nat_eq_self)
qed

lemma ucast_up_down:
  "ucast (ucast (w :: u16) :: u64) = w" "ucast (ucast (v :: u32) :: u64) = v"
  "ucast (ucast (b :: byte) :: u64) = b"
  by (auto intro!: bit_word_eqI simp: bit_simps)

lemma ReadCompactSize_canonical:
  assumes "ReadCompactSize s = Inr (n, r)"
  shows "s = WriteCompactSize n @ r \<and> n \<le> MAX_SIZE"
proof -
  obtain ch t where ch: "ser_readdata8 s = Inr (ch, t)"
    using assms by (cases "ser_readdata8 s") (auto simp: ReadCompactSize_def)
  then have s: "s = ch # t" by (simp add: ser_readdata_Inr ser_writedata8_def)
  have le: "n \<le> MAX_SIZE"
    using assms ch by (auto simp: ReadCompactSize_def not_less split: if_splits sum.splits)
  consider "ch < 253" | "ch = 253" | "ch = 254" | "ch = 255"
  proof -
    have "unat ch < 256" using unsigned_less [of ch] by simp
    then have "unat ch < 253 \<or> unat ch = 253 \<or> unat ch = 254 \<or> unat ch = 255" by arith
    then show thesis using that by (auto simp: word_less_nat_alt word_unat_eq_iff)
  qed
  then show ?thesis
  proof cases
    case 1
    then have "n = ucast ch" "r = t"
      using assms ch by (auto simp: ReadCompactSize_def split: if_splits)
    then show ?thesis using s le ucast_up_order(3) [OF 1]
      by (simp add: WriteCompactSize_def ser_writedata8_def ucast_up_down)
  next
    case 2
    then obtain w where "ser_readdata16 t = Inr (w, r)" "n = ucast w" "\<not> n < 253"
      using assms ch by (auto simp: ReadCompactSize_def Let_def split: if_splits sum.splits)
    then show ?thesis using s 2 le ucast_up_order(1) [of w]
      by (simp add: WriteCompactSize_def ser_writedata8_def ucast_up_down ser_readdata_Inr)
  next
    case 3
    then obtain w where "ser_readdata32 t = Inr (w, r)" "n = ucast w" "\<not> n < 0x10000"
      using assms ch by (auto simp: ReadCompactSize_def Let_def split: if_splits sum.splits)
    moreover from this have "\<not> n \<le> 0xFFFF" "\<not> n < 253"
      by (auto simp: word_le_nat_alt word_less_nat_alt)
    ultimately show ?thesis using s 3 le ucast_up_order(2) [of w]
      by (simp add: WriteCompactSize_def ser_writedata8_def ucast_up_down ser_readdata_Inr)
  next
    case 4
    then have "\<not> n < 0x100000000"
      using assms ch by (auto simp: ReadCompactSize_def Let_def split: if_splits sum.splits)
    then show ?thesis using le
      by (simp add: MAX_SIZE_def word_le_nat_alt word_less_nat_alt)
  qed
qed

interpretation compact_size: codec WriteCompactSize ReadCompactSize "\<lambda>n. n \<le> MAX_SIZE"
  by unfold_locales (rule ReadCompactSize_WriteCompactSize)

interpretation varint32: codec "WriteVarInt :: u32 \<Rightarrow> bytes" ReadVarInt "\<lambda>_. True"
  by unfold_locales (simp add: ReadVarInt_WriteVarInt)

interpretation varint64: codec "WriteVarInt :: u64 \<Rightarrow> bytes" ReadVarInt "\<lambda>_. True"
  by unfold_locales (simp add: ReadVarInt_WriteVarInt)

lemmas size_codecs [codec_simps] = compact_size.unser_ser varint32.unser_ser varint64.unser_ser

section \<open>Vectors round trip\<close>

abbreviation fits_size :: "'a list \<Rightarrow> bool" where
  "fits_size v \<equiv> length v \<le> 0x02000000"

lemma read_size:
  assumes "fits_size v"
  shows "ReadCompactSize (WriteCompactSize (of_nat (length v)) @ s) = Inr (of_nat (length v), s)"
    and "unat (of_nat (length v) :: u64) = length v"
proof -
  show "unat (of_nat (length v) :: u64) = length v"
    using assms by (simp add: unsigned_of_nat take_bit_nat_eq_self)
  then show "ReadCompactSize (WriteCompactSize (of_nat (length v)) @ s) = Inr (of_nat (length v), s)"
    using assms by (intro compact_size.unser_ser) (simp add: MAX_SIZE_def word_le_nat_alt)
qed

lemma read_blocks_append:
  "read_blocks (k + length bs) k v (bs @ s) = Inr (v @ bs, s)"
proof (induction "length bs" arbitrary: bs k v rule: less_induct)
  case less
  show ?case
  proof (cases "bs = []")
    case True
    then show ?thesis by (simp add: read_blocks.simps [of k k])
  next
    case False
    define m where "m = min (length bs) 5000000"
    have m: "0 < m" "m \<le> length bs" using False by (auto simp: m_def)
    have split: "bs @ s = take m bs @ drop m bs @ s" by simp
    have "length (drop m bs) < length bs" and len: "k + m + length (drop m bs) = k + length bs"
      using m False by auto
    from less.hyps [OF this(1), of "k + m" "v @ take m bs"]
    have "read_blocks (k + length bs) (k + m) (v @ take m bs) (drop m bs @ s) = Inr (v @ bs, s)"
      unfolding len by simp
    moreover have "stream_read m (bs @ s) = Inr (take m bs, drop m bs @ s)"
      unfolding split using m(2) by (intro stream_read_append) simp
    ultimately show ?thesis
      using False by (simp add: read_blocks.simps [of "k + length bs" k] Let_def m_def)
  qed
qed

interpretation byte_vector: codec Serialize_bytes Unserialize_bytes "fits_size"
proof
  fix v s assume "fits_size (v :: bytes)"
  with read_blocks_append [of 0 v "[]" s] show "Unserialize_bytes (Serialize_bytes v @ s) = Inr (v, s)"
    by (simp add: Serialize_bytes_def Unserialize_bytes_def read_size)
qed

locale vector_codec = codec +
  fixes sz :: nat
  assumes sz_pos: "0 < sz" and sz_le: "sz \<le> 5000000"
begin

lemma vector_unser_ser:
  assumes "list_all ok v" and "fits_size v"
  shows "Unserialize_vector unser sz (Serialize_vector ser v @ s) = Inr (v, s)"
  using read_batches_ser [OF assms(1) sz_pos sz_le, of 0 "[]" s]
  by (simp add: Serialize_vector_def Unserialize_vector_def read_size [OF assms(2)])

end

sublocale vector_codec \<subseteq> vector: codec
  "Serialize_vector ser" "Unserialize_vector unser sz" "\<lambda>v. list_all ok v \<and> fits_size v"
  by unfold_locales (simp add: vector_unser_ser)

end
