(* ===== verification/Script.thy ===== *)
theory Script imports Serialize
begin

unbundle bit_operations_syntax

text \<open>
  Scripts (\<^verbatim>\<open>src/src/script/script.h\<close> and \<^verbatim>\<open>script.cpp\<close>): the opcodes, script numbers
  (\<open>CScriptNum\<close>), reading one instruction (\<open>GetOp2\<close>), appending data and numbers
  (\<open>operator<<\<close>), \<open>FindAndDelete\<close>, signature-operation counts and the script templates the
  consensus rules recognise.  A script is its byte sequence; an iterator into it is the
  remaining bytes.  The lemmas: the encoding of numbers is a bijection with its minimal
  encodings, a pushed element is read back, \<open>FindAndDelete\<close> removes what it counts, and the
  counts are bounded.
\<close>

section \<open>Opcodes\<close>

type_synonym opcodetype = byte
type_synonym script = bytes
type_synonym valtype = bytes

abbreviation OP_0 :: byte where "OP_0 \<equiv> 0x00"
abbreviation OP_FALSE :: byte where "OP_FALSE \<equiv> 0x00"
abbreviation OP_PUSHDATA1 :: byte where "OP_PUSHDATA1 \<equiv> 0x4c"
abbreviation OP_PUSHDATA2 :: byte where "OP_PUSHDATA2 \<equiv> 0x4d"
abbreviation OP_PUSHDATA4 :: byte where "OP_PUSHDATA4 \<equiv> 0x4e"
abbreviation OP_1NEGATE :: byte where "OP_1NEGATE \<equiv> 0x4f"
abbreviation OP_RESERVED :: byte where "OP_RESERVED \<equiv> 0x50"
abbreviation OP_1 :: byte where "OP_1 \<equiv> 0x51"
abbreviation OP_TRUE :: byte where "OP_TRUE \<equiv> 0x51"
abbreviation OP_2 :: byte where "OP_2 \<equiv> 0x52"
abbreviation OP_3 :: byte where "OP_3 \<equiv> 0x53"
abbreviation OP_4 :: byte where "OP_4 \<equiv> 0x54"
abbreviation OP_5 :: byte where "OP_5 \<equiv> 0x55"
abbreviation OP_6 :: byte where "OP_6 \<equiv> 0x56"
abbreviation OP_7 :: byte where "OP_7 \<equiv> 0x57"
abbreviation OP_8 :: byte where "OP_8 \<equiv> 0x58"
abbreviation OP_9 :: byte where "OP_9 \<equiv> 0x59"
abbreviation OP_10 :: byte where "OP_10 \<equiv> 0x5a"
abbreviation OP_11 :: byte where "OP_11 \<equiv> 0x5b"
abbreviation OP_12 :: byte where "OP_12 \<equiv> 0x5c"
abbreviation OP_13 :: byte where "OP_13 \<equiv> 0x5d"
abbreviation OP_14 :: byte where "OP_14 \<equiv> 0x5e"
abbreviation OP_15 :: byte where "OP_15 \<equiv> 0x5f"
abbreviation OP_16 :: byte where "OP_16 \<equiv> 0x60"
abbreviation OP_NOP :: byte where "OP_NOP \<equiv> 0x61"
abbreviation OP_VER :: byte where "OP_VER \<equiv> 0x62"
abbreviation OP_IF :: byte where "OP_IF \<equiv> 0x63"
abbreviation OP_NOTIF :: byte where "OP_NOTIF \<equiv> 0x64"
abbreviation OP_VERIF :: byte where "OP_VERIF \<equiv> 0x65"
abbreviation OP_VERNOTIF :: byte where "OP_VERNOTIF \<equiv> 0x66"
abbreviation OP_ELSE :: byte where "OP_ELSE \<equiv> 0x67"
abbreviation OP_ENDIF :: byte where "OP_ENDIF \<equiv> 0x68"
abbreviation OP_VERIFY :: byte where "OP_VERIFY \<equiv> 0x69"
abbreviation OP_RETURN :: byte where "OP_RETURN \<equiv> 0x6a"
abbreviation OP_TOALTSTACK :: byte where "OP_TOALTSTACK \<equiv> 0x6b"
abbreviation OP_FROMALTSTACK :: byte where "OP_FROMALTSTACK \<equiv> 0x6c"
abbreviation OP_2DROP :: byte where "OP_2DROP \<equiv> 0x6d"
abbreviation OP_2DUP :: byte where "OP_2DUP \<equiv> 0x6e"
abbreviation OP_3DUP :: byte where "OP_3DUP \<equiv> 0x6f"
abbreviation OP_2OVER :: byte where "OP_2OVER \<equiv> 0x70"
abbreviation OP_2ROT :: byte where "OP_2ROT \<equiv> 0x71"
abbreviation OP_2SWAP :: byte where "OP_2SWAP \<equiv> 0x72"
abbreviation OP_IFDUP :: byte where "OP_IFDUP \<equiv> 0x73"
abbreviation OP_DEPTH :: byte where "OP_DEPTH \<equiv> 0x74"
abbreviation OP_DROP :: byte where "OP_DROP \<equiv> 0x75"
abbreviation OP_DUP :: byte where "OP_DUP \<equiv> 0x76"
abbreviation OP_NIP :: byte where "OP_NIP \<equiv> 0x77"
abbreviation OP_OVER :: byte where "OP_OVER \<equiv> 0x78"
abbreviation OP_PICK :: byte where "OP_PICK \<equiv> 0x79"
abbreviation OP_ROLL :: byte where "OP_ROLL \<equiv> 0x7a"
abbreviation OP_ROT :: byte where "OP_ROT \<equiv> 0x7b"
abbreviation OP_SWAP :: byte where "OP_SWAP \<equiv> 0x7c"
abbreviation OP_TUCK :: byte where "OP_TUCK \<equiv> 0x7d"
abbreviation OP_CAT :: byte where "OP_CAT \<equiv> 0x7e"
abbreviation OP_SUBSTR :: byte where "OP_SUBSTR \<equiv> 0x7f"
abbreviation OP_LEFT :: byte where "OP_LEFT \<equiv> 0x80"
abbreviation OP_RIGHT :: byte where "OP_RIGHT \<equiv> 0x81"
abbreviation OP_SIZE :: byte where "OP_SIZE \<equiv> 0x82"
abbreviation OP_INVERT :: byte where "OP_INVERT \<equiv> 0x83"
abbreviation OP_AND :: byte where "OP_AND \<equiv> 0x84"
abbreviation OP_OR :: byte where "OP_OR \<equiv> 0x85"
abbreviation OP_XOR :: byte where "OP_XOR \<equiv> 0x86"
abbreviation OP_EQUAL :: byte where "OP_EQUAL \<equiv> 0x87"
abbreviation OP_EQUALVERIFY :: byte where "OP_EQUALVERIFY \<equiv> 0x88"
abbreviation OP_RESERVED1 :: byte where "OP_RESERVED1 \<equiv> 0x89"
abbreviation OP_RESERVED2 :: byte where "OP_RESERVED2 \<equiv> 0x8a"
abbreviation OP_1ADD :: byte where "OP_1ADD \<equiv> 0x8b"
abbreviation OP_1SUB :: byte where "OP_1SUB \<equiv> 0x8c"
abbreviation OP_2MUL :: byte where "OP_2MUL \<equiv> 0x8d"
abbreviation OP_2DIV :: byte where "OP_2DIV \<equiv> 0x8e"
abbreviation OP_NEGATE :: byte where "OP_NEGATE \<equiv> 0x8f"
abbreviation OP_ABS :: byte where "OP_ABS \<equiv> 0x90"
abbreviation OP_NOT :: byte where "OP_NOT \<equiv> 0x91"
abbreviation OP_0NOTEQUAL :: byte where "OP_0NOTEQUAL \<equiv> 0x92"
abbreviation OP_ADD :: byte where "OP_ADD \<equiv> 0x93"
abbreviation OP_SUB :: byte where "OP_SUB \<equiv> 0x94"
abbreviation OP_MUL :: byte where "OP_MUL \<equiv> 0x95"
abbreviation OP_DIV :: byte where "OP_DIV \<equiv> 0x96"
abbreviation OP_MOD :: byte where "OP_MOD \<equiv> 0x97"
abbreviation OP_LSHIFT :: byte where "OP_LSHIFT \<equiv> 0x98"
abbreviation OP_RSHIFT :: byte where "OP_RSHIFT \<equiv> 0x99"
abbreviation OP_BOOLAND :: byte where "OP_BOOLAND \<equiv> 0x9a"
abbreviation OP_BOOLOR :: byte where "OP_BOOLOR \<equiv> 0x9b"
abbreviation OP_NUMEQUAL :: byte where "OP_NUMEQUAL \<equiv> 0x9c"
abbreviation OP_NUMEQUALVERIFY :: byte where "OP_NUMEQUALVERIFY \<equiv> 0x9d"
abbreviation OP_NUMNOTEQUAL :: byte where "OP_NUMNOTEQUAL \<equiv> 0x9e"
abbreviation OP_LESSTHAN :: byte where "OP_LESSTHAN \<equiv> 0x9f"
abbreviation OP_GREATERTHAN :: byte where "OP_GREATERTHAN \<equiv> 0xa0"
abbreviation OP_LESSTHANOREQUAL :: byte where "OP_LESSTHANOREQUAL \<equiv> 0xa1"
abbreviation OP_GREATERTHANOREQUAL :: byte where "OP_GREATERTHANOREQUAL \<equiv> 0xa2"
abbreviation OP_MIN :: byte where "OP_MIN \<equiv> 0xa3"
abbreviation OP_MAX :: byte where "OP_MAX \<equiv> 0xa4"
abbreviation OP_WITHIN :: byte where "OP_WITHIN \<equiv> 0xa5"
abbreviation OP_RIPEMD160 :: byte where "OP_RIPEMD160 \<equiv> 0xa6"
abbreviation OP_SHA1 :: byte where "OP_SHA1 \<equiv> 0xa7"
abbreviation OP_SHA256 :: byte where "OP_SHA256 \<equiv> 0xa8"
abbreviation OP_HASH160 :: byte where "OP_HASH160 \<equiv> 0xa9"
abbreviation OP_HASH256 :: byte where "OP_HASH256 \<equiv> 0xaa"
abbreviation OP_CODESEPARATOR :: byte where "OP_CODESEPARATOR \<equiv> 0xab"
abbreviation OP_CHECKSIG :: byte where "OP_CHECKSIG \<equiv> 0xac"
abbreviation OP_CHECKSIGVERIFY :: byte where "OP_CHECKSIGVERIFY \<equiv> 0xad"
abbreviation OP_CHECKMULTISIG :: byte where "OP_CHECKMULTISIG \<equiv> 0xae"
abbreviation OP_CHECKMULTISIGVERIFY :: byte where "OP_CHECKMULTISIGVERIFY \<equiv> 0xaf"
abbreviation OP_NOP1 :: byte where "OP_NOP1 \<equiv> 0xb0"
abbreviation OP_CHECKLOCKTIMEVERIFY :: byte where "OP_CHECKLOCKTIMEVERIFY \<equiv> 0xb1"
abbreviation OP_NOP2 :: byte where "OP_NOP2 \<equiv> 0xb1"
abbreviation OP_CHECKSEQUENCEVERIFY :: byte where "OP_CHECKSEQUENCEVERIFY \<equiv> 0xb2"
abbreviation OP_NOP3 :: byte where "OP_NOP3 \<equiv> 0xb2"
abbreviation OP_NOP4 :: byte where "OP_NOP4 \<equiv> 0xb3"
abbreviation OP_NOP5 :: byte where "OP_NOP5 \<equiv> 0xb4"
abbreviation OP_NOP6 :: byte where "OP_NOP6 \<equiv> 0xb5"
abbreviation OP_NOP7 :: byte where "OP_NOP7 \<equiv> 0xb6"
abbreviation OP_NOP8 :: byte where "OP_NOP8 \<equiv> 0xb7"
abbreviation OP_NOP9 :: byte where "OP_NOP9 \<equiv> 0xb8"
abbreviation OP_NOP10 :: byte where "OP_NOP10 \<equiv> 0xb9"
abbreviation OP_SMALLINTEGER :: byte where "OP_SMALLINTEGER \<equiv> 0xfa"
abbreviation OP_PUBKEYS :: byte where "OP_PUBKEYS \<equiv> 0xfb"
abbreviation OP_PUBKEYHASH :: byte where "OP_PUBKEYHASH \<equiv> 0xfd"
abbreviation OP_PUBKEY :: byte where "OP_PUBKEY \<equiv> 0xfe"
abbreviation OP_INVALIDOPCODE :: byte where "OP_INVALIDOPCODE \<equiv> 0xff"

definition MAX_OPCODE :: byte where "MAX_OPCODE = OP_NOP10"
definition MAX_SCRIPT_ELEMENT_SIZE :: nat where "MAX_SCRIPT_ELEMENT_SIZE = 520"
definition MAX_OPS_PER_SCRIPT :: nat where "MAX_OPS_PER_SCRIPT = 201"
definition MAX_PUBKEYS_PER_MULTISIG :: nat where "MAX_PUBKEYS_PER_MULTISIG = 20"
definition MAX_SCRIPT_SIZE :: nat where "MAX_SCRIPT_SIZE = 10000"
definition MAX_STACK_SIZE :: nat where "MAX_STACK_SIZE = 1000"
definition LOCKTIME_THRESHOLD :: int where "LOCKTIME_THRESHOLD = 500000000"

section \<open>Script numbers\<close>

text \<open>A number is stored as an \<open>int64_t\<close>; its encoding is little-endian sign and magnitude.\<close>

fun abs_bytes :: "nat \<Rightarrow> bytes" where
  "abs_bytes absvalue =
     (if absvalue = 0 then [] else of_nat (absvalue mod 256) # abs_bytes (absvalue div 256))"

declare abs_bytes.simps [simp del]

definition CScriptNum_serialize :: "int \<Rightarrow> bytes" where
  "CScriptNum_serialize val =
     (if val = 0 then []
      else let neg = val < 0; result = abs_bytes (nat (abs val)) in
        if last result AND 0x80 \<noteq> 0 then result @ [if neg then 0x80 else 0]
        else if neg then butlast result @ [last result OR 0x80]
        else result)"

definition CScriptNum_set_vch :: "bytes \<Rightarrow> int" where
  "CScriptNum_set_vch vch =
     (if vch = [] then 0
      else let result = (le_word vch :: u64) in
        if last vch AND 0x80 \<noteq> 0
        then - sint (result AND NOT (push_bit (8 * (length vch - 1)) 0x80))
        else sint result)"

datatype scriptnum_error = NumberOverflow | NonMinimalNumber

definition nDefaultMaxNumSize :: nat where "nDefaultMaxNumSize = 4"

definition CScriptNum_of :: "bytes \<Rightarrow> bool \<Rightarrow> nat \<Rightarrow> scriptnum_error + int" where
  "CScriptNum_of vch fRequireMinimal nMaxNumSize =
     (if nMaxNumSize < length vch then Inl NumberOverflow
      else if fRequireMinimal \<and> 0 < length vch \<and> last vch AND 0x7F = 0 \<and>
              (length vch \<le> 1 \<or> vch ! (length vch - 2) AND 0x80 = 0)
      then Inl NonMinimalNumber
      else Inr (CScriptNum_set_vch vch))"

definition CScriptNum_getint :: "int \<Rightarrow> int" where
  "CScriptNum_getint m_value =
     (if m_value > 2 ^ 31 - 1 then 2 ^ 31 - 1
      else if m_value < - (2 ^ 31) then - (2 ^ 31)
      else m_value)"

section \<open>Appending to a script\<close>

definition push_opcode :: "script \<Rightarrow> opcodetype \<Rightarrow> script" where
  "push_opcode s opcode = s @ [opcode]"

definition push_data :: "script \<Rightarrow> valtype \<Rightarrow> script" where
  "push_data s b =
     (if length b < unat OP_PUSHDATA1 then s @ [of_nat (length b)]
      else if length b \<le> 0xFF then s @ [OP_PUSHDATA1, of_nat (length b)]
      else if length b \<le> 0xFFFF then s @ [OP_PUSHDATA2] @ le_bytes 2 (of_nat (length b) :: u16)
      else s @ [OP_PUSHDATA4] @ le_bytes 4 (of_nat (length b) :: u32)) @ b"

definition push_int64 :: "script \<Rightarrow> int \<Rightarrow> script" where
  "push_int64 s n =
     (if n = - 1 \<or> 1 \<le> n \<and> n \<le> 16 then s @ [word_of_int (n + (uint OP_1 - 1))]
      else if n = 0 then s @ [OP_0]
      else push_data s (CScriptNum_serialize n))"

section \<open>Reading a script\<close>

text \<open>\<open>GetOp2\<close> returns whether it succeeded, the opcode and the pushed data (cleared on
  failure), and the iterator it leaves behind, which a failing call has already moved past the
  opcode and the length it read.\<close>

definition GetOp2 :: "script \<Rightarrow> bool \<times> opcodetype \<times> valtype \<times> script" where
  "GetOp2 s =
     (case s of
        [] \<Rightarrow> (False, OP_INVALIDOPCODE, [], [])
      | opcode # pc \<Rightarrow>
          if opcode \<le> OP_PUSHDATA4 then
            (case
               (if opcode < OP_PUSHDATA1 then Some (unat opcode, pc)
                else if opcode = OP_PUSHDATA1 then
                  (if length pc < 1 then None else Some (unat (hd pc), drop 1 pc))
                else if opcode = OP_PUSHDATA2 then
                  (if length pc < 2 then None
                   else Some (unat (le_word (take 2 pc) :: u16), drop 2 pc))
                else
                  (if length pc < 4 then None
                   else Some (unat (le_word (take 4 pc) :: u32), drop 4 pc))) of
               None \<Rightarrow> (False, OP_INVALIDOPCODE, [], pc)
             | Some (nSize, pc) \<Rightarrow>
                 if length pc < nSize then (False, OP_INVALIDOPCODE, [], pc)
                 else (True, opcode, take nSize pc, drop nSize pc))
          else (True, opcode, [], pc))"

definition GetOp :: "script \<Rightarrow> (opcodetype \<times> valtype \<times> script) option" where
  "GetOp s = (case GetOp2 s of (ok, opcode, data, pc) \<Rightarrow> if ok then Some (opcode, data, pc) else None)"

lemma GetOp2_shorter: "GetOp2 s = (True, opcode, data, pc) \<Longrightarrow> length pc < length s"
  by (auto simp: GetOp2_def split: list.splits if_splits option.splits)

lemma GetOp_shorter: "GetOp s = Some (opcode, data, pc) \<Longrightarrow> length pc < length s"
  by (auto simp: GetOp_def split: prod.splits if_splits dest: GetOp2_shorter)

section \<open>Small integers\<close>

text \<open>The assertions are the \<open>None\<close> branches.\<close>

definition DecodeOP_N :: "opcodetype \<Rightarrow> nat option" where
  "DecodeOP_N opcode =
     (if opcode = OP_0 then Some 0
      else if OP_1 \<le> opcode \<and> opcode \<le> OP_16 then Some (unat opcode - (unat OP_1 - 1))
      else None)"

definition EncodeOP_N :: "nat \<Rightarrow> opcodetype option" where
  "EncodeOP_N n =
     (if n \<le> 16 then Some (if n = 0 then OP_0 else OP_1 + of_nat n - 1) else None)"

section \<open>Deleting a subscript\<close>

function skip_matches :: "script \<Rightarrow> script \<Rightarrow> nat \<Rightarrow> script \<times> nat" where
  "skip_matches b pc nFound =
     (if b \<noteq> [] \<and> length b \<le> length pc \<and> take (length b) pc = b
      then skip_matches b (drop (length b) pc) (nFound + 1)
      else (pc, nFound))"
  by pat_completeness auto
termination
  by (relation "measure (\<lambda>(_, pc, _). length pc)") (auto simp flip: length_greater_0_conv)

declare skip_matches.simps [simp del]

lemma skip_matches_le: "skip_matches b pc n = (pc', n') \<Longrightarrow> length pc' \<le> length pc"
proof (induction b pc n rule: skip_matches.induct)
  case (1 b pc n)
  then show ?case
    by (subst (asm) (2) skip_matches.simps) (auto split: if_splits)
qed

text \<open>One iteration of the \<open>do\<close> loop copies what lies between \<open>pc2\<close> and \<open>pc\<close>, skips the
  matches at \<open>pc\<close> and moves on by one instruction.\<close>

function FindAndDelete_loop ::
  "script \<Rightarrow> script \<Rightarrow> script \<Rightarrow> script \<Rightarrow> nat \<Rightarrow> script \<times> script \<times> nat" where
  "FindAndDelete_loop b result pc2 pc nFound =
     (let result = result @ take (length pc2 - length pc) pc2;
          (pc, nFound) = skip_matches b pc nFound in
      case GetOp pc of
        Some (_, _, pc') \<Rightarrow> FindAndDelete_loop b result pc pc' nFound
      | None \<Rightarrow> (result, pc, nFound))"
  by pat_completeness auto
termination
  by (relation "measure (\<lambda>(_, _, _, pc, _). length pc)")
    (force dest: GetOp_shorter skip_matches_le [OF sym])+

declare FindAndDelete_loop.simps [simp del]

definition FindAndDelete :: "script \<Rightarrow> script \<Rightarrow> script \<times> nat" where
  "FindAndDelete s b =
     (if b = [] then (s, 0)
      else let (result, pc2, nFound) = FindAndDelete_loop b [] s s 0 in
        if 0 < nFound then (result @ pc2, nFound) else (s, nFound))"

function Find_from :: "opcodetype \<Rightarrow> script \<Rightarrow> nat \<Rightarrow> nat" where
  "Find_from op pc nFound =
     (case GetOp pc of
        None \<Rightarrow> nFound
      | Some (opcode, _, pc') \<Rightarrow> Find_from op pc' (if opcode = op then nFound + 1 else nFound))"
  by pat_completeness auto
termination
  by (relation "measure (\<lambda>(_, pc, _). length pc)") (auto dest: GetOp_shorter)

declare Find_from.simps [simp del]

definition Find :: "script \<Rightarrow> opcodetype \<Rightarrow> nat" where
  "Find s op = Find_from op s 0"

section \<open>Script templates\<close>

definition IsPayToScriptHash :: "script \<Rightarrow> bool" where
  "IsPayToScriptHash s \<longleftrightarrow>
     length s = 23 \<and> s ! 0 = OP_HASH160 \<and> s ! 1 = 0x14 \<and> s ! 22 = OP_EQUAL"

definition IsPayToWitnessScriptHash :: "script \<Rightarrow> bool" where
  "IsPayToWitnessScriptHash s \<longleftrightarrow> length s = 34 \<and> s ! 0 = OP_0 \<and> s ! 1 = 0x20"

text \<open>The version and the program, when the script is a witness program.\<close>

definition IsWitnessProgram :: "script \<Rightarrow> (nat \<times> bytes) option" where
  "IsWitnessProgram s =
     (if length s < 4 \<or> 42 < length s then None
      else if s ! 0 \<noteq> OP_0 \<and> (s ! 0 < OP_1 \<or> OP_16 < s ! 0) then None
      else if unat (s ! 1) + 2 = length s then
        (case DecodeOP_N (s ! 0) of Some version \<Rightarrow> Some (version, drop 2 s) | None \<Rightarrow> None)
      else None)"

function IsPushOnly :: "script \<Rightarrow> bool" where
  "IsPushOnly pc =
     (if pc = [] then True
      else case GetOp pc of
        None \<Rightarrow> False
      | Some (opcode, _, pc') \<Rightarrow> if OP_16 < opcode then False else IsPushOnly pc')"
  by pat_completeness auto
termination
  by (relation "measure length") (auto dest: GetOp_shorter)

function HasValidOps :: "script \<Rightarrow> bool" where
  "HasValidOps it =
     (if it = [] then True
      else case GetOp it of
        None \<Rightarrow> False
      | Some (opcode, item, it') \<Rightarrow>
          if MAX_OPCODE < opcode \<or> MAX_SCRIPT_ELEMENT_SIZE < length item then False
          else HasValidOps it')"
  by pat_completeness auto
termination
  by (relation "measure length") (auto dest: GetOp_shorter)

declare IsPushOnly.simps [simp del] HasValidOps.simps [simp del]

definition IsUnspendable :: "script \<Rightarrow> bool" where
  "IsUnspendable s \<longleftrightarrow> (0 < length s \<and> hd s = OP_RETURN) \<or> MAX_SCRIPT_SIZE < length s"

section \<open>Counting signature operations\<close>

function GetSigOpCount_from :: "bool \<Rightarrow> opcodetype \<Rightarrow> nat \<Rightarrow> script \<Rightarrow> nat" where
  "GetSigOpCount_from fAccurate lastOpcode n pc =
     (case GetOp pc of
        None \<Rightarrow> n
      | Some (opcode, _, pc') \<Rightarrow>
          let n' =
            (if opcode = OP_CHECKSIG \<or> opcode = OP_CHECKSIGVERIFY then n + 1
             else if opcode = OP_CHECKMULTISIG \<or> opcode = OP_CHECKMULTISIGVERIFY then
               (if fAccurate \<and> OP_1 \<le> lastOpcode \<and> lastOpcode \<le> OP_16
                then n + the (DecodeOP_N lastOpcode)
                else n + MAX_PUBKEYS_PER_MULTISIG)
             else n)
          in GetSigOpCount_from fAccurate opcode n' pc')"
  by pat_completeness auto
termination
  by (relation "measure (\<lambda>(_, _, _, pc). length pc)") (auto dest: GetOp_shorter)

declare GetSigOpCount_from.simps [simp del]

definition GetSigOpCount :: "script \<Rightarrow> bool \<Rightarrow> nat" where
  "GetSigOpCount s fAccurate = GetSigOpCount_from fAccurate OP_INVALIDOPCODE 0 s"

text \<open>The data of the last instruction of a push-only script; \<open>None\<close> where the loop returns
  early.\<close>

function last_push_from :: "valtype \<Rightarrow> script \<Rightarrow> valtype option" where
  "last_push_from vData pc =
     (if pc = [] then Some vData
      else case GetOp pc of
        None \<Rightarrow> None
      | Some (opcode, vData', pc') \<Rightarrow>
          if OP_16 < opcode then None else last_push_from vData' pc')"
  by pat_completeness auto
termination
  by (relation "measure (\<lambda>(_, pc). length pc)") (auto dest: GetOp_shorter)

declare last_push_from.simps [simp del]

definition GetSigOpCount_p2sh :: "script \<Rightarrow> script \<Rightarrow> nat" where
  "GetSigOpCount_p2sh s scriptSig =
     (if \<not> IsPayToScriptHash s then GetSigOpCount s True
      else case last_push_from [] scriptSig of
        None \<Rightarrow> 0
      | Some vData \<Rightarrow> GetSigOpCount vData True)"

section \<open>Numbers and their encodings\<close>

primrec le_nat :: "bytes \<Rightarrow> nat" where
  "le_nat [] = 0"
| "le_nat (b # bs) = unat b + 256 * le_nat bs"

lemma le_nat_append: "le_nat (bs @ cs) = le_nat bs + 256 ^ length bs * le_nat cs"
  by (induction bs) (auto simp: algebra_simps)

lemma le_nat_less: "le_nat bs < 256 ^ length bs"
proof (induction bs)
  case Nil
  then show ?case by simp
next
  case (Cons b bs)
  have "le_nat (b # bs) < 256 * (le_nat bs + 1)" by simp
  also have "\<dots> \<le> 256 * 256 ^ length bs" using Cons by (intro mult_le_mono2) simp
  finally show ?case by simp
qed

lemma le_word_le_nat: "le_word bs = (of_nat (le_nat bs) :: 'a::len word)"
proof (induction bs)
  case Nil
  then show ?case by simp
next
  case (Cons b bs)
  have "ucast b OR push_bit 8 w = ucast b + push_bit 8 w" for w :: "'a word"
    by (rule disjunctive_add [symmetric]) (auto simp: bit_simps dest: bit_imp_le_length)
  then show ?case
    by (simp add: Cons push_bit_eq_mult mult.commute)
qed

lemma le_nat_abs_bytes [simp]: "le_nat (abs_bytes n) = n"
proof (induction n rule: abs_bytes.induct)
  case (1 n)
  have "unat (of_nat (n mod 256) :: byte) = n mod 256"
    by (simp add: unsigned_of_nat take_bit_nat_eq_self)
  then show ?case using 1 by (subst abs_bytes.simps) auto
qed

lemma abs_bytes_eq_Nil [simp]: "abs_bytes n = [] \<longleftrightarrow> n = 0"
  by (subst abs_bytes.simps) simp

lemma abs_bytes_le_nat: "bs = [] \<or> last bs \<noteq> 0 \<Longrightarrow> abs_bytes (le_nat bs) = bs"
proof (induction bs)
  case Nil
  then show ?case by simp
next
  case (Cons b bs)
  have b: "unat b < 256" using unat_byte_less [of b] by simp
  have ne: "le_nat (b # bs) \<noteq> 0"
  proof (cases "bs = []")
    case True
    then show ?thesis using Cons.prems by (simp add: unat_eq_zero)
  next
    case False
    then have "abs_bytes (le_nat bs) = bs" using Cons by simp
    then have "le_nat bs \<noteq> 0" using False by (metis abs_bytes_eq_Nil)
    then show ?thesis by simp
  qed
  have "le_nat (b # bs) mod 256 = unat b" "le_nat (b # bs) div 256 = le_nat bs"
    using b by auto
  moreover have "abs_bytes (le_nat bs) = bs"
    using Cons by (cases "bs = []") auto
  ultimately show ?case using ne
    by (subst abs_bytes.simps) simp
qed

lemma last_abs_bytes: "n \<noteq> 0 \<Longrightarrow> last (abs_bytes n) \<noteq> 0"
proof (induction n rule: abs_bytes.induct)
  case (1 n)
  show ?case
  proof (cases "n div 256 = 0")
    case True
    then have "n < 256" by (simp add: div_eq_0_iff)
    then have "(of_nat (n mod 256) :: byte) \<noteq> 0"
      using "1.prems" by (simp add: word_of_nat_eq_0_iff) (metis dvd_imp_le neq0_conv not_less)
    then show ?thesis using True "1.prems" by (subst abs_bytes.simps) simp
  next
    case False
    then have "last (abs_bytes (n div 256)) \<noteq> 0" using 1 by simp
    then show ?thesis using False "1.prems" by (subst abs_bytes.simps) simp
  qed
qed

lemma length_abs_bytes_le: "length (abs_bytes n) \<le> k \<longleftrightarrow> n < 256 ^ k"
proof (induction n arbitrary: k rule: abs_bytes.induct)
  case (1 n)
  show ?case
  proof (cases "n = 0")
    case True
    then show ?thesis by (subst abs_bytes.simps) simp
  next
    case False
    then show ?thesis
    proof (cases k)
      case 0
      with False show ?thesis by (subst abs_bytes.simps) simp
    next
      case (Suc j)
      have "length (abs_bytes n) \<le> k \<longleftrightarrow> n div 256 < 256 ^ j"
        using False 1 [of j] Suc by (subst abs_bytes.simps) simp
      also have "\<dots> \<longleftrightarrow> n < 256 ^ k"
        using Suc by (simp add: div_less_iff_less_mult mult.commute)
      finally show ?thesis .
    qed
  qed
qed

text \<open>Both directions go through the magnitude: the bytes with the sign bit cleared.\<close>

definition magnitude :: "bytes \<Rightarrow> nat" where
  "magnitude vch = le_nat (butlast vch @ [last vch AND 0x7F])"

lemma unat_7F: "unat ((c :: byte) AND 0x7F) < 128"
proof -
  have "unat (take_bit 7 c) < 2 ^ 7"
    by (simp only: unsigned_take_bit_eq take_bit_nat_less_exp)
  then show ?thesis by (simp add: byte_7F)
qed

lemma magnitude_less:
  assumes "vch \<noteq> []" shows "magnitude vch < 2 ^ (8 * length vch - 1)"
proof -
  have l: "8 * length vch - 1 = 8 * length (butlast vch) + 7" using assms by (cases vch) auto
  have "magnitude vch < 256 ^ length (butlast vch) * (unat (last vch AND 0x7F) + 1)"
    using le_nat_less [of "butlast vch"] by (simp add: magnitude_def le_nat_append algebra_simps)
  also have "\<dots> \<le> 256 ^ length (butlast vch) * 128"
    using unat_7F [of "last vch"] by (intro mult_le_mono2) simp
  also have "\<dots> = 2 ^ (8 * length vch - 1)"
    unfolding l by (simp add: power_add power_mult)
  finally show ?thesis .
qed

lemma bit_0x80: "bit (0x80 :: int) n \<longleftrightarrow> n = 7"
proof -
  have "(0x80 :: int) = push_bit 7 1" by simp
  then show ?thesis by (simp only: bit_simps) auto
qed

lemma le_word_clear_sign:
  assumes "vch \<noteq> []" and "8 * length vch \<le> LENGTH('a)"
  shows "(le_word vch :: 'a::len word) AND NOT (push_bit (8 * (length vch - 1)) 0x80) =
    le_word (butlast vch @ [last vch AND 0x7F])"
  using assms
proof (induction vch)
  case Nil
  then show ?case by simp
next
  case (Cons b vch)
  show ?case
  proof (cases "vch = []")
    case True
    show ?thesis
    proof (rule bit_word_eqI)
      fix n assume "n < LENGTH('a)"
      then show "bit ((le_word (b # vch) :: 'a word) AND
            NOT (push_bit (8 * (length (b # vch) - 1)) 0x80)) n =
          bit (le_word (butlast (b # vch) @ [last (b # vch) AND 0x7F]) :: 'a word) n"
        using True Cons.prems bit_imp_le_length [of b n] unfolding byte_7F
        by (auto simp: bit_simps bit_0x80)
    qed
  next
    case False
    define k where "k = 8 * (length vch - 1)"
    have k: "8 * (length (b # vch) - 1) = k + 8" using False by (cases vch) (auto simp: k_def)
    have "(le_word (b # vch) :: 'a word) AND NOT (push_bit (k + 8) 0x80) =
        ucast b OR push_bit 8 (le_word vch AND NOT (push_bit k 0x80))"
      by (rule bit_word_eqI) (auto simp: bit_simps add.commute dest: bit_imp_le_length)
    also have "le_word vch AND NOT (push_bit k 0x80) =
        (le_word (butlast vch @ [last vch AND 0x7F]) :: 'a word)"
      using Cons False by (simp add: k_def)
    finally show ?thesis using False by (simp only: k) simp
  qed
qed

lemma butlast_last_7F: "vch \<noteq> [] \<Longrightarrow> \<not> bit (last vch :: byte) 7 \<Longrightarrow> butlast vch @ [last vch AND 0x7F] = vch"
  by (simp add: byte_no_80)

lemma sint_le_word:
  assumes "vch \<noteq> []" and "length vch \<le> 8"
  shows "sint (le_word (butlast vch @ [last vch AND 0x7F]) :: u64) = int (magnitude vch)"
proof -
  have "magnitude vch < 2 ^ (8 * length vch - 1)" by (rule magnitude_less) fact
  also have "\<dots> \<le> 2 ^ 63" using assms(2) by (intro power_increasing) auto
  finally have "magnitude vch < 2 ^ 63" .
  then show ?thesis
    by (simp add: le_word_le_nat magnitude_def        signed_of_nat signed_take_bit_int_eq_self)
qed

lemma CScriptNum_set_vch_magnitude:
  assumes "vch \<noteq> []" and "length vch \<le> 8"
  shows "CScriptNum_set_vch vch =
    (if bit (last vch) 7 then - int (magnitude vch) else int (magnitude vch))"
  using assms sint_le_word [OF assms] le_word_clear_sign [of vch, where 'a = 64]
    butlast_last_7F [OF assms(1)] byte_80 [of "last vch"]
  by (auto simp: CScriptNum_set_vch_def Let_def simp del: bit_not_iff)

lemma CScriptNum_serialize_cases:
  assumes "val \<noteq> 0"
  defines "r \<equiv> abs_bytes (nat (abs val))"
  shows "r \<noteq> []" and "last r \<noteq> 0"
    and "bit (last r) 7 \<Longrightarrow> CScriptNum_serialize val = r @ [if val < 0 then 0x80 else 0]"
    and "\<not> bit (last r) 7 \<Longrightarrow> val < 0 \<Longrightarrow>
      CScriptNum_serialize val = butlast r @ [last r OR 0x80]"
    and "\<not> bit (last r) 7 \<Longrightarrow> 0 < val \<Longrightarrow> CScriptNum_serialize val = r"
  using assms last_abs_bytes [of "nat (abs val)"] byte_80 [of "last r"]
  by (auto simp: CScriptNum_serialize_def Let_def)

lemma sign_bytes:
  "bit (0x80 :: byte) 7" "\<not> bit (0 :: byte) 7" "(0x80 :: byte) AND 0x7F = 0" "(0 :: byte) AND 0x7F = 0"
  "bit ((c :: byte) OR 0x80) 7"
  "\<not> bit (c :: byte) 7 \<Longrightarrow> (c OR 0x80) AND 0x7F = c"
proof -
  show "\<not> bit (c :: byte) 7 \<Longrightarrow> (c OR 0x80) AND 0x7F = c"
    by (rule trans [OF _ byte_no_80]) (auto simp: bit.conj_disj_distrib2)
qed (auto simp: bit_simps bit_0x80)

text \<open>The sign, the magnitude and the length of an encoded number.\<close>

lemma CScriptNum_serialize_magnitude:
  assumes "val \<noteq> 0"
  shows "CScriptNum_serialize val \<noteq> []"
    and "magnitude (CScriptNum_serialize val) = nat (abs val)"
    and "bit (last (CScriptNum_serialize val)) 7 \<longleftrightarrow> val < 0"
proof -
  define r where "r = abs_bytes (nat (abs val))"
  note r = CScriptNum_serialize_cases [OF assms, folded r_def]
  have m: "le_nat r = nat (abs val)" by (simp add: r_def)
  consider "bit (last r) 7" | "\<not> bit (last r) 7" "val < 0" | "\<not> bit (last r) 7" "0 < val"
    using assms by linarith
  then have "CScriptNum_serialize val \<noteq> [] \<and>
      magnitude (CScriptNum_serialize val) = nat (abs val) \<and>
      (bit (last (CScriptNum_serialize val)) 7 \<longleftrightarrow> val < 0)"
  proof cases
    case 1
    then show ?thesis using r(3) m
      by (auto simp: magnitude_def le_nat_append sign_bytes)
  next
    case 2
    then show ?thesis using r(1,4) m
      by (simp add: magnitude_def sign_bytes)
  next
    case 3
    then show ?thesis using r(1,5) m
      by (auto simp: magnitude_def byte_no_80)
  qed
  then show "CScriptNum_serialize val \<noteq> []"
    and "magnitude (CScriptNum_serialize val) = nat (abs val)"
    and "bit (last (CScriptNum_serialize val)) 7 \<longleftrightarrow> val < 0" by auto
qed

lemma length_serialize_le:
  assumes "0 < n" and "abs val < 2 ^ (8 * n - 1)"
  shows "length (CScriptNum_serialize val) \<le> n"
proof (cases "val = 0")
  case True
  then show ?thesis by (simp add: CScriptNum_serialize_def)
next
  case False
  define r where "r = abs_bytes (nat (abs val))"
  note r = CScriptNum_serialize_cases [OF False, folded r_def]
  have m: "le_nat r = nat (abs val)" by (simp add: r_def)
  have lt: "nat (abs val) < 2 ^ (8 * n - 1)"
    using assms(2) by (simp add: nat_less_iff)
  have "(2::nat) ^ (8 * n - 1) \<le> 2 ^ (8 * n)" by (intro power_increasing) auto
  also have "\<dots> = 256 ^ n" by (simp add: power_mult)
  finally have le: "(2::nat) ^ (8 * n - 1) \<le> 256 ^ n" .
  have len: "length r \<le> n"
    unfolding r_def length_abs_bytes_le using lt le by (rule order_less_le_trans)
  show ?thesis
  proof (cases "bit (last r) 7")
    case True
    have "length r \<noteq> n"
    proof
      assume eq: "length r = n"
      have "128 \<le> unat (last r)"
        using True unat_drop7 [of "last r"]
        by (metis (no_types) bit_0_eq bit_iff_odd_drop_bit byte_80 div_greater_zero_iff
            drop_bit_of_0 even_zero gr0I not_less unat_eq_zero zero_less_numeral)
      then have "256 ^ (n - 1) * 128 \<le> 256 ^ (n - 1) * unat (last r)" by simp
      also have "\<dots> \<le> le_nat (butlast r @ [last r])"
        using eq by (simp add: le_nat_append)
      also have "\<dots> = nat (abs val)" using m r(1) by simp
      also have "\<dots> < 2 ^ (8 * n - 1)" by (rule lt)
      also have "8 * n - 1 = 8 * (n - 1) + 7" using assms(1) by simp
      finally show False by (simp add: power_add power_mult)
    qed
    then show ?thesis using len r(3) [OF True] by simp
  next
    case F: False
    have "length (butlast r @ [x]) = length r" for x using r(1) by (cases r) auto
    then show ?thesis using F len r(4,5) False by (cases "val < 0") (auto simp del: length_append)
  qed
qed

lemma set_vch_serialize:
  assumes "abs val < 2 ^ 63"
  shows "CScriptNum_set_vch (CScriptNum_serialize val) = val"
proof (cases "val = 0")
  case True
  then show ?thesis by (simp add: CScriptNum_serialize_def CScriptNum_set_vch_def)
next
  case False
  have "length (CScriptNum_serialize val) \<le> 8"
    using assms by (intro length_serialize_le) auto
  then show ?thesis
    using CScriptNum_set_vch_magnitude CScriptNum_serialize_magnitude [OF False] by auto
qed


lemma serialize_minimal:
  assumes "val \<noteq> 0"
  defines "v \<equiv> CScriptNum_serialize val"
  shows "last v AND 0x7F \<noteq> 0 \<or> 1 < length v \<and> v ! (length v - 2) AND 0x80 \<noteq> 0"
proof -
  define r where "r = abs_bytes (nat (abs val))"
  note r = CScriptNum_serialize_cases [OF assms(1), folded r_def v_def]
  have snd: "(r @ [x]) ! (length (r @ [x]) - 2) = last r" for x
    using r(1) by (simp add: nth_append last_conv_nth)
  show ?thesis
  proof (cases "bit (last r) 7")
    case True
    then show ?thesis using r(1,3) snd byte_80 [of "last r"] by (cases r) (auto split: if_splits)
  next
    case False
    then have "last r AND 0x7F = last r" by (rule byte_no_80)
    then show ?thesis using False r sign_bytes(6) [OF False] assms(1)
      by (cases "val < 0") auto
  qed
qed

lemma CScriptNum_of_serialize:
  assumes "0 < n" and "n \<le> 8" and "abs val < 2 ^ (8 * n - 1)"
  shows "CScriptNum_of (CScriptNum_serialize val) fRequireMinimal n = Inr val"
proof -
  have "(2::int) ^ (8 * n - 1) \<le> 2 ^ 63" using assms(2) by (intro power_increasing) auto
  then have "CScriptNum_set_vch (CScriptNum_serialize val) = val"
    using assms(3) by (intro set_vch_serialize) simp
  moreover have "length (CScriptNum_serialize val) \<le> n"
    using assms(1,3) by (rule length_serialize_le)
  moreover have "val = 0 \<Longrightarrow> CScriptNum_serialize val = []"
    by (simp add: CScriptNum_serialize_def)
  ultimately show ?thesis
    using serialize_minimal [of val] by (cases "val = 0") (auto simp: CScriptNum_of_def)
qed

lemma serialize_set_vch:
  assumes "length vch \<le> 8"
    and "vch = [] \<or> last vch AND 0x7F \<noteq> 0 \<or> 1 < length vch \<and> vch ! (length vch - 2) AND 0x80 \<noteq> 0"
  shows "CScriptNum_serialize (CScriptNum_set_vch vch) = vch"
proof (cases "vch = []")
  case True
  then show ?thesis by (simp add: CScriptNum_serialize_def CScriptNum_set_vch_def)
next
  case ne: False
  define bs where "bs = butlast vch"
  define b where "b = last vch"
  have vch: "vch = bs @ [b]" using ne by (simp add: bs_def b_def)
  define m where "m = magnitude vch"
  have m: "m = le_nat (bs @ [b AND 0x7F])" by (simp add: m_def magnitude_def vch)
  note v = CScriptNum_set_vch_magnitude [OF ne assms(1), folded m_def]
  show ?thesis
  proof (cases "b AND 0x7F = 0")
    case False
    have nb: "\<not> bit (b AND 0x7F) 7" by (simp add: byte_7F bit_take_bit_iff)
    have r: "abs_bytes m = bs @ [b AND 0x7F]"
      unfolding m using False by (intro abs_bytes_le_nat) simp
    then have "m \<noteq> 0" by (metis abs_bytes_eq_Nil append_is_Nil_conv not_Cons_self)
    then show ?thesis
      using v CScriptNum_serialize_cases(4,5) [of "CScriptNum_set_vch vch"] nb r
      by (cases "bit b 7") (auto simp: vch byte_or_80 byte_no_80)
  next
    case True
    then have ge: "bs \<noteq> []" and top: "last bs AND 0x80 \<noteq> 0"
      using assms(2) ne by (auto simp: vch nth_append last_conv_nth numeral_2_eq_2)
    have "last bs \<noteq> 0" using top by auto
    then have r: "abs_bytes m = bs"
      unfolding m using True by (simp add: le_nat_append abs_bytes_le_nat)
    have b: "b = (if bit b 7 then 0x80 else 0)"
      using True byte_or_80 [of b] byte_no_80 [of b] by auto
    have "m \<noteq> 0" using r ge by auto
    then show ?thesis
      using v CScriptNum_serialize_cases(3) [of "CScriptNum_set_vch vch"] r top b
      by (auto simp: vch byte_80)
  qed
qed

lemma CScriptNum_of_minimal_unique:
  assumes "CScriptNum_of vch True n = Inr val" and "n \<le> 8"
  shows "vch = CScriptNum_serialize val"
  using assms serialize_set_vch [of vch]
  by (auto simp: CScriptNum_of_def split: if_splits)

lemma CScriptNum_of_bound:
  assumes "CScriptNum_of vch r n = Inr val" and "0 < n" and "n \<le> 8"
  shows "abs val < 2 ^ (8 * n - 1)"
proof (cases "vch = []")
  case True
  then show ?thesis using assms by (auto simp: CScriptNum_of_def CScriptNum_set_vch_def split: if_splits)
next
  case False
  have len: "length vch \<le> n" and v: "val = CScriptNum_set_vch vch"
    using assms(1) by (auto simp: CScriptNum_of_def split: if_splits)
  have "int (magnitude vch) < int (2 ^ (8 * length vch - 1))"
    using magnitude_less [OF False] by simp
  also have "\<dots> \<le> 2 ^ (8 * n - 1)" using len by simp
  finally show ?thesis
    using CScriptNum_set_vch_magnitude [OF False] len assms(3) v by auto
qed

section \<open>Pushed data is read back\<close>

lemma GetOp_push_data:
  assumes "length b < 2 ^ 32"
  shows "\<exists>opcode. GetOp (push_data [] b @ s) = Some (opcode, b, s) \<and> opcode \<le> OP_PUSHDATA4"
proof -
  have u: "unat (of_nat (length b) :: byte) = length b" if "length b \<le> 0xFF"
    using that by simp
  have w: "unat (of_nat (length b) :: u16) = length b" if "length b \<le> 0xFFFF"
    using that by (simp add: unsigned_of_nat take_bit_nat_eq_self)
  have d: "unat (of_nat (length b) :: u32) = length b"
    using assms by (simp add: unsigned_of_nat take_bit_nat_eq_self)
  show ?thesis
  proof (cases "length b < 76")
    case True
    then have "(of_nat (length b) :: byte) < OP_PUSHDATA1" "(of_nat (length b) :: byte) \<le> OP_PUSHDATA4"
      by (auto simp: word_less_nat_alt word_le_nat_alt)
    then show ?thesis using True
      by (simp add: GetOp_def GetOp2_def push_data_def)
  next
    case False
    then show ?thesis using u w d
      by (auto simp: GetOp_def GetOp2_def push_data_def)
  qed
qed

section \<open>Deletion removes what it counts\<close>

lemma skip_matches_length:
  "skip_matches b pc n = (pc', n') \<Longrightarrow> length pc' + n' * length b = length pc + n * length b"
proof (induction b pc n rule: skip_matches.induct)
  case (1 b pc n)
  show ?case
  proof (cases "b \<noteq> [] \<and> length b \<le> length pc \<and> take (length b) pc = b")
    case True
    then have "length pc' + n' * length b = length (drop (length b) pc) + (n + 1) * length b"
      using 1 by (simp add: skip_matches.simps [of b pc])
    then show ?thesis using True by simp
  next
    case False
    then show ?thesis using "1.prems" by (subst (asm) skip_matches.simps) auto
  qed
qed

lemma FindAndDelete_loop_length:
  "FindAndDelete_loop b result pc2 pc n = (result', pc', n') \<Longrightarrow> length pc \<le> length pc2 \<Longrightarrow>
    length result' + length pc' + n' * length b = length result + length pc2 + n * length b"
proof (induction b result pc2 pc n rule: FindAndDelete_loop.induct)
  case (1 b result pc2 pc n)
  obtain pc1 n1 where sk: "skip_matches b pc n = (pc1, n1)" by force
  note len = skip_matches_length [OF sk]
  let ?r = "result @ take (length pc2 - length pc) pc2"
  have lr: "length ?r + length pc = length result + length pc2" using "1.prems"(2) by simp
  show ?case
  proof (cases "GetOp pc1")
    case None
    then have "result' = ?r" "pc' = pc1" "n' = n1"
      using "1.prems"(1) sk by (subst (asm) FindAndDelete_loop.simps; simp)+
    then show ?thesis using len lr by simp
  next
    case (Some t)
    obtain op v pc3 where t: "t = (op, v, pc3)" by (cases t)
    have lt: "length pc3 \<le> length pc1" using GetOp_shorter Some t by force
    have "FindAndDelete_loop b ?r pc1 pc3 n1 = (result', pc', n')"
      using "1.prems"(1) sk Some t by (subst (asm) FindAndDelete_loop.simps) simp
    then have "length result' + length pc' + n' * length b =
        length ?r + length pc1 + n1 * length b"
      using "1.IH" [OF refl sk [symmetric] refl Some] t lt by simp
    then show ?thesis using len lr by linarith
  qed
qed

lemma FindAndDelete_length:
  assumes "FindAndDelete s b = (s', n)"
  shows "length s' + n * length b = length s" and "n = 0 \<Longrightarrow> s' = s"
  using assms FindAndDelete_loop_length [of b "[]" s s 0]
  by (auto simp: FindAndDelete_def split: if_splits prod.splits)

section \<open>The signature-operation count is bounded\<close>

lemma DecodeOP_N_le: "DecodeOP_N opcode = Some n \<Longrightarrow> n \<le> 16"
  by (auto simp: DecodeOP_N_def word_le_nat_alt split: if_splits)

lemma DecodeOP_N_defined: "OP_1 \<le> opcode \<Longrightarrow> opcode \<le> OP_16 \<Longrightarrow> \<exists>n. DecodeOP_N opcode = Some n"
  by (simp add: DecodeOP_N_def)

lemma DecodeOP_N_EncodeOP_N: "n \<le> 16 \<Longrightarrow> Option.bind (EncodeOP_N n) DecodeOP_N = Some n"
proof -
  assume "n \<le> 16"
  then have "n \<in> set [0..<17]" by simp
  moreover have "\<forall>n \<in> set [0..<17]. Option.bind (EncodeOP_N n) DecodeOP_N = Some n"
    by code_simp
  ultimately show ?thesis by blast
qed

lemma GetSigOpCount_from_bound:
  "GetSigOpCount_from acc lst n pc \<le> n + MAX_PUBKEYS_PER_MULTISIG * length pc"
proof (induction acc lst n pc rule: GetSigOpCount_from.induct)
  case (1 acc lst n pc)
  show ?case
  proof (cases "GetOp pc")
    case None
    then show ?thesis by (subst GetSigOpCount_from.simps) simp
  next
    case (Some t)
    obtain op v pc' where t: "t = (op, v, pc')" by (cases t)
    have lt: "length pc' < length pc" using GetOp_shorter Some t by force
    define n' where "n' = (if op = OP_CHECKSIG \<or> op = OP_CHECKSIGVERIFY then n + 1
       else if op = OP_CHECKMULTISIG \<or> op = OP_CHECKMULTISIGVERIFY then
         (if acc \<and> OP_1 \<le> lst \<and> lst \<le> OP_16 then n + the (DecodeOP_N lst)
          else n + MAX_PUBKEYS_PER_MULTISIG) else n)"
    have "n' \<le> n + MAX_PUBKEYS_PER_MULTISIG"
      using DecodeOP_N_defined [of lst] DecodeOP_N_le [of lst]
      by (auto simp: n'_def MAX_PUBKEYS_PER_MULTISIG_def)
    moreover have "GetSigOpCount_from acc lst n pc = GetSigOpCount_from acc op n' pc'"
      using Some t by (subst GetSigOpCount_from.simps) (simp add: n'_def)
    moreover have "GetSigOpCount_from acc op n' pc' \<le> n' + MAX_PUBKEYS_PER_MULTISIG * length pc'"
      using "1.IH" Some t by (simp add: n'_def)
    moreover have "MAX_PUBKEYS_PER_MULTISIG * length pc' + MAX_PUBKEYS_PER_MULTISIG
        \<le> MAX_PUBKEYS_PER_MULTISIG * length pc"
      using lt by (simp add: MAX_PUBKEYS_PER_MULTISIG_def)
    ultimately show ?thesis by linarith
  qed
qed

lemma GetSigOpCount_bound: "GetSigOpCount s acc \<le> MAX_PUBKEYS_PER_MULTISIG * length s"
  using GetSigOpCount_from_bound [of acc _ 0 s] by (simp add: GetSigOpCount_def)

end
