(* ===== verification/Interpreter.thy ===== *)
theory Interpreter imports Script
begin

unbundle bit_operations_syntax

text \<open>
  The script virtual machine of \<^verbatim>\<open>src/src/script/interpreter.cpp\<close>: \<open>EvalScript\<close> with one
  definition per opcode handler.  A stack is a list whose head is the vector's \<open>back()\<close>, so
  \<open>stacktop(-i)\<close> is element \<open>i - 1\<close>; \<open>vfExec\<close> likewise.  The signature checker is the record
  of the virtual functions of \<open>BaseSignatureChecker\<close> and the hash functions are a record too, so
  that the machine is stated for any of them.  An \<open>Inl\<close> result is the script error the code
  stores in \<open>serror\<close>, or a failed assertion; every exception is caught by \<open>EvalScript\<close> and
  becomes \<open>SCRIPT_ERR_UNKNOWN_ERROR\<close>.
\<close>

section \<open>Errors, flags and the interfaces of the machine\<close>

datatype ScriptError =
    SCRIPT_ERR_OK | SCRIPT_ERR_UNKNOWN_ERROR | SCRIPT_ERR_EVAL_FALSE | SCRIPT_ERR_OP_RETURN
  | SCRIPT_ERR_SCRIPT_SIZE | SCRIPT_ERR_PUSH_SIZE | SCRIPT_ERR_OP_COUNT | SCRIPT_ERR_STACK_SIZE
  | SCRIPT_ERR_SIG_COUNT | SCRIPT_ERR_PUBKEY_COUNT
  | SCRIPT_ERR_VERIFY | SCRIPT_ERR_EQUALVERIFY | SCRIPT_ERR_CHECKMULTISIGVERIFY
  | SCRIPT_ERR_CHECKSIGVERIFY | SCRIPT_ERR_NUMEQUALVERIFY
  | SCRIPT_ERR_BAD_OPCODE | SCRIPT_ERR_DISABLED_OPCODE | SCRIPT_ERR_INVALID_STACK_OPERATION
  | SCRIPT_ERR_INVALID_ALTSTACK_OPERATION | SCRIPT_ERR_UNBALANCED_CONDITIONAL
  | SCRIPT_ERR_NEGATIVE_LOCKTIME | SCRIPT_ERR_UNSATISFIED_LOCKTIME
  | SCRIPT_ERR_SIG_HASHTYPE | SCRIPT_ERR_MINIMALDATA | SCRIPT_ERR_SIG_PUSHONLY
  | SCRIPT_ERR_SIG_HIGH_S | SCRIPT_ERR_SIG_NULLDUMMY | SCRIPT_ERR_PUBKEYTYPE
  | SCRIPT_ERR_CLEANSTACK | SCRIPT_ERR_MINIMALIF | SCRIPT_ERR_SIG_NULLFAIL
  | SCRIPT_ERR_DISCOURAGE_UPGRADABLE_NOPS | SCRIPT_ERR_DISCOURAGE_UPGRADABLE_WITNESS_PROGRAM
  | SCRIPT_ERR_WITNESS_PROGRAM_WRONG_LENGTH | SCRIPT_ERR_WITNESS_PROGRAM_WITNESS_EMPTY
  | SCRIPT_ERR_WITNESS_PROGRAM_MISMATCH | SCRIPT_ERR_WITNESS_MALLEATED
  | SCRIPT_ERR_WITNESS_MALLEATED_P2SH | SCRIPT_ERR_WITNESS_UNEXPECTED
  | SCRIPT_ERR_WITNESS_PUBKEYTYPE | SCRIPT_ERR_ERROR_COUNT

datatype failure = Script_error ScriptError | Assertion_failed

datatype SigVersion = SIGVERSION_BASE | SIGVERSION_WITNESS_V0

abbreviation SIGHASH_ALL :: nat where "SIGHASH_ALL \<equiv> 1"
abbreviation SIGHASH_NONE :: nat where "SIGHASH_NONE \<equiv> 2"
abbreviation SIGHASH_SINGLE :: nat where "SIGHASH_SINGLE \<equiv> 3"
abbreviation SIGHASH_ANYONECANPAY :: nat where "SIGHASH_ANYONECANPAY \<equiv> 0x80"

abbreviation SCRIPT_VERIFY_NONE :: u32 where "SCRIPT_VERIFY_NONE \<equiv> 0"
abbreviation SCRIPT_VERIFY_P2SH :: u32 where "SCRIPT_VERIFY_P2SH \<equiv> 0x1"
abbreviation SCRIPT_VERIFY_STRICTENC :: u32 where "SCRIPT_VERIFY_STRICTENC \<equiv> 0x2"
abbreviation SCRIPT_VERIFY_NULLDUMMY :: u32 where "SCRIPT_VERIFY_NULLDUMMY \<equiv> 0x10"
abbreviation SCRIPT_VERIFY_SIGPUSHONLY :: u32 where "SCRIPT_VERIFY_SIGPUSHONLY \<equiv> 0x20"
abbreviation SCRIPT_VERIFY_MINIMALDATA :: u32 where "SCRIPT_VERIFY_MINIMALDATA \<equiv> 0x40"
abbreviation SCRIPT_VERIFY_DISCOURAGE_UPGRADABLE_NOPS :: u32 where
  "SCRIPT_VERIFY_DISCOURAGE_UPGRADABLE_NOPS \<equiv> 0x80"
abbreviation SCRIPT_VERIFY_CLEANSTACK :: u32 where "SCRIPT_VERIFY_CLEANSTACK \<equiv> 0x100"
abbreviation SCRIPT_VERIFY_CHECKLOCKTIMEVERIFY :: u32 where
  "SCRIPT_VERIFY_CHECKLOCKTIMEVERIFY \<equiv> 0x200"
abbreviation SCRIPT_VERIFY_CHECKSEQUENCEVERIFY :: u32 where
  "SCRIPT_VERIFY_CHECKSEQUENCEVERIFY \<equiv> 0x400"
abbreviation SCRIPT_VERIFY_WITNESS :: u32 where "SCRIPT_VERIFY_WITNESS \<equiv> 0x800"
abbreviation SCRIPT_VERIFY_DISCOURAGE_UPGRADABLE_WITNESS_PROGRAM :: u32 where
  "SCRIPT_VERIFY_DISCOURAGE_UPGRADABLE_WITNESS_PROGRAM \<equiv> 0x1000"
abbreviation SCRIPT_VERIFY_MINIMALIF :: u32 where "SCRIPT_VERIFY_MINIMALIF \<equiv> 0x2000"
abbreviation SCRIPT_VERIFY_NULLFAIL :: u32 where "SCRIPT_VERIFY_NULLFAIL \<equiv> 0x4000"
abbreviation SCRIPT_VERIFY_WITNESS_PUBKEYTYPE :: u32 where
  "SCRIPT_VERIFY_WITNESS_PUBKEYTYPE \<equiv> 0x8000"

definition flag_set :: "u32 \<Rightarrow> u32 \<Rightarrow> bool" where
  "flag_set flags f \<longleftrightarrow> flags AND f \<noteq> 0"

definition PUBLIC_KEY_SIZE :: nat where "PUBLIC_KEY_SIZE = 32"

text \<open>\<open>CTxIn::SEQUENCE_LOCKTIME_DISABLE_FLAG\<close>, the bit \<open>1 << 31\<close>.\<close>

definition SEQUENCE_LOCKTIME_DISABLE_FLAG :: int where
  "SEQUENCE_LOCKTIME_DISABLE_FLAG = 2 ^ 31"

record checker =
  CheckSig :: "valtype \<Rightarrow> valtype \<Rightarrow> script \<Rightarrow> SigVersion \<Rightarrow> bool"
  CheckLockTime :: "int \<Rightarrow> bool"
  CheckSequence :: "int \<Rightarrow> bool"

definition BaseSignatureChecker :: checker where
  "BaseSignatureChecker =
     \<lparr>CheckSig = (\<lambda>_ _ _ _. False), CheckLockTime = (\<lambda>_. False), CheckSequence = (\<lambda>_. False)\<rparr>"

record hashers =
  RIPEMD160 :: "bytes \<Rightarrow> bytes"
  SHA1 :: "bytes \<Rightarrow> bytes"
  SHA3_256 :: "bytes \<Rightarrow> bytes"
  Hash160 :: "bytes \<Rightarrow> bytes"
  Hash256 :: "bytes \<Rightarrow> bytes"

record eval_env =
  flags :: u32
  sigversion :: SigVersion
  sig_checker :: checker
  hash_fns :: hashers

type_synonym stack = "valtype list"

record eval_state =
  stk :: stack
  altstack :: stack
  vfExec :: "bool list"
  nOpCount :: nat
  eval_pc :: script
  pbegincodehash :: script

section \<open>Values and encodings\<close>

text \<open>True when some byte is non-zero, except for a lone sign bit in the last byte.\<close>

fun CastToBool :: "valtype \<Rightarrow> bool" where
  "CastToBool [] = False"
| "CastToBool (b # vch) = (if b \<noteq> 0 then \<not> (vch = [] \<and> b = 0x80) else CastToBool vch)"

definition vchFalse :: valtype where "vchFalse = []"
definition vchTrue :: valtype where "vchTrue = [1]"

definition vch_of_bool :: "bool \<Rightarrow> valtype" where
  "vch_of_bool b = (if b then vchTrue else vchFalse)"

abbreviation set_error :: "ScriptError \<Rightarrow> failure + 'a" where
  "set_error e \<equiv> Inl (Script_error e)"

definition IsCompressedOrUncompressedPubKey :: "valtype \<Rightarrow> bool" where
  "IsCompressedOrUncompressedPubKey vchPubKey = (if length vchPubKey \<noteq> PUBLIC_KEY_SIZE then False else True)"

definition IsCompressedPubKey :: "valtype \<Rightarrow> bool" where
  "IsCompressedPubKey vchPubKey = (if length vchPubKey \<noteq> PUBLIC_KEY_SIZE then False else True)"

definition IsDefinedHashtypeSignature :: "valtype \<Rightarrow> bool" where
  "IsDefinedHashtypeSignature vchSig =
     (if length vchSig = 0 then False
      else let nHashType = vchSig ! (length vchSig - 1) AND NOT 0x80 in
        if nHashType < of_nat SIGHASH_ALL \<or> of_nat SIGHASH_SINGLE < nHashType then False else True)"

definition CheckSignatureEncoding :: "valtype \<Rightarrow> u32 \<Rightarrow> failure + unit" where
  "CheckSignatureEncoding vchSig fl =
     (if length vchSig = 0 then Inr ()
      else if flag_set fl SCRIPT_VERIFY_STRICTENC \<and> \<not> IsDefinedHashtypeSignature vchSig
      then set_error SCRIPT_ERR_SIG_HASHTYPE
      else Inr ())"

definition CheckPubKeyEncoding :: "valtype \<Rightarrow> u32 \<Rightarrow> SigVersion \<Rightarrow> failure + unit" where
  "CheckPubKeyEncoding vchPubKey fl sigver =
     (if flag_set fl SCRIPT_VERIFY_STRICTENC \<and> \<not> IsCompressedOrUncompressedPubKey vchPubKey
      then set_error SCRIPT_ERR_PUBKEYTYPE
      else if flag_set fl SCRIPT_VERIFY_WITNESS_PUBKEYTYPE \<and> sigver = SIGVERSION_WITNESS_V0 \<and>
              \<not> IsCompressedPubKey vchPubKey
      then set_error SCRIPT_ERR_WITNESS_PUBKEYTYPE
      else Inr ())"

text \<open>\<open>None\<close> is the failed assertion on the opcode.\<close>

definition CheckMinimalPush :: "valtype \<Rightarrow> opcodetype \<Rightarrow> bool option" where
  "CheckMinimalPush dat opcode =
     (if \<not> opcode \<le> OP_PUSHDATA4 then None
      else Some
       (if length dat = 0 then opcode = OP_0
        else if length dat = 1 \<and> 1 \<le> dat ! 0 \<and> dat ! 0 \<le> 16 then False
        else if length dat = 1 \<and> dat ! 0 = 0x81 then False
        else if length dat \<le> 75 then unat opcode = length dat
        else if length dat \<le> 255 then opcode = OP_PUSHDATA1
        else if length dat \<le> 65535 then opcode = OP_PUSHDATA2
        else True))"

definition fRequireMinimal :: "eval_env \<Rightarrow> bool" where
  "fRequireMinimal env = flag_set (flags env) SCRIPT_VERIFY_MINIMALDATA"

text \<open>A \<open>scriptnum_error\<close> is caught and becomes the unknown error.\<close>

definition script_num :: "eval_env \<Rightarrow> valtype \<Rightarrow> nat \<Rightarrow> failure + int" where
  "script_num env v nMaxNumSize =
     (case CScriptNum_of v (fRequireMinimal env) nMaxNumSize of
        Inl _ \<Rightarrow> set_error SCRIPT_ERR_UNKNOWN_ERROR
      | Inr n \<Rightarrow> Inr n)"

definition stacktop :: "stack \<Rightarrow> nat \<Rightarrow> failure + valtype" where
  "stacktop st i =
     (if 0 < i \<and> i \<le> length st then Inr (st ! (i - 1)) else set_error SCRIPT_ERR_UNKNOWN_ERROR)"

definition popstack :: "stack \<Rightarrow> failure + stack" where
  "popstack st = (case st of [] \<Rightarrow> set_error SCRIPT_ERR_UNKNOWN_ERROR | _ # st \<Rightarrow> Inr st)"

section \<open>Opcode handlers\<close>

text \<open>A handler that touches only the stack is a function on stacks.  \<open>INVALID\<close> is the usual
  answer to a stack that is too short.\<close>

abbreviation INVALID :: "failure + 'a" where
  "INVALID \<equiv> set_error SCRIPT_ERR_INVALID_STACK_OPERATION"

subsection \<open>Constants and locks\<close>

definition eval_push_constant :: "opcodetype \<Rightarrow> stack \<Rightarrow> failure + stack" where
  "eval_push_constant opcode st =
     Inr (CScriptNum_serialize (uint opcode - (uint OP_1 - 1)) # st)"

definition eval_CHECKLOCKTIMEVERIFY :: "eval_env \<Rightarrow> stack \<Rightarrow> failure + stack" where
  "eval_CHECKLOCKTIMEVERIFY env st =
     (if \<not> flag_set (flags env) SCRIPT_VERIFY_CHECKLOCKTIMEVERIFY then Inr st
      else if length st < 1 then INVALID
      else bind_sum (stacktop st 1) (\<lambda>v. bind_sum (script_num env v 5) (\<lambda>nLockTime.
        if nLockTime < 0 then set_error SCRIPT_ERR_NEGATIVE_LOCKTIME
        else if \<not> CheckLockTime (sig_checker env) nLockTime
        then set_error SCRIPT_ERR_UNSATISFIED_LOCKTIME
        else Inr st)))"

definition eval_CHECKSEQUENCEVERIFY :: "eval_env \<Rightarrow> stack \<Rightarrow> failure + stack" where
  "eval_CHECKSEQUENCEVERIFY env st =
     (if \<not> flag_set (flags env) SCRIPT_VERIFY_CHECKSEQUENCEVERIFY then Inr st
      else if length st < 1 then INVALID
      else bind_sum (stacktop st 1) (\<lambda>v. bind_sum (script_num env v 5) (\<lambda>nSequence.
        if nSequence < 0 then set_error SCRIPT_ERR_NEGATIVE_LOCKTIME
        else if nSequence AND SEQUENCE_LOCKTIME_DISABLE_FLAG \<noteq> 0 then Inr st
        else if \<not> CheckSequence (sig_checker env) nSequence
        then set_error SCRIPT_ERR_UNSATISFIED_LOCKTIME
        else Inr st)))"

definition eval_NOP_expansion :: "eval_env \<Rightarrow> stack \<Rightarrow> failure + stack" where
  "eval_NOP_expansion env st =
     (if flag_set (flags env) SCRIPT_VERIFY_DISCOURAGE_UPGRADABLE_NOPS
      then set_error SCRIPT_ERR_DISCOURAGE_UPGRADABLE_NOPS
      else Inr st)"

subsection \<open>Control\<close>

definition eval_IF :: "eval_env \<Rightarrow> opcodetype \<Rightarrow> bool \<Rightarrow> eval_state \<Rightarrow> failure + eval_state" where
  "eval_IF env opcode fExec s =
     (if fExec then
        if length (stk s) < 1 then set_error SCRIPT_ERR_UNBALANCED_CONDITIONAL
        else bind_sum (stacktop (stk s) 1) (\<lambda>v.
          if sigversion env = SIGVERSION_WITNESS_V0 \<and> flag_set (flags env) SCRIPT_VERIFY_MINIMALIF \<and>
             (1 < length v \<or> length v = 1 \<and> v ! 0 \<noteq> 1)
          then set_error SCRIPT_ERR_MINIMALIF
          else
            let fValue = (if opcode = OP_NOTIF then \<not> CastToBool v else CastToBool v) in
            bind_sum (popstack (stk s)) (\<lambda>st. Inr (s\<lparr>stk := st, vfExec := fValue # vfExec s\<rparr>)))
      else Inr (s\<lparr>vfExec := False # vfExec s\<rparr>))"

definition eval_ELSE :: "eval_state \<Rightarrow> failure + eval_state" where
  "eval_ELSE s =
     (case vfExec s of
        [] \<Rightarrow> set_error SCRIPT_ERR_UNBALANCED_CONDITIONAL
      | b # bs \<Rightarrow> Inr (s\<lparr>vfExec := (\<not> b) # bs\<rparr>))"

definition eval_ENDIF :: "eval_state \<Rightarrow> failure + eval_state" where
  "eval_ENDIF s =
     (case vfExec s of
        [] \<Rightarrow> set_error SCRIPT_ERR_UNBALANCED_CONDITIONAL
      | b # bs \<Rightarrow> Inr (s\<lparr>vfExec := bs\<rparr>))"

definition eval_VERIFY :: "stack \<Rightarrow> failure + stack" where
  "eval_VERIFY st =
     (case st of
        [] \<Rightarrow> INVALID
      | x # st \<Rightarrow> if CastToBool x then Inr st else set_error SCRIPT_ERR_VERIFY)"

subsection \<open>Stack operations\<close>

definition eval_TOALTSTACK :: "eval_state \<Rightarrow> failure + eval_state" where
  "eval_TOALTSTACK s =
     (case stk s of [] \<Rightarrow> INVALID | x # st \<Rightarrow> Inr (s\<lparr>stk := st, altstack := x # altstack s\<rparr>))"

definition eval_FROMALTSTACK :: "eval_state \<Rightarrow> failure + eval_state" where
  "eval_FROMALTSTACK s =
     (case altstack s of
        [] \<Rightarrow> set_error SCRIPT_ERR_INVALID_ALTSTACK_OPERATION
      | x # alt \<Rightarrow> Inr (s\<lparr>stk := x # stk s, altstack := alt\<rparr>))"

text \<open>The comments of the code list a stack from the bottom: \<open>(x1 x2 -- x2 x1)\<close> is
  \<open>x2 # x1 # st\<close> becoming \<open>x1 # x2 # st\<close>.\<close>

fun eval_2DROP :: "stack \<Rightarrow> failure + stack" where
  "eval_2DROP (x2 # x1 # st) = Inr st"
| "eval_2DROP _ = INVALID"

fun eval_2DUP :: "stack \<Rightarrow> failure + stack" where
  "eval_2DUP (x2 # x1 # st) = Inr (x2 # x1 # x2 # x1 # st)"
| "eval_2DUP _ = INVALID"

fun eval_3DUP :: "stack \<Rightarrow> failure + stack" where
  "eval_3DUP (x3 # x2 # x1 # st) = Inr (x3 # x2 # x1 # x3 # x2 # x1 # st)"
| "eval_3DUP _ = INVALID"

fun eval_2OVER :: "stack \<Rightarrow> failure + stack" where
  "eval_2OVER (x4 # x3 # x2 # x1 # st) = Inr (x2 # x1 # x4 # x3 # x2 # x1 # st)"
| "eval_2OVER _ = INVALID"

fun eval_2ROT :: "stack \<Rightarrow> failure + stack" where
  "eval_2ROT (x6 # x5 # x4 # x3 # x2 # x1 # st) = Inr (x2 # x1 # x6 # x5 # x4 # x3 # st)"
| "eval_2ROT _ = INVALID"

fun eval_2SWAP :: "stack \<Rightarrow> failure + stack" where
  "eval_2SWAP (x4 # x3 # x2 # x1 # st) = Inr (x2 # x1 # x4 # x3 # st)"
| "eval_2SWAP _ = INVALID"

fun eval_IFDUP :: "stack \<Rightarrow> failure + stack" where
  "eval_IFDUP (x # st) = Inr (if CastToBool x then x # x # st else x # st)"
| "eval_IFDUP _ = INVALID"

definition eval_DEPTH :: "stack \<Rightarrow> failure + stack" where
  "eval_DEPTH st = Inr (CScriptNum_serialize (int (length st)) # st)"

fun eval_DROP :: "stack \<Rightarrow> failure + stack" where
  "eval_DROP (x # st) = Inr st"
| "eval_DROP _ = INVALID"

fun eval_DUP :: "stack \<Rightarrow> failure + stack" where
  "eval_DUP (x # st) = Inr (x # x # st)"
| "eval_DUP _ = INVALID"

fun eval_NIP :: "stack \<Rightarrow> failure + stack" where
  "eval_NIP (x2 # x1 # st) = Inr (x2 # st)"
| "eval_NIP _ = INVALID"

fun eval_OVER :: "stack \<Rightarrow> failure + stack" where
  "eval_OVER (x2 # x1 # st) = Inr (x1 # x2 # x1 # st)"
| "eval_OVER _ = INVALID"

definition eval_PICK_ROLL :: "eval_env \<Rightarrow> opcodetype \<Rightarrow> stack \<Rightarrow> failure + stack" where
  "eval_PICK_ROLL env opcode st =
     (if length st < 2 then INVALID
      else bind_sum (stacktop st 1) (\<lambda>v. bind_sum (script_num env v nDefaultMaxNumSize) (\<lambda>m.
        let n = CScriptNum_getint m in
        bind_sum (popstack st) (\<lambda>st.
          if n < 0 \<or> int (length st) \<le> n then INVALID
          else bind_sum (stacktop st (nat n + 1)) (\<lambda>v.
            Inr (v # (if opcode = OP_ROLL then take (nat n) st @ drop (nat n + 1) st else st)))))))"

fun eval_ROT :: "stack \<Rightarrow> failure + stack" where
  "eval_ROT (x3 # x2 # x1 # st) = Inr (x1 # x3 # x2 # st)"
| "eval_ROT _ = INVALID"

fun eval_SWAP :: "stack \<Rightarrow> failure + stack" where
  "eval_SWAP (x2 # x1 # st) = Inr (x1 # x2 # st)"
| "eval_SWAP _ = INVALID"

fun eval_TUCK :: "stack \<Rightarrow> failure + stack" where
  "eval_TUCK (x2 # x1 # st) = Inr (x2 # x1 # x2 # st)"
| "eval_TUCK _ = INVALID"

fun eval_SIZE :: "stack \<Rightarrow> failure + stack" where
  "eval_SIZE (x # st) = Inr (CScriptNum_serialize (int (length x)) # x # st)"
| "eval_SIZE _ = INVALID"

subsection \<open>Comparison and arithmetic\<close>

fun eval_EQUAL :: "opcodetype \<Rightarrow> stack \<Rightarrow> failure + stack" where
  "eval_EQUAL opcode (x2 # x1 # st) =
     (let fEqual = (x1 = x2) in
      if opcode = OP_EQUALVERIFY then
        (if fEqual then Inr st else set_error SCRIPT_ERR_EQUALVERIFY)
      else Inr (vch_of_bool fEqual # st))"
| "eval_EQUAL _ _ = INVALID"

text \<open>The conversion of a C++ \<open>bool\<close> to a number.\<close>

definition int_of_bool :: "bool \<Rightarrow> int" where
  "int_of_bool b = (if b then 1 else 0)"

definition unary_num :: "opcodetype \<Rightarrow> int \<Rightarrow> failure + int" where
  "unary_num opcode bn =
     (if opcode = OP_1ADD then (if bn \<le> (2 ^ 63 - 1) - 1 then Inr (bn + 1) else Inl Assertion_failed)
      else if opcode = OP_1SUB then (if - (2 ^ 63) + 1 \<le> bn then Inr (bn - 1) else Inl Assertion_failed)
      else if opcode = OP_NEGATE then
        (if bn = - (2 ^ 63) then Inl Assertion_failed else Inr (- bn))
      else if opcode = OP_ABS then
        (if bn < 0 then (if bn = - (2 ^ 63) then Inl Assertion_failed else Inr (- bn)) else Inr bn)
      else if opcode = OP_NOT then Inr (int_of_bool (bn = 0))
      else if opcode = OP_0NOTEQUAL then Inr (int_of_bool (bn \<noteq> 0))
      else Inl Assertion_failed)"

definition eval_unary :: "eval_env \<Rightarrow> opcodetype \<Rightarrow> stack \<Rightarrow> failure + stack" where
  "eval_unary env opcode st =
     (if length st < 1 then INVALID
      else bind_sum (stacktop st 1) (\<lambda>v.
        bind_sum (script_num env v nDefaultMaxNumSize) (\<lambda>bn.
        bind_sum (unary_num opcode bn) (\<lambda>bn.
        bind_sum (popstack st) (\<lambda>st. Inr (CScriptNum_serialize bn # st))))))"

definition binary_num :: "opcodetype \<Rightarrow> int \<Rightarrow> int \<Rightarrow> failure + int" where
  "binary_num opcode bn1 bn2 =
     (if opcode = OP_ADD then Inr (bn1 + bn2)
      else if opcode = OP_SUB then Inr (bn1 - bn2)
      else if opcode = OP_BOOLAND then Inr (int_of_bool (bn1 \<noteq> 0 \<and> bn2 \<noteq> 0))
      else if opcode = OP_BOOLOR then Inr (int_of_bool (bn1 \<noteq> 0 \<or> bn2 \<noteq> 0))
      else if opcode = OP_NUMEQUAL then Inr (int_of_bool (bn1 = bn2))
      else if opcode = OP_NUMEQUALVERIFY then Inr (int_of_bool (bn1 = bn2))
      else if opcode = OP_NUMNOTEQUAL then Inr (int_of_bool (bn1 \<noteq> bn2))
      else if opcode = OP_LESSTHAN then Inr (int_of_bool (bn1 < bn2))
      else if opcode = OP_GREATERTHAN then Inr (int_of_bool (bn1 > bn2))
      else if opcode = OP_LESSTHANOREQUAL then Inr (int_of_bool (bn1 \<le> bn2))
      else if opcode = OP_GREATERTHANOREQUAL then Inr (int_of_bool (bn1 \<ge> bn2))
      else if opcode = OP_MIN then Inr (if bn1 < bn2 then bn1 else bn2)
      else if opcode = OP_MAX then Inr (if bn1 > bn2 then bn1 else bn2)
      else Inl Assertion_failed)"

definition eval_binary :: "eval_env \<Rightarrow> opcodetype \<Rightarrow> stack \<Rightarrow> failure + stack" where
  "eval_binary env opcode st =
     (if length st < 2 then INVALID
      else bind_sum (stacktop st 2) (\<lambda>v1. bind_sum (stacktop st 1) (\<lambda>v2.
        bind_sum (script_num env v1 nDefaultMaxNumSize) (\<lambda>bn1.
        bind_sum (script_num env v2 nDefaultMaxNumSize) (\<lambda>bn2.
        bind_sum (binary_num opcode bn1 bn2) (\<lambda>bn.
        bind_sum (popstack st) (\<lambda>st. bind_sum (popstack st) (\<lambda>st.
          let r = CScriptNum_serialize bn in
          if opcode = OP_NUMEQUALVERIFY then
            (if CastToBool r then Inr st else set_error SCRIPT_ERR_NUMEQUALVERIFY)
          else Inr (r # st)))))))))"

definition eval_WITHIN :: "eval_env \<Rightarrow> stack \<Rightarrow> failure + stack" where
  "eval_WITHIN env st =
     (case st of
        v3 # v2 # v1 # st' \<Rightarrow>
          bind_sum (script_num env v1 nDefaultMaxNumSize) (\<lambda>bn1.
          bind_sum (script_num env v2 nDefaultMaxNumSize) (\<lambda>bn2.
          bind_sum (script_num env v3 nDefaultMaxNumSize) (\<lambda>bn3.
            Inr (vch_of_bool (bn2 \<le> bn1 \<and> bn1 < bn3) # st'))))
      | _ \<Rightarrow> INVALID)"

subsection \<open>Hashes and signatures\<close>

fun eval_HASH :: "eval_env \<Rightarrow> opcodetype \<Rightarrow> stack \<Rightarrow> failure + stack" where
  "eval_HASH env opcode (v # st) =
     (let h = hash_fns env in
      Inr ((if opcode = OP_RIPEMD160 then RIPEMD160 h v
            else if opcode = OP_SHA1 then SHA1 h v
            else if opcode = OP_SHA256 then SHA3_256 h v
            else if opcode = OP_HASH160 then Hash160 h v
            else Hash256 h v) # st))"
| "eval_HASH env opcode [] = INVALID"

definition eval_CHECKSIG ::
  "eval_env \<Rightarrow> opcodetype \<Rightarrow> script \<Rightarrow> stack \<Rightarrow> failure + stack" where
  "eval_CHECKSIG env opcode codehash st =
     (case st of
        vchPubKey # vchSig # st' \<Rightarrow>
          let scriptCode = (if sigversion env = SIGVERSION_BASE
                            then fst (FindAndDelete codehash (push_data [] vchSig)) else codehash) in
          bind_sum (CheckSignatureEncoding vchSig (flags env)) (\<lambda>_.
          bind_sum (CheckPubKeyEncoding vchPubKey (flags env) (sigversion env)) (\<lambda>_.
            let fSuccess = CheckSig (sig_checker env) vchSig vchPubKey scriptCode (sigversion env) in
            if \<not> fSuccess \<and> flag_set (flags env) SCRIPT_VERIFY_NULLFAIL \<and> length vchSig \<noteq> 0
            then set_error SCRIPT_ERR_SIG_NULLFAIL
            else if opcode = OP_CHECKSIGVERIFY then
              (if fSuccess then Inr st' else set_error SCRIPT_ERR_CHECKSIGVERIFY)
            else Inr (vch_of_bool fSuccess # st')))
      | _ \<Rightarrow> INVALID)"

text \<open>The loop of \<open>OP_CHECKMULTISIG\<close> that matches signatures with keys; \<open>isig\<close> and \<open>ikey\<close> are
  positions from the top of the stack.  The result is \<open>fSuccess\<close>.\<close>

function multisig_verify ::
  "eval_env \<Rightarrow> stack \<Rightarrow> script \<Rightarrow> nat \<Rightarrow> nat \<Rightarrow> int \<Rightarrow> int \<Rightarrow> failure + bool" where
  "multisig_verify env st scriptCode isig ikey nSigsCount nKeysCount =
     (if 0 < nSigsCount then
        bind_sum (stacktop st isig) (\<lambda>vchSig. bind_sum (stacktop st ikey) (\<lambda>vchPubKey.
        bind_sum (CheckSignatureEncoding vchSig (flags env)) (\<lambda>_.
        bind_sum (CheckPubKeyEncoding vchPubKey (flags env) (sigversion env)) (\<lambda>_.
          let fOk = CheckSig (sig_checker env) vchSig vchPubKey scriptCode (sigversion env);
              isig' = (if fOk then isig + 1 else isig);
              nSigsCount' = (if fOk then nSigsCount - 1 else nSigsCount) in
          if nSigsCount' > nKeysCount - 1 then Inr False
          else multisig_verify env st scriptCode isig' (ikey + 1) nSigsCount' (nKeysCount - 1)))))
      else Inr True)"
  by pat_completeness auto
termination
  by (relation "measure (\<lambda>(_, _, _, _, _, _, nKeysCount). nat (nKeysCount + 1))") (auto split: if_splits)

declare multisig_verify.simps [simp del]

text \<open>Dropping the signatures from the script, in stack order from position \<open>isig\<close>.\<close>

fun multisig_script_code :: "SigVersion \<Rightarrow> stack \<Rightarrow> nat \<Rightarrow> nat \<Rightarrow> script \<Rightarrow> failure + script" where
  "multisig_script_code sigver st isig 0 scriptCode = Inr scriptCode"
| "multisig_script_code sigver st isig (Suc k) scriptCode =
     bind_sum (stacktop st isig) (\<lambda>vchSig.
       multisig_script_code sigver st (isig + 1) k
         (if sigver = SIGVERSION_BASE then fst (FindAndDelete scriptCode (push_data [] vchSig))
          else scriptCode))"

text \<open>Popping the \<open>i - 1\<close> arguments; \<open>ikey2\<close> counts down to the signatures.\<close>

fun multisig_cleanup :: "eval_env \<Rightarrow> bool \<Rightarrow> nat \<Rightarrow> nat \<Rightarrow> stack \<Rightarrow> failure + stack" where
  "multisig_cleanup env fSuccess 0 ikey2 st = Inr st"
| "multisig_cleanup env fSuccess (Suc i) ikey2 st =
     (if \<not> fSuccess \<and> flag_set (flags env) SCRIPT_VERIFY_NULLFAIL \<and> ikey2 = 0 then
        bind_sum (stacktop st 1) (\<lambda>v.
          if length v \<noteq> 0 then set_error SCRIPT_ERR_SIG_NULLFAIL
          else bind_sum (popstack st) (\<lambda>st. multisig_cleanup env fSuccess i (ikey2 - 1) st))
      else bind_sum (popstack st) (\<lambda>st. multisig_cleanup env fSuccess i (ikey2 - 1) st))"

definition multisig_finish ::
  "eval_env \<Rightarrow> opcodetype \<Rightarrow> bool \<Rightarrow> stack \<Rightarrow> failure + stack" where
  "multisig_finish env opcode fSuccess st =
     (if length st < 1 then INVALID
      else bind_sum (stacktop st 1) (\<lambda>dummy.
        if flag_set (flags env) SCRIPT_VERIFY_NULLDUMMY \<and> length dummy \<noteq> 0
        then set_error SCRIPT_ERR_SIG_NULLDUMMY
        else bind_sum (popstack st) (\<lambda>st.
          if opcode = OP_CHECKMULTISIGVERIFY then
            (if fSuccess then Inr st else set_error SCRIPT_ERR_CHECKMULTISIGVERIFY)
          else Inr (vch_of_bool fSuccess # st))))"

definition eval_CHECKMULTISIG ::
  "eval_env \<Rightarrow> opcodetype \<Rightarrow> eval_state \<Rightarrow> failure + eval_state" where
  "eval_CHECKMULTISIG env opcode s =
     (let st = stk s in
      if length st < 1 then INVALID
      else bind_sum (stacktop st 1) (\<lambda>v. bind_sum (script_num env v nDefaultMaxNumSize) (\<lambda>m.
        let nKeysCount = CScriptNum_getint m in
        if nKeysCount < 0 \<or> int MAX_PUBKEYS_PER_MULTISIG < nKeysCount
        then set_error SCRIPT_ERR_PUBKEY_COUNT
        else let ops = nOpCount s + nat nKeysCount in
        if MAX_OPS_PER_SCRIPT < ops then set_error SCRIPT_ERR_OP_COUNT
        else let ikey = 2; ikey2 = nat nKeysCount + 2; i = 2 + nat nKeysCount in
        if length st < i then INVALID
        else bind_sum (stacktop st i) (\<lambda>v. bind_sum (script_num env v nDefaultMaxNumSize) (\<lambda>m.
          let nSigsCount = CScriptNum_getint m in
          if nSigsCount < 0 \<or> nKeysCount < nSigsCount then set_error SCRIPT_ERR_SIG_COUNT
          else let isig = i + 1; i = isig + nat nSigsCount in
          if length st < i then INVALID
          else
            bind_sum (multisig_script_code (sigversion env) st isig (nat nSigsCount)
              (pbegincodehash s)) (\<lambda>scriptCode.
            bind_sum (multisig_verify env st scriptCode isig ikey nSigsCount nKeysCount) (\<lambda>fSuccess.
            bind_sum (multisig_cleanup env fSuccess (i - 1) ikey2 st) (\<lambda>st.
            bind_sum (multisig_finish env opcode fSuccess st) (\<lambda>st.
              Inr (s\<lparr>stk := st, nOpCount := ops\<rparr>))))))))))"

section \<open>One instruction\<close>

definition on_stack :: "eval_state \<Rightarrow> failure + stack \<Rightarrow> failure + eval_state" where
  "on_stack s r = bind_sum r (\<lambda>st. Inr (s\<lparr>stk := st\<rparr>))"

definition disabled_opcode :: "opcodetype \<Rightarrow> bool" where
  "disabled_opcode opcode \<longleftrightarrow>
     opcode \<in> {OP_CAT, OP_SUBSTR, OP_LEFT, OP_RIGHT, OP_INVERT, OP_AND, OP_OR, OP_XOR, OP_2MUL,
       OP_2DIV, OP_MUL, OP_DIV, OP_MOD, OP_LSHIFT, OP_RSHIFT}"

text \<open>The \<open>switch\<close> of the code, in its order.  In the state the iterator is already behind the
  instruction.\<close>

definition eval_opcode ::
  "eval_env \<Rightarrow> opcodetype \<Rightarrow> bool \<Rightarrow> eval_state \<Rightarrow> failure + eval_state" where
  "eval_opcode env opcode fExec s =
    (if opcode = OP_1NEGATE \<or> OP_1 \<le> opcode \<and> opcode \<le> OP_16 then on_stack s (eval_push_constant opcode (stk s))
     else if opcode = OP_NOP then Inr s
     else if opcode = OP_CHECKLOCKTIMEVERIFY then on_stack s (eval_CHECKLOCKTIMEVERIFY env (stk s))
     else if opcode = OP_CHECKSEQUENCEVERIFY then on_stack s (eval_CHECKSEQUENCEVERIFY env (stk s))
     else if opcode \<in> {OP_NOP1, OP_NOP4, OP_NOP5, OP_NOP6, OP_NOP7, OP_NOP8, OP_NOP9, OP_NOP10}
     then on_stack s (eval_NOP_expansion env (stk s))
     else if opcode = OP_IF \<or> opcode = OP_NOTIF then eval_IF env opcode fExec s
     else if opcode = OP_ELSE then eval_ELSE s
     else if opcode = OP_ENDIF then eval_ENDIF s
     else if opcode = OP_VERIFY then on_stack s (eval_VERIFY (stk s))
     else if opcode = OP_RETURN then set_error SCRIPT_ERR_OP_RETURN
     else if opcode = OP_TOALTSTACK then eval_TOALTSTACK s
     else if opcode = OP_FROMALTSTACK then eval_FROMALTSTACK s
     else if opcode = OP_2DROP then on_stack s (eval_2DROP (stk s))
     else if opcode = OP_2DUP then on_stack s (eval_2DUP (stk s))
     else if opcode = OP_3DUP then on_stack s (eval_3DUP (stk s))
     else if opcode = OP_2OVER then on_stack s (eval_2OVER (stk s))
     else if opcode = OP_2ROT then on_stack s (eval_2ROT (stk s))
     else if opcode = OP_2SWAP then on_stack s (eval_2SWAP (stk s))
     else if opcode = OP_IFDUP then on_stack s (eval_IFDUP (stk s))
     else if opcode = OP_DEPTH then on_stack s (eval_DEPTH (stk s))
     else if opcode = OP_DROP then on_stack s (eval_DROP (stk s))
     else if opcode = OP_DUP then on_stack s (eval_DUP (stk s))
     else if opcode = OP_NIP then on_stack s (eval_NIP (stk s))
     else if opcode = OP_OVER then on_stack s (eval_OVER (stk s))
     else if opcode = OP_PICK \<or> opcode = OP_ROLL then on_stack s (eval_PICK_ROLL env opcode (stk s))
     else if opcode = OP_ROT then on_stack s (eval_ROT (stk s))
     else if opcode = OP_SWAP then on_stack s (eval_SWAP (stk s))
     else if opcode = OP_TUCK then on_stack s (eval_TUCK (stk s))
     else if opcode = OP_SIZE then on_stack s (eval_SIZE (stk s))
     else if opcode = OP_EQUAL \<or> opcode = OP_EQUALVERIFY then on_stack s (eval_EQUAL opcode (stk s))
     else if opcode \<in> {OP_1ADD, OP_1SUB, OP_NEGATE, OP_ABS, OP_NOT, OP_0NOTEQUAL}
     then on_stack s (eval_unary env opcode (stk s))
     else if opcode \<in> {OP_ADD, OP_SUB, OP_BOOLAND, OP_BOOLOR, OP_NUMEQUAL, OP_NUMEQUALVERIFY,
       OP_NUMNOTEQUAL, OP_LESSTHAN, OP_GREATERTHAN, OP_LESSTHANOREQUAL, OP_GREATERTHANOREQUAL,
       OP_MIN, OP_MAX}
     then on_stack s (eval_binary env opcode (stk s))
     else if opcode = OP_WITHIN then on_stack s (eval_WITHIN env (stk s))
     else if opcode \<in> {OP_RIPEMD160, OP_SHA1, OP_SHA256, OP_HASH160, OP_HASH256}
     then on_stack s (eval_HASH env opcode (stk s))
     else if opcode = OP_CODESEPARATOR then Inr (s\<lparr>pbegincodehash := eval_pc s\<rparr>)
     else if opcode = OP_CHECKSIG \<or> opcode = OP_CHECKSIGVERIFY
     then on_stack s (eval_CHECKSIG env opcode (pbegincodehash s) (stk s))
     else if opcode = OP_CHECKMULTISIG \<or> opcode = OP_CHECKMULTISIGVERIFY
     then eval_CHECKMULTISIG env opcode s
     else set_error SCRIPT_ERR_BAD_OPCODE)"

definition check_stack_size :: "eval_state \<Rightarrow> failure + eval_state" where
  "check_stack_size s =
     (if MAX_STACK_SIZE < length (stk s) + length (altstack s) then set_error SCRIPT_ERR_STACK_SIZE
      else Inr s)"

text \<open>Pushing data, or the \<open>switch\<close>, or skipping the instruction.\<close>

definition eval_exec ::
  "eval_env \<Rightarrow> opcodetype \<Rightarrow> valtype \<Rightarrow> eval_state \<Rightarrow> failure + eval_state" where
  "eval_exec env opcode vchPushValue s =
     (let fExec = list_all id (vfExec s) in
      if fExec \<and> opcode \<le> OP_PUSHDATA4 then
        (if fRequireMinimal env then
           (case CheckMinimalPush vchPushValue opcode of
              None \<Rightarrow> Inl Assertion_failed
            | Some minimal \<Rightarrow>
                if \<not> minimal then set_error SCRIPT_ERR_MINIMALDATA
                else Inr (s\<lparr>stk := vchPushValue # stk s\<rparr>))
         else Inr (s\<lparr>stk := vchPushValue # stk s\<rparr>))
      else if fExec \<or> OP_IF \<le> opcode \<and> opcode \<le> OP_ENDIF then eval_opcode env opcode fExec s
      else Inr s)"

definition eval_step :: "eval_env \<Rightarrow> eval_state \<Rightarrow> failure + eval_state" where
  "eval_step env s =
     (case GetOp (eval_pc s) of
        None \<Rightarrow> set_error SCRIPT_ERR_BAD_OPCODE
      | Some (opcode, vchPushValue, pc) \<Rightarrow>
          if MAX_SCRIPT_ELEMENT_SIZE < length vchPushValue then set_error SCRIPT_ERR_PUSH_SIZE
          else let ops = (if OP_16 < opcode then nOpCount s + 1 else nOpCount s) in
          if OP_16 < opcode \<and> MAX_OPS_PER_SCRIPT < ops then set_error SCRIPT_ERR_OP_COUNT
          else if disabled_opcode opcode then set_error SCRIPT_ERR_DISABLED_OPCODE
          else bind_sum (eval_exec env opcode vchPushValue (s\<lparr>eval_pc := pc, nOpCount := ops\<rparr>))
            check_stack_size)"

section \<open>Partial correctness of a handler\<close>

text \<open>\<open>ensures r P\<close>: the computation does not fail an assertion, and where it succeeds its result
  satisfies \<open>P\<close>.  \<open>weaker r' r\<close>: a success of \<open>r'\<close> is a success of \<open>r\<close> with the same result.\<close>

definition ensures :: "failure + 'a \<Rightarrow> ('a \<Rightarrow> bool) \<Rightarrow> bool" where
  "ensures r P \<longleftrightarrow> (case r of Inl e \<Rightarrow> e \<noteq> Assertion_failed | Inr x \<Rightarrow> P x)"

definition weaker :: "'e + 'a \<Rightarrow> 'e + 'a \<Rightarrow> bool" where
  "weaker r' r \<longleftrightarrow> (\<forall>x. r' = Inr x \<longrightarrow> r = Inr x)"

named_theorems ensures_intros \<open>rules that follow the structure of a handler\<close>
named_theorems weaker_intros \<open>rules that follow the structure of a handler\<close>

lemma ensures_Inr [simp]: "ensures (Inr x) P \<longleftrightarrow> P x"
  and ensures_Inl [simp]: "ensures (Inl e) P \<longleftrightarrow> e \<noteq> Assertion_failed"
  by (simp_all add: ensures_def)

lemma ensures_InrI [ensures_intros]: "P x \<Longrightarrow> ensures (Inr x) P"
  and ensures_errorI [ensures_intros]: "ensures (set_error e) P"
  by simp_all

lemma ensures_if [ensures_intros]:
  "(c \<Longrightarrow> ensures a P) \<Longrightarrow> (\<not> c \<Longrightarrow> ensures b P) \<Longrightarrow> ensures (if c then a else b) P"
  by simp

lemma ensures_bind [ensures_intros]:
  "ensures m (\<lambda>x. ensures (f x) P) \<Longrightarrow> ensures (bind_sum m f) P"
  by (auto simp: ensures_def split: sum.splits)

lemma ensures_Let [ensures_intros]: "ensures (f a) P \<Longrightarrow> ensures (Let a f) P"
  by simp

lemma ensures_mono: "ensures r P \<Longrightarrow> (\<And>x. r = Inr x \<Longrightarrow> P x \<Longrightarrow> Q x) \<Longrightarrow> ensures r Q"
  by (auto simp: ensures_def split: sum.splits)

lemma ensuresD: "ensures r P \<Longrightarrow> r = Inr x \<Longrightarrow> P x"
  by simp

lemma ensures_no_assert: "ensures r P \<Longrightarrow> r \<noteq> Inl Assertion_failed"
  by auto

lemma weaker_refl [weaker_intros, simp]: "weaker r r"
  and weaker_Inl [weaker_intros, simp]: "weaker (Inl e) r"
  by (simp_all add: weaker_def)

lemma weaker_if [weaker_intros]:
  "(c \<Longrightarrow> weaker a' a) \<Longrightarrow> (\<not> c \<Longrightarrow> weaker b' b) \<Longrightarrow> weaker (if c then a' else b') (if c then a else b)"
  by simp

lemma weaker_guard:
  "(c' \<Longrightarrow> c) \<Longrightarrow> weaker b' b \<Longrightarrow> weaker (if c then Inl e else b') (if c' then Inl e' else b)"
  by (simp add: weaker_def)

lemma weaker_skip: "(c' \<Longrightarrow> c) \<Longrightarrow> (c' \<Longrightarrow> weaker b' b) \<Longrightarrow>
  (c \<Longrightarrow> \<not> c' \<Longrightarrow> weaker b' (Inr x)) \<Longrightarrow> weaker (if \<not> c then Inr x else b') (if \<not> c' then Inr x else b)"
  by simp

lemma weaker_bind [weaker_intros]:
  "weaker m' m \<Longrightarrow> (\<And>x. weaker (f' x) (f x)) \<Longrightarrow> weaker (bind_sum m' f') (bind_sum m f)"
  by (auto simp: weaker_def split: sum.splits)

lemma weaker_Let [weaker_intros]: "weaker (f' a) (f a) \<Longrightarrow> weaker (Let a f') (Let a f)"
  by simp

lemma weakerD: "weaker r' r \<Longrightarrow> r' = Inr x \<Longrightarrow> r = Inr x"
  by (simp add: weaker_def)

section \<open>The bounds of the machine\<close>

text \<open>Every element of the stacks is small, the operation counter is within its limit and the
  iterator has not moved back.\<close>

definition small :: "valtype list \<Rightarrow> bool" where
  "small st \<longleftrightarrow> list_all (\<lambda>v. length v \<le> MAX_SCRIPT_ELEMENT_SIZE) st"

definition hashes_small :: "hashers \<Rightarrow> bool" where
  "hashes_small h \<longleftrightarrow>
     (\<forall>v. length (RIPEMD160 h v) \<le> MAX_SCRIPT_ELEMENT_SIZE \<and> length (SHA1 h v) \<le> MAX_SCRIPT_ELEMENT_SIZE \<and>
       length (SHA3_256 h v) \<le> MAX_SCRIPT_ELEMENT_SIZE \<and> length (Hash160 h v) \<le> MAX_SCRIPT_ELEMENT_SIZE \<and>
       length (Hash256 h v) \<le> MAX_SCRIPT_ELEMENT_SIZE)"

definition eval_ok :: "eval_state \<Rightarrow> bool" where
  "eval_ok s \<longleftrightarrow> small (stk s) \<and> small (altstack s) \<and> nOpCount s \<le> MAX_OPS_PER_SCRIPT"

lemma small_Nil [simp]: "small []"
  and small_Cons [simp]: "small (v # st) \<longleftrightarrow> length v \<le> MAX_SCRIPT_ELEMENT_SIZE \<and> small st"
  by (simp_all add: small_def)

lemma small_append [simp]: "small (st @ st') \<longleftrightarrow> small st \<and> small st'"
  by (simp add: small_def)

lemma small_drop: "small st \<Longrightarrow> small (drop n st)"
  and small_take: "small st \<Longrightarrow> small (take n st)"
  by (auto simp: small_def list_all_iff dest: in_set_dropD in_set_takeD)

lemma small_nth: "small st \<Longrightarrow> i < length st \<Longrightarrow> length (st ! i) \<le> MAX_SCRIPT_ELEMENT_SIZE"
  by (simp add: small_def list_all_length)

lemma ensures_stacktop: "small st \<Longrightarrow> ensures (stacktop st i) (\<lambda>v. length v \<le> MAX_SCRIPT_ELEMENT_SIZE)"
  by (auto simp: stacktop_def intro: small_nth)

lemma ensures_popstack: "small st \<Longrightarrow> ensures (popstack st) small"
  by (cases st) (auto simp: popstack_def)

lemma ensures_script_num:
  "0 < n \<Longrightarrow> n \<le> 8 \<Longrightarrow> ensures (script_num env v n) (\<lambda>m. abs m < 2 ^ (8 * n - 1))"
  by (auto simp: script_num_def simp del: One_nat_def split: sum.splits dest: CScriptNum_of_bound)

lemma ensures_script_num4: "ensures (script_num env v nDefaultMaxNumSize) (\<lambda>m. abs m < 2 ^ 31)"
  using ensures_script_num [of nDefaultMaxNumSize] by (simp add: nDefaultMaxNumSize_def)

lemma length_serialize_small: "abs n < 2 ^ 63 \<Longrightarrow> length (CScriptNum_serialize n) \<le> MAX_SCRIPT_ELEMENT_SIZE"
  using length_serialize_le [of 8 n] by (simp add: MAX_SCRIPT_ELEMENT_SIZE_def)

lemma length_vch_of_bool [simp]: "length (vch_of_bool b) \<le> MAX_SCRIPT_ELEMENT_SIZE"
  by (simp add: vch_of_bool_def vchTrue_def vchFalse_def MAX_SCRIPT_ELEMENT_SIZE_def)

lemma ensures_const: "r \<noteq> Inl Assertion_failed \<Longrightarrow> ensures r (\<lambda>_. True)"
  by (auto simp: ensures_def split: sum.splits)

lemma ensures_True_bind:
  "ensures m (\<lambda>_. True) \<Longrightarrow> (\<And>x. ensures (f x) P) \<Longrightarrow> ensures (bind_sum m f) P"
  by (cases m) (simp_all add: ensures_def)

lemma ensures_bindI:
  "ensures m Q \<Longrightarrow> (\<And>x. Q x \<Longrightarrow> ensures (f x) P) \<Longrightarrow> ensures (bind_sum m f) P"
  by (cases m) (simp_all add: ensures_def)

lemma CheckSignatureEncoding_total: "ensures (CheckSignatureEncoding v fl) (\<lambda>_. True)"
  by (simp add: CheckSignatureEncoding_def)

lemma CheckPubKeyEncoding_total: "ensures (CheckPubKeyEncoding v fl sv) (\<lambda>_. True)"
  by (simp add: CheckPubKeyEncoding_def)

subsection \<open>Handlers of the stack\<close>

named_theorems handler_ok \<open>a handler keeps the elements small and fails no assertion\<close>

lemma eval_push_constant_ok [handler_ok]:
  "small st \<Longrightarrow> ensures (eval_push_constant opcode st) small"
proof -
  have "uint opcode < 256" using uint_bounded [of opcode] by simp
  moreover have "0 \<le> uint opcode" by (rule uint_ge_0)
  ultimately have "abs (uint opcode - 80) < 9223372036854775808" by linarith
  then have "length (CScriptNum_serialize (uint opcode - (uint OP_1 - 1))) \<le> MAX_SCRIPT_ELEMENT_SIZE"
    by (intro length_serialize_small) simp
  then show "small st \<Longrightarrow> ensures (eval_push_constant opcode st) small"
    by (simp only: eval_push_constant_def ensures_Inr small_Cons simp_thms)
qed

lemma eval_CHECKLOCKTIMEVERIFY_ok [handler_ok]:
  "small st \<Longrightarrow> ensures (eval_CHECKLOCKTIMEVERIFY env st) small"
  unfolding eval_CHECKLOCKTIMEVERIFY_def
  by (intro ensures_if ensures_InrI ensures_errorI ensures_bindI [OF ensures_stacktop]
      ensures_bindI [OF ensures_script_num]) auto

lemma eval_CHECKSEQUENCEVERIFY_ok [handler_ok]:
  "small st \<Longrightarrow> ensures (eval_CHECKSEQUENCEVERIFY env st) small"
  unfolding eval_CHECKSEQUENCEVERIFY_def
  by (intro ensures_if ensures_InrI ensures_errorI ensures_bindI [OF ensures_stacktop]
      ensures_bindI [OF ensures_script_num]) auto

lemma eval_NOP_expansion_ok [handler_ok]: "small st \<Longrightarrow> ensures (eval_NOP_expansion env st) small"
  by (simp add: eval_NOP_expansion_def)

lemma eval_VERIFY_ok [handler_ok]: "small st \<Longrightarrow> ensures (eval_VERIFY st) small"
  by (cases st) (auto simp: eval_VERIFY_def)

lemma eval_2DROP_ok [handler_ok]: "small st \<Longrightarrow> ensures (eval_2DROP st) small"
  by (cases st rule: eval_2DROP.cases) simp_all

lemma eval_2DUP_ok [handler_ok]: "small st \<Longrightarrow> ensures (eval_2DUP st) small"
  by (cases st rule: eval_2DUP.cases) simp_all

lemma eval_3DUP_ok [handler_ok]: "small st \<Longrightarrow> ensures (eval_3DUP st) small"
  by (cases st rule: eval_3DUP.cases) simp_all

lemma eval_2OVER_ok [handler_ok]: "small st \<Longrightarrow> ensures (eval_2OVER st) small"
  by (cases st rule: eval_2OVER.cases) simp_all

lemma eval_2ROT_ok [handler_ok]: "small st \<Longrightarrow> ensures (eval_2ROT st) small"
  by (cases st rule: eval_2ROT.cases) simp_all

lemma eval_2SWAP_ok [handler_ok]: "small st \<Longrightarrow> ensures (eval_2SWAP st) small"
  by (cases st rule: eval_2SWAP.cases) simp_all

lemma eval_IFDUP_ok [handler_ok]: "small st \<Longrightarrow> ensures (eval_IFDUP st) small"
  by (cases st) simp_all

lemma eval_DROP_ok [handler_ok]: "small st \<Longrightarrow> ensures (eval_DROP st) small"
  by (cases st rule: eval_DROP.cases) simp_all

lemma eval_DUP_ok [handler_ok]: "small st \<Longrightarrow> ensures (eval_DUP st) small"
  by (cases st rule: eval_DUP.cases) simp_all

lemma eval_NIP_ok [handler_ok]: "small st \<Longrightarrow> ensures (eval_NIP st) small"
  by (cases st rule: eval_NIP.cases) simp_all

lemma eval_OVER_ok [handler_ok]: "small st \<Longrightarrow> ensures (eval_OVER st) small"
  by (cases st rule: eval_OVER.cases) simp_all

lemma eval_ROT_ok [handler_ok]: "small st \<Longrightarrow> ensures (eval_ROT st) small"
  by (cases st rule: eval_ROT.cases) simp_all

lemma eval_SWAP_ok [handler_ok]: "small st \<Longrightarrow> ensures (eval_SWAP st) small"
  by (cases st rule: eval_SWAP.cases) simp_all

lemma eval_TUCK_ok [handler_ok]: "small st \<Longrightarrow> ensures (eval_TUCK st) small"
  by (cases st rule: eval_TUCK.cases) simp_all

lemma eval_SIZE_ok [handler_ok]: "small st \<Longrightarrow> ensures (eval_SIZE st) small"
  using length_serialize_small [of "int (length (hd st))"]
  by (cases st) (auto simp: MAX_SCRIPT_ELEMENT_SIZE_def)

lemma eval_DEPTH_ok: "small st \<Longrightarrow> length st < 2 ^ 63 \<Longrightarrow> ensures (eval_DEPTH st) small"
  by (auto simp: eval_DEPTH_def intro!: length_serialize_small)

lemma eval_PICK_ROLL_ok [handler_ok]: "small st \<Longrightarrow> ensures (eval_PICK_ROLL env opcode st) small"
  unfolding eval_PICK_ROLL_def Let_def
  by (intro ensures_if ensures_InrI ensures_errorI ensures_bindI [OF ensures_stacktop]
      ensures_bindI [OF ensures_script_num4] ensures_bindI [OF ensures_popstack])
    (auto simp: small_take small_drop)

lemma eval_EQUAL_ok [handler_ok]: "small st \<Longrightarrow> ensures (eval_EQUAL opcode st) small"
  by (cases "(opcode, st)" rule: eval_EQUAL.cases) (auto simp: Let_def)

subsection \<open>Arithmetic, hashes and signatures\<close>

lemma unary_num_ok:
  "opcode \<in> {OP_1ADD, OP_1SUB, OP_NEGATE, OP_ABS, OP_NOT, OP_0NOTEQUAL} \<Longrightarrow> abs n < 2 ^ 31 \<Longrightarrow>
   ensures (unary_num opcode n) (\<lambda>m. abs m < 2 ^ 63)"
  by (auto simp: unary_num_def int_of_bool_def)

lemma binary_num_ok:
  "opcode \<in> {OP_ADD, OP_SUB, OP_BOOLAND, OP_BOOLOR, OP_NUMEQUAL, OP_NUMEQUALVERIFY,
     OP_NUMNOTEQUAL, OP_LESSTHAN, OP_GREATERTHAN, OP_LESSTHANOREQUAL, OP_GREATERTHANOREQUAL,
     OP_MIN, OP_MAX} \<Longrightarrow> abs n < 2 ^ 31 \<Longrightarrow> abs m < 2 ^ 31 \<Longrightarrow>
   ensures (binary_num opcode n m) (\<lambda>k. abs k < 2 ^ 63)"
  by (elim insertE) (simp_all add: binary_num_def int_of_bool_def)

lemma eval_unary_ok [handler_ok]:
  "opcode \<in> {OP_1ADD, OP_1SUB, OP_NEGATE, OP_ABS, OP_NOT, OP_0NOTEQUAL} \<Longrightarrow> small st \<Longrightarrow>
   ensures (eval_unary env opcode st) small"
  unfolding eval_unary_def
  by (intro ensures_if ensures_InrI ensures_errorI ensures_bindI [OF ensures_stacktop]
      ensures_bindI [OF ensures_script_num4] ensures_bindI [OF unary_num_ok]
      ensures_bindI [OF ensures_popstack])
    (simp_all only: small_Cons length_serialize_small simp_thms)

lemma eval_binary_ok [handler_ok]:
  "opcode \<in> {OP_ADD, OP_SUB, OP_BOOLAND, OP_BOOLOR, OP_NUMEQUAL, OP_NUMEQUALVERIFY,
     OP_NUMNOTEQUAL, OP_LESSTHAN, OP_GREATERTHAN, OP_LESSTHANOREQUAL, OP_GREATERTHANOREQUAL,
     OP_MIN, OP_MAX} \<Longrightarrow> small st \<Longrightarrow> ensures (eval_binary env opcode st) small"
  unfolding eval_binary_def Let_def
  by (intro ensures_if ensures_InrI ensures_errorI ensures_bindI [OF ensures_stacktop]
      ensures_bindI [OF ensures_script_num4] ensures_bindI [OF binary_num_ok]
      ensures_bindI [OF ensures_popstack])
    (simp_all only: small_Cons length_serialize_small simp_thms)

lemma eval_WITHIN_ok [handler_ok]: "small st \<Longrightarrow> ensures (eval_WITHIN env st) small"
  unfolding eval_WITHIN_def
  by (cases st rule: eval_3DUP.cases)
    (auto intro!: ensures_InrI ensures_bindI [OF ensures_script_num4])

lemma eval_HASH_ok [handler_ok]:
  "hashes_small (hash_fns env) \<Longrightarrow> small st \<Longrightarrow> ensures (eval_HASH env opcode st) small"
  by (cases st) (auto simp: hashes_small_def Let_def)

lemma eval_CHECKSIG_ok [handler_ok]: "small st \<Longrightarrow> ensures (eval_CHECKSIG env opcode codehash st) small"
  unfolding eval_CHECKSIG_def
  by (cases st rule: eval_2DUP.cases)
    (auto simp: Let_def intro!: ensures_True_bind [OF CheckSignatureEncoding_total]
      ensures_True_bind [OF CheckPubKeyEncoding_total])

lemma stacktop_total: "ensures (stacktop st i) (\<lambda>_. True)"
  by (simp add: stacktop_def)

lemma multisig_verify_ok:
  "ensures (multisig_verify env st scriptCode isig ikey nSigsCount nKeysCount) (\<lambda>_. True)"
proof (induction "nat (nKeysCount + 1)" arbitrary: isig ikey nSigsCount nKeysCount rule: less_induct)
  case less
  show ?case
    by (subst multisig_verify.simps)
      (auto simp: Let_def intro!: less ensures_True_bind [OF stacktop_total]
        ensures_True_bind [OF CheckSignatureEncoding_total] ensures_True_bind [OF CheckPubKeyEncoding_total])
qed

lemma multisig_script_code_ok: "ensures (multisig_script_code sigver st isig k scriptCode) (\<lambda>_. True)"
  by (induction k arbitrary: isig scriptCode) (simp_all add: ensures_True_bind [OF stacktop_total])

lemma multisig_cleanup_ok: "small st \<Longrightarrow> ensures (multisig_cleanup env fSuccess i ikey2 st) small"
  by (induction i arbitrary: ikey2 st)
    (auto intro!: ensures_True_bind [OF stacktop_total] ensures_bindI [OF ensures_popstack])

lemma multisig_finish_ok: "small st \<Longrightarrow> ensures (multisig_finish env opcode fSuccess st) small"
  unfolding multisig_finish_def
  by (intro ensures_if ensures_InrI ensures_errorI ensures_bindI [OF ensures_stacktop]
      ensures_bindI [OF ensures_popstack]) auto

lemma eval_CHECKMULTISIG_ok:
  "eval_ok s \<Longrightarrow>
   ensures (eval_CHECKMULTISIG env opcode s) (\<lambda>s'. eval_ok s' \<and> eval_pc s' = eval_pc s)"
  unfolding eval_CHECKMULTISIG_def Let_def eval_ok_def
  by (intro ensures_if ensures_InrI ensures_errorI ensures_bindI [OF ensures_stacktop]
      ensures_bindI [OF ensures_script_num4] ensures_bindI [OF multisig_cleanup_ok]
      ensures_True_bind [OF multisig_script_code_ok] ensures_True_bind [OF multisig_verify_ok]
      ensures_bindI [OF multisig_finish_ok]) auto

subsection \<open>The instruction\<close>

lemma on_stack_ok:
  "eval_ok s \<Longrightarrow> ensures r small \<Longrightarrow> ensures (on_stack s r) (\<lambda>s'. eval_ok s' \<and> eval_pc s' = eval_pc s)"
  unfolding on_stack_def by (erule ensures_bindI) (simp add: eval_ok_def)

lemma eval_IF_ok:
  "eval_ok s \<Longrightarrow> ensures (eval_IF env opcode fExec s) (\<lambda>s'. eval_ok s' \<and> eval_pc s' = eval_pc s)"
  unfolding eval_IF_def Let_def eval_ok_def
  by (intro ensures_if ensures_InrI ensures_errorI ensures_bindI [OF ensures_stacktop]
      ensures_bindI [OF ensures_popstack]) auto

lemma eval_conditional_ok:
  "eval_ok s \<Longrightarrow> ensures (eval_ELSE s) (\<lambda>s'. eval_ok s' \<and> eval_pc s' = eval_pc s)"
  "eval_ok s \<Longrightarrow> ensures (eval_ENDIF s) (\<lambda>s'. eval_ok s' \<and> eval_pc s' = eval_pc s)"
  by (auto simp: eval_ELSE_def eval_ENDIF_def eval_ok_def split: list.splits)

lemma eval_altstack_ok:
  "eval_ok s \<Longrightarrow> ensures (eval_TOALTSTACK s) (\<lambda>s'. eval_ok s' \<and> eval_pc s' = eval_pc s)"
  "eval_ok s \<Longrightarrow> ensures (eval_FROMALTSTACK s) (\<lambda>s'. eval_ok s' \<and> eval_pc s' = eval_pc s)"
  by (auto simp: eval_TOALTSTACK_def eval_FROMALTSTACK_def eval_ok_def split: list.splits)

lemma eval_opcode_ok:
  assumes "eval_ok s" and "length (stk s) < 2 ^ 63" and "hashes_small (hash_fns env)"
  shows "ensures (eval_opcode env opcode fExec s) (\<lambda>s'. eval_ok s' \<and> eval_pc s' = eval_pc s)"
proof -
  have st: "small (stk s)" using assms(1) by (simp add: eval_ok_def)
  show ?thesis
    unfolding eval_opcode_def
    by (intro ensures_if on_stack_ok [OF assms(1)] eval_DEPTH_ok handler_ok eval_CHECKMULTISIG_ok eval_IF_ok
        eval_conditional_ok eval_altstack_ok ensures_errorI ensures_InrI assms st)
      (use assms(1) in \<open>simp_all add: eval_ok_def\<close>)
qed

text \<open>The state between two instructions; \<open>N\<close> bounds the stacks before the first of them.\<close>

definition between :: "nat \<Rightarrow> eval_state \<Rightarrow> bool" where
  "between N s \<longleftrightarrow> MAX_STACK_SIZE \<le> N \<and> N < 2 ^ 63 \<and> eval_ok s \<and> length (stk s) + length (altstack s) \<le> N"

lemma eval_exec_ok:
  assumes "eval_ok s" and "length (stk s) < 2 ^ 63" and "hashes_small (hash_fns env)"
    and "length vchPushValue \<le> MAX_SCRIPT_ELEMENT_SIZE"
  shows "ensures (eval_exec env opcode vchPushValue s) (\<lambda>s'. eval_ok s' \<and> eval_pc s' = eval_pc s)"
proof -
  have push: "ensures (Inr (s\<lparr>stk := vchPushValue # stk s\<rparr>)) (\<lambda>s'. eval_ok s' \<and> eval_pc s' = eval_pc s)"
    using assms(1,4) by (simp add: eval_ok_def)
  have minimal: "ensures
      (case CheckMinimalPush vchPushValue opcode of None \<Rightarrow> Inl Assertion_failed
       | Some minimal \<Rightarrow> if \<not> minimal then set_error SCRIPT_ERR_MINIMALDATA
           else Inr (s\<lparr>stk := vchPushValue # stk s\<rparr>)) (\<lambda>s'. eval_ok s' \<and> eval_pc s' = eval_pc s)"
    if "opcode \<le> OP_PUSHDATA4"
    using that push by (simp add: CheckMinimalPush_def)
  show ?thesis
    unfolding eval_exec_def Let_def
    by (intro ensures_if eval_opcode_ok assms(1-3) push minimal) (use assms(1) in auto)
qed

lemma eval_step_ok:
  assumes "between N s" and "hashes_small (hash_fns env)"
  shows "ensures (eval_step env s) (\<lambda>s'. between N s' \<and> length (eval_pc s') < length (eval_pc s))"
proof (cases "GetOp (eval_pc s)")
  case None
  then show ?thesis by (simp add: eval_step_def)
next
  case (Some p)
  obtain opcode dat pc where p: "p = (opcode, dat, pc)" by (cases p)
  have pc: "length pc < length (eval_pc s)" using Some p GetOp_shorter by blast
  define ops where "ops = (if OP_16 < opcode then nOpCount s + 1 else nOpCount s)"
  have ok: "eval_ok (s\<lparr>eval_pc := pc, nOpCount := ops\<rparr>)"
    if "\<not> (OP_16 < opcode \<and> MAX_OPS_PER_SCRIPT < ops)"
    using assms(1) that by (auto simp: between_def eval_ok_def ops_def)
  have len: "length (stk s) < 2 ^ 63" using assms(1) by (simp add: between_def)
  have fin: "eval_ok s' \<and> eval_pc s' = pc \<Longrightarrow>
    ensures (check_stack_size s') (\<lambda>s'. between N s' \<and> length (eval_pc s') < length (eval_pc s))" for s'
    using pc assms(1) by (simp add: check_stack_size_def between_def)
  show ?thesis
    unfolding eval_step_def Some p Let_def option.case prod.case ops_def [symmetric]
    by (intro ensures_if ensures_errorI
        ensures_bindI [OF eval_exec_ok [OF ok]])
      (use len assms(2) fin in auto)
qed

section \<open>The whole script\<close>

lemma on_stack_pc: "on_stack s r = Inr s' \<Longrightarrow> eval_pc s' = eval_pc s"
  by (auto simp: on_stack_def split: sum.splits)

lemma eval_CHECKMULTISIG_pc: "eval_CHECKMULTISIG env opcode s = Inr s' \<Longrightarrow> eval_pc s' = eval_pc s"
  by (auto simp: eval_CHECKMULTISIG_def Let_def split: if_splits sum.splits)

lemma eval_control_pc:
  "eval_IF env opcode fExec s = Inr s' \<Longrightarrow> eval_pc s' = eval_pc s"
  "eval_ELSE s = Inr s' \<Longrightarrow> eval_pc s' = eval_pc s"
  "eval_ENDIF s = Inr s' \<Longrightarrow> eval_pc s' = eval_pc s"
  "eval_TOALTSTACK s = Inr s' \<Longrightarrow> eval_pc s' = eval_pc s"
  "eval_FROMALTSTACK s = Inr s' \<Longrightarrow> eval_pc s' = eval_pc s"
  by (auto simp: eval_IF_def eval_ELSE_def eval_ENDIF_def eval_TOALTSTACK_def eval_FROMALTSTACK_def
      Let_def split: if_splits sum.splits list.splits)

lemma if_InrE:
  "(if c then a else b) = Inr x \<Longrightarrow> (a = Inr x \<Longrightarrow> P) \<Longrightarrow> (b = Inr x \<Longrightarrow> P) \<Longrightarrow> P"
  by (auto split: if_splits)

lemma eval_opcode_pc: "eval_opcode env opcode fExec s = Inr s' \<Longrightarrow> eval_pc s' = eval_pc s"
  unfolding eval_opcode_def
  by (elim if_InrE on_stack_pc eval_control_pc eval_CHECKMULTISIG_pc) auto

lemma eval_step_shorter: "eval_step env s = Inr s' \<Longrightarrow> length (eval_pc s') < length (eval_pc s)"
  by (auto simp: eval_step_def eval_exec_def Let_def check_stack_size_def
      split: option.splits if_splits sum.splits dest!: GetOp_shorter eval_opcode_pc)

text \<open>The loop \<open>while (pc < pend)\<close>; every round consumes at least one byte of the script.\<close>

function eval_run :: "eval_env \<Rightarrow> eval_state \<Rightarrow> failure + eval_state" where
  "eval_run env s =
     (if eval_pc s = [] then Inr s else bind_sum (eval_step env s) (\<lambda>s'. eval_run env s'))"
  by pat_completeness auto
termination
  by (relation "measure (\<lambda>(_, s). length (eval_pc s))") (auto dest: eval_step_shorter)

declare eval_run.simps [simp del]

definition eval_init :: "stack \<Rightarrow> script \<Rightarrow> eval_state" where
  "eval_init st script = \<lparr>stk = st, altstack = [], vfExec = [], nOpCount = 0, eval_pc = script,
     pbegincodehash = script\<rparr>"

text \<open>The stack after the script, or the error.\<close>

definition EvalScript :: "eval_env \<Rightarrow> stack \<Rightarrow> script \<Rightarrow> failure + stack" where
  "EvalScript env st script =
     (if MAX_SCRIPT_SIZE < length script then set_error SCRIPT_ERR_SCRIPT_SIZE
      else bind_sum (eval_run env (eval_init st script)) (\<lambda>s.
        if vfExec s \<noteq> [] then set_error SCRIPT_ERR_UNBALANCED_CONDITIONAL else Inr (stk s)))"

lemma eval_run_ok:
  "between N s \<Longrightarrow> hashes_small (hash_fns env) \<Longrightarrow> ensures (eval_run env s) (between N)"
proof (induction env s rule: eval_run.induct)
  case (1 env s)
  show ?case
  proof (cases "eval_pc s = []")
    case True
    then show ?thesis using 1 by (simp add: eval_run.simps)
  next
    case False
    then show ?thesis
      using 1 eval_step_ok [OF 1(2,3)] by (subst eval_run.simps) (auto split: sum.splits)
  qed
qed

lemma EvalScript_ok:
  assumes "small st" and "length st \<le> N" and "MAX_STACK_SIZE \<le> N" and "N < 2 ^ 63"
    and "hashes_small (hash_fns env)"
  shows "ensures (EvalScript env st script) (\<lambda>st'. small st' \<and> length st' \<le> N)"
proof -
  have "between N (eval_init st script)"
    using assms by (simp add: between_def eval_init_def eval_ok_def)
  from eval_run_ok [OF this assms(5)] show ?thesis
    unfolding EvalScript_def
    by (intro ensures_if ensures_errorI ensures_bindI [where Q = "between N"])
      (auto simp: between_def eval_ok_def)
qed

section \<open>Flags only restrict\<close>

text \<open>\<open>subenv env' env\<close>: the same run with some of the flags dropped.\<close>

definition subenv :: "eval_env \<Rightarrow> eval_env \<Rightarrow> bool" where
  "subenv env' env \<longleftrightarrow> (\<exists>f. env = env'\<lparr>flags := f\<rparr> \<and> f AND flags env' = f)"

lemma flag_set_mono:
  assumes "f AND f' = f" and "flag_set f m"
  shows "flag_set f' m"
proof -
  have "f AND m = f AND (f' AND m)" using assms(1) by (metis and.assoc)
  then show ?thesis using assms(2) by (auto simp: flag_set_def)
qed

lemma subenvD:
  assumes "subenv env' env"
  shows subenv_sigversion: "sigversion env = sigversion env'"
    and subenv_checker: "sig_checker env = sig_checker env'"
    and subenv_hash_fns: "hash_fns env = hash_fns env'"
    and subenv_flag: "flag_set (flags env) m \<Longrightarrow> flag_set (flags env') m"
  using assms by (auto simp: subenv_def dest: flag_set_mono)

lemma CScriptNum_of_weaker: "(r \<Longrightarrow> r') \<Longrightarrow> weaker (CScriptNum_of v r' n) (CScriptNum_of v r n)"
  by (simp add: weaker_def CScriptNum_of_def)

lemma script_num_weaker [weaker_intros]:
  assumes "subenv env' env"
  shows "weaker (script_num env' v n) (script_num env v n)"
proof -
  have "fRequireMinimal env \<Longrightarrow> fRequireMinimal env'"
    using subenv_flag [OF assms] by (simp add: fRequireMinimal_def)
  from CScriptNum_of_weaker [OF this] show ?thesis
    by (auto simp: script_num_def weaker_def split: sum.splits)
qed

lemma CheckSignatureEncoding_weaker [weaker_intros]:
  "subenv env' env \<Longrightarrow>
   weaker (CheckSignatureEncoding v (flags env')) (CheckSignatureEncoding v (flags env))"
  by (auto simp: weaker_def CheckSignatureEncoding_def dest: subenv_flag)

lemma CheckPubKeyEncoding_weaker [weaker_intros]:
  "subenv env' env \<Longrightarrow>
   weaker (CheckPubKeyEncoding v (flags env') sv) (CheckPubKeyEncoding v (flags env) sv)"
  by (auto simp: weaker_def CheckPubKeyEncoding_def dest: subenv_flag)

lemma eval_locks_weaker [weaker_intros]:
  assumes "subenv env' env"
  shows "weaker (eval_CHECKLOCKTIMEVERIFY env' st) (eval_CHECKLOCKTIMEVERIFY env st)"
    and "weaker (eval_CHECKSEQUENCEVERIFY env' st) (eval_CHECKSEQUENCEVERIFY env st)"
    and "weaker (eval_NOP_expansion env' st) (eval_NOP_expansion env st)"
  using assms script_num_weaker [OF assms]
  by (auto simp: weaker_def eval_CHECKLOCKTIMEVERIFY_def eval_CHECKSEQUENCEVERIFY_def
      eval_NOP_expansion_def subenv_checker split: sum.splits if_splits dest: subenv_flag)

lemma eval_IF_weaker [weaker_intros]:
  assumes "subenv env' env"
  shows "weaker (eval_IF env' opcode fExec s) (eval_IF env opcode fExec s)"
  using assms unfolding eval_IF_def
  by (intro weaker_if weaker_refl weaker_bind weaker_guard)
    (auto simp: subenv_sigversion dest: subenv_flag)

lemma eval_numeric_weaker [weaker_intros]:
  assumes "subenv env' env"
  shows "weaker (eval_PICK_ROLL env' opcode st) (eval_PICK_ROLL env opcode st)"
    and "weaker (eval_unary env' opcode st) (eval_unary env opcode st)"
    and "weaker (eval_binary env' opcode st) (eval_binary env opcode st)"
  unfolding eval_PICK_ROLL_def eval_unary_def eval_binary_def Let_def
  by (intro weaker_if weaker_refl weaker_bind script_num_weaker [OF assms])+

lemma eval_WITHIN_weaker [weaker_intros]:
  "subenv env' env \<Longrightarrow> weaker (eval_WITHIN env' st) (eval_WITHIN env st)"
  unfolding eval_WITHIN_def
  by (cases st rule: eval_3DUP.cases) (auto intro!: weaker_bind weaker_refl script_num_weaker)

lemma eval_HASH_weaker [weaker_intros]:
  "subenv env' env \<Longrightarrow> weaker (eval_HASH env' opcode st) (eval_HASH env opcode st)"
  by (cases st) (simp_all add: subenv_hash_fns)

lemma eval_CHECKSIG_weaker [weaker_intros]:
  assumes "subenv env' env"
  shows "weaker (eval_CHECKSIG env' opcode codehash st) (eval_CHECKSIG env opcode codehash st)"
  using assms CheckPubKeyEncoding_weaker [OF assms, of _ "sigversion env'"] unfolding eval_CHECKSIG_def
  by (cases st rule: eval_2DUP.cases)
    (auto simp: Let_def subenv_sigversion subenv_checker
      intro!: weaker_bind CheckSignatureEncoding_weaker weaker_guard weaker_refl dest: subenv_flag)

lemma multisig_verify_weaker [weaker_intros]:
  assumes "subenv env' env"
  shows "weaker (multisig_verify env' st scriptCode isig ikey nSigsCount nKeysCount)
    (multisig_verify env st scriptCode isig ikey nSigsCount nKeysCount)"
proof (induction "nat (nKeysCount + 1)" arbitrary: isig ikey nSigsCount nKeysCount rule: less_induct)
  case less
  have enc: "weaker (CheckPubKeyEncoding v (flags env') (sigversion env'))
    (CheckPubKeyEncoding v (flags env) (sigversion env))" for v
    using CheckPubKeyEncoding_weaker [OF assms] by (simp add: subenv_sigversion [OF assms])
  show ?case
    by (subst (1 2) multisig_verify.simps)
      (auto simp: Let_def subenv_sigversion [OF assms] subenv_checker [OF assms]
        intro!: less weaker_bind enc [unfolded subenv_sigversion [OF assms]] CheckSignatureEncoding_weaker assms)
qed

lemma multisig_cleanup_weaker [weaker_intros]:
  assumes "subenv env' env"
  shows "weaker (multisig_cleanup env' fSuccess i ikey2 st) (multisig_cleanup env fSuccess i ikey2 st)"
proof (induction i arbitrary: ikey2 st)
  case 0
  show ?case by simp
next
  case (Suc i)
  then show ?case
    using subenv_flag [OF assms]
    by (auto simp: weaker_def stacktop_def popstack_def split: list.splits if_splits)
qed

lemma multisig_finish_weaker [weaker_intros]:
  "subenv env' env \<Longrightarrow> weaker (multisig_finish env' opcode fSuccess st) (multisig_finish env opcode fSuccess st)"
  unfolding multisig_finish_def
  by (intro weaker_if weaker_refl weaker_bind weaker_guard) (auto dest: subenv_flag)

lemma eval_CHECKMULTISIG_weaker [weaker_intros]:
  assumes "subenv env' env"
  shows "weaker (eval_CHECKMULTISIG env' opcode s) (eval_CHECKMULTISIG env opcode s)"
  unfolding eval_CHECKMULTISIG_def Let_def subenv_sigversion [OF assms]
  by (intro weaker_if weaker_refl weaker_bind script_num_weaker [OF assms]
      multisig_verify_weaker [OF assms] multisig_cleanup_weaker [OF assms]
      multisig_finish_weaker [OF assms])

lemma on_stack_weaker [weaker_intros]: "weaker r' r \<Longrightarrow> weaker (on_stack s r') (on_stack s r)"
  unfolding on_stack_def by (intro weaker_bind weaker_refl)

lemma eval_opcode_weaker [weaker_intros]:
  assumes "subenv env' env"
  shows "weaker (eval_opcode env' opcode fExec s) (eval_opcode env opcode fExec s)"
  unfolding eval_opcode_def
  by (intro weaker_if weaker_refl on_stack_weaker eval_locks_weaker eval_IF_weaker
      eval_numeric_weaker eval_WITHIN_weaker eval_HASH_weaker eval_CHECKSIG_weaker
      eval_CHECKMULTISIG_weaker assms)

lemma eval_exec_weaker [weaker_intros]:
  assumes "subenv env' env"
  shows "weaker (eval_exec env' opcode v s) (eval_exec env opcode v s)"
proof -
  have "fRequireMinimal env \<Longrightarrow> fRequireMinimal env'"
    using subenv_flag [OF assms] by (simp add: fRequireMinimal_def)
  then show ?thesis
    using eval_opcode_weaker [OF assms]
    by (auto simp: eval_exec_def Let_def weaker_def split: option.splits)
qed

lemma eval_step_weaker [weaker_intros]:
  assumes "subenv env' env"
  shows "weaker (eval_step env' s) (eval_step env s)"
proof (cases "GetOp (eval_pc s)")
  case (Some p)
  then show ?thesis
    unfolding eval_step_def Some option.case
    by (cases p) (auto simp: Let_def intro!: weaker_bind eval_exec_weaker assms)
qed (simp add: eval_step_def)

lemma eval_run_weaker [weaker_intros]:
  assumes "subenv env' env"
  shows "weaker (eval_run env' s) (eval_run env s)"
proof (induction "length (eval_pc s)" arbitrary: s rule: less_induct)
  case less
  show ?case
  proof (cases "eval_pc s = [] \<or> (\<exists>e. eval_step env' s = Inl e)")
    case True
    then show ?thesis by (auto simp: eval_run.simps)
  next
    case False
    then obtain s1 where s1: "eval_step env' s = Inr s1" by (cases "eval_step env' s") auto
    with eval_step_weaker [OF assms] have "eval_step env s = Inr s1" by (rule weakerD)
    with False s1 less [OF eval_step_shorter [OF s1]] show ?thesis
      by (simp add: eval_run.simps [of _ s])
  qed
qed

lemma EvalScript_weaker:
  assumes "subenv env' env"
  shows "weaker (EvalScript env' st script) (EvalScript env st script)"
  unfolding EvalScript_def by (intro weaker_if weaker_refl weaker_bind eval_run_weaker assms)

section \<open>Truth of a stack element\<close>

lemma le_nat_eq_0: "le_nat bs = 0 \<longleftrightarrow> list_all (\<lambda>b. b = 0) bs"
  by (induction bs) (auto simp: unat_eq_0)

text \<open>An element is true exactly when the number it denotes, its sign bit apart, is not zero.\<close>

lemma CastToBool_cases: "CastToBool vch \<longleftrightarrow>
   vch \<noteq> [] \<and> (\<not> list_all (\<lambda>b. b = 0) (butlast vch) \<or> last vch \<noteq> 0 \<and> last vch \<noteq> 0x80)"
  by (induction vch) auto

lemma byte_7F_0: "(b :: byte) AND 0x7F = 0 \<longleftrightarrow> b = 0 \<or> b = 0x80"
proof -
  have "b AND 0x7F = take_bit 7 b" using take_bit_eq_mask [of 7 b] by (simp add: mask_eq_exp_minus_1)
  then have "b AND 0x7F = 0 \<longleftrightarrow> unat (take_bit 7 b) = 0" by (simp only: unat_eq_0)
  also have "unat (take_bit 7 b) = unat b mod 128"
    by (simp only: unsigned_take_bit_eq) (simp add: take_bit_eq_mod)
  also have "unat b mod 128 = 0 \<longleftrightarrow> unat b = 0 \<or> unat b = 128"
    using unat_byte_less [of b] by presburger
  also have "\<dots> \<longleftrightarrow> b = 0 \<or> b = 0x80" by (simp add: word_unat_eq_iff)
  finally show ?thesis .
qed

lemma CastToBool_magnitude: "CastToBool vch \<longleftrightarrow> vch \<noteq> [] \<and> magnitude vch \<noteq> 0"
  by (auto simp: CastToBool_cases magnitude_def le_nat_eq_0 byte_7F_0)

section \<open>Branches that are not executed and scripts that only push\<close>

text \<open>Outside an executed branch an instruction changes nothing but the conditional stack.\<close>

lemma eval_exec_skipped:
  assumes "False \<in> set (vfExec s)" and "eval_exec env opcode v s = Inr s'"
  shows "stk s' = stk s \<and> altstack s' = altstack s \<and> pbegincodehash s' = pbegincodehash s"
proof -
  have skip: "\<not> list_all id (vfExec s)" using assms(1) by (auto simp: list_all_iff)
  show ?thesis
  proof (cases "OP_IF \<le> opcode \<and> opcode \<le> OP_ENDIF")
    case False
    then have "eval_exec env opcode v s = Inr s" using skip by (auto simp: eval_exec_def Let_def)
    with assms(2) show ?thesis by simp
  next
    case True
    define n where "n = unat opcode"
    have "99 \<le> n" and "n \<le> 104" using True by (simp_all add: word_le_nat_alt n_def)
    then have "n = 99 \<or> n = 100 \<or> n = 101 \<or> n = 102 \<or> n = 103 \<or> n = 104" by presburger
    then have ops: "opcode \<in> {OP_IF, OP_NOTIF, OP_VERIF, OP_VERNOTIF, OP_ELSE, OP_ENDIF}"
      by (simp add: n_def word_unat_eq_iff)
    have "eval_exec env opcode v s = eval_opcode env opcode False s"
      using skip True by (simp add: eval_exec_def Let_def)
    with assms(2) have ev: "eval_opcode env opcode False s = Inr s'" by simp
    from ops show ?thesis
      by (elim insertE emptyE; insert ev; hypsubst_thin;
          simp add: eval_opcode_def eval_IF_def eval_ELSE_def eval_ENDIF_def split: list.splits; fastforce?)
  qed
qed

text \<open>The errors a script of pushes can end with.\<close>

definition push_errors :: "failure set" where
  "push_errors = Script_error ` {SCRIPT_ERR_PUSH_SIZE, SCRIPT_ERR_MINIMALDATA, SCRIPT_ERR_BAD_OPCODE,
     SCRIPT_ERR_STACK_SIZE}"

lemma push_step:
  assumes "GetOp (eval_pc s) = Some (opcode, v, pc)" and "\<not> OP_16 < opcode" and "vfExec s = []"
  shows "case eval_step env s of Inl e \<Rightarrow> e \<in> push_errors
    | Inr s' \<Rightarrow> \<exists>x. s' = s\<lparr>eval_pc := pc, stk := x # stk s\<rparr>"
proof -
  have n: "unat opcode \<le> 96" using assms(2) by (simp add: word_less_nat_alt)
  have d: "\<not> disabled_opcode opcode"
    using n by (auto simp: disabled_opcode_def)
  have c: "opcode = OP_1NEGATE \<or> opcode = OP_RESERVED \<or> OP_1 \<le> opcode \<and> opcode \<le> OP_16"
    if "\<not> opcode \<le> OP_PUSHDATA4"
  proof -
    have "79 \<le> unat opcode" using that by (simp add: word_le_nat_alt)
    then have "unat opcode = 79 \<or> unat opcode = 80 \<or> 81 \<le> unat opcode" by presburger
    with n show ?thesis by (simp add: word_unat_eq_iff word_le_nat_alt)
  qed
  have r: "eval_opcode env OP_RESERVED True s1 = set_error SCRIPT_ERR_BAD_OPCODE" for s1
    by (simp add: eval_opcode_def)
  have p: "eval_opcode env opcode True s1 =
      Inr (s1\<lparr>stk := CScriptNum_serialize (uint opcode - (uint OP_1 - 1)) # stk s1\<rparr>)"
    if "opcode = OP_1NEGATE \<or> OP_1 \<le> opcode \<and> opcode \<le> OP_16" for s1
    using that by (simp add: eval_opcode_def on_stack_def eval_push_constant_def)
  have "eval_exec env opcode v s1 \<in> Inl ` push_errors \<or> (\<exists>x. eval_exec env opcode v s1 = Inr (s1\<lparr>stk := x # stk s1\<rparr>))"
    if "vfExec s1 = []" for s1
    using that c r [of s1] p [of s1]
    by (cases "opcode \<le> OP_PUSHDATA4")
      (auto simp: eval_exec_def CheckMinimalPush_def push_errors_def)
  from this [of "s\<lparr>eval_pc := pc, nOpCount := nOpCount s\<rparr>"] show ?thesis
    using assms d by (auto simp: eval_step_def check_stack_size_def push_errors_def)
qed

lemma push_only_run:
  assumes "IsPushOnly (eval_pc s)" and "vfExec s = []"
  shows "case eval_run env s of Inl e \<Rightarrow> e \<in> push_errors
    | Inr s' \<Rightarrow> vfExec s' = [] \<and> (\<exists>vs. stk s' = vs @ stk s)"
  using assms
proof (induction "length (eval_pc s)" arbitrary: s rule: less_induct)
  case less
  show ?case
  proof (cases "eval_pc s = []")
    case True
    with less(3) show ?thesis by (simp add: eval_run.simps)
  next
    case False
    with less(2) obtain opcode v pc where op: "GetOp (eval_pc s) = Some (opcode, v, pc)"
      and le: "\<not> OP_16 < opcode" and po: "IsPushOnly pc"
      by (subst (asm) IsPushOnly.simps) (auto split: option.splits if_splits)
    note step = push_step [OF op le less(3), of env]
    show ?thesis
    proof (cases "eval_step env s")
      case (Inl e)
      with step False show ?thesis by (simp add: eval_run.simps)
    next
      case (Inr s1)
      with step obtain x where s1: "s1 = s\<lparr>eval_pc := pc, stk := x # stk s\<rparr>" by auto
      have ih: "case eval_run env s1 of Inl e \<Rightarrow> e \<in> push_errors
        | Inr s' \<Rightarrow> vfExec s' = [] \<and> (\<exists>vs. stk s' = vs @ stk s1)"
        using less(1) [OF eval_step_shorter [OF Inr]] po less(3) by (simp add: s1)
      have "eval_run env s = eval_run env s1" using False Inr by (simp add: eval_run.simps [of _ s])
      with ih show ?thesis by (auto simp: s1 split: sum.splits)
    qed
  qed
qed

end
