(* ===== verification/Transaction.thy ===== *)
theory Transaction imports Interpreter
begin

unbundle bit_operations_syntax

text \<open>
  The data of the chain: amounts (\<^verbatim>\<open>src/src/amount.h\<close>), outpoints, inputs, outputs and
  transactions (\<^verbatim>\<open>src/src/primitives/transaction.h\<close> and \<^verbatim>\<open>.cpp\<close>), block headers and blocks
  (\<^verbatim>\<open>src/src/primitives/block.h\<close>), with the wire format of each, the order on outpoints and the
  transaction weight (\<^verbatim>\<open>src/src/consensus/validation.h\<close>).  The 64-bit \<open>CAmount\<close> is an \<^typ>\<open>int\<close>; the
  flag \<open>fAllowWitness\<close> stands for the version bit \<open>SERIALIZE_TRANSACTION_NO_WITNESS\<close> of a stream.
  Hashing takes the double hash \<open>Hash256\<close> as an argument.
\<close>

section \<open>Amounts\<close>

type_synonym CAmount = int

definition COIN :: CAmount where "COIN = 100000000"
definition CENT :: CAmount where "CENT = 1000000"
definition MAX_MONEY :: CAmount where "MAX_MONEY = 3800000000 * COIN"
definition GENESIS_MONEY :: CAmount where "GENESIS_MONEY = 3300000000 * COIN"
definition INITIAL_SUBSIDY :: CAmount where "INITIAL_SUBSIDY = 125 * COIN"

definition MoneyRange :: "CAmount \<Rightarrow> bool" where
  "MoneyRange nValue \<longleftrightarrow> 0 \<le> nValue \<and> nValue \<le> MAX_MONEY"

section \<open>Blobs\<close>

text \<open>\<open>memcmp\<close> on two blocks of the same size, and \<open>base_blob<256>\<close>.\<close>

fun memcmp :: "bytes \<Rightarrow> bytes \<Rightarrow> int" where
  "memcmp (a # as) (b # bs) = (if a < b then -1 else if b < a then 1 else memcmp as bs)"
| "memcmp _ _ = 0"

definition uint256_bytes :: "uint256 \<Rightarrow> bytes" where
  "uint256_bytes h = le_bytes 32 h"

definition uint256_of :: "bytes \<Rightarrow> uint256" where
  "uint256_of bs = le_word bs"

definition uint256_Compare :: "uint256 \<Rightarrow> uint256 \<Rightarrow> int" where
  "uint256_Compare a b = memcmp (uint256_bytes a) (uint256_bytes b)"

definition uint256_IsNull :: "uint256 \<Rightarrow> bool" where
  "uint256_IsNull h \<longleftrightarrow> list_all (\<lambda>b. b = 0) (uint256_bytes h)"

definition Serialize_uint256 :: "uint256 \<Rightarrow> bytes" where
  "Serialize_uint256 h = uint256_bytes h"

definition Unserialize_uint256 :: "uint256 reader" where
  "Unserialize_uint256 s = bind_sum (stream_read 32 s) (\<lambda>(bs, s). Inr (uint256_of bs, s))"

section \<open>Outpoints\<close>

datatype COutPoint = COutPoint (op_hash: uint256) (op_n: u32)

definition COutPoint_null :: COutPoint where "COutPoint_null = COutPoint 0 (- 1)"

definition COutPoint_IsNull :: "COutPoint \<Rightarrow> bool" where
  "COutPoint_IsNull p \<longleftrightarrow> uint256_IsNull (op_hash p) \<and> op_n p = - 1"

text \<open>\<open>operator<\<close>.\<close>

definition COutPoint_less :: "COutPoint \<Rightarrow> COutPoint \<Rightarrow> bool" where
  "COutPoint_less a b =
     (let cmp = uint256_Compare (op_hash a) (op_hash b) in cmp < 0 \<or> cmp = 0 \<and> op_n a < op_n b)"

definition Serialize_COutPoint :: "COutPoint \<Rightarrow> bytes" where
  "Serialize_COutPoint p = Serialize_uint256 (op_hash p) @ ser_writedata32 (op_n p)"

definition Unserialize_COutPoint :: "COutPoint reader" where
  "Unserialize_COutPoint s =
     bind_sum (Unserialize_uint256 s) (\<lambda>(hash, s).
     bind_sum (ser_readdata32 s) (\<lambda>(n, s). Inr (COutPoint hash n, s)))"

section \<open>Inputs and outputs\<close>

record CTxIn =
  prevout :: COutPoint
  scriptSig :: script
  nSequence :: u32
  scriptWitness :: "valtype list"

definition SEQUENCE_FINAL :: u32 where "SEQUENCE_FINAL = 0xFFFFFFFF"
definition SEQUENCE_LOCKTIME_TYPE_FLAG :: int where "SEQUENCE_LOCKTIME_TYPE_FLAG = 2 ^ 22"
definition SEQUENCE_LOCKTIME_MASK :: int where "SEQUENCE_LOCKTIME_MASK = 0x0000FFFF"
definition SEQUENCE_LOCKTIME_GRANULARITY :: nat where "SEQUENCE_LOCKTIME_GRANULARITY = 9"

definition CScriptWitness_IsNull :: "valtype list \<Rightarrow> bool" where
  "CScriptWitness_IsNull stack \<longleftrightarrow> stack = []"

definition Serialize_CTxIn :: "CTxIn \<Rightarrow> bytes" where
  "Serialize_CTxIn i = Serialize_COutPoint (prevout i) @ Serialize_bytes (scriptSig i) @ ser_writedata32 (nSequence i)"

definition Unserialize_CTxIn :: "CTxIn reader" where
  "Unserialize_CTxIn s =
     bind_sum (Unserialize_COutPoint s) (\<lambda>(p, s).
     bind_sum (Unserialize_bytes s) (\<lambda>(sig, s).
     bind_sum (ser_readdata32 s) (\<lambda>(n, s).
       Inr (\<lparr>prevout = p, scriptSig = sig, nSequence = n, scriptWitness = []\<rparr>, s))))"

record CTxOut =
  nValue :: CAmount
  scriptPubKey :: script

definition CTxOut_null :: CTxOut where
  "CTxOut_null = \<lparr>nValue = -1, scriptPubKey = []\<rparr>"

definition CTxOut_IsNull :: "CTxOut \<Rightarrow> bool" where
  "CTxOut_IsNull out \<longleftrightarrow> nValue out = -1"

definition Serialize_int64 :: "int \<Rightarrow> bytes" where
  "Serialize_int64 a = ser_writedata64 (word_of_int a)"

definition Unserialize_int64 :: "int reader" where
  "Unserialize_int64 s = bind_sum (ser_readdata64 s) (\<lambda>(w, s). Inr (sint w, s))"

definition Serialize_CTxOut :: "CTxOut \<Rightarrow> bytes" where
  "Serialize_CTxOut out = Serialize_int64 (nValue out) @ Serialize_bytes (scriptPubKey out)"

definition Unserialize_CTxOut :: "CTxOut reader" where
  "Unserialize_CTxOut s =
     bind_sum (Unserialize_int64 s) (\<lambda>(v, s).
     bind_sum (Unserialize_bytes s) (\<lambda>(sc, s). Inr (\<lparr>nValue = v, scriptPubKey = sc\<rparr>, s)))"

section \<open>Transactions\<close>

text \<open>\<open>nVersion\<close> is an \<open>int32_t\<close>, kept as its 32 bits.  The cached \<open>hash\<close> of a \<open>CTransaction\<close> is
  \<open>ComputeHash\<close> of its other fields in every constructor, so it is the function \<open>GetHash\<close> here.\<close>

record CTransaction =
  tx_vin :: "CTxIn list"
  tx_vout :: "CTxOut list"
  tx_nVersion :: u32
  tx_nLockTime :: u32

definition CURRENT_VERSION :: u32 where "CURRENT_VERSION = 2"
definition MAX_STANDARD_VERSION :: u32 where "MAX_STANDARD_VERSION = 2"

text \<open>\<open>sizeof\<close> of the elements: the size of the batches a vector is read in.\<close>

definition sizeof_CTxIn :: nat where "sizeof_CTxIn = 96"
definition sizeof_CTxOut :: nat where "sizeof_CTxOut = 40"
definition sizeof_valtype :: nat where "sizeof_valtype = 24"

definition HasWitness :: "CTransaction \<Rightarrow> bool" where
  "HasWitness tx \<longleftrightarrow> list_ex (\<lambda>i. \<not> CScriptWitness_IsNull (scriptWitness i)) (tx_vin tx)"

definition CTransaction_IsNull :: "CTransaction \<Rightarrow> bool" where
  "CTransaction_IsNull tx \<longleftrightarrow> tx_vin tx = [] \<and> tx_vout tx = []"

definition IsCoinBase :: "CTransaction \<Rightarrow> bool" where
  "IsCoinBase tx \<longleftrightarrow> length (tx_vin tx) = 1 \<and> COutPoint_IsNull (prevout (tx_vin tx ! 0))"

definition Serialize_stack :: "valtype list \<Rightarrow> bytes" where
  "Serialize_stack st = Serialize_vector Serialize_bytes st"

definition Unserialize_stack :: "valtype list reader" where
  "Unserialize_stack = Unserialize_vector Unserialize_bytes sizeof_valtype"

definition SerializeTransaction :: "bool \<Rightarrow> CTransaction \<Rightarrow> bytes" where
  "SerializeTransaction fAllowWitness tx =
     (let flags = (if fAllowWitness \<and> HasWitness tx then 1 else 0 :: byte) in
      ser_writedata32 (tx_nVersion tx) @
      (if flags \<noteq> 0 then Serialize_vector Serialize_CTxIn [] @ ser_writedata8 flags else []) @
      Serialize_vector Serialize_CTxIn (tx_vin tx) @
      Serialize_vector Serialize_CTxOut (tx_vout tx) @
      (if flags AND 1 \<noteq> 0 then concat (map (\<lambda>i. Serialize_stack (scriptWitness i)) (tx_vin tx)) else []) @
      ser_writedata32 (tx_nLockTime tx))"

fun read_witnesses :: "CTxIn list \<Rightarrow> CTxIn list reader" where
  "read_witnesses [] s = Inr ([], s)"
| "read_witnesses (i # vin) s =
     bind_sum (Unserialize_stack s) (\<lambda>(st, s).
     bind_sum (read_witnesses vin s) (\<lambda>(vin, s). Inr (i\<lparr>scriptWitness := st\<rparr> # vin, s)))"

definition read_vin :: "CTxIn list reader" where
  "read_vin = Unserialize_vector Unserialize_CTxIn sizeof_CTxIn"

definition read_vout :: "CTxOut list reader" where
  "read_vout = Unserialize_vector Unserialize_CTxOut sizeof_CTxOut"

text \<open>The inputs, the outputs and the flags byte, in either format.\<close>

definition read_in_out :: "bool \<Rightarrow> (byte \<times> CTxIn list \<times> CTxOut list) reader" where
  "read_in_out fAllowWitness s =
     bind_sum (read_vin s) (\<lambda>(vin, s).
       if length vin = 0 \<and> fAllowWitness then
         bind_sum (ser_readdata8 s) (\<lambda>(flags, s).
           if flags \<noteq> 0 then
             bind_sum (read_vin s) (\<lambda>(vin, s). bind_sum (read_vout s) (\<lambda>(vout, s).
               Inr ((flags, vin, vout), s)))
           else Inr ((flags, vin, []), s))
       else bind_sum (read_vout s) (\<lambda>(vout, s). Inr ((0, vin, vout), s)))"

definition UnserializeTransaction :: "bool \<Rightarrow> CTransaction reader" where
  "UnserializeTransaction fAllowWitness s =
     bind_sum (ser_readdata32 s) (\<lambda>(ver, s).
     bind_sum (read_in_out fAllowWitness s) (\<lambda>((flags, vin, vout), s).
     bind_sum
       (if flags AND 1 \<noteq> 0 \<and> fAllowWitness then
          bind_sum (read_witnesses vin s) (\<lambda>(vin, s). Inr ((flags XOR 1, vin), s))
        else Inr ((flags, vin), s)) (\<lambda>((flags, vin), s).
       if flags \<noteq> 0 then Inl BadTxFlags
       else bind_sum (ser_readdata32 s) (\<lambda>(lock, s).
         Inr (\<lparr>tx_vin = vin, tx_vout = vout, tx_nVersion = ver, tx_nLockTime = lock\<rparr>, s)))))"

definition GetHash :: "(bytes \<Rightarrow> bytes) \<Rightarrow> CTransaction \<Rightarrow> uint256" where
  "GetHash h tx = uint256_of (h (SerializeTransaction False tx))"

definition GetWitnessHash :: "(bytes \<Rightarrow> bytes) \<Rightarrow> CTransaction \<Rightarrow> uint256" where
  "GetWitnessHash h tx =
     (if \<not> HasWitness tx then GetHash h tx else uint256_of (h (SerializeTransaction True tx)))"

text \<open>\<open>None\<close> is the exception \<open>value out of range\<close>.\<close>

fun value_out_from :: "CAmount \<Rightarrow> CTxOut list \<Rightarrow> CAmount option" where
  "value_out_from nValueOut [] = Some nValueOut"
| "value_out_from nValueOut (tx_out # vout) =
     (let nValueOut = nValueOut + nValue tx_out in
      if \<not> MoneyRange (nValue tx_out) \<or> \<not> MoneyRange nValueOut then None
      else value_out_from nValueOut vout)"

definition GetValueOut :: "CTransaction \<Rightarrow> CAmount option" where
  "GetValueOut tx = value_out_from 0 (tx_vout tx)"

definition GetTotalSize :: "CTransaction \<Rightarrow> nat" where
  "GetTotalSize tx = length (SerializeTransaction True tx)"

definition WITNESS_SCALE_FACTOR :: nat where "WITNESS_SCALE_FACTOR = 4"

definition MAX_BLOCK_WEIGHT :: nat where
  "MAX_BLOCK_WEIGHT = 32000000"

definition MIN_TRANSACTION_WEIGHT :: nat where
  "MIN_TRANSACTION_WEIGHT = WITNESS_SCALE_FACTOR * 60"

definition GetTransactionWeight :: "CTransaction \<Rightarrow> nat" where
  "GetTransactionWeight tx =
     length (SerializeTransaction False tx) * (WITNESS_SCALE_FACTOR - 1) + length (SerializeTransaction True tx)"

section \<open>Blocks\<close>

record CBlockHeader =
  bh_nVersion :: u32
  hashPrevBlock :: uint256
  hashMerkleRoot :: uint256
  nTime :: u32
  nBits :: u32
  nNonce :: uint256
  nSolution :: bytes

definition CBlockHeader_IsNull :: "CBlockHeader \<Rightarrow> bool" where
  "CBlockHeader_IsNull b \<longleftrightarrow> nBits b = 0"

definition Serialize_EquihashInput :: "CBlockHeader \<Rightarrow> bytes" where
  "Serialize_EquihashInput b =
     ser_writedata32 (bh_nVersion b) @ Serialize_uint256 (hashPrevBlock b) @ Serialize_uint256 (hashMerkleRoot b) @
     ser_writedata32 (nTime b) @ ser_writedata32 (nBits b)"

definition Serialize_CBlockHeader :: "CBlockHeader \<Rightarrow> bytes" where
  "Serialize_CBlockHeader b =
     ser_writedata32 (bh_nVersion b) @ Serialize_uint256 (hashPrevBlock b) @ Serialize_uint256 (hashMerkleRoot b) @
     ser_writedata32 (nTime b) @ ser_writedata32 (nBits b) @ Serialize_uint256 (nNonce b) @
     Serialize_bytes (nSolution b)"

definition Unserialize_CBlockHeader :: "CBlockHeader reader" where
  "Unserialize_CBlockHeader s =
     bind_sum (ser_readdata32 s) (\<lambda>(ver, s). bind_sum (Unserialize_uint256 s) (\<lambda>(prev, s).
     bind_sum (Unserialize_uint256 s) (\<lambda>(merkle, s). bind_sum (ser_readdata32 s) (\<lambda>(tm, s).
     bind_sum (ser_readdata32 s) (\<lambda>(bits, s). bind_sum (Unserialize_uint256 s) (\<lambda>(nonce, s).
     bind_sum (Unserialize_bytes s) (\<lambda>(sol, s).
       Inr (\<lparr>bh_nVersion = ver, hashPrevBlock = prev, hashMerkleRoot = merkle, nTime = tm, nBits = bits,
         nNonce = nonce, nSolution = sol\<rparr>, s))))))))"

definition BlockHeader_GetHash :: "(bytes \<Rightarrow> bytes) \<Rightarrow> CBlockHeader \<Rightarrow> uint256" where
  "BlockHeader_GetHash h b = uint256_of (h (Serialize_CBlockHeader b))"

record CBlock = CBlockHeader +
  vtx :: "CTransaction list"

definition GetBlockHeader :: "CBlock \<Rightarrow> CBlockHeader" where
  "GetBlockHeader b =
     \<lparr>bh_nVersion = bh_nVersion b, hashPrevBlock = hashPrevBlock b, hashMerkleRoot = hashMerkleRoot b,
      nTime = nTime b, nBits = nBits b, nNonce = nNonce b, nSolution = nSolution b\<rparr>"

text \<open>\<open>vtx\<close> holds shared pointers of two machine words.\<close>

definition sizeof_CTransactionRef :: nat where "sizeof_CTransactionRef = 16"

definition Serialize_CBlock :: "bool \<Rightarrow> CBlock \<Rightarrow> bytes" where
  "Serialize_CBlock fAllowWitness b =
     Serialize_CBlockHeader (GetBlockHeader b) @ Serialize_vector (SerializeTransaction fAllowWitness) (vtx b)"

definition Unserialize_CBlock :: "bool \<Rightarrow> CBlock reader" where
  "Unserialize_CBlock fAllowWitness s =
     bind_sum (Unserialize_CBlockHeader s) (\<lambda>(hdr, s).
     bind_sum (Unserialize_vector (UnserializeTransaction fAllowWitness) sizeof_CTransactionRef s) (\<lambda>(txs, s).
       Inr (CBlockHeader.extend hdr (CBlock.fields txs), s)))"

definition GetBlockWeight :: "CBlock \<Rightarrow> nat" where
  "GetBlockWeight b =
     length (Serialize_CBlock False b) * (WITNESS_SCALE_FACTOR - 1) + length (Serialize_CBlock True b)"

section \<open>The order on outpoints\<close>

lemma memcmp_refl [simp]: "memcmp a a = 0"
  by (induction a) auto

lemma memcmp_eq_0: "length a = length b \<Longrightarrow> memcmp a b = 0 \<longleftrightarrow> a = b"
  by (induction a b rule: memcmp.induct) auto

lemma memcmp_sym: "memcmp b a = - memcmp a b"
  by (induction a b rule: memcmp.induct) auto

lemma memcmp_trans:
  "length a = length b \<Longrightarrow> length b = length c \<Longrightarrow> memcmp a b < 0 \<Longrightarrow> memcmp b c < 0 \<Longrightarrow> memcmp a c < 0"
proof (induction a b arbitrary: c rule: memcmp.induct)
  case (1 x a y b)
  then obtain z d where c: "c = z # d" by (cases c) auto
  show ?case using 1 unfolding c by (auto split: if_splits)
qed auto

lemma uint256_bytes_inj [simp]: "uint256_bytes a = uint256_bytes b \<longleftrightarrow> a = b"
  unfolding uint256_bytes_def by (rule le_bytes_inj) simp

lemma length_uint256_bytes [simp]: "length (uint256_bytes a) = 32"
  by (simp add: uint256_bytes_def)

lemma uint256_Compare_eq: "uint256_Compare a b = 0 \<longleftrightarrow> a = b"
  by (simp add: uint256_Compare_def memcmp_eq_0)

lemma COutPoint_less_irrefl: "\<not> COutPoint_less a a"
  by (simp add: COutPoint_less_def uint256_Compare_def)

lemma COutPoint_less_trans: "COutPoint_less a b \<Longrightarrow> COutPoint_less b c \<Longrightarrow> COutPoint_less a c"
  using memcmp_trans [of "uint256_bytes (op_hash a)" "uint256_bytes (op_hash b)" "uint256_bytes (op_hash c)"]
  by (auto simp: COutPoint_less_def Let_def uint256_Compare_eq) (auto simp: uint256_Compare_def)

lemma COutPoint_less_linear: "a = b \<or> COutPoint_less a b \<or> COutPoint_less b a"
  using memcmp_sym [of "uint256_bytes (op_hash b)" "uint256_bytes (op_hash a)"]
  by (cases a; cases b) (auto simp: COutPoint_less_def Let_def uint256_Compare_eq not_less
      simp flip: uint256_Compare_def)

text \<open>\<open>operator<\<close> is a strict total order, so outpoints can key an ordered map or set.\<close>

instantiation COutPoint :: linorder
begin

definition less_COutPoint :: "COutPoint \<Rightarrow> COutPoint \<Rightarrow> bool" where
  "less_COutPoint a b \<longleftrightarrow> COutPoint_less a b"

definition less_eq_COutPoint :: "COutPoint \<Rightarrow> COutPoint \<Rightarrow> bool" where
  "less_eq_COutPoint a b \<longleftrightarrow> a = b \<or> COutPoint_less a b"

instance
proof
  fix a b c :: COutPoint
  show "a < b \<longleftrightarrow> a \<le> b \<and> \<not> b \<le> a"
    unfolding less_COutPoint_def less_eq_COutPoint_def
    by (metis COutPoint_less_irrefl COutPoint_less_trans)
  show "a \<le> a" by (simp add: less_eq_COutPoint_def)
  show "a \<le> b \<Longrightarrow> b \<le> c \<Longrightarrow> a \<le> c"
    unfolding less_eq_COutPoint_def by (metis COutPoint_less_trans)
  show "a \<le> b \<Longrightarrow> b \<le> a \<Longrightarrow> a = b"
    unfolding less_eq_COutPoint_def by (metis COutPoint_less_irrefl COutPoint_less_trans)
  show "a \<le> b \<or> b \<le> a"
    unfolding less_eq_COutPoint_def by (metis COutPoint_less_linear)
qed

end

section \<open>Codecs of the data\<close>

interpretation uint256: codec Serialize_uint256 Unserialize_uint256 "\<lambda>_. True"
  by unfold_locales (simp add: Serialize_uint256_def Unserialize_uint256_def uint256_bytes_def uint256_of_def)

lemmas uint256_codec [codec_simps] = uint256.unser_ser byte_vector.unser_ser

interpretation hashes: vector_codec Serialize_uint256 Unserialize_uint256 "\<lambda>_. True" 32
  by unfold_locales simp_all

interpretation outpoint: codec Serialize_COutPoint Unserialize_COutPoint "\<lambda>_. True"
  by unfold_locales (simp add: Serialize_COutPoint_def Unserialize_COutPoint_def codec_simps)

interpretation int64: codec Serialize_int64 Unserialize_int64 "\<lambda>a. - (2 ^ 63) \<le> a \<and> a < 2 ^ 63"
proof
  fix a :: int and s assume "- (2 ^ 63) \<le> a \<and> a < 2 ^ 63"
  then have "sint (word_of_int a :: u64) = a"
    by (simp add: sint_uint uint_word_of_int_eq signed_take_bit_take_bit signed_take_bit_int_eq_self)
  then show "Unserialize_int64 (Serialize_int64 a @ s) = Inr (a, s)"
    by (simp add: Serialize_int64_def Unserialize_int64_def codec_simps)
qed

definition CTxIn_ok :: "CTxIn \<Rightarrow> bool" where
  "CTxIn_ok i \<longleftrightarrow> fits_size (scriptSig i)"

definition CTxOut_ok :: "CTxOut \<Rightarrow> bool" where
  "CTxOut_ok out \<longleftrightarrow> - (2 ^ 63) \<le> nValue out \<and> nValue out < 2 ^ 63 \<and> fits_size (scriptPubKey out)"

definition clear_witness :: "CTxIn \<Rightarrow> CTxIn" where
  "clear_witness i = i\<lparr>scriptWitness := []\<rparr>"

interpretation txout: codec Serialize_CTxOut Unserialize_CTxOut CTxOut_ok
  by unfold_locales
    (simp add: Serialize_CTxOut_def Unserialize_CTxOut_def CTxOut_ok_def codec_simps int64.unser_ser)

interpretation txin: codec Serialize_CTxIn Unserialize_CTxIn "\<lambda>i. CTxIn_ok i \<and> scriptWitness i = []"
  by unfold_locales
    (simp add: Serialize_CTxIn_def Unserialize_CTxIn_def CTxIn_ok_def codec_simps outpoint.unser_ser)

interpretation vin: vector_codec Serialize_CTxIn Unserialize_CTxIn
  "\<lambda>i. CTxIn_ok i \<and> scriptWitness i = []" sizeof_CTxIn
  by unfold_locales (simp_all add: sizeof_CTxIn_def)

interpretation vout: vector_codec Serialize_CTxOut Unserialize_CTxOut CTxOut_ok sizeof_CTxOut
  by unfold_locales (simp_all add: sizeof_CTxOut_def)

interpretation witness_stack: vector_codec Serialize_bytes Unserialize_bytes fits_size sizeof_valtype
  by unfold_locales (simp_all add: sizeof_valtype_def)

section \<open>Transactions round trip\<close>

definition witness_ok :: "CTxIn \<Rightarrow> bool" where
  "witness_ok i \<longleftrightarrow> list_all fits_size (scriptWitness i) \<and> fits_size (scriptWitness i)"

text \<open>A transaction every part of which the format can carry.\<close>

definition tx_ok :: "CTransaction \<Rightarrow> bool" where
  "tx_ok tx \<longleftrightarrow> list_all CTxIn_ok (tx_vin tx) \<and> list_all CTxOut_ok (tx_vout tx) \<and>
     fits_size (tx_vin tx) \<and> fits_size (tx_vout tx) \<and> list_all witness_ok (tx_vin tx)"

definition strip_witness :: "CTransaction \<Rightarrow> CTransaction" where
  "strip_witness tx = tx\<lparr>tx_vin := map clear_witness (tx_vin tx)\<rparr>"

lemma Serialize_CTxIn_clear [simp]: "Serialize_CTxIn (clear_witness i) = Serialize_CTxIn i"
  by (simp add: clear_witness_def Serialize_CTxIn_def)

lemma Serialize_vin_clear:
  "Serialize_vector Serialize_CTxIn (map clear_witness v) = Serialize_vector Serialize_CTxIn v"
  by (simp add: Serialize_vector_def comp_def)

lemma clear_witness_id: "scriptWitness i = [] \<Longrightarrow> clear_witness i = i"
  by (simp add: clear_witness_def)

lemma no_witness_clear: "\<not> HasWitness tx \<Longrightarrow> map clear_witness (tx_vin tx) = tx_vin tx"
  by (auto simp: HasWitness_def CScriptWitness_IsNull_def list_ex_iff intro!: map_idI clear_witness_id)

lemma HasWitness_strip [simp]: "\<not> HasWitness (strip_witness tx)"
  by (auto simp: HasWitness_def strip_witness_def list_ex_iff CScriptWitness_IsNull_def clear_witness_def)

lemma read_vin_ser:
  assumes "list_all CTxIn_ok v" and "fits_size v"
  shows "read_vin (Serialize_vector Serialize_CTxIn v @ s) = Inr (map clear_witness v, s)"
proof -
  have "list_all (\<lambda>i. CTxIn_ok i \<and> scriptWitness i = []) (map clear_witness v)"
    using assms(1) by (auto simp: list_all_iff CTxIn_ok_def clear_witness_def)
  from vin.vector_unser_ser [OF this, of s] assms(2) show ?thesis
    by (simp add: read_vin_def Serialize_vin_clear)
qed

lemma read_vout_ser:
  "list_all CTxOut_ok v \<Longrightarrow> fits_size v \<Longrightarrow> read_vout (Serialize_vector Serialize_CTxOut v @ s) = Inr (v, s)"
  by (simp add: read_vout_def vout.vector_unser_ser)

lemma read_witnesses_ser:
  "list_all witness_ok v \<Longrightarrow>
   read_witnesses (map clear_witness v) (concat (map (\<lambda>i. Serialize_stack (scriptWitness i)) v) @ s) = Inr (v, s)"
proof (induction v)
  case (Cons i v)
  then show ?case
    by (simp add: witness_ok_def Unserialize_stack_def Serialize_stack_def witness_stack.vector_unser_ser)
      (simp add: clear_witness_def)
qed simp

lemma tx_no_witness_round_trip:
  assumes "tx_ok tx" and "\<not> fAllowWitness \<or> tx_vin tx \<noteq> [] \<or> tx_vout tx = []"
    and "\<not> (fAllowWitness \<and> HasWitness tx)"
  shows "UnserializeTransaction fAllowWitness (SerializeTransaction fAllowWitness tx @ s) =
    Inr (strip_witness tx, s)"
proof -
  have ok: "list_all CTxIn_ok (tx_vin tx)" "list_all CTxOut_ok (tx_vout tx)" "fits_size (tx_vin tx)"
    "fits_size (tx_vout tx)" using assms(1) by (simp_all add: tx_ok_def)
  have io: "read_in_out fAllowWitness (Serialize_vector Serialize_CTxIn (tx_vin tx) @
      Serialize_vector Serialize_CTxOut (tx_vout tx) @ r) = Inr ((0, map clear_witness (tx_vin tx), tx_vout tx), r)" for r
  proof (cases "fAllowWitness \<and> tx_vin tx = []")
    case False
    then show ?thesis using ok by (auto simp: read_in_out_def read_vin_ser read_vout_ser)
  next
    case True
    then have "tx_vout tx = []" using assms(2) by simp
    moreover have "Serialize_vector Serialize_CTxOut [] @ r = ser_writedata8 0 @ r"
      by (simp add: Serialize_vector_def WriteCompactSize_def)
    ultimately show ?thesis using ok True
      by (simp add: read_in_out_def read_vin_ser) (simp add: u8.unser_ser)
  qed
  show ?thesis
    using assms(3)
    by (auto simp: UnserializeTransaction_def SerializeTransaction_def Let_def u32.unser_ser io strip_witness_def)
qed

lemma tx_witness_round_trip:
  assumes "tx_ok tx" and "HasWitness tx"
  shows "UnserializeTransaction True (SerializeTransaction True tx @ s) = Inr (tx, s)"
proof -
  have ok: "list_all CTxIn_ok (tx_vin tx)" "list_all CTxOut_ok (tx_vout tx)" "fits_size (tx_vin tx)"
    "fits_size (tx_vout tx)" "list_all witness_ok (tx_vin tx)" using assms(1) by (simp_all add: tx_ok_def)
  have io: "read_in_out True (Serialize_vector Serialize_CTxIn [] @ ser_writedata8 1 @
      Serialize_vector Serialize_CTxIn (tx_vin tx) @
      Serialize_vector Serialize_CTxOut (tx_vout tx) @ r) = Inr ((1, map clear_witness (tx_vin tx), tx_vout tx), r)" for r
    using read_vin_ser [of "[]"] ok
    by (simp add: read_in_out_def u8.unser_ser read_vin_ser read_vout_ser)
  show ?thesis
    using assms(2) ok
    by (simp add: UnserializeTransaction_def SerializeTransaction_def Let_def u32.unser_ser io read_witnesses_ser)
qed

lemma Serialize_strip: "SerializeTransaction False (strip_witness tx) = SerializeTransaction False tx"
  by (simp add: SerializeTransaction_def Let_def strip_witness_def Serialize_vin_clear)

lemma SerializeTransaction_inj:
  assumes "tx_ok tx" and "tx_ok tx'" and "SerializeTransaction False tx = SerializeTransaction False tx'"
  shows "strip_witness tx = strip_witness tx'"
  using tx_no_witness_round_trip [OF assms(1), of False "[]"] tx_no_witness_round_trip [OF assms(2), of False "[]"]
    assms(3) by simp

lemma value_out_from_sum:
  assumes "MoneyRange a"
  shows "value_out_from a v = (if list_all (\<lambda>out. MoneyRange (nValue out)) v \<and>
      MoneyRange (a + sum_list (map nValue v)) then Some (a + sum_list (map nValue v)) else None)"
  using assms
proof (induction v arbitrary: a)
  case (Cons out v)
  have "0 \<le> sum_list (map nValue v)" if "list_all (\<lambda>out. MoneyRange (nValue out)) v"
    using that by (induction v) (auto simp: MoneyRange_def)
  with Cons show ?case by (auto simp: Let_def MoneyRange_def algebra_simps)
qed simp

lemma GetTransactionWeight_le:
  "GetTransactionWeight tx \<le> WITNESS_SCALE_FACTOR * GetTotalSize tx"
  by (simp add: GetTransactionWeight_def GetTotalSize_def WITNESS_SCALE_FACTOR_def SerializeTransaction_def Let_def)

lemma header_round_trip:
  "fits_size (nSolution b) \<Longrightarrow> Unserialize_CBlockHeader (Serialize_CBlockHeader b @ s) = Inr (b, s)"
  by (simp add: Unserialize_CBlockHeader_def Serialize_CBlockHeader_def codec_simps)

interpretation block_header: codec Serialize_CBlockHeader Unserialize_CBlockHeader "\<lambda>b. fits_size (nSolution b)"
  by unfold_locales (rule header_round_trip)

text \<open>The transactions the extended format carries unchanged.\<close>

definition tx_wire_ok :: "CTransaction \<Rightarrow> bool" where
  "tx_wire_ok tx \<longleftrightarrow> tx_ok tx \<and> (tx_vin tx \<noteq> [] \<or> tx_vout tx = [])"

lemma tx_round_trip:
  assumes "tx_wire_ok tx"
  shows "UnserializeTransaction True (SerializeTransaction True tx @ s) = Inr (tx, s)"
proof (cases "HasWitness tx")
  case True
  then show ?thesis using assms tx_witness_round_trip by (simp add: tx_wire_ok_def)
next
  case False
  then show ?thesis using assms tx_no_witness_round_trip [of tx True]
    by (auto simp: tx_wire_ok_def strip_witness_def no_witness_clear)
qed

interpretation tx: codec "SerializeTransaction True" "UnserializeTransaction True" tx_wire_ok
  by unfold_locales (rule tx_round_trip)

interpretation txs: vector_codec "SerializeTransaction True" "UnserializeTransaction True" tx_wire_ok sizeof_CTransactionRef
  by unfold_locales (simp_all add: sizeof_CTransactionRef_def)

definition block_ok :: "CBlock \<Rightarrow> bool" where
  "block_ok b \<longleftrightarrow> fits_size (nSolution b) \<and> list_all tx_wire_ok (vtx b) \<and> fits_size (vtx b)"

interpretation block: codec "Serialize_CBlock True" "Unserialize_CBlock True" block_ok
proof
  fix b :: CBlock and s assume "block_ok b"
  then show "Unserialize_CBlock True (Serialize_CBlock True b @ s) = Inr (b, s)"
    by (simp add: block_ok_def Unserialize_CBlock_def Serialize_CBlock_def header_round_trip
        GetBlockHeader_def txs.vector_unser_ser CBlockHeader.defs CBlock.defs)
qed

end
