(* ===== verification/Coins.thy ===== *)
theory Coins imports Transaction "HOL-Library.AList"
begin

unbundle bit_operations_syntax

text \<open>
  The set of unspent outputs, \<^verbatim>\<open>src/src/coins.h\<close> and \<^verbatim>\<open>src/src/coins.cpp\<close>.  A view is a table of
  operations over its state, as the virtual functions of \<open>CCoinsView\<close> are; a cache is a view over a base
  view, so a stack of caches is a nested state.  A query may fill the caches below it, so every operation
  returns the new state.  The locale \<open>coins_view\<close> is the contract of a view: its \<open>contents\<close> is the map
  from outpoints to unspent coins that the operations read and change.  A cache over a view that keeps the
  contract keeps it again (\<open>cache_is_view\<close>): the flags \<open>DIRTY\<close> and \<open>FRESH\<close> are an optimisation.  The
  accounting of the memory the cache uses is not modelled.
\<close>

section \<open>Coins\<close>

record Coin =
  coin_out :: CTxOut
  coin_fCoinBase :: bool
  coin_nHeight :: "31 word"

definition coinEmpty :: Coin where
  "coinEmpty = \<lparr>coin_out = CTxOut_null, coin_fCoinBase = False, coin_nHeight = 0\<rparr>"

definition IsSpent :: "Coin \<Rightarrow> bool" where
  "IsSpent c \<longleftrightarrow> CTxOut_IsNull (coin_out c)"

text \<open>The entry of a cache and its flags.\<close>

record CCoinsCacheEntry =
  ce_coin :: Coin
  ce_flags :: byte

definition DIRTY :: byte where "DIRTY = 1"
definition FRESH :: byte where "FRESH = 2"

definition is_dirty :: "CCoinsCacheEntry \<Rightarrow> bool" where
  "is_dirty e \<longleftrightarrow> ce_flags e AND DIRTY \<noteq> 0"

definition is_fresh :: "CCoinsCacheEntry \<Rightarrow> bool" where
  "is_fresh e \<longleftrightarrow> ce_flags e AND FRESH \<noteq> 0"

text \<open>The hash map, in the order an iteration visits it.\<close>

type_synonym CCoinsMap = "(COutPoint \<times> CCoinsCacheEntry) list"

text \<open>The assertions and the two logic errors.\<close>

datatype coins_fault =
    Coin_is_spent
  | Replaces_unspent
  | Fresh_misapplied
  | Null_best_block
  | Wrong_head

section \<open>Views\<close>

record 'v view_ops =
  v_GetCoin :: "'v \<Rightarrow> COutPoint \<Rightarrow> Coin option \<times> 'v"
  v_HaveCoin :: "'v \<Rightarrow> COutPoint \<Rightarrow> bool \<times> 'v"
  v_GetBestBlock :: "'v \<Rightarrow> uint256 \<times> 'v"
  v_BatchWrite :: "'v \<Rightarrow> CCoinsMap \<Rightarrow> uint256 \<Rightarrow> coins_fault + bool \<times> 'v"

text \<open>The view without coins, \<open>CCoinsView\<close> itself, and the view that passes every call on.\<close>

definition CCoinsView_ops :: "'v view_ops" where
  "CCoinsView_ops = \<lparr>v_GetCoin = (\<lambda>v p. (None, v)), v_HaveCoin = (\<lambda>v p. (False, v)),
     v_GetBestBlock = (\<lambda>v. (0, v)), v_BatchWrite = (\<lambda>v m h. Inr (False, v))\<rparr>"

definition CCoinsViewBacked_ops :: "'v view_ops \<Rightarrow> 'v view_ops" where
  "CCoinsViewBacked_ops B = \<lparr>v_GetCoin = v_GetCoin B, v_HaveCoin = v_HaveCoin B,
     v_GetBestBlock = v_GetBestBlock B, v_BatchWrite = v_BatchWrite B\<rparr>"

section \<open>The cache\<close>

record 'v CCoinsViewCache =
  base :: 'v
  hashBlock :: uint256
  cacheCoins :: CCoinsMap

definition CCoinsViewCache_new :: "'v \<Rightarrow> 'v CCoinsViewCache" where
  "CCoinsViewCache_new b = \<lparr>base = b, hashBlock = 0, cacheCoins = []\<rparr>"

definition FetchCoin ::
  "'v view_ops \<Rightarrow> 'v CCoinsViewCache \<Rightarrow> COutPoint \<Rightarrow> CCoinsCacheEntry option \<times> 'v CCoinsViewCache" where
  "FetchCoin B c outpoint =
     (case map_of (cacheCoins c) outpoint of Some e \<Rightarrow> (Some e, c)
      | None \<Rightarrow>
        (case v_GetCoin B (base c) outpoint of (None, b) \<Rightarrow> (None, c\<lparr>base := b\<rparr>)
         | (Some tmp, b) \<Rightarrow>
           let e = \<lparr>ce_coin = tmp, ce_flags = (if IsSpent tmp then FRESH else 0)\<rparr> in
           (Some e, c\<lparr>base := b, cacheCoins := AList.update outpoint e (cacheCoins c)\<rparr>)))"

definition Cache_GetCoin ::
  "'v view_ops \<Rightarrow> 'v CCoinsViewCache \<Rightarrow> COutPoint \<Rightarrow> Coin option \<times> 'v CCoinsViewCache" where
  "Cache_GetCoin B c outpoint =
     (case FetchCoin B c outpoint of
        (Some e, c) \<Rightarrow> (if IsSpent (ce_coin e) then None else Some (ce_coin e), c)
      | (None, c) \<Rightarrow> (None, c))"

definition AddCoin :: "'v CCoinsViewCache \<Rightarrow> COutPoint \<Rightarrow> Coin \<Rightarrow> bool \<Rightarrow> coins_fault + 'v CCoinsViewCache" where
  "AddCoin c outpoint coin possible_overwrite =
     (if IsSpent coin then Inl Coin_is_spent
      else if IsUnspendable (scriptPubKey (coin_out coin)) then Inr c
      else let e = (case map_of (cacheCoins c) outpoint of Some e \<Rightarrow> e
                    | None \<Rightarrow> \<lparr>ce_coin = coinEmpty, ce_flags = 0\<rparr>) in
        if \<not> possible_overwrite \<and> \<not> IsSpent (ce_coin e) then Inl Replaces_unspent
        else let fresh = (\<not> possible_overwrite \<and> \<not> is_dirty e);
                 e = \<lparr>ce_coin = coin, ce_flags = ce_flags e OR (DIRTY OR (if fresh then FRESH else 0))\<rparr>
             in Inr (c\<lparr>cacheCoins := AList.update outpoint e (cacheCoins c)\<rparr>))"

text \<open>The coin is what the caller's \<open>moveto\<close> receives, when the result is true.\<close>

definition SpendCoin ::
  "'v view_ops \<Rightarrow> 'v CCoinsViewCache \<Rightarrow> COutPoint \<Rightarrow> Coin option \<times> 'v CCoinsViewCache" where
  "SpendCoin B c outpoint =
     (case FetchCoin B c outpoint of
        (None, c) \<Rightarrow> (None, c)
      | (Some e, c) \<Rightarrow>
        (Some (ce_coin e),
         if is_fresh e then c\<lparr>cacheCoins := AList.delete outpoint (cacheCoins c)\<rparr>
         else c\<lparr>cacheCoins := AList.update outpoint \<lparr>ce_coin = coinEmpty, ce_flags = ce_flags e OR DIRTY\<rparr> (cacheCoins c)\<rparr>))"

definition AccessCoin ::
  "'v view_ops \<Rightarrow> 'v CCoinsViewCache \<Rightarrow> COutPoint \<Rightarrow> Coin \<times> 'v CCoinsViewCache" where
  "AccessCoin B c outpoint =
     (case FetchCoin B c outpoint of (None, c) \<Rightarrow> (coinEmpty, c) | (Some e, c) \<Rightarrow> (ce_coin e, c))"

definition Cache_HaveCoin ::
  "'v view_ops \<Rightarrow> 'v CCoinsViewCache \<Rightarrow> COutPoint \<Rightarrow> bool \<times> 'v CCoinsViewCache" where
  "Cache_HaveCoin B c outpoint =
     (case FetchCoin B c outpoint of (None, c) \<Rightarrow> (False, c) | (Some e, c) \<Rightarrow> (\<not> IsSpent (ce_coin e), c))"

definition HaveCoinInCache :: "'v CCoinsViewCache \<Rightarrow> COutPoint \<Rightarrow> bool" where
  "HaveCoinInCache c outpoint =
     (case map_of (cacheCoins c) outpoint of None \<Rightarrow> False | Some e \<Rightarrow> \<not> IsSpent (ce_coin e))"

definition Cache_GetBestBlock :: "'v view_ops \<Rightarrow> 'v CCoinsViewCache \<Rightarrow> uint256 \<times> 'v CCoinsViewCache" where
  "Cache_GetBestBlock B c =
     (if uint256_IsNull (hashBlock c) then
        (case v_GetBestBlock B (base c) of (h, b) \<Rightarrow> (h, c\<lparr>base := b, hashBlock := h\<rparr>))
      else (hashBlock c, c))"

definition SetBestBlock :: "'v CCoinsViewCache \<Rightarrow> uint256 \<Rightarrow> 'v CCoinsViewCache" where
  "SetBestBlock c hashBlockIn = c\<lparr>hashBlock := hashBlockIn\<rparr>"

text \<open>One entry of a batch, and the batch.\<close>

definition write_entry :: "CCoinsMap \<Rightarrow> COutPoint \<Rightarrow> CCoinsCacheEntry \<Rightarrow> coins_fault + CCoinsMap" where
  "write_entry m p it =
     (if \<not> is_dirty it then Inr m
      else case map_of m p of
        None \<Rightarrow>
          if is_fresh it \<and> IsSpent (ce_coin it) then Inr m
          else Inr (AList.update p \<lparr>ce_coin = ce_coin it, ce_flags = DIRTY OR (if is_fresh it then FRESH else 0)\<rparr> m)
      | Some itUs \<Rightarrow>
          if is_fresh it \<and> \<not> IsSpent (ce_coin itUs) then Inl Fresh_misapplied
          else if is_fresh itUs \<and> IsSpent (ce_coin it) then Inr (AList.delete p m)
          else Inr (AList.update p \<lparr>ce_coin = ce_coin it, ce_flags = ce_flags itUs OR DIRTY\<rparr> m))"

fun write_entries :: "CCoinsMap \<Rightarrow> CCoinsMap \<Rightarrow> coins_fault + CCoinsMap" where
  "write_entries m [] = Inr m"
| "write_entries m ((p, it) # its) = bind_sum (write_entry m p it) (\<lambda>m. write_entries m its)"

definition Cache_BatchWrite ::
  "'v CCoinsViewCache \<Rightarrow> CCoinsMap \<Rightarrow> uint256 \<Rightarrow> coins_fault + bool \<times> 'v CCoinsViewCache" where
  "Cache_BatchWrite c mapCoins hashBlockIn =
     bind_sum (write_entries (cacheCoins c) mapCoins) (\<lambda>m.
       Inr (True, c\<lparr>cacheCoins := m, hashBlock := hashBlockIn\<rparr>))"

definition Flush :: "'v view_ops \<Rightarrow> 'v CCoinsViewCache \<Rightarrow> coins_fault + bool \<times> 'v CCoinsViewCache" where
  "Flush B c =
     bind_sum (v_BatchWrite B (base c) (cacheCoins c) (hashBlock c)) (\<lambda>(fOk, b).
       Inr (fOk, c\<lparr>base := b, cacheCoins := []\<rparr>))"

definition Uncache :: "'v CCoinsViewCache \<Rightarrow> COutPoint \<Rightarrow> 'v CCoinsViewCache" where
  "Uncache c hash =
     (case map_of (cacheCoins c) hash of None \<Rightarrow> c
      | Some e \<Rightarrow> if ce_flags e = 0 then c\<lparr>cacheCoins := AList.delete hash (cacheCoins c)\<rparr> else c)"

definition GetCacheSize :: "'v CCoinsViewCache \<Rightarrow> nat" where
  "GetCacheSize c = length (cacheCoins c)"

text \<open>The table of a cache.\<close>

definition Cache_ops :: "'v view_ops \<Rightarrow> 'v CCoinsViewCache view_ops" where
  "Cache_ops B = \<lparr>v_GetCoin = Cache_GetCoin B, v_HaveCoin = Cache_HaveCoin B,
     v_GetBestBlock = Cache_GetBestBlock B, v_BatchWrite = Cache_BatchWrite\<rparr>"

section \<open>Transactions\<close>

text \<open>\<open>AddCoins\<close>, from output \<open>i\<close>.\<close>

fun AddCoins_from ::
  "'v view_ops \<Rightarrow> bool \<Rightarrow> bool \<Rightarrow> int \<Rightarrow> uint256 \<Rightarrow> nat \<Rightarrow> CTxOut list \<Rightarrow> 'v CCoinsViewCache \<Rightarrow> coins_fault + 'v CCoinsViewCache" where
  "AddCoins_from B check fCoinbase nHeight txid i [] c = Inr c"
| "AddCoins_from B check fCoinbase nHeight txid i (out # vout) c =
     (let p = COutPoint txid (of_nat i);
          (overwrite, c) = (if check then Cache_HaveCoin B c p else (fCoinbase, c))
      in bind_sum (AddCoin c p \<lparr>coin_out = out, coin_fCoinBase = fCoinbase, coin_nHeight = word_of_int nHeight\<rparr> overwrite)
           (\<lambda>c. AddCoins_from B check fCoinbase nHeight txid (i + 1) vout c))"

definition AddCoins ::
  "(bytes \<Rightarrow> bytes) \<Rightarrow> 'v view_ops \<Rightarrow> 'v CCoinsViewCache \<Rightarrow> CTransaction \<Rightarrow> int \<Rightarrow> bool \<Rightarrow> coins_fault + 'v CCoinsViewCache" where
  "AddCoins h B c tx nHeight check =
     AddCoins_from B check (IsCoinBase tx) nHeight (GetHash h tx) 0 (tx_vout tx) c"

fun value_in_from :: "'v view_ops \<Rightarrow> CTxIn list \<Rightarrow> CAmount \<Rightarrow> 'v CCoinsViewCache \<Rightarrow> CAmount \<times> 'v CCoinsViewCache" where
  "value_in_from B [] nResult c = (nResult, c)"
| "value_in_from B (txin # vin) nResult c =
     (case AccessCoin B c (prevout txin) of (coin, c) \<Rightarrow> value_in_from B vin (nResult + nValue (coin_out coin)) c)"

definition GetValueIn :: "'v view_ops \<Rightarrow> 'v CCoinsViewCache \<Rightarrow> CTransaction \<Rightarrow> CAmount \<times> 'v CCoinsViewCache" where
  "GetValueIn B c tx = (if IsCoinBase tx then (0, c) else value_in_from B (tx_vin tx) 0 c)"

fun have_inputs :: "'v view_ops \<Rightarrow> CTxIn list \<Rightarrow> 'v CCoinsViewCache \<Rightarrow> bool \<times> 'v CCoinsViewCache" where
  "have_inputs B [] c = (True, c)"
| "have_inputs B (txin # vin) c =
     (case Cache_HaveCoin B c (prevout txin) of (b, c) \<Rightarrow> if \<not> b then (False, c) else have_inputs B vin c)"

definition HaveInputs :: "'v view_ops \<Rightarrow> 'v CCoinsViewCache \<Rightarrow> CTransaction \<Rightarrow> bool \<times> 'v CCoinsViewCache" where
  "HaveInputs B c tx = (if IsCoinBase tx then (True, c) else have_inputs B (tx_vin tx) c)"

text \<open>An empty output is nine bytes long.\<close>

definition MIN_TRANSACTION_OUTPUT_WEIGHT :: nat where
  "MIN_TRANSACTION_OUTPUT_WEIGHT = WITNESS_SCALE_FACTOR * length (Serialize_CTxOut CTxOut_null)"

definition MAX_OUTPUTS_PER_BLOCK :: nat where
  "MAX_OUTPUTS_PER_BLOCK = MAX_BLOCK_WEIGHT div MIN_TRANSACTION_OUTPUT_WEIGHT"

function access_by_txid :: "'v view_ops \<Rightarrow> uint256 \<Rightarrow> nat \<Rightarrow> 'v CCoinsViewCache \<Rightarrow> Coin \<times> 'v CCoinsViewCache" where
  "access_by_txid B txid n c =
     (if n < MAX_OUTPUTS_PER_BLOCK then
        (case AccessCoin B c (COutPoint txid (of_nat n)) of (alternate, c) \<Rightarrow>
           if \<not> IsSpent alternate then (alternate, c) else access_by_txid B txid (n + 1) c)
      else (coinEmpty, c))"
  by pat_completeness auto
termination
  by (relation "measure (\<lambda>(_, _, n, _). MAX_OUTPUTS_PER_BLOCK - n)") auto

declare access_by_txid.simps [simp del]

definition AccessByTxid :: "'v view_ops \<Rightarrow> 'v CCoinsViewCache \<Rightarrow> uint256 \<Rightarrow> Coin \<times> 'v CCoinsViewCache" where
  "AccessByTxid B view txid = access_by_txid B txid 0 view"

section \<open>The contract of a view\<close>

abbreviation unspent :: "Coin \<Rightarrow> Coin option" where
  "unspent c \<equiv> (if IsSpent c then None else Some c)"

text \<open>The flags of the entries of a cache are right for the contents of its base: an entry that is not dirty
  is what the base has, and the base has nothing where an entry is fresh.\<close>

definition entries_ok :: "(COutPoint \<rightharpoonup> CCoinsCacheEntry) \<Rightarrow> (COutPoint \<rightharpoonup> Coin) \<Rightarrow> bool" where
  "entries_ok m f \<longleftrightarrow>
     (\<forall>p e. m p = Some e \<longrightarrow> (\<not> is_dirty e \<longrightarrow> f p = unspent (ce_coin e)) \<and> (is_fresh e \<longrightarrow> f p = None))"

text \<open>The contents seen through the entries of a cache.\<close>

definition see_through :: "(COutPoint \<rightharpoonup> CCoinsCacheEntry) \<Rightarrow> (COutPoint \<rightharpoonup> Coin) \<Rightarrow> COutPoint \<rightharpoonup> Coin" where
  "see_through m f p = (case m p of Some e \<Rightarrow> unspent (ce_coin e) | None \<Rightarrow> f p)"

locale coins_view =
  fixes B :: "'v view_ops" and contents :: "'v \<Rightarrow> COutPoint \<rightharpoonup> Coin" and best :: "'v \<Rightarrow> uint256"
    and ok :: "'v \<Rightarrow> bool"
  assumes contents_unspent: "ok v \<Longrightarrow> contents v p = Some coin \<Longrightarrow> \<not> IsSpent coin"
    and GetCoin_law: "ok v \<Longrightarrow> v_GetCoin B v p = (r, v') \<Longrightarrow>
      r = contents v p \<and> ok v' \<and> contents v' = contents v \<and> best v' = best v"
    and HaveCoin_law: "ok v \<Longrightarrow> v_HaveCoin B v p = (b, v') \<Longrightarrow>
      (b \<longleftrightarrow> contents v p \<noteq> None) \<and> ok v' \<and> contents v' = contents v \<and> best v' = best v"
    and GetBestBlock_law: "ok v \<Longrightarrow> v_GetBestBlock B v = (h, v') \<Longrightarrow>
      h = best v \<and> ok v' \<and> contents v' = contents v \<and> best v' = best v"
    and BatchWrite_law: "ok v \<Longrightarrow> distinct (map fst m) \<Longrightarrow> entries_ok (map_of m) (contents v) \<Longrightarrow> h \<noteq> 0 \<Longrightarrow>
      \<exists>v'. v_BatchWrite B v m h = Inr (True, v') \<and> ok v' \<and> contents v' = see_through (map_of m) (contents v) \<and>
        best v' = h"
begin

definition cache_contents :: "'v CCoinsViewCache \<Rightarrow> COutPoint \<rightharpoonup> Coin" where
  "cache_contents c = see_through (map_of (cacheCoins c)) (contents (base c))"

definition cache_best :: "'v CCoinsViewCache \<Rightarrow> uint256" where
  "cache_best c = (if hashBlock c = 0 then best (base c) else hashBlock c)"

definition cache_ok :: "'v CCoinsViewCache \<Rightarrow> bool" where
  "cache_ok c \<longleftrightarrow> ok (base c) \<and> distinct (map fst (cacheCoins c)) \<and>
     entries_ok (map_of (cacheCoins c)) (contents (base c))"

end

section \<open>A cache keeps the contract\<close>

lemma le_bytes_zero: "le_bytes n (0 :: 'a::len word) = replicate n 0"
  by (induction n) simp_all

lemma uint256_IsNull_iff [simp]: "uint256_IsNull x \<longleftrightarrow> x = 0"
proof -
  have "uint256_IsNull x \<longleftrightarrow> uint256_bytes x = replicate 32 0"
    by (auto simp: uint256_IsNull_def list_all_iff intro: replicate_eqI)
  also have "\<dots> \<longleftrightarrow> uint256_bytes x = uint256_bytes 0"
    by (simp only: uint256_bytes_def [of 0] le_bytes_zero)
  finally show ?thesis by simp
qed

lemma see_through_upd: "see_through (m(p \<mapsto> e)) f = (see_through m f)(p := unspent (ce_coin e))"
  by (rule ext) (simp add: see_through_def)

lemma see_through_del: "f p = None \<Longrightarrow> see_through (m(p := None)) f = (see_through m f)(p := None)"
  by (rule ext) (simp add: see_through_def)

lemma entries_ok_upd:
  "entries_ok m f \<Longrightarrow> (\<not> is_dirty e \<Longrightarrow> f p = unspent (ce_coin e)) \<Longrightarrow> (is_fresh e \<Longrightarrow> f p = None) \<Longrightarrow>
   entries_ok (m(p \<mapsto> e)) f"
  by (simp add: entries_ok_def)

lemma entries_ok_del: "entries_ok m f \<Longrightarrow> entries_ok (m(p := None)) f"
  by (simp add: entries_ok_def)

lemma entries_okD: "entries_ok m f \<Longrightarrow> m p = Some e \<Longrightarrow> is_fresh e \<Longrightarrow> f p = None"
  "entries_ok m f \<Longrightarrow> m p = Some e \<Longrightarrow> \<not> is_dirty e \<Longrightarrow> f p = unspent (ce_coin e)"
  by (simp_all add: entries_ok_def)

lemma flag_bits [simp]:
  "w AND DIRTY \<noteq> 0 \<longleftrightarrow> bit w 0" "w AND FRESH \<noteq> 0 \<longleftrightarrow> bit w 1"
proof -
  have "w AND DIRTY = (if bit w 0 then 1 else 0)"
    by (rule bit_word_eqI) (auto simp: DIRTY_def bit_simps intro: gr0I)
  then show "w AND DIRTY \<noteq> 0 \<longleftrightarrow> bit w 0" by simp
  have "w AND FRESH = (if bit w 1 then 2 else 0)"
  proof -
    have e: "FRESH = push_bit 1 1" "(2 :: byte) = push_bit 1 1" by (simp_all add: FRESH_def)
    have "bit (push_bit 1 (1 :: byte)) n \<longleftrightarrow> n = 1" if "n < 8" for n
      using that by (auto simp: bit_simps)
    then show ?thesis unfolding e by (intro bit_word_eqI) (auto simp: bit_and_iff)
  qed
  then show "w AND FRESH \<noteq> 0 \<longleftrightarrow> bit w 1" by simp
qed

lemma flag_bit_values [simp]: "bit DIRTY 0" "\<not> bit DIRTY (Suc 0)" "bit FRESH (Suc 0)" "\<not> bit FRESH 0"
  by (simp_all add: DIRTY_def FRESH_def bit_iff_odd)

lemma is_dirty_bit: "is_dirty e \<longleftrightarrow> bit (ce_flags e) 0" and is_fresh_bit: "is_fresh e \<longleftrightarrow> bit (ce_flags e) 1"
  by (simp_all only: is_dirty_def is_fresh_def flag_bits)

text \<open>One entry of a batch: the entry of the child changes the contents, and the flags stay right.\<close>

lemma write_entry_ok:
  assumes d: "distinct (map fst m)" and m: "entries_ok (map_of m) f"
    and fresh: "is_fresh e \<Longrightarrow> see_through (map_of m) f p = None"
    and clean: "\<not> is_dirty e \<Longrightarrow> see_through (map_of m) f p = unspent (ce_coin e)"
  obtains m' where "write_entry m p e = Inr m'" "distinct (map fst m')" "entries_ok (map_of m') f"
    "see_through (map_of m') f = (see_through (map_of m) f)(p := unspent (ce_coin e))"
proof (cases "is_dirty e")
  case False
  have "see_through (map_of m) f = (see_through (map_of m) f)(p := unspent (ce_coin e))"
    using clean [OF False] by (simp add: fun_upd_idem)
  then show thesis using False d m by (intro that [of m]) (simp_all add: write_entry_def)
next
  case dirty: True
  show thesis
  proof (cases "map_of m p")
    case None
    show thesis
    proof (cases "is_fresh e \<and> IsSpent (ce_coin e)")
      case True
      then have "see_through (map_of m) f p = None" using fresh by simp
      then have "see_through (map_of m) f = (see_through (map_of m) f)(p := unspent (ce_coin e))"
        using True by (simp add: fun_upd_idem)
      then show thesis using True dirty None d m by (intro that [of m]) (simp_all add: write_entry_def)
    next
      case False
      let ?e = "\<lparr>ce_coin = ce_coin e, ce_flags = DIRTY OR (if is_fresh e then FRESH else 0)\<rparr>"
      let ?m = "AList.update p ?e m"
      have "f p = None" if "is_fresh ?e"
        using that fresh None by (simp add: is_fresh_bit [of ?e] bit_or_iff see_through_def split: if_splits)
      then have "entries_ok (map_of ?m) f" unfolding AList.update_conv'
        by (intro entries_ok_upd [OF m]) (simp_all add: is_dirty_bit bit_or_iff)
      then show thesis using False dirty None d
        by (intro that [of ?m]) (auto simp: write_entry_def distinct_update AList.update_conv' see_through_upd)
    qed
  next
    case (Some us)
    have sp: "IsSpent (ce_coin us)" if "is_fresh e"
      using fresh [OF that] Some by (simp add: see_through_def split: if_splits)
    show thesis
    proof (cases "is_fresh us \<and> IsSpent (ce_coin e)")
      case True
      then have "f p = None" using entries_okD(1) [OF m Some] by simp
      then show thesis using True dirty Some d sp entries_ok_del [OF m, of p]
        by (intro that [of "AList.delete p m"])
          (auto simp: write_entry_def distinct_delete AList.delete_conv' see_through_del)
    next
      case False
      let ?e = "\<lparr>ce_coin = ce_coin e, ce_flags = ce_flags us OR DIRTY\<rparr>"
      let ?m = "AList.update p ?e m"
      have "f p = None" if "is_fresh ?e"
        using that entries_okD(1) [OF m Some] by (simp add: is_fresh_bit bit_or_iff)
      then have "entries_ok (map_of ?m) f" unfolding AList.update_conv'
        by (intro entries_ok_upd [OF m]) (simp_all add: is_dirty_bit bit_or_iff)
      then show thesis using False dirty Some d sp
        by (intro that [of ?m]) (auto simp: write_entry_def distinct_update AList.update_conv' see_through_upd)
    qed
  qed
qed

lemma see_through_Cons:
  "p \<notin> fst ` set its \<Longrightarrow>
   see_through (map_of ((p, e) # its)) f = see_through (map_of its) (f(p := unspent (ce_coin e)))"
proof (rule ext)
  fix q assume "p \<notin> fst ` set its"
  then have "map_of its p = None" by (simp add: map_of_eq_None_iff)
  then show "see_through (map_of ((p, e) # its)) f q = see_through (map_of its) (f(p := unspent (ce_coin e))) q"
    by (auto simp: see_through_def split: option.split)
qed

lemma write_entries_ok:
  "distinct (map fst its) \<Longrightarrow> entries_ok (map_of its) (see_through (map_of m) f) \<Longrightarrow>
   distinct (map fst m) \<Longrightarrow> entries_ok (map_of m) f \<Longrightarrow>
   \<exists>m'. write_entries m its = Inr m' \<and> distinct (map fst m') \<and> entries_ok (map_of m') f \<and>
     see_through (map_of m') f = see_through (map_of its) (see_through (map_of m) f)"
proof (induction its arbitrary: m)
  case Nil
  then show ?case by (simp add: see_through_def [abs_def])
next
  case (Cons it its)
  obtain p e where it: "it = (p, e)" by (cases it)
  have ne: "p \<notin> fst ` set its" using Cons.prems(1) it by simp
  from Cons.prems(2) it have e: "is_fresh e \<Longrightarrow> see_through (map_of m) f p = None"
    "\<not> is_dirty e \<Longrightarrow> see_through (map_of m) f p = unspent (ce_coin e)"
    by (auto simp: entries_ok_def)
  from write_entry_ok [OF Cons.prems(3,4) e] obtain m1 where m1: "write_entry m p e = Inr m1"
    "distinct (map fst m1)" "entries_ok (map_of m1) f"
    "see_through (map_of m1) f = (see_through (map_of m) f)(p := unspent (ce_coin e))" by blast
  have "entries_ok (map_of its) (see_through (map_of m1) f)"
    using Cons.prems(2) ne unfolding it m1(4) entries_ok_def
    by (auto simp: map_of_eq_None_iff [symmetric] fun_upd_def split: if_splits)
  from Cons.IH [OF _ this m1(2,3)] Cons.prems(1) obtain m' where m': "write_entries m1 its = Inr m'"
    "distinct (map fst m')" "entries_ok (map_of m') f"
    "see_through (map_of m') f = see_through (map_of its) (see_through (map_of m1) f)" by (auto simp: it)
  have "see_through (map_of m') f = see_through (map_of (it # its)) (see_through (map_of m) f)"
    unfolding m'(4) m1(4) it see_through_Cons [OF ne] ..
  moreover have "write_entries m (it # its) = Inr m'" using m'(1) m1(1) by (simp add: it)
  ultimately show ?case using m'(2,3) by blast
qed

context coins_view
begin

lemma FetchCoin_ok:
  assumes c: "cache_ok c" and f: "FetchCoin B c p = (r, c')"
  shows "cache_ok c'" "cache_contents c' = cache_contents c" "cache_best c' = cache_best c"
    "hashBlock c' = hashBlock c"
    "case r of None \<Rightarrow> cache_contents c p = None \<and> map_of (cacheCoins c') p = None
     | Some e \<Rightarrow> cache_contents c p = unspent (ce_coin e) \<and> map_of (cacheCoins c') p = Some e"
proof -
  have "cache_ok c' \<and> cache_contents c' = cache_contents c \<and> cache_best c' = cache_best c \<and> hashBlock c' = hashBlock c \<and>
    (case r of None \<Rightarrow> cache_contents c p = None \<and> map_of (cacheCoins c') p = None
     | Some e \<Rightarrow> cache_contents c p = unspent (ce_coin e) \<and> map_of (cacheCoins c') p = Some e)"
  proof (cases "map_of (cacheCoins c) p")
    case (Some e)
    then have "r = Some e" "c' = c" using f by (simp_all add: FetchCoin_def)
    moreover have "cache_contents c p = unspent (ce_coin e)" using Some by (simp add: cache_contents_def see_through_def)
    ultimately show ?thesis using c Some by simp
  next
    case None
    obtain q b where g: "v_GetCoin B (base c) p = (q, b)" by (cases "v_GetCoin B (base c) p")
    with GetCoin_law [OF _ g] c have b: "q = contents (base c) p" "ok b" "contents b = contents (base c)"
      "best b = best (base c)" by (auto simp: cache_ok_def)
    show ?thesis
    proof (cases q)
      case None': None
      have "cache_contents c p = None" using None None' b(1) by (simp add: cache_contents_def see_through_def)
      moreover have "r = None" "c' = c\<lparr>base := b\<rparr>" using None None' f g by (simp_all add: FetchCoin_def)
      ultimately show ?thesis using None b c by (simp add: cache_contents_def cache_ok_def cache_best_def)
    next
      case (Some tmp)
      have ns: "\<not> IsSpent tmp" using contents_unspent [of "base c" p tmp] b(1) Some c by (simp add: cache_ok_def)
      let ?e = "\<lparr>ce_coin = tmp, ce_flags = 0\<rparr>"
      have r: "r = Some ?e" "c' = c\<lparr>base := b, cacheCoins := AList.update p ?e (cacheCoins c)\<rparr>"
        using None Some f g ns by (auto simp: FetchCoin_def Let_def)
      have "entries_ok ((map_of (cacheCoins c))(p \<mapsto> ?e)) (contents (base c))"
        using c b(1) Some ns by (intro entries_ok_upd) (simp_all add: cache_ok_def is_fresh_bit is_dirty_bit)
      moreover have "(see_through (map_of (cacheCoins c)) (contents (base c)))(p \<mapsto> tmp) =
          see_through (map_of (cacheCoins c)) (contents (base c))"
        using None b(1) Some by (intro fun_upd_idem) (simp add: see_through_def)
      moreover have "cache_contents c p = Some tmp"
        using None b(1) Some by (simp add: cache_contents_def see_through_def)
      ultimately show ?thesis using c b r ns
        by (simp add: cache_ok_def cache_contents_def cache_best_def distinct_update AList.update_conv' see_through_upd)
    qed
  qed
  then show "cache_ok c'" "cache_contents c' = cache_contents c" "cache_best c' = cache_best c"
    "hashBlock c' = hashBlock c"
    "case r of None \<Rightarrow> cache_contents c p = None \<and> map_of (cacheCoins c') p = None
     | Some e \<Rightarrow> cache_contents c p = unspent (ce_coin e) \<and> map_of (cacheCoins c') p = Some e" by blast+
qed

lemma cache_unspent: "cache_ok c \<Longrightarrow> cache_contents c p = Some coin \<Longrightarrow> \<not> IsSpent coin"
  using contents_unspent [of "base c" p coin]
  by (auto simp: cache_contents_def see_through_def cache_ok_def split: option.splits if_splits)

lemma Cache_GetCoin_ok:
  assumes "cache_ok c" "Cache_GetCoin B c p = (r, c')"
  shows "r = cache_contents c p \<and> cache_ok c' \<and> cache_contents c' = cache_contents c \<and> cache_best c' = cache_best c"
proof -
  obtain q d where f: "FetchCoin B c p = (q, d)" by (cases "FetchCoin B c p")
  note o = FetchCoin_ok [OF assms(1) f]
  show ?thesis using assms(2) o f by (cases q) (auto simp: Cache_GetCoin_def)
qed

lemma Cache_HaveCoin_ok:
  assumes "cache_ok c" "Cache_HaveCoin B c p = (b, c')"
  shows "(b \<longleftrightarrow> cache_contents c p \<noteq> None) \<and> cache_ok c' \<and> cache_contents c' = cache_contents c \<and>
    cache_best c' = cache_best c"
proof -
  obtain q d where f: "FetchCoin B c p = (q, d)" by (cases "FetchCoin B c p")
  note o = FetchCoin_ok [OF assms(1) f]
  show ?thesis using assms(2) o f by (cases q) (auto simp: Cache_HaveCoin_def)
qed

lemma AccessCoin_ok:
  assumes "cache_ok c" "AccessCoin B c p = (coin, c')"
  shows "unspent coin = cache_contents c p \<and> cache_ok c' \<and> cache_contents c' = cache_contents c \<and>
    cache_best c' = cache_best c"
proof -
  obtain q d where f: "FetchCoin B c p = (q, d)" by (cases "FetchCoin B c p")
  note o = FetchCoin_ok [OF assms(1) f]
  have "IsSpent coinEmpty" by (simp add: coinEmpty_def IsSpent_def CTxOut_IsNull_def CTxOut_null_def)
  then show ?thesis using assms(2) o f by (cases q) (auto simp: AccessCoin_def)
qed

lemma Cache_GetBestBlock_ok:
  assumes "cache_ok c" "Cache_GetBestBlock B c = (h, c')"
  shows "h = cache_best c \<and> cache_ok c' \<and> cache_contents c' = cache_contents c \<and> cache_best c' = cache_best c"
proof (cases "hashBlock c = 0")
  case True
  obtain k b where g: "v_GetBestBlock B (base c) = (k, b)" by (cases "v_GetBestBlock B (base c)")
  have "k = best (base c) \<and> ok b \<and> contents b = contents (base c) \<and> best b = best (base c)"
    using GetBestBlock_law [OF _ g] assms(1) by (simp add: cache_ok_def)
  then show ?thesis using True g assms
    by (auto simp: Cache_GetBestBlock_def uint256_IsNull_iff cache_ok_def cache_contents_def cache_best_def)
next
  case False
  then show ?thesis using assms by (auto simp: Cache_GetBestBlock_def uint256_IsNull_iff cache_best_def)
qed

lemma Cache_BatchWrite_ok:
  assumes c: "cache_ok c" and m: "distinct (map fst m)" "entries_ok (map_of m) (cache_contents c)" and h: "h \<noteq> 0"
  shows "\<exists>c'. Cache_BatchWrite c m h = Inr (True, c') \<and> cache_ok c' \<and>
    cache_contents c' = see_through (map_of m) (cache_contents c) \<and> cache_best c' = h"
proof -
  from write_entries_ok [OF m(1), of "cacheCoins c" "contents (base c)"] m(2) c obtain m' where
    m': "write_entries (cacheCoins c) m = Inr m'" "distinct (map fst m')" "entries_ok (map_of m') (contents (base c))"
    "see_through (map_of m') (contents (base c)) = see_through (map_of m) (cache_contents c)"
    by (auto simp: cache_ok_def cache_contents_def)
  then show ?thesis using c h
    by (simp add: Cache_BatchWrite_def cache_ok_def cache_contents_def cache_best_def)
qed

text \<open>The cache is a view again.\<close>

lemma cache_is_view: "coins_view (Cache_ops B) cache_contents cache_best cache_ok"
proof
  fix c :: "'v CCoinsViewCache" and p r c' b h m
  show "cache_contents c p = Some coin \<Longrightarrow> \<not> IsSpent coin" if "cache_ok c" for coin
    using cache_unspent [OF that] .
  show "r = cache_contents c p \<and> cache_ok c' \<and> cache_contents c' = cache_contents c \<and> cache_best c' = cache_best c"
    if "cache_ok c" "v_GetCoin (Cache_ops B) c p = (r, c')"
    using Cache_GetCoin_ok [of c p r c'] that by (simp add: Cache_ops_def)
  show "(b \<longleftrightarrow> cache_contents c p \<noteq> None) \<and> cache_ok c' \<and> cache_contents c' = cache_contents c \<and> cache_best c' = cache_best c"
    if "cache_ok c" "v_HaveCoin (Cache_ops B) c p = (b, c')"
    using Cache_HaveCoin_ok [of c p b c'] that by (simp add: Cache_ops_def)
  show "h = cache_best c \<and> cache_ok c' \<and> cache_contents c' = cache_contents c \<and> cache_best c' = cache_best c"
    if "cache_ok c" "v_GetBestBlock (Cache_ops B) c = (h, c')"
    using Cache_GetBestBlock_ok [of c h c'] that by (simp add: Cache_ops_def)
  show "\<exists>v'. v_BatchWrite (Cache_ops B) c m h = Inr (True, v') \<and> cache_ok v' \<and>
      cache_contents v' = see_through (map_of m) (cache_contents c) \<and> cache_best v' = h"
    if "cache_ok c" "distinct (map fst m)" "entries_ok (map_of m) (cache_contents c)" "h \<noteq> 0"
    using Cache_BatchWrite_ok [of c m h] that by (simp add: Cache_ops_def)
qed

text \<open>Flushing makes the contents of the cache those of its base.\<close>

lemma Flush_ok:
  assumes c: "cache_ok c" and h: "hashBlock c \<noteq> 0"
  shows "\<exists>c'. Flush B c = Inr (True, c') \<and> cache_ok c' \<and> contents (base c') = cache_contents c \<and>
    cache_contents c' = cache_contents c \<and> best (base c') = cache_best c \<and> cacheCoins c' = []"
proof -
  have "ok (base c)" "distinct (map fst (cacheCoins c))" "entries_ok (map_of (cacheCoins c)) (contents (base c))"
    using c by (simp_all add: cache_ok_def)
  from BatchWrite_law [OF this h] obtain b where b: "v_BatchWrite B (base c) (cacheCoins c) (hashBlock c) = Inr (True, b)"
    "ok b" "contents b = cache_contents c" "best b = hashBlock c" by (auto simp: cache_contents_def)
  then show ?thesis using h
    by (simp add: Flush_def cache_ok_def cache_contents_def cache_best_def entries_ok_def see_through_def [abs_def])
qed

lemma cache_new_ok: "ok b \<Longrightarrow> cache_ok (CCoinsViewCache_new b)"
  "cache_contents (CCoinsViewCache_new b) = contents b" "cache_best (CCoinsViewCache_new b) = best b"
  by (simp_all add: CCoinsViewCache_new_def cache_ok_def cache_contents_def cache_best_def entries_ok_def
      see_through_def [abs_def])

end

section \<open>What the operations do to the contents\<close>

definition spendable :: "CTxOut \<Rightarrow> bool" where
  "spendable out \<longleftrightarrow> \<not> IsUnspendable (scriptPubKey out)"

text \<open>The coin of an output, and the outpoints and coins of the outputs of a transaction from the \<open>i\<close>-th:
  later outputs come first, as a later write wins.\<close>

definition tx_coin :: "bool \<Rightarrow> int \<Rightarrow> CTxOut \<Rightarrow> Coin" where
  "tx_coin fCoinbase nHeight out = \<lparr>coin_out = out, coin_fCoinBase = fCoinbase, coin_nHeight = word_of_int nHeight\<rparr>"

fun tx_coins_from :: "bool \<Rightarrow> int \<Rightarrow> uint256 \<Rightarrow> nat \<Rightarrow> CTxOut list \<Rightarrow> COutPoint \<rightharpoonup> Coin" where
  "tx_coins_from cb nHeight txid i [] = Map.empty"
| "tx_coins_from cb nHeight txid i (out # vout) =
     (if spendable out then [COutPoint txid (of_nat i) \<mapsto> tx_coin cb nHeight out] else Map.empty) ++
     tx_coins_from cb nHeight txid (i + 1) vout"

context coins_view
begin

lemma AddCoin_ok:
  assumes c: "cache_ok c" and s: "\<not> IsSpent coin" and n: "overwrite \<or> cache_contents c p = None"
  shows "\<exists>c'. AddCoin c p coin overwrite = Inr c' \<and> cache_ok c' \<and> cache_best c' = cache_best c \<and>
    hashBlock c' = hashBlock c \<and>
    cache_contents c' = (if spendable (coin_out coin) then (cache_contents c)(p \<mapsto> coin) else cache_contents c)"
proof (cases "spendable (coin_out coin)")
  case False
  then show ?thesis using c s by (simp add: AddCoin_def spendable_def)
next
  case True
  define e where "e = (case map_of (cacheCoins c) p of Some e \<Rightarrow> e | None \<Rightarrow> \<lparr>ce_coin = coinEmpty, ce_flags = 0\<rparr>)"
  define e' where "e' = \<lparr>ce_coin = coin, ce_flags = ce_flags e OR (DIRTY OR (if \<not> overwrite \<and> \<not> is_dirty e then FRESH else 0))\<rparr>"
  have em: "IsSpent coinEmpty" by (simp add: coinEmpty_def IsSpent_def CTxOut_IsNull_def CTxOut_null_def)
  have f: "entries_ok (map_of (cacheCoins c)) (contents (base c))" using c by (simp add: cache_ok_def)
  have sp: "IsSpent (ce_coin e)" if "\<not> overwrite"
    using n that em by (auto simp: e_def cache_contents_def see_through_def split: option.splits if_splits)
  have fr: "contents (base c) p = None" if "is_fresh e'"
  proof (cases "is_fresh e")
    case True
    then show ?thesis using entries_okD(1) [OF f] by (auto simp: e_def is_fresh_bit split: option.splits)
  next
    case False
    then have o: "\<not> overwrite" "\<not> is_dirty e" using that by (auto simp: e'_def is_fresh_bit bit_or_iff split: if_splits)
    show ?thesis
    proof (cases "map_of (cacheCoins c) p")
      case None
      then show ?thesis using n o(1) by (simp add: cache_contents_def see_through_def)
    next
      case (Some x)
      then show ?thesis using entries_okD(2) [OF f Some] o sp by (simp add: e_def)
    qed
  qed
  have "entries_ok ((map_of (cacheCoins c))(p \<mapsto> e')) (contents (base c))"
    using fr by (intro entries_ok_upd [OF f]) (simp_all add: e'_def is_dirty_bit bit_or_iff)
  moreover have "AddCoin c p coin overwrite = Inr (c\<lparr>cacheCoins := AList.update p e' (cacheCoins c)\<rparr>)"
    using s True sp by (auto simp: AddCoin_def spendable_def Let_def e_def [symmetric] e'_def)
  moreover have "unspent (ce_coin e') = Some coin" using s by (simp add: e'_def)
  ultimately show ?thesis using c True
    by (simp add: cache_ok_def cache_contents_def cache_best_def distinct_update AList.update_conv' see_through_upd)
qed

lemma SpendCoin_ok:
  assumes c: "cache_ok c" and f: "SpendCoin B c p = (r, c')"
  shows "cache_ok c'" "cache_contents c' = (cache_contents c)(p := None)" "cache_best c' = cache_best c"
    "hashBlock c' = hashBlock c" "Option.bind r unspent = cache_contents c p"
proof -
  obtain q d where d: "FetchCoin B c p = (q, d)" by (cases "FetchCoin B c p")
  note o = FetchCoin_ok [OF c d]
  have em: "IsSpent coinEmpty" by (simp add: coinEmpty_def IsSpent_def CTxOut_IsNull_def CTxOut_null_def)
  have "cache_ok c' \<and> cache_contents c' = (cache_contents c)(p := None) \<and> cache_best c' = cache_best c \<and>
    hashBlock c' = hashBlock c \<and> Option.bind r unspent = cache_contents c p"
  proof (cases q)
    case None
    then show ?thesis using o f d by (auto simp: SpendCoin_def fun_upd_idem)
  next
    case (Some e)
    have m: "map_of (cacheCoins d) p = Some e" and ce: "cache_contents c p = unspent (ce_coin e)"
      using o(5) Some by simp_all
    have fl: "entries_ok (map_of (cacheCoins d)) (contents (base d))" and ds: "distinct (map fst (cacheCoins d))"
      and bd: "ok (base d)" using o(1) by (simp_all add: cache_ok_def)
    show ?thesis
    proof (cases "is_fresh e")
      case True
      have "contents (base d) p = None" by (rule entries_okD(1) [OF fl m True])
      then have "cache_contents (d\<lparr>cacheCoins := AList.delete p (cacheCoins d)\<rparr>) = (cache_contents d)(p := None)"
        by (simp add: cache_contents_def AList.delete_conv' see_through_del)
      moreover have "r = Some (ce_coin e)" "c' = d\<lparr>cacheCoins := AList.delete p (cacheCoins d)\<rparr>"
        using f d Some True by (simp_all add: SpendCoin_def)
      moreover have "cache_ok (d\<lparr>cacheCoins := AList.delete p (cacheCoins d)\<rparr>)"
        using bd ds entries_ok_del [OF fl, of p] by (simp add: cache_ok_def distinct_delete AList.delete_conv')
      ultimately show ?thesis using o(2-4) ce by (auto simp: cache_best_def)
    next
      case False
      let ?e = "\<lparr>ce_coin = coinEmpty, ce_flags = ce_flags e OR DIRTY\<rparr>"
      have "entries_ok ((map_of (cacheCoins d))(p \<mapsto> ?e)) (contents (base d))"
        using False by (intro entries_ok_upd [OF fl]) (simp_all add: is_dirty_bit is_fresh_bit bit_or_iff)
      then have "cache_ok (d\<lparr>cacheCoins := AList.update p ?e (cacheCoins d)\<rparr>)"
        using bd ds by (simp add: cache_ok_def distinct_update AList.update_conv')
      moreover have "cache_contents (d\<lparr>cacheCoins := AList.update p ?e (cacheCoins d)\<rparr>) = (cache_contents d)(p := None)"
        using em by (simp add: cache_contents_def AList.update_conv' see_through_upd)
      moreover have "r = Some (ce_coin e)" "c' = d\<lparr>cacheCoins := AList.update p ?e (cacheCoins d)\<rparr>"
        using f d Some False by (simp_all add: SpendCoin_def)
      ultimately show ?thesis using o(2-4) ce by (auto simp: cache_best_def)
    qed
  qed
  then show "cache_ok c'" "cache_contents c' = (cache_contents c)(p := None)" "cache_best c' = cache_best c"
    "hashBlock c' = hashBlock c" "Option.bind r unspent = cache_contents c p" by blast+
qed

lemma Uncache_ok:
  assumes c: "cache_ok c"
  shows "cache_ok (Uncache c p)" "cache_contents (Uncache c p) = cache_contents c"
    "cache_best (Uncache c p) = cache_best c"
proof -
  have "cache_ok (Uncache c p) \<and> cache_contents (Uncache c p) = cache_contents c \<and> cache_best (Uncache c p) = cache_best c"
  proof (cases "\<exists>e. map_of (cacheCoins c) p = Some e \<and> ce_flags e = 0")
    case False
    then have "Uncache c p = c" by (auto simp: Uncache_def split: option.splits)
    then show ?thesis using c by simp
  next
    case True
    then obtain e where e: "map_of (cacheCoins c) p = Some e" "ce_flags e = 0" by blast
    have f: "entries_ok (map_of (cacheCoins c)) (contents (base c))" using c by (simp add: cache_ok_def)
    have "contents (base c) p = unspent (ce_coin e)"
      by (rule entries_okD(2) [OF f e(1)]) (simp add: is_dirty_bit e(2))
    then have "see_through ((map_of (cacheCoins c))(p := None)) (contents (base c)) = cache_contents c"
      using e(1) by (intro ext) (simp add: cache_contents_def see_through_def)
    then show ?thesis using c e entries_ok_del [OF f, of p]
      by (simp add: Uncache_def cache_ok_def cache_best_def distinct_delete AList.delete_conv' cache_contents_def)
  qed
  then show "cache_ok (Uncache c p)" "cache_contents (Uncache c p) = cache_contents c"
    "cache_best (Uncache c p) = cache_best c" by blast+
qed

lemma have_inputs_ok:
  "cache_ok c \<Longrightarrow> have_inputs B vin c = (b, c') \<Longrightarrow>
   (b \<longleftrightarrow> (\<forall>i\<in>set vin. cache_contents c (prevout i) \<noteq> None)) \<and> cache_ok c' \<and>
   cache_contents c' = cache_contents c \<and> cache_best c' = cache_best c"
proof (induction vin arbitrary: c)
  case (Cons i vin)
  obtain b1 c1 where h: "Cache_HaveCoin B c (prevout i) = (b1, c1)" by (cases "Cache_HaveCoin B c (prevout i)")
  note o = Cache_HaveCoin_ok [OF Cons.prems(1) h]
  show ?case
  proof (cases b1)
    case False
    then show ?thesis using o Cons.prems(2) h by auto
  next
    case True
    then have "have_inputs B vin c1 = (b, c')" using Cons.prems(2) h by simp
    with Cons.IH [of c1] o True show ?thesis by auto
  qed
qed auto

end

context coins_view
begin

lemma AddCoins_from_ok:
  "cache_ok c \<Longrightarrow> list_all (\<lambda>out. \<not> CTxOut_IsNull out) vout \<Longrightarrow> i + length vout \<le> 2 ^ 32 \<Longrightarrow>
   check \<or> cb \<or> (\<forall>j. i \<le> j \<and> j < i + length vout \<longrightarrow> cache_contents c (COutPoint txid (of_nat j)) = None) \<Longrightarrow>
   \<exists>c'. AddCoins_from B check cb nHeight txid i vout c = Inr c' \<and> cache_ok c' \<and> cache_best c' = cache_best c \<and>
     cache_contents c' = cache_contents c ++ tx_coins_from cb nHeight txid i vout"
proof (induction vout arbitrary: c i)
  case (Cons out vout)
  let ?p = "COutPoint txid (of_nat i)" and ?coin = "tx_coin cb nHeight out"
  obtain ov c1 where ov: "(if check then Cache_HaveCoin B c ?p else (cb, c)) = (ov, c1)"
    by (cases "if check then Cache_HaveCoin B c ?p else (cb, c)")
  have c1: "cache_ok c1" "cache_contents c1 = cache_contents c" "cache_best c1 = cache_best c"
    and free: "ov \<or> cache_contents c1 ?p = None"
    using Cache_HaveCoin_ok [OF Cons.prems(1), of ?p ov c1] ov Cons.prems(1,4) by (auto split: if_splits)
  have ns: "\<not> IsSpent ?coin" using Cons.prems(2) by (simp add: tx_coin_def IsSpent_def)
  from AddCoin_ok [OF c1(1) ns free] obtain c2 where c2: "AddCoin c1 ?p ?coin ov = Inr c2" "cache_ok c2"
    "cache_best c2 = cache_best c1" "cache_contents c2 =
      (if spendable (coin_out ?coin) then (cache_contents c1)(?p \<mapsto> ?coin) else cache_contents c1)" by blast
  have later: "check \<or> cb \<or>
      (\<forall>j. i + 1 \<le> j \<and> j < i + 1 + length vout \<longrightarrow> cache_contents c2 (COutPoint txid (of_nat j)) = None)"
  proof -
    have "COutPoint txid (of_nat j) \<noteq> ?p" if "i + 1 \<le> j" "j < i + 1 + length vout" for j
    proof -
      have "unat (of_nat j :: u32) = j" "unat (of_nat i :: u32) = i"
        using that Cons.prems(3) by (simp_all add: unat_of_nat)
      then show ?thesis using that by (metis COutPoint.inject Suc_n_not_le_n Suc_eq_plus1)
    qed
    then show ?thesis using Cons.prems(4) c1(2) c2(4) by auto
  qed
  from Cons.IH [OF c2(2) _ _ later] Cons.prems(2,3) obtain c' where
    c': "AddCoins_from B check cb nHeight txid (i + 1) vout c2 = Inr c'" "cache_ok c'" "cache_best c' = cache_best c2"
    "cache_contents c' = cache_contents c2 ++ tx_coins_from cb nHeight txid (i + 1) vout" by auto
  have "AddCoins_from B check cb nHeight txid i (out # vout) c = Inr c'"
    using ov c2(1) c'(1) by (simp add: tx_coin_def)
  moreover have "cache_contents c' = cache_contents c ++ tx_coins_from cb nHeight txid i (out # vout)"
    unfolding c'(4) c2(4) c1(2) by (auto simp: tx_coin_def map_add_def fun_eq_iff split: option.split)
  ultimately show ?case using c'(2,3) c2(3) c1(3) by auto
qed simp

lemma AddCoins_ok:
  assumes "cache_ok c" "list_all (\<lambda>out. \<not> CTxOut_IsNull out) (tx_vout tx)" "length (tx_vout tx) \<le> 2 ^ 32"
    and "check \<or> IsCoinBase tx \<or> (\<forall>j < length (tx_vout tx). cache_contents c (COutPoint (GetHash h tx) (of_nat j)) = None)"
  shows "\<exists>c'. AddCoins h B c tx nHeight check = Inr c' \<and> cache_ok c' \<and> cache_best c' = cache_best c \<and>
    cache_contents c' = cache_contents c ++ tx_coins_from (IsCoinBase tx) nHeight (GetHash h tx) 0 (tx_vout tx)"
  unfolding AddCoins_def using assms by (intro AddCoins_from_ok) auto

end

end
