(* ===== verification/ArithUint256.thy ===== *)
theory ArithUint256 imports Prelude
begin

unbundle bit_operations_syntax

text \<open>
  The multi-limb integers of \<^verbatim>\<open>src/src/arith_uint256.h\<close> and \<^verbatim>\<open>.cpp\<close>.  A \<open>base_uint\<close> is the list of
  its limbs \<open>pn\<close>, least significant first; \<open>WIDTH\<close> is its length, 8 for \<open>arith_uint256\<close>.  Each operation
  is the loop of the code over the limbs.  The refinement lemmas say what it does to the number
  \<open>num\<close> the limbs denote: addition, subtraction and multiplication are those of the naturals modulo
  \<open>2 ^ (32 * WIDTH)\<close>, shifts, division, comparison and the bit length are exact, and the compact
  format is a truncated floating-point one.
\<close>

type_synonym base_uint = "u32 list"

definition WIDTH :: nat where "WIDTH = 8"

text \<open>The number the limbs denote.\<close>

primrec num :: "base_uint \<Rightarrow> nat" where
  "num [] = 0"
| "num (x # xs) = unat x + 2 ^ 32 * num xs"

section \<open>Conversions and bitwise operations\<close>

definition base_uint_of_u64 :: "nat \<Rightarrow> u64 \<Rightarrow> base_uint" where
  "base_uint_of_u64 width b = ucast b # ucast (drop_bit 32 b) # replicate (width - 2) 0"

definition arith_of_u64 :: "u64 \<Rightarrow> base_uint" where
  "arith_of_u64 b = base_uint_of_u64 WIDTH b"

definition is_zero :: "base_uint \<Rightarrow> bool" where
  "is_zero pn \<longleftrightarrow> list_all (\<lambda>x. x = 0) pn"

definition arith_not :: "base_uint \<Rightarrow> base_uint" where
  "arith_not pn = map (\<lambda>x. NOT x) pn"

definition arith_xor :: "base_uint \<Rightarrow> base_uint \<Rightarrow> base_uint" where
  "arith_xor a b = map2 (XOR) a b"

definition arith_and :: "base_uint \<Rightarrow> base_uint \<Rightarrow> base_uint" where
  "arith_and a b = map2 (AND) a b"

definition arith_or :: "base_uint \<Rightarrow> base_uint \<Rightarrow> base_uint" where
  "arith_or a b = map2 (OR) a b"

definition GetLow64 :: "base_uint \<Rightarrow> u64" where
  "GetLow64 pn = ucast (pn ! 0) OR push_bit 32 (ucast (pn ! 1))"

section \<open>Arithmetic\<close>

text \<open>Prefix increment and decrement: the loop goes on while a limb wraps.\<close>

fun arith_inc :: "base_uint \<Rightarrow> base_uint" where
  "arith_inc [] = []"
| "arith_inc (x # xs) = (if x + 1 = 0 then (x + 1) # arith_inc xs else (x + 1) # xs)"

fun arith_dec :: "base_uint \<Rightarrow> base_uint" where
  "arith_dec [] = []"
| "arith_dec (x # xs) = (if x - 1 = - 1 then (x - 1) # arith_dec xs else (x - 1) # xs)"

definition arith_neg :: "base_uint \<Rightarrow> base_uint" where
  "arith_neg pn = arith_inc (map (\<lambda>x. NOT x) pn)"

fun add_limbs :: "u64 \<Rightarrow> base_uint \<Rightarrow> base_uint \<Rightarrow> base_uint" where
  "add_limbs carry (x # xs) (y # ys) =
     (let n = carry + ucast x + ucast y in
      ucast (n AND 0xFFFFFFFF) # add_limbs (drop_bit 32 n) xs ys)"
| "add_limbs carry _ _ = []"

definition arith_add :: "base_uint \<Rightarrow> base_uint \<Rightarrow> base_uint" where
  "arith_add a b = add_limbs 0 a b"

definition arith_sub :: "base_uint \<Rightarrow> base_uint \<Rightarrow> base_uint" where
  "arith_sub a b = arith_add a (arith_neg b)"

fun mul32_limbs :: "u32 \<Rightarrow> u64 \<Rightarrow> base_uint \<Rightarrow> base_uint" where
  "mul32_limbs b32 carry [] = []"
| "mul32_limbs b32 carry (x # xs) =
     (let n = carry + ucast b32 * ucast x in
      ucast (n AND 0xFFFFFFFF) # mul32_limbs b32 (drop_bit 32 n) xs)"

definition arith_mul32 :: "base_uint \<Rightarrow> u32 \<Rightarrow> base_uint" where
  "arith_mul32 a b32 = mul32_limbs b32 0 a"

text \<open>The inner loop: \<open>pn[i + j]\<close> for the \<open>i\<close> with \<open>i + j < WIDTH\<close>.\<close>

fun mul_row :: "u32 \<Rightarrow> u64 \<Rightarrow> base_uint \<Rightarrow> base_uint \<Rightarrow> base_uint" where
  "mul_row aj carry (p # ps) (b # bs) =
     (let n = carry + ucast p + ucast aj * ucast b in
      ucast (n AND 0xFFFFFFFF) # mul_row aj (drop_bit 32 n) ps bs)"
| "mul_row aj carry _ _ = []"

text \<open>The outer loop over \<open>j\<close>; the limbs below \<open>j\<close> are final.\<close>

fun mul_rows :: "base_uint \<Rightarrow> base_uint \<Rightarrow> base_uint \<Rightarrow> base_uint" where
  "mul_rows (aj # as) b (p # ps) =
     (case mul_row aj 0 (p # ps) b of
        [] \<Rightarrow> []
      | q # qs \<Rightarrow> q # mul_rows as b qs)"
| "mul_rows _ b _ = []"

definition arith_mul :: "base_uint \<Rightarrow> base_uint \<Rightarrow> base_uint" where
  "arith_mul a b = mul_rows a b (replicate (length a) 0)"

section \<open>Shifts\<close>

definition shl_step :: "base_uint \<Rightarrow> nat \<Rightarrow> nat \<Rightarrow> nat \<Rightarrow> base_uint \<Rightarrow> base_uint" where
  "shl_step a k shift i pn =
     (let pn = (if i + k + 1 < length a \<and> shift \<noteq> 0
                then pn[i + k + 1 := pn ! (i + k + 1) OR drop_bit (32 - shift) (a ! i)] else pn) in
      if i + k < length a then pn[i + k := pn ! (i + k) OR push_bit shift (a ! i)] else pn)"

definition arith_shl :: "base_uint \<Rightarrow> nat \<Rightarrow> base_uint" where
  "arith_shl a shift =
     fold (shl_step a (shift div 32) (shift mod 32)) [0..<length a] (replicate (length a) 0)"

definition shr_step :: "base_uint \<Rightarrow> nat \<Rightarrow> nat \<Rightarrow> nat \<Rightarrow> base_uint \<Rightarrow> base_uint" where
  "shr_step a k shift i pn =
     (let pn = (if k + 1 \<le> i \<and> shift \<noteq> 0
                then pn[i - k - 1 := pn ! (i - k - 1) OR push_bit (32 - shift) (a ! i)] else pn) in
      if k \<le> i then pn[i - k := pn ! (i - k) OR drop_bit shift (a ! i)] else pn)"

definition arith_shr :: "base_uint \<Rightarrow> nat \<Rightarrow> base_uint" where
  "arith_shr a shift =
     fold (shr_step a (shift div 32) (shift mod 32)) [0..<length a] (replicate (length a) 0)"

section \<open>Comparison and bit length\<close>

text \<open>From the most significant limb down.\<close>

fun compare_limbs :: "base_uint \<Rightarrow> base_uint \<Rightarrow> int" where
  "compare_limbs (x # xs) (y # ys) = (if x < y then -1 else if y < x then 1 else compare_limbs xs ys)"
| "compare_limbs _ _ = 0"

definition CompareTo :: "base_uint \<Rightarrow> base_uint \<Rightarrow> int" where
  "CompareTo a b = compare_limbs (rev a) (rev b)"

definition EqualTo :: "base_uint \<Rightarrow> u64 \<Rightarrow> bool" where
  "EqualTo pn b \<longleftrightarrow>
     (if \<not> list_all (\<lambda>x. x = 0) (drop 2 pn) then False
      else if ucast (pn ! 1) \<noteq> drop_bit 32 b then False
      else if ucast (pn ! 0) \<noteq> b AND 0xFFFFFFFF then False
      else True)"

fun limb_bits :: "u32 \<Rightarrow> nat \<Rightarrow> nat" where
  "limb_bits x 0 = 1"
| "limb_bits x (Suc n) = (if x AND push_bit (Suc n) 1 \<noteq> 0 then Suc n + 1 else limb_bits x n)"

fun bits_limbs :: "base_uint \<Rightarrow> nat" where
  "bits_limbs [] = 0"
| "bits_limbs (x # xs) = (if x \<noteq> 0 then 32 * length xs + limb_bits x 31 else bits_limbs xs)"

definition arith_bits :: "base_uint \<Rightarrow> nat" where
  "arith_bits a = bits_limbs (rev a)"

section \<open>Division\<close>

text \<open>The loop \<open>while (shift >= 0)\<close> with \<open>n = shift + 1\<close>; the result is the quotient.\<close>

fun div_loop :: "base_uint \<Rightarrow> base_uint \<Rightarrow> base_uint \<Rightarrow> nat \<Rightarrow> base_uint" where
  "div_loop n d pn 0 = pn"
| "div_loop n d pn (Suc shift) =
     (if 0 \<le> CompareTo n d
      then div_loop (arith_sub n d) (arith_shr d 1)
        (pn[shift div 32 := pn ! (shift div 32) OR push_bit (shift mod 32) 1]) shift
      else div_loop n (arith_shr d 1) pn shift)"

text \<open>\<open>None\<close> is the exception on a zero divisor.\<close>

definition arith_div :: "base_uint \<Rightarrow> base_uint \<Rightarrow> base_uint option" where
  "arith_div a b =
     (let num_bits = arith_bits a; div_bits = arith_bits b; zero = replicate (length a) 0 in
      if div_bits = 0 then None
      else if num_bits < div_bits then Some zero
      else
        let shift = num_bits - div_bits in
        Some (div_loop a (arith_shl b shift) zero (Suc shift)))"

section \<open>The compact format\<close>

text \<open>The value, \<open>*pfNegative\<close> and \<open>*pfOverflow\<close>.\<close>

definition SetCompact :: "u32 \<Rightarrow> base_uint \<times> bool \<times> bool" where
  "SetCompact nCompact =
     (let nSize = unat (drop_bit 24 nCompact);
          nWord0 = nCompact AND 0x007FFFFF;
          nWord = (if nSize \<le> 3 then drop_bit (8 * (3 - nSize)) nWord0 else nWord0);
          r = (if nSize \<le> 3 then arith_of_u64 (ucast nWord)
               else arith_shl (arith_of_u64 (ucast nWord)) (8 * (nSize - 3))) in
      (r, nWord \<noteq> 0 \<and> nCompact AND 0x00800000 \<noteq> 0,
       nWord \<noteq> 0 \<and> (34 < nSize \<or> 0xFF < nWord \<and> 33 < nSize \<or> 0xFFFF < nWord \<and> 32 < nSize)))"

text \<open>\<open>None\<close> is a failed assertion.\<close>

definition GetCompact :: "base_uint \<Rightarrow> bool \<Rightarrow> u32 option" where
  "GetCompact a fNegative =
     (let nSize = (arith_bits a + 7) div 8;
          nCompact = (if nSize \<le> 3 then ucast (push_bit (8 * (3 - nSize)) (GetLow64 a))
                      else ucast (GetLow64 (arith_shr a (8 * (nSize - 3))))) :: u32;
          big = nCompact AND 0x00800000 \<noteq> 0;
          nCompact = (if big then drop_bit 8 nCompact else nCompact);
          nSize = (if big then nSize + 1 else nSize) in
      if nCompact AND NOT 0x007FFFFF \<noteq> 0 \<or> \<not> nSize < 256 then None
      else
        let nCompact = nCompact OR push_bit 24 (of_nat nSize) in
        Some (nCompact OR (if fNegative \<and> nCompact AND 0x007FFFFF \<noteq> 0 then 0x00800000 else 0)))"

section \<open>Blobs\<close>

definition UintToArith256 :: "uint256 \<Rightarrow> base_uint" where
  "UintToArith256 a = map (\<lambda>x. le_word (take 4 (drop (4 * x) (le_bytes 32 a)))) [0..<WIDTH]"

definition ArithToUint256 :: "base_uint \<Rightarrow> uint256" where
  "ArithToUint256 a = le_word (concat (map (le_bytes 4) a))"

section \<open>The number of the limbs\<close>

lemma num_less: "num a < 2 ^ (32 * length a)"
proof (induction a)
  case (Cons x xs)
  have x: "unat x < 2 ^ 32" using unsigned_less [of x] by simp
  from Cons have "num xs + 1 \<le> 2 ^ (32 * length xs)" by simp
  then have "2 ^ 32 * (num xs + 1) \<le> 2 ^ 32 * 2 ^ (32 * length xs)" by (rule mult_le_mono2)
  with x show ?case by (simp add: power_add)
qed simp

lemma limb_cons_mod:
  "num_lo < 2 ^ 32 \<Longrightarrow> (num_lo + 2 ^ 32 * X) mod (2 ^ 32 * M) = num_lo + 2 ^ 32 * (X mod M)" for num_lo :: nat
  by (simp add: mod_mult2_eq)

lemma split_limb:
  fixes n :: u64
  shows "unat (ucast (n AND 0xFFFFFFFF) :: u32) = unat n mod 2 ^ 32" "unat (drop_bit 32 n) = unat n div 2 ^ 32"
proof -
  have "n AND 0xFFFFFFFF = take_bit 32 n"
    using take_bit_eq_mask [of 32 n] by (simp add: mask_eq_exp_minus_1)
  then show "unat (ucast (n AND 0xFFFFFFFF) :: u32) = unat n mod 2 ^ 32"
    by (simp only: unsigned_ucast_eq unsigned_take_bit_eq) (simp add: take_bit_eq_mod)
  show "unat (drop_bit 32 n) = unat n div 2 ^ 32"
    by (simp only: unat_drop_bit_eq) (simp add: drop_bit_eq_div)
qed

lemma num_replicate_0 [simp]: "num (replicate n 0) = 0"
  by (induction n) auto

lemma unat_ucast_32_64 [simp]: "unat (ucast (x :: u32) :: u64) = unat x"
  by (simp add: unsigned_ucast_eq take_bit_nat_eq_self unsigned_less [THEN order_less_le_trans])

lemma u32_less: "unat (x :: u32) < 4294967296"
  using unsigned_less [of x] by simp

lemma length_add_limbs [simp]: "length (add_limbs c a b) = min (length a) (length b)"
  by (induction c a b rule: add_limbs.induct) (auto simp: Let_def)

lemma num_add_limbs:
  "length a = length b \<Longrightarrow> unat c \<le> 1 \<Longrightarrow>
   num (add_limbs c a b) = (unat c + num a + num b) mod 2 ^ (32 * length a)"
proof (induction c a b rule: add_limbs.induct)
  case (1 c x xs y ys)
  define n where "n = c + ucast x + ucast y"
  have n: "unat n = unat c + unat x + unat y"
    using 1(3) u32_less [of x] u32_less [of y] by (simp add: n_def unat_word_ariths)
  then have c': "unat (drop_bit 32 n) \<le> 1"
    using 1(3) u32_less [of x] u32_less [of y] by (simp add: split_limb)
  define M :: nat where "M = 2 ^ (32 * length xs)"
  have "unat c + num (x # xs) + num (y # ys) = unat n + 2 ^ 32 * (num xs + num ys)"
    by (simp add: n algebra_simps)
  also have "\<dots> = unat n mod 2 ^ 32 + 2 ^ 32 * (unat n div 2 ^ 32 + num xs + num ys)"
    using div_mult_mod_eq [of "unat n" "2 ^ 32"] by (simp add: algebra_simps)
  also have "\<dots> mod (2 ^ 32 * M) = unat n mod 2 ^ 32 + 2 ^ 32 * ((unat n div 2 ^ 32 + num xs + num ys) mod M)"
    by (rule limb_cons_mod) simp
  also have "\<dots> = num (add_limbs c (x # xs) (y # ys))"
    using 1(1) [OF n_def _ c'] 1(2) by (simp add: Let_def split_limb M_def flip: n_def)
  finally show ?case by (simp add: M_def power_add)
qed auto

lemma num_add:
  "length a = length b \<Longrightarrow> num (arith_add a b) = (num a + num b) mod 2 ^ (32 * length a)"
  by (simp add: arith_add_def num_add_limbs)

lemma length_inc [simp]: "length (arith_inc a) = length a"
  by (induction a rule: arith_inc.induct) auto

lemma unat_wrap: "unat (x :: u32) + 1 = 2 ^ 32 \<longleftrightarrow> x + 1 = 0"
proof
  assume "x + 1 = 0"
  then have "x = - 1" by (simp add: eq_neg_iff_add_eq_0)
  then show "unat x + 1 = 2 ^ 32" by (simp add: unsigned_minus_1_eq_mask mask_eq_exp_minus_1)
qed (auto simp: word_unat_eq_iff unat_word_ariths)

lemma num_inc: "num (arith_inc a) = (num a + 1) mod 2 ^ (32 * length a)"
proof (induction a rule: arith_inc.induct)
  case (2 x xs)
  define M :: nat where "M = 2 ^ (32 * length xs)"
  have less: "num xs < M" unfolding M_def by (rule num_less)
  show ?case
  proof (cases "x + 1 = 0")
    case True
    then have "num (x # xs) + 1 = 0 + 2 ^ 32 * (num xs + 1)" using unat_wrap [of x] by simp
    also have "\<dots> mod (2 ^ 32 * M) = 0 + 2 ^ 32 * ((num xs + 1) mod M)" by (rule limb_cons_mod) simp
    finally show ?thesis using 2 True by (simp add: M_def power_add)
  next
    case False
    then have x: "unat x + 1 < 2 ^ 32" using unat_wrap [of x] u32_less [of x] by simp
    then have u: "unat (x + 1) = unat x + 1" by (simp add: unat_word_ariths)
    have "num (x # xs) + 1 = (unat x + 1) + 2 ^ 32 * num xs" by simp
    also have "\<dots> mod (2 ^ 32 * M) = (unat x + 1) + 2 ^ 32 * (num xs mod M)" by (rule limb_cons_mod) (rule x)
    finally show ?thesis using False u less by (simp add: M_def power_add)
  qed
qed simp

lemma num_not: "num (map (\<lambda>x. NOT x) a) = 2 ^ (32 * length a) - 1 - num a"
proof (induction a)
  case (Cons x xs)
  define M :: nat where "M = 2 ^ (32 * length xs)"
  have less: "num xs < M" unfolding M_def by (rule num_less)
  have "NOT x = - 1 - x" by (simp add: not_eq_complement)
  then have "unat (NOT x) = 2 ^ 32 - 1 - unat x"
    by (simp add: unat_sub_if' unsigned_minus_1_eq_mask mask_eq_exp_minus_1 word_le_nat_alt) (use u32_less [of x] in simp)
  with Cons less u32_less [of x] show ?case
    by (simp add: M_def power_add diff_mult_distrib2)
qed simp

lemma length_neg [simp]: "length (arith_neg a) = length a"
  by (simp add: arith_neg_def)

lemma num_neg: "num (arith_neg a) = (2 ^ (32 * length a) - num a) mod 2 ^ (32 * length a)"
  using num_less [of a] by (simp add: arith_neg_def num_inc num_not Suc_diff_Suc)

lemma length_add [simp]: "length (arith_add a b) = min (length a) (length b)"
  and length_sub [simp]: "length (arith_sub a b) = min (length a) (length b)"
  by (simp_all add: arith_add_def arith_sub_def)

lemma num_sub:
  assumes "length a = length b"
  shows "num (arith_sub a b) = (num a + 2 ^ (32 * length a) - num b) mod 2 ^ (32 * length a)"
proof -
  have "num b < 2 ^ (32 * length a)" using num_less [of b] assms by simp
  then have "num a + 2 ^ (32 * length a) - num b = num a + (2 ^ (32 * length a) - num b)" by simp
  then show ?thesis using assms by (simp add: arith_sub_def num_add num_neg mod_add_right_eq)
qed

lemma num_sub_le:
  assumes "length a = length b" and "num b \<le> num a"
  shows "num (arith_sub a b) = num a - num b"
proof -
  define M :: nat where "M = 2 ^ (32 * length a)"
  have "num a + M - num b = (num a - num b) + M" using assms(2) by simp
  moreover have "num a - num b < M" unfolding M_def by (rule less_imp_diff_less) (rule num_less)
  ultimately have "(num a + M - num b) mod M = num a - num b" by (simp only: mod_add_self2 mod_less)
  then show ?thesis unfolding num_sub [OF assms(1)] M_def .
qed

lemma length_mul32 [simp]: "length (mul32_limbs b c a) = length a"
  by (induction b c a rule: mul32_limbs.induct) (auto simp: Let_def)

lemma mul_step:
  fixes c :: u64 and x y p :: u32
  assumes "unat c < 2 ^ 32"
  shows "unat (c + ucast p + ucast x * ucast y) = unat c + unat p + unat x * unat y"
    and "unat (c + ucast p + ucast x * ucast y) div 2 ^ 32 < 2 ^ 32"
proof -
  have x: "unat x \<le> 2 ^ 32 - 1" and y: "unat y \<le> 2 ^ 32 - 1" and p: "unat p \<le> 2 ^ 32 - 1"
    using u32_less [of x] u32_less [of y] u32_less [of p] by simp_all
  have "unat x * unat y \<le> (2 ^ 32 - 1) * (2 ^ 32 - 1)" by (rule mult_le_mono [OF x y])
  with p assms have le: "unat c + unat p + unat x * unat y \<le> 2 ^ 64 - 1" by simp
  then show "unat (c + ucast p + ucast x * ucast y) = unat c + unat p + unat x * unat y"
    by (simp add: unat_word_ariths)
  with le show "unat (c + ucast p + ucast x * ucast y) div 2 ^ 32 < 2 ^ 32"
    by simp
qed

lemma num_mul32_limbs:
  "unat c < 2 ^ 32 \<Longrightarrow> num (mul32_limbs b c a) = (unat c + unat b * num a) mod 2 ^ (32 * length a)"
proof (induction b c a rule: mul32_limbs.induct)
  case (2 b c x xs)
  define n where "n = c + ucast b * ucast x"
  have n: "unat n = unat c + unat b * unat x" and d: "unat n div 2 ^ 32 < 2 ^ 32"
    using mul_step [of c 0 b x] 2(2) by (simp_all add: n_def)
  have c': "unat (drop_bit 32 n) < 2 ^ 32" using d by (simp only: split_limb)
  define M :: nat where "M = 2 ^ (32 * length xs)"
  have "unat c + unat b * num (x # xs) = unat n + 2 ^ 32 * (unat b * num xs)"
    by (simp add: n algebra_simps)
  also have "\<dots> = unat n mod 2 ^ 32 + 2 ^ 32 * (unat n div 2 ^ 32 + unat b * num xs)"
    using div_mult_mod_eq [of "unat n" "2 ^ 32"] by (simp add: algebra_simps)
  also have "\<dots> mod (2 ^ 32 * M) = unat n mod 2 ^ 32 + 2 ^ 32 * ((unat n div 2 ^ 32 + unat b * num xs) mod M)"
    by (rule limb_cons_mod) simp
  also have "\<dots> = num (mul32_limbs b c (x # xs))"
    using 2(1) [OF n_def c'] by (simp add: Let_def split_limb M_def flip: n_def)
  finally show ?case by (simp add: M_def power_add)
qed auto

lemma num_mul32: "num (arith_mul32 a b) = (num a * unat b) mod 2 ^ (32 * length a)"
  by (simp add: arith_mul32_def num_mul32_limbs mult.commute)

lemma length_mul_row [simp]: "length (mul_row aj c p b) = min (length p) (length b)"
  by (induction aj c p b rule: mul_row.induct) (auto simp: Let_def)

lemma num_mul_row:
  "length p \<le> length b \<Longrightarrow> unat c < 2 ^ 32 \<Longrightarrow>
   num (mul_row aj c p b) = (unat c + num p + unat aj * num b) mod 2 ^ (32 * length p)"
proof (induction aj c p b rule: mul_row.induct)
  case (1 aj c p ps b bs)
  define n where "n = c + ucast p + ucast aj * ucast b"
  have n: "unat n = unat c + unat p + unat aj * unat b" and d: "unat n div 2 ^ 32 < 2 ^ 32"
    using mul_step [of c p aj b] 1(3) by (simp_all add: n_def)
  have c': "unat (drop_bit 32 n) < 2 ^ 32" using d by (simp only: split_limb)
  define M :: nat where "M = 2 ^ (32 * length ps)"
  have "unat c + num (p # ps) + unat aj * num (b # bs) = unat n + 2 ^ 32 * (num ps + unat aj * num bs)"
    by (simp add: n algebra_simps)
  also have "\<dots> = unat n mod 2 ^ 32 + 2 ^ 32 * (unat n div 2 ^ 32 + num ps + unat aj * num bs)"
    using div_mult_mod_eq [of "unat n" "2 ^ 32"] by (simp add: algebra_simps)
  also have "\<dots> mod (2 ^ 32 * M) =
      unat n mod 2 ^ 32 + 2 ^ 32 * ((unat n div 2 ^ 32 + num ps + unat aj * num bs) mod M)"
    by (rule limb_cons_mod) simp
  also have "\<dots> = num (mul_row aj c (p # ps) (b # bs))"
    using 1(1) [OF n_def _ c'] 1(2) by (simp add: Let_def split_limb M_def flip: n_def)
  finally show ?case by (simp add: M_def power_add)
qed auto

lemma length_mul_rows: "length as = length p \<Longrightarrow> length p \<le> length b \<Longrightarrow> length (mul_rows as b p) = length p"
proof (induction as b p rule: mul_rows.induct)
  case (1 aj as b p ps)
  obtain q qs where row: "mul_row aj 0 (p # ps) b = q # qs" and len: "length qs = length ps"
    using length_mul_row [of aj 0 "p # ps" b] 1(3) by (cases "mul_row aj 0 (p # ps) b") auto
  show ?case using 1(1) [OF row] 1(2,3) len row by simp
qed auto

lemma num_mul_rows:
  "length as = length p \<Longrightarrow> length p \<le> length b \<Longrightarrow>
   num (mul_rows as b p) = (num p + num as * num b) mod 2 ^ (32 * length p)"
proof (induction as b p rule: mul_rows.induct)
  case (1 aj as b p ps)
  obtain q qs where row: "mul_row aj 0 (p # ps) b = q # qs"
    using length_mul_row [of aj 0 "p # ps" b] 1(3) by (cases "mul_row aj 0 (p # ps) b") auto
  have len: "length qs = length ps" using length_mul_row [of aj 0 "p # ps" b] row 1(3) by simp
  define M :: nat where "M = 2 ^ (32 * length ps)"
  have "num (q # qs) = (num (p # ps) + unat aj * num b) mod (2 ^ 32 * M)"
    using num_mul_row [of "p # ps" b 0 aj] row 1(3) by (simp add: M_def power_add)
  then have "(num (q # qs) + 2 ^ 32 * (num as * num b)) mod (2 ^ 32 * M) =
      (num (p # ps) + unat aj * num b + 2 ^ 32 * (num as * num b)) mod (2 ^ 32 * M)"
    by (simp only: mod_add_left_eq)
  moreover have "num (p # ps) + unat aj * num b + 2 ^ 32 * (num as * num b) = num (p # ps) + num (aj # as) * num b"
    by (simp add: algebra_simps)
  ultimately have "(num (p # ps) + num (aj # as) * num b) mod (2 ^ 32 * M) =
      (num (q # qs) + 2 ^ 32 * (num as * num b)) mod (2 ^ 32 * M)" by (simp only:)
  also have "\<dots> = (unat q + 2 ^ 32 * (num qs + num as * num b)) mod (2 ^ 32 * M)"
    by (simp add: algebra_simps)
  also have "\<dots> = unat q + 2 ^ 32 * ((num qs + num as * num b) mod M)"
    using u32_less [of q] by (intro limb_cons_mod) simp
  finally show ?case using 1(1) [OF row] 1(2,3) len row by (simp add: M_def power_add)
qed auto

lemma length_mul: "length a = length b \<Longrightarrow> length (arith_mul a b) = length a"
  by (simp add: arith_mul_def length_mul_rows)

lemma num_mul: "length a = length b \<Longrightarrow> num (arith_mul a b) = (num a * num b) mod 2 ^ (32 * length a)"
  by (simp add: arith_mul_def num_mul_rows)

section \<open>Bits and shifts\<close>

lemma bit_unat_u32: "bit (unat (x :: u32)) n \<longleftrightarrow> n < 32 \<and> bit x n"
  by (auto simp: bit_unsigned_iff dest: bit_imp_le_length)

lemma bit_num: "bit (num a) n \<longleftrightarrow> n div 32 < length a \<and> bit (a ! (n div 32)) (n mod 32)"
proof (induction a arbitrary: n)
  case (Cons x xs)
  have "unat x AND push_bit 32 (num xs) = 0"
    by (rule bit_eqI) (auto simp: bit_simps dest: bit_imp_le_length)
  then have "num (x # xs) = unat x OR push_bit 32 (num xs)"
    by (simp add: disjunctive_add_eq_or push_bit_eq_mult mult.commute)
  then have "bit (num (x # xs)) n \<longleftrightarrow> n < 32 \<and> bit x n \<or> 32 \<le> n \<and> bit (num xs) (n - 32)"
    by (auto simp: bit_simps bit_unat_u32 dest: bit_imp_le_length)
  also have "\<dots> \<longleftrightarrow> n div 32 < length (x # xs) \<and> bit ((x # xs) ! (n div 32)) (n mod 32)"
  proof (cases "n < 32")
    case False
    then obtain m where m: "n = m + 32" by (metis add.commute le_Suc_ex not_le)
    have "(m + 32) div 32 = Suc (m div 32)" by simp
    then show ?thesis unfolding m by (simp add: Cons del: div_add_self2)
  qed simp
  finally show ?case .
qed simp

lemma bit_num_at: "j < 32 \<Longrightarrow> bit (num a) (32 * m + j) \<longleftrightarrow> m < length a \<and> bit (a ! m) j"
  by (simp add: bit_num)

lemma length_shl_fold: "length (fold (shl_step a k s) is pn) = length pn"
  by (induction "is" arbitrary: pn) (auto simp: shl_step_def Let_def)

lemma length_shr_fold: "length (fold (shr_step a k s) is pn) = length pn"
  by (induction "is" arbitrary: pn) (auto simp: shr_step_def Let_def)

lemma length_shl [simp]: "length (arith_shl a s) = length a"
  and length_shr [simp]: "length (arith_shr a s) = length a"
  by (simp_all add: arith_shl_def arith_shr_def length_shl_fold length_shr_fold)

text \<open>The limb \<open>m\<close> after the iterations below \<open>n\<close>.\<close>

lemma shl_fold_nth:
  "m < length a \<Longrightarrow> n \<le> length a \<Longrightarrow>
   fold (shl_step a k s) [0..<n] (replicate (length a) 0) ! m =
     (if k + 1 \<le> m \<and> m - k - 1 < n \<and> s \<noteq> 0 then drop_bit (32 - s) (a ! (m - k - 1)) else 0) OR
     (if k \<le> m \<and> m - k < n then push_bit s (a ! (m - k)) else 0)"
proof (induction n)
  case (Suc n)
  define pn where "pn = fold (shl_step a k s) [0..<n] (replicate (length a) 0)"
  have len: "length pn = length a" by (simp add: pn_def length_shl_fold)
  have ih: "pn ! m = (if k + 1 \<le> m \<and> m - k - 1 < n \<and> s \<noteq> 0 then drop_bit (32 - s) (a ! (m - k - 1)) else 0) OR
     (if k \<le> m \<and> m - k < n then push_bit s (a ! (m - k)) else 0)"
    using Suc by (simp add: pn_def)
  have "fold (shl_step a k s) [0..<Suc n] (replicate (length a) 0) = shl_step a k s n pn"
    by (simp add: pn_def)
  moreover consider "m = n + k" | "m = n + k + 1" | "m < n + k \<or> n + k + 1 < m" by linarith
  then have "shl_step a k s n pn ! m =
     (if k + 1 \<le> m \<and> m - k - 1 < Suc n \<and> s \<noteq> 0 then drop_bit (32 - s) (a ! (m - k - 1)) else 0) OR
     (if k \<le> m \<and> m - k < Suc n then push_bit s (a ! (m - k)) else 0)"
  proof cases
    case 1
    then show ?thesis using Suc.prems len ih by (auto simp: shl_step_def Let_def nth_list_update or.assoc)
  next
    case 2
    then show ?thesis using Suc.prems len ih by (auto simp: shl_step_def Let_def nth_list_update or.assoc)
  next
    case 3
    then have "shl_step a k s n pn ! m = pn ! m" by (auto simp: shl_step_def Let_def)
    moreover from 3 have "k + 1 \<le> m \<Longrightarrow> m - k - 1 < Suc n \<longleftrightarrow> m - k - 1 < n" "k \<le> m \<Longrightarrow> m - k < Suc n \<longleftrightarrow> m - k < n"
      by auto
    ultimately show ?thesis using ih by auto
  qed
  ultimately show ?case by simp
qed simp

lemma shl_nth:
  "m < length a \<Longrightarrow> arith_shl a t ! m =
     (if t div 32 + 1 \<le> m \<and> t mod 32 \<noteq> 0 then drop_bit (32 - t mod 32) (a ! (m - t div 32 - 1)) else 0) OR
     (if t div 32 \<le> m then push_bit (t mod 32) (a ! (m - t div 32)) else 0)"
  by (simp add: arith_shl_def shl_fold_nth less_imp_diff_less)

lemma shr_fold_nth:
  "m < length a \<Longrightarrow> n \<le> length a \<Longrightarrow>
   fold (shr_step a k s) [0..<n] (replicate (length a) 0) ! m =
     (if m + k + 1 < n \<and> s \<noteq> 0 then push_bit (32 - s) (a ! (m + k + 1)) else 0) OR
     (if m + k < n then drop_bit s (a ! (m + k)) else 0)"
proof (induction n)
  case (Suc n)
  define pn where "pn = fold (shr_step a k s) [0..<n] (replicate (length a) 0)"
  have len: "length pn = length a" by (simp add: pn_def length_shr_fold)
  have ih: "pn ! m = (if m + k + 1 < n \<and> s \<noteq> 0 then push_bit (32 - s) (a ! (m + k + 1)) else 0) OR
     (if m + k < n then drop_bit s (a ! (m + k)) else 0)"
    using Suc by (simp add: pn_def)
  have "fold (shr_step a k s) [0..<Suc n] (replicate (length a) 0) = shr_step a k s n pn"
    by (simp add: pn_def)
  moreover consider "n = m + k" | "n = m + k + 1" | "n < m + k \<or> m + k + 1 < n" by linarith
  then have "shr_step a k s n pn ! m =
     (if m + k + 1 < Suc n \<and> s \<noteq> 0 then push_bit (32 - s) (a ! (m + k + 1)) else 0) OR
     (if m + k < Suc n then drop_bit s (a ! (m + k)) else 0)"
  proof cases
    case 1
    then show ?thesis using Suc.prems len ih by (auto simp: shr_step_def Let_def nth_list_update or.assoc)
  next
    case 2
    then show ?thesis using Suc.prems len ih
      by (auto simp: shr_step_def Let_def nth_list_update or.commute)
  next
    case 3
    then have "shr_step a k s n pn ! m = pn ! m" by (auto simp: shr_step_def Let_def)
    moreover from 3 have "m + k + 1 < Suc n \<longleftrightarrow> m + k + 1 < n" "m + k < Suc n \<longleftrightarrow> m + k < n"
      by auto
    ultimately show ?thesis using ih by auto
  qed
  ultimately show ?case by simp
qed simp

lemma shr_nth:
  "m < length a \<Longrightarrow> arith_shr a t ! m =
     (if m + t div 32 + 1 < length a \<and> t mod 32 \<noteq> 0 then push_bit (32 - t mod 32) (a ! (m + t div 32 + 1)) else 0) OR
     (if m + t div 32 < length a then drop_bit (t mod 32) (a ! (m + t div 32)) else 0)"
  by (simp add: arith_shr_def shr_fold_nth)

lemma num_shl: "num (arith_shl a t) = take_bit (32 * length a) (push_bit t (num a))"
proof (rule bit_eqI)
  fix n :: nat
  define m j k s where "m = n div 32" and "j = n mod 32" and "k = t div 32" and "s = t mod 32"
  have n: "n = 32 * m + j" and t: "t = 32 * k + s" and j: "j < 32" and s: "s < 32"
    by (simp_all add: m_def j_def k_def s_def)
  have R: "bit (take_bit (32 * length a) (push_bit t (num a))) n \<longleftrightarrow> m < length a \<and> t \<le> n \<and> bit (num a) (n - t)"
    using j by (auto simp: bit_simps n)
  have L: "bit (num (arith_shl a t)) n \<longleftrightarrow> m < length a \<and>
      ((k + 1 \<le> m \<and> s \<noteq> 0 \<and> bit (a ! (m - k - 1)) (j + (32 - s))) \<or> (k \<le> m \<and> s \<le> j \<and> bit (a ! (m - k)) (j - s)))"
    using j by (auto simp: bit_num shl_nth bit_simps add.commute simp flip: m_def j_def k_def s_def split: if_splits)
  show "bit (num (arith_shl a t)) n = bit (take_bit (32 * length a) (push_bit t (num a))) n"
  proof (cases "m < length a \<and> s \<le> j")
    case True
    have hi: "\<not> bit (a ! i) (j + (32 - s))" for i
      using True s by (auto dest: bit_imp_le_length)
    have "t \<le> n \<longleftrightarrow> k \<le> m" using True j s unfolding n t by linarith
    moreover have "bit (num a) (n - t) \<longleftrightarrow> bit (a ! (m - k)) (j - s)" if le: "k \<le> m"
    proof -
      obtain d where d: "m = k + d" using le by (auto simp: le_iff_add)
      have "n - t = 32 * d + (j - s)" using True n t d by linarith
      then show ?thesis using bit_num_at [of "j - s" a d] True j d by auto
    qed
    ultimately show ?thesis using L R True hi by auto
  next
    case False
    have "t \<le> n \<longleftrightarrow> k + 1 \<le> m" if "j < s" using that j s unfolding n t by linarith
    moreover have "bit (num a) (n - t) \<longleftrightarrow> bit (a ! (m - k - 1)) (j + (32 - s))"
      if le: "k + 1 \<le> m" and lt: "j < s" and ml: "m < length a"
    proof -
      obtain d where d: "m = k + 1 + d" using le by (auto simp only: le_iff_add)
      have "n - t = 32 * d + (j + (32 - s))" using lt s n t d by linarith
      then show ?thesis using bit_num_at [of "j + (32 - s)" a d] lt ml s d by auto
    qed
    ultimately show ?thesis using L R False by auto
  qed
qed

lemma num_shr: "num (arith_shr a t) = drop_bit t (num a)"
proof (rule bit_eqI)
  fix n :: nat
  define m j k s where "m = n div 32" and "j = n mod 32" and "k = t div 32" and "s = t mod 32"
  have n: "n = 32 * m + j" and t: "t = 32 * k + s" and j: "j < 32" and s: "s < 32"
    by (simp_all add: m_def j_def k_def s_def)
  have L: "bit (num (arith_shr a t)) n \<longleftrightarrow> m < length a \<and>
      ((m + k + 1 < length a \<and> s \<noteq> 0 \<and> 32 - s \<le> j \<and> bit (a ! (m + k + 1)) (j - (32 - s))) \<or>
       (m + k < length a \<and> bit (a ! (m + k)) (j + s)))"
    using j by (auto simp: bit_num shr_nth bit_simps add.commute simp flip: m_def j_def k_def s_def split: if_splits)
  show "bit (num (arith_shr a t)) n = bit (drop_bit t (num a)) n"
  proof (cases "j + s < 32")
    case True
    have "t + n = 32 * (m + k) + (j + s)" unfolding n t by simp
    then show ?thesis using L True bit_num_at [OF True, of a "m + k"]
      by (auto simp: bit_drop_bit_eq simp del: distrib_left_numeral)
  next
    case False
    have "t + n = 32 * (m + k + 1) + (j + s - 32)" using False unfolding n t by simp
    moreover have "j + s - 32 < 32" using j s by simp
    ultimately have "bit (drop_bit t (num a)) n \<longleftrightarrow> m + k + 1 < length a \<and> bit (a ! (m + k + 1)) (j + s - 32)"
      using bit_num_at [of "j + s - 32" a "m + k + 1"] by (simp only: bit_drop_bit_eq comp_def)
    moreover have "\<not> bit (a ! i) (j + s)" for i using False by (auto dest: bit_imp_le_length)
    moreover have "j - (32 - s) = j + s - 32" using s by simp
    ultimately show ?thesis using L False s j by auto
  qed
qed

section \<open>Comparison, bit length and division\<close>

lemma num_append: "num (xs @ ys) = num xs + 2 ^ (32 * length xs) * num ys"
  by (induction xs) (simp_all add: algebra_simps power_add)

lemma hi_less: "(u :: nat) < v \<Longrightarrow> x < M \<Longrightarrow> x + M * u < y + M * v"
proof -
  assume "u < v" "x < M"
  then have "x + M * u < M * (u + 1)" by simp
  also have "\<dots> \<le> M * v" using \<open>u < v\<close> by (intro mult_le_mono2) simp
  finally show ?thesis by simp
qed

lemma compare_limbs_num:
  "length xs = length ys \<Longrightarrow> compare_limbs xs ys =
    (if num (rev xs) < num (rev ys) then -1 else if num (rev ys) < num (rev xs) then 1 else 0)"
proof (induction xs ys rule: compare_limbs.induct)
  case (1 x xs y ys)
  define M :: nat where "M = 2 ^ (32 * length xs)"
  have M: "num (rev xs) < M" "num (rev ys) < M"
    using num_less [of "rev xs"] num_less [of "rev ys"] 1(2) by (simp_all add: M_def)
  have e: "num (rev (x # xs)) = num (rev xs) + M * unat x" "num (rev (y # ys)) = num (rev ys) + M * unat y"
    using 1(2) by (simp_all add: num_append M_def)
  consider "unat x < unat y" | "unat y < unat x" | "x = y" by (metis linorder_neqE_nat word_unat_eq_iff)
  then show ?case
  proof cases
    case 1
    then show ?thesis unfolding e using hi_less [OF 1 M(1), of "num (rev ys)"] by (simp add: word_less_nat_alt)
  next
    case 2
    then show ?thesis unfolding e using hi_less [OF 2 M(2), of "num (rev xs)"] by (simp add: word_less_nat_alt)
  next
    case 3
    then show ?thesis using "1.IH" 1(2) unfolding e by simp
  qed
qed auto

lemma CompareTo_num:
  "length a = length b \<Longrightarrow> CompareTo a b = (if num a < num b then -1 else if num b < num a then 1 else 0)"
  by (simp add: CompareTo_def compare_limbs_num)

lemma num_inj: "length a = length b \<Longrightarrow> num a = num b \<Longrightarrow> a = b"
proof (induction a b rule: list_induct2)
  case (Cons x xs y ys)
  have m: "num (z # zs) mod 2 ^ 32 = unat z" and d: "num (z # zs) div 2 ^ 32 = num zs" for z zs
    using u32_less [of z] by simp_all
  have "unat x = unat y" using m [of x xs] m [of y ys] Cons.prems by (simp only:)
  moreover have "num xs = num ys" using d [of x xs] d [of y ys] Cons.prems by (simp only:)
  ultimately show ?case using Cons.IH by (simp add: word_unat_eq_iff)
qed simp

lemma is_zero_num: "is_zero a \<longleftrightarrow> num a = 0"
  by (induction a) (auto simp: is_zero_def unat_eq_0)

lemma not_bit_less: "v < 2 ^ Suc k \<Longrightarrow> \<not> bit v k \<Longrightarrow> v < 2 ^ k" for v :: nat
proof -
  assume "v < 2 ^ Suc k" "\<not> bit v k"
  then have "v div 2 ^ k < 2" and "even (v div 2 ^ k)" by (simp_all add: less_mult_imp_div_less bit_iff_odd)
  then have "v div 2 ^ k = 0" by (metis One_nat_def less_2_cases_iff odd_one)
  then show ?thesis by (simp add: div_eq_0_iff)
qed

lemma bit_le: "bit v k \<Longrightarrow> 2 ^ k \<le> v" for v :: nat
  by (metis bit_iff_odd div_less dvd_0_right not_le)

lemma limb_bits_bounds:
  "x \<noteq> 0 \<Longrightarrow> unat x < 2 ^ Suc n \<Longrightarrow> n < 32 \<Longrightarrow>
   unat x < 2 ^ limb_bits x n \<and> 2 ^ (limb_bits x n - 1) \<le> unat x \<and> 0 < limb_bits x n" for x :: u32
proof (induction n)
  case 0
  moreover have "unat x \<noteq> 0" using 0 by (simp add: unat_eq_0)
  ultimately show ?case by simp
next
  case (Suc n)
  have bit: "x AND push_bit (Suc n) 1 \<noteq> 0 \<longleftrightarrow> bit (unat x) (Suc n)"
    using bit_iff_and_push_bit_not_eq_0 [of x "Suc n"] Suc.prems(3) by (simp add: bit_unat_u32)
  show ?case
  proof (cases "bit (unat x) (Suc n)")
    case True
    then show ?thesis using bit Suc.prems(2) bit_le [OF True] by simp
  next
    case False
    with Suc.prems(2) have "unat x < 2 ^ Suc n" by (rule not_bit_less)
    from Suc.IH [OF Suc.prems(1) this] Suc.prems(3) False bit show ?thesis by simp
  qed
qed

lemma bits_limbs_bounds:
  "num (rev xs) \<noteq> 0 \<Longrightarrow> num (rev xs) < 2 ^ bits_limbs xs \<and> 2 ^ (bits_limbs xs - 1) \<le> num (rev xs) \<and> 0 < bits_limbs xs"
proof (induction xs)
  case (Cons x xs)
  define M :: nat where "M = 2 ^ (32 * length xs)"
  have e: "num (rev (x # xs)) = num (rev xs) + M * unat x" by (simp add: num_append M_def)
  have less: "num (rev xs) < M" using num_less [of "rev xs"] by (simp add: M_def)
  show ?case
  proof (cases "x = 0")
    case True
    then show ?thesis using Cons unfolding e by simp
  next
    case False
    have "unat x < 2 ^ Suc 31" using u32_less [of x] by simp
    from limb_bits_bounds [OF False this] have b: "unat x + 1 \<le> 2 ^ limb_bits x 31"
      "2 ^ (limb_bits x 31 - 1) \<le> unat x" "0 < limb_bits x 31" by simp_all
    have "num (rev xs) + M * unat x < M * (unat x + 1)" using less by simp
    also have "\<dots> \<le> M * 2 ^ limb_bits x 31" by (rule mult_le_mono2) (rule b(1))
    finally have up: "num (rev xs) + M * unat x < 2 ^ (32 * length xs + limb_bits x 31)"
      by (simp add: M_def power_add)
    have "2 ^ (32 * length xs + limb_bits x 31 - 1) = M * 2 ^ (limb_bits x 31 - 1)"
      using b(3) by (simp add: M_def flip: power_add)
    also have "\<dots> \<le> M * unat x" by (rule mult_le_mono2) (rule b(2))
    finally show ?thesis using up b(3) False unfolding e by simp
  qed
qed simp

lemma bits_limbs_0: "num (rev xs) = 0 \<Longrightarrow> bits_limbs xs = 0"
  by (induction xs) (auto simp: num_append unat_eq_0)

lemma arith_bits_0: "arith_bits a = 0 \<longleftrightarrow> num a = 0"
  using bits_limbs_bounds [of "rev a"] bits_limbs_0 [of "rev a"] by (cases "num a = 0") (simp_all add: arith_bits_def)

lemma arith_bits_bounds: "num a \<noteq> 0 \<Longrightarrow> num a < 2 ^ arith_bits a \<and> 2 ^ (arith_bits a - 1) \<le> num a"
  using bits_limbs_bounds [of "rev a"] by (simp add: arith_bits_def)

lemma arith_bits_less: "num a < 2 ^ arith_bits a"
  using arith_bits_bounds [of a] by (cases "num a = 0") auto

lemma arith_bits_le: "num a < 2 ^ n \<Longrightarrow> arith_bits a \<le> n"
proof (rule ccontr)
  assume n: "num a < 2 ^ n" "\<not> arith_bits a \<le> n"
  then have "num a \<noteq> 0" using arith_bits_0 [of a] by auto
  from arith_bits_bounds [OF this] have "2 ^ (arith_bits a - 1) < (2 :: nat) ^ n" using n(1) by linarith
  then have "arith_bits a - 1 < n" by (rule power_less_imp_less_exp [rotated]) simp
  with n(2) show False by simp
qed

lemma num_set_bit:
  assumes "s < 32 * length pn" and "\<not> bit (num pn) s"
  shows "num (pn[s div 32 := pn ! (s div 32) OR push_bit (s mod 32) 1]) = num pn + 2 ^ s"
proof -
  have "num (pn[s div 32 := pn ! (s div 32) OR push_bit (s mod 32) 1]) = num pn OR 2 ^ s"
  proof (rule bit_eqI)
    fix n :: nat
    have "n = s \<longleftrightarrow> n div 32 = s div 32 \<and> n mod 32 = s mod 32" by (metis div_mult_mod_eq)
    then show "bit (num (pn[s div 32 := pn ! (s div 32) OR push_bit (s mod 32) 1])) n = bit (num pn OR 2 ^ s) n"
      using assms(1) by (auto simp: bit_num bit_simps nth_list_update less_mult_imp_div_less)
  qed
  moreover have "num pn AND 2 ^ s = 0"
    by (rule bit_eqI) (use assms(2) in \<open>auto simp: bit_simps\<close>)
  ultimately show ?thesis by (simp add: disjunctive_add_eq_or)
qed

lemma div_loop_num:
  "length n = length pn \<Longrightarrow> length d = length pn \<Longrightarrow> (s \<noteq> 0 \<Longrightarrow> num d * 2 = D * 2 ^ s) \<Longrightarrow> num n < D * 2 ^ s \<Longrightarrow>
   2 ^ s dvd num pn \<Longrightarrow> s \<le> 32 * length pn \<Longrightarrow>
   length (div_loop n d pn s) = length pn \<and> num (div_loop n d pn s) = num pn + num n div D"
proof (induction n d pn s rule: div_loop.induct)
  case (2 n d pn s)
  have d: "num d = D * 2 ^ s" using 2(5) by simp
  have D: "0 < D" using 2(6) by (cases D) auto
  have shr: "num (arith_shr d 1) * 2 = D * 2 ^ s" if "s \<noteq> 0"
    using that by (cases s) (simp_all add: num_shr d drop_bit_eq_div)
  have nbit: "\<not> bit (num pn) s" using 2(7) by (auto simp: bit_iff_odd elim!: dvdE)
  have cmp: "0 \<le> CompareTo n d \<longleftrightarrow> num d \<le> num n" using 2(3,4) by (simp add: CompareTo_num)
  have dvd: "2 ^ s dvd num pn" using 2(7) by (metis dvd_mult_right power_Suc)
  show ?case
  proof (cases "num d \<le> num n")
    case True
    define q where "q = pn[s div 32 := pn ! (s div 32) OR push_bit (s mod 32) 1]"
    have q: "num q = num pn + 2 ^ s" "length q = length pn"
      using num_set_bit [OF _ nbit] 2(8) by (simp_all add: q_def)
    have r: "num (arith_sub n d) = num n - num d" using True 2(3,4) by (intro num_sub_le) simp_all
    have "num n div D = (num n - num d) div D + 2 ^ s"
    proof -
      have "num n = (num n - num d) + 2 ^ s * D" using True by (simp add: d mult.commute)
      then show ?thesis using D by (metis div_mult_self1 add.commute less_not_refl)
    qed
    moreover have "length (div_loop (arith_sub n d) (arith_shr d 1) q s) = length q \<and>
        num (div_loop (arith_sub n d) (arith_shr d 1) q s) = num q + num (arith_sub n d) div D"
      using 2(1) [folded q_def] cmp True 2(3,4,6,8) q r shr dvd d by auto
    ultimately show ?thesis using True cmp q r by (simp add: q_def)
  next
    case False
    then show ?thesis using 2(2) cmp shr 2(3,4,8) dvd d by auto
  qed
qed simp

lemma arith_div_num:
  assumes "length a = length b"
  shows "case arith_div a b of None \<Rightarrow> num b = 0
    | Some q \<Rightarrow> num b \<noteq> 0 \<and> length q = length a \<and> num q = num a div num b"
proof (cases "num b = 0 \<or> arith_bits a < arith_bits b")
  case True
  show ?thesis
  proof (cases "num b = 0")
    case False
    with True have lt: "arith_bits a < arith_bits b" by simp
    then have "(2 :: nat) ^ arith_bits a \<le> 2 ^ (arith_bits b - 1)" by (intro power_increasing) auto
    then have "num a < num b" using arith_bits_less [of a] arith_bits_bounds [OF False] by linarith
    then show ?thesis using lt False by (simp add: arith_div_def Let_def arith_bits_0)
  qed (simp add: arith_div_def Let_def arith_bits_0)
next
  case False
  define s where "s = arith_bits a - arith_bits b"
  have b0: "num b \<noteq> 0" using False by simp
  have na: "arith_bits a = arith_bits b + s" using False by (simp add: s_def)
  have "num b * 2 ^ s < 2 ^ arith_bits b * 2 ^ s" using arith_bits_less [of b] by simp
  then have up: "num b * 2 ^ s < 2 ^ arith_bits a" by (simp add: na power_add)
  have bits: "arith_bits a \<le> 32 * length a" using num_less by (rule arith_bits_le)
  then have "(2 :: nat) ^ arith_bits a \<le> 2 ^ (32 * length a)" by (intro power_increasing) auto
  with up have "num b * 2 ^ s < 2 ^ (32 * length b)" unfolding assms by (rule order_less_le_trans)
  then have shl: "num (arith_shl b s) = num b * 2 ^ s"
    by (simp add: num_shl take_bit_nat_eq_self push_bit_eq_mult)
  have "2 ^ arith_bits a = 2 * 2 ^ (arith_bits b - 1) * (2 :: nat) ^ s"
    using b0 arith_bits_0 [of b] by (cases "arith_bits b") (simp_all add: na power_add)
  also have "\<dots> \<le> 2 * num b * 2 ^ s" using arith_bits_bounds [OF b0] by simp
  finally have "2 ^ arith_bits a \<le> num b * 2 ^ Suc s" by (simp add: mult_ac)
  with arith_bits_less have lt: "num a < num b * 2 ^ Suc s" by (rule order_less_le_trans)
  have "Suc s \<le> 32 * length a" using bits b0 arith_bits_0 [of b] na by linarith
  then have "length (div_loop a (arith_shl b s) (replicate (length a) 0) (Suc s)) = length a \<and>
      num (div_loop a (arith_shl b s) (replicate (length a) 0) (Suc s)) = num a div num b"
    using div_loop_num [of a "replicate (length a) 0" "arith_shl b s" "Suc s" "num b"] assms lt shl by simp
  then show ?thesis using False b0 arith_bits_0 [of b] by (simp add: arith_div_def Let_def s_def del: div_loop.simps)
qed

section \<open>The compact format\<close>

lemma length_arith_of_u64 [simp]: "length (arith_of_u64 b) = WIDTH"
  by (simp add: arith_of_u64_def base_uint_of_u64_def WIDTH_def)

lemma unat_ucast_64_32: "unat (ucast (b :: u64) :: u32) = unat b mod 2 ^ 32"
  by (simp only: unsigned_ucast_eq) (simp add: take_bit_eq_mod)

lemma unat_drop32: "unat (drop_bit 32 (b :: u64)) = unat b div 2 ^ 32"
  by (simp only: unat_drop_bit_eq) (simp add: drop_bit_eq_div)

lemma u64_less: "unat (b :: u64) < 2 ^ 64"
  using unsigned_less [of b] by simp

lemma num_arith_of_u64: "num (arith_of_u64 b) = unat b"
proof -
  have "unat b div 2 ^ 32 < 2 ^ 32" using u64_less [of b] by (simp add: less_mult_imp_div_less)
  then have "unat (ucast (drop_bit 32 b) :: u32) = unat b div 2 ^ 32"
    by (simp only: unat_ucast_64_32 unat_drop32 mod_less)
  then show ?thesis
    by (simp add: arith_of_u64_def base_uint_of_u64_def WIDTH_def unat_ucast_64_32)
qed

lemma unat_or_push:
  fixes x y :: "'a::len word"
  assumes "unat x < 2 ^ k" and "unat y * 2 ^ k < 2 ^ LENGTH('a)"
  shows "unat (x OR push_bit k y) = unat x + unat y * 2 ^ k"
proof -
  have yb: "unat (push_bit k y) = unat y * 2 ^ k"
    unfolding unsigned_push_bit_eq using assms(2) by (simp add: push_bit_eq_mult take_bit_nat_eq_self)
  have "unat x AND unat (push_bit k y) = 0"
  proof (rule bit_eqI)
    fix n
    have "\<not> bit (unat x) n" if "k \<le> n"
    proof -
      have "(2 :: nat) ^ k \<le> 2 ^ n" using that by (intro power_increasing) auto
      then show ?thesis using assms(1) bit_le [of "unat x" n] by linarith
    qed
    then show "bit (unat x AND unat (push_bit k y)) n = bit (0 :: nat) n"
      unfolding yb by (auto simp: bit_simps simp flip: push_bit_eq_mult)
  qed
  then have "unat x + unat (push_bit k y) = unat x OR unat (push_bit k y)" by (rule disjunctive_add_eq_or)
  then show ?thesis by (simp only: unsigned_or_eq yb)
qed

lemma GetLow64_num: "2 \<le> length a \<Longrightarrow> unat (GetLow64 a) = num a mod 2 ^ 64"
proof -
  assume "2 \<le> length a"
  then obtain x y zs where a: "a = x # y # zs" by (metis Suc_le_length_iff numeral_2_eq_2)
  have "unat y * 2 ^ 32 < 2 ^ 64" using u32_less [of y] by simp
  then have "unat (GetLow64 a) = unat x + unat y * 2 ^ 32"
    using unat_or_push [of "ucast x :: u64" 32 "ucast y"] u32_less [of x] by (simp add: GetLow64_def a)
  moreover have "num a = (unat x + unat y * 2 ^ 32) + 2 ^ 64 * num zs" by (simp add: a algebra_simps)
  moreover have "unat x + unat y * 2 ^ 32 < 2 ^ 64" using u32_less [of x] u32_less [of y] by simp
  ultimately show ?thesis by (simp only: mod_mult_self2 mod_less)
qed

definition compact_mantissa :: "u32 \<Rightarrow> nat" where
  "compact_mantissa c = unat c mod 2 ^ 23"

definition compact_exponent :: "u32 \<Rightarrow> nat" where
  "compact_exponent c = unat c div 2 ^ 24"

text \<open>The magnitude a compact word denotes, before it is cut to 256 bits.\<close>

definition compact_num :: "u32 \<Rightarrow> nat" where
  "compact_num c =
     (let m = compact_mantissa c; e = compact_exponent c in
      if e \<le> 3 then m div 256 ^ (3 - e) else m * 256 ^ (e - 3))"

lemma pow256: "(256 :: nat) ^ k = 2 ^ (8 * k)"
  by (simp add: power_mult)

lemma and_mantissa: "unat ((c :: u32) AND 0x007FFFFF) = compact_mantissa c"
proof -
  have "c AND 0x007FFFFF = take_bit 23 c"
    using take_bit_eq_mask [of 23 c] by (simp add: mask_eq_exp_minus_1)
  then show ?thesis
    by (simp only: unsigned_take_bit_eq) (simp add: take_bit_eq_mod compact_mantissa_def)
qed

lemma compact_size: "unat (drop_bit 24 (c :: u32)) = compact_exponent c"
  by (simp only: unat_drop_bit_eq) (simp add: drop_bit_eq_div compact_exponent_def)

lemma compact_mantissa_less: "compact_mantissa c < 2 ^ 23"
  by (simp add: compact_mantissa_def)

lemma overflow_iff:
  fixes m e :: nat
  assumes "m < 2 ^ 23" and "3 < e"
  shows "m \<noteq> 0 \<and> (34 < e \<or> 0xFF < m \<and> 33 < e \<or> 0xFFFF < m \<and> 32 < e) \<longleftrightarrow> 2 ^ 256 \<le> m * 256 ^ (e - 3)"
proof -
  have small: "m * 256 ^ (e - 3) < 2 ^ 256" if "m < 2 ^ j" "j + 8 * (e - 3) \<le> 256" for j
  proof -
    have "m * 256 ^ (e - 3) < 2 ^ j * 2 ^ (8 * (e - 3))" using that(1) by (simp add: pow256)
    also have "\<dots> \<le> 2 ^ 256" unfolding power_add [symmetric] using that(2) by (intro power_increasing) auto
    finally show ?thesis .
  qed
  have big: "2 ^ 256 \<le> m * 256 ^ (e - 3)" if "2 ^ j \<le> m" "256 \<le> j + 8 * (e - 3)" for j
  proof -
    have "(2 :: nat) ^ 256 \<le> 2 ^ j * 2 ^ (8 * (e - 3))"
      unfolding power_add [symmetric] using that(2) by (intro power_increasing) auto
    also have "\<dots> \<le> m * 256 ^ (e - 3)" using that(1) by (simp add: pow256)
    finally show ?thesis .
  qed
  consider "e \<le> 32" | "e = 33" | "e = 34" | "34 < e" by linarith
  then show ?thesis
  proof cases
    case 1
    then have "23 + 8 * (e - 3) \<le> 256" by linarith
    then show ?thesis using small [OF assms(1)] 1 by auto
  next
    case 2
    then show ?thesis using small [of 16] big [of 16] assms by auto
  next
    case 3
    then show ?thesis using small [of 8] big [of 8] assms by auto
  next
    case 4
    then show ?thesis using big [of 0] by (cases "m = 0") auto
  qed
qed

lemma SetCompact_spec:
  assumes "SetCompact c = (r, neg, over)"
  shows "length r = WIDTH" and "num r = compact_num c mod 2 ^ 256"
    and "over \<longleftrightarrow> 2 ^ 256 \<le> compact_num c" and "neg \<longleftrightarrow> compact_num c \<noteq> 0 \<and> c AND 0x00800000 \<noteq> 0"
proof -
  define w where "w = c AND 0x007FFFFF"
  define e where "e = compact_exponent c"
  have w: "unat w = compact_mantissa c" by (simp add: w_def and_mantissa)
  have small: "compact_mantissa c div 256 ^ k < 2 ^ 23" for k
    using compact_mantissa_less [of c] by (rule order_le_less_trans [OF div_le_dividend])
  have wd: "unat (drop_bit (8 * (3 - e)) w) = compact_mantissa c div 256 ^ (3 - e)"
    by (simp only: unat_drop_bit_eq) (simp add: drop_bit_eq_div w pow256)
  have num1: "num (arith_of_u64 (ucast v)) = unat v" for v :: u32
    by (simp add: num_arith_of_u64)
  have z: "v \<noteq> 0 \<longleftrightarrow> unat v \<noteq> 0" for v :: u32 by (simp add: unat_eq_0)
  have ff: "0xFF < w \<longleftrightarrow> 0xFF < unat w" "0xFFFF < w \<longleftrightarrow> 0xFFFF < unat w"
    by (simp_all add: word_less_nat_alt)
  show "length r = WIDTH" using assms by (auto simp: SetCompact_def Let_def split: if_splits)
  have "num r = compact_num c mod 2 ^ 256 \<and> (over \<longleftrightarrow> 2 ^ 256 \<le> compact_num c) \<and>
    (neg \<longleftrightarrow> compact_num c \<noteq> 0 \<and> c AND 0x00800000 \<noteq> 0)"
  proof (cases "e \<le> 3")
    case True
    have cn: "compact_num c = compact_mantissa c div 256 ^ (3 - e)" using True by (simp add: compact_num_def Let_def e_def)
    have lt: "compact_num c < 2 ^ 256" unfolding cn using small [of "3 - e"] by (rule order_less_le_trans) simp
    have r: "r = arith_of_u64 (ucast (drop_bit (8 * (3 - e)) w))" "over \<longleftrightarrow> False"
      "neg \<longleftrightarrow> drop_bit (8 * (3 - e)) w \<noteq> 0 \<and> c AND 0x00800000 \<noteq> 0"
      using assms True by (auto simp: SetCompact_def Let_def compact_size w_def e_def)
    then show ?thesis using lt unfolding r num1 z wd cn by simp
  next
    case False
    have cn: "compact_num c = compact_mantissa c * 256 ^ (e - 3)" using False by (simp add: compact_num_def Let_def e_def)
    have r: "r = arith_shl (arith_of_u64 (ucast w)) (8 * (e - 3))"
      "over \<longleftrightarrow> w \<noteq> 0 \<and> (34 < e \<or> 0xFF < w \<and> 33 < e \<or> 0xFFFF < w \<and> 32 < e)"
      "neg \<longleftrightarrow> w \<noteq> 0 \<and> c AND 0x00800000 \<noteq> 0"
      using assms False by (auto simp: SetCompact_def Let_def compact_size w_def e_def)
    have "over \<longleftrightarrow> 2 ^ 256 \<le> compact_num c"
      unfolding r cn z ff w using False by (intro overflow_iff compact_mantissa_less) simp
    moreover have "num r = compact_num c mod 2 ^ 256"
      unfolding r num_shl num1 w cn by (simp only: length_arith_of_u64 take_bit_eq_mod push_bit_eq_mult pow256) (simp add: WIDTH_def)
    moreover have "neg \<longleftrightarrow> compact_num c \<noteq> 0 \<and> c AND 0x00800000 \<noteq> 0"
      unfolding r z w cn by simp
    ultimately show ?thesis by blast
  qed
  then show "num r = compact_num c mod 2 ^ 256" "over \<longleftrightarrow> 2 ^ 256 \<le> compact_num c"
    "neg \<longleftrightarrow> compact_num c \<noteq> 0 \<and> c AND 0x00800000 \<noteq> 0" by blast+
qed

text \<open>\<open>GetCompact\<close> never fails its assertions on 256 bits, and rounds the value down to three bytes.\<close>

lemma unat_drop8: "unat (drop_bit 8 (x :: u32)) = unat x div 256"
  by (simp only: unat_drop_bit_eq) (simp add: drop_bit_eq_div)

lemma bit23: "unat (x :: u32) < 2 ^ 24 \<Longrightarrow> x AND 0x00800000 \<noteq> 0 \<longleftrightarrow> 2 ^ 23 \<le> unat x"
proof -
  assume lt: "unat x < 2 ^ 24"
  have "x AND 0x00800000 \<noteq> 0 \<longleftrightarrow> bit (unat x) 23"
    using bit_iff_and_push_bit_not_eq_0 [of x 23] by (simp add: bit_unat_u32)
  also have "\<dots> \<longleftrightarrow> 2 ^ 23 \<le> unat x"
  proof
    assume "2 ^ 23 \<le> unat x"
    then show "bit (unat x) 23" using not_bit_less [of "unat x" 23] lt by (cases "bit (unat x) 23") simp_all
  qed (rule bit_le)
  finally show ?thesis .
qed

lemma and_not_mantissa: "unat (x :: u32) < 2 ^ 23 \<Longrightarrow> x AND NOT 0x007FFFFF = 0"
proof -
  assume "unat x < 2 ^ 23"
  then have "take_bit 23 x = x" by (rule take_bit_word_small)
  then have x: "x = x AND 0x007FFFFF" using take_bit_eq_mask [of 23 x] by (simp add: mask_eq_exp_minus_1)
  show ?thesis by (subst x) (simp add: and.assoc)
qed

lemma compact_word:
  assumes "unat (m :: u32) < 2 ^ 23" and "s < 128"
  shows "unat (m OR push_bit 24 (of_nat s)) = unat m + s * 2 ^ 24"
    and "compact_mantissa (m OR push_bit 24 (of_nat s)) = unat m"
    and "compact_exponent (m OR push_bit 24 (of_nat s)) = s"
    and "(m OR push_bit 24 (of_nat s)) AND 0x00800000 = 0"
proof -
  define c where "c = m OR push_bit 24 (of_nat s)"
  have s: "unat (of_nat s :: u32) = s" using assms(2) by (simp add: unsigned_of_nat take_bit_nat_eq_self)
  have u: "unat c = unat m + s * 2 ^ 24"
    unfolding c_def using unat_or_push [of m 24 "of_nat s"] assms s by simp
  then show "unat (m OR push_bit 24 (of_nat s)) = unat m + s * 2 ^ 24" by (simp add: c_def)
  have "unat c = unat m + 2 ^ 23 * (2 * s)" using u by simp
  then show "compact_mantissa (m OR push_bit 24 (of_nat s)) = unat m"
    using assms(1) unfolding c_def [symmetric] compact_mantissa_def by (simp only: mod_mult_self2 mod_less)
  have "unat c = unat m + 2 ^ 24 * s" using u by simp
  then show "compact_exponent (m OR push_bit 24 (of_nat s)) = s"
    using assms(1) unfolding c_def [symmetric] compact_exponent_def by simp
  have "(push_bit 23 1 :: u32) = 0x00800000" by simp
  moreover have "\<not> bit c 23"
  proof -
    have "\<not> bit (unat m) 23" using assms(1) bit_le [of "unat m" 23] by auto
    then show ?thesis by (simp add: c_def bit_simps bit_unat_u32)
  qed
  ultimately show "(m OR push_bit 24 (of_nat s)) AND 0x00800000 = 0"
    using bit_iff_and_push_bit_not_eq_0 [of c 23] by (simp add: c_def)
qed

text \<open>\<open>compact_unit e\<close> is the weight of the last digit of a compact number with exponent \<open>e\<close>.\<close>

definition compact_unit :: "nat \<Rightarrow> nat" where
  "compact_unit e = 256 ^ (e - 3)"

lemma size_bounds:
  assumes "length a = WIDTH"
  defines "N \<equiv> (arith_bits a + 7) div 8"
  shows "num a < 256 ^ N" and "N \<le> 32"
proof -
  have "arith_bits a \<le> 8 * N" by (simp add: N_def)
  then have "(2 :: nat) ^ arith_bits a \<le> 256 ^ N" unfolding pow256 by (intro power_increasing) auto
  with arith_bits_less show "num a < 256 ^ N" by (rule order_less_le_trans)
  have "arith_bits a \<le> 256"
    using arith_bits_le [of a 256] num_less [of a] assms(1) by (simp add: WIDTH_def)
  then show "N \<le> 32" by (simp add: N_def)
qed

lemma GetCompact_word:
  assumes "length a = WIDTH"
  defines "N \<equiv> (arith_bits a + 7) div 8"
  defines "W \<equiv> (if N \<le> 3 then num a * 256 ^ (3 - N) else num a div 256 ^ (N - 3))"
  shows "W < 2 ^ 24" and "GetCompact a False = Some (if W < 2 ^ 23 then of_nat W OR push_bit 24 (of_nat N)
    else of_nat (W div 256) OR push_bit 24 (of_nat (N + 1)))"
proof -
  note size = size_bounds [OF assms(1), folded N_def]
  show W: "W < 2 ^ 24"
  proof (cases "N \<le> 3")
    case True
    have "num a * 256 ^ (3 - N) < 256 ^ N * 256 ^ (3 - N)" using size(1) by simp
    then show ?thesis using True by (simp add: W_def flip: power_add)
  next
    case False
    then obtain d where "N = 3 + d" by (metis le_Suc_ex nat_le_linear)
    then have "256 ^ N = 256 ^ 3 * (256 :: nat) ^ (N - 3)" by (simp only: power_add add_diff_cancel_left')
    then have "num a div 256 ^ (N - 3) < 256 ^ 3" using size(1) by (simp add: less_mult_imp_div_less)
    then show ?thesis using False by (simp add: W_def)
  qed
  define w :: u32 where "w = (if N \<le> 3 then ucast (push_bit (8 * (3 - N)) (GetLow64 a))
    else ucast (GetLow64 (arith_shr a (8 * (N - 3)))))"
  have len: "2 \<le> length a" using assms(1) by (simp add: WIDTH_def)
  have w: "unat w = W"
  proof (cases "N \<le> 3")
    case True
    have "num a * 2 ^ (8 * (3 - N)) < 2 ^ 24" using W True by (simp add: W_def pow256)
    moreover have "num a * 1 \<le> num a * 2 ^ (8 * (3 - N))" by (intro mult_le_mono2) simp
    ultimately have "num a < 2 ^ 24" by linarith
    then have low: "unat (GetLow64 a) = num a" by (simp add: GetLow64_num [OF len])
    have "unat (push_bit (8 * (3 - N)) (GetLow64 a)) = num a * 2 ^ (8 * (3 - N))"
      unfolding unsigned_push_bit_eq low using W True
      by (simp add: W_def pow256 push_bit_eq_mult take_bit_nat_eq_self)
    then show ?thesis using True W by (simp add: w_def unat_ucast_64_32 W_def pow256)
  next
    case False
    have "num (arith_shr a (8 * (N - 3))) = W" using False by (simp add: num_shr W_def drop_bit_eq_div pow256)
    then show ?thesis using False W len by (simp add: w_def unat_ucast_64_32 GetLow64_num)
  qed
  have wW: "w = of_nat W" using w by (metis word_of_nat_eq_iff of_nat_unat unsigned_of_nat ucast_id)
  have big: "w AND 0x00800000 \<noteq> 0 \<longleftrightarrow> \<not> W < 2 ^ 23" using bit23 [of w] W by (simp only: w) auto
  have d8: "unat (drop_bit 8 w) = W div 256" by (simp only: unat_drop8 w)
  then have d8W: "drop_bit 8 w = of_nat (W div 256)"
    by (metis word_of_nat_eq_iff of_nat_unat unsigned_of_nat ucast_id)
  have nm: "w AND NOT 0x007FFFFF = 0" if "W < 2 ^ 23" using that by (intro and_not_mantissa) (simp only: w)
  have nd: "drop_bit 8 w AND NOT 0x007FFFFF = 0" using W by (intro and_not_mantissa) (simp add: d8)
  show "GetCompact a False = Some (if W < 2 ^ 23 then of_nat W OR push_bit 24 (of_nat N)
    else of_nat (W div 256) OR push_bit 24 (of_nat (N + 1)))"
    using size(2) nm nd big unfolding GetCompact_def Let_def N_def [symmetric] w_def [symmetric]
    by (auto simp: d8W simp flip: wW)
qed

lemma GetCompact_spec:
  assumes "length a = WIDTH"
  shows "\<exists>c. GetCompact a False = Some c \<and> c AND 0x00800000 = 0 \<and>
    compact_num c = num a div compact_unit (compact_exponent c) * compact_unit (compact_exponent c)"
proof -
  define N where "N = (arith_bits a + 7) div 8"
  define W where "W = (if N \<le> 3 then num a * 256 ^ (3 - N) else num a div 256 ^ (N - 3))"
  note size = size_bounds [OF assms(1), folded N_def]
  note word = GetCompact_word [OF assms(1), folded N_def, folded W_def]
  have u: "unat (of_nat k :: u32) = k" if "k < 2 ^ 24" for k
    using that by (simp add: unsigned_of_nat take_bit_nat_eq_self)
  show ?thesis
  proof (cases "W < 2 ^ 23")
    case True
    define c :: u32 where "c = of_nat W OR push_bit 24 (of_nat N)"
    have c: "compact_mantissa c = W" "compact_exponent c = N" "c AND 0x00800000 = 0"
      using compact_word [of "of_nat W" N] True size(2) u [of W] word(1) unfolding c_def by simp_all
    have "compact_num c = num a div compact_unit N * compact_unit N"
      using c by (simp add: compact_num_def Let_def W_def compact_unit_def)
    then show ?thesis using word(2) True c by (auto simp: c_def)
  next
    case False
    define c :: u32 where "c = of_nat (W div 256) OR push_bit 24 (of_nat (N + 1))"
    have lt: "W div 256 < 2 ^ 23" using word(1) by simp
    have c: "compact_mantissa c = W div 256" "compact_exponent c = N + 1" "c AND 0x00800000 = 0"
      using compact_word [of "of_nat (W div 256)" "N + 1"] lt size(2) u [of "W div 256"] unfolding c_def by simp_all
    have "compact_num c = num a div compact_unit (N + 1) * compact_unit (N + 1)"
    proof (cases "N \<le> 2")
      case True
      then have "256 ^ (3 - N) = 256 * (256 :: nat) ^ (3 - (N + 1))" by (simp flip: power_Suc add: Suc_diff_le)
      then show ?thesis using c True by (simp add: compact_num_def Let_def W_def compact_unit_def)
    next
      case F: False
      show ?thesis
      proof (cases "N = 3")
        case True
        then show ?thesis using c by (simp add: compact_num_def Let_def W_def compact_unit_def)
      next
        case G: False
        have "N + 1 - 3 = Suc (N - 3)" using F G by simp
        then have "num a div 256 ^ (N - 3) div 256 = num a div 256 ^ (N + 1 - 3)"
          by (simp only: div_mult2_eq power_Suc2)
        then show ?thesis using c F G by (simp add: compact_num_def Let_def W_def compact_unit_def)
      qed
    qed
    then show ?thesis using word(2) False c by (auto simp: c_def)
  qed
qed


section \<open>Blobs and numbers\<close>

lemma le_word_le_bytes_ucast:
  "(le_word (le_bytes n (w :: 'a::len word)) :: 'b::len word) = take_bit (8 * n) (ucast w)"
proof (induction n arbitrary: w)
  case (Suc n)
  show ?case
    by (rule bit_word_eqI) (auto simp: Suc bit_simps algebra_simps)
qed simp

lemma drop_le_bytes: "drop i (le_bytes n w) = le_bytes (n - i) (drop_bit (8 * i) w)"
proof (induction i arbitrary: n w)
  case (Suc i)
  show ?case
  proof (cases n)
    case (Suc m)
    have "drop_bit (8 * i) (drop_bit 8 w) = drop_bit (8 * Suc i) w"
      by (simp add: add.commute)
    then show ?thesis using Suc Suc.IH [of m "drop_bit 8 w"] by simp
  qed simp
qed simp

lemma take_le_bytes: "k \<le> n \<Longrightarrow> take k (le_bytes n w) = le_bytes k w"
proof (induction k arbitrary: n w)
  case (Suc k)
  then show ?case by (cases n) auto
qed simp

lemma length_UintToArith256 [simp]: "length (UintToArith256 h) = WIDTH"
  by (simp add: UintToArith256_def)

lemma num_UintToArith256: "num (UintToArith256 h) = unat h"
proof (rule bit_eqI)
  fix n :: nat
  have limb: "UintToArith256 h ! i = ucast (drop_bit (32 * i) h)" if "i < 8" for i
  proof -
    have "UintToArith256 h ! i = (le_word (le_bytes 4 (drop_bit (32 * i) h)) :: u32)"
      using that by (simp add: UintToArith256_def WIDTH_def drop_le_bytes take_le_bytes)
    then show ?thesis by (simp add: le_word_le_bytes_ucast) (auto intro!: bit_word_eqI simp: bit_simps)
  qed
  have "bit (num (UintToArith256 h)) n \<longleftrightarrow> n div 32 < 8 \<and> bit h (32 * (n div 32) + n mod 32)"
    by (auto simp: bit_num limb WIDTH_def bit_simps)
  also have "\<dots> \<longleftrightarrow> bit (unat h) n"
    by (auto simp: bit_unsigned_iff less_mult_imp_div_less dest: bit_imp_le_length)
  finally show "bit (num (UintToArith256 h)) n = bit (unat h) n" .
qed

lemma le_word_Cons_add: "le_word (b # bs) = (ucast b :: 'a::len word) + 256 * le_word bs"
proof -
  have "(ucast b :: 'a word) AND push_bit 8 (le_word bs) = 0"
    by (rule bit_word_eqI) (auto simp: bit_simps dest: bit_imp_le_length)
  from disjunctive_add_eq_or [OF this] show ?thesis by (simp add: push_bit_eq_mult mult.commute)
qed

lemma le_word_append: "le_word (xs @ ys) = (le_word xs :: 'a::len word) + 2 ^ (8 * length xs) * le_word ys"
  by (induction xs) (simp_all add: le_word_Cons_add algebra_simps power_add del: le_word.simps(2))

lemma le_word_concat: "le_word (concat (map (le_bytes 4) a)) = (of_nat (num a) :: 'a::len word)"
proof (induction a)
  case (Cons x xs)
  have "(le_word (le_bytes 4 x) :: 'a word) = ucast x"
    unfolding le_word_le_bytes_ucast
  proof (rule bit_word_eqI)
    fix n
    show "bit (take_bit (8 * 4) (ucast x :: 'a word)) n = bit (ucast x :: 'a word) n"
      using bit_imp_le_length [of x n] by (auto simp: bit_simps)
  qed
  then have "le_word (concat (map (le_bytes 4) (x # xs))) = (ucast x :: 'a word) + 2 ^ 32 * of_nat (num xs)"
    by (simp add: le_word_append Cons)
  then show ?case by simp
qed simp

lemma ArithToUint256_num: "length a = WIDTH \<Longrightarrow> unat (ArithToUint256 a) = num a"
proof -
  assume "length a = WIDTH"
  then have "num a < 2 ^ 256" using num_less [of a] by (simp add: WIDTH_def)
  then show ?thesis by (simp add: ArithToUint256_def le_word_concat unsigned_of_nat take_bit_nat_eq_self)
qed

lemma ArithToUint256_UintToArith256: "ArithToUint256 (UintToArith256 h) = h"
  by (simp add: word_unat_eq_iff ArithToUint256_num num_UintToArith256)

lemma UintToArith256_ArithToUint256: "length a = WIDTH \<Longrightarrow> UintToArith256 (ArithToUint256 a) = a"
  by (rule num_inj) (simp_all add: ArithToUint256_num num_UintToArith256)

end
