(* ===== verification/Chain.thy ===== *)
theory Chain imports Transaction ArithUint256 "HOL-Library.Multiset"
begin

unbundle bit_operations_syntax

text \<open>
  The block index of \<^verbatim>\<open>src/src/chain.h\<close> and \<^verbatim>\<open>src/src/chain.cpp\<close>.  The \<open>CBlockIndex\<close> objects refer to
  each other by pointers, so they live in a store from addresses to records; a null pointer is
  \<open>None\<close>.  \<open>tree_ok\<close> is the shape the code keeps: heights grow by one along \<open>pprev\<close>, and a skip
  pointer leads to the ancestor at the skip height.  Under it the skip-list search, the fork search and
  the locator agree with walking \<open>pprev\<close>.
\<close>

section \<open>Block index entries\<close>

type_synonym ptr = nat

record CBlockIndex =
  phashBlock :: "uint256 option"
  pprev :: "ptr option"
  pskip :: "ptr option"
  nHeight :: nat
  nFile :: int
  nDataPos :: u32
  nUndoPos :: u32
  nChainWork :: base_uint
  nTx :: u32
  nChainTx :: u32
  nStatus :: u32
  bi_nVersion :: u32
  bi_hashMerkleRoot :: uint256
  bi_nTime :: u32
  bi_nBits :: u32
  bi_nNonce :: uint256
  bi_nSolution :: bytes
  nSequenceId :: int
  nTimeMax :: u32

type_synonym index_heap = "ptr \<rightharpoonup> CBlockIndex"

text \<open>An assertion that fails, a null or dangling pointer that is followed.\<close>

datatype chain_fault = Assert_fails | Bad_pointer

definition deref :: "index_heap \<Rightarrow> ptr \<Rightarrow> chain_fault + CBlockIndex" where
  "deref H p = (case H p of None \<Rightarrow> Inl Bad_pointer | Some b \<Rightarrow> Inr b)"

definition BLOCK_VALID_UNKNOWN :: u32 where "BLOCK_VALID_UNKNOWN = 0"
definition BLOCK_VALID_HEADER :: u32 where "BLOCK_VALID_HEADER = 1"
definition BLOCK_VALID_TREE :: u32 where "BLOCK_VALID_TREE = 2"
definition BLOCK_VALID_TRANSACTIONS :: u32 where "BLOCK_VALID_TRANSACTIONS = 3"
definition BLOCK_VALID_CHAIN :: u32 where "BLOCK_VALID_CHAIN = 4"
definition BLOCK_VALID_SCRIPTS :: u32 where "BLOCK_VALID_SCRIPTS = 5"
definition BLOCK_VALID_MASK :: u32 where
  "BLOCK_VALID_MASK = BLOCK_VALID_HEADER OR BLOCK_VALID_TREE OR BLOCK_VALID_TRANSACTIONS OR
     BLOCK_VALID_CHAIN OR BLOCK_VALID_SCRIPTS"
definition BLOCK_HAVE_DATA :: u32 where "BLOCK_HAVE_DATA = 8"
definition BLOCK_HAVE_UNDO :: u32 where "BLOCK_HAVE_UNDO = 16"
definition BLOCK_HAVE_MASK :: u32 where "BLOCK_HAVE_MASK = BLOCK_HAVE_DATA OR BLOCK_HAVE_UNDO"
definition BLOCK_FAILED_VALID :: u32 where "BLOCK_FAILED_VALID = 32"
definition BLOCK_FAILED_CHILD :: u32 where "BLOCK_FAILED_CHILD = 64"
definition BLOCK_FAILED_MASK :: u32 where "BLOCK_FAILED_MASK = BLOCK_FAILED_VALID OR BLOCK_FAILED_CHILD"
definition BLOCK_OPT_WITNESS :: u32 where "BLOCK_OPT_WITNESS = 128"

lemmas block_status_defs = BLOCK_VALID_UNKNOWN_def BLOCK_VALID_HEADER_def BLOCK_VALID_TREE_def
  BLOCK_VALID_TRANSACTIONS_def BLOCK_VALID_CHAIN_def BLOCK_VALID_SCRIPTS_def BLOCK_VALID_MASK_def
  BLOCK_HAVE_DATA_def BLOCK_HAVE_UNDO_def BLOCK_HAVE_MASK_def BLOCK_FAILED_VALID_def
  BLOCK_FAILED_CHILD_def BLOCK_FAILED_MASK_def BLOCK_OPT_WITNESS_def

definition CBlockIndex_null :: CBlockIndex where
  "CBlockIndex_null =
     \<lparr>phashBlock = None, pprev = None, pskip = None, nHeight = 0, nFile = 0, nDataPos = 0, nUndoPos = 0,
      nChainWork = replicate WIDTH 0, nTx = 0, nChainTx = 0, nStatus = 0, bi_nVersion = 0,
      bi_hashMerkleRoot = 0, bi_nTime = 0, bi_nBits = 0, bi_nNonce = 0, bi_nSolution = [],
      nSequenceId = 0, nTimeMax = 0\<rparr>"

definition CBlockIndex_of :: "CBlockHeader \<Rightarrow> CBlockIndex" where
  "CBlockIndex_of block =
     CBlockIndex_null\<lparr>bi_nVersion := bh_nVersion block, bi_hashMerkleRoot := hashMerkleRoot block,
       bi_nTime := nTime block, bi_nBits := nBits block, bi_nNonce := nNonce block,
       bi_nSolution := nSolution block\<rparr>"

record CDiskBlockPos =
  pos_nFile :: int
  pos_nPos :: u32

definition CDiskBlockPos_null :: CDiskBlockPos where
  "CDiskBlockPos_null = \<lparr>pos_nFile = -1, pos_nPos = 0\<rparr>"

definition CDiskBlockPos_IsNull :: "CDiskBlockPos \<Rightarrow> bool" where
  "CDiskBlockPos_IsNull pos \<longleftrightarrow> pos_nFile pos = -1"

definition GetBlockPos :: "CBlockIndex \<Rightarrow> CDiskBlockPos" where
  "GetBlockPos b = (if nStatus b AND BLOCK_HAVE_DATA \<noteq> 0
     then \<lparr>pos_nFile = nFile b, pos_nPos = nDataPos b\<rparr> else CDiskBlockPos_null)"

definition GetUndoPos :: "CBlockIndex \<Rightarrow> CDiskBlockPos" where
  "GetUndoPos b = (if nStatus b AND BLOCK_HAVE_UNDO \<noteq> 0
     then \<lparr>pos_nFile = nFile b, pos_nPos = nUndoPos b\<rparr> else CDiskBlockPos_null)"

definition GetBlockHash :: "CBlockIndex \<Rightarrow> chain_fault + uint256" where
  "GetBlockHash b = (case phashBlock b of None \<Rightarrow> Inl Bad_pointer | Some h \<Rightarrow> Inr h)"

definition index_GetBlockHeader :: "index_heap \<Rightarrow> CBlockIndex \<Rightarrow> chain_fault + CBlockHeader" where
  "index_GetBlockHeader H b =
     bind_sum (case pprev b of None \<Rightarrow> Inr 0 | Some q \<Rightarrow> bind_sum (deref H q) GetBlockHash) (\<lambda>prev.
       Inr \<lparr>bh_nVersion = bi_nVersion b, hashPrevBlock = prev, hashMerkleRoot = bi_hashMerkleRoot b,
         nTime = bi_nTime b, nBits = bi_nBits b, nNonce = bi_nNonce b, nSolution = bi_nSolution b\<rparr>)"

definition GetBlockTime :: "CBlockIndex \<Rightarrow> int" where "GetBlockTime b = uint (bi_nTime b)"
definition GetBlockTimeMax :: "CBlockIndex \<Rightarrow> int" where "GetBlockTimeMax b = uint (nTimeMax b)"

definition IsValid :: "CBlockIndex \<Rightarrow> u32 \<Rightarrow> chain_fault + bool" where
  "IsValid b nUpTo =
     (if nUpTo AND NOT BLOCK_VALID_MASK \<noteq> 0 then Inl Assert_fails
      else if nStatus b AND BLOCK_FAILED_MASK \<noteq> 0 then Inr False
      else Inr (nUpTo \<le> nStatus b AND BLOCK_VALID_MASK))"

definition RaiseValidity :: "CBlockIndex \<Rightarrow> u32 \<Rightarrow> chain_fault + CBlockIndex \<times> bool" where
  "RaiseValidity b nUpTo =
     (if nUpTo AND NOT BLOCK_VALID_MASK \<noteq> 0 then Inl Assert_fails
      else if nStatus b AND BLOCK_FAILED_MASK \<noteq> 0 then Inr (b, False)
      else if nStatus b AND BLOCK_VALID_MASK < nUpTo
      then Inr (b\<lparr>nStatus := (nStatus b AND NOT BLOCK_VALID_MASK) OR nUpTo\<rparr>, True)
      else Inr (b, False))"

section \<open>Median time\<close>

definition nMedianTimeSpan :: nat where "nMedianTimeSpan = 11"

text \<open>The times of the block and its predecessors, at most \<open>n\<close> of them; the buffer is filled from
  its end, so the oldest comes first.\<close>

fun last_times :: "index_heap \<Rightarrow> nat \<Rightarrow> ptr option \<Rightarrow> int list \<Rightarrow> chain_fault + int list" where
  "last_times H 0 pindex acc = Inr acc"
| "last_times H (Suc n) None acc = Inr acc"
| "last_times H (Suc n) (Some p) acc =
     bind_sum (deref H p) (\<lambda>b. last_times H n (pprev b) (GetBlockTime b # acc))"

definition GetMedianTimePast :: "index_heap \<Rightarrow> ptr \<Rightarrow> chain_fault + int" where
  "GetMedianTimePast H p =
     bind_sum (last_times H nMedianTimeSpan (Some p) []) (\<lambda>ts. Inr (sort ts ! (length ts div 2)))"

section \<open>Ancestors\<close>

definition InvertLowestOne :: "nat \<Rightarrow> nat" where
  "InvertLowestOne n = n AND (n - 1)"

definition GetSkipHeight :: "nat \<Rightarrow> nat" where
  "GetSkipHeight height =
     (if height < 2 then 0
      else if height AND 1 \<noteq> 0 then InvertLowestOne (InvertLowestOne (height - 1)) + 1
      else InvertLowestOne height)"

lemma InvertLowestOne_le: "InvertLowestOne n \<le> n - 1"
proof -
  have "int n AND int (n - 1) \<le> int (n - 1)" by (simp add: AND_upper2)
  moreover have "int (InvertLowestOne n) = int n AND int (n - 1)"
    by (simp add: InvertLowestOne_def of_nat_and_eq)
  ultimately show ?thesis by linarith
qed

lemma GetSkipHeight_less: "0 < height \<Longrightarrow> GetSkipHeight height < height"
proof -
  assume "0 < height"
  moreover have "InvertLowestOne (InvertLowestOne (height - 1)) \<le> height - 1 - 1 - 1"
    using InvertLowestOne_le [of "InvertLowestOne (height - 1)"] InvertLowestOne_le [of "height - 1"] by linarith
  moreover have "InvertLowestOne height \<le> height - 1" by (rule InvertLowestOne_le)
  ultimately show ?thesis by (auto simp: GetSkipHeight_def)
qed

text \<open>The loop of \<open>GetAncestor\<close>.  Heights are never negative there.\<close>

function ancestor_walk :: "index_heap \<Rightarrow> ptr \<Rightarrow> nat \<Rightarrow> nat \<Rightarrow> chain_fault + ptr" where
  "ancestor_walk H pindexWalk heightWalk height =
     (if heightWalk \<le> height then Inr pindexWalk
      else let heightSkip = GetSkipHeight heightWalk; heightSkipPrev = GetSkipHeight (heightWalk - 1) in
        bind_sum (deref H pindexWalk) (\<lambda>b.
          if pskip b \<noteq> None \<and> (heightSkip = height \<or> height < heightSkip \<and>
               \<not> (heightSkipPrev < heightSkip - 2 \<and> height \<le> heightSkipPrev))
          then ancestor_walk H (the (pskip b)) heightSkip height
          else case pprev b of None \<Rightarrow> Inl Assert_fails
            | Some q \<Rightarrow> ancestor_walk H q (heightWalk - 1) height))"
  by pat_completeness auto
termination
  by (relation "measure (\<lambda>(_, _, heightWalk, _). heightWalk)") (auto intro: GetSkipHeight_less)

declare ancestor_walk.simps [simp del]

definition GetAncestor :: "index_heap \<Rightarrow> ptr \<Rightarrow> int \<Rightarrow> chain_fault + ptr option" where
  "GetAncestor H p height =
     bind_sum (deref H p) (\<lambda>b.
       if int (nHeight b) < height \<or> height < 0 then Inr None
       else bind_sum (ancestor_walk H p (nHeight b) (nat height)) (\<lambda>q. Inr (Some q)))"

definition BuildSkip :: "index_heap \<Rightarrow> ptr \<Rightarrow> chain_fault + index_heap" where
  "BuildSkip H p =
     bind_sum (deref H p) (\<lambda>b.
       case pprev b of None \<Rightarrow> Inr H
       | Some q \<Rightarrow> bind_sum (GetAncestor H q (int (GetSkipHeight (nHeight b)))) (\<lambda>s.
           Inr (H(p \<mapsto> b\<lparr>pskip := s\<rparr>))))"

text \<open>The loop of \<open>LastCommonAncestor\<close>, where both blocks have the same height \<open>n\<close>.\<close>

text \<open>The loop of \<open>LastCommonAncestor\<close>; it need not end on a store that is not a tree.\<close>

partial_function (option) lca_loop ::
  "index_heap \<Rightarrow> ptr option \<Rightarrow> ptr option \<Rightarrow> (chain_fault + ptr option \<times> ptr option) option" where
  [code]: "lca_loop H pa pb =
     (if pa \<noteq> pb \<and> pa \<noteq> None \<and> pb \<noteq> None then
        (case deref H (the pa) of Inl e \<Rightarrow> Some (Inl e)
         | Inr a \<Rightarrow> (case deref H (the pb) of Inl e \<Rightarrow> Some (Inl e)
             | Inr b \<Rightarrow> lca_loop H (pprev a) (pprev b)))
      else Some (Inr (pa, pb)))"

definition same_height :: "index_heap \<Rightarrow> ptr \<Rightarrow> ptr \<Rightarrow> chain_fault + ptr option \<times> ptr option" where
  "same_height H pa pb =
     bind_sum (deref H pa) (\<lambda>a. bind_sum (deref H pb) (\<lambda>b.
       if nHeight b < nHeight a then
         bind_sum (GetAncestor H pa (int (nHeight b))) (\<lambda>pa'. Inr (pa', Some pb))
       else if nHeight a < nHeight b then
         bind_sum (GetAncestor H pb (int (nHeight a))) (\<lambda>pb'. Inr (Some pa, pb'))
       else Inr (Some pa, Some pb)))"

definition LastCommonAncestor :: "index_heap \<Rightarrow> ptr \<Rightarrow> ptr \<Rightarrow> (chain_fault + ptr option) option" where
  "LastCommonAncestor H pa pb =
     (case same_height H pa pb of Inl e \<Rightarrow> Some (Inl e)
      | Inr (pa, pb) \<Rightarrow> Option.bind (lca_loop H pa pb) (\<lambda>r. Some (
          bind_sum r (\<lambda>(pa, pb). if pa = pb then Inr pa else Inl Assert_fails))))"

section \<open>The active chain\<close>

text \<open>\<open>vChain\<close>; the entries \<open>resize\<close> adds are null.\<close>

type_synonym CChain = "ptr option list"

definition Genesis :: "CChain \<Rightarrow> ptr option" where
  "Genesis vChain = (if length vChain > 0 then vChain ! 0 else None)"

definition Tip :: "CChain \<Rightarrow> ptr option" where
  "Tip vChain = (if length vChain > 0 then vChain ! (length vChain - 1) else None)"

definition chain_at :: "CChain \<Rightarrow> int \<Rightarrow> ptr option" where
  "chain_at vChain h = (if h < 0 \<or> int (length vChain) \<le> h then None else vChain ! nat h)"

text \<open>Comparing two empty chains reads before the vector.\<close>

definition CChain_eq :: "CChain \<Rightarrow> CChain \<Rightarrow> chain_fault + bool" where
  "CChain_eq a b = (if length a \<noteq> length b then Inr False
     else if a = [] then Inl Bad_pointer else Inr (last a = last b))"

definition Contains :: "index_heap \<Rightarrow> CChain \<Rightarrow> ptr \<Rightarrow> chain_fault + bool" where
  "Contains H vChain p = bind_sum (deref H p) (\<lambda>b. Inr (chain_at vChain (int (nHeight b)) = Some p))"

definition Next :: "index_heap \<Rightarrow> CChain \<Rightarrow> ptr \<Rightarrow> chain_fault + ptr option" where
  "Next H vChain p = bind_sum (Contains H vChain p) (\<lambda>c. bind_sum (deref H p) (\<lambda>b.
     Inr (if c then chain_at vChain (int (nHeight b) + 1) else None)))"

definition Height :: "CChain \<Rightarrow> int" where
  "Height vChain = int (length vChain) - 1"

definition chain_resize :: "CChain \<Rightarrow> nat \<Rightarrow> CChain" where
  "chain_resize vChain n = take n vChain @ replicate (n - length vChain) None"

partial_function (option) SetTip_loop ::
  "index_heap \<Rightarrow> ptr option \<Rightarrow> CChain \<Rightarrow> (chain_fault + CChain) option" where
  [code]: "SetTip_loop H pindex vChain =
     (case pindex of None \<Rightarrow> Some (Inr vChain)
      | Some p \<Rightarrow> (case deref H p of Inl e \<Rightarrow> Some (Inl e)
          | Inr b \<Rightarrow>
              if length vChain \<le> nHeight b then Some (Inl Bad_pointer)
              else if vChain ! nHeight b \<noteq> Some p
              then SetTip_loop H (pprev b) (vChain[nHeight b := Some p])
              else Some (Inr vChain)))"

definition SetTip :: "index_heap \<Rightarrow> CChain \<Rightarrow> ptr option \<Rightarrow> (chain_fault + CChain) option" where
  "SetTip H vChain pindex =
     (case pindex of None \<Rightarrow> Some (Inr [])
      | Some p \<Rightarrow> (case deref H p of Inl e \<Rightarrow> Some (Inl e)
          | Inr b \<Rightarrow> SetTip_loop H pindex (chain_resize vChain (nHeight b + 1))))"

partial_function (option) FindFork_loop ::
  "index_heap \<Rightarrow> CChain \<Rightarrow> ptr option \<Rightarrow> (chain_fault + ptr option) option" where
  [code]: "FindFork_loop H vChain pindex =
     (case pindex of None \<Rightarrow> Some (Inr None)
      | Some p \<Rightarrow> (case Contains H vChain p of Inl e \<Rightarrow> Some (Inl e)
          | Inr c \<Rightarrow> if c then Some (Inr (Some p))
              else (case deref H p of Inl e \<Rightarrow> Some (Inl e)
                | Inr b \<Rightarrow> FindFork_loop H vChain (pprev b))))"

definition FindFork :: "index_heap \<Rightarrow> CChain \<Rightarrow> ptr option \<Rightarrow> (chain_fault + ptr option) option" where
  "FindFork H vChain pindex =
     (case pindex of None \<Rightarrow> Some (Inr None)
      | Some p \<Rightarrow>
          (case bind_sum (deref H p) (\<lambda>b. if int (nHeight b) > Height vChain
                then GetAncestor H p (Height vChain) else Inr pindex) of
             Inl e \<Rightarrow> Some (Inl e)
           | Inr pindex \<Rightarrow> FindFork_loop H vChain pindex))"

text \<open>One round of the locator: the block's hash and the next block, or none after the genesis block.\<close>

definition locator_next ::
  "index_heap \<Rightarrow> CChain \<Rightarrow> int \<Rightarrow> ptr \<Rightarrow> chain_fault + uint256 \<times> ptr option" where
  "locator_next H vChain nStep p =
     bind_sum (deref H p) (\<lambda>b. bind_sum (GetBlockHash b) (\<lambda>hash.
       if nHeight b = 0 then Inr (hash, None)
       else let height = max (int (nHeight b) - nStep) 0 in
         bind_sum (Contains H vChain p) (\<lambda>c.
         bind_sum (if c then Inr (chain_at vChain height) else GetAncestor H p height) (\<lambda>next.
           Inr (hash, next)))))"

partial_function (option) locator_loop ::
  "index_heap \<Rightarrow> CChain \<Rightarrow> int \<Rightarrow> ptr option \<Rightarrow> uint256 list \<Rightarrow> (chain_fault + uint256 list) option" where
  [code]: "locator_loop H vChain nStep pindex vHave =
     (case pindex of None \<Rightarrow> Some (Inr vHave)
      | Some p \<Rightarrow> (case locator_next H vChain nStep p of Inl e \<Rightarrow> Some (Inl e)
          | Inr r \<Rightarrow> (let vHave = vHave @ [fst r]; nStep = (if length vHave > 10 then nStep * 2 else nStep) in
              locator_loop H vChain nStep (snd r) vHave)))"

definition GetLocator :: "index_heap \<Rightarrow> CChain \<Rightarrow> ptr option \<Rightarrow> (chain_fault + uint256 list) option" where
  "GetLocator H vChain pindex =
     locator_loop H vChain 1 (if pindex = None then Tip vChain else pindex) []"

text \<open>\<open>std::lower_bound\<close> on \<open>vChain\<close>, from \<open>first\<close> and over \<open>len\<close> entries.\<close>

function time_lower_bound :: "index_heap \<Rightarrow> CChain \<Rightarrow> int \<Rightarrow> nat \<Rightarrow> nat \<Rightarrow> chain_fault + nat" where
  "time_lower_bound H vChain time first len =
     (if len = 0 then Inr first
      else let half = len div 2 in
        bind_sum (case vChain ! (first + half) of None \<Rightarrow> Inl Bad_pointer | Some p \<Rightarrow> deref H p) (\<lambda>b.
          if GetBlockTimeMax b < time then time_lower_bound H vChain time (first + half + 1) (len - half - 1)
          else time_lower_bound H vChain time first half))"
  by pat_completeness auto
termination
  by (relation "measure (\<lambda>(_, _, _, _, len). len)") auto

declare time_lower_bound.simps [simp del]

definition FindEarliestAtLeast :: "index_heap \<Rightarrow> CChain \<Rightarrow> int \<Rightarrow> chain_fault + ptr option" where
  "FindEarliestAtLeast H vChain time =
     bind_sum (time_lower_bound H vChain time 0 (length vChain)) (\<lambda>i.
       Inr (if i = length vChain then None else vChain ! i))"

section \<open>Work\<close>

text \<open>\<open>None\<close> would be a division by zero.\<close>

definition GetBlockProof :: "u32 \<Rightarrow> base_uint option" where
  "GetBlockProof bits =
     (let (bnTarget, fNegative, fOverflow) = SetCompact bits in
      if fNegative \<or> fOverflow \<or> is_zero bnTarget then Some (arith_of_u64 0)
      else Option.bind (arith_div (arith_not bnTarget) (arith_add bnTarget (arith_of_u64 1))) (\<lambda>q.
        Some (arith_add q (arith_of_u64 1))))"

text \<open>\<open>None\<close> is a division by zero, which throws; \<open>sign * r.GetLow64()\<close> is unsigned and then converted.\<close>

definition GetBlockProofEquivalentTime ::
  "CBlockIndex \<Rightarrow> CBlockIndex \<Rightarrow> CBlockIndex \<Rightarrow> u64 \<Rightarrow> int option" where
  "GetBlockProofEquivalentTime to from tip nPowTargetSpacing =
     (let more = CompareTo (nChainWork to) (nChainWork from) > 0;
          r = (if more then arith_sub (nChainWork to) (nChainWork from)
               else arith_sub (nChainWork from) (nChainWork to));
          sign = (if more then 1 else -1 :: int) in
      Option.bind (GetBlockProof (bi_nBits tip)) (\<lambda>proof.
      Option.bind (arith_div (arith_mul r (arith_of_u64 nPowTargetSpacing)) proof) (\<lambda>r.
        if arith_bits r > 63 then Some (sign * (2 ^ 63 - 1))
        else Some (sint (word_of_int sign * GetLow64 r)))))"

section \<open>The skip list\<close>

primrec nth_prev :: "index_heap \<Rightarrow> nat \<Rightarrow> ptr \<Rightarrow> ptr option" where
  "nth_prev H 0 p = Some p"
| "nth_prev H (Suc k) p = (case H p of None \<Rightarrow> None | Some b \<Rightarrow> Option.bind (pprev b) (nth_prev H k))"

definition entry_ok :: "index_heap \<Rightarrow> ptr \<Rightarrow> CBlockIndex \<Rightarrow> bool" where
  "entry_ok H p b \<longleftrightarrow>
     (case pprev b of None \<Rightarrow> nHeight b = 0
      | Some q \<Rightarrow> (\<exists>c. H q = Some c \<and> nHeight b = Suc (nHeight c))) \<and>
     (\<forall>s. pskip b = Some s \<longrightarrow> nth_prev H (nHeight b - GetSkipHeight (nHeight b)) p = Some s)"

definition tree_ok :: "index_heap \<Rightarrow> bool" where
  "tree_ok H \<longleftrightarrow> (\<forall>p b. H p = Some b \<longrightarrow> entry_ok H p b)"

lemma tree_entry: "tree_ok H \<Longrightarrow> H p = Some b \<Longrightarrow> entry_ok H p b"
  by (simp add: tree_ok_def)

lemma tree_prev:
  assumes "tree_ok H" and "H p = Some b" and "pprev b = Some q"
  shows "\<exists>c. H q = Some c \<and> nHeight b = Suc (nHeight c)"
  using tree_entry [OF assms(1,2)] assms(3) by (simp add: entry_ok_def)

lemma tree_root: "tree_ok H \<Longrightarrow> H p = Some b \<Longrightarrow> pprev b = None \<Longrightarrow> nHeight b = 0"
  using tree_entry by (fastforce simp: entry_ok_def)

lemma tree_skip:
  "tree_ok H \<Longrightarrow> H p = Some b \<Longrightarrow> pskip b = Some s \<Longrightarrow>
   nth_prev H (nHeight b - GetSkipHeight (nHeight b)) p = Some s"
  using tree_entry by (simp add: entry_ok_def)

lemma prev_add: "nth_prev H (i + j) p = Option.bind (nth_prev H i p) (nth_prev H j)"
  by (induction i arbitrary: p) (auto split: option.splits bind_split)

lemma prev_Some:
  assumes "tree_ok H" and "H p = Some b" and "k \<le> nHeight b"
  shows "\<exists>q c. nth_prev H k p = Some q \<and> H q = Some c \<and> nHeight c = nHeight b - k"
  using assms(2,3)
proof (induction k arbitrary: p b)
  case (Suc k)
  then obtain q where q: "pprev b = Some q" using tree_root [OF assms(1)] by fastforce
  from tree_prev [OF assms(1) Suc.prems(1) q] obtain c where c: "H q = Some c" "nHeight b = Suc (nHeight c)" by blast
  then show ?case using Suc.IH [of q c] Suc.prems q by auto
qed simp

lemma prev_height:
  assumes "tree_ok H" and "H p = Some b" and "nth_prev H k p = Some q"
  shows "k \<le> nHeight b \<and> (\<exists>c. H q = Some c \<and> nHeight c = nHeight b - k)"
  using assms(2,3)
proof (induction k arbitrary: p b)
  case (Suc k)
  then obtain r where r: "pprev b = Some r" "nth_prev H k r = Some q" by (auto split: bind_split_asm)
  with tree_prev [OF assms(1) Suc.prems(1)] Suc.IH show ?case by fastforce
qed simp

text \<open>The search finds the block a walk along \<open>pprev\<close> finds, and no assertion fails.\<close>

lemma ancestor_walk_prev:
  assumes "tree_ok H"
  shows "H p = Some b \<Longrightarrow> nHeight b = w \<Longrightarrow> h \<le> w \<Longrightarrow>
    \<exists>q. ancestor_walk H p w h = Inr q \<and> nth_prev H (w - h) p = Some q"
proof (induction w arbitrary: p b rule: less_induct)
  case (less w)
  have step: "\<exists>q. ancestor_walk H r (nHeight c) h = Inr q \<and> nth_prev H (w - h) p = Some q"
    if r: "nth_prev H k p = Some r" and k: "0 < k" "k \<le> w - h" and c: "H r = Some c" for k r c
  proof -
    have "nHeight c = w - k" using prev_height [OF assms less.prems(1) r] c less.prems(2) by simp
    then obtain q where "ancestor_walk H r (nHeight c) h = Inr q" and q: "nth_prev H (nHeight c - h) r = Some q"
      using less.IH [OF _ c, of "nHeight c"] k less.prems(3) by fastforce
    moreover have "nth_prev H (k + (nHeight c - h)) p = Some q" by (simp add: prev_add r q)
    ultimately show ?thesis using \<open>nHeight c = w - k\<close> k by simp
  qed
  show ?case
  proof (cases "w \<le> h")
    case True
    then show ?thesis using less.prems by (simp add: ancestor_walk.simps)
  next
    case False
    have sk: "GetSkipHeight w < w" using False by (intro GetSkipHeight_less) simp
    show ?thesis
    proof (cases "pskip b \<noteq> None \<and> (GetSkipHeight w = h \<or> h < GetSkipHeight w \<and>
        \<not> (GetSkipHeight (w - 1) < GetSkipHeight w - 2 \<and> h \<le> GetSkipHeight (w - 1)))")
      case True
      then obtain s where s: "pskip b = Some s" by blast
      from tree_skip [OF assms less.prems(1) s] have n: "nth_prev H (w - GetSkipHeight w) p = Some s"
        by (simp add: less.prems(2))
      from prev_height [OF assms less.prems(1) n] obtain c where c: "H s = Some c" "nHeight c = GetSkipHeight w"
        using less.prems(2) sk by auto
      from True have "h \<le> GetSkipHeight w" by auto
      then show ?thesis using step [OF n _ _ c(1)] sk c False True s less.prems
        by (subst ancestor_walk.simps) (simp add: Let_def deref_def)
    next
      case skip: False
      obtain q where q: "pprev b = Some q" using tree_root [OF assms less.prems(1)] less.prems(2) False by fastforce
      from tree_prev [OF assms less.prems(1) q] obtain c where c: "H q = Some c" "nHeight b = Suc (nHeight c)" by blast
      have "nth_prev H 1 p = Some q" using less.prems(1) q by simp
      from step [OF this _ _ c(1)] have "\<exists>q'. ancestor_walk H q (nHeight c) h = Inr q' \<and> nth_prev H (w - h) p = Some q'"
        using False by simp
      moreover have "ancestor_walk H p w h = ancestor_walk H q (nHeight c) h"
      proof -
        have n: "w - 1 = nHeight c" using c(2) less.prems(2) by simp
        show ?thesis using False less.prems(1) q
          by (subst ancestor_walk.simps) (simp only: Let_def deref_def n skip [unfolded n] if_False sum.case option.case)
      qed
      ultimately show ?thesis by simp
    qed
  qed
qed

text \<open>The specification of \<open>GetAncestor\<close>.\<close>

lemma GetAncestor_prev:
  assumes "tree_ok H" and "H p = Some b"
  shows "GetAncestor H p h =
    Inr (if int (nHeight b) < h \<or> h < 0 then None else nth_prev H (nHeight b - nat h) p)"
proof (cases "int (nHeight b) < h \<or> h < 0")
  case False
  then have "nat h \<le> nHeight b" by linarith
  from ancestor_walk_prev [OF assms refl this] False assms(2) show ?thesis
    by (auto simp: GetAncestor_def deref_def)
qed (use assms in \<open>auto simp: GetAncestor_def deref_def\<close>)

lemma GetAncestor_Some:
  assumes "tree_ok H" and "H p = Some b" and "0 \<le> h" and "h \<le> int (nHeight b)"
  shows "\<exists>q c. GetAncestor H p h = Inr (Some q) \<and> nth_prev H (nHeight b - nat h) p = Some q \<and>
    H q = Some c \<and> nHeight c = nat h"
proof -
  have "nHeight b - nat h \<le> nHeight b" by simp
  from prev_Some [OF assms(1,2) this] show ?thesis using assms by (auto simp: GetAncestor_prev)
qed

text \<open>\<open>BuildSkip\<close> on a new entry whose predecessor is in the tree gives a tree again.\<close>

lemma nth_prev_upd:
  assumes "tree_ok H" and "H p = None"
  shows "H q = Some c \<Longrightarrow> nth_prev (H(p \<mapsto> b)) k q = nth_prev H k q"
proof (induction k arbitrary: q c)
  case (Suc k)
  then have "q \<noteq> p" using assms(2) by auto
  show ?case
  proof (cases "pprev c")
    case (Some r)
    with tree_prev [OF assms(1) Suc.prems] obtain d where "H r = Some d" by blast
    from Suc.IH [OF this] show ?thesis using Some Suc.prems \<open>q \<noteq> p\<close> by simp
  qed (use Suc.prems \<open>q \<noteq> p\<close> in simp)
qed simp

definition fresh_entry :: "index_heap \<Rightarrow> ptr \<Rightarrow> CBlockIndex \<Rightarrow> bool" where
  "fresh_entry H p b \<longleftrightarrow> H p = None \<and> pskip b = None \<and>
     (case pprev b of None \<Rightarrow> nHeight b = 0 | Some q \<Rightarrow> \<exists>c. H q = Some c \<and> nHeight b = Suc (nHeight c))"

lemma tree_ok_upd:
  assumes "tree_ok H" and "H p = None" and "entry_ok (H(p \<mapsto> b)) p b"
  shows "tree_ok (H(p \<mapsto> b))"
  unfolding tree_ok_def
proof (intro allI impI)
  fix q c
  assume q: "(H(p \<mapsto> b)) q = Some c"
  show "entry_ok (H(p \<mapsto> b)) q c"
  proof (cases "q = p")
    case True
    then show ?thesis using q assms(3) by simp
  next
    case False
    then have c: "H q = Some c" using q by simp
    have e: "entry_ok H q c" by (rule tree_entry [OF assms(1) c])
    have "\<forall>r d. H r = Some d \<longrightarrow> r \<noteq> p" using assms(2) by auto
    with e show ?thesis
      by (auto simp: entry_ok_def nth_prev_upd [OF assms(1,2) c] split: option.splits)
  qed
qed

lemma BuildSkip_tree:
  assumes "tree_ok H" and "fresh_entry H p b"
  shows "\<exists>s. BuildSkip (H(p \<mapsto> b)) p = Inr (H(p \<mapsto> b\<lparr>pskip := s\<rparr>)) \<and> tree_ok (H(p \<mapsto> b\<lparr>pskip := s\<rparr>)) \<and>
    s = Option.bind (pprev b) (nth_prev H (nHeight b - 1 - GetSkipHeight (nHeight b)))"
proof (cases "pprev b")
  case None
  with assms(2) have n: "nHeight b = 0" "pskip b = None" by (simp_all add: fresh_entry_def)
  have "entry_ok (H(p \<mapsto> b)) p b" using None n by (simp add: entry_ok_def)
  moreover have e: "b\<lparr>pskip := None\<rparr> = b" using n(2) by (cases b) simp
  ultimately show ?thesis using assms None
    by (intro exI [of _ None], simp only: e) (simp add: BuildSkip_def deref_def fresh_entry_def tree_ok_upd)
next
  case (Some q)
  with assms(2) obtain c where c: "H q = Some c" "nHeight b = Suc (nHeight c)" and p: "H p = None" "pskip b = None"
    by (auto simp: fresh_entry_def)
  have "entry_ok (H(p \<mapsto> b)) p b" using Some c p by (auto simp: entry_ok_def)
  then have T: "tree_ok (H(p \<mapsto> b))" by (rule tree_ok_upd [OF assms(1) p(1)])
  have q: "(H(p \<mapsto> b)) q = Some c" using c p by auto
  have sk: "GetSkipHeight (nHeight b) \<le> nHeight c" using GetSkipHeight_less [of "nHeight b"] c(2) by simp
  define k where "k = nHeight c - GetSkipHeight (nHeight b)"
  have "k \<le> nHeight c" by (simp add: k_def)
  from prev_Some [OF assms(1) c(1) this] obtain s where s: "nth_prev H k q = Some s" by blast
  have G: "GetAncestor (H(p \<mapsto> b)) q (int (GetSkipHeight (nHeight b))) = Inr (Some s)"
    using sk s by (simp add: GetAncestor_prev [OF T q] nth_prev_upd [OF assms(1) p(1) c(1)] k_def)
  let ?b = "b\<lparr>pskip := Some s\<rparr>"
  have "nHeight b - GetSkipHeight (nHeight b) = Suc k" using sk c(2) by (simp add: k_def)
  then have "entry_ok (H(p \<mapsto> ?b)) p ?b"
    using Some c p(1) s by (auto simp: entry_ok_def nth_prev_upd [OF assms(1) p(1) c(1)])
  then have "tree_ok (H(p \<mapsto> ?b))" by (rule tree_ok_upd [OF assms(1) p(1)])
  moreover have "BuildSkip (H(p \<mapsto> b)) p = Inr (H(p \<mapsto> ?b))"
    using G Some by (simp add: BuildSkip_def deref_def)
  moreover have "Some s = Option.bind (pprev b) (nth_prev H (nHeight b - 1 - GetSkipHeight (nHeight b)))"
    using Some s c(2) by (simp add: k_def)
  ultimately show ?thesis by blast
qed

section \<open>The active chain is a branch of the tree\<close>

definition branch :: "index_heap \<Rightarrow> ptr \<Rightarrow> nat \<Rightarrow> CChain" where
  "branch H p n = map (\<lambda>i. nth_prev H (n - i) p) [0..<Suc n]"

definition is_branch :: "index_heap \<Rightarrow> CChain \<Rightarrow> bool" where
  "is_branch H C \<longleftrightarrow> C = [] \<or> (\<exists>p b. H p = Some b \<and> C = branch H p (nHeight b))"

lemma length_branch [simp]: "length (branch H p n) = Suc n"
  by (simp add: branch_def)

lemma branch_nth: "i \<le> n \<Longrightarrow> branch H p n ! i = nth_prev H (n - i) p"
  by (simp add: branch_def nth_map del: upt_Suc)

lemma is_branch_Nil [simp]: "is_branch H []"
  by (simp add: is_branch_def)

lemma is_branchI: "H p = Some b \<Longrightarrow> is_branch H (branch H p (nHeight b))"
  by (auto simp: is_branch_def)

text \<open>An entry of a branch determines the entries below it.\<close>

definition downward :: "index_heap \<Rightarrow> CChain \<Rightarrow> nat \<Rightarrow> bool" where
  "downward H V m \<longleftrightarrow> (\<forall>i q. i \<le> m \<and> i < length V \<and> V ! i = Some q \<longrightarrow>
     (\<exists>c. H q = Some c \<and> nHeight c = i) \<and> (\<forall>j\<le>i. V ! j = nth_prev H (i - j) q))"

lemma branch_downward:
  assumes "tree_ok H" and "is_branch H C"
  shows "downward H C m"
  unfolding downward_def
proof (intro allI impI)
  fix i q
  assume a: "i \<le> m \<and> i < length C \<and> C ! i = Some q"
  then obtain p b where p: "H p = Some b" "C = branch H p (nHeight b)"
    using assms(2) by (auto simp: is_branch_def)
  from a p(2) have i: "i \<le> nHeight b" by simp
  with a p(2) have n: "nth_prev H (nHeight b - i) p = Some q" by (simp add: branch_nth)
  from prev_height [OF assms(1) p(1) n] i have "\<exists>c. H q = Some c \<and> nHeight c = i" by auto
  moreover have "C ! j = nth_prev H (i - j) q" if "j \<le> i" for j
  proof -
    have "nHeight b - j = (nHeight b - i) + (i - j)" using i that by linarith
    then have "nth_prev H (nHeight b - j) p = nth_prev H (i - j) q" by (simp add: prev_add n)
    then show ?thesis using that i by (simp add: p(2) branch_nth)
  qed
  ultimately show "(\<exists>c. H q = Some c \<and> nHeight c = i) \<and> (\<forall>j\<le>i. C ! j = nth_prev H (i - j) q)" by blast
qed

lemma SetTip_loop_branch:
  assumes "tree_ok H"
  shows "H r = Some c \<Longrightarrow> nHeight c = m \<Longrightarrow> m < length V \<Longrightarrow> downward H V m \<Longrightarrow>
    SetTip_loop H (Some r) V =
      Some (Inr (map (\<lambda>i. if i \<le> m then nth_prev H (m - i) r else V ! i) [0..<length V]))"
proof (induction m arbitrary: r c V)
  case 0
  then have pr: "pprev c = None" using tree_prev [OF assms] by fastforce
  show ?case
    using 0 pr by (subst SetTip_loop.simps)
      (auto simp: deref_def SetTip_loop.simps [of H None] nth_list_update intro: nth_equalityI)
next
  case (Suc m)
  then obtain q where q: "pprev c = Some q" using tree_root [OF assms] by fastforce
  from tree_prev [OF assms Suc.prems(1) q] Suc.prems(2) obtain d where d: "H q = Some d" "nHeight d = m" by auto
  show ?case
  proof (cases "V ! Suc m = Some r")
    case True
    then have "V ! i = nth_prev H (Suc m - i) r" if "i \<le> Suc m" for i
      using Suc.prems(3,4) that unfolding downward_def by blast
    then have "V = map (\<lambda>i. if i \<le> Suc m then nth_prev H (Suc m - i) r else V ! i) [0..<length V]"
      by (intro nth_equalityI) auto
    then show ?thesis using Suc.prems True by (subst SetTip_loop.simps) (simp add: deref_def)
  next
    case False
    let ?V = "V[Suc m := Some r]"
    have "downward H ?V m" using Suc.prems(4) by (auto simp: downward_def nth_list_update)
    from Suc.IH [OF d _ this] Suc.prems(3)
    have "SetTip_loop H (Some q) ?V =
        Some (Inr (map (\<lambda>i. if i \<le> m then nth_prev H (m - i) q else ?V ! i) [0..<length V]))" by simp
    moreover have "map (\<lambda>i. if i \<le> m then nth_prev H (m - i) q else ?V ! i) [0..<length V] =
        map (\<lambda>i. if i \<le> Suc m then nth_prev H (Suc m - i) r else V ! i) [0..<length V]"
      using Suc.prems(1,3) q by (auto simp: nth_list_update Suc_diff_le le_Suc_eq)
    ultimately show ?thesis using Suc.prems False q by (subst SetTip_loop.simps) (simp add: deref_def)
  qed
qed

text \<open>\<open>SetTip\<close> ends, and leaves the branch of the new tip.\<close>

lemma SetTip_branch:
  assumes "tree_ok H" and "is_branch H C" and "H p = Some b"
  shows "SetTip H C (Some p) = Some (Inr (branch H p (nHeight b)))"
proof -
  define V where "V = chain_resize C (nHeight b + 1)"
  have l: "length V = Suc (nHeight b)" by (simp add: V_def chain_resize_def)
  have nth: "V ! i = (if i < length C then C ! i else None)" if "i < Suc (nHeight b)" for i
    using that by (auto simp: V_def chain_resize_def nth_append)
  have "downward H V (nHeight b)"
    using branch_downward [OF assms(1,2), of "nHeight b"]
    unfolding downward_def l by (auto simp: nth split: if_splits)
  from SetTip_loop_branch [OF assms(1,3) refl _ this]
  have "SetTip_loop H (Some p) V = Some (Inr (branch H p (nHeight b)))"
    unfolding l branch_def by (simp del: upt_Suc)
  then show ?thesis using assms(3) by (simp add: SetTip_def deref_def V_def)
qed

lemma Tip_branch: "Tip (branch H p n) = Some p"
  by (simp add: Tip_def branch_nth)

lemma chain_at_branch: "chain_at (branch H p n) h = (if 0 \<le> h \<and> h \<le> int n then nth_prev H (n - nat h) p else None)"
  by (auto simp: chain_at_def branch_nth nat_le_iff)

text \<open>\<open>Contains\<close> is membership in the chain.\<close>

lemma Contains_iff:
  assumes "tree_ok H" and "is_branch H C" and "H q = Some c"
  shows "Contains H C q = Inr (Some q \<in> set C)"
proof -
  have "chain_at C (int (nHeight c)) = Some q \<longleftrightarrow> Some q \<in> set C"
  proof
    assume "chain_at C (int (nHeight c)) = Some q"
    then have "nHeight c < length C \<and> C ! nHeight c = Some q" by (auto simp: chain_at_def split: if_splits)
    then show "Some q \<in> set C" by (auto simp: in_set_conv_nth)
  next
    assume "Some q \<in> set C"
    then obtain i where i: "i < length C" "C ! i = Some q" by (auto simp: in_set_conv_nth)
    with branch_downward [OF assms(1,2), of i] have "\<exists>d. H q = Some d \<and> nHeight d = i"
      unfolding downward_def by blast
    with assms(3) have "nHeight c = i" by simp
    with i show "chain_at C (int (nHeight c)) = Some q" by (simp add: chain_at_def)
  qed
  then show ?thesis using assms(3) by (simp add: Contains_def deref_def)
qed

text \<open>\<open>FindFork\<close> ends with the nearest block of the walk along \<open>pprev\<close> that is in the chain.\<close>

definition first_on :: "index_heap \<Rightarrow> CChain \<Rightarrow> ptr \<Rightarrow> ptr option \<Rightarrow> bool" where
  "first_on H C p r \<longleftrightarrow>
     (case r of None \<Rightarrow> \<forall>k q. nth_prev H k p = Some q \<longrightarrow> Some q \<notin> set C
      | Some x \<Rightarrow> Some x \<in> set C \<and> (\<exists>k. nth_prev H k p = Some x \<and>
          (\<forall>j<k. \<forall>q. nth_prev H j p = Some q \<longrightarrow> Some q \<notin> set C)))"

lemma first_on_step:
  assumes "H p = Some b" and "Some p \<notin> set C"
  shows "first_on H C p r \<longleftrightarrow> (case pprev b of None \<Rightarrow> r = None | Some q \<Rightarrow> first_on H C q r)"
proof (cases "pprev b")
  case None
  have "nth_prev H k p = (if k = 0 then Some p else None)" for k using assms(1) None by (cases k) auto
  then show ?thesis using None assms(2) by (auto simp: first_on_def split: option.splits if_splits)
next
  case (Some q)
  have s: "nth_prev H (Suc k) p = nth_prev H k q" for k using assms(1) Some by simp
  have all: "(\<forall>j<Suc k. \<forall>x. nth_prev H j p = Some x \<longrightarrow> Some x \<notin> set C) \<longleftrightarrow>
      (\<forall>j<k. \<forall>x. nth_prev H j q = Some x \<longrightarrow> Some x \<notin> set C)" for k
    using assms(2) s by (auto simp: less_Suc_eq_0_disj)
  have ex: "(\<exists>k. P k) \<longleftrightarrow> P 0 \<or> (\<exists>k. P (Suc k))" for P :: "nat \<Rightarrow> bool"
    by (metis not0_implies_Suc)
  have all0: "(\<forall>k. P k) \<longleftrightarrow> P 0 \<and> (\<forall>k. P (Suc k))" for P :: "nat \<Rightarrow> bool"
    by (metis not0_implies_Suc)
  have none: "(\<forall>k x. nth_prev H k p = Some x \<longrightarrow> Some x \<notin> set C) \<longleftrightarrow>
      (\<forall>k x. nth_prev H k q = Some x \<longrightarrow> Some x \<notin> set C)"
    by (subst all0) (simp only: s, simp add: assms(2))
  show ?thesis
  proof (cases r)
    case None
    then show ?thesis using none Some by (simp add: first_on_def)
  next
    case (Some x)
    have "(\<exists>k. nth_prev H k p = Some x \<and> (\<forall>j<k. \<forall>y. nth_prev H j p = Some y \<longrightarrow> Some y \<notin> set C)) \<longleftrightarrow>
        (\<exists>k. nth_prev H k q = Some x \<and> (\<forall>j<k. \<forall>y. nth_prev H j q = Some y \<longrightarrow> Some y \<notin> set C))"
      if "Some x \<in> set C"
    proof -
      have "p \<noteq> x" using that assms(2) by blast
      then show ?thesis by (subst ex) (simp only: s all, simp)
    qed
    then show ?thesis using Some \<open>pprev b = Some q\<close> by (auto simp: first_on_def)
  qed
qed

lemma FindFork_loop_first:
  assumes "tree_ok H" and "is_branch H C"
  shows "H p = Some b \<Longrightarrow> \<exists>r. FindFork_loop H C (Some p) = Some (Inr r) \<and> first_on H C p r"
proof (induction "nHeight b" arbitrary: p b)
  case (0 b)
  note c = Contains_iff [OF assms 0(2)]
  have "pprev b = None" using tree_prev [OF assms(1) 0(2)] 0(1) by fastforce
  with 0 c show ?case
    by (cases "Some p \<in> set C")
      (subst FindFork_loop.simps, force simp: first_on_def intro: exI [of _ 0],
       subst FindFork_loop.simps, simp add: deref_def first_on_step FindFork_loop.simps [of H C None])
next
  case (Suc m b)
  note c = Contains_iff [OF assms Suc(3)]
  obtain q where q: "pprev b = Some q" using tree_root [OF assms(1) Suc(3)] Suc(2) by fastforce
  from tree_prev [OF assms(1) Suc(3) q] Suc(2) obtain d where d: "H q = Some d" "m = nHeight d" by auto
  show ?case
  proof (cases "Some p \<in> set C")
    case True
    then show ?thesis using c by (subst FindFork_loop.simps) (force simp: first_on_def intro: exI [of _ 0])
  next
    case False
    with Suc.hyps(1) [OF d(2,1)] c Suc(3) q show ?thesis
      by (subst FindFork_loop.simps) (simp add: deref_def first_on_step)
  qed
qed

lemma FindFork_first:
  assumes "tree_ok H" and "is_branch H C" and "H p = Some b"
  shows "\<exists>r. FindFork H C (Some p) = Some (Inr r) \<and> first_on H C p r"
proof (cases "int (nHeight b) > Height C")
  case False
  then show ?thesis using FindFork_loop_first [OF assms] assms(3) by (simp add: FindFork_def deref_def)
next
  case True
  show ?thesis
  proof (cases "C = []")
    case True
    then have "GetAncestor H p (Height C) = Inr None" using assms(1,3) by (simp add: GetAncestor_prev Height_def)
    then show ?thesis using \<open>int (nHeight b) > Height C\<close> True assms(3)
      by (simp add: FindFork_def deref_def FindFork_loop.simps first_on_def)
  next
    case False
    then have h: "0 \<le> Height C" "nat (Height C) = length C - 1" by (cases C; simp add: Height_def)+
    define k where "k = nHeight b - (length C - 1)"
    from GetAncestor_Some [OF assms(1,3) h(1)] True obtain q c where
      q: "GetAncestor H p (Height C) = Inr (Some q)" "nth_prev H k p = Some q" "H q = Some c"
      by (auto simp: h(2) k_def)
    from FindFork_loop_first [OF assms(1,2) q(3)] obtain r where
      r: "FindFork_loop H C (Some q) = Some (Inr r)" "first_on H C q r" by blast
    have above: "Some x \<notin> set C" if x: "nth_prev H j p = Some x" and j: "j < k" for j x
    proof
      assume "Some x \<in> set C"
      then obtain i where i: "i < length C" "C ! i = Some x" by (auto simp: in_set_conv_nth)
      with branch_downward [OF assms(1,2), of i] have "\<exists>d. H x = Some d \<and> nHeight d = i"
        unfolding downward_def by blast
      with prev_height [OF assms(1,3) x] i(1) j show False by (auto simp: k_def)
    qed
    have "first_on H C p r"
    proof (cases r)
      case None
      have "Some x \<notin> set C" if "nth_prev H j p = Some x" for j x
      proof (cases "j < k")
        case False
        then have "nth_prev H j p = nth_prev H (j - k) q" using prev_add [of H k "j - k" p] q(2) by simp
        then have "nth_prev H (j - k) q = Some x" using that by simp
        then show ?thesis using r(2) None by (auto simp: first_on_def)
      qed (use above that in blast)
      then show ?thesis using None by (simp add: first_on_def)
    next
      case (Some x)
      with r(2) obtain j where j: "Some x \<in> set C" "nth_prev H j q = Some x"
        "\<forall>i<j. \<forall>y. nth_prev H i q = Some y \<longrightarrow> Some y \<notin> set C" by (auto simp: first_on_def)
      have "nth_prev H (k + j) p = Some x" by (simp add: prev_add q(2) j(2))
      moreover have "Some y \<notin> set C" if "i < k + j" "nth_prev H i p = Some y" for i y
      proof (cases "i < k")
        case False
        then have "nth_prev H i p = nth_prev H (i - k) q" using prev_add [of H k "i - k" p] q(2) by simp
        then have "nth_prev H (i - k) q = Some y" and "i - k < j" using that False by auto
        then show ?thesis using j(3) by blast
      qed (use above that in blast)
      ultimately show ?thesis using Some j(1) by (auto simp: first_on_def)
    qed
    then show ?thesis using True q(1) r(1) assms(3) by (simp add: FindFork_def deref_def)
  qed
qed

section \<open>Common ancestors\<close>

definition ancestor :: "index_heap \<Rightarrow> ptr \<Rightarrow> ptr \<Rightarrow> bool" where
  "ancestor H x p \<longleftrightarrow> (\<exists>k. nth_prev H k p = Some x)"

lemma ancestor_step:
  assumes "H p = Some b"
  shows "ancestor H x p \<longleftrightarrow> x = p \<or> (\<exists>q. pprev b = Some q \<and> ancestor H x q)"
proof
  assume "ancestor H x p"
  then obtain k where "nth_prev H k p = Some x" by (auto simp: ancestor_def)
  then show "x = p \<or> (\<exists>q. pprev b = Some q \<and> ancestor H x q)"
    using assms by (cases k) (auto simp: ancestor_def split: bind_split_asm)
next
  assume "x = p \<or> (\<exists>q. pprev b = Some q \<and> ancestor H x q)"
  then show "ancestor H x p"
  proof
    assume "x = p"
    then have "nth_prev H 0 p = Some x" by simp
    then show ?thesis unfolding ancestor_def by blast
  next
    assume "\<exists>q. pprev b = Some q \<and> ancestor H x q"
    then obtain q k where "pprev b = Some q" "nth_prev H k q = Some x" by (auto simp: ancestor_def)
    then have "nth_prev H (Suc k) p = Some x" using assms by simp
    then show ?thesis unfolding ancestor_def by blast
  qed
qed

lemma ancestor_refl: "ancestor H p p"
  unfolding ancestor_def by (rule exI [of _ 0]) simp

lemma ancestor_height:
  assumes "tree_ok H" and "H p = Some b" and "ancestor H x p"
  shows "\<exists>c. H x = Some c \<and> nHeight c \<le> nHeight b \<and> nth_prev H (nHeight b - nHeight c) p = Some x"
proof -
  from assms(3) obtain k where k: "nth_prev H k p = Some x" by (auto simp: ancestor_def)
  from prev_height [OF assms(1,2) k] k show ?thesis by auto
qed

lemma ancestor_prev_iff:
  assumes "tree_ok H" and "H p = Some b" and "nth_prev H k p = Some q" and "H x = Some c"
    and "nHeight c + k \<le> nHeight b"
  shows "ancestor H x p \<longleftrightarrow> ancestor H x q"
proof
  assume "ancestor H x p"
  from ancestor_height [OF assms(1,2) this] assms(4)
  have "nth_prev H (nHeight b - nHeight c) p = Some x" by auto
  moreover have "nHeight b - nHeight c = k + (nHeight b - nHeight c - k)" using assms(5) by simp
  ultimately have "nth_prev H (nHeight b - nHeight c - k) q = Some x"
    using prev_add [of H k "nHeight b - nHeight c - k" p] assms(3) by simp
  then show "ancestor H x q" by (auto simp: ancestor_def)
next
  assume "ancestor H x q"
  then obtain j where "nth_prev H j q = Some x" by (auto simp: ancestor_def)
  then have "nth_prev H (k + j) p = Some x" by (simp add: prev_add assms(3))
  then show "ancestor H x p" unfolding ancestor_def by blast
qed

text \<open>\<open>r\<close> is the last block on both branches, or there is none.\<close>

definition last_common :: "index_heap \<Rightarrow> ptr \<Rightarrow> ptr \<Rightarrow> ptr option \<Rightarrow> bool" where
  "last_common H p q r \<longleftrightarrow>
     (\<forall>x. ancestor H x p \<and> ancestor H x q \<longleftrightarrow> (\<exists>y. r = Some y \<and> ancestor H x y))"

lemma lca_loop_common:
  assumes "tree_ok H"
  shows "H p = Some b \<Longrightarrow> H q = Some c \<Longrightarrow> nHeight b = n \<Longrightarrow> nHeight c = n \<Longrightarrow>
    \<exists>r. lca_loop H (Some p) (Some q) = Some (Inr (r, r)) \<and> last_common H p q r"
proof (induction n arbitrary: p q b c)
  case 0
  have "pprev b = None" "pprev c = None" using 0 tree_prev [OF assms] by fastforce+
  with 0 show ?case
    by (subst lca_loop.simps)
      (auto simp: deref_def last_common_def ancestor_step [of H p] ancestor_step [of H q] lca_loop.simps [of H None])
next
  case (Suc n)
  obtain p' q' where n: "pprev b = Some p'" "pprev c = Some q'" using Suc.prems tree_root [OF assms] by fastforce
  from tree_prev [OF assms Suc.prems(1) n(1)] Suc.prems(3) obtain b' where b': "H p' = Some b'" "nHeight b' = n" by auto
  from tree_prev [OF assms Suc.prems(2) n(2)] Suc.prems(4) obtain c' where c': "H q' = Some c'" "nHeight c' = n" by auto
  show ?case
  proof (cases "p = q")
    case True
    then show ?thesis by (subst lca_loop.simps) (auto simp: last_common_def)
  next
    case False
    from Suc.IH [OF b'(1) c'(1) b'(2) c'(2)] obtain r where
      r: "lca_loop H (Some p') (Some q') = Some (Inr (r, r))" "last_common H p' q' r" by blast
    have 1: "\<not> ancestor H p q'"
      using ancestor_height [OF assms c'(1), of p] Suc.prems(1,3) c'(2) by auto
    have 2: "\<not> ancestor H q p'"
      using ancestor_height [OF assms b'(1), of q] Suc.prems(2,4) b'(2) by auto
    have "last_common H p q r"
      using r(2) False 1 2 unfolding last_common_def
      by (simp add: ancestor_step [of H p b] ancestor_step [of H q c] Suc.prems(1,2) n) blast
    then show ?thesis using r(1) False Suc.prems n by (subst lca_loop.simps) (simp add: deref_def)
  qed
qed

lemma last_common_sym: "last_common H p q r \<longleftrightarrow> last_common H q p r"
  unfolding last_common_def by blast

lemma last_common_lift:
  assumes "tree_ok H" and "H p = Some b" and "H q = Some c" and "nHeight c \<le> nHeight b"
    and "nth_prev H (nHeight b - nHeight c) p = Some p'"
  shows "last_common H p q r \<longleftrightarrow> last_common H p' q r"
proof -
  have "ancestor H x p \<and> ancestor H x q \<longleftrightarrow> ancestor H x p' \<and> ancestor H x q" for x
  proof (cases "ancestor H x q")
    case True
    from ancestor_height [OF assms(1,3) this] obtain d where d: "H x = Some d" "nHeight d \<le> nHeight c" by blast
    then have "nHeight d + (nHeight b - nHeight c) \<le> nHeight b" using assms(4) by simp
    from ancestor_prev_iff [OF assms(1,2,5) d(1) this] show ?thesis by simp
  qed simp
  then show ?thesis by (simp add: last_common_def)
qed

text \<open>The search for the last common ancestor ends, and its assertion holds.\<close>

lemma LastCommonAncestor_common:
  assumes "tree_ok H" and "H p = Some b" and "H q = Some c"
  shows "\<exists>r. LastCommonAncestor H p q = Some (Inr r) \<and> last_common H p q r"
proof -
  consider "nHeight c < nHeight b" | "nHeight b < nHeight c" | "nHeight b = nHeight c" by linarith
  then show ?thesis
  proof cases
    case 1
    with GetAncestor_Some [OF assms(1,2), of "int (nHeight c)"] obtain p' b' where
      p': "GetAncestor H p (int (nHeight c)) = Inr (Some p')" "nth_prev H (nHeight b - nHeight c) p = Some p'"
        "H p' = Some b'" "nHeight b' = nHeight c" by auto
    from lca_loop_common [OF assms(1) p'(3) assms(3) p'(4) refl] obtain r where
      "lca_loop H (Some p') (Some q) = Some (Inr (r, r))" "last_common H p' q r" by blast
    moreover have "last_common H p q r \<longleftrightarrow> last_common H p' q r"
      using 1 p'(2) by (intro last_common_lift [OF assms]) simp_all
    ultimately show ?thesis using 1 p' assms(2,3)
      by (simp add: LastCommonAncestor_def same_height_def deref_def)
  next
    case 2
    with GetAncestor_Some [OF assms(1,3), of "int (nHeight b)"] obtain q' c' where
      q': "GetAncestor H q (int (nHeight b)) = Inr (Some q')" "nth_prev H (nHeight c - nHeight b) q = Some q'"
        "H q' = Some c'" "nHeight c' = nHeight b" by auto
    from lca_loop_common [OF assms(1,2) q'(3) refl q'(4)] obtain r where
      r: "lca_loop H (Some p) (Some q') = Some (Inr (r, r))" "last_common H p q' r" by blast
    moreover have "last_common H q p r \<longleftrightarrow> last_common H q' p r"
      using 2 q'(2) by (intro last_common_lift [OF assms(1,3,2)]) simp_all
    ultimately show ?thesis using 2 q' assms(2,3) last_common_sym
      by (simp add: LastCommonAncestor_def same_height_def deref_def)
  next
    case 3
    with lca_loop_common [OF assms refl] assms(2,3) show ?thesis
      by (fastforce simp: LastCommonAncestor_def same_height_def deref_def)
  qed
qed

section \<open>The locator\<close>

definition hashes_ok :: "index_heap \<Rightarrow> bool" where
  "hashes_ok H \<longleftrightarrow> (\<forall>p b. H p = Some b \<longrightarrow> phashBlock b \<noteq> None)"

definition block_hash :: "index_heap \<Rightarrow> ptr option \<Rightarrow> uint256" where
  "block_hash H p = (case Option.bind p H of None \<Rightarrow> 0 | Some b \<Rightarrow> the (phashBlock b))"

text \<open>The heights a locator names, from height \<open>h\<close> on, when it already has \<open>n\<close> entries.\<close>

function locator_heights :: "nat \<Rightarrow> nat \<Rightarrow> nat \<Rightarrow> nat list" where
  "locator_heights h nStep n =
     (if h = 0 \<or> nStep = 0 then [h]
      else h # locator_heights (h - nStep) (if n + 1 > 10 then nStep * 2 else nStep) (n + 1))"
  by pat_completeness auto
termination
  by (relation "measure (\<lambda>(h, _, _). h)") auto

declare locator_heights.simps [simp del]

lemma locator_next_prev:
  assumes "tree_ok H" and "is_branch H C" and "hashes_ok H" and "H p = Some b" and "0 < nStep"
  shows "locator_next H C (int nStep) p =
    Inr (block_hash H (Some p), if nHeight b = 0 then None else nth_prev H (min nStep (nHeight b)) p)"
proof -
  from assms(3,4) obtain h where h: "phashBlock b = Some h" by (auto simp: hashes_ok_def)
  have bh: "block_hash H (Some p) = h" using assms(4) h by (simp add: block_hash_def)
  define height where "height = max (int (nHeight b) - int nStep) 0"
  have hn: "0 \<le> height" "height \<le> int (nHeight b)" "nHeight b - nat height = min nStep (nHeight b)"
    by (auto simp: height_def)
  note anc = GetAncestor_prev [OF assms(1,4), of height]
  have chain: "chain_at C height = nth_prev H (nHeight b - nat height) p" if "Some p \<in> set C"
  proof -
    from that obtain i where i: "i < length C" "C ! i = Some p" by (auto simp: in_set_conv_nth)
    with branch_downward [OF assms(1,2), of i]
    have d: "\<exists>c. H p = Some c \<and> nHeight c = i" and below: "\<forall>j\<le>i. C ! j = nth_prev H (i - j) p"
      unfolding downward_def by blast+
    from d assms(4) have "nHeight b = i" by simp
    with below hn i(1) show ?thesis by (simp add: chain_at_def nat_le_iff)
  qed
  show ?thesis
    using chain anc hn assms(4) h
    by (simp add: locator_next_def deref_def GetBlockHash_def bh Contains_iff [OF assms(1,2,4)] height_def [symmetric] Let_def)
qed

lemma locator_loop_heights:
  assumes "tree_ok H" and "is_branch H C" and "hashes_ok H"
  shows "H p = Some b \<Longrightarrow> 0 < nStep \<Longrightarrow>
    locator_loop H C (int nStep) (Some p) vHave = Some (Inr (vHave @
      map (\<lambda>h. block_hash H (nth_prev H (nHeight b - h) p)) (locator_heights (nHeight b) nStep (length vHave))))"
proof (induction "nHeight b" arbitrary: p b nStep vHave rule: less_induct)
  case (less b)
  note nx = locator_next_prev [OF assms less.prems]
  show ?case
  proof (cases "nHeight b = 0")
    case True
    then show ?thesis using nx
      by (subst locator_loop.simps, subst locator_heights.simps)
        (simp add: Let_def locator_loop.simps [of H C _ None])
  next
    case False
    define k where "k = min nStep (nHeight b)"
    have "k \<le> nHeight b" by (simp add: k_def)
    from prev_Some [OF assms(1) less.prems(1) this] obtain q c where
      q: "nth_prev H k p = Some q" "H q = Some c" "nHeight c = nHeight b - k" by blast
    have hc: "nHeight c = nHeight b - nStep" by (simp add: q(3) k_def)
    let ?step = "if length vHave + 1 > 10 then nStep * 2 else nStep"
    let ?v = "vHave @ [block_hash H (Some p)]"
    have "nHeight c < nHeight b" using False less.prems(2) q(3) by (simp add: k_def)
    from less.hyps [OF this q(2), of ?step ?v] less.prems(2)
    have IH: "locator_loop H C (int ?step) (Some q) ?v = Some (Inr (?v @
        map (\<lambda>h. block_hash H (nth_prev H (nHeight c - h) q)) (locator_heights (nHeight c) ?step (length ?v))))"
      by simp
    have le: "h \<le> n" if "h \<in> set (locator_heights n s z)" for h n s z
      using that
      by (induction n s z rule: locator_heights.induct)
        (subst (asm) (2) locator_heights.simps, auto split: if_splits)
    have same: "map (\<lambda>h. block_hash H (nth_prev H (nHeight c - h) q)) (locator_heights (nHeight c) s z) =
        map (\<lambda>h. block_hash H (nth_prev H (nHeight b - h) p)) (locator_heights (nHeight c) s z)" for s z
    proof (rule map_cong [OF refl])
      fix h
      assume "h \<in> set (locator_heights (nHeight c) s z)"
      then have "nHeight b - h = k + (nHeight c - h)" using le q(3) \<open>k \<le> nHeight b\<close> by fastforce
      then show "block_hash H (nth_prev H (nHeight c - h) q) = block_hash H (nth_prev H (nHeight b - h) p)"
        by (simp add: prev_add q(1))
    qed
    have "locator_loop H C (int nStep) (Some p) vHave = locator_loop H C (int ?step) (Some q) ?v"
      using nx False q(1) by (subst locator_loop.simps) (simp add: Let_def k_def [symmetric])
    moreover have "locator_heights (nHeight b) nStep (length vHave) =
        nHeight b # locator_heights (nHeight c) ?step (length ?v)"
      using False less.prems(2) by (subst locator_heights.simps) (simp add: hc)
    ultimately show ?thesis using IH same by simp
  qed
qed

lemma GetLocator_heights:
  assumes "tree_ok H" and "is_branch H C" and "hashes_ok H" and "H p = Some b"
  shows "GetLocator H C (Some p) = Some (Inr
    (map (\<lambda>h. block_hash H (nth_prev H (nHeight b - h) p)) (locator_heights (nHeight b) 1 0)))"
  using locator_loop_heights [OF assms, of 1 "[]"] by (simp add: GetLocator_def)

lemma locator_heights_last: "0 < s \<Longrightarrow> last (locator_heights h s z) = 0"
proof (induction h s z rule: locator_heights.induct)
  case (1 h s z)
  have "locator_heights x y w \<noteq> []" for x y w by (subst locator_heights.simps) simp
  with 1 show ?case by (subst locator_heights.simps) simp
qed

lemma locator_doubling:
  "10 \<le> z \<Longrightarrow> h + s \<le> s * 2 ^ k \<Longrightarrow> length (locator_heights h s z) \<le> k + 1"
proof (induction k arbitrary: h s z)
  case 0
  then show ?case by (subst locator_heights.simps) simp
next
  case (Suc k)
  show ?case
  proof (cases "h = 0 \<or> s = 0")
    case True
    then show ?thesis by (subst locator_heights.simps) simp
  next
    case False
    have "h - s + s * 2 \<le> s * 2 * 2 ^ k" using Suc.prems(2) False
      by (cases "s \<le> h") (auto simp: algebra_simps)
    with Suc.IH [of "z + 1" "h - s" "s * 2"] Suc.prems(1) False show ?thesis
      by (subst locator_heights.simps) simp
  qed
qed

lemma locator_linear: "h < 2 ^ k \<Longrightarrow> z \<le> 10 \<Longrightarrow> length (locator_heights h 1 z) \<le> k + 1 + (10 - z)"
proof (induction "10 - z" arbitrary: z h)
  case 0
  then show ?case using locator_doubling [of z h 1 k] by simp
next
  case (Suc d)
  show ?case
  proof (cases "h = 0")
    case True
    then show ?thesis by (subst locator_heights.simps) simp
  next
    case False
    have "length (locator_heights (h - 1) 1 (z + 1)) \<le> k + 1 + (10 - (z + 1))"
      using Suc.hyps(1) [of "z + 1" "h - 1"] Suc.hyps(2) Suc.prems by simp
    moreover have "z < 10" using Suc.hyps(2) by simp
    ultimately show ?thesis using False by (subst locator_heights.simps) simp
  qed
qed

text \<open>A locator is logarithmic in the height.\<close>

lemma GetLocator_length: "h < 2 ^ k \<Longrightarrow> length (locator_heights h 1 0) \<le> k + 11"
  using locator_linear [of h k 0] by simp

section \<open>Times\<close>

primrec prev_times :: "index_heap \<Rightarrow> nat \<Rightarrow> ptr option \<Rightarrow> int list" where
  "prev_times H 0 p = []"
| "prev_times H (Suc n) p = (case Option.bind p H of None \<Rightarrow> []
     | Some b \<Rightarrow> GetBlockTime b # prev_times H n (pprev b))"

lemma last_times_prev:
  assumes "tree_ok H" and "\<And>q. p = Some q \<Longrightarrow> H q \<noteq> None"
  shows "last_times H n p acc = Inr (rev (prev_times H n p) @ acc)"
  using assms(2)
proof (induction n arbitrary: p acc)
  case (Suc n)
  show ?case
  proof (cases p)
    case (Some q)
    with Suc.prems obtain b where b: "H q = Some b" by blast
    have "H r \<noteq> None" if "pprev b = Some r" for r using tree_prev [OF assms(1) b that] by auto
    from Suc.IH [OF this] show ?thesis using Some b by (simp add: deref_def)
  qed simp
qed simp

lemma GetMedianTimePast_prev:
  assumes "tree_ok H" and "H p = Some b"
  shows "GetMedianTimePast H p = Inr (let ts = sort (prev_times H nMedianTimeSpan (Some p)) in ts ! (length ts div 2))"
proof -
  have "sort (rev xs) = sort xs" for xs :: "int list" by (rule properties_for_sort) simp_all
  then show ?thesis using last_times_prev [OF assms(1), of "Some p"] assms(2)
    by (simp add: GetMedianTimePast_def Let_def)
qed

lemma sorted_nth_count:
  fixes s :: "int list"
  assumes "sorted s" and "i < length s"
  shows "m \<le> s ! i \<longleftrightarrow> length (filter (\<lambda>x. x < m) s) \<le> i"
proof
  assume m: "m \<le> s ! i"
  have "j < i" if "j < length s" "s ! j < m" for j
  proof (rule ccontr)
    assume "\<not> j < i"
    then have "s ! i \<le> s ! j" using assms(1) that(1) by (simp add: sorted_nth_mono)
    with m that(2) show False by simp
  qed
  then have "{j. j < length s \<and> s ! j < m} \<subseteq> {..<i}" by auto
  from card_mono [OF _ this] show "length (filter (\<lambda>x. x < m) s) \<le> i" by (simp add: length_filter_conv_card)
next
  assume le: "length (filter (\<lambda>x. x < m) s) \<le> i"
  show "m \<le> s ! i"
  proof (rule ccontr)
    assume "\<not> m \<le> s ! i"
    moreover have "s ! j \<le> s ! i" if "j \<le> i" for j using assms that by (simp add: sorted_nth_mono)
    ultimately have "{..i} \<subseteq> {j. j < length s \<and> s ! j < m}" using assms(2) by fastforce
    from card_mono [OF _ this] le show False by (simp add: length_filter_conv_card)
  qed
qed

lemma prev_times_take: "k \<le> n \<Longrightarrow> take k (prev_times H n p) = prev_times H k p"
proof (induction n arbitrary: k p)
  case (Suc n)
  then show ?case by (cases k) (auto split: option.splits)
qed simp

text \<open>A block whose time is not below the median of its predecessors does not lower the median.\<close>

lemma GetMedianTimePast_mono:
  assumes "tree_ok H" and "H p = Some b" and "pprev b = Some q"
    and "GetMedianTimePast H q = Inr m" and "m \<le> GetBlockTime b"
  shows "\<exists>m'. GetMedianTimePast H p = Inr m' \<and> m \<le> m'"
proof -
  from tree_prev [OF assms(1-3)] obtain c where c: "H q = Some c" by blast
  define xs where "xs = prev_times H 11 (Some q)"
  define ys where "ys = GetBlockTime b # take 10 xs"
  let ?low = "\<lambda>l. length (filter (\<lambda>x. x < m) l)"
  have sort_low: "?low (sort l) = ?low l" for l :: "int list"
    by (simp add: filter_sort)
  have ys: "prev_times H 11 (Some p) = ys"
    using assms(2,3) prev_times_take [of 10 11 H "Some q"]
    by (simp add: ys_def xs_def numeral_eq_Suc del: take_Suc_Cons)
  have ne: "xs \<noteq> []" using c by (simp add: xs_def numeral_eq_Suc)
  have lx: "length xs \<le> 11"
  proof -
    have "length (prev_times H n r) \<le> n" for n r by (induction n arbitrary: r) (auto split: option.splits)
    then show ?thesis by (simp add: xs_def)
  qed
  have mx: "m = sort xs ! (length xs div 2)"
    using assms(4) GetMedianTimePast_prev [OF assms(1) c] by (simp add: xs_def nMedianTimeSpan_def Let_def)
  have "length xs div 2 < length (sort xs)" using ne by (cases xs) auto
  from sorted_nth_count [OF sorted_sort this, of m] mx have "?low (sort xs) \<le> length xs div 2" by simp
  then have "?low xs \<le> length xs div 2" by (simp only: sort_low)
  moreover have "?low (take 10 xs) \<le> ?low xs"
    by (metis append_take_drop_id filter_append le_add1 length_append)
  moreover have "length xs div 2 \<le> length ys div 2" using lx by (auto simp: ys_def intro!: div_le_mono)
  ultimately have "?low ys \<le> length ys div 2" using assms(5) by (simp add: ys_def)
  moreover have "length ys div 2 < length (sort ys)" by (simp add: ys_def)
  ultimately have "m \<le> sort ys ! (length ys div 2)"
    using sorted_nth_count [OF sorted_sort, of "length ys div 2" ys m] by (simp add: sort_low)
  then show ?thesis
    using GetMedianTimePast_prev [OF assms(1,2)] by (simp add: ys nMedianTimeSpan_def Let_def)
qed

text \<open>\<open>lower_bound\<close> on a chain whose \<open>nTimeMax\<close> does not decrease.\<close>

definition time_max_at :: "index_heap \<Rightarrow> CChain \<Rightarrow> nat \<Rightarrow> int" where
  "time_max_at H C i = (case Option.bind (C ! i) H of None \<Rightarrow> 0 | Some b \<Rightarrow> GetBlockTimeMax b)"

lemma time_lower_bound_spec:
  assumes "\<And>i. i < length C \<Longrightarrow> Option.bind (C ! i) H \<noteq> None"
    and "\<And>i j. i \<le> j \<Longrightarrow> j < length C \<Longrightarrow> time_max_at H C i \<le> time_max_at H C j"
  shows "first + len \<le> length C \<Longrightarrow> \<exists>r. time_lower_bound H C t first len = Inr r \<and> first \<le> r \<and> r \<le> first + len \<and>
    (\<forall>i. first \<le> i \<and> i < r \<longrightarrow> time_max_at H C i < t) \<and>
    (\<forall>i. r \<le> i \<and> i < first + len \<longrightarrow> t \<le> time_max_at H C i)"
proof (induction len arbitrary: first rule: less_induct)
  case (less len)
  show ?case
  proof (cases "len = 0")
    case True
    then show ?thesis by (subst time_lower_bound.simps) auto
  next
    case False
    define half where "half = len div 2"
    have h: "half < len" using False by (simp add: half_def)
    have mid: "first + half < length C" using h less.prems by simp
    from assms(1) [OF mid] obtain p b where b: "C ! (first + half) = Some p" "H p = Some b" by (auto split: bind_split_asm)
    have tm: "time_max_at H C (first + half) = GetBlockTimeMax b" by (simp add: time_max_at_def b)
    show ?thesis
    proof (cases "GetBlockTimeMax b < t")
      case True
      have "len - half - 1 < len" "first + half + 1 + (len - half - 1) \<le> length C" using h less.prems by simp_all
      from less.IH [OF this] obtain r where r: "time_lower_bound H C t (first + half + 1) (len - half - 1) = Inr r"
        "first + half + 1 \<le> r" "r \<le> first + len"
        "\<forall>i. first + half + 1 \<le> i \<and> i < r \<longrightarrow> time_max_at H C i < t"
        "\<forall>i. r \<le> i \<and> i < first + len \<longrightarrow> t \<le> time_max_at H C i" using h by auto
      have "time_max_at H C i < t" if "first \<le> i" "i < r" for i
      proof (cases "first + half + 1 \<le> i")
        case False
        then have "time_max_at H C i \<le> time_max_at H C (first + half)" using mid by (intro assms(2)) simp_all
        then show ?thesis using True tm by simp
      qed (use r(4) that in blast)
      moreover have "time_lower_bound H C t first len = Inr r"
        using r(1) True False b by (subst time_lower_bound.simps) (simp add: half_def [symmetric] Let_def deref_def)
      ultimately show ?thesis using r by (intro exI [of _ r]) auto
    next
      case ge: False
      from less.IH [OF h, of first] h less.prems obtain r where r: "time_lower_bound H C t first half = Inr r"
        "first \<le> r" "r \<le> first + half" "\<forall>i. first \<le> i \<and> i < r \<longrightarrow> time_max_at H C i < t"
        "\<forall>i. r \<le> i \<and> i < first + half \<longrightarrow> t \<le> time_max_at H C i" by auto
      have "t \<le> time_max_at H C i" if "r \<le> i" "i < first + len" for i
      proof (cases "i < first + half")
        case False
        then have "time_max_at H C (first + half) \<le> time_max_at H C i" using that less.prems by (intro assms(2)) simp_all
        then show ?thesis using ge tm by simp
      qed (use r(5) that in blast)
      moreover have "time_lower_bound H C t first len = Inr r"
        using r(1) ge False b by (subst time_lower_bound.simps) (simp add: half_def [symmetric] Let_def deref_def)
      ultimately show ?thesis using r h by (intro exI [of _ r]) auto
    qed
  qed
qed

definition time_max_ok :: "index_heap \<Rightarrow> bool" where
  "time_max_ok H \<longleftrightarrow> (\<forall>p b q c. H p = Some b \<and> pprev b = Some q \<and> H q = Some c \<longrightarrow> nTimeMax c \<le> nTimeMax b)"

lemma branch_entries:
  assumes "tree_ok H" and "is_branch H C" and "i < length C"
  shows "\<exists>q c. C ! i = Some q \<and> H q = Some c \<and> nHeight c = i \<and> (0 < i \<longrightarrow> C ! (i - 1) = pprev c)"
proof -
  obtain p b where p: "H p = Some b" "C = branch H p (nHeight b)" using assms(2,3) by (auto simp: is_branch_def)
  have "nHeight b - i \<le> nHeight b" by simp
  from prev_Some [OF assms(1) p(1) this] p assms(3) obtain q c where q: "C ! i = Some q" "H q = Some c" "nHeight c = i"
    by (auto simp: branch_nth less_Suc_eq_le)
  have "C ! (i - 1) = pprev c" if "0 < i"
  proof -
    have "C ! (i - 1) = nth_prev H (i - (i - 1)) q"
      using branch_downward [OF assms(1,2), of i] q(1) assms(3) unfolding downward_def by (meson diff_le_self order_refl)
    also have "i - (i - 1) = Suc 0" using that by simp
    finally show ?thesis using q(2) by (cases "pprev c") simp_all
  qed
  then have "0 < i \<longrightarrow> C ! (i - 1) = pprev c" by blast
  with q show ?thesis by (intro exI conjI)
qed

lemma time_max_step:
  assumes "tree_ok H" and "is_branch H C" and "time_max_ok H"
  shows "j < length C \<Longrightarrow> i \<le> j \<Longrightarrow> time_max_at H C i \<le> time_max_at H C j"
proof (induction j)
  case (Suc j)
  from branch_entries [OF assms(1,2) Suc.prems(1)] obtain q c where
    q: "C ! Suc j = Some q" "H q = Some c" "C ! j = pprev c" by auto
  have "j < length C" using Suc.prems(1) by simp
  from branch_entries [OF assms(1,2) this] obtain r d where r: "C ! j = Some r" "H r = Some d" by blast
  have "nTimeMax d \<le> nTimeMax c" using assms(3) q r unfolding time_max_ok_def by metis
  then have "time_max_at H C j \<le> time_max_at H C (Suc j)"
    by (simp add: time_max_at_def q(1,2) r GetBlockTimeMax_def word_le_def)
  with Suc show ?case by (cases "i = Suc j") auto
qed simp

text \<open>The first block of the chain with \<open>nTimeMax\<close> at least \<open>t\<close>.\<close>

lemma FindEarliestAtLeast_first:
  assumes "tree_ok H" and "is_branch H C" and "time_max_ok H"
  shows "\<exists>r. FindEarliestAtLeast H C t = Inr (if r = length C then None else C ! r) \<and> r \<le> length C \<and>
    (\<forall>i<r. time_max_at H C i < t) \<and> (\<forall>i<length C. r \<le> i \<longrightarrow> t \<le> time_max_at H C i)"
proof -
  have "Option.bind (C ! i) H \<noteq> None" if "i < length C" for i
    using branch_entries [OF assms(1,2) that] by auto
  from time_lower_bound_spec [OF this time_max_step [OF assms], of 0 "length C" t] show ?thesis
    by (auto simp: FindEarliestAtLeast_def)
qed

section \<open>The work of a block\<close>

lemma compact_num_not_max: "compact_num c \<noteq> 2 ^ 256 - 1"
proof (cases "compact_exponent c \<le> 3")
  case True
  have "compact_mantissa c < 2 ^ 23" by (simp add: compact_mantissa_def)
  then have "compact_num c < 2 ^ 23" using True
    by (simp add: compact_num_def Let_def) (meson div_le_dividend order_le_less_trans)
  then show ?thesis by simp
next
  case False
  then obtain k where "compact_exponent c - 3 = Suc k" by (metis Suc_diff_Suc not_le_imp_less)
  then have "256 dvd compact_num c" using False by (simp add: compact_num_def Let_def)
  moreover have "\<not> 256 dvd (2 ^ 256 - 1 :: nat)" by simp
  ultimately show ?thesis by metis
qed

text \<open>The number of hashes that meet the target takes, on average.\<close>

lemma GetBlockProof_num:
  "\<exists>w. GetBlockProof c = Some w \<and> length w = WIDTH \<and>
    num w = (if (compact_num c \<noteq> 0 \<and> c AND 0x00800000 \<noteq> 0) \<or> 2 ^ 256 \<le> compact_num c \<or> compact_num c = 0
             then 0 else 2 ^ 256 div (compact_num c + 1))"
proof -
  obtain r neg over where sc: "SetCompact c = (r, neg, over)" by (cases "SetCompact c") auto
  note S = SetCompact_spec [OF sc]
  define bad where "bad \<longleftrightarrow> (compact_num c \<noteq> 0 \<and> c AND 0x00800000 \<noteq> 0) \<or> 2 ^ 256 \<le> compact_num c \<or> compact_num c = 0"
  have zero: "is_zero r \<longleftrightarrow> compact_num c = 0" if "\<not> over"
    using that S by (simp add: is_zero_num)
  have bad: "neg \<or> over \<or> is_zero r \<longleftrightarrow> bad" unfolding bad_def S(3) [symmetric] S(4) [symmetric]
    using zero by (cases over) simp_all
  have one: "num (arith_of_u64 1) = 1" "length (arith_of_u64 1) = WIDTH" and nul: "num (arith_of_u64 0) = 0" "length (arith_of_u64 0) = WIDTH"
    by (simp_all add: num_arith_of_u64)
  show ?thesis
  proof (cases bad)
    case True
    then show ?thesis using sc bad nul unfolding bad_def [symmetric] by (auto simp: GetBlockProof_def)
  next
    case False
    define M :: nat where "M = 2 ^ 256"
    define T where "T = compact_num c"
    have T: "T < M" "T \<noteq> 0" "T \<noteq> M - 1" using False compact_num_not_max [of c] unfolding bad_def T_def M_def by auto
    have W: "(2 :: nat) ^ (32 * WIDTH) = M" by (simp add: M_def WIDTH_def)
    have nr: "num r = T" using S(2) T(1) by (simp add: T_def M_def)
    have n1: "num (arith_add r (arith_of_u64 1)) = T + 1"
      using num_add [of r "arith_of_u64 1"] S(1) one T W nr by simp
    have n2: "num (arith_not r) = M - 1 - T" using num_not [of r] S(1) W nr by (simp add: arith_not_def)
    have l: "length (arith_not r) = WIDTH" "length (arith_add r (arith_of_u64 1)) = WIDTH"
      using S(1) one by (simp_all add: arith_not_def)
    from arith_div_num [of "arith_not r" "arith_add r (arith_of_u64 1)"] l n1 obtain q where
      q: "arith_div (arith_not r) (arith_add r (arith_of_u64 1)) = Some q" "length q = WIDTH"
        "num q = (M - 1 - T) div (T + 1)"
      by (auto simp: n2 split: option.splits)
    have "M = (M - 1 - T) + (T + 1)" using T by simp
    then have d: "M div (T + 1) = (M - 1 - T) div (T + 1) + 1"
      using div_add_self2 [of "T + 1" "M - 1 - T"] by simp
    have "M div (T + 1) \<le> M div 2" using T(2) by (intro div_le_mono2) auto
    also have "\<dots> < M" by (simp add: M_def)
    finally have "num (arith_add q (arith_of_u64 1)) = M div (T + 1)"
      using num_add [of q "arith_of_u64 1"] q one W d by simp
    then show ?thesis using sc bad False q one unfolding bad_def [symmetric]
      by (simp add: GetBlockProof_def T_def M_def)
  qed
qed

end
