(* ===== verification/DiskIndex.thy ===== *)
theory DiskIndex imports Chain
begin

unbundle bit_operations_syntax

text \<open>
  The records the block database stores: block positions, the statistics of a block file and the index
  entries (\<open>CDiskBlockPos\<close>, \<open>CBlockFileInfo\<close>, \<open>CDiskBlockIndex\<close> of \<^verbatim>\<open>src/src/chain.h\<close>), and the block
  locator of \<^verbatim>\<open>src/src/primitives/block.h\<close>.  Each is a codec; an index entry comes back without its
  memory-only fields, and with the hash its header has.
\<close>

section \<open>Signed numbers\<close>

text \<open>The variable-length form of an \<open>int\<close>.  A negative number satisfies \<open>n <= 0x7F\<close> at once, so only
  its low seven bits are written; the largest number a reader accepts is \<open>2 ^ 31 - 1\<close>, that of a
  word of 31 bits.\<close>

definition WriteVarInt_int :: "int \<Rightarrow> bytes" where
  "WriteVarInt_int n = (if n < 0 then [word_of_int (n AND 0x7F)] else WriteVarInt (word_of_int n :: 31 word))"

definition ReadVarInt_int :: "int reader" where
  "ReadVarInt_int s = bind_sum (ReadVarInt s) (\<lambda>(w :: 31 word, s). Inr (uint w, s))"

interpretation varint_int: codec WriteVarInt_int ReadVarInt_int "\<lambda>n. 0 \<le> n \<and> n < 2 ^ 31"
proof
  fix n :: int and s
  assume n: "0 \<le> n \<and> n < 2 ^ 31"
  then have "uint (word_of_int n :: 31 word) = n" by (simp add: uint_word_of_int)
  then show "ReadVarInt_int (WriteVarInt_int n @ s) = Inr (n, s)"
    using n by (simp add: ReadVarInt_int_def WriteVarInt_int_def ReadVarInt_WriteVarInt)
qed

text \<open>A negative number is not read back.\<close>

lemma WriteVarInt_negative: "n < 0 \<Longrightarrow> length (WriteVarInt_int n) = 1"
  by (simp add: WriteVarInt_int_def)

lemmas disk_codecs [codec_simps] = varint_int.unser_ser

section \<open>Positions and files\<close>

definition Serialize_CDiskBlockPos :: "CDiskBlockPos \<Rightarrow> bytes" where
  "Serialize_CDiskBlockPos pos = WriteVarInt_int (pos_nFile pos) @ WriteVarInt (pos_nPos pos)"

definition Unserialize_CDiskBlockPos :: "CDiskBlockPos reader" where
  "Unserialize_CDiskBlockPos s =
     bind_sum (ReadVarInt_int s) (\<lambda>(f, s). bind_sum (ReadVarInt s) (\<lambda>(p, s).
       Inr (\<lparr>pos_nFile = f, pos_nPos = p\<rparr>, s)))"

interpretation disk_pos: codec Serialize_CDiskBlockPos Unserialize_CDiskBlockPos
  "\<lambda>pos. 0 \<le> pos_nFile pos \<and> pos_nFile pos < 2 ^ 31"
  by unfold_locales (simp add: Serialize_CDiskBlockPos_def Unserialize_CDiskBlockPos_def codec_simps)

record CBlockFileInfo =
  nBlocks :: u32
  fi_nSize :: u32
  nUndoSize :: u32
  nHeightFirst :: u32
  nHeightLast :: u32
  nTimeFirst :: u64
  nTimeLast :: u64

definition CBlockFileInfo_null :: CBlockFileInfo where
  "CBlockFileInfo_null = \<lparr>nBlocks = 0, fi_nSize = 0, nUndoSize = 0, nHeightFirst = 0, nHeightLast = 0,
     nTimeFirst = 0, nTimeLast = 0\<rparr>"

definition AddBlock :: "CBlockFileInfo \<Rightarrow> u32 \<Rightarrow> u64 \<Rightarrow> CBlockFileInfo" where
  "AddBlock f nHeightIn nTimeIn =
     (let f = (if nBlocks f = 0 \<or> nHeightIn < nHeightFirst f then f\<lparr>nHeightFirst := nHeightIn\<rparr> else f);
          f = (if nBlocks f = 0 \<or> nTimeIn < nTimeFirst f then f\<lparr>nTimeFirst := nTimeIn\<rparr> else f);
          f = f\<lparr>nBlocks := nBlocks f + 1\<rparr>;
          f = (if nHeightLast f < nHeightIn then f\<lparr>nHeightLast := nHeightIn\<rparr> else f)
      in if nTimeLast f < nTimeIn then f\<lparr>nTimeLast := nTimeIn\<rparr> else f)"

definition Serialize_CBlockFileInfo :: "CBlockFileInfo \<Rightarrow> bytes" where
  "Serialize_CBlockFileInfo f =
     WriteVarInt (nBlocks f) @ WriteVarInt (fi_nSize f) @ WriteVarInt (nUndoSize f) @ WriteVarInt (nHeightFirst f) @
     WriteVarInt (nHeightLast f) @ WriteVarInt (nTimeFirst f) @ WriteVarInt (nTimeLast f)"

definition Unserialize_CBlockFileInfo :: "CBlockFileInfo reader" where
  "Unserialize_CBlockFileInfo s =
     bind_sum (ReadVarInt s) (\<lambda>(b, s). bind_sum (ReadVarInt s) (\<lambda>(z, s). bind_sum (ReadVarInt s) (\<lambda>(u, s).
     bind_sum (ReadVarInt s) (\<lambda>(hf, s). bind_sum (ReadVarInt s) (\<lambda>(hl, s). bind_sum (ReadVarInt s) (\<lambda>(tf, s).
     bind_sum (ReadVarInt s) (\<lambda>(tl, s).
       Inr (\<lparr>nBlocks = b, fi_nSize = z, nUndoSize = u, nHeightFirst = hf, nHeightLast = hl, nTimeFirst = tf,
         nTimeLast = tl\<rparr>, s))))))))"

interpretation file_info: codec Serialize_CBlockFileInfo Unserialize_CBlockFileInfo "\<lambda>_. True"
  by unfold_locales (simp add: Serialize_CBlockFileInfo_def Unserialize_CBlockFileInfo_def codec_simps)

text \<open>The statistics of a file: the extremes of the heights and times of its blocks.\<close>

definition AddBlocks :: "(u32 \<times> u64) list \<Rightarrow> CBlockFileInfo" where
  "AddBlocks bs = fold (\<lambda>(h, t) f. AddBlock f h t) bs CBlockFileInfo_null"

lemma AddBlocks_snoc: "AddBlocks (bs @ [(h, t)]) = AddBlock (AddBlocks bs) h t"
  by (simp add: AddBlocks_def)

lemma AddBlock_fields:
  "nBlocks (AddBlock f h t) = nBlocks f + 1"
  "nHeightFirst (AddBlock f h t) = (if nBlocks f = 0 then h else min h (nHeightFirst f))"
  "nTimeFirst (AddBlock f h t) = (if nBlocks f = 0 then t else min t (nTimeFirst f))"
  "nHeightLast (AddBlock f h t) = max h (nHeightLast f)"
  "nTimeLast (AddBlock f h t) = max t (nTimeLast f)"
  "fi_nSize (AddBlock f h t) = fi_nSize f"
  by (auto simp: AddBlock_def Let_def min_def max_def)

lemma AddBlocks_stats:
  assumes "bs \<noteq> []" and "length bs < 2 ^ 32"
  shows "unat (nBlocks (AddBlocks bs)) = length bs"
    and "nHeightFirst (AddBlocks bs) = Min (fst ` set bs) \<and> nHeightLast (AddBlocks bs) = Max (fst ` set bs)"
    and "nTimeFirst (AddBlocks bs) = Min (snd ` set bs) \<and> nTimeLast (AddBlocks bs) = Max (snd ` set bs)"
proof -
  have "bs \<noteq> [] \<and> length bs < 2 ^ 32 \<longrightarrow> nBlocks (AddBlocks bs) = of_nat (length bs) \<and>
    nHeightFirst (AddBlocks bs) = Min (fst ` set bs) \<and> nHeightLast (AddBlocks bs) = Max (fst ` set bs) \<and>
    nTimeFirst (AddBlocks bs) = Min (snd ` set bs) \<and> nTimeLast (AddBlocks bs) = Max (snd ` set bs)"
  proof (induction bs rule: rev_induct)
    case (snoc x bs)
    obtain h t where x: "x = (h, t)" by (cases x)
    show ?case
    proof (cases "bs = []")
      case True
      have "max w 0 = w" for w :: "'a::len word" by (simp add: max_def)
      then show ?thesis using True by (simp add: x AddBlocks_def AddBlock_fields CBlockFileInfo_null_def)
    next
      case False
      show ?thesis
      proof (intro impI)
        assume l: "bs @ [x] \<noteq> [] \<and> length (bs @ [x]) < 2 ^ 32"
        then have IH: "nBlocks (AddBlocks bs) = of_nat (length bs) \<and>
            nHeightFirst (AddBlocks bs) = Min (fst ` set bs) \<and> nHeightLast (AddBlocks bs) = Max (fst ` set bs) \<and>
            nTimeFirst (AddBlocks bs) = Min (snd ` set bs) \<and> nTimeLast (AddBlocks bs) = Max (snd ` set bs)"
          using snoc False by simp
        have "unat (of_nat (length bs) :: u32) = length bs"
          using l by (simp add: unsigned_of_nat take_bit_nat_eq_self)
        then have "nBlocks (AddBlocks bs) \<noteq> 0" using IH False by (metis length_0_conv unsigned_0)
        then show "nBlocks (AddBlocks (bs @ [x])) = of_nat (length (bs @ [x])) \<and>
            nHeightFirst (AddBlocks (bs @ [x])) = Min (fst ` set (bs @ [x])) \<and>
            nHeightLast (AddBlocks (bs @ [x])) = Max (fst ` set (bs @ [x])) \<and>
            nTimeFirst (AddBlocks (bs @ [x])) = Min (snd ` set (bs @ [x])) \<and>
            nTimeLast (AddBlocks (bs @ [x])) = Max (snd ` set (bs @ [x]))"
          using IH False by (simp add: x AddBlocks_snoc AddBlock_fields)
      qed
    qed
  qed simp
  with assms have all: "nBlocks (AddBlocks bs) = of_nat (length bs) \<and>
    nHeightFirst (AddBlocks bs) = Min (fst ` set bs) \<and> nHeightLast (AddBlocks bs) = Max (fst ` set bs) \<and>
    nTimeFirst (AddBlocks bs) = Min (snd ` set bs) \<and> nTimeLast (AddBlocks bs) = Max (snd ` set bs)" by blast
  then show "unat (nBlocks (AddBlocks bs)) = length bs"
    using assms(2) by (simp add: unsigned_of_nat take_bit_nat_eq_self)
  from all show "nHeightFirst (AddBlocks bs) = Min (fst ` set bs) \<and> nHeightLast (AddBlocks bs) = Max (fst ` set bs)"
    and "nTimeFirst (AddBlocks bs) = Min (snd ` set bs) \<and> nTimeLast (AddBlocks bs) = Max (snd ` set bs)" by simp_all
qed

section \<open>Index entries\<close>

record CDiskBlockIndex = CBlockIndex +
  hashPrev :: uint256

definition CDiskBlockIndex_of :: "index_heap \<Rightarrow> CBlockIndex \<Rightarrow> chain_fault + CDiskBlockIndex" where
  "CDiskBlockIndex_of H b =
     bind_sum (case pprev b of None \<Rightarrow> Inr 0 | Some q \<Rightarrow> bind_sum (deref H q) GetBlockHash) (\<lambda>prev.
       Inr (CBlockIndex.extend b (CDiskBlockIndex.fields prev)))"

definition has_status :: "u32 \<Rightarrow> u32 \<Rightarrow> bool" where
  "has_status st m \<longleftrightarrow> st AND m \<noteq> 0"

text \<open>The disk form; \<open>version\<close> is the version of the stream.\<close>

definition Serialize_CDiskBlockIndex :: "int \<Rightarrow> CDiskBlockIndex \<Rightarrow> bytes" where
  "Serialize_CDiskBlockIndex version b =
     WriteVarInt_int version @ WriteVarInt_int (int (nHeight b)) @ WriteVarInt (nStatus b) @ WriteVarInt (nTx b) @
     (if has_status (nStatus b) (BLOCK_HAVE_DATA OR BLOCK_HAVE_UNDO) then WriteVarInt_int (nFile b) else []) @
     (if has_status (nStatus b) BLOCK_HAVE_DATA then WriteVarInt (nDataPos b) else []) @
     (if has_status (nStatus b) BLOCK_HAVE_UNDO then WriteVarInt (nUndoPos b) else []) @
     ser_writedata32 (bi_nVersion b) @ Serialize_uint256 (hashPrev b) @ Serialize_uint256 (bi_hashMerkleRoot b) @
     ser_writedata32 (bi_nTime b) @ ser_writedata32 (bi_nBits b) @ Serialize_uint256 (bi_nNonce b) @
     Serialize_bytes (bi_nSolution b)"

definition read_if :: "bool \<Rightarrow> 'a \<Rightarrow> 'a reader \<Rightarrow> 'a reader" where
  "read_if c d rd s = (if c then rd s else Inr (d, s))"

text \<open>The fields that are not read keep the values of the null entry.\<close>

definition Unserialize_CDiskBlockIndex :: "CDiskBlockIndex reader" where
  "Unserialize_CDiskBlockIndex s =
     bind_sum (ReadVarInt_int s) (\<lambda>(_, s). bind_sum (ReadVarInt_int s) (\<lambda>(height, s).
     bind_sum (ReadVarInt s) (\<lambda>(st, s). bind_sum (ReadVarInt s) (\<lambda>(tx, s).
     bind_sum (read_if (has_status st (BLOCK_HAVE_DATA OR BLOCK_HAVE_UNDO)) 0 ReadVarInt_int s) (\<lambda>(file, s).
     bind_sum (read_if (has_status st BLOCK_HAVE_DATA) 0 ReadVarInt s) (\<lambda>(dpos, s).
     bind_sum (read_if (has_status st BLOCK_HAVE_UNDO) 0 ReadVarInt s) (\<lambda>(upos, s).
     bind_sum (ser_readdata32 s) (\<lambda>(ver, s). bind_sum (Unserialize_uint256 s) (\<lambda>(prev, s).
     bind_sum (Unserialize_uint256 s) (\<lambda>(merkle, s). bind_sum (ser_readdata32 s) (\<lambda>(tm, s).
     bind_sum (ser_readdata32 s) (\<lambda>(bits, s). bind_sum (Unserialize_uint256 s) (\<lambda>(nonce, s).
     bind_sum (Unserialize_bytes s) (\<lambda>(sol, s).
       Inr (\<lparr>phashBlock = None, pprev = None, pskip = None, nHeight = nat height, nFile = file, nDataPos = dpos,
         nUndoPos = upos, nChainWork = replicate WIDTH 0, nTx = tx, nChainTx = 0, nStatus = st,
         bi_nVersion = ver, bi_hashMerkleRoot = merkle, bi_nTime = tm, bi_nBits = bits, bi_nNonce = nonce,
         bi_nSolution = sol, nSequenceId = 0, nTimeMax = 0, hashPrev = prev\<rparr>, s)))))))))))))))"

definition disk_header :: "CDiskBlockIndex \<Rightarrow> CBlockHeader" where
  "disk_header b = \<lparr>bh_nVersion = bi_nVersion b, hashPrevBlock = hashPrev b, hashMerkleRoot = bi_hashMerkleRoot b,
     nTime = bi_nTime b, nBits = bi_nBits b, nNonce = bi_nNonce b, nSolution = bi_nSolution b\<rparr>"

definition disk_GetBlockHash :: "(bytes \<Rightarrow> bytes) \<Rightarrow> CDiskBlockIndex \<Rightarrow> uint256" where
  "disk_GetBlockHash h b = BlockHeader_GetHash h (disk_header b)"

text \<open>The part of an entry that is on disk.\<close>

definition disk_part :: "CDiskBlockIndex \<Rightarrow> CDiskBlockIndex" where
  "disk_part b = b\<lparr>phashBlock := None, pprev := None, pskip := None,
     nFile := (if has_status (nStatus b) (BLOCK_HAVE_DATA OR BLOCK_HAVE_UNDO) then nFile b else 0),
     nDataPos := (if has_status (nStatus b) BLOCK_HAVE_DATA then nDataPos b else 0),
     nUndoPos := (if has_status (nStatus b) BLOCK_HAVE_UNDO then nUndoPos b else 0),
     nChainWork := replicate WIDTH 0, nChainTx := 0, nSequenceId := 0, nTimeMax := 0\<rparr>"

definition disk_entry_ok :: "CDiskBlockIndex \<Rightarrow> bool" where
  "disk_entry_ok b \<longleftrightarrow> nHeight b < 2 ^ 31 \<and> fits_size (bi_nSolution b) \<and>
     (has_status (nStatus b) (BLOCK_HAVE_DATA OR BLOCK_HAVE_UNDO) \<longrightarrow> 0 \<le> nFile b \<and> nFile b < 2 ^ 31)"

lemma read_if_ser:
  "(c \<Longrightarrow> rd (ser @ t) = Inr (v, t)) \<Longrightarrow>
   read_if c d rd ((if c then ser else []) @ t) = Inr (if c then v else d, t)"
  by (simp add: read_if_def)

lemma disk_entry_round_trip:
  assumes "disk_entry_ok b" and "0 \<le> version" and "version < 2 ^ 31"
  shows "Unserialize_CDiskBlockIndex (Serialize_CDiskBlockIndex version b @ s) = Inr (disk_part b, s)"
proof -
  have h: "int (nHeight b) < 2 ^ 31" using assms(1) by (simp add: disk_entry_ok_def)
  note o1 = read_if_ser [where rd = ReadVarInt_int] and o2 = read_if_ser [where rd = "ReadVarInt :: u32 reader"]
  show ?thesis
    using assms h
    unfolding Serialize_CDiskBlockIndex_def Unserialize_CDiskBlockIndex_def append_assoc
    by (simp add: codec_simps disk_entry_ok_def disk_part_def o1 [where ser = "WriteVarInt_int (nFile b)" and v = "nFile b"]
      o2 [where ser = "WriteVarInt (nDataPos b)" and v = "nDataPos b"]
      o2 [where ser = "WriteVarInt (nUndoPos b)" and v = "nUndoPos b"])
qed

text \<open>Its hash is that of the header the entry was made from.\<close>

lemma disk_hash_part: "disk_GetBlockHash h (disk_part b) = disk_GetBlockHash h b"
  by (simp add: disk_GetBlockHash_def disk_header_def disk_part_def)

lemma disk_header_of:
  assumes "CDiskBlockIndex_of H b = Inr d"
  shows "index_GetBlockHeader H b = Inr (disk_header d)"
  using assms
  by (auto simp: CDiskBlockIndex_of_def index_GetBlockHeader_def disk_header_def CBlockIndex.defs CDiskBlockIndex.defs
    split: sum.splits)

section \<open>The locator\<close>

definition Serialize_CBlockLocator :: "u32 \<Rightarrow> uint256 list \<Rightarrow> bytes" where
  "Serialize_CBlockLocator version vHave = ser_writedata32 version @ Serialize_vector Serialize_uint256 vHave"

definition Unserialize_CBlockLocator :: "uint256 list reader" where
  "Unserialize_CBlockLocator s =
     bind_sum (ser_readdata32 s) (\<lambda>(_, s). Unserialize_vector Unserialize_uint256 32 s)"

interpretation locator: codec "Serialize_CBlockLocator version" Unserialize_CBlockLocator "fits_size" for version
  by unfold_locales
    (simp add: Serialize_CBlockLocator_def Unserialize_CBlockLocator_def codec_simps hashes.vector_unser_ser list_all_iff)

end
