(* ===== verification/Compressor.thy ===== *)
theory Compressor imports Coins DiskIndex
begin

unbundle bit_operations_syntax

text \<open>
  The compact form of outputs in the coin database and in the undo data: amounts and scripts
  (\<^verbatim>\<open>src/src/compressor.h\<close>, \<^verbatim>\<open>src/src/compressor.cpp\<close>), coins (\<^verbatim>\<open>src/src/coins.h\<close>) and undo records
  (\<^verbatim>\<open>src/src/undo.h\<close>).  Each form is read back: what the node keeps of an output on disk is the output.
\<close>

section \<open>Amounts\<close>

text \<open>The decimal zeros of an amount, at most nine.\<close>

function strip_zeros :: "u64 \<Rightarrow> nat \<Rightarrow> u64 \<times> nat" where
  "strip_zeros n e = (if n mod 10 = 0 \<and> e < 9 then strip_zeros (n div 10) (e + 1) else (n, e))"
  by pat_completeness auto
termination
  by (relation "measure (\<lambda>(n, e). 9 - e)") auto

declare strip_zeros.simps [simp del]

definition CompressAmount :: "u64 \<Rightarrow> u64" where
  "CompressAmount n =
     (if n = 0 then 0
      else let (n, e) = strip_zeros n 0 in
        if e < 9 then let d = n mod 10; n = n div 10 in 1 + (n * 9 + d - 1) * 10 + of_nat e
        else 1 + (n - 1) * 10 + 9)"

primrec times_ten :: "nat \<Rightarrow> u64 \<Rightarrow> u64" where
  "times_ten 0 n = n"
| "times_ten (Suc e) n = times_ten e (n * 10)"

definition DecompressAmount :: "u64 \<Rightarrow> u64" where
  "DecompressAmount x =
     (if x = 0 then 0
      else let x = x - 1; e = x mod 10; x = x div 10 in
        times_ten (unat e) (if e < 9 then let d = x mod 9 + 1; x = x div 9 in x * 10 + d else x + 1))"

section \<open>Scripts\<close>

definition IsToKeyID :: "script \<Rightarrow> bytes option" where
  "IsToKeyID s =
     (if length s = 25 \<and> s ! 0 = OP_DUP \<and> s ! 1 = OP_HASH160 \<and> s ! 2 = 20 \<and> s ! 23 = OP_EQUALVERIFY \<and>
         s ! 24 = OP_CHECKSIG then Some (take 20 (drop 3 s)) else None)"

definition IsToScriptID :: "script \<Rightarrow> bytes option" where
  "IsToScriptID s =
     (if length s = 23 \<and> s ! 0 = OP_HASH160 \<and> s ! 1 = 20 \<and> s ! 22 = OP_EQUAL then Some (take 20 (drop 2 s)) else None)"

definition PUBKEY_SIZE :: nat where "PUBKEY_SIZE = 32"

definition IsToPubKey :: "script \<Rightarrow> bytes option" where
  "IsToPubKey s =
     (if length s = PUBKEY_SIZE + 2 \<and> s ! 0 = of_nat PUBKEY_SIZE \<and> s ! (PUBKEY_SIZE + 1) = OP_CHECKSIG
      then Some (take PUBKEY_SIZE (drop 1 s)) else None)"

definition Compress :: "script \<Rightarrow> bytes option" where
  "Compress s =
     (case IsToKeyID s of Some keyID \<Rightarrow> Some (0 # keyID)
      | None \<Rightarrow>
        (case IsToScriptID s of Some scriptID \<Rightarrow> Some (1 # scriptID)
         | None \<Rightarrow> (case IsToPubKey s of Some pubkey \<Rightarrow> Some (2 # pubkey) | None \<Rightarrow> None)))"

definition GetSpecialSize :: "nat \<Rightarrow> nat" where
  "GetSpecialSize nSize = (if nSize = 0 \<or> nSize = 1 then 20 else if nSize = 2 then PUBKEY_SIZE else 0)"

text \<open>\<open>None\<close>: the script is left as it was.\<close>

definition Decompress :: "nat \<Rightarrow> bytes \<Rightarrow> script option" where
  "Decompress nSize vch =
     (if nSize = 0 then Some ([OP_DUP, OP_HASH160, 20] @ take 20 vch @ [OP_EQUALVERIFY, OP_CHECKSIG])
      else if nSize = 1 then Some ([OP_HASH160, 20] @ take 20 vch @ [OP_EQUAL])
      else if nSize = 2 then Some ([of_nat PUBKEY_SIZE] @ take PUBKEY_SIZE vch @ [OP_CHECKSIG])
      else None)"

definition nSpecialScripts :: nat where "nSpecialScripts = 6"

definition Serialize_CScriptCompressor :: "script \<Rightarrow> bytes" where
  "Serialize_CScriptCompressor s =
     (case Compress s of Some compr \<Rightarrow> compr
      | None \<Rightarrow> WriteVarInt (of_nat (length s + nSpecialScripts) :: u32) @ s)"

text \<open>The argument is the script the reader finds in the object it fills.\<close>

definition Unserialize_CScriptCompressor :: "script \<Rightarrow> script reader" where
  "Unserialize_CScriptCompressor old s =
     bind_sum (ReadVarInt s) (\<lambda>(n :: u32, s).
       let nSize = unat n in
       if nSize < nSpecialScripts then
         bind_sum (stream_read (GetSpecialSize nSize) s) (\<lambda>(vch, s).
           Inr (case Decompress nSize vch of Some sc \<Rightarrow> sc | None \<Rightarrow> old, s))
       else let nSize = nSize - nSpecialScripts in
         if MAX_SCRIPT_SIZE < nSize then
           bind_sum (stream_ignore nSize s) (\<lambda>(_, s). Inr (old @ [OP_RETURN], s))
         else stream_read nSize s)"

section \<open>Outputs, coins and undo records\<close>

definition Serialize_CTxOutCompressor :: "CTxOut \<Rightarrow> bytes" where
  "Serialize_CTxOutCompressor out =
     WriteVarInt (CompressAmount (word_of_int (nValue out))) @ Serialize_CScriptCompressor (scriptPubKey out)"

definition Unserialize_CTxOutCompressor :: "CTxOut \<Rightarrow> CTxOut reader" where
  "Unserialize_CTxOutCompressor old s =
     bind_sum (ReadVarInt s) (\<lambda>(nVal :: u64, s).
     bind_sum (Unserialize_CScriptCompressor (scriptPubKey old) s) (\<lambda>(sc, s).
       Inr (\<lparr>nValue = sint (DecompressAmount nVal), scriptPubKey = sc\<rparr>, s)))"

text \<open>\<open>None\<close>: the assertion that the coin is not spent.\<close>

definition coin_code :: "Coin \<Rightarrow> u32" where
  "coin_code c = ucast (coin_nHeight c) * 2 + (if coin_fCoinBase c then 1 else 0)"

definition Serialize_Coin :: "Coin \<Rightarrow> bytes option" where
  "Serialize_Coin c = (if IsSpent c then None else Some (WriteVarInt (coin_code c) @ Serialize_CTxOutCompressor (coin_out c)))"

definition Unserialize_Coin :: "Coin reader" where
  "Unserialize_Coin s =
     bind_sum (ReadVarInt s) (\<lambda>(code :: u32, s).
     bind_sum (Unserialize_CTxOutCompressor CTxOut_null s) (\<lambda>(out, s).
       Inr (\<lparr>coin_out = out, coin_fCoinBase = bit code 0, coin_nHeight = ucast (drop_bit 1 code)\<rparr>, s)))"

definition Serialize_TxInUndo :: "Coin \<Rightarrow> bytes" where
  "Serialize_TxInUndo c =
     WriteVarInt (coin_code c) @ (if 0 < coin_nHeight c then ser_writedata8 0 else []) @
     Serialize_CTxOutCompressor (coin_out c)"

definition Unserialize_TxInUndo :: "Coin reader" where
  "Unserialize_TxInUndo s =
     bind_sum (ReadVarInt s) (\<lambda>(nCode :: u32, s).
     bind_sum (if 0 < nCode div 2 then ReadVarInt_int s else Inr (0, s)) (\<lambda>(_, s).
     bind_sum (Unserialize_CTxOutCompressor CTxOut_null s) (\<lambda>(out, s).
       Inr (\<lparr>coin_out = out, coin_fCoinBase = bit nCode 0, coin_nHeight = ucast (nCode div 2)\<rparr>, s))))"

text \<open>An empty input is 41 bytes long.\<close>

definition MIN_TRANSACTION_INPUT_WEIGHT :: nat where
  "MIN_TRANSACTION_INPUT_WEIGHT = WITNESS_SCALE_FACTOR *
     length (Serialize_CTxIn \<lparr>prevout = COutPoint_null, scriptSig = [], nSequence = SEQUENCE_FINAL, scriptWitness = []\<rparr>)"

definition MAX_INPUTS_PER_BLOCK :: nat where
  "MAX_INPUTS_PER_BLOCK = MAX_BLOCK_WEIGHT div MIN_TRANSACTION_INPUT_WEIGHT"

definition Serialize_CTxUndo :: "Coin list \<Rightarrow> bytes" where
  "Serialize_CTxUndo vprevout = WriteCompactSize (of_nat (length vprevout)) @ concat (map Serialize_TxInUndo vprevout)"

definition Unserialize_CTxUndo :: "Coin list reader" where
  "Unserialize_CTxUndo s =
     bind_sum (ReadCompactSize s) (\<lambda>(count, s).
       if MAX_INPUTS_PER_BLOCK < unat count then Inl SizeTooLarge
       else read_n Unserialize_TxInUndo (unat count) s)"

text \<open>The elements of the vector are vectors themselves, of three pointers.\<close>

definition sizeof_CTxUndo :: nat where "sizeof_CTxUndo = 24"

definition Serialize_CBlockUndo :: "Coin list list \<Rightarrow> bytes" where
  "Serialize_CBlockUndo vtxundo = Serialize_vector Serialize_CTxUndo vtxundo"

definition Unserialize_CBlockUndo :: "Coin list list reader" where
  "Unserialize_CBlockUndo = Unserialize_vector Unserialize_CTxUndo sizeof_CTxUndo"

section \<open>Amounts are read back\<close>

lemma strip_zeros_num:
  "strip_zeros n e = (m, f) \<Longrightarrow> n \<noteq> 0 \<Longrightarrow> e \<le> 9 \<Longrightarrow>
   e \<le> f \<and> f \<le> 9 \<and> unat n = unat m * 10 ^ (f - e) \<and> m \<noteq> 0 \<and> (f < 9 \<longrightarrow> unat m mod 10 \<noteq> 0)"
proof (induction n e rule: strip_zeros.induct)
  case (1 n e)
  have um: "unat (n mod 10) = unat n mod 10" "unat (n div 10) = unat n div 10"
    by (simp_all add: unat_mod unat_div)
  show ?case
  proof (cases "n mod 10 = 0 \<and> e < 9")
    case False
    then have "m = n" "f = e" using 1(2) by (auto simp: strip_zeros.simps [of n e] split: if_splits)
    then show ?thesis using False 1(3,4) um by (auto simp: unat_eq_0 [symmetric])
  next
    case True
    then have s: "strip_zeros (n div 10) (e + 1) = (m, f)" using 1(2) by (simp add: strip_zeros.simps [of n])
    have m0: "unat n mod 10 = 0" using um(1) True by simp
    then have n10: "unat n = unat (n div 10) * 10" using um(2) by presburger
    then have "n div 10 \<noteq> 0" using 1(3) by (metis mult_0 unat_eq_0 unsigned_0)
    with 1(1) [OF True s] True have IH: "e + 1 \<le> f" "f \<le> 9" "unat (n div 10) = unat m * 10 ^ (f - (e + 1))" "m \<noteq> 0"
      "f < 9 \<longrightarrow> unat m mod 10 \<noteq> 0" by simp_all
    have "f - e = Suc (f - (e + 1))" using IH(1) by simp
    then have "unat n = unat m * 10 ^ (f - e)" using n10 IH(3) by simp
    with IH show ?thesis by simp
  qed
qed

lemma times_ten_num: "unat n * 10 ^ e < 2 ^ 64 \<Longrightarrow> unat (times_ten e n) = unat n * 10 ^ e"
proof (induction e arbitrary: n)
  case (Suc e)
  have "unat n * 10 \<le> unat n * 10 ^ Suc e" by (rule mult_le_mono2) simp
  then have "unat n * 10 < 2 ^ 64" using Suc.prems by (rule le_less_trans)
  then have "unat (n * 10) = unat n * 10" by (simp add: unat_word_ariths)
  then show ?case using Suc by (simp add: mult.assoc)
qed simp

lemma unat_u64_arith:
  "unat (a :: u64) + unat b < 2 ^ 64 \<Longrightarrow> unat (a + b) = unat a + unat b"
  "unat a * unat b < 2 ^ 64 \<Longrightarrow> unat (a * b) = unat a * unat b"
  by (simp_all add: unat_word_ariths)

text \<open>The number of an amount, and back.\<close>

lemma CompressAmount_num:
  assumes n: "unat n < 2 ^ 60" "n \<noteq> 0" and s: "strip_zeros n 0 = (m, e)"
  shows "unat (CompressAmount n) =
    (if e < 9 then 1 + (9 * (unat m div 10) + unat m mod 10 - 1) * 10 + e else 1 + (unat m - 1) * 10 + 9)"
proof -
  from strip_zeros_num [OF s n(2)] have z: "e \<le> 9" "unat n = unat m * 10 ^ e" "m \<noteq> 0"
    "e < 9 \<Longrightarrow> unat m mod 10 \<noteq> 0" by simp_all
  have "unat m \<le> unat n" unfolding z(2) by simp
  then have ml: "unat m < 2 ^ 60" using n(1) by (rule le_less_trans)
  have e: "unat (of_nat e :: u64) = e" using z(1) by (simp add: unat_of_nat)
  show ?thesis
  proof (cases "e < 9")
    case True
    define q d where "q = m div 10" and "d = m mod 10"
    have qd: "unat q = unat m div 10" "unat d = unat m mod 10" by (simp_all add: q_def d_def unat_div unat_mod)
    have d: "0 < unat d" "unat d < 10" and q: "unat q < 2 ^ 57"
      using z(4) True qd ml by simp_all
    have 1: "unat (q * 9) = unat q * 9" using q by (subst unat_u64_arith) simp_all
    have 2: "unat (q * 9 + d) = unat q * 9 + unat d" using q d 1 by (subst unat_u64_arith) simp_all
    have "q * 9 + d \<noteq> 0" using 2 d(1) by auto
    then have 3: "unat (q * 9 + d - 1) = unat q * 9 + unat d - 1" using 2 by (simp add: unat_minus_one)
    have 4: "unat ((q * 9 + d - 1) * 10) = (unat q * 9 + unat d - 1) * 10"
      using q d 3 by (subst unat_u64_arith) simp_all
    have 5: "unat (1 + (q * 9 + d - 1) * 10) = 1 + (unat q * 9 + unat d - 1) * 10"
      using q d 4 by (subst unat_u64_arith) simp_all
    have "unat (1 + (q * 9 + d - 1) * 10 + of_nat e) = 1 + (unat q * 9 + unat d - 1) * 10 + e"
      using q d 5 e True by (subst unat_u64_arith) simp_all
    then show ?thesis using n(2) s True by (simp add: CompressAmount_def Let_def q_def [symmetric] d_def [symmetric] qd [symmetric] mult.commute)
  next
    case False
    have 1: "unat (m - 1) = unat m - 1" using z(3) by (simp add: unat_minus_one)
    have 2: "unat ((m - 1) * 10) = (unat m - 1) * 10" using ml 1 by (subst unat_u64_arith) simp_all
    have 3: "unat (1 + (m - 1) * 10) = 1 + (unat m - 1) * 10" using ml 2 by (subst unat_u64_arith) simp_all
    have "unat (1 + (m - 1) * 10 + 9) = 1 + (unat m - 1) * 10 + 9" using ml 3 by (subst unat_u64_arith) simp_all
    then show ?thesis using n(2) s False by (simp add: CompressAmount_def)
  qed
qed

lemma DecompressAmount_num:
  assumes x: "unat x = 1 + 10 * y + e" and e: "e \<le> 9"
  shows "DecompressAmount x = times_ten e (of_nat (if e < 9 then y div 9 * 10 + (y mod 9 + 1) else y + 1))"
proof -
  have "x \<noteq> 0" using x by auto
  then have x1: "unat (x - 1) = 10 * y + e" using x by (simp add: unat_minus_one)
  have ue: "unat ((x - 1) mod 10) = e" unfolding unat_mod using x1 e by simp
  have uy: "unat ((x - 1) div 10) = y" unfolding unat_div using x1 e by simp
  have w: "v = of_nat (unat v)" for v :: u64 by simp
  have e9: "(x - 1) mod 10 < 9 \<longleftrightarrow> e < 9" using ue by (simp add: word_less_nat_alt)
  have "unat ((x - 1) div 10 mod 9) = y mod 9" "unat ((x - 1) div 10 div 9) = y div 9"
    by (simp_all only: unat_mod [of "(x - 1) div 10" 9] unat_div [of "(x - 1) div 10" 9] uy) simp_all
  then have ys: "(x - 1) div 10 mod 9 = of_nat (y mod 9)" "(x - 1) div 10 div 9 = of_nat (y div 9)"
    "(x - 1) div 10 = of_nat y"
    using w [of "(x - 1) div 10 mod 9"] w [of "(x - 1) div 10 div 9"] w [of "(x - 1) div 10"] uy by simp_all
  show ?thesis
    unfolding DecompressAmount_def Let_def ue e9 using \<open>x \<noteq> 0\<close>
    by (simp only: ys(3) ys(1,2) [unfolded ys(3)] if_False of_nat_add of_nat_mult of_nat_1 of_nat_numeral if_distrib [of of_nat])
qed

theorem DecompressAmount_CompressAmount:
  assumes n: "unat n < 2 ^ 60"
  shows "DecompressAmount (CompressAmount n) = n"
proof (cases "n = 0")
  case True
  then show ?thesis by (simp add: CompressAmount_def DecompressAmount_def)
next
  case False
  obtain m e where s: "strip_zeros n 0 = (m, e)" by (cases "strip_zeros n 0")
  from strip_zeros_num [OF s False] have z: "e \<le> 9" "unat n = unat m * 10 ^ e" "m \<noteq> 0"
    "e < 9 \<Longrightarrow> unat m mod 10 \<noteq> 0" by simp_all
  define M where "M = unat m"
  have M0: "0 < M" using z(3) by (simp add: M_def unat_gt_0)
  note num = CompressAmount_num [OF n False s, folded M_def]
  have "DecompressAmount (CompressAmount n) = times_ten e (of_nat M)"
  proof (cases "e < 9")
    case True
    then have d: "0 < M mod 10" using z(4) by (simp add: M_def)
    define y where "y = 9 * (M div 10) + M mod 10 - 1"
    have "y = 9 * (M div 10) + (M mod 10 - 1)" "M mod 10 - 1 < 9" using d by (simp_all add: y_def)
    then have "y div 9 = M div 10" "y mod 9 = M mod 10 - 1" by simp_all
    then have y: "y div 9 * 10 + (y mod 9 + 1) = M" using d by simp
    have "unat (CompressAmount n) = 1 + 10 * y + e" using num True by (simp add: y_def)
    from DecompressAmount_num [OF this z(1)] show ?thesis unfolding y using True by (simp only: if_True)
  next
    case False
    then have "e = 9" using z(1) by simp
    moreover have "unat (CompressAmount n) = 1 + 10 * (M - 1) + e" using num False \<open>e = 9\<close> by simp
    ultimately show ?thesis using DecompressAmount_num [OF _ z(1), of _ "M - 1"] M0 by simp
  qed
  also have "of_nat M = m" by (simp add: M_def)
  finally have "unat (DecompressAmount (CompressAmount n)) = unat n"
    using times_ten_num [of m e] z(2) n by simp
  then show ?thesis by (simp only: word_unat_eq_iff)
qed


section \<open>Scripts are read back\<close>

lemma IsToKeyID_Some:
  assumes "IsToKeyID s = Some k"
  shows "length k = 20" "Decompress 0 k = Some s"
proof -
  have l: "length s = 25" and b: "s ! 0 = OP_DUP" "s ! Suc 0 = OP_HASH160" "s ! 2 = 20" "s ! 23 = OP_EQUALVERIFY"
    "s ! 24 = OP_CHECKSIG" and k: "k = take 20 (drop 3 s)"
    using assms by (auto simp: IsToKeyID_def split: if_splits)
  show "length k = 20" using l k by simp
  have "s = [s ! 0, s ! 1, s ! 2] @ k @ [s ! 23, s ! 24]"
    by (rule nth_equalityI) (auto simp: l k nth_append less_Suc_eq numeral_eq_Suc nth_Cons split: nat.split)
  then show "Decompress 0 k = Some s" using l k by (simp add: Decompress_def b)
qed

lemma IsToScriptID_Some:
  assumes "IsToScriptID s = Some k"
  shows "length k = 20" "Decompress 1 k = Some s"
proof -
  have l: "length s = 23" and b: "s ! 0 = OP_HASH160" "s ! Suc 0 = 20" "s ! 22 = OP_EQUAL" and k: "k = take 20 (drop 2 s)"
    using assms by (auto simp: IsToScriptID_def split: if_splits)
  show "length k = 20" using l k by simp
  have "s = [s ! 0, s ! 1] @ k @ [s ! 22]"
    by (rule nth_equalityI) (auto simp: l k nth_append less_Suc_eq numeral_eq_Suc nth_Cons split: nat.split)
  then show "Decompress 1 k = Some s" using l k by (simp add: Decompress_def b)
qed

lemma IsToPubKey_Some:
  assumes "IsToPubKey s = Some k"
  shows "length k = 32" "Decompress 2 k = Some s"
proof -
  have l: "length s = 34" and b: "s ! 0 = 32" "s ! 33 = OP_CHECKSIG" and k: "k = take 32 (drop 1 s)"
    using assms by (auto simp: IsToPubKey_def PUBKEY_SIZE_def split: if_splits)
  show "length k = 32" using l k by simp
  have "s = [s ! 0] @ k @ [s ! 33]"
    by (rule nth_equalityI) (auto simp: l k nth_append less_Suc_eq numeral_eq_Suc nth_Cons split: nat.split)
  then show "Decompress 2 k = Some s" using l k by (simp add: Decompress_def PUBKEY_SIZE_def b)
qed

text \<open>A special script is one byte, the number of its kind, and its data; the variable-length form of that
  number is the byte.\<close>

lemma ReadVarInt_small:
  assumes "b < 0x80"
  shows "ReadVarInt (b # s) = Inr (ucast b :: 'a::len word, s)"
proof -
  have "unat b < 128" using assms by (simp add: word_less_nat_alt)
  then have "\<not> bit (unat b) 7" by (simp add: bit_iff_odd)
  then have "\<not> bit b 7" by (simp add: bit_unsigned_iff)
  then show ?thesis by (simp add: ReadVarInt_def byte_80 byte_no_80)
qed

lemma CScriptCompressor_round_trip:
  assumes "length sc \<le> MAX_SCRIPT_SIZE"
  shows "Unserialize_CScriptCompressor old (Serialize_CScriptCompressor sc @ s) = Inr (sc, s)"
proof (cases "Compress sc")
  case None
  have "unat (of_nat (length sc + nSpecialScripts) :: u32) = length sc + nSpecialScripts"
    using assms by (subst unat_of_nat) (simp add: MAX_SCRIPT_SIZE_def nSpecialScripts_def del: of_nat_add)
  then show ?thesis using None assms
    by (simp add: Serialize_CScriptCompressor_def Unserialize_CScriptCompressor_def ReadVarInt_WriteVarInt Let_def
      stream_read_def)
next
  case (Some c)
  then obtain b k where c: "c = b # k" "length k = GetSpecialSize (unat b)" "unat b < nSpecialScripts"
    "Decompress (unat b) k = Some sc"
    using IsToKeyID_Some [of sc] IsToScriptID_Some [of sc] IsToPubKey_Some [of sc]
    by (auto simp: Compress_def GetSpecialSize_def PUBKEY_SIZE_def nSpecialScripts_def split: option.splits)
  have "b < 0x80" using c(3) by (simp add: word_less_nat_alt nSpecialScripts_def)
  moreover have "unat b < 2 ^ 32" using less_trans [OF unat_byte_less, of "2 ^ 32" b] by simp
  then have "unat (ucast b :: u32) = unat b" by (simp add: unsigned_ucast_eq take_bit_nat_eq_self)
  ultimately show ?thesis using Some c
    by (simp add: Serialize_CScriptCompressor_def Unserialize_CScriptCompressor_def ReadVarInt_small Let_def
      stream_read_def)
qed

lemma CTxOutCompressor_round_trip:
  assumes "0 \<le> nValue out" "nValue out < 2 ^ 60" "length (scriptPubKey out) \<le> MAX_SCRIPT_SIZE"
  shows "Unserialize_CTxOutCompressor old (Serialize_CTxOutCompressor out @ s) = Inr (out, s)"
proof -
  have u: "uint (word_of_int (nValue out) :: u64) = nValue out"
    using assms(1,2) by (simp add: uint_word_of_int)
  then have "unat (word_of_int (nValue out) :: u64) < 2 ^ 60" using assms by (simp add: unat_eq_nat_uint)
  then have d: "DecompressAmount (CompressAmount (word_of_int (nValue out))) = word_of_int (nValue out)"
    by (rule DecompressAmount_CompressAmount)
  have "sint (word_of_int (nValue out) :: u64) = nValue out"
    using assms(1,2) by (simp add: sint_uint uint_word_of_int_eq signed_take_bit_take_bit signed_take_bit_int_eq_self)
  then show ?thesis using assms(3) d
    by (simp add: Serialize_CTxOutCompressor_def Unserialize_CTxOutCompressor_def ReadVarInt_WriteVarInt
      CScriptCompressor_round_trip)
qed

section \<open>Coins and undo records are read back\<close>

definition coin_ok :: "Coin \<Rightarrow> bool" where
  "coin_ok c \<longleftrightarrow> 0 \<le> nValue (coin_out c) \<and> nValue (coin_out c) < 2 ^ 60 \<and>
     length (scriptPubKey (coin_out c)) \<le> MAX_SCRIPT_SIZE"

lemma coin_code_parts:
  "bit (coin_code c) 0 \<longleftrightarrow> coin_fCoinBase c" "coin_code c div 2 = ucast (coin_nHeight c)"
  "drop_bit (Suc 0) (coin_code c) = ucast (coin_nHeight c)"
proof -
  define P :: u32 where "P = push_bit 1 (ucast (coin_nHeight c))"
  have P: "bit P n \<longleftrightarrow> 0 < n \<and> n < 32 \<and> bit (coin_nHeight c) (n - 1)" for n
    unfolding P_def by (simp only: bit_push_bit_iff) (auto simp: bit_simps)
  have "coin_code c = P + (if coin_fCoinBase c then 1 else 0)" by (simp add: coin_code_def P_def)
  also have "\<dots> = P OR (if coin_fCoinBase c then 1 else 0)"
    by (rule disjunctive_add) (auto simp: P bit_1_iff)
  finally have e: "coin_code c = P OR (if coin_fCoinBase c then 1 else 0)" .
  show "bit (coin_code c) 0 \<longleftrightarrow> coin_fCoinBase c" unfolding e by (simp add: bit_or_iff P)
  show d: "drop_bit (Suc 0) (coin_code c) = ucast (coin_nHeight c)"
    unfolding e by (rule bit_word_eqI) (auto simp: bit_simps P dest: bit_imp_le_length)
  have "coin_code c div 2 = drop_bit 1 (coin_code c)" by (simp add: drop_bit_eq_div)
  then show "coin_code c div 2 = ucast (coin_nHeight c)" using d by simp
qed

lemma ucast_height [simp]:
  "ucast (ucast (h :: 31 word) :: u32) = h" "0 < (ucast h :: u32) \<longleftrightarrow> 0 < h"
proof -
  show u: "ucast (ucast h :: u32) = h" by (rule bit_word_eqI) (simp add: bit_simps)
  have "(ucast h :: u32) = 0 \<longleftrightarrow> h = 0" using u by (metis ucast_0)
  then show "0 < (ucast h :: u32) \<longleftrightarrow> 0 < h" by (simp add: word_gt_0)
qed

theorem Coin_round_trip:
  assumes "coin_ok c"
  obtains bs where "Serialize_Coin c = Some bs" "\<And>s. Unserialize_Coin (bs @ s) = Inr (c, s)"
proof
  show "Serialize_Coin c = Some (WriteVarInt (coin_code c) @ Serialize_CTxOutCompressor (coin_out c))"
    using assms by (simp add: Serialize_Coin_def coin_ok_def IsSpent_def CTxOut_IsNull_def)
  show "Unserialize_Coin ((WriteVarInt (coin_code c) @ Serialize_CTxOutCompressor (coin_out c)) @ s) = Inr (c, s)" for s
    using assms by (simp add: Unserialize_Coin_def ReadVarInt_WriteVarInt CTxOutCompressor_round_trip coin_ok_def
      coin_code_parts)
qed

interpretation tx_in_undo: codec Serialize_TxInUndo Unserialize_TxInUndo coin_ok
proof
  fix c s assume "coin_ok c"
  have dummy: "ReadVarInt_int (ser_writedata8 0 @ s) = Inr (0, s)" for s
    by (simp add: ReadVarInt_int_def ser_writedata8_def ReadVarInt_small)
  show "Unserialize_TxInUndo (Serialize_TxInUndo c @ s) = Inr (c, s)"
    using \<open>coin_ok c\<close> dummy by (simp add: Unserialize_TxInUndo_def Serialize_TxInUndo_def ReadVarInt_WriteVarInt CTxOutCompressor_round_trip coin_ok_def
      coin_code_parts)
qed

definition undo_ok :: "Coin list \<Rightarrow> bool" where
  "undo_ok vprevout \<longleftrightarrow> list_all coin_ok vprevout \<and> length vprevout \<le> MAX_INPUTS_PER_BLOCK"

interpretation tx_undo: codec Serialize_CTxUndo Unserialize_CTxUndo undo_ok
proof
  fix v s assume v: "undo_ok v"
  then have "length v \<le> MAX_BLOCK_WEIGHT"
    unfolding undo_ok_def MAX_INPUTS_PER_BLOCK_def using div_le_dividend le_trans by blast
  then have "fits_size v" by (simp add: MAX_BLOCK_WEIGHT_def)
  with v show "Unserialize_CTxUndo (Serialize_CTxUndo v @ s) = Inr (v, s)"
    by (simp add: Serialize_CTxUndo_def Unserialize_CTxUndo_def read_size undo_ok_def tx_in_undo.read_n_ser)
qed

interpretation block_undo: vector_codec Serialize_CTxUndo Unserialize_CTxUndo undo_ok sizeof_CTxUndo
  by unfold_locales (simp_all add: sizeof_CTxUndo_def)

lemmas CBlockUndo_round_trip = block_undo.vector_unser_ser [folded Serialize_CBlockUndo_def]

end
