(* ===== verification/CoinsDB.thy ===== *)
theory CoinsDB imports Compressor
begin

text \<open>
  The coin database \<open>CCoinsViewDB\<close> of \<^verbatim>\<open>src/src/txdb.cpp\<close> over the batches of \<^verbatim>\<open>src/src/dbwrapper.h\<close>.
  The store is what LevelDB documents: a map from keys to values in which a batch is written as a whole.
  A flush is a sequence of batches, and the node may stop between two of them; what it finds then is stated by
  \<open>interrupted_flush\<close>.  The database keeps the contract of a view, so a stack of caches over it does.
\<close>

section \<open>The store\<close>

record coins_db =
  db_coin :: "COutPoint \<rightharpoonup> Coin"
  db_best :: "uint256 option"
  db_heads :: "uint256 list option"

datatype batch_op =
    Write_coin COutPoint Coin
  | Erase_coin COutPoint
  | Write_best uint256
  | Erase_best
  | Write_heads "uint256 list"
  | Erase_heads

fun apply_op :: "batch_op \<Rightarrow> coins_db \<Rightarrow> coins_db" where
  "apply_op (Write_coin p c) db = db\<lparr>db_coin := (db_coin db)(p \<mapsto> c)\<rparr>"
| "apply_op (Erase_coin p) db = db\<lparr>db_coin := (db_coin db)(p := None)\<rparr>"
| "apply_op (Write_best h) db = db\<lparr>db_best := Some h\<rparr>"
| "apply_op Erase_best db = db\<lparr>db_best := None\<rparr>"
| "apply_op (Write_heads hs) db = db\<lparr>db_heads := Some hs\<rparr>"
| "apply_op Erase_heads db = db\<lparr>db_heads := None\<rparr>"

definition WriteBatch :: "batch_op list \<Rightarrow> coins_db \<Rightarrow> coins_db" where
  "WriteBatch batch db = fold apply_op batch db"

text \<open>The key of a coin, and the estimate a batch keeps of its size.\<close>

definition CoinEntry_key :: "COutPoint \<Rightarrow> bytes" where
  "CoinEntry_key p = [0x43] @ Serialize_uint256 (op_hash p) @ WriteVarInt (op_n p)"

definition write_size :: "nat \<Rightarrow> nat \<Rightarrow> nat" where
  "write_size k v = 3 + (if 127 < k then 1 else 0) + k + (if 127 < v then 1 else 0) + v"

definition erase_size :: "nat \<Rightarrow> nat" where
  "erase_size k = 2 + (if 127 < k then 1 else 0) + k"

fun op_size :: "batch_op \<Rightarrow> nat" where
  "op_size (Write_coin p c) =
     write_size (length (CoinEntry_key p)) (case Serialize_Coin c of Some bs \<Rightarrow> length bs | None \<Rightarrow> 0)"
| "op_size (Erase_coin p) = erase_size (length (CoinEntry_key p))"
| "op_size (Write_best h) = write_size 1 (length (Serialize_uint256 h))"
| "op_size Erase_best = erase_size 1"
| "op_size (Write_heads hs) = write_size 1 (length (Serialize_vector Serialize_uint256 hs))"
| "op_size Erase_heads = erase_size 1"

definition SizeEstimate :: "batch_op list \<Rightarrow> nat" where
  "SizeEstimate batch = sum_list (map op_size batch)"

section \<open>The view\<close>

definition DB_GetCoin :: "coins_db \<Rightarrow> COutPoint \<Rightarrow> Coin option \<times> coins_db" where
  "DB_GetCoin db p = (db_coin db p, db)"

definition DB_HaveCoin :: "coins_db \<Rightarrow> COutPoint \<Rightarrow> bool \<times> coins_db" where
  "DB_HaveCoin db p = (db_coin db p \<noteq> None, db)"

definition DB_GetBestBlock :: "coins_db \<Rightarrow> uint256" where
  "DB_GetBestBlock db = (case db_best db of None \<Rightarrow> 0 | Some h \<Rightarrow> h)"

definition DB_GetHeadBlocks :: "coins_db \<Rightarrow> uint256 list" where
  "DB_GetHeadBlocks db = (case db_heads db of None \<Rightarrow> [] | Some hs \<Rightarrow> hs)"

text \<open>The partial batches of the loop over the entries, and what the last batch holds.\<close>

fun partial_batches :: "nat \<Rightarrow> batch_op list \<Rightarrow> CCoinsMap \<Rightarrow> batch_op list list \<times> batch_op list" where
  "partial_batches batch_size batch [] = ([], batch)"
| "partial_batches batch_size batch ((p, e) # its) =
     (let batch = (if is_dirty e then batch @ [if IsSpent (ce_coin e) then Erase_coin p else Write_coin p (ce_coin e)]
                   else batch)
      in if batch_size < SizeEstimate batch then
           (case partial_batches batch_size [] its of (bs, rest) \<Rightarrow> (batch # bs, rest))
         else partial_batches batch_size batch its)"

text \<open>The tip the transition is from; \<open>None\<close> is the failed assertion that the flush that was interrupted
  was to the same block.\<close>

definition old_tip :: "coins_db \<Rightarrow> uint256 \<Rightarrow> uint256 option" where
  "old_tip db hashBlockIn =
     (if uint256_IsNull (DB_GetBestBlock db) \<and> length (DB_GetHeadBlocks db) = 2 then
        if DB_GetHeadBlocks db ! 0 = hashBlockIn then Some (DB_GetHeadBlocks db ! 1) else None
      else Some (DB_GetBestBlock db))"

definition flush_batches :: "nat \<Rightarrow> uint256 \<Rightarrow> CCoinsMap \<Rightarrow> uint256 \<Rightarrow> batch_op list list" where
  "flush_batches batch_size tip mapCoins hashBlockIn =
     (case partial_batches batch_size [Erase_best, Write_heads [hashBlockIn, tip]] mapCoins of
        (bs, rest) \<Rightarrow> bs @ [rest @ [Erase_heads, Write_best hashBlockIn]])"

definition DB_BatchWrite :: "nat \<Rightarrow> coins_db \<Rightarrow> CCoinsMap \<Rightarrow> uint256 \<Rightarrow> coins_fault + bool \<times> coins_db" where
  "DB_BatchWrite batch_size db mapCoins hashBlockIn =
     (if uint256_IsNull hashBlockIn then Inl Null_best_block
      else case old_tip db hashBlockIn of None \<Rightarrow> Inl Wrong_head
       | Some tip \<Rightarrow> Inr (True, fold WriteBatch (flush_batches batch_size tip mapCoins hashBlockIn) db))"

definition CCoinsViewDB_ops :: "nat \<Rightarrow> coins_db view_ops" where
  "CCoinsViewDB_ops batch_size = \<lparr>v_GetCoin = DB_GetCoin, v_HaveCoin = DB_HaveCoin,
     v_GetBestBlock = (\<lambda>db. (DB_GetBestBlock db, db)), v_BatchWrite = DB_BatchWrite batch_size\<rparr>"

section \<open>Flushing\<close>

lemma partial_batches_concat:
  "concat (fst (partial_batches z batch its)) @ snd (partial_batches z batch its) =
   batch @ map (\<lambda>(p, e). if IsSpent (ce_coin e) then Erase_coin p else Write_coin p (ce_coin e))
     (filter (\<lambda>(p, e). is_dirty e) its)"
  by (induction z batch its rule: partial_batches.induct) (auto simp: Let_def split: prod.splits)

definition coin_ops :: "CCoinsMap \<Rightarrow> batch_op list" where
  "coin_ops its = map (\<lambda>(p, e). if IsSpent (ce_coin e) then Erase_coin p else Write_coin p (ce_coin e))
     (filter (\<lambda>(p, e). is_dirty e) its)"

lemma fold_concat: "fold WriteBatch bs db = fold apply_op (concat bs) db"
  by (induction bs arbitrary: db) (simp_all add: WriteBatch_def)

lemma flush_batches_concat:
  "concat (flush_batches z tip its h) = [Erase_best, Write_heads [h, tip]] @ coin_ops its @ [Erase_heads, Write_best h]"
  using partial_batches_concat [of z "[Erase_best, Write_heads [h, tip]]" its]
  by (cases "partial_batches z [Erase_best, Write_heads [h, tip]] its") (simp add: flush_batches_def coin_ops_def)

text \<open>What a sequence of coin operations does.\<close>

lemma coin_ops_fields:
  "db_best (fold apply_op (coin_ops its) db) = db_best db" "db_heads (fold apply_op (coin_ops its) db) = db_heads db"
  by (induction its arbitrary: db) (auto simp: coin_ops_def)

lemma coin_ops_coins:
  "distinct (map fst its) \<Longrightarrow>
   db_coin (fold apply_op (coin_ops its) db) p =
     (case map_of its p of Some e \<Rightarrow> if is_dirty e then unspent (ce_coin e) else db_coin db p | None \<Rightarrow> db_coin db p)"
proof (induction its arbitrary: db)
  case (Cons it its)
  obtain q e where it: "it = (q, e)" by (cases it)
  have "map_of its q = None" using Cons.prems it by (simp add: map_of_eq_None_iff)
  then show ?case using Cons by (auto simp: it coin_ops_def split: option.splits)
qed (simp add: coin_ops_def)

definition db_ok :: "coins_db \<Rightarrow> bool" where
  "db_ok db \<longleftrightarrow> (\<forall>p c. db_coin db p = Some c \<longrightarrow> \<not> IsSpent c) \<and>
     (DB_GetBestBlock db = 0 \<longrightarrow> length (DB_GetHeadBlocks db) \<noteq> 2)"

lemma DB_BatchWrite_ok:
  assumes "db_ok db" "distinct (map fst m)" "entries_ok (map_of m) (db_coin db)" "h \<noteq> 0"
  shows "\<exists>db'. DB_BatchWrite z db m h = Inr (True, db') \<and> db_ok db' \<and>
    db_coin db' = see_through (map_of m) (db_coin db) \<and> DB_GetBestBlock db' = h \<and> db_heads db' = None"
proof -
  have t: "old_tip db h = Some (DB_GetBestBlock db)" using assms(1) by (auto simp: old_tip_def db_ok_def)
  define db' where "db' = fold WriteBatch (flush_batches z (DB_GetBestBlock db) m h) db"
  define db1 where "db1 = db\<lparr>db_best := None, db_heads := Some [h, DB_GetBestBlock db]\<rparr>"
  have d: "db' = fold apply_op (coin_ops m) db1\<lparr>db_heads := None, db_best := Some h\<rparr>"
    by (simp add: db'_def db1_def fold_concat flush_batches_concat)
  have c: "db_coin db' = see_through (map_of m) (db_coin db)"
  proof
    fix p
    show "db_coin db' p = see_through (map_of m) (db_coin db) p"
      using entries_okD(2) [OF assms(3), of p] unfolding d
      by (simp add: coin_ops_coins [OF assms(2)] see_through_def db1_def split: option.split)
  qed
  have "DB_GetBestBlock db' = h" "db_heads db' = None" by (simp_all add: d DB_GetBestBlock_def)
  moreover have "\<not> IsSpent coin" if "db_coin db' p = Some coin" for p coin
    using that assms(1) unfolding c by (auto simp: see_through_def db_ok_def split: option.splits if_splits)
  ultimately show ?thesis using assms(4) c t
    by (auto simp: DB_BatchWrite_def db'_def [symmetric] db_ok_def)
qed

interpretation db: coins_view "CCoinsViewDB_ops batch_size" db_coin DB_GetBestBlock db_ok for batch_size
proof
  fix v p r v' b h m
  show "db_coin v p = Some coin \<Longrightarrow> \<not> IsSpent coin" if "db_ok v" for coin using that by (auto simp: db_ok_def)
  show "r = db_coin v p \<and> db_ok v' \<and> db_coin v' = db_coin v \<and> DB_GetBestBlock v' = DB_GetBestBlock v"
    if "db_ok v" "v_GetCoin (CCoinsViewDB_ops batch_size) v p = (r, v')"
    using that by (auto simp: CCoinsViewDB_ops_def DB_GetCoin_def)
  show "(b \<longleftrightarrow> db_coin v p \<noteq> None) \<and> db_ok v' \<and> db_coin v' = db_coin v \<and> DB_GetBestBlock v' = DB_GetBestBlock v"
    if "db_ok v" "v_HaveCoin (CCoinsViewDB_ops batch_size) v p = (b, v')"
    using that by (auto simp: CCoinsViewDB_ops_def DB_HaveCoin_def)
  show "h = DB_GetBestBlock v \<and> db_ok v' \<and> db_coin v' = db_coin v \<and> DB_GetBestBlock v' = DB_GetBestBlock v"
    if "db_ok v" "v_GetBestBlock (CCoinsViewDB_ops batch_size) v = (h, v')"
    using that by (auto simp: CCoinsViewDB_ops_def)
  show "\<exists>v'. v_BatchWrite (CCoinsViewDB_ops batch_size) v m h = Inr (True, v') \<and> db_ok v' \<and>
      db_coin v' = see_through (map_of m) (db_coin v) \<and> DB_GetBestBlock v' = h"
    if "db_ok v" "distinct (map fst m)" "entries_ok (map_of m) (db_coin v)" "h \<noteq> 0"
    using DB_BatchWrite_ok [OF that, of batch_size] by (auto simp: CCoinsViewDB_ops_def)
qed

text \<open>The tip of the node is a cache over the database, and a block is connected in a cache over the tip.\<close>

interpretation tip: coins_view "Cache_ops (CCoinsViewDB_ops batch_size)" db.cache_contents db.cache_best db.cache_ok
  for batch_size
  by (rule db.cache_is_view)

interpretation block_view: coins_view "Cache_ops (Cache_ops (CCoinsViewDB_ops batch_size))"
  tip.cache_contents tip.cache_best tip.cache_ok for batch_size
  by (rule tip.cache_is_view)

section \<open>An interrupted flush\<close>

lemma partial_batches_hd:
  "partial_batches z batch its = (b # bs, rest) \<Longrightarrow> \<exists>ops. b = batch @ ops"
proof (induction z batch its arbitrary: b bs rest rule: partial_batches.induct)
  case (2 z batch p e its)
  let ?op = "if IsSpent (ce_coin e) then Erase_coin p else Write_coin p (ce_coin e)"
  let ?batch = "if is_dirty e then batch @ [?op] else batch"
  show ?case
  proof (cases "z < SizeEstimate ?batch")
    case True
    then have "b = ?batch" using 2(3) by (auto simp: Let_def split: prod.splits if_splits)
    then show ?thesis by auto
  next
    case False
    then have "partial_batches z ?batch its = (b # bs, rest)" using 2(3) by (simp add: Let_def)
    with 2(2) [OF refl _ this] False obtain ops where "b = ?batch @ ops" by auto
    then show ?thesis by auto
  qed
qed simp

lemma take_filter_map: "\<exists>j'. take j (map f (filter P xs)) = map f (filter P (take j' xs))"
proof (induction xs arbitrary: j)
  case (Cons x xs)
  show ?case
  proof (cases "P x")
    case True
    then show ?thesis
    proof (cases j)
      case 0
      then show ?thesis by (intro exI [of _ 0]) simp
    next
      case (Suc i)
      obtain j' where "take i (map f (filter P xs)) = map f (filter P (take j' xs))" using Cons by blast
      then show ?thesis using True Suc by (intro exI [of _ "Suc j'"]) simp
    qed
  next
    case False
    obtain j' where "take j (map f (filter P xs)) = map f (filter P (take j' xs))" using Cons by blast
    then show ?thesis using False by (intro exI [of _ "Suc j'"]) simp
  qed
qed simp

text \<open>The operations of the batches that were written are a prefix of those of the flush.\<close>

lemma flush_prefix:
  assumes "0 < k" "k < length (flush_batches z tip its h)"
  obtains j where "concat (take k (flush_batches z tip its h)) =
    [Erase_best, Write_heads [h, tip]] @ coin_ops (take j its)"
proof -
  obtain bs rest where pb: "partial_batches z [Erase_best, Write_heads [h, tip]] its = (bs, rest)" by fastforce
  have fb: "flush_batches z tip its h = bs @ [rest @ [Erase_heads, Write_best h]]"
    by (simp add: flush_batches_def pb)
  have k: "k \<le> length bs" using assms(2) by (simp add: fb)
  then obtain b bs' where bs: "bs = b # bs'" using assms(1) by (cases bs) auto
  obtain ops where b: "b = [Erase_best, Write_heads [h, tip]] @ ops"
    using partial_batches_hd [of z _ its b bs' rest] pb bs by blast
  have all: "concat bs @ rest = [Erase_best, Write_heads [h, tip]] @ coin_ops its"
    using partial_batches_concat [of z "[Erase_best, Write_heads [h, tip]]" its] by (simp add: pb coin_ops_def)
  have split: "concat bs = concat (take k bs) @ concat (drop k bs)"
    by (metis append_take_drop_id concat_append)
  obtain k' where "k = Suc k'" using assms(1) by (cases k) auto
  then have hd: "concat (take k bs) = [Erase_best, Write_heads [h, tip]] @ ops @ concat (take k' bs')"
    by (simp add: bs b)
  then have "coin_ops its = (ops @ concat (take k' bs')) @ (concat (drop k bs) @ rest)"
    using all split by simp
  then have "ops @ concat (take k' bs') = take (length (ops @ concat (take k' bs'))) (coin_ops its)" by simp
  also obtain j where "take (length (ops @ concat (take k' bs'))) (coin_ops its) = coin_ops (take j its)"
    unfolding coin_ops_def using take_filter_map by blast
  finally have "concat (take k (flush_batches z tip its h)) = [Erase_best, Write_heads [h, tip]] @ coin_ops (take j its)"
    using hd k by (simp add: fb)
  then show thesis by (rule that)
qed

lemma map_of_take: "distinct (map fst m) \<Longrightarrow> map_of (take j m) p = Some e \<Longrightarrow> map_of m p = Some e"
  by (metis append_take_drop_id map_add_Some_iff map_of_append map_of_eq_Some_iff in_set_takeD map_of_SomeD)

lemma distinct_take_keys: "distinct (map fst m) \<Longrightarrow> distinct (map fst (take j m))"
  by (simp add: take_map [symmetric])

text \<open>Between two batches of a flush the database says which transition it is in, and every coin is as it was
  or as it will be.\<close>

lemma interrupted_flush:
  assumes ok: "db_ok db" and m: "distinct (map fst m)" "entries_ok (map_of m) (db_coin db)"
    and k: "0 < k" "k < length (flush_batches z (DB_GetBestBlock db) m h)"
  defines "db' \<equiv> fold WriteBatch (take k (flush_batches z (DB_GetBestBlock db) m h)) db"
  shows "DB_GetBestBlock db' = 0" "DB_GetHeadBlocks db' = [h, DB_GetBestBlock db]"
    "db_coin db' p = db_coin db p \<or> db_coin db' p = see_through (map_of m) (db_coin db) p"
    "db_coin db' p \<noteq> db_coin db p \<Longrightarrow> \<exists>e. map_of m p = Some e \<and> is_dirty e"
proof -
  obtain j where "concat (take k (flush_batches z (DB_GetBestBlock db) m h)) =
      [Erase_best, Write_heads [h, DB_GetBestBlock db]] @ coin_ops (take j m)" by (rule flush_prefix [OF k])
  then have d: "db' = fold apply_op (coin_ops (take j m)) (db\<lparr>db_best := None, db_heads := Some [h, DB_GetBestBlock db]\<rparr>)"
    by (simp add: db'_def fold_concat)
  show "DB_GetBestBlock db' = 0" "DB_GetHeadBlocks db' = [h, DB_GetBestBlock db]"
    by (simp_all add: d DB_GetBestBlock_def DB_GetHeadBlocks_def coin_ops_fields)
  have c: "db_coin db' p = (case map_of (take j m) p of Some e \<Rightarrow> if is_dirty e then unspent (ce_coin e) else db_coin db p
      | None \<Rightarrow> db_coin db p)"
    unfolding d using coin_ops_coins [OF distinct_take_keys [OF m(1), of j]] by (simp split: option.split)
  show "db_coin db' p = db_coin db p \<or> db_coin db' p = see_through (map_of m) (db_coin db) p"
    "db_coin db' p \<noteq> db_coin db p \<Longrightarrow> \<exists>e. map_of m p = Some e \<and> is_dirty e"
    using c map_of_take [OF m(1), of j p] by (auto simp: see_through_def split: option.splits if_splits)
qed

text \<open>Flushing the same entries again completes the transition.\<close>

lemma interrupted_flush_again:
  assumes ok: "db_ok db" and m: "distinct (map fst m)" "entries_ok (map_of m) (db_coin db)" and h: "h \<noteq> 0"
    and k: "0 < k" "k < length (flush_batches z (DB_GetBestBlock db) m h)"
  shows "DB_BatchWrite z (fold WriteBatch (take k (flush_batches z (DB_GetBestBlock db) m h)) db) m h =
    DB_BatchWrite z db m h"
proof -
  define db' where "db' = fold WriteBatch (take k (flush_batches z (DB_GetBestBlock db) m h)) db"
  note i = interrupted_flush [OF ok m k, folded db'_def]
  have t: "old_tip db' h = Some (DB_GetBestBlock db)" "old_tip db h = Some (DB_GetBestBlock db)"
    using i(1,2) ok by (auto simp: old_tip_def db_ok_def)
  have fin: "fold WriteBatch (flush_batches z (DB_GetBestBlock db) m h) x =
      fold apply_op (coin_ops m) (x\<lparr>db_best := None, db_heads := Some [h, DB_GetBestBlock db]\<rparr>)
        \<lparr>db_heads := None, db_best := Some h\<rparr>" for x
    by (simp add: fold_concat flush_batches_concat)
  have "db_coin (fold apply_op (coin_ops m) (db'\<lparr>db_best := None, db_heads := Some [h, DB_GetBestBlock db]\<rparr>)) p =
      db_coin (fold apply_op (coin_ops m) (db\<lparr>db_best := None, db_heads := Some [h, DB_GetBestBlock db]\<rparr>)) p" for p
    using i(4) [of p] by (cases "map_of m p") (auto simp: coin_ops_coins [OF m(1)])
  then have "fold WriteBatch (flush_batches z (DB_GetBestBlock db) m h) db' =
      fold WriteBatch (flush_batches z (DB_GetBestBlock db) m h) db"
    unfolding fin by (intro coins_db.equality) (auto simp: coin_ops_fields)
  then show ?thesis using h t by (simp add: DB_BatchWrite_def db'_def [symmetric])
qed

end
