(* ===== verification/Verify.thy ===== *)
theory Verify imports Transaction
begin

unbundle bit_operations_syntax

text \<open>
  The second half of \<^verbatim>\<open>src/src/script/interpreter.cpp\<close>: the message a signature signs
  (\<open>SignatureHash\<close>, in the legacy form of \<open>CTransactionSignatureSerializer\<close> and in the witness form
  with its cache), \<open>TransactionSignatureChecker\<close> with \<open>CPubKey::Verify\<close> of \<^verbatim>\<open>src/src/pubkey.cpp\<close>,
  witness programs, \<open>VerifyScript\<close> and the signature operations of a witness.  The Ed25519 primitive
  and the contents of memory the code reads without having written it are arguments
  (the record \<open>ed25519_env\<close>).
\<close>

section \<open>The legacy signature hash\<close>

record sighash_serializer =
  ss_txTo :: CTransaction
  ss_scriptCode :: script
  ss_nIn :: nat
  fAnyoneCanPay :: bool
  fHashSingle :: bool
  fHashNone :: bool

definition CTransactionSignatureSerializer ::
  "CTransaction \<Rightarrow> script \<Rightarrow> nat \<Rightarrow> u32 \<Rightarrow> sighash_serializer" where
  "CTransactionSignatureSerializer txTo scriptCode nIn nHashType =
     \<lparr>ss_txTo = txTo, ss_scriptCode = scriptCode, ss_nIn = nIn,
      fAnyoneCanPay = (nHashType AND of_nat SIGHASH_ANYONECANPAY \<noteq> 0),
      fHashSingle = (nHashType AND 0x1F = of_nat SIGHASH_SINGLE),
      fHashNone = (nHashType AND 0x1F = of_nat SIGHASH_NONE)\<rparr>"

function count_separators :: "nat \<Rightarrow> script \<Rightarrow> nat" where
  "count_separators nCodeSeparators it =
     (case GetOp it of
        None \<Rightarrow> nCodeSeparators
      | Some (opcode, _, it') \<Rightarrow>
          count_separators (if opcode = OP_CODESEPARATOR then nCodeSeparators + 1 else nCodeSeparators) it')"
  by pat_completeness auto
termination
  by (relation "measure (\<lambda>(_, it). length it)") (auto dest: GetOp_shorter)

text \<open>The second loop: \<open>itBegin\<close> and \<open>it\<close> are the rests of the script behind the two iterators.\<close>

function write_script_code :: "script \<Rightarrow> script \<Rightarrow> bytes" where
  "write_script_code itBegin it =
     (case GetOp2 it of
        (ok, opcode, _, it') \<Rightarrow>
          if ok then
            (if opcode = OP_CODESEPARATOR
             then take (length itBegin - length it' - 1) itBegin @ write_script_code it' it'
             else write_script_code itBegin it')
          else if itBegin \<noteq> [] then take (length itBegin - length it') itBegin
          else [])"
  by pat_completeness auto
termination
  by (relation "measure (\<lambda>(_, it). length it)") (auto dest: GetOp2_shorter [OF sym])

declare count_separators.simps [simp del] write_script_code.simps [simp del]

definition SerializeScriptCode :: "script \<Rightarrow> bytes" where
  "SerializeScriptCode scriptCode =
     WriteCompactSize (of_nat (length scriptCode - count_separators 0 scriptCode)) @
     write_script_code scriptCode scriptCode"

definition SerializeInput :: "sighash_serializer \<Rightarrow> nat \<Rightarrow> bytes" where
  "SerializeInput ss nInput0 =
     (let nIn = ss_nIn ss;
          nInput = (if fAnyoneCanPay ss then nIn else nInput0);
          txin = tx_vin (ss_txTo ss) ! nInput in
      Serialize_COutPoint (prevout txin) @
      (if nInput \<noteq> nIn then Serialize_bytes [] else SerializeScriptCode (ss_scriptCode ss)) @
      (if nInput \<noteq> nIn \<and> (fHashSingle ss \<or> fHashNone ss) then ser_writedata32 0
       else ser_writedata32 (nSequence txin)))"

definition SerializeOutput :: "sighash_serializer \<Rightarrow> nat \<Rightarrow> bytes" where
  "SerializeOutput ss nOutput =
     (if fHashSingle ss \<and> nOutput \<noteq> ss_nIn ss then Serialize_CTxOut CTxOut_null
      else Serialize_CTxOut (tx_vout (ss_txTo ss) ! nOutput))"

definition SerializeSigTx :: "sighash_serializer \<Rightarrow> bytes" where
  "SerializeSigTx ss =
     (let txTo = ss_txTo ss;
          nInputs = (if fAnyoneCanPay ss then 1 else length (tx_vin txTo));
          nOutputs = (if fHashNone ss then 0 else if fHashSingle ss then ss_nIn ss + 1
            else length (tx_vout txTo)) in
      ser_writedata32 (tx_nVersion txTo) @
      WriteCompactSize (of_nat nInputs) @ concat (map (SerializeInput ss) [0..<nInputs]) @
      WriteCompactSize (of_nat nOutputs) @ concat (map (SerializeOutput ss) [0..<nOutputs]) @
      ser_writedata32 (tx_nLockTime txTo))"

section \<open>The witness signature hash\<close>

definition GetPrevoutHash :: "(bytes \<Rightarrow> bytes) \<Rightarrow> CTransaction \<Rightarrow> uint256" where
  "GetPrevoutHash h txTo = uint256_of (h (concat (map (\<lambda>i. Serialize_COutPoint (prevout i)) (tx_vin txTo))))"

definition GetSequenceHash :: "(bytes \<Rightarrow> bytes) \<Rightarrow> CTransaction \<Rightarrow> uint256" where
  "GetSequenceHash h txTo = uint256_of (h (concat (map (\<lambda>i. ser_writedata32 (nSequence i)) (tx_vin txTo))))"

definition GetOutputsHash :: "(bytes \<Rightarrow> bytes) \<Rightarrow> CTransaction \<Rightarrow> uint256" where
  "GetOutputsHash h txTo = uint256_of (h (concat (map Serialize_CTxOut (tx_vout txTo))))"

record PrecomputedTransactionData =
  hashPrevouts :: uint256
  hashSequence :: uint256
  hashOutputs :: uint256
  txdata_ready :: bool

definition Precompute :: "(bytes \<Rightarrow> bytes) \<Rightarrow> CTransaction \<Rightarrow> PrecomputedTransactionData" where
  "Precompute h txTo =
     (if HasWitness txTo then
        \<lparr>hashPrevouts = GetPrevoutHash h txTo, hashSequence = GetSequenceHash h txTo,
         hashOutputs = GetOutputsHash h txTo, txdata_ready = True\<rparr>
      else \<lparr>hashPrevouts = 0, hashSequence = 0, hashOutputs = 0, txdata_ready = False\<rparr>)"

text \<open>The message that is hashed for a witness input.\<close>

definition witness_preimage ::
  "(bytes \<Rightarrow> bytes) \<Rightarrow> script \<Rightarrow> CTransaction \<Rightarrow> nat \<Rightarrow> u32 \<Rightarrow> CAmount \<Rightarrow> PrecomputedTransactionData option \<Rightarrow> bytes" where
  "witness_preimage h scriptCode txTo nIn nHashType amount cache =
     (let cacheready = (case cache of None \<Rightarrow> False | Some c \<Rightarrow> txdata_ready c);
          anyone = nHashType AND of_nat SIGHASH_ANYONECANPAY \<noteq> 0;
          single = nHashType AND 0x1F = of_nat SIGHASH_SINGLE;
          none = nHashType AND 0x1F = of_nat SIGHASH_NONE;
          prevouts = (if \<not> anyone then
            (if cacheready then hashPrevouts (the cache) else GetPrevoutHash h txTo) else 0);
          sequence = (if \<not> anyone \<and> \<not> single \<and> \<not> none then
            (if cacheready then hashSequence (the cache) else GetSequenceHash h txTo) else 0);
          outputs = (if \<not> single \<and> \<not> none then
            (if cacheready then hashOutputs (the cache) else GetOutputsHash h txTo)
            else if single \<and> nIn < length (tx_vout txTo)
            then uint256_of (h (Serialize_CTxOut (tx_vout txTo ! nIn)))
            else 0) in
      ser_writedata32 (tx_nVersion txTo) @ Serialize_uint256 prevouts @ Serialize_uint256 sequence @
      Serialize_COutPoint (prevout (tx_vin txTo ! nIn)) @ Serialize_bytes scriptCode @
      Serialize_int64 amount @ ser_writedata32 (nSequence (tx_vin txTo ! nIn)) @
      Serialize_uint256 outputs @ ser_writedata32 (tx_nLockTime txTo) @ ser_writedata32 nHashType)"

text \<open>\<open>uint256S("00...01")\<close>: the hex string is big endian, so the least significant byte is 1.\<close>

definition uint256_one :: uint256 where "uint256_one = 1"

text \<open>\<open>None\<close> is the failed assertion on \<open>nIn\<close>.\<close>

definition SignatureHash ::
  "(bytes \<Rightarrow> bytes) \<Rightarrow> script \<Rightarrow> CTransaction \<Rightarrow> nat \<Rightarrow> u32 \<Rightarrow> CAmount \<Rightarrow> SigVersion \<Rightarrow>
   PrecomputedTransactionData option \<Rightarrow> uint256 option" where
  "SignatureHash h scriptCode txTo nIn nHashType amount sigver cache =
     (if \<not> nIn < length (tx_vin txTo) then None
      else if sigver = SIGVERSION_WITNESS_V0 then
        Some (uint256_of (h (witness_preimage h scriptCode txTo nIn nHashType amount cache)))
      else if nHashType AND 0x1F = of_nat SIGHASH_SINGLE \<and> length (tx_vout txTo) \<le> nIn then Some uint256_one
      else Some (uint256_of (h (SerializeSigTx (CTransactionSignatureSerializer txTo scriptCode nIn nHashType) @
        ser_writedata32 nHashType))))"

section \<open>Signatures\<close>

text \<open>\<open>ed_verify\<close> is \<open>ed25519_verify\<close> on the 64 bytes it reads from the signature's address, the
  message and the key.  \<open>vch_uninit\<close> is what an uninitialised \<open>CPubKey\<close> holds and
  \<open>heap_behind\<close> the bytes behind a vector's data.\<close>

record ed25519_env =
  ed_verify :: "bytes \<Rightarrow> bytes \<Rightarrow> bytes \<Rightarrow> bool"
  vch_uninit :: bytes
  heap_behind :: bytes

definition CPubKey_Set :: "bytes \<Rightarrow> bytes \<Rightarrow> bytes" where
  "CPubKey_Set vch new = (if length new = PUBLIC_KEY_SIZE then new else vch)"

definition CPubKey_of :: "ed25519_env \<Rightarrow> bytes \<Rightarrow> bytes" where
  "CPubKey_of ed new = CPubKey_Set (vch_uninit ed) new"

definition CPubKey_size :: "bytes \<Rightarrow> nat" where "CPubKey_size vch = PUBLIC_KEY_SIZE"

definition CPubKey_IsValid :: "bytes \<Rightarrow> bool" where
  "CPubKey_IsValid vch \<longleftrightarrow> CPubKey_size vch > 0"

definition SIGNATURE_SIZE :: nat where "SIGNATURE_SIZE = 64"

text \<open>The callee reads \<open>SIGNATURE_SIZE\<close> bytes whatever the length of \<open>vchSig\<close>.\<close>

definition CPubKey_Verify :: "ed25519_env \<Rightarrow> bytes \<Rightarrow> uint256 \<Rightarrow> bytes \<Rightarrow> bool" where
  "CPubKey_Verify ed vch hash vchSig =
     (if \<not> CPubKey_IsValid vch then False
      else ed_verify ed (take SIGNATURE_SIZE (vchSig @ heap_behind ed)) (uint256_bytes hash) vch)"

record tx_checker =
  tc_txTo :: CTransaction
  tc_nIn :: nat
  tc_amount :: CAmount
  tc_txdata :: "PrecomputedTransactionData option"

text \<open>The assertion of \<open>SignatureHash\<close> cannot fail where \<open>tc_nIn\<close> is an input of the transaction.\<close>

definition TSC_CheckSig ::
  "ed25519_env \<Rightarrow> (bytes \<Rightarrow> bytes) \<Rightarrow> tx_checker \<Rightarrow> valtype \<Rightarrow> valtype \<Rightarrow> script \<Rightarrow> SigVersion \<Rightarrow> bool" where
  "TSC_CheckSig ed h tc vchSigIn vchPubKey scriptCode sigver =
     (let pubkey = CPubKey_of ed vchPubKey in
      if \<not> CPubKey_IsValid pubkey then False
      else if vchSigIn = [] then False
      else
        let nHashType = ucast (last vchSigIn); vchSig = butlast vchSigIn in
        case SignatureHash h scriptCode (tc_txTo tc) (tc_nIn tc) nHashType (tc_amount tc) sigver (tc_txdata tc) of
          None \<Rightarrow> False
        | Some sighash \<Rightarrow> CPubKey_Verify ed pubkey sighash vchSig)"

definition TSC_CheckLockTime :: "tx_checker \<Rightarrow> int \<Rightarrow> bool" where
  "TSC_CheckLockTime tc nLockTime =
     (let txLock = int (unat (tx_nLockTime (tc_txTo tc))) in
      if \<not> (txLock < LOCKTIME_THRESHOLD \<and> nLockTime < LOCKTIME_THRESHOLD \<or>
             LOCKTIME_THRESHOLD \<le> txLock \<and> LOCKTIME_THRESHOLD \<le> nLockTime) then False
      else if txLock < nLockTime then False
      else if SEQUENCE_FINAL = nSequence (tx_vin (tc_txTo tc) ! tc_nIn tc) then False
      else True)"

definition TSC_CheckSequence :: "tx_checker \<Rightarrow> int \<Rightarrow> bool" where
  "TSC_CheckSequence tc nSeq =
     (let txToSequence = int (unat (nSequence (tx_vin (tc_txTo tc) ! tc_nIn tc)));
          nLockTimeMask = SEQUENCE_LOCKTIME_TYPE_FLAG OR SEQUENCE_LOCKTIME_MASK;
          txToSequenceMasked = txToSequence AND nLockTimeMask;
          nSequenceMasked = nSeq AND nLockTimeMask in
      if tx_nVersion (tc_txTo tc) < 2 then False
      else if txToSequence AND SEQUENCE_LOCKTIME_DISABLE_FLAG \<noteq> 0 then False
      else if \<not> (txToSequenceMasked < SEQUENCE_LOCKTIME_TYPE_FLAG \<and> nSequenceMasked < SEQUENCE_LOCKTIME_TYPE_FLAG \<or>
                  SEQUENCE_LOCKTIME_TYPE_FLAG \<le> txToSequenceMasked \<and> SEQUENCE_LOCKTIME_TYPE_FLAG \<le> nSequenceMasked)
      then False
      else if txToSequenceMasked < nSequenceMasked then False
      else True)"

definition TransactionSignatureChecker :: "ed25519_env \<Rightarrow> (bytes \<Rightarrow> bytes) \<Rightarrow> tx_checker \<Rightarrow> checker" where
  "TransactionSignatureChecker ed h tc =
     \<lparr>CheckSig = TSC_CheckSig ed h tc, CheckLockTime = TSC_CheckLockTime tc,
      CheckSequence = TSC_CheckSequence tc\<rparr>"

section \<open>Witness programs and whole inputs\<close>

definition p2pkh_script :: "bytes \<Rightarrow> script" where
  "p2pkh_script program =
     push_opcode (push_opcode (push_data (push_opcode (push_opcode [] OP_DUP) OP_HASH160) program)
       OP_EQUALVERIFY) OP_CHECKSIG"

text \<open>The stack and the script a witness program runs with; \<open>None\<close> is success without a run.\<close>

definition witness_program_script ::
  "eval_env \<Rightarrow> valtype list \<Rightarrow> nat \<Rightarrow> bytes \<Rightarrow> failure + (stack \<times> script) option" where
  "witness_program_script env witness witversion program =
     (if witversion = 0 then
        if length program = 32 then
          (if length witness = 0 then set_error SCRIPT_ERR_WITNESS_PROGRAM_WITNESS_EMPTY
           else if SHA3_256 (hash_fns env) (last witness) \<noteq> program
           then set_error SCRIPT_ERR_WITNESS_PROGRAM_MISMATCH
           else Inr (Some (rev (butlast witness), last witness)))
        else if length program = 20 then
          (if length witness \<noteq> 2 then set_error SCRIPT_ERR_WITNESS_PROGRAM_MISMATCH
           else Inr (Some (rev witness, p2pkh_script program)))
        else set_error SCRIPT_ERR_WITNESS_PROGRAM_WRONG_LENGTH
      else if flag_set (flags env) SCRIPT_VERIFY_DISCOURAGE_UPGRADABLE_WITNESS_PROGRAM
      then set_error SCRIPT_ERR_DISCOURAGE_UPGRADABLE_WITNESS_PROGRAM
      else Inr None)"

definition VerifyWitnessProgram ::
  "eval_env \<Rightarrow> valtype list \<Rightarrow> nat \<Rightarrow> bytes \<Rightarrow> failure + unit" where
  "VerifyWitnessProgram env witness witversion program =
     bind_sum (witness_program_script env witness witversion program) (\<lambda>r.
       case r of
         None \<Rightarrow> Inr ()
       | Some (st, sc) \<Rightarrow>
           if list_ex (\<lambda>v. MAX_SCRIPT_ELEMENT_SIZE < length v) st then set_error SCRIPT_ERR_PUSH_SIZE
           else bind_sum (EvalScript (env\<lparr>sigversion := SIGVERSION_WITNESS_V0\<rparr>) st sc) (\<lambda>st.
             if length st \<noteq> 1 then set_error SCRIPT_ERR_EVAL_FALSE
             else if \<not> CastToBool (hd st) then set_error SCRIPT_ERR_EVAL_FALSE
             else Inr ()))"

text \<open>A script must leave a true element on the stack.\<close>

definition eval_true :: "eval_env \<Rightarrow> stack \<Rightarrow> script \<Rightarrow> failure + stack" where
  "eval_true env st sc =
     bind_sum (EvalScript (env\<lparr>sigversion := SIGVERSION_BASE\<rparr>) st sc) (\<lambda>st.
       if st = [] then set_error SCRIPT_ERR_EVAL_FALSE
       else if CastToBool (hd st) = False then set_error SCRIPT_ERR_EVAL_FALSE
       else Inr st)"

text \<open>\<open>stack.resize(1)\<close> keeps the bottom element (and would add an empty one).\<close>

definition resize1 :: "stack \<Rightarrow> stack" where
  "resize1 st = (if st = [] then [[]] else [last st])"

text \<open>The bare witness program: the stack and \<open>hadWitness\<close>.\<close>

definition verify_bare_witness ::
  "eval_env \<Rightarrow> script \<Rightarrow> script \<Rightarrow> valtype list \<Rightarrow> stack \<Rightarrow> failure + stack \<times> bool" where
  "verify_bare_witness env sig pub witness st =
     (if flag_set (flags env) SCRIPT_VERIFY_WITNESS then
        (case IsWitnessProgram pub of
           None \<Rightarrow> Inr (st, False)
         | Some (ver, prog) \<Rightarrow>
             if length sig \<noteq> 0 then set_error SCRIPT_ERR_WITNESS_MALLEATED
             else bind_sum (VerifyWitnessProgram env witness ver prog) (\<lambda>_. Inr (resize1 st, True)))
      else Inr (st, False))"

text \<open>The witness program inside a script hash.\<close>

definition verify_p2sh_witness ::
  "eval_env \<Rightarrow> script \<Rightarrow> script \<Rightarrow> valtype list \<Rightarrow> stack \<Rightarrow> bool \<Rightarrow> failure + stack \<times> bool" where
  "verify_p2sh_witness env sig pubKey2 witness st hadWitness =
     (if flag_set (flags env) SCRIPT_VERIFY_WITNESS then
        (case IsWitnessProgram pubKey2 of
           None \<Rightarrow> Inr (st, hadWitness)
         | Some (ver, prog) \<Rightarrow>
             if sig \<noteq> push_data [] pubKey2 then set_error SCRIPT_ERR_WITNESS_MALLEATED_P2SH
             else bind_sum (VerifyWitnessProgram env witness ver prog) (\<lambda>_. Inr (resize1 st, True)))
      else Inr (st, hadWitness))"

text \<open>The script behind a script hash, run on the stack \<open>stackCopy\<close> of the signature script.\<close>

definition verify_p2sh ::
  "eval_env \<Rightarrow> script \<Rightarrow> script \<Rightarrow> valtype list \<Rightarrow> stack \<Rightarrow> stack \<Rightarrow> bool \<Rightarrow> failure + stack \<times> bool" where
  "verify_p2sh env sig pub witness stackCopy st hadWitness =
     (if flag_set (flags env) SCRIPT_VERIFY_P2SH \<and> IsPayToScriptHash pub then
        if \<not> IsPushOnly sig then set_error SCRIPT_ERR_SIG_PUSHONLY
        else
          (case stackCopy of
             [] \<Rightarrow> Inl Assertion_failed
           | pubKey2 # st \<Rightarrow>
               bind_sum (eval_true env st pubKey2) (\<lambda>st.
                 verify_p2sh_witness env sig pubKey2 witness st hadWitness))
      else Inr (st, hadWitness))"

definition verify_final :: "u32 \<Rightarrow> valtype list \<Rightarrow> stack \<Rightarrow> bool \<Rightarrow> failure + unit" where
  "verify_final fl witness st hadWitness =
     bind_sum
       (if flag_set fl SCRIPT_VERIFY_CLEANSTACK then
          if \<not> flag_set fl SCRIPT_VERIFY_P2SH then Inl Assertion_failed
          else if \<not> flag_set fl SCRIPT_VERIFY_WITNESS then Inl Assertion_failed
          else if length st \<noteq> 1 then set_error SCRIPT_ERR_CLEANSTACK
          else Inr ()
        else Inr ()) (\<lambda>_.
       if flag_set fl SCRIPT_VERIFY_WITNESS then
         if \<not> flag_set fl SCRIPT_VERIFY_P2SH then Inl Assertion_failed
         else if \<not> hadWitness \<and> \<not> CScriptWitness_IsNull witness
         then set_error SCRIPT_ERR_WITNESS_UNEXPECTED
         else Inr ()
       else Inr ())"

text \<open>\<open>sigversion env\<close> is not used: the two script versions set it.\<close>

definition VerifyScript ::
  "eval_env \<Rightarrow> script \<Rightarrow> script \<Rightarrow> valtype list option \<Rightarrow> failure + unit" where
  "VerifyScript env sig pub witness =
     (let witness = (case witness of None \<Rightarrow> [] | Some w \<Rightarrow> w) in
      if flag_set (flags env) SCRIPT_VERIFY_SIGPUSHONLY \<and> \<not> IsPushOnly sig
      then set_error SCRIPT_ERR_SIG_PUSHONLY
      else bind_sum (EvalScript (env\<lparr>sigversion := SIGVERSION_BASE\<rparr>) [] sig) (\<lambda>stackCopy.
        bind_sum (eval_true env stackCopy pub) (\<lambda>st.
        bind_sum (verify_bare_witness env sig pub witness st) (\<lambda>(st, hadWitness).
        bind_sum (verify_p2sh env sig pub witness stackCopy st hadWitness) (\<lambda>(st, hadWitness).
          verify_final (flags env) witness st hadWitness)))))"

section \<open>Signature operations of a witness\<close>

definition WitnessSigOps :: "nat \<Rightarrow> bytes \<Rightarrow> valtype list \<Rightarrow> nat" where
  "WitnessSigOps witversion witprogram witness =
     (if witversion = 0 then
        if length witprogram = 20 then 1
        else if length witprogram = 32 \<and> length witness > 0 then GetSigOpCount (last witness) True
        else 0
      else 0)"

lemma GetOp2_shorter': "s \<noteq> [] \<Longrightarrow> GetOp2 s = (ok, opcode, dat, pc) \<Longrightarrow> length pc < length s"
  by (cases s) (auto simp: GetOp2_def split: if_splits option.splits)

text \<open>The loop that keeps the data of the last instruction; every call advances the iterator.\<close>

function last_data :: "valtype \<Rightarrow> script \<Rightarrow> valtype" where
  "last_data dat pc =
     (if pc = [] then dat else case GetOp2 pc of (ok, opcode, dat', pc') \<Rightarrow> last_data dat' pc')"
  by pat_completeness auto
termination
  by (relation "measure (\<lambda>(_, pc). length pc)") (auto dest: GetOp2_shorter' [OF _ sym])

declare last_data.simps [simp del]

text \<open>\<open>None\<close> is the failed assertion on the flags.\<close>

definition CountWitnessSigOps ::
  "script \<Rightarrow> script \<Rightarrow> valtype list option \<Rightarrow> u32 \<Rightarrow> nat option" where
  "CountWitnessSigOps sig pub witness fl =
     (let wit = (case witness of None \<Rightarrow> [] | Some w \<Rightarrow> w) in
      if \<not> flag_set fl SCRIPT_VERIFY_WITNESS then Some 0
      else if \<not> flag_set fl SCRIPT_VERIFY_P2SH then None
      else
        case IsWitnessProgram pub of
          Some (ver, prog) \<Rightarrow> Some (WitnessSigOps ver prog wit)
        | None \<Rightarrow>
            if IsPayToScriptHash pub \<and> IsPushOnly sig then
              (case IsWitnessProgram (last_data [] sig) of
                 Some (ver, prog) \<Rightarrow> Some (WitnessSigOps ver prog wit)
               | None \<Rightarrow> Some 0)
            else Some 0)"

section \<open>What a signature commits to\<close>

text \<open>The script without its \<open>OP_CODESEPARATOR\<close>s, for a script that can be read to its end.\<close>

function parses :: "script \<Rightarrow> bool" where
  "parses it = (if it = [] then True else case GetOp it of None \<Rightarrow> False | Some (_, _, it') \<Rightarrow> parses it')"
  by pat_completeness auto
termination
  by (relation "measure length") (auto dest: GetOp_shorter)

function remove_separators :: "script \<Rightarrow> script" where
  "remove_separators it =
     (case GetOp it of
        None \<Rightarrow> []
      | Some (opcode, _, it') \<Rightarrow>
          (if opcode = OP_CODESEPARATOR then [] else take (length it - length it') it) @ remove_separators it')"
  by pat_completeness auto
termination
  by (relation "measure length") (auto dest: GetOp_shorter)

declare parses.simps [simp del] remove_separators.simps [simp del]

lemma GetOp_Nil [simp]: "GetOp [] = None"
  by (simp add: GetOp_def GetOp2_def)

lemma GetOp_drop:
  assumes "GetOp (c # pc) = Some (opcode, dat, it')"
  shows "opcode = c" and "\<exists>k. it' = drop k pc \<and> (\<not> opcode \<le> OP_PUSHDATA4 \<longrightarrow> k = 0)"
proof -
  show "opcode = c"
    using assms by (auto simp: GetOp_def GetOp2_def split: if_splits option.splits)
  consider k where "it' = drop k pc" "opcode \<le> OP_PUSHDATA4" | "it' = pc"
    using assms by (auto simp: GetOp_def GetOp2_def split: if_splits option.splits)
  then show "\<exists>k. it' = drop k pc \<and> (\<not> opcode \<le> OP_PUSHDATA4 \<longrightarrow> k = 0)"
    by cases (auto intro: exI [of _ 0])
qed

lemma GetOp_suffix:
  assumes "GetOp it = Some (opcode, dat, it')"
  shows "\<exists>q. it = opcode # q @ it' \<and> (opcode = OP_CODESEPARATOR \<longrightarrow> q = [])"
proof (cases it)
  case (Cons c pc)
  from GetOp_drop [OF assms [unfolded Cons]] obtain k where
    k: "it' = drop k pc" "\<not> opcode \<le> OP_PUSHDATA4 \<longrightarrow> k = 0" and "opcode = c" by blast
  then have "it = opcode # take k pc @ it'" using Cons by simp
  moreover have "opcode = OP_CODESEPARATOR \<longrightarrow> take k pc = []" using k(2) by auto
  ultimately show ?thesis by blast
qed (use assms in simp)

lemma parses_GetOp:
  assumes "parses it" and "it \<noteq> []"
  shows "\<exists>opcode dat q it'. GetOp it = Some (opcode, dat, it') \<and> parses it' \<and>
    it = opcode # q @ it' \<and> (opcode = OP_CODESEPARATOR \<longrightarrow> q = [])"
proof -
  obtain opcode dat it' where op: "GetOp it = Some (opcode, dat, it')" "parses it'"
    using assms by (subst (asm) parses.simps) (auto split: option.splits)
  with GetOp_suffix [OF op(1)] show ?thesis by blast
qed

lemma write_script_code_eq:
  "parses it \<Longrightarrow> write_script_code (p @ it) it = p @ remove_separators it"
proof (induction "length it" arbitrary: p it rule: less_induct)
  case less
  show ?case
  proof (cases "it = []")
    case True
    then show ?thesis
      by (subst write_script_code.simps, subst remove_separators.simps) (simp add: GetOp2_def)
  next
    case False
    from parses_GetOp [OF less(2) False]
    obtain opcode dat q it' where op: "GetOp it = Some (opcode, dat, it')" and pr: "parses it'"
      and it: "it = opcode # q @ it'" and sep: "opcode = OP_CODESEPARATOR \<longrightarrow> q = []" by (elim exE conjE)
    have op2: "GetOp2 it = (True, opcode, dat, it')"
      using op by (auto simp: GetOp_def split: prod.splits if_splits)
    note ih = less(1) [OF _ pr]
    show ?thesis
    proof (cases "opcode = OP_CODESEPARATOR")
      case True
      then show ?thesis using ih [of "[]"] op op2 it sep
        by (subst write_script_code.simps, subst remove_separators.simps) simp
    next
      case False
      then show ?thesis using ih [of "p @ opcode # q"] op op2 it
        by (subst write_script_code.simps, subst remove_separators.simps) simp
    qed
  qed
qed

lemma count_separators_eq:
  "parses it \<Longrightarrow> count_separators n it + length (remove_separators it) = n + length it"
proof (induction "length it" arbitrary: n it rule: less_induct)
  case less
  show ?case
  proof (cases "it = []")
    case True
    then show ?thesis by (subst count_separators.simps, subst remove_separators.simps) simp
  next
    case False
    from parses_GetOp [OF less(2) False]
    obtain opcode dat q it' where op: "GetOp it = Some (opcode, dat, it')" and pr: "parses it'"
      and it: "it = opcode # q @ it'" and sep: "opcode = OP_CODESEPARATOR \<longrightarrow> q = []" by (elim exE conjE)
    show ?thesis
      using less(1) [OF _ pr, of "if opcode = OP_CODESEPARATOR then n + 1 else n"] op it sep
      by (subst count_separators.simps, subst remove_separators.simps) auto
  qed
qed

lemma SerializeScriptCode_eq:
  assumes "parses s"
  shows "SerializeScriptCode s = Serialize_bytes (remove_separators s)"
proof -
  have "length s - count_separators 0 s = length (remove_separators s)"
    using count_separators_eq [OF assms, of 0] by simp
  then show ?thesis
    using write_script_code_eq [OF assms, of "[]"] by (simp add: SerializeScriptCode_def Serialize_bytes_def)
qed

lemma SignatureHash_cached:
  "SignatureHash h sc tx nIn ht amount sv (Some (Precompute h tx)) = SignatureHash h sc tx nIn ht amount sv None"
  by (simp add: SignatureHash_def witness_preimage_def Let_def Precompute_def)

lemma SignatureHash_anyone_can_pay:
  assumes "nIn < length (tx_vin tx)" and "ht AND of_nat SIGHASH_ANYONECANPAY \<noteq> 0"
    and "ht AND 0x1F \<noteq> of_nat SIGHASH_SINGLE"
  shows "SignatureHash h sc tx nIn ht amount sv None =
    SignatureHash h sc (tx\<lparr>tx_vin := [tx_vin tx ! nIn]\<rparr>) 0 ht amount sv None"
proof -
  define ss where "ss = CTransactionSignatureSerializer tx sc nIn ht"
  define ss' where "ss' = CTransactionSignatureSerializer (tx\<lparr>tx_vin := [tx_vin tx ! nIn]\<rparr>) sc 0 ht"
  have out: "SerializeOutput ss = SerializeOutput ss'"
    using assms(3) by (intro ext) (simp add: SerializeOutput_def ss_def ss'_def CTransactionSignatureSerializer_def)
  have "SerializeSigTx ss = SerializeSigTx ss'"
    using assms unfolding SerializeSigTx_def out Let_def
    by (simp add: SerializeInput_def ss_def ss'_def CTransactionSignatureSerializer_def)
  then show ?thesis
    using assms
    by (auto simp: SignatureHash_def witness_preimage_def Let_def GetOutputsHash_def simp flip: ss_def ss'_def)
qed

lemma codec_append_eq:
  "ser_writedata32 w @ s = ser_writedata32 v @ t \<longleftrightarrow> w = v \<and> s = t"
  "Serialize_uint256 x @ s = Serialize_uint256 y @ t \<longleftrightarrow> x = y \<and> s = t"
  "Serialize_COutPoint p @ s = Serialize_COutPoint q @ t \<longleftrightarrow> p = q \<and> s = t"
  by (auto dest: u32.ser_prefix_free [OF TrueI TrueI] uint256.ser_prefix_free [OF TrueI TrueI]
      outpoint.ser_prefix_free [OF TrueI TrueI])

lemma witness_preimage_inj:
  assumes "witness_preimage h sc tx nIn ht amount None = witness_preimage h sc' tx' nIn' ht' amount' None"
    and "fits_size sc" "fits_size sc'" "- (2 ^ 63) \<le> amount" "amount < 2 ^ 63" "- (2 ^ 63) \<le> amount'" "amount' < 2 ^ 63"
  shows "tx_nVersion tx = tx_nVersion tx' \<and> prevout (tx_vin tx ! nIn) = prevout (tx_vin tx' ! nIn') \<and> sc = sc' \<and>
    amount = amount' \<and> nSequence (tx_vin tx ! nIn) = nSequence (tx_vin tx' ! nIn') \<and>
    tx_nLockTime tx = tx_nLockTime tx' \<and> ht = ht'"
proof -
  have sc: "Serialize_bytes sc @ s = Serialize_bytes sc' @ t \<longleftrightarrow> sc = sc' \<and> s = t" for s t
    by (auto dest: byte_vector.ser_prefix_free [OF assms(2,3)])
  have am: "Serialize_int64 amount @ s = Serialize_int64 amount' @ t \<longleftrightarrow> amount = amount' \<and> s = t" for s t
    using assms(4-7) by (auto dest!: int64.ser_prefix_free [rotated 2])
  have end_eq: "ser_writedata32 ht = ser_writedata32 ht' \<longleftrightarrow> ht = ht'"
    using codec_append_eq(1) [of ht "[]" ht' "[]"] by simp
  show ?thesis
    using assms(1) unfolding witness_preimage_def Let_def codec_append_eq sc am end_eq by simp
qed

lemma CheckSig_trailing_bytes:
  assumes "length sig = SIGNATURE_SIZE"
  shows "TSC_CheckSig ed h tc (sig @ extra @ [ht]) pk sc sv = TSC_CheckSig ed h tc (sig @ [ht]) pk sc sv"
  using assms by (simp add: TSC_CheckSig_def CPubKey_Verify_def Let_def butlast_append split: option.splits)

lemma CheckSig_bad_key_length:
  assumes "length pk \<noteq> PUBLIC_KEY_SIZE"
  shows "TSC_CheckSig ed h tc sig pk sc sv = TSC_CheckSig ed h tc sig [] sc sv"
  using assms by (simp add: TSC_CheckSig_def CPubKey_of_def CPubKey_Set_def Let_def PUBLIC_KEY_SIZE_def)

section \<open>Whole inputs\<close>

lemma EvalScript_HASH160_empty: "EvalScript env [] (OP_HASH160 # r) \<noteq> Inr st"
proof -
  have "GetOp (OP_HASH160 # r) = Some (OP_HASH160, [], r)"
    by (simp add: GetOp_def GetOp2_def)
  then have "eval_step env (eval_init [] (OP_HASH160 # r)) = INVALID"
    by (simp add: eval_step_def eval_init_def disabled_opcode_def eval_exec_def eval_opcode_def
        on_stack_def MAX_SCRIPT_ELEMENT_SIZE_def MAX_OPS_PER_SCRIPT_def)
  then show ?thesis
    by (simp add: EvalScript_def eval_run.simps [of _ "eval_init [] (OP_HASH160 # r)"])
      (simp add: eval_init_def)
qed

lemma p2sh_needs_stack:
  assumes "IsPayToScriptHash pub" and "eval_true env st pub = Inr st'"
  shows "st \<noteq> []"
proof
  assume "st = []"
  obtain r where "pub = OP_HASH160 # r"
    using assms(1) by (cases pub) (auto simp: IsPayToScriptHash_def)
  with assms(2) \<open>st = []\<close> EvalScript_HASH160_empty show False
    by (auto simp: eval_true_def split: sum.splits)
qed

text \<open>The flag combinations the assertions of the code ask for.\<close>

definition flags_ok :: "u32 \<Rightarrow> bool" where
  "flags_ok fl \<longleftrightarrow>
     (flag_set fl SCRIPT_VERIFY_WITNESS \<longrightarrow> flag_set fl SCRIPT_VERIFY_P2SH) \<and>
     (flag_set fl SCRIPT_VERIFY_CLEANSTACK \<longrightarrow> flag_set fl SCRIPT_VERIFY_P2SH \<and> flag_set fl SCRIPT_VERIFY_WITNESS)"

lemma eval_true_ok:
  assumes "small st" and "length st \<le> MAX_STACK_SIZE" and "hashes_small (hash_fns env)"
  shows "ensures (eval_true env st sc) (\<lambda>_. True)"
proof -
  note ok = EvalScript_ok [OF assms(1,2) order_refl, of "env\<lparr>sigversion := SIGVERSION_BASE\<rparr>"]
  show ?thesis
    unfolding eval_true_def
    by (rule ensures_bindI [OF ok]) (auto simp: MAX_STACK_SIZE_def assms(3))
qed

lemma VerifyWitnessProgram_ok:
  assumes "length witness < 2 ^ 63" and "hashes_small (hash_fns env)"
  shows "ensures (VerifyWitnessProgram env witness ver prog) (\<lambda>_. True)"
proof -
  have run: "ensures (EvalScript (env\<lparr>sigversion := SIGVERSION_WITNESS_V0\<rparr>) st sc) (\<lambda>_. True)"
    if "length st \<le> length witness" and "\<not> list_ex (\<lambda>v. MAX_SCRIPT_ELEMENT_SIZE < length v) st" for st sc
  proof -
    have "small st" using that(2) by (auto simp: small_def list_ex_iff list_all_iff not_less)
    then have "ensures (EvalScript (env\<lparr>sigversion := SIGVERSION_WITNESS_V0\<rparr>) st sc)
        (\<lambda>st'. small st' \<and> length st' \<le> max (length witness) MAX_STACK_SIZE)"
      using that(1) assms by (intro EvalScript_ok) (auto simp: MAX_STACK_SIZE_def)
    then show ?thesis by (rule ensures_mono) simp
  qed
  have prog: "ensures (witness_program_script env witness ver prog)
      (\<lambda>r. \<forall>st sc. r = Some (st, sc) \<longrightarrow> length st \<le> length witness)"
    by (simp add: witness_program_script_def)
  show ?thesis
    unfolding VerifyWitnessProgram_def
    by (rule ensures_bindI [OF prog])
      (auto split: option.split intro!: ensures_if ensures_True_bind [OF run])
qed

lemma verify_bare_witness_ok:
  assumes "length witness < 2 ^ 63" and "hashes_small (hash_fns env)"
  shows "ensures (verify_bare_witness env sig pub witness st) (\<lambda>_. True)"
  by (auto simp: verify_bare_witness_def split: option.split
      intro!: ensures_True_bind [OF VerifyWitnessProgram_ok [OF assms]])

lemma verify_p2sh_witness_ok:
  assumes "length witness < 2 ^ 63" and "hashes_small (hash_fns env)"
  shows "ensures (verify_p2sh_witness env sig pubKey2 witness st hadWitness) (\<lambda>_. True)"
  by (auto simp: verify_p2sh_witness_def split: option.split
      intro!: ensures_True_bind [OF VerifyWitnessProgram_ok [OF assms]])

lemma verify_p2sh_ok:
  assumes "length witness < 2 ^ 63" and "hashes_small (hash_fns env)"
    and "small stackCopy" and "length stackCopy \<le> MAX_STACK_SIZE" and "eval_true env stackCopy pub = Inr st0"
  shows "ensures (verify_p2sh env sig pub witness stackCopy st hadWitness) (\<lambda>_. True)"
proof (cases stackCopy)
  case Nil
  with p2sh_needs_stack assms(5) have "\<not> IsPayToScriptHash pub" by blast
  then show ?thesis by (simp add: verify_p2sh_def)
next
  case (Cons v st')
  have "ensures (eval_true env st' v) (\<lambda>_. True)"
    using assms Cons by (intro eval_true_ok) auto
  then show ?thesis
    by (auto simp: verify_p2sh_def Cons intro!: ensures_True_bind verify_p2sh_witness_ok [OF assms(1,2)])
qed

lemma verify_final_ok:
  "flags_ok fl \<Longrightarrow> ensures (verify_final fl witness st hadWitness) (\<lambda>_. True)"
  by (auto simp: verify_final_def flags_ok_def)

lemma VerifyScript_ok:
  assumes "flags_ok (flags env)" and "hashes_small (hash_fns env)"
    and "case wit of None \<Rightarrow> True | Some w \<Rightarrow> length w < 2 ^ 63"
  shows "ensures (VerifyScript env sig pub wit) (\<lambda>_. True)"
proof -
  define w where "w = (case wit of None \<Rightarrow> [] | Some w \<Rightarrow> w)"
  have w: "length w < 2 ^ 63" using assms(3) by (simp add: w_def split: option.splits)
  note sig_ok = EvalScript_ok [of "[]", OF _ _ order_refl, of "env\<lparr>sigversion := SIGVERSION_BASE\<rparr>" sig]
  have pub_ok: "ensures (bind_sum (eval_true env stackCopy pub) (\<lambda>st.
        bind_sum (verify_bare_witness env sig pub w st) (\<lambda>(st, hadWitness).
        bind_sum (verify_p2sh env sig pub w stackCopy st hadWitness) (\<lambda>(st, hadWitness).
          verify_final (flags env) w st hadWitness)))) (\<lambda>_. True)"
    if "small stackCopy \<and> length stackCopy \<le> MAX_STACK_SIZE" for stackCopy
  proof (cases "eval_true env stackCopy pub")
    case (Inl e)
    with eval_true_ok [of stackCopy env pub] that assms(2) show ?thesis by simp
  next
    case (Inr st)
    have "ensures (verify_p2sh env sig pub w stackCopy st1 b) (\<lambda>_. True)" for st1 b
      using verify_p2sh_ok [OF w assms(2) _ _ Inr] that by simp
    then show ?thesis
      unfolding Inr sum.case
      by (intro ensures_True_bind [OF verify_bare_witness_ok [OF w assms(2)]])
        (auto intro!: ensures_True_bind verify_final_ok assms(1))
  qed
  show ?thesis
    unfolding VerifyScript_def w_def [symmetric] Let_def
    by (intro ensures_if ensures_errorI ensures_bindI [OF sig_ok pub_ok])
      (auto simp: MAX_STACK_SIZE_def assms(2))
qed

section \<open>Flags only restrict whole inputs\<close>

lemma subenv_sig: "subenv env' env \<Longrightarrow> subenv (env'\<lparr>sigversion := v\<rparr>) (env\<lparr>sigversion := v\<rparr>)"
  unfolding subenv_def by (elim exE conjE, rule_tac x = f in exI) simp

lemma eval_true_weaker:
  "subenv env' env \<Longrightarrow> weaker (eval_true env' st sc) (eval_true env st sc)"
  unfolding eval_true_def by (intro weaker_bind weaker_refl EvalScript_weaker subenv_sig)

lemma VerifyWitnessProgram_weaker:
  assumes "subenv env' env"
  shows "weaker (VerifyWitnessProgram env' witness ver prog) (VerifyWitnessProgram env witness ver prog)"
proof -
  have "weaker (witness_program_script env' witness ver prog) (witness_program_script env witness ver prog)"
    unfolding witness_program_script_def subenv_hash_fns [OF assms]
    by (intro weaker_if weaker_refl weaker_guard subenv_flag [OF assms])
  then show ?thesis
    unfolding VerifyWitnessProgram_def
    by (rule weaker_bind)
      (auto split: option.split intro!: weaker_if weaker_bind EvalScript_weaker subenv_sig assms)
qed

lemma verify_p2sh_weaker:
  assumes "subenv env' env" and "flags_ok (flags env)"
    and "verify_bare_witness env' sig pub w st = Inr (st1, b)"
    and "verify_p2sh env' sig pub w stackCopy st1 b = Inr (st2, c)"
    and "verify_final (flags env') w st2 c = Inr ()"
  shows "bind_sum (verify_bare_witness env sig pub w st) (\<lambda>(st, hadWitness).
      bind_sum (verify_p2sh env sig pub w stackCopy st hadWitness) (\<lambda>(st, hadWitness).
        verify_final (flags env) w st hadWitness)) = Inr ()"
proof (cases "flag_set (flags env) SCRIPT_VERIFY_WITNESS")
  case True
  have wit: "flag_set (flags env') SCRIPT_VERIFY_WITNESS" using subenv_flag [OF assms(1) True] .
  have p2sh: "flag_set (flags env) SCRIPT_VERIFY_P2SH" using True assms(2) by (simp add: flags_ok_def)
  have p2sh': "flag_set (flags env') SCRIPT_VERIFY_P2SH" using subenv_flag [OF assms(1) p2sh] .
  have bare: "verify_bare_witness env sig pub w st = Inr (st1, b)"
    using assms(3) True wit weakerD [OF VerifyWitnessProgram_weaker [OF assms(1)]]
    by (auto simp: verify_bare_witness_def split: option.splits if_splits sum.splits)
  have p2shw: "weaker (verify_p2sh_witness env' sig k w s d) (verify_p2sh_witness env sig k w s d)" for k s d
    unfolding verify_p2sh_witness_def if_P [OF True] if_P [OF wit]
    by (cases "IsWitnessProgram k")
      (auto intro!: weaker_if weaker_refl weaker_bind VerifyWitnessProgram_weaker assms(1))
  have "weaker (verify_p2sh env' sig pub w stackCopy st1 b) (verify_p2sh env sig pub w stackCopy st1 b)"
    unfolding verify_p2sh_def using p2sh p2sh'
    by (cases stackCopy) (auto intro!: weaker_if weaker_refl weaker_bind eval_true_weaker p2shw assms(1))
  from weakerD [OF this assms(4)] have "verify_p2sh env sig pub w stackCopy st1 b = Inr (st2, c)" .
  moreover have "verify_final (flags env) w st2 c = Inr ()"
    using assms(5) True wit p2sh p2sh' subenv_flag [OF assms(1), of SCRIPT_VERIFY_CLEANSTACK]
    by (auto simp: verify_final_def split: if_splits)
  ultimately show ?thesis using bare by simp
next
  case False
  have cs: "\<not> flag_set (flags env) SCRIPT_VERIFY_CLEANSTACK" using False assms(2) by (auto simp: flags_ok_def)
  have fin: "verify_final (flags env) w s d = Inr ()" for s d using False cs by (simp add: verify_final_def)
  have bare: "verify_bare_witness env sig pub w st = Inr (st, False)"
    using False by (simp add: verify_bare_witness_def)
  have "\<exists>r. verify_p2sh env sig pub w stackCopy st False = Inr r"
  proof (cases "flag_set (flags env) SCRIPT_VERIFY_P2SH \<and> IsPayToScriptHash pub")
    case True
    then have p: "flag_set (flags env') SCRIPT_VERIFY_P2SH" "IsPayToScriptHash pub"
      using subenv_flag [OF assms(1)] by auto
    obtain k s s1 where k: "stackCopy = k # s" "IsPushOnly sig" "eval_true env' s k = Inr s1"
      using assms(4) p by (auto simp: verify_p2sh_def split: list.splits if_splits sum.splits)
    from weakerD [OF eval_true_weaker [OF assms(1)] k(3)] k True False show ?thesis
      by (auto simp: verify_p2sh_def verify_p2sh_witness_def)
  qed (auto simp: verify_p2sh_def)
  with bare fin show ?thesis by auto
qed

lemma VerifyScript_weaker:
  assumes "subenv env' env" and "flags_ok (flags env)"
    and "VerifyScript env' sig pub wit = Inr ()"
  shows "VerifyScript env sig pub wit = Inr ()"
proof -
  define w where "w = (case wit of None \<Rightarrow> [] | Some w \<Rightarrow> w)"
  obtain stackCopy st st1 b st2 c where run:
    "\<not> (flag_set (flags env') SCRIPT_VERIFY_SIGPUSHONLY \<and> \<not> IsPushOnly sig)"
    "EvalScript (env'\<lparr>sigversion := SIGVERSION_BASE\<rparr>) [] sig = Inr stackCopy"
    "eval_true env' stackCopy pub = Inr st"
    "verify_bare_witness env' sig pub w st = Inr (st1, b)"
    "verify_p2sh env' sig pub w stackCopy st1 b = Inr (st2, c)"
    "verify_final (flags env') w st2 c = Inr ()"
    using assms(3) unfolding VerifyScript_def w_def [symmetric] Let_def
    by (auto split: if_splits sum.splits)
  from weakerD [OF EvalScript_weaker [OF subenv_sig [OF assms(1)]] run(2)]
    weakerD [OF eval_true_weaker [OF assms(1)] run(3)]
    verify_p2sh_weaker [OF assms(1,2) run(4-6)] run(1) subenv_flag [OF assms(1)]
  show ?thesis
    unfolding VerifyScript_def w_def [symmetric] Let_def by auto
qed

section \<open>Pay to public key hash\<close>

lemma GetOp_opcode: "\<not> opcode \<le> OP_PUSHDATA4 \<Longrightarrow> GetOp (opcode # r) = Some (opcode, [], r)"
  by (simp add: GetOp_def GetOp2_def)

text \<open>One round of the machine on an instruction without data, outside conditionals.\<close>

lemma run_opcode:
  assumes "eval_pc s = opcode # r" and "vfExec s = []" and "OP_16 < opcode" and "\<not> disabled_opcode opcode"
    and "nOpCount s < MAX_OPS_PER_SCRIPT"
  shows "eval_run env s = bind_sum (bind_sum
    (eval_opcode env opcode True (s\<lparr>eval_pc := r, nOpCount := nOpCount s + 1\<rparr>)) check_stack_size) (eval_run env)"
proof -
  have "\<not> opcode \<le> OP_PUSHDATA4" using assms(3) by (simp add: word_less_nat_alt word_le_nat_alt)
  then show ?thesis
    using assms GetOp_opcode [of opcode r]
    by (subst eval_run.simps) (simp add: eval_step_def eval_exec_def MAX_SCRIPT_ELEMENT_SIZE_def)
qed

lemma run_push:
  assumes "eval_pc s = push_data [] b @ r" and "vfExec s = []" and "2 \<le> length b" and "length b \<le> 75"
  shows "eval_run env s =
    bind_sum (check_stack_size (s\<lparr>eval_pc := r, stk := b # stk s\<rparr>)) (eval_run env)"
proof -
  have pd: "push_data [] b = of_nat (length b) # b"
    using assms(4) by (simp add: push_data_def)
  have n: "unat (of_nat (length b) :: byte) = length b" using assms(4) by simp
  have op: "GetOp (eval_pc s) = Some (of_nat (length b), b, r)"
    using assms(1,4) n by (simp add: pd GetOp_def GetOp2_def word_le_nat_alt word_less_nat_alt)
  have le: "(of_nat (length b) :: byte) \<le> OP_PUSHDATA4" "\<not> OP_16 < (of_nat (length b) :: byte)"
    using assms(4) n by (simp_all add: word_le_nat_alt word_less_nat_alt)
  have dis: "\<not> disabled_opcode (of_nat (length b))"
    using assms(4) n by (auto simp: disabled_opcode_def word_unat_eq_iff)
  have min: "CheckMinimalPush b (of_nat (length b)) = Some True"
    using assms(3,4) le n by (auto simp: CheckMinimalPush_def)
  have same: "s\<lparr>eval_pc := r, nOpCount := nOpCount s, stk := b # stk s\<rparr> = s\<lparr>eval_pc := r, stk := b # stk s\<rparr>"
    by (cases s) simp
  show ?thesis
    using assms op le dis min
    by (subst eval_run.simps)
      (auto simp: pd eval_step_def eval_exec_def MAX_SCRIPT_ELEMENT_SIZE_def Let_def same)
qed

lemma p2pkh_script_eq: "p2pkh_script h = OP_DUP # OP_HASH160 # push_data [] h @ [OP_EQUALVERIFY, OP_CHECKSIG]"
  by (simp add: p2pkh_script_def push_opcode_def push_data_def)

lemma EvalScript_p2pkh:
  assumes "length h = 20" and "length st + 4 \<le> MAX_STACK_SIZE"
  shows "EvalScript env (pub # sig # st) (p2pkh_script h) =
    (if Hash160 (hash_fns env) pub \<noteq> h then set_error SCRIPT_ERR_EQUALVERIFY
     else eval_CHECKSIG env OP_CHECKSIG (p2pkh_script h) (pub # sig # st))"
proof -
  define s0 where "s0 = eval_init (pub # sig # st) (p2pkh_script h)"
  define tail where "tail = [OP_EQUALVERIFY, OP_CHECKSIG]"
  define s3 where "s3 = s0\<lparr>eval_pc := tail, nOpCount := 2, stk := h # Hash160 (hash_fns env) pub # pub # sig # st\<rparr>"
  have size: "length (p2pkh_script h) \<le> MAX_SCRIPT_SIZE"
    using assms(1) by (simp add: p2pkh_script_eq push_data_def MAX_SCRIPT_SIZE_def)
  have ops: "eval_opcode env OP_DUP True s = on_stack s (eval_DUP (stk s))"
    "eval_opcode env OP_HASH160 True s = on_stack s (eval_HASH env OP_HASH160 (stk s))"
    "eval_opcode env OP_EQUALVERIFY True s = on_stack s (eval_EQUAL OP_EQUALVERIFY (stk s))"
    "eval_opcode env OP_CHECKSIG True s = on_stack s (eval_CHECKSIG env OP_CHECKSIG (pbegincodehash s) (stk s))" for s
    by (simp_all add: eval_opcode_def)
  have dis: "\<not> disabled_opcode OP_DUP" "\<not> disabled_opcode OP_HASH160" "\<not> disabled_opcode OP_EQUALVERIFY"
    "\<not> disabled_opcode OP_CHECKSIG" by (simp_all add: disabled_opcode_def)
  have s0: "eval_pc s0 = OP_DUP # OP_HASH160 # push_data [] h @ tail" "vfExec s0 = []" "nOpCount s0 = 0"
    "stk s0 = pub # sig # st" "altstack s0 = []" "pbegincodehash s0 = p2pkh_script h"
    by (simp_all add: s0_def eval_init_def p2pkh_script_eq tail_def)
  have st: "\<not> MAX_STACK_SIZE < length st" "\<not> MAX_STACK_SIZE < Suc (length st)" "\<not> MAX_STACK_SIZE < Suc (Suc (length st))"
    "\<not> MAX_STACK_SIZE < Suc (Suc (Suc (length st)))" "\<not> MAX_STACK_SIZE < Suc (Suc (Suc (Suc (length st))))"
    using assms(2) by auto
  have r1: "eval_run env s0 = eval_run env
      (s0\<lparr>eval_pc := OP_HASH160 # push_data [] h @ tail, nOpCount := 1, stk := pub # pub # sig # st\<rparr>)"
    using s0 by (subst run_opcode [OF s0(1,2) _ dis(1)])
      (simp_all add: MAX_OPS_PER_SCRIPT_def ops on_stack_def check_stack_size_def st numeral_2_eq_2 [symmetric])
  have r2: "eval_run env (s0\<lparr>eval_pc := OP_HASH160 # push_data [] h @ tail, nOpCount := 1, stk := pub # pub # sig # st\<rparr>) =
      eval_run env (s0\<lparr>eval_pc := push_data [] h @ tail, nOpCount := 2, stk := Hash160 (hash_fns env) pub # pub # sig # st\<rparr>)"
    using s0 by (subst run_opcode [where opcode = OP_HASH160 and r = "push_data [] h @ tail"])
      (simp_all add: dis MAX_OPS_PER_SCRIPT_def ops on_stack_def check_stack_size_def st numeral_2_eq_2 [symmetric])
  have r3: "eval_run env (s0\<lparr>eval_pc := push_data [] h @ tail, nOpCount := 2, stk := Hash160 (hash_fns env) pub # pub # sig # st\<rparr>) =
      eval_run env s3"
    using s0 assms(1) by (subst run_push [where b = h and r = tail])
      (simp_all add: s3_def check_stack_size_def st, cases s0, simp)
  have r4: "eval_run env s3 = (if Hash160 (hash_fns env) pub \<noteq> h then set_error SCRIPT_ERR_EQUALVERIFY
      else eval_run env (s0\<lparr>eval_pc := [OP_CHECKSIG], nOpCount := 3, stk := pub # sig # st\<rparr>))"
    using s0 by (subst run_opcode [where opcode = OP_EQUALVERIFY and r = "[OP_CHECKSIG]"])
      (simp_all add: s3_def tail_def dis MAX_OPS_PER_SCRIPT_def ops on_stack_def check_stack_size_def st numeral_2_eq_2 [symmetric])
  have len: "eval_CHECKSIG env OP_CHECKSIG c (pub # sig # st) = Inr st' \<Longrightarrow> length st' = Suc (length st)" for c st'
    by (auto simp: eval_CHECKSIG_def Let_def split: sum.splits if_splits)
  have r5: "eval_run env (s0\<lparr>eval_pc := [OP_CHECKSIG], nOpCount := 3, stk := pub # sig # st\<rparr>) =
      bind_sum (eval_CHECKSIG env OP_CHECKSIG (p2pkh_script h) (pub # sig # st))
        (\<lambda>st'. Inr (s0\<lparr>eval_pc := [], nOpCount := 4, stk := st'\<rparr>))"
    using s0 by (subst run_opcode [where opcode = OP_CHECKSIG and r = "[]"])
      (auto simp: dis MAX_OPS_PER_SCRIPT_def ops on_stack_def check_stack_size_def st eval_run.simps
        split: sum.splits dest: len)
  show ?thesis
    using size r1 r2 r3 r4 r5
    by (auto simp: EvalScript_def simp flip: s0_def split: sum.splits) (simp add: s0_def eval_init_def)
qed

end
