(* ===== verification/TxVerify.thy ===== *)
theory TxVerify imports CoinsDB Chain Verify
begin

unbundle bit_operations_syntax

text \<open>
  The validity of a transaction, \<^verbatim>\<open>src/src/consensus/tx_verify.cpp\<close>, and the verdict
  \<open>CValidationState\<close> of \<^verbatim>\<open>src/src/consensus/validation.h\<close>: finality, relative lock times, signature
  operation counts, the context-free checks, and the check of the inputs against a view of the coins.
\<close>

section \<open>Verdicts\<close>

datatype mode_state = MODE_VALID | MODE_INVALID | MODE_ERROR

record CValidationState =
  vs_mode :: mode_state
  nDoS :: int
  strRejectReason :: string
  chRejectCode :: nat
  corruptionPossible :: bool

definition CValidationState_init :: CValidationState where
  "CValidationState_init = \<lparr>vs_mode = MODE_VALID, nDoS = 0, strRejectReason = '''', chRejectCode = 0,
     corruptionPossible = False\<rparr>"

definition REJECT_MALFORMED :: nat where "REJECT_MALFORMED = 0x01"
definition REJECT_INVALID :: nat where "REJECT_INVALID = 0x10"
definition REJECT_OBSOLETE :: nat where "REJECT_OBSOLETE = 0x11"

text \<open>What a check reports: the arguments of \<open>DoS\<close>, without the debug message.\<close>

record reject =
  rj_level :: int
  rj_code :: nat
  rj_reason :: string
  rj_corruption :: bool

definition DoS :: "CValidationState \<Rightarrow> reject \<Rightarrow> CValidationState" where
  "DoS st r =
     (let st = st\<lparr>chRejectCode := rj_code r, strRejectReason := rj_reason r, corruptionPossible := rj_corruption r\<rparr> in
      if vs_mode st = MODE_ERROR then st
      else st\<lparr>nDoS := nDoS st + rj_level r, vs_mode := MODE_INVALID\<rparr>)"

definition CValidationState_Error :: "CValidationState \<Rightarrow> string \<Rightarrow> CValidationState" where
  "CValidationState_Error st reason =
     (let st = (if vs_mode st = MODE_VALID then st\<lparr>strRejectReason := reason\<rparr> else st)
      in st\<lparr>vs_mode := MODE_ERROR\<rparr>)"

definition reject :: "int \<Rightarrow> string \<Rightarrow> reject" where
  "reject level reason = \<lparr>rj_level = level, rj_code = REJECT_INVALID, rj_reason = reason, rj_corruption = False\<rparr>"

text \<open>How a check can end otherwise: a failed assertion or a bad pointer, an exception, a fault of the
  coins.\<close>

datatype tx_error =
    Rejected reject
  | Fault chain_fault
  | Coins_fault coins_fault
  | Value_out_of_range

definition lift_fault :: "chain_fault + 'a \<Rightarrow> tx_error + 'a" where
  "lift_fault r = (case r of Inl e \<Rightarrow> Inl (Fault e) | Inr x \<Rightarrow> Inr x)"

section \<open>Finality\<close>

definition IsFinalTx :: "CTransaction \<Rightarrow> int \<Rightarrow> int \<Rightarrow> bool" where
  "IsFinalTx tx nBlockHeight nBlockTime =
     (if tx_nLockTime tx = 0 then True
      else if uint (tx_nLockTime tx) <
          (if uint (tx_nLockTime tx) < LOCKTIME_THRESHOLD then nBlockHeight else nBlockTime) then True
      else list_all (\<lambda>txin. nSequence txin = SEQUENCE_FINAL) (tx_vin tx))"

section \<open>Relative lock times\<close>

text \<open>One input of the loop of \<open>CalculateSequenceLocks\<close>: the bounds so far, the height of the coin, which
  the loop resets where it does not matter.\<close>

definition sequence_lock_step ::
  "index_heap \<Rightarrow> ptr \<Rightarrow> CTxIn \<Rightarrow> int \<Rightarrow> int \<times> int \<Rightarrow> chain_fault + int \<times> int \<times> int" where
  "sequence_lock_step H block txin prevHeight bounds =
     (let (nMinHeight, nMinTime) = bounds; seq = uint (nSequence txin) in
      if seq AND SEQUENCE_LOCKTIME_DISABLE_FLAG \<noteq> 0 then Inr (0, nMinHeight, nMinTime)
      else if seq AND SEQUENCE_LOCKTIME_TYPE_FLAG \<noteq> 0 then
        bind_sum (GetAncestor H block (max (prevHeight - 1) 0)) (\<lambda>a.
          case a of None \<Rightarrow> Inl Bad_pointer
          | Some q \<Rightarrow> bind_sum (GetMedianTimePast H q) (\<lambda>nCoinTime.
              Inr (prevHeight, nMinHeight,
                max nMinTime (nCoinTime + push_bit SEQUENCE_LOCKTIME_GRANULARITY (seq AND SEQUENCE_LOCKTIME_MASK) - 1))))
      else Inr (prevHeight, max nMinHeight (prevHeight + (seq AND SEQUENCE_LOCKTIME_MASK) - 1), nMinTime))"

fun sequence_lock_loop ::
  "index_heap \<Rightarrow> ptr \<Rightarrow> CTxIn list \<Rightarrow> int list \<Rightarrow> int \<times> int \<Rightarrow> chain_fault + int list \<times> int \<times> int" where
  "sequence_lock_loop H block (txin # vin) (prevHeight # prevHeights) bounds =
     bind_sum (sequence_lock_step H block txin prevHeight bounds) (\<lambda>(hh, bounds).
     bind_sum (sequence_lock_loop H block vin prevHeights bounds) (\<lambda>(hs, bounds).
       Inr (hh # hs, bounds)))"
| "sequence_lock_loop H block _ prevHeights bounds = Inr (prevHeights, bounds)"

definition LOCKTIME_VERIFY_SEQUENCE :: nat where "LOCKTIME_VERIFY_SEQUENCE = 0"

text \<open>The flag is bit 0 of \<open>flags\<close>.\<close>

definition CalculateSequenceLocks ::
  "CTransaction \<Rightarrow> nat \<Rightarrow> int list \<Rightarrow> index_heap \<Rightarrow> ptr \<Rightarrow> chain_fault + int list \<times> int \<times> int" where
  "CalculateSequenceLocks tx fl prevHeights H block =
     (if length prevHeights \<noteq> length (tx_vin tx) then Inl Assert_fails
      else if \<not> (2 \<le> tx_nVersion tx \<and> bit fl LOCKTIME_VERIFY_SEQUENCE) then Inr (prevHeights, -1, -1)
      else sequence_lock_loop H block (tx_vin tx) prevHeights (-1, -1))"

definition EvaluateSequenceLocks :: "index_heap \<Rightarrow> ptr \<Rightarrow> int \<times> int \<Rightarrow> chain_fault + bool" where
  "EvaluateSequenceLocks H block lockPair =
     bind_sum (deref H block) (\<lambda>b.
       case pprev b of None \<Rightarrow> Inl Assert_fails
       | Some q \<Rightarrow> bind_sum (GetMedianTimePast H q) (\<lambda>nBlockTime.
           Inr (\<not> (int (nHeight b) \<le> fst lockPair \<or> nBlockTime \<le> snd lockPair))))"

definition SequenceLocks ::
  "CTransaction \<Rightarrow> nat \<Rightarrow> int list \<Rightarrow> index_heap \<Rightarrow> ptr \<Rightarrow> chain_fault + int list \<times> bool" where
  "SequenceLocks tx fl prevHeights H block =
     bind_sum (CalculateSequenceLocks tx fl prevHeights H block) (\<lambda>(hs, lockPair).
     bind_sum (EvaluateSequenceLocks H block lockPair) (\<lambda>b. Inr (hs, b)))"

section \<open>Signature operations\<close>

definition GetLegacySigOpCount :: "CTransaction \<Rightarrow> nat" where
  "GetLegacySigOpCount tx =
     sum_list (map (\<lambda>txin. GetSigOpCount (scriptSig txin) False) (tx_vin tx)) +
     sum_list (map (\<lambda>txout. GetSigOpCount (scriptPubKey txout) False) (tx_vout tx))"

fun p2sh_sigops :: "'v view_ops \<Rightarrow> CTxIn list \<Rightarrow> nat \<Rightarrow> 'v CCoinsViewCache \<Rightarrow> tx_error + nat \<times> 'v CCoinsViewCache" where
  "p2sh_sigops B [] nSigOps inputs = Inr (nSigOps, inputs)"
| "p2sh_sigops B (txin # vin) nSigOps inputs =
     (case AccessCoin B inputs (prevout txin) of (coin, inputs) \<Rightarrow>
        if IsSpent coin then Inl (Fault Assert_fails)
        else let pub = scriptPubKey (coin_out coin) in
          p2sh_sigops B vin
            (if IsPayToScriptHash pub then nSigOps + GetSigOpCount_p2sh pub (scriptSig txin) else nSigOps) inputs)"

definition GetP2SHSigOpCount ::
  "'v view_ops \<Rightarrow> CTransaction \<Rightarrow> 'v CCoinsViewCache \<Rightarrow> tx_error + nat \<times> 'v CCoinsViewCache" where
  "GetP2SHSigOpCount B tx inputs = (if IsCoinBase tx then Inr (0, inputs) else p2sh_sigops B (tx_vin tx) 0 inputs)"

fun witness_sigops ::
  "'v view_ops \<Rightarrow> u32 \<Rightarrow> CTxIn list \<Rightarrow> nat \<Rightarrow> 'v CCoinsViewCache \<Rightarrow> tx_error + nat \<times> 'v CCoinsViewCache" where
  "witness_sigops B fl [] nSigOps inputs = Inr (nSigOps, inputs)"
| "witness_sigops B fl (txin # vin) nSigOps inputs =
     (case AccessCoin B inputs (prevout txin) of (coin, inputs) \<Rightarrow>
        if IsSpent coin then Inl (Fault Assert_fails)
        else case CountWitnessSigOps (scriptSig txin) (scriptPubKey (coin_out coin)) (Some (scriptWitness txin)) fl of
          None \<Rightarrow> Inl (Fault Assert_fails)
        | Some n \<Rightarrow> witness_sigops B fl vin (nSigOps + n) inputs)"

definition GetTransactionSigOpCost ::
  "'v view_ops \<Rightarrow> CTransaction \<Rightarrow> 'v CCoinsViewCache \<Rightarrow> u32 \<Rightarrow> tx_error + nat \<times> 'v CCoinsViewCache" where
  "GetTransactionSigOpCost B tx inputs fl =
     (let nSigOps = GetLegacySigOpCount tx * WITNESS_SCALE_FACTOR in
      if IsCoinBase tx then Inr (nSigOps, inputs)
      else bind_sum (if flag_set fl SCRIPT_VERIFY_P2SH
                     then bind_sum (GetP2SHSigOpCount B tx inputs) (\<lambda>(n, inputs).
                       Inr (nSigOps + n * WITNESS_SCALE_FACTOR, inputs))
                     else Inr (nSigOps, inputs)) (\<lambda>(nSigOps, inputs).
           witness_sigops B fl (tx_vin tx) nSigOps inputs))"

section \<open>Checks without context\<close>

fun check_outputs :: "CAmount \<Rightarrow> CTxOut list \<Rightarrow> reject + unit" where
  "check_outputs nValueOut [] = Inr ()"
| "check_outputs nValueOut (txout # vout) =
     (if nValue txout < 0 then Inl (reject 100 ''bad-txns-vout-negative'')
      else if MAX_MONEY < nValue txout then Inl (reject 100 ''bad-txns-vout-toolarge'')
      else let nValueOut = nValueOut + nValue txout in
        if \<not> MoneyRange nValueOut then Inl (reject 100 ''bad-txns-txouttotal-toolarge'')
        else check_outputs nValueOut vout)"

text \<open>The set of outpoints is ordered by \<open>operator<\<close>: an insertion fails when no order holds with an element.\<close>

fun duplicate_inputs :: "COutPoint list \<Rightarrow> CTxIn list \<Rightarrow> bool" where
  "duplicate_inputs vInOutPoints [] \<longleftrightarrow> False"
| "duplicate_inputs vInOutPoints (txin # vin) \<longleftrightarrow>
     (if list_ex (\<lambda>p. \<not> COutPoint_less p (prevout txin) \<and> \<not> COutPoint_less (prevout txin) p) vInOutPoints then True
      else duplicate_inputs (prevout txin # vInOutPoints) vin)"

definition CheckTransaction :: "CTransaction \<Rightarrow> bool \<Rightarrow> reject + unit" where
  "CheckTransaction tx fCheckDuplicateInputs =
     (if tx_vin tx = [] then Inl (reject 10 ''bad-txns-vin-empty'')
      else if tx_vout tx = [] then Inl (reject 10 ''bad-txns-vout-empty'')
      else if MAX_BLOCK_WEIGHT < length (SerializeTransaction False tx) * WITNESS_SCALE_FACTOR
        then Inl (reject 100 ''bad-txns-oversize'')
      else bind_sum (check_outputs 0 (tx_vout tx)) (\<lambda>_.
        if fCheckDuplicateInputs \<and> duplicate_inputs [] (tx_vin tx) then Inl (reject 100 ''bad-txns-inputs-duplicate'')
        else if IsCoinBase tx then
          (if length (scriptSig (tx_vin tx ! 0)) < 2 \<or> 100 < length (scriptSig (tx_vin tx ! 0))
           then Inl (reject 100 ''bad-cb-length'') else Inr ())
        else if list_ex (\<lambda>txin. COutPoint_IsNull (prevout txin)) (tx_vin tx)
          then Inl (reject 10 ''bad-txns-prevout-null'')
        else Inr ()))"

section \<open>Checks of the inputs\<close>

definition COINBASE_MATURITY :: int where "COINBASE_MATURITY = 100"

fun check_inputs ::
  "'v view_ops \<Rightarrow> int \<Rightarrow> CTxIn list \<Rightarrow> CAmount \<Rightarrow> 'v CCoinsViewCache \<Rightarrow> (tx_error + CAmount) \<times> 'v CCoinsViewCache" where
  "check_inputs B nSpendHeight [] nValueIn inputs = (Inr nValueIn, inputs)"
| "check_inputs B nSpendHeight (txin # vin) nValueIn inputs =
     (case AccessCoin B inputs (prevout txin) of (coin, inputs) \<Rightarrow>
        if IsSpent coin then (Inl (Fault Assert_fails), inputs)
        else if coin_fCoinBase coin \<and> nSpendHeight - uint (coin_nHeight coin) < COINBASE_MATURITY
          then (Inl (Rejected (reject 0 ''bad-txns-premature-spend-of-coinbase'')), inputs)
        else let nValueIn = nValueIn + nValue (coin_out coin) in
          if \<not> MoneyRange (nValue (coin_out coin)) \<or> \<not> MoneyRange nValueIn
          then (Inl (Rejected (reject 100 ''bad-txns-inputvalues-outofrange'')), inputs)
          else check_inputs B nSpendHeight vin nValueIn inputs)"

definition CheckTxInputs ::
  "'v view_ops \<Rightarrow> CTransaction \<Rightarrow> 'v CCoinsViewCache \<Rightarrow> int \<Rightarrow> (tx_error + CAmount) \<times> 'v CCoinsViewCache" where
  "CheckTxInputs B tx inputs nSpendHeight =
     (case HaveInputs B inputs tx of (have_all, inputs) \<Rightarrow>
        if \<not> have_all then (Inl (Rejected (reject 100 ''bad-txns-inputs-missingorspent'')), inputs)
        else (case check_inputs B nSpendHeight (tx_vin tx) 0 inputs of
            (Inl e, inputs) \<Rightarrow> (Inl e, inputs)
          | (Inr nValueIn, inputs) \<Rightarrow>
              (case GetValueOut tx of None \<Rightarrow> Inl Value_out_of_range
               | Some value_out \<Rightarrow>
                   if nValueIn < value_out then Inl (Rejected (reject 100 ''bad-txns-in-belowout''))
                   else if \<not> MoneyRange (nValueIn - value_out) then Inl (Rejected (reject 100 ''bad-txns-fee-outofrange''))
                   else Inr (nValueIn - value_out), inputs)))"

section \<open>What the checks establish\<close>

lemma IsFinalTx_iff:
  "IsFinalTx tx hh t \<longleftrightarrow> tx_nLockTime tx = 0 \<or>
     (if uint (tx_nLockTime tx) < LOCKTIME_THRESHOLD then uint (tx_nLockTime tx) < hh else uint (tx_nLockTime tx) < t) \<or>
     (\<forall>txin\<in>set (tx_vin tx). nSequence txin = SEQUENCE_FINAL)"
  by (simp add: IsFinalTx_def list_all_iff)

text \<open>A final transaction stays final.\<close>

lemma IsFinalTx_mono: "IsFinalTx tx hh t \<Longrightarrow> hh \<le> hh' \<Longrightarrow> t \<le> t' \<Longrightarrow> IsFinalTx tx hh' t'"
  by (auto simp: IsFinalTx_iff split: if_splits)

lemma check_outputs_iff:
  assumes "MoneyRange a"
  shows "check_outputs a vout = Inr () \<longleftrightarrow>
    list_all (\<lambda>out. MoneyRange (nValue out)) vout \<and> MoneyRange (a + sum_list (map nValue vout))"
  using assms
proof (induction vout arbitrary: a)
  case (Cons out vout)
  have pos: "0 \<le> sum_list (map nValue vout)" if "list_all (\<lambda>out. MoneyRange (nValue out)) vout"
    using that by (induction vout) (auto simp: MoneyRange_def)
  show ?case
  proof (cases "MoneyRange (nValue out) \<and> MoneyRange (a + nValue out)")
    case True
    then have "check_outputs a (out # vout) = check_outputs (a + nValue out) vout"
      by (simp add: Let_def MoneyRange_def)
    with Cons.IH [of "a + nValue out"] True show ?thesis by (simp add: add.assoc)
  next
    case False
    then have "check_outputs a (out # vout) \<noteq> Inr ()" by (auto simp: Let_def MoneyRange_def)
    moreover have "\<not> (list_all (\<lambda>out. MoneyRange (nValue out)) (out # vout) \<and>
        MoneyRange (a + sum_list (map nValue (out # vout))))"
    proof
      assume c: "list_all (\<lambda>out. MoneyRange (nValue out)) (out # vout) \<and>
        MoneyRange (a + sum_list (map nValue (out # vout)))"
      with pos have "a + nValue out \<le> MAX_MONEY" by (simp add: MoneyRange_def)
      with c False Cons.prems show False by (auto simp: MoneyRange_def)
    qed
    ultimately show ?thesis by simp
  qed
qed simp

lemma duplicate_inputs_iff:
  "duplicate_inputs seen vin \<longleftrightarrow> \<not> (distinct (map prevout vin) \<and> set (map prevout vin) \<inter> set seen = {})"
proof (induction vin arbitrary: seen)
  case (Cons i vin)
  have "list_ex (\<lambda>p. \<not> COutPoint_less p (prevout i) \<and> \<not> COutPoint_less (prevout i) p) seen \<longleftrightarrow> prevout i \<in> set seen"
    unfolding list_ex_iff by (metis COutPoint_less_irrefl COutPoint_less_linear)
  with Cons show ?case by auto
qed simp

theorem CheckTransaction_iff:
  "CheckTransaction tx dup = Inr () \<longleftrightarrow>
     tx_vin tx \<noteq> [] \<and> tx_vout tx \<noteq> [] \<and>
     length (SerializeTransaction False tx) * WITNESS_SCALE_FACTOR \<le> MAX_BLOCK_WEIGHT \<and>
     list_all (\<lambda>out. MoneyRange (nValue out)) (tx_vout tx) \<and> MoneyRange (sum_list (map nValue (tx_vout tx))) \<and>
     (dup \<longrightarrow> distinct (map prevout (tx_vin tx))) \<and>
     (if IsCoinBase tx then 2 \<le> length (scriptSig (tx_vin tx ! 0)) \<and> length (scriptSig (tx_vin tx ! 0)) \<le> 100
      else \<forall>i\<in>set (tx_vin tx). \<not> COutPoint_IsNull (prevout i))"
proof -
  have "MoneyRange 0" by (simp add: MoneyRange_def MAX_MONEY_def COIN_def)
  note o = check_outputs_iff [OF this, of "tx_vout tx"]
  show ?thesis
    using o duplicate_inputs_iff [of "[]" "tx_vin tx"]
    by (cases "check_outputs 0 (tx_vout tx)") (auto simp: CheckTransaction_def list_ex_iff not_less)
qed

text \<open>Spending never creates money: the inputs of a transaction that passes are unspent coins of the view,
  mature where they come from a coinbase, and the fee is what their values exceed those of the outputs.\<close>

definition input_value :: "(COutPoint \<rightharpoonup> Coin) \<Rightarrow> CTxIn \<Rightarrow> CAmount" where
  "input_value f i = (case f (prevout i) of Some c \<Rightarrow> nValue (coin_out c) | None \<Rightarrow> 0)"

definition mature :: "int \<Rightarrow> Coin \<Rightarrow> bool" where
  "mature nSpendHeight c \<longleftrightarrow> \<not> (coin_fCoinBase c \<and> nSpendHeight - uint (coin_nHeight c) < COINBASE_MATURITY)"

context coins_view
begin

lemma check_inputs_ok:
  "cache_ok c \<Longrightarrow> check_inputs B hh vin a c = (r, c') \<Longrightarrow>
   cache_ok c' \<and> cache_contents c' = cache_contents c \<and> cache_best c' = cache_best c \<and>
   (\<forall>v. r = Inr v \<longrightarrow> v = a + sum_list (map (input_value (cache_contents c)) vin) \<and>
     (\<forall>i\<in>set vin. \<exists>coin. cache_contents c (prevout i) = Some coin \<and> mature hh coin \<and> MoneyRange (nValue (coin_out coin))))"
proof (induction vin arbitrary: a c)
  case (Cons i vin)
  obtain coin d where ac: "AccessCoin B c (prevout i) = (coin, d)" by (cases "AccessCoin B c (prevout i)")
  note o = AccessCoin_ok [OF Cons.prems(1) ac]
  show ?case
  proof (cases "IsSpent coin \<or> coin_fCoinBase coin \<and> hh - uint (coin_nHeight coin) < COINBASE_MATURITY \<or>
      \<not> MoneyRange (nValue (coin_out coin)) \<or> \<not> MoneyRange (a + nValue (coin_out coin))")
    case True
    then show ?thesis using Cons.prems(2) ac o by (auto simp: Let_def split: if_splits)
  next
    case False
    then have r: "check_inputs B hh vin (a + nValue (coin_out coin)) d = (r, c')"
      using Cons.prems(2) ac by (simp add: Let_def split: if_splits)
    have sc: "cache_contents c (prevout i) = Some coin" using o False by (metis (no_types))
    have iv: "input_value (cache_contents c) i = nValue (coin_out coin)" by (simp add: input_value_def sc)
    from Cons.IH [OF _ r] o have IH: "cache_ok c' \<and> cache_contents c' = cache_contents c \<and> cache_best c' = cache_best c \<and>
      (\<forall>v. r = Inr v \<longrightarrow> v = a + nValue (coin_out coin) + sum_list (map (input_value (cache_contents c)) vin) \<and>
        (\<forall>i\<in>set vin. \<exists>coin. cache_contents c (prevout i) = Some coin \<and> mature hh coin \<and> MoneyRange (nValue (coin_out coin))))"
      by simp
    then show ?thesis using sc iv False by (auto simp: mature_def)
  qed
qed auto

lemma HaveInputs_ok:
  assumes "cache_ok c" "HaveInputs B c tx = (b, c')"
  shows "(b \<longleftrightarrow> IsCoinBase tx \<or> (\<forall>i\<in>set (tx_vin tx). cache_contents c (prevout i) \<noteq> None)) \<and> cache_ok c' \<and>
    cache_contents c' = cache_contents c \<and> cache_best c' = cache_best c"
  using have_inputs_ok [OF assms(1), of "tx_vin tx" b c'] assms by (auto simp: HaveInputs_def split: if_splits)

lemma CheckTxInputs_ok:
  assumes c: "cache_ok c" and r: "CheckTxInputs B tx c hh = (r, c')"
  shows "cache_ok c' \<and> cache_contents c' = cache_contents c \<and> cache_best c' = cache_best c"
    and "r = Inr fee \<Longrightarrow>
      (\<forall>i\<in>set (tx_vin tx). \<exists>coin. cache_contents c (prevout i) = Some coin \<and> mature hh coin) \<and>
      fee = sum_list (map (input_value (cache_contents c)) (tx_vin tx)) - sum_list (map nValue (tx_vout tx)) \<and>
      MoneyRange fee"
proof -
  obtain b d where h: "HaveInputs B c tx = (b, d)" by (cases "HaveInputs B c tx")
  note ho = HaveInputs_ok [OF c h]
  obtain q e where ci: "check_inputs B hh (tx_vin tx) 0 d = (q, e)" by (cases "check_inputs B hh (tx_vin tx) 0 d")
  have d: "cache_ok d" using ho by simp
  note co = check_inputs_ok [OF d ci]
  show "cache_ok c' \<and> cache_contents c' = cache_contents c \<and> cache_best c' = cache_best c"
    using r h ho ci co by (auto simp: CheckTxInputs_def split: if_splits sum.splits)
  assume "r = Inr fee"
  with r h ci have b: "b" and q: "\<exists>v out. q = Inr v \<and> GetValueOut tx = Some out \<and> fee = v - out \<and> MoneyRange fee"
    by (auto simp: CheckTxInputs_def split: if_splits sum.splits option.splits)
  from q obtain v out where v: "q = Inr v" "GetValueOut tx = Some out" "fee = v - out" "MoneyRange fee" by blast
  have "MoneyRange 0" by (simp add: MoneyRange_def MAX_MONEY_def COIN_def)
  from value_out_from_sum [OF this, of "tx_vout tx"] v(2) have "out = sum_list (map nValue (tx_vout tx))"
    by (simp add: GetValueOut_def split: if_splits)
  then show "(\<forall>i\<in>set (tx_vin tx). \<exists>coin. cache_contents c (prevout i) = Some coin \<and> mature hh coin) \<and>
      fee = sum_list (map (input_value (cache_contents c)) (tx_vin tx)) - sum_list (map nValue (tx_vout tx)) \<and>
      MoneyRange fee"
    using co v ho by fastforce
qed

end

section \<open>Relative lock times, input by input\<close>

text \<open>What an input asks of the block: its coin is as many blocks below it, or its time as far before it, as
  the sequence number says.\<close>

definition coin_time :: "index_heap \<Rightarrow> ptr \<Rightarrow> int \<Rightarrow> chain_fault + int" where
  "coin_time H block prevHeight =
     bind_sum (GetAncestor H block (max (prevHeight - 1) 0)) (\<lambda>a.
       case a of None \<Rightarrow> Inl Bad_pointer | Some q \<Rightarrow> GetMedianTimePast H q)"

definition input_unlocked :: "index_heap \<Rightarrow> ptr \<Rightarrow> int \<Rightarrow> int \<Rightarrow> CTxIn \<Rightarrow> int \<Rightarrow> bool" where
  "input_unlocked H block height time txin prevHeight \<longleftrightarrow>
     (let seq = uint (nSequence txin) in
      if seq AND SEQUENCE_LOCKTIME_DISABLE_FLAG \<noteq> 0 then True
      else if seq AND SEQUENCE_LOCKTIME_TYPE_FLAG \<noteq> 0 then
        (\<exists>ct. coin_time H block prevHeight = Inr ct \<and>
          ct + (seq AND SEQUENCE_LOCKTIME_MASK) * 512 \<le> time)
      else prevHeight + (seq AND SEQUENCE_LOCKTIME_MASK) \<le> height)"

lemma sequence_lock_step_iff:
  assumes "sequence_lock_step H block txin ph (mh, mt) = Inr (ph', mh', mt')"
  shows "mh' < height \<and> mt' < time \<longleftrightarrow> mh < height \<and> mt < time \<and> input_unlocked H block height time txin ph"
  using assms
  by (auto simp: sequence_lock_step_def input_unlocked_def coin_time_def Let_def push_bit_eq_mult
      SEQUENCE_LOCKTIME_GRANULARITY_def split: if_splits sum.splits option.splits)

lemma sequence_lock_loop_iff:
  "sequence_lock_loop H block vin phs (mh, mt) = Inr (phs', mh', mt') \<Longrightarrow> length phs = length vin \<Longrightarrow>
   mh' < height \<and> mt' < time \<longleftrightarrow>
   mh < height \<and> mt < time \<and> list_all2 (input_unlocked H block height time) vin phs"
proof (induction vin arbitrary: phs phs' mh mt)
  case (Cons i vin)
  obtain ph ps where ps: "phs = ph # ps" using Cons.prems(2) by (cases phs) auto
  from Cons.prems(1) obtain ph' m1 t1 ps' where s: "sequence_lock_step H block i ph (mh, mt) = Inr (ph', m1, t1)"
    "sequence_lock_loop H block vin ps (m1, t1) = Inr (ps', mh', mt')"
    unfolding ps by (auto split: sum.splits prod.splits)
  from Cons.IH [OF s(2)] sequence_lock_step_iff [OF s(1), of height time] Cons.prems(2)
  show ?case unfolding ps by auto
qed simp

theorem SequenceLocks_iff:
  assumes "SequenceLocks tx fl phs H block = Inr (phs', b)" and "deref H block = Inr e" and "pprev e = Some q"
    and "GetMedianTimePast H q = Inr time" and "0 \<le> time" and "2 \<le> tx_nVersion tx" and "bit fl LOCKTIME_VERIFY_SEQUENCE"
  shows "b \<longleftrightarrow> list_all2 (input_unlocked H block (int (nHeight e)) time) (tx_vin tx) phs"
proof -
  from assms obtain mh mt where l: "sequence_lock_loop H block (tx_vin tx) phs (-1, -1) = Inr (phs', mh, mt)"
    and len: "length phs = length (tx_vin tx)" and b: "b \<longleftrightarrow> \<not> (int (nHeight e) \<le> mh \<or> time \<le> mt)"
    by (auto simp: SequenceLocks_def CalculateSequenceLocks_def EvaluateSequenceLocks_def split: if_splits sum.splits prod.splits)
  from sequence_lock_loop_iff [OF l len, of "int (nHeight e)" time] b assms(5) show ?thesis by (simp add: not_le)
qed

section \<open>Signature costs\<close>

context coins_view
begin

lemma witness_sigops_ok:
  "cache_ok c \<Longrightarrow> witness_sigops B fl vin n c = Inr (m, c') \<Longrightarrow>
   n \<le> m \<and> cache_ok c' \<and> cache_contents c' = cache_contents c \<and> cache_best c' = cache_best c"
proof (induction vin arbitrary: n c)
  case (Cons i vin)
  obtain coin d where ac: "AccessCoin B c (prevout i) = (coin, d)" by (cases "AccessCoin B c (prevout i)")
  note o = AccessCoin_ok [OF Cons.prems(1) ac]
  from Cons.prems(2) ac obtain k where "witness_sigops B fl vin (n + k) d = Inr (m, c')"
    by (auto split: if_splits option.splits)
  with Cons.IH [OF _ this] o show ?case by auto
qed simp

lemma p2sh_sigops_ok:
  "cache_ok c \<Longrightarrow> p2sh_sigops B vin n c = Inr (m, c') \<Longrightarrow>
   n \<le> m \<and> cache_ok c' \<and> cache_contents c' = cache_contents c \<and> cache_best c' = cache_best c"
proof (induction vin arbitrary: n c)
  case (Cons i vin)
  obtain coin d where ac: "AccessCoin B c (prevout i) = (coin, d)" by (cases "AccessCoin B c (prevout i)")
  note o = AccessCoin_ok [OF Cons.prems(1) ac]
  from Cons.prems(2) ac obtain k where "p2sh_sigops B vin (n + k) d = Inr (m, c')"
    by (auto simp: Let_def split: if_splits intro: that [of 0])
  with Cons.IH [OF _ this] o show ?case by auto
qed simp

lemma GetTransactionSigOpCost_ok:
  assumes "cache_ok c" "GetTransactionSigOpCost B tx c fl = Inr (m, c')"
  shows "GetLegacySigOpCount tx * WITNESS_SCALE_FACTOR \<le> m \<and> cache_ok c' \<and> cache_contents c' = cache_contents c \<and>
    cache_best c' = cache_best c"
proof (cases "IsCoinBase tx")
  case True
  then show ?thesis using assms by (simp add: GetTransactionSigOpCost_def)
next
  case False
  let ?n = "GetLegacySigOpCount tx * WITNESS_SCALE_FACTOR"
  obtain k d where w: "witness_sigops B fl (tx_vin tx) (?n + k) d = Inr (m, c')"
    and d: "cache_ok d" "cache_contents d = cache_contents c" "cache_best d = cache_best c"
  proof (cases "flag_set fl SCRIPT_VERIFY_P2SH")
    case True
    then obtain k d where p: "p2sh_sigops B (tx_vin tx) 0 c = Inr (k, d)"
      "witness_sigops B fl (tx_vin tx) (?n + k * WITNESS_SCALE_FACTOR) d = Inr (m, c')"
      using assms(2) False by (auto simp: GetTransactionSigOpCost_def GetP2SHSigOpCount_def Let_def split: sum.splits prod.splits)
    from p2sh_sigops_ok [OF assms(1) p(1)] have "cache_ok d" "cache_contents d = cache_contents c" "cache_best d = cache_best c"
      by simp_all
    with p(2) show ?thesis by (rule that)
  next
    case False': False
    then show ?thesis using assms False
      by (intro that [of 0 c]) (auto simp: GetTransactionSigOpCost_def Let_def)
  qed
  from witness_sigops_ok [OF d(1) w] d show ?thesis by simp
qed

end

end
