(* ===== verification/BlockUndo.thy ===== *)
theory BlockUndo imports TxVerify
begin

text \<open>
  What connecting and disconnecting a block does to the coins: \<open>UpdateCoins\<close>, \<open>ApplyTxInUndo\<close>,
  \<open>DisconnectBlock\<close> and \<open>GetBlockSubsidy\<close> of \<^verbatim>\<open>src/src/validation.cpp\<close>.  Disconnecting a block with the
  undo data that connecting it made gives the coins back, when the block spends no coin of height zero and
  overwrites none.  A coin of height zero is one of the genesis block, which the code lets be spent: the
  last one of its transaction is not given back.
\<close>

section \<open>The subsidy\<close>

definition GetBlockSubsidy :: "int \<Rightarrow> int \<Rightarrow> CAmount" where
  "GetBlockSubsidy nSubsidyHalvingInterval height =
     (if height = 0 then GENESIS_MONEY
      else let halvings = height div nSubsidyHalvingInterval in
        if 64 \<le> halvings then 0 else drop_bit (nat halvings) INITIAL_SUBSIDY)"

section \<open>Connecting a transaction\<close>

text \<open>The coins that are moved into the undo data; the assertion that there was an entry to spend.\<close>

fun spend_inputs ::
  "'v view_ops \<Rightarrow> CTxIn list \<Rightarrow> 'v CCoinsViewCache \<Rightarrow> tx_error + Coin list \<times> 'v CCoinsViewCache" where
  "spend_inputs B [] inputs = Inr ([], inputs)"
| "spend_inputs B (txin # vin) inputs =
     (case SpendCoin B inputs (prevout txin) of
        (None, _) \<Rightarrow> Inl (Fault Assert_fails)
      | (Some coin, inputs) \<Rightarrow>
          bind_sum (spend_inputs B vin inputs) (\<lambda>(coins, inputs). Inr (coin # coins, inputs)))"

definition UpdateCoins ::
  "(bytes \<Rightarrow> bytes) \<Rightarrow> 'v view_ops \<Rightarrow> CTransaction \<Rightarrow> 'v CCoinsViewCache \<Rightarrow> int \<Rightarrow> tx_error + Coin list \<times> 'v CCoinsViewCache" where
  "UpdateCoins h B tx inputs height =
     bind_sum (if IsCoinBase tx then Inr ([], inputs) else spend_inputs B (tx_vin tx) inputs) (\<lambda>(vprevout, inputs).
       case AddCoins h B inputs tx height False of
         Inl e \<Rightarrow> Inl (Coins_fault e)
       | Inr inputs \<Rightarrow> Inr (vprevout, inputs))"

section \<open>Disconnecting a block\<close>

datatype DisconnectResult = DISCONNECT_OK | DISCONNECT_UNCLEAN | DISCONNECT_FAILED

definition ApplyTxInUndo ::
  "'v view_ops \<Rightarrow> Coin \<Rightarrow> 'v CCoinsViewCache \<Rightarrow> COutPoint \<Rightarrow> tx_error + DisconnectResult \<times> 'v CCoinsViewCache" where
  "ApplyTxInUndo B undo view out =
     (let (have_it, view) = Cache_HaveCoin B view out; fClean = (\<not> have_it) in
      let (found, view) =
        (if coin_nHeight undo = 0 then
           let (alternate, view) = AccessByTxid B view (op_hash out) in
           (if \<not> IsSpent alternate
            then Some (undo\<lparr>coin_nHeight := coin_nHeight alternate, coin_fCoinBase := coin_fCoinBase alternate\<rparr>)
            else None, view)
         else (Some undo, view))
      in case found of
        None \<Rightarrow> Inr (DISCONNECT_FAILED, view)
      | Some undo \<Rightarrow>
          (case AddCoin view out undo (\<not> fClean) of
             Inl e \<Rightarrow> Inl (Coins_fault e)
           | Inr view \<Rightarrow> Inr (if fClean then DISCONNECT_OK else DISCONNECT_UNCLEAN, view)))"

text \<open>The outputs of a transaction, from the \<open>i\<close>-th.\<close>

fun spend_outputs ::
  "'v view_ops \<Rightarrow> bool \<Rightarrow> nat \<Rightarrow> uint256 \<Rightarrow> nat \<Rightarrow> CTxOut list \<Rightarrow> bool \<times> 'v CCoinsViewCache \<Rightarrow> bool \<times> 'v CCoinsViewCache" where
  "spend_outputs B is_coinbase height txid i [] s = s"
| "spend_outputs B is_coinbase height txid i (out # vout) (fClean, view) =
     spend_outputs B is_coinbase height txid (i + 1) vout
       (if \<not> IsUnspendable (scriptPubKey out) then
          (case SpendCoin B view (COutPoint txid (of_nat i)) of
             (None, view) \<Rightarrow> (False, view)
           | (Some coin, view) \<Rightarrow>
               (if out \<noteq> coin_out coin \<or> int height \<noteq> uint (coin_nHeight coin) \<or> is_coinbase \<noteq> coin_fCoinBase coin
                then False else fClean, view))
        else (fClean, view))"

text \<open>The inputs of a transaction and their undo records, the last one first; \<open>Inr None\<close> is
  \<open>DISCONNECT_FAILED\<close>.\<close>

fun restore_inputs ::
  "'v view_ops \<Rightarrow> (COutPoint \<times> Coin) list \<Rightarrow> bool \<times> 'v CCoinsViewCache \<Rightarrow> tx_error + (bool \<times> 'v CCoinsViewCache) option" where
  "restore_inputs B [] s = Inr (Some s)"
| "restore_inputs B ((out, undo) # rest) (fClean, view) =
     bind_sum (ApplyTxInUndo B undo view out) (\<lambda>(res, view).
       if res = DISCONNECT_FAILED then Inr None
       else restore_inputs B rest (fClean \<and> res \<noteq> DISCONNECT_UNCLEAN, view))"

text \<open>One turn of the loop over the transactions: \<open>txundo\<close> is absent for the first one.\<close>

definition disconnect_tx ::
  "(bytes \<Rightarrow> bytes) \<Rightarrow> 'v view_ops \<Rightarrow> nat \<Rightarrow> CTransaction \<Rightarrow> Coin list option \<Rightarrow> bool \<times> 'v CCoinsViewCache \<Rightarrow>
   tx_error + (bool \<times> 'v CCoinsViewCache) option" where
  "disconnect_tx h B height tx txundo s =
     (let s = spend_outputs B (IsCoinBase tx) height (GetHash h tx) 0 (tx_vout tx) s in
      case txundo of None \<Rightarrow> Inr (Some s)
      | Some vprevout \<Rightarrow>
          if length vprevout \<noteq> length (tx_vin tx) then Inr None
          else restore_inputs B (rev (zip (map prevout (tx_vin tx)) vprevout)) s)"

text \<open>The loop over the transactions in reverse order.\<close>

fun disconnect_txs ::
  "(bytes \<Rightarrow> bytes) \<Rightarrow> 'v view_ops \<Rightarrow> nat \<Rightarrow> (CTransaction \<times> Coin list option) list \<Rightarrow> bool \<times> 'v CCoinsViewCache \<Rightarrow>
   tx_error + (bool \<times> 'v CCoinsViewCache) option" where
  "disconnect_txs h B height [] s = Inr (Some s)"
| "disconnect_txs h B height ((tx, txundo) # rest) s =
     bind_sum (disconnect_tx h B height tx txundo s) (\<lambda>r.
       case r of None \<Rightarrow> Inr None | Some s \<Rightarrow> disconnect_txs h B height rest s)"

text \<open>\<open>undo\<close> is what is read from disk, \<open>None\<close> when that fails; \<open>pindex\<close> is the entry of the block and
  \<open>prev\<close> the hash of its predecessor, zero for the genesis block.\<close>

definition DisconnectBlock ::
  "(bytes \<Rightarrow> bytes) \<Rightarrow> 'v view_ops \<Rightarrow> CBlock \<Rightarrow> nat \<Rightarrow> uint256 \<Rightarrow> Coin list list option \<Rightarrow> 'v CCoinsViewCache \<Rightarrow>
   tx_error + DisconnectResult \<times> 'v CCoinsViewCache" where
  "DisconnectBlock h B block height prev undo view =
     (case undo of None \<Rightarrow> Inr (DISCONNECT_FAILED, view)
      | Some vtxundo \<Rightarrow>
          if length vtxundo + 1 \<noteq> length (vtx block) then Inr (DISCONNECT_FAILED, view)
          else bind_sum (disconnect_txs h B height (rev (zip (vtx block) (None # map Some vtxundo))) (True, view)) (\<lambda>r.
            case r of None \<Rightarrow> Inr (DISCONNECT_FAILED, view)
            | Some (fClean, view) \<Rightarrow>
                Inr (if fClean then DISCONNECT_OK else DISCONNECT_UNCLEAN, SetBestBlock view prev)))"

section \<open>The round trip\<close>

lemma coinEmpty_spent [simp]: "IsSpent coinEmpty"
  by (simp add: coinEmpty_def IsSpent_def CTxOut_IsNull_def CTxOut_null_def)

text \<open>The coins a transaction spends and makes.\<close>

definition spent_coins :: "(COutPoint \<rightharpoonup> Coin) \<Rightarrow> CTransaction \<Rightarrow> Coin list" where
  "spent_coins f tx = (if IsCoinBase tx then [] else map (\<lambda>i. the (f (prevout i))) (tx_vin tx))"

definition without :: "(COutPoint \<rightharpoonup> Coin) \<Rightarrow> COutPoint list \<Rightarrow> COutPoint \<rightharpoonup> Coin" where
  "without f ps p = (if p \<in> set ps then None else f p)"

definition new_coins :: "(bytes \<Rightarrow> bytes) \<Rightarrow> int \<Rightarrow> CTransaction \<Rightarrow> COutPoint \<rightharpoonup> Coin" where
  "new_coins h height tx = tx_coins_from (IsCoinBase tx) height (GetHash h tx) 0 (tx_vout tx)"

definition tx_inputs :: "CTransaction \<Rightarrow> COutPoint list" where
  "tx_inputs tx = (if IsCoinBase tx then [] else map prevout (tx_vin tx))"

definition apply_tx :: "(bytes \<Rightarrow> bytes) \<Rightarrow> int \<Rightarrow> CTransaction \<Rightarrow> (COutPoint \<rightharpoonup> Coin) \<Rightarrow> COutPoint \<rightharpoonup> Coin" where
  "apply_tx h height tx f = without f (tx_inputs tx) ++ new_coins h height tx"

text \<open>What the checks before \<open>UpdateCoins\<close> establish: the inputs are there and differ, the outputs overwrite
  nothing, are not null and can be numbered.\<close>

definition tx_fits :: "(bytes \<Rightarrow> bytes) \<Rightarrow> CTransaction \<Rightarrow> (COutPoint \<rightharpoonup> Coin) \<Rightarrow> bool" where
  "tx_fits h tx f \<longleftrightarrow> (\<forall>p\<in>set (tx_inputs tx). f p \<noteq> None) \<and> distinct (tx_inputs tx) \<and>
     list_all (\<lambda>out. \<not> CTxOut_IsNull out) (tx_vout tx) \<and> length (tx_vout tx) \<le> 2 ^ 32 \<and>
     (\<forall>j < length (tx_vout tx). f (COutPoint (GetHash h tx) (of_nat j)) = None)"

lemma without_Cons: "without f (p # ps) = without (f(p := None)) ps"
  by (auto simp: without_def fun_eq_iff)

context coins_view
begin

lemma spend_inputs_ok:
  "cache_ok c \<Longrightarrow> \<forall>i\<in>set vin. cache_contents c (prevout i) \<noteq> None \<Longrightarrow> distinct (map prevout vin) \<Longrightarrow>
   \<exists>c'. spend_inputs B vin c = Inr (map (\<lambda>i. the (cache_contents c (prevout i))) vin, c') \<and> cache_ok c' \<and>
     cache_contents c' = without (cache_contents c) (map prevout vin) \<and> cache_best c' = cache_best c"
proof (induction vin arbitrary: c)
  case Nil
  then show ?case by (simp add: without_def [abs_def])
next
  case (Cons i vin)
  obtain r d where s: "SpendCoin B c (prevout i) = (r, d)" by (cases "SpendCoin B c (prevout i)")
  note o = SpendCoin_ok [OF Cons.prems(1) s]
  obtain coin where coin: "cache_contents c (prevout i) = Some coin" using Cons.prems(2) by auto
  with o(5) have r: "r = Some coin" by (cases r) (auto split: if_splits)
  have rest: "\<forall>j\<in>set vin. cache_contents d (prevout j) = cache_contents c (prevout j)"
    using Cons.prems(3) unfolding o(2) by (auto simp: rev_image_eqI)
  have "\<forall>j\<in>set vin. cache_contents d (prevout j) \<noteq> None" using rest Cons.prems(2) by simp
  moreover have "distinct (map prevout vin)" using Cons.prems(3) by simp
  ultimately obtain c' where c': "spend_inputs B vin d = Inr (map (\<lambda>i. the (cache_contents d (prevout i))) vin, c')"
    "cache_ok c'" "cache_contents c' = without (cache_contents d) (map prevout vin)" "cache_best c' = cache_best d"
    using Cons.IH [OF o(1)] by blast
  have "map (\<lambda>i. the (cache_contents d (prevout i))) vin = map (\<lambda>i. the (cache_contents c (prevout i))) vin"
    using rest by simp
  then show ?case using c' o(2,3) s r coin by (simp add: without_Cons)
qed

lemma UpdateCoins_ok:
  assumes c: "cache_ok c" and f: "tx_fits h tx (cache_contents c)"
  shows "\<exists>c'. UpdateCoins h B tx c height = Inr (spent_coins (cache_contents c) tx, c') \<and> cache_ok c' \<and>
    cache_contents c' = apply_tx h height tx (cache_contents c) \<and> cache_best c' = cache_best c"
proof -
  have "\<exists>d. (if IsCoinBase tx then Inr ([], c) else spend_inputs B (tx_vin tx) c) =
      Inr (spent_coins (cache_contents c) tx, d) \<and> cache_ok d \<and>
      cache_contents d = without (cache_contents c) (tx_inputs tx) \<and> cache_best d = cache_best c"
  proof (cases "IsCoinBase tx")
    case True
    then show ?thesis using c by (simp add: spent_coins_def tx_inputs_def without_def [abs_def])
  next
    case False
    then show ?thesis using spend_inputs_ok [OF c, of "tx_vin tx"] f
      by (simp add: spent_coins_def tx_inputs_def tx_fits_def)
  qed
  then obtain d where d: "(if IsCoinBase tx then Inr ([], c) else spend_inputs B (tx_vin tx) c) =
      Inr (spent_coins (cache_contents c) tx, d)" "cache_ok d"
      "cache_contents d = without (cache_contents c) (tx_inputs tx)" "cache_best d = cache_best c" by blast
  have "\<exists>c'. AddCoins h B d tx height False = Inr c' \<and> cache_ok c' \<and> cache_best c' = cache_best d \<and>
      cache_contents c' = cache_contents d ++ tx_coins_from (IsCoinBase tx) height (GetHash h tx) 0 (tx_vout tx)"
    using f d(2,3) by (intro AddCoins_ok) (auto simp: tx_fits_def without_def)
  then obtain c' where c': "AddCoins h B d tx height False = Inr c'" "cache_ok c'" "cache_best c' = cache_best d"
    "cache_contents c' = cache_contents d ++ new_coins h height tx" by (auto simp: new_coins_def)
  show ?thesis unfolding UpdateCoins_def d(1) using c' d(3,4) by (simp add: apply_tx_def)
qed

end

text \<open>The transactions of a block in order.\<close>

fun UpdateCoins_all ::
  "(bytes \<Rightarrow> bytes) \<Rightarrow> 'v view_ops \<Rightarrow> int \<Rightarrow> CTransaction list \<Rightarrow> 'v CCoinsViewCache \<Rightarrow>
   tx_error + Coin list list \<times> 'v CCoinsViewCache" where
  "UpdateCoins_all h B height [] view = Inr ([], view)"
| "UpdateCoins_all h B height (tx # txs) view =
     bind_sum (UpdateCoins h B tx view height) (\<lambda>(vprevout, view).
     bind_sum (UpdateCoins_all h B height txs view) (\<lambda>(undo, view). Inr (vprevout # undo, view)))"

fun apply_txs :: "(bytes \<Rightarrow> bytes) \<Rightarrow> int \<Rightarrow> CTransaction list \<Rightarrow> (COutPoint \<rightharpoonup> Coin) \<Rightarrow> COutPoint \<rightharpoonup> Coin" where
  "apply_txs h height [] f = f"
| "apply_txs h height (tx # txs) f = apply_txs h height txs (apply_tx h height tx f)"

fun txs_fit :: "(bytes \<Rightarrow> bytes) \<Rightarrow> int \<Rightarrow> CTransaction list \<Rightarrow> (COutPoint \<rightharpoonup> Coin) \<Rightarrow> bool" where
  "txs_fit h height [] f \<longleftrightarrow> True"
| "txs_fit h height (tx # txs) f \<longleftrightarrow> tx_fits h tx f \<and> txs_fit h height txs (apply_tx h height tx f)"

fun spent_by :: "(bytes \<Rightarrow> bytes) \<Rightarrow> int \<Rightarrow> CTransaction list \<Rightarrow> (COutPoint \<rightharpoonup> Coin) \<Rightarrow> Coin list list" where
  "spent_by h height [] f = []"
| "spent_by h height (tx # txs) f = spent_coins f tx # spent_by h height txs (apply_tx h height tx f)"

lemma map_of_rev_distinct:
  assumes "distinct (map fst xs)"
  shows "map_of (rev xs) = map_of xs"
proof -
  have "distinct (map fst (rev xs))" using assms by (simp add: rev_map [symmetric])
  then show ?thesis using assms by (intro map_of_inject_set [THEN iffD2]) simp_all
qed

lemma tx_coins_from_dom: "p \<in> dom (tx_coins_from cb height txid i vout) \<Longrightarrow>
  \<exists>j. i \<le> j \<and> j < i + length vout \<and> p = COutPoint txid (of_nat j)"
proof (induction vout arbitrary: i)
  case (Cons out vout)
  show ?case
  proof (cases "p \<in> dom (tx_coins_from cb height txid (i + 1) vout)")
    case True
    from Cons.IH [OF this] obtain j where j: "i + 1 \<le> j" "j < i + 1 + length vout" "p = COutPoint txid (of_nat j)" by blast
    then show ?thesis by (intro exI [of _ j]) simp
  next
    case False
    then show ?thesis using Cons.prems by (intro exI [of _ i]) (auto split: if_splits)
  qed
qed simp

lemma tx_coins_from_fresh:
  assumes "i < j" "j + length vout \<le> 2 ^ 32"
  shows "tx_coins_from cb height txid j vout (COutPoint txid (of_nat i)) = None"
proof (rule ccontr)
  assume "tx_coins_from cb height txid j vout (COutPoint txid (of_nat i)) \<noteq> None"
  then obtain k where k: "j \<le> k" "k < j + length vout" "COutPoint txid (of_nat i) = COutPoint txid (of_nat k)"
    using tx_coins_from_dom [of "COutPoint txid (of_nat i)" cb height txid j vout] by blast
  have "k < 2 ^ 32" "i < 2 ^ 32" using k(1,2) assms by linarith+
  then have "unat (of_nat k :: u32) = k" "unat (of_nat i :: u32) = i" by (simp_all add: unat_of_nat)
  with k assms(1) show False by (metis COutPoint.inject not_le)
qed

context coins_view
begin

lemma spend_outputs_ok:
  "cache_ok c \<Longrightarrow> i + length vout \<le> 2 ^ 32 \<Longrightarrow> height < 2 ^ 31 \<Longrightarrow>
   tx_coins_from cb (int height) txid i vout \<subseteq>\<^sub>m cache_contents c \<Longrightarrow>
   \<exists>c'. spend_outputs B cb height txid i vout (fClean, c) = (fClean, c') \<and> cache_ok c' \<and>
     cache_contents c' = cache_contents c |` (- dom (tx_coins_from cb (int height) txid i vout)) \<and>
     cache_best c' = cache_best c"
proof (induction vout arbitrary: i c)
  case Nil
  then show ?case by simp
next
  case (Cons out vout)
  let ?p = "COutPoint txid (of_nat i)" and ?rest = "tx_coins_from cb (int height) txid (i + 1) vout"
  have fresh: "?rest ?p = None" using Cons.prems(2) by (intro tx_coins_from_fresh) simp_all
  show ?case
  proof (cases "spendable out")
    case False
    then have s: "spend_outputs B cb height txid i (out # vout) (fClean, c) =
        spend_outputs B cb height txid (i + 1) vout (fClean, c)" by (simp add: spendable_def)
    show ?thesis unfolding s using Cons.IH [of c "i + 1"] Cons.prems False by simp
  next
    case True
    let ?coin = "tx_coin cb (int height) out"
    have all: "tx_coins_from cb (int height) txid i (out # vout) = [?p \<mapsto> ?coin] ++ ?rest" using True by simp
    have at: "cache_contents c ?p = Some ?coin"
      using Cons.prems(4) fresh unfolding all map_le_def by (auto simp: map_add_def dom_def)
    obtain r d where sp: "SpendCoin B c ?p = (r, d)" by (cases "SpendCoin B c ?p")
    note o = SpendCoin_ok [OF Cons.prems(1) sp]
    have r: "r = Some ?coin" using o(5) at by (cases r) (auto split: if_splits)
    have h: "int height = uint (word_of_int (int height) :: 31 word)"
      using Cons.prems(3) by (simp add: uint_nat unat_of_nat)
    have s: "spend_outputs B cb height txid i (out # vout) (fClean, c) =
        spend_outputs B cb height txid (i + 1) vout (fClean, d)"
      using True sp r h by (simp add: spendable_def tx_coin_def)
    have "?rest \<subseteq>\<^sub>m cache_contents d"
    proof (unfold map_le_def o(2), intro ballI)
      fix q assume q: "q \<in> dom ?rest"
      with fresh have "q \<noteq> ?p" by auto
      moreover have "?rest q = cache_contents c q"
        using Cons.prems(4) q \<open>q \<noteq> ?p\<close> unfolding all map_le_def by (auto simp: map_add_def dom_def)
      ultimately show "?rest q = ((cache_contents c)(?p := None)) q" by simp
    qed
    moreover have "i + 1 + length vout \<le> 2 ^ 32" using Cons.prems(2) by simp
    ultimately obtain c' where
      c': "spend_outputs B cb height txid (i + 1) vout (fClean, d) = (fClean, c')" "cache_ok c'"
      "cache_contents c' = cache_contents d |` (- dom ?rest)" "cache_best c' = cache_best d"
      using Cons.IH [OF o(1) _ Cons.prems(3)] by blast
    have "cache_contents c' = cache_contents c |` (- dom (tx_coins_from cb (int height) txid i (out # vout)))"
      unfolding c'(3) o(2) all by (rule ext) (auto simp: restrict_map_def dom_def map_add_def)
    then show ?thesis unfolding s using c' o(3) by simp
  qed
qed

lemma ApplyTxInUndo_ok:
  assumes c: "cache_ok c" and free: "cache_contents c p = None" and u: "\<not> IsSpent u" "spendable (coin_out u)"
    "coin_nHeight u \<noteq> 0"
  shows "\<exists>c'. ApplyTxInUndo B u c p = Inr (DISCONNECT_OK, c') \<and> cache_ok c' \<and>
    cache_contents c' = (cache_contents c)(p \<mapsto> u) \<and> cache_best c' = cache_best c"
proof -
  obtain b d where h: "Cache_HaveCoin B c p = (b, d)" by (cases "Cache_HaveCoin B c p")
  note o = Cache_HaveCoin_ok [OF c h]
  then have b: "\<not> b" and d: "cache_ok d" "cache_contents d = cache_contents c" "cache_best d = cache_best c"
    using free by simp_all
  have "False \<or> cache_contents d p = None" using free d(2) by simp
  from AddCoin_ok [OF d(1) u(1) this] obtain c' where
    "AddCoin d p u False = Inr c'" "cache_ok c'" "cache_best c' = cache_best d" "cache_contents c' = (cache_contents d)(p \<mapsto> u)"
    using u(2) by auto
  then show ?thesis using h b d u(3) by (simp add: ApplyTxInUndo_def)
qed

lemma restore_inputs_ok:
  "cache_ok c \<Longrightarrow> distinct (map fst ps) \<Longrightarrow> \<forall>(p, u)\<in>set ps. cache_contents c p = None \<and> \<not> IsSpent u \<and>
     spendable (coin_out u) \<and> coin_nHeight u \<noteq> 0 \<Longrightarrow>
   \<exists>c'. restore_inputs B ps (fClean, c) = Inr (Some (fClean, c')) \<and> cache_ok c' \<and>
     cache_contents c' = cache_contents c ++ map_of ps \<and> cache_best c' = cache_best c"
proof (induction ps arbitrary: c)
  case (Cons x ps)
  obtain p u where x: "x = (p, u)" by (cases x)
  from Cons.prems(3) have u: "cache_contents c p = None" "\<not> IsSpent u" "spendable (coin_out u)" "coin_nHeight u \<noteq> 0"
    by (simp_all add: x)
  obtain d where d: "ApplyTxInUndo B u c p = Inr (DISCONNECT_OK, d)" "cache_ok d"
    "cache_contents d = (cache_contents c)(p \<mapsto> u)" "cache_best d = cache_best c"
    using ApplyTxInUndo_ok [OF Cons.prems(1) u] by blast
  have ne: "p \<notin> fst ` set ps" using Cons.prems(2) by (simp add: x)
  then have "\<forall>(q, v)\<in>set ps. cache_contents d q = None \<and> \<not> IsSpent v \<and> spendable (coin_out v) \<and> coin_nHeight v \<noteq> 0"
    using Cons.prems(3) d(3) by force
  with Cons.IH [OF d(2)] Cons.prems(2) obtain c' where c': "restore_inputs B ps (fClean, d) = Inr (Some (fClean, c'))"
    "cache_ok c'" "cache_contents c' = cache_contents d ++ map_of ps" "cache_best c' = cache_best d" by auto
  have "map_of ps p = None" using ne by (simp add: map_of_eq_None_iff)
  then have "cache_contents c' = cache_contents c ++ map_of (x # ps)"
    unfolding c'(3) d(3) x by (auto simp: map_add_def fun_eq_iff split: option.split)
  moreover have "restore_inputs B (x # ps) (fClean, c) = Inr (Some (fClean, c'))" using c'(1) d(1) by (simp add: x)
  ultimately show ?case using c'(2,4) d(4) by metis
qed auto

end

text \<open>The undo records of a transaction as the loop passes them: none for a coinbase.\<close>

definition undo_of :: "CTransaction \<Rightarrow> Coin list \<Rightarrow> Coin list option" where
  "undo_of tx coins = (if IsCoinBase tx then None else Some coins)"

text \<open>Coins that can be restored: none of height zero.\<close>

definition restorable :: "Coin \<Rightarrow> bool" where
  "restorable u \<longleftrightarrow> \<not> IsSpent u \<and> spendable (coin_out u) \<and> coin_nHeight u \<noteq> 0"

lemma new_coins_dom: "tx_fits h tx f \<Longrightarrow> p \<in> dom (new_coins h height tx) \<Longrightarrow> f p = None"
  using tx_coins_from_dom [of p "IsCoinBase tx" height "GetHash h tx" 0 "tx_vout tx"]
  by (auto simp: new_coins_def tx_fits_def)

lemma undo_tx:
  assumes "tx_fits h tx f"
  shows "(without f (tx_inputs tx) ++ new_coins h height tx) |` (- dom (new_coins h height tx)) = without f (tx_inputs tx)"
proof
  fix p
  show "((without f (tx_inputs tx) ++ new_coins h height tx) |` (- dom (new_coins h height tx))) p = without f (tx_inputs tx) p"
  proof (cases "p \<in> dom (new_coins h height tx)")
    case True
    then show ?thesis using new_coins_dom [OF assms True] by (simp add: without_def)
  next
    case False
    then show ?thesis by (simp add: map_add_dom_app_simps(3))
  qed
qed

context coins_view
begin

lemma disconnect_tx_ok:
  assumes c: "cache_ok c" and eq: "cache_contents c = apply_tx h (int height) tx f" and fit: "tx_fits h tx f"
    and hh: "height < 2 ^ 31" and u: "\<forall>u\<in>set (spent_coins f tx). restorable u"
  shows "\<exists>c'. disconnect_tx h B height tx (undo_of tx (spent_coins f tx)) (fClean, c) = Inr (Some (fClean, c')) \<and>
    cache_ok c' \<and> cache_contents c' = f \<and> cache_best c' = cache_best c"
proof -
  have le: "tx_coins_from (IsCoinBase tx) (int height) (GetHash h tx) 0 (tx_vout tx) \<subseteq>\<^sub>m cache_contents c"
    unfolding eq apply_tx_def new_coins_def by (simp add: map_le_map_add)
  have "0 + length (tx_vout tx) \<le> 2 ^ 32" using fit by (simp add: tx_fits_def)
  from spend_outputs_ok [OF c this hh le, of fClean] obtain d where
    d: "spend_outputs B (IsCoinBase tx) height (GetHash h tx) 0 (tx_vout tx) (fClean, c) = (fClean, d)" "cache_ok d"
    "cache_contents d = without f (tx_inputs tx)" "cache_best d = cache_best c"
    using undo_tx [OF fit, of "int height"] by (auto simp: eq apply_tx_def new_coins_def)
  show ?thesis
  proof (cases "IsCoinBase tx")
    case True
    then have "without f (tx_inputs tx) = f" by (simp add: tx_inputs_def without_def [abs_def])
    then show ?thesis using d True by (simp add: disconnect_tx_def undo_of_def)
  next
    case False
    define ins where "ins = map prevout (tx_vin tx)"
    define cs where "cs = map (\<lambda>i. the (f (prevout i))) (tx_vin tx)"
    have cs: "spent_coins f tx = cs" "tx_inputs tx = ins" "length cs = length ins"
      using False by (simp_all add: spent_coins_def cs_def tx_inputs_def ins_def)
    have csn: "cs = map (\<lambda>p. the (f p)) ins" by (simp add: cs_def ins_def)
    have dist: "distinct ins" and at: "\<forall>p\<in>set ins. f p \<noteq> None" using fit cs(2) by (simp_all add: tx_fits_def)
    let ?ps = "rev (zip ins cs)"
    have k: "map fst ?ps = rev ins" using cs(3) by (simp add: rev_map [symmetric])
    then have dk: "distinct (map fst ?ps)" using dist by simp
    have "\<forall>(p, u)\<in>set ?ps. cache_contents d p = None \<and> \<not> IsSpent u \<and> spendable (coin_out u) \<and> coin_nHeight u \<noteq> 0"
      using u unfolding cs(1) d(3) cs(2) by (auto simp: restorable_def without_def dest: set_zip_leftD set_zip_rightD)
    from restore_inputs_ok [OF d(2) dk this, of fClean] obtain c' where
      c': "restore_inputs B ?ps (fClean, d) = Inr (Some (fClean, c'))" "cache_ok c'"
      "cache_contents c' = cache_contents d ++ map_of ?ps" "cache_best c' = cache_best d" by blast
    have m: "map_of ?ps = map_of (zip ins cs)"
      by (rule map_of_rev_distinct) (use dist cs(3) in simp)
    have "cache_contents c' = f"
    proof
      fix p
      show "cache_contents c' p = f p"
      proof (cases "p \<in> set ins")
        case True
        then have "map_of (zip ins cs) p = f p" using at unfolding csn by (auto simp: map_of_zip_map)
        then show ?thesis using at True unfolding c'(3) m by (auto simp: map_add_def)
      next
        case False
        then have "map_of (zip ins cs) p = None" using cs(3) by (simp add: map_of_zip_is_None)
        then show ?thesis using False unfolding c'(3) m d(3) cs(2) by (simp add: map_add_def without_def)
      qed
    qed
    moreover have "disconnect_tx h B height tx (undo_of tx (spent_coins f tx)) (fClean, c) = Inr (Some (fClean, c'))"
      using d(1) c'(1) False cs(3) by (simp add: disconnect_tx_def undo_of_def cs(1) ins_def)
    ultimately show ?thesis using c'(2,4) d(4) by metis
  qed
qed

lemma UpdateCoins_all_ok:
  "cache_ok c \<Longrightarrow> txs_fit h height txs (cache_contents c) \<Longrightarrow>
   \<exists>c'. UpdateCoins_all h B height txs c = Inr (spent_by h height txs (cache_contents c), c') \<and> cache_ok c' \<and>
     cache_contents c' = apply_txs h height txs (cache_contents c) \<and> cache_best c' = cache_best c"
proof (induction txs arbitrary: c)
  case (Cons tx txs)
  from Cons.prems(2) have f: "tx_fits h tx (cache_contents c)" by simp
  obtain d where d: "UpdateCoins h B tx c height = Inr (spent_coins (cache_contents c) tx, d)" "cache_ok d"
    "cache_contents d = apply_tx h height tx (cache_contents c)" "cache_best d = cache_best c"
    using UpdateCoins_ok [OF Cons.prems(1) f] by blast
  from Cons.IH [OF d(2)] Cons.prems(2) d show ?case by auto
qed auto

lemma disconnect_txs_append:
  "disconnect_txs h B height (xs @ ys) s =
   bind_sum (disconnect_txs h B height xs s) (\<lambda>r. case r of None \<Rightarrow> Inr None | Some s \<Rightarrow> disconnect_txs h B height ys s)"
  by (induction h B height xs s rule: disconnect_txs.induct) (auto split: sum.split option.split)

lemma disconnect_txs_ok:
  "cache_ok c \<Longrightarrow> cache_contents c = apply_txs h (int height) txs f \<Longrightarrow> txs_fit h (int height) txs f \<Longrightarrow>
   height < 2 ^ 31 \<Longrightarrow> \<forall>us\<in>set (spent_by h (int height) txs f). \<forall>u\<in>set us. restorable u \<Longrightarrow>
   \<exists>c'. disconnect_txs h B height (rev (zip txs (map2 undo_of txs (spent_by h (int height) txs f)))) (True, c) =
      Inr (Some (True, c')) \<and> cache_ok c' \<and> cache_contents c' = f \<and> cache_best c' = cache_best c"
proof (induction txs arbitrary: f)
  case (Cons tx txs)
  let ?f = "apply_tx h (int height) tx f"
  from Cons.IH [of ?f] Cons.prems obtain d where
    d: "disconnect_txs h B height (rev (zip txs (map2 undo_of txs (spent_by h (int height) txs ?f)))) (True, c) =
      Inr (Some (True, d))" "cache_ok d" "cache_contents d = ?f" "cache_best d = cache_best c" by auto
  have "\<exists>c'. disconnect_tx h B height tx (undo_of tx (spent_coins f tx)) (True, d) = Inr (Some (True, c')) \<and>
    cache_ok c' \<and> cache_contents c' = f \<and> cache_best c' = cache_best d"
    using Cons.prems by (intro disconnect_tx_ok [OF d(2,3)]) auto
  with d show ?case by (auto simp: disconnect_txs_append)
qed auto

end

section \<open>Connecting and disconnecting a block\<close>

definition block_form :: "CTransaction list \<Rightarrow> bool" where
  "block_form txs \<longleftrightarrow> txs \<noteq> [] \<and> IsCoinBase (hd txs) \<and> list_all (\<lambda>tx. \<not> IsCoinBase tx) (tl txs)"

lemma length_spent_by [simp]: "length (spent_by h height txs f) = length txs"
  by (induction txs arbitrary: f) simp_all

lemma undo_of_block:
  assumes "block_form txs"
  shows "None # map Some (tl (spent_by h height txs f)) = map2 undo_of txs (spent_by h height txs f)"
proof -
  obtain tx rest where txs: "txs = tx # rest" "IsCoinBase tx" "list_all (\<lambda>tx. \<not> IsCoinBase tx) rest"
    using assms by (cases txs) (auto simp: block_form_def)
  have "map Some us = map2 undo_of rest us" if "length us = length rest" for us
    using that txs(3)
  proof (induction us arbitrary: rest)
    case (Cons u us)
    then show ?case by (cases rest) (auto simp: undo_of_def)
  qed simp
  then show ?thesis using txs(1,2) by (simp add: undo_of_def)
qed

context coins_view
begin

theorem disconnect_connect:
  assumes c: "cache_ok c" and block: "block_form (vtx block)" and hh: "height < 2 ^ 31"
    and fit: "txs_fit h (int height) (vtx block) (cache_contents c)"
    and u: "\<forall>us\<in>set (spent_by h (int height) (vtx block) (cache_contents c)). \<forall>u\<in>set us. restorable u"
  shows "\<exists>undo c1 c2. UpdateCoins_all h B (int height) (vtx block) c = Inr (undo, c1) \<and>
    cache_contents c1 = apply_txs h (int height) (vtx block) (cache_contents c) \<and>
    DisconnectBlock h B block height prev (Some (tl undo)) c1 = Inr (DISCONNECT_OK, c2) \<and>
    cache_ok c2 \<and> cache_contents c2 = cache_contents c \<and> hashBlock c2 = prev"
proof -
  let ?s = "spent_by h (int height) (vtx block) (cache_contents c)"
  obtain c1 where c1: "UpdateCoins_all h B (int height) (vtx block) c = Inr (?s, c1)" "cache_ok c1"
    "cache_contents c1 = apply_txs h (int height) (vtx block) (cache_contents c)"
    using UpdateCoins_all_ok [OF c fit] by blast
  obtain d where d: "disconnect_txs h B height (rev (zip (vtx block) (map2 undo_of (vtx block) ?s))) (True, c1) =
      Inr (Some (True, d))" "cache_ok d" "cache_contents d = cache_contents c"
    using disconnect_txs_ok [OF c1(2,3) fit hh u] by blast
  have "0 < length (vtx block)" using block by (cases "vtx block") (simp_all add: block_form_def)
  then have l: "length (tl ?s) + 1 = length (vtx block)" by simp
  have "DisconnectBlock h B block height prev (Some (tl ?s)) c1 = Inr (DISCONNECT_OK, SetBestBlock d prev)"
    using d(1) l unfolding undo_of_block [OF block, symmetric] by (simp add: DisconnectBlock_def)
  moreover have "cache_ok (SetBestBlock d prev)" "cache_contents (SetBestBlock d prev) = cache_contents c"
    "hashBlock (SetBestBlock d prev) = prev"
    using d(2,3) by (simp_all add: SetBestBlock_def cache_ok_def cache_contents_def)
  ultimately show ?thesis using c1(1,3) by blast
qed

text \<open>A coin of height zero is given back only when the transaction has another output in the view.\<close>

lemma access_by_txid_none:
  "cache_ok c \<Longrightarrow> \<forall>j. cache_contents c (COutPoint txid j) = None \<Longrightarrow> access_by_txid B txid n c = (coin, c') \<Longrightarrow>
   IsSpent coin \<and> cache_ok c' \<and> cache_contents c' = cache_contents c \<and> cache_best c' = cache_best c"
proof (induction "MAX_OUTPUTS_PER_BLOCK - n" arbitrary: n c)
  case 0
  then show ?case by (simp add: access_by_txid.simps)
next
  case (Suc k)
  then have n: "n < MAX_OUTPUTS_PER_BLOCK" by simp
  obtain a d where ac: "AccessCoin B c (COutPoint txid (of_nat n)) = (a, d)" by fastforce
  note o = AccessCoin_ok [OF Suc.prems(1) ac]
  have a: "IsSpent a" using o Suc.prems(2) by (auto split: if_splits)
  then have "access_by_txid B txid (n + 1) d = (coin, c')"
    using Suc.prems(3) n ac by (simp add: access_by_txid.simps [of B txid n])
  with Suc.hyps(1) [of "n + 1" d] Suc.hyps(2) o Suc.prems(2) show ?case by simp
qed

lemma height_zero_not_restored:
  assumes c: "cache_ok c" and u: "coin_nHeight u = 0" and none: "\<forall>j. cache_contents c (COutPoint (op_hash p) j) = None"
  shows "\<exists>c'. ApplyTxInUndo B u c p = Inr (DISCONNECT_FAILED, c')"
proof -
  obtain b d where h: "Cache_HaveCoin B c p = (b, d)" by (cases "Cache_HaveCoin B c p")
  note o = Cache_HaveCoin_ok [OF c h]
  obtain a e where ac: "access_by_txid B (op_hash p) 0 d = (a, e)" by (cases "access_by_txid B (op_hash p) 0 d")
  have "IsSpent a" using access_by_txid_none [OF _ _ ac] o none by auto
  then show ?thesis using h ac u by (simp add: ApplyTxInUndo_def AccessByTxid_def)
qed

lemma tx_coins_from_other:
  "op_hash p \<noteq> txid \<Longrightarrow> tx_coins_from cb height txid i vout p = None"
  by (rule ccontr, drule not_None_eq [THEN iffD1], erule exE, drule domI [THEN tx_coins_from_dom]) auto

text \<open>So a block that spends the last output of the genesis transaction can be connected and not
  disconnected.\<close>

theorem genesis_spend_not_disconnected:
  assumes c: "cache_ok c" and vtx: "vtx block = [cb, tx]" and cb: "IsCoinBase cb" and tx: "\<not> IsCoinBase tx"
    and vin: "tx_vin tx = [i]" and hh: "height < 2 ^ 31"
    and fit: "txs_fit h (int height) [cb, tx] (cache_contents c)"
    and u: "cache_contents c (prevout i) = Some u" "coin_nHeight u = 0"
    and only: "\<forall>j. j \<noteq> op_n (prevout i) \<longrightarrow> cache_contents c (COutPoint (op_hash (prevout i)) j) = None"
    and other: "GetHash h cb \<noteq> op_hash (prevout i)" "GetHash h tx \<noteq> op_hash (prevout i)"
  shows "\<exists>undo c1 c2. UpdateCoins_all h B (int height) (vtx block) c = Inr (undo, c1) \<and>
    DisconnectBlock h B block height prev (Some (tl undo)) c1 = Inr (DISCONNECT_FAILED, c2)"
proof -
  let ?f = "cache_contents c" and ?g = "apply_tx h (int height) cb (cache_contents c)"
  obtain c1 where c1: "UpdateCoins_all h B (int height) (vtx block) c =
      Inr (spent_by h (int height) [cb, tx] ?f, c1)" "cache_ok c1"
    "cache_contents c1 = apply_tx h (int height) tx ?g"
    using UpdateCoins_all_ok [OF c fit] vtx by auto
  have fit2: "tx_fits h tx ?g" using fit by simp
  have out: "new_coins h (int height) cb p = None" "new_coins h (int height) tx p = None"
    if "op_hash p = op_hash (prevout i)" for p
    using that other by (auto simp: new_coins_def intro!: tx_coins_from_other)
  have g: "?g p = ?f p" if "op_hash p = op_hash (prevout i)" for p
    using out(1) [OF that] cb by (simp add: apply_tx_def map_add_def tx_inputs_def without_def)
  have sp: "spent_coins ?g tx = [u]" using tx vin u g [of "prevout i"] by (simp add: spent_coins_def)
  have le: "tx_coins_from (IsCoinBase tx) (int height) (GetHash h tx) 0 (tx_vout tx) \<subseteq>\<^sub>m cache_contents c1"
    unfolding c1(3) by (simp add: apply_tx_def new_coins_def map_le_map_add)
  have "0 + length (tx_vout tx) \<le> 2 ^ 32" using fit2 by (simp add: tx_fits_def)
  from spend_outputs_ok [OF c1(2) this hh le, of True] obtain d where
    d: "spend_outputs B (IsCoinBase tx) height (GetHash h tx) 0 (tx_vout tx) (True, c1) = (True, d)" "cache_ok d"
    "cache_contents d = without ?g (tx_inputs tx)"
    using undo_tx [OF fit2, of "int height"] by (auto simp: c1(3) apply_tx_def new_coins_def)
  have "cache_contents d (COutPoint (op_hash (prevout i)) j) = None" for j
  proof (cases "COutPoint (op_hash (prevout i)) j = prevout i")
    case True
    then show ?thesis using tx vin unfolding d(3) by (simp add: without_def tx_inputs_def)
  next
    case False
    then have "j \<noteq> op_n (prevout i)" by (metis COutPoint.collapse)
    then show ?thesis using only g unfolding d(3) by (simp add: without_def)
  qed
  then obtain e where "ApplyTxInUndo B u d (prevout i) = Inr (DISCONNECT_FAILED, e)"
    using height_zero_not_restored [OF d(2) u(2)] by blast
  then have "disconnect_tx h B height tx (Some [u]) (True, c1) = Inr None"
    using d(1) vin by (simp add: disconnect_tx_def)
  then have "DisconnectBlock h B block height prev (Some [[u]]) c1 = Inr (DISCONNECT_FAILED, c1)"
    by (simp add: DisconnectBlock_def vtx)
  moreover have "tl (spent_by h (int height) [cb, tx] ?f) = [[u]]" using sp by simp
  ultimately show ?thesis using c1(1) by metis
qed

end

section \<open>A transaction that spends a coin twice\<close>

text \<open>The check of a block skips the check for duplicate inputs, and a coin that was read from the base
  leaves an entry when it is spent, which is spent again without a complaint.\<close>

lemma FetchCoin_cached: "map_of (cacheCoins c) p = Some e \<Longrightarrow> FetchCoin B c p = (Some e, c)"
  by (simp add: FetchCoin_def)

lemma SpendCoin_cached:
  assumes e: "map_of (cacheCoins c) p = Some e" "\<not> is_fresh e"
  obtains c' e' where "SpendCoin B c p = (Some (ce_coin e), c')" "map_of (cacheCoins c') p = Some e'"
    "ce_coin e' = coinEmpty" "\<not> is_fresh e'"
proof -
  let ?e = "\<lparr>ce_coin = coinEmpty, ce_flags = ce_flags e OR DIRTY\<rparr>"
  let ?c = "c\<lparr>cacheCoins := AList.update p ?e (cacheCoins c)\<rparr>"
  have s: "SpendCoin B c p = (Some (ce_coin e), ?c)"
    using e by (simp add: SpendCoin_def FetchCoin_cached)
  have m: "map_of (cacheCoins ?c) p = Some ?e" by (simp add: AList.update_conv')
  have f: "\<not> is_fresh ?e" using e(2) by (simp add: is_fresh_bit bit_or_iff)
  show ?thesis by (rule that [OF s m _ f]) simp
qed

theorem double_spend_accepted:
  fixes B :: "'v view_ops"
  assumes e: "map_of (cacheCoins c) p = Some e" "\<not> is_fresh e" "\<not> IsSpent (ce_coin e)" "mature height (ce_coin e)"
    and tx: "tx_vin tx = [i, i']" "prevout i = p" "prevout i' = p" "\<not> COutPoint_IsNull p" "tx_vout tx = [out]"
    and v: "MoneyRange (nValue (coin_out (ce_coin e)))" "MoneyRange (nValue out)"
      "nValue out = nValue (coin_out (ce_coin e)) + nValue (coin_out (ce_coin e))"
    and size: "length (SerializeTransaction False tx) * WITNESS_SCALE_FACTOR \<le> MAX_BLOCK_WEIGHT"
  shows "CheckTransaction tx False = Inr () \<and> CheckTxInputs B tx c height = (Inr 0, c) \<and>
    (\<exists>c'. spend_inputs B (tx_vin tx) c = Inr ([ce_coin e, coinEmpty], c'))"
proof (intro conjI)
  have cb: "\<not> IsCoinBase tx" using tx(1) by (simp add: IsCoinBase_def)
  have m: "MoneyRange 0" by (simp add: MoneyRange_def MAX_MONEY_def COIN_def)
  show "CheckTransaction tx False = Inr ()"
    using cb tx v(2) size unfolding CheckTransaction_iff by simp
  have ac: "AccessCoin B c p = (ce_coin e, c)" "Cache_HaveCoin B c p = (True, c)"
    using e(1,3) by (simp_all add: AccessCoin_def Cache_HaveCoin_def FetchCoin_cached)
  have h: "HaveInputs B c tx = (True, c)" using cb tx(1-3) ac(2) by (simp add: HaveInputs_def)
  have i: "check_inputs B height (tx_vin tx) 0 c = (Inr (nValue out), c)"
    using tx(1-3) ac(1) e(3,4) v unfolding mature_def by (simp add: Let_def)
  have o: "GetValueOut tx = Some (nValue out)" using tx(5) v(2) m by (simp add: GetValueOut_def Let_def)
  show "CheckTxInputs B tx c height = (Inr 0, c)" using m by (simp add: CheckTxInputs_def h i o)
  obtain c1 e1 where 1: "SpendCoin B c p = (Some (ce_coin e), c1)" "map_of (cacheCoins c1) p = Some e1"
    "ce_coin e1 = coinEmpty" "\<not> is_fresh e1" using SpendCoin_cached [OF e(1,2)] by metis
  obtain c2 where 2: "SpendCoin B c1 p = (Some coinEmpty, c2)" using SpendCoin_cached [OF 1(2,4)] 1(3) by metis
  show "\<exists>c'. spend_inputs B (tx_vin tx) c = Inr ([ce_coin e, coinEmpty], c')"
    using tx 1(1) 2 by simp
qed

end
