(* ===== verification/Merkle.thy ===== *)
theory Merkle imports Transaction
begin

unbundle bit_operations_syntax

text \<open>
  Merkle trees over transaction hashes: the constant-space root and branch calculator of
  \<^verbatim>\<open>src/src/consensus/merkle.cpp\<close>.  The state of the calculator is the record \<open>merkle\<close>; \<open>tree_hash\<close> is
  the recursive definition of the root that it is proved to compute, and \<open>node\<close> the hash of the node at a
  level and position.  A list that was extended by repeating its tail is the one that has the same root
  without a collision; the calculator flags it.
\<close>

section \<open>The calculator\<close>

text \<open>The hash of two concatenated hashes; \<open>h\<close> is the double hash.\<close>

definition hash_pair :: "(bytes \<Rightarrow> bytes) \<Rightarrow> uint256 \<Rightarrow> uint256 \<Rightarrow> uint256" where
  "hash_pair h a b = uint256_of (h (uint256_bytes a @ uint256_bytes b))"

text \<open>The value that moves up the levels: the hash, whether it covers the leaf of the branch, the branch
  so far, and the duplication flag.\<close>

record carry =
  carry_h :: uint256
  matchh :: bool
  branch_hashes :: "uint256 list"
  mutated :: bool

record merkle =
  m_count :: nat
  inner :: "uint256 list"
  matchlevel :: int
  m_branch :: "uint256 list"
  m_mutated :: bool

definition push_branch :: "bool \<Rightarrow> uint256 list \<Rightarrow> int \<Rightarrow> nat \<Rightarrow> carry \<Rightarrow> carry" where
  "push_branch pbranch inn ml level c =
     (if pbranch then
        (if matchh c then c\<lparr>branch_hashes := branch_hashes c @ [inn ! level]\<rparr>
         else if ml = int level then c\<lparr>branch_hashes := branch_hashes c @ [carry_h c], matchh := True\<rparr>
         else c)
      else c)"

text \<open>One turn of the carry loops; only the first of them tracks duplicates.\<close>

definition combine ::
  "(uint256 \<Rightarrow> uint256 \<Rightarrow> uint256) \<Rightarrow> bool \<Rightarrow> bool \<Rightarrow> uint256 list \<Rightarrow> int \<Rightarrow> nat \<Rightarrow> carry \<Rightarrow> carry" where
  "combine H pbranch track inn ml level c =
     (let c' = push_branch pbranch inn ml level c in
      c'\<lparr>mutated := mutated c' \<or> track \<and> inn ! level = carry_h c', carry_h := H (inn ! level) (carry_h c')\<rparr>)"

text \<open>The loop over the lower zero bits of the count, which is positive.\<close>

function carry_up ::
  "(uint256 \<Rightarrow> uint256 \<Rightarrow> uint256) \<Rightarrow> bool \<Rightarrow> bool \<Rightarrow> uint256 list \<Rightarrow> int \<Rightarrow> nat \<Rightarrow> nat \<Rightarrow> carry \<Rightarrow> carry \<times> nat" where
  "carry_up H pbranch track inn ml count level c =
     (if bit count level \<or> drop_bit level count = 0 then (c, level)
      else carry_up H pbranch track inn ml count (level + 1) (combine H pbranch track inn ml level c))"
  by pat_completeness auto
termination
proof (relation "measure (\<lambda>(_, _, _, _, _, count, level, _). drop_bit level count)", simp)
  fix count level :: nat
  assume "\<not> (bit count level \<or> drop_bit level count = 0)"
  then have "0 < drop_bit level count" by simp
  moreover have "drop_bit (level + 1) count = drop_bit level count div 2"
    by (simp add: drop_bit_Suc drop_bit_half)
  ultimately show "((H, pbranch, track, inn, ml, count, level + 1, combine H pbranch track inn ml level c),
      (H, pbranch, track, inn, ml, count, level, c)) \<in>
      measure (\<lambda>(_, _, _, _, _, count, level, _). drop_bit level count)"
    for H and pbranch track :: bool and inn :: "uint256 list" and ml :: int and c :: carry
    by simp
qed

declare carry_up.simps [simp del]

definition add_leaf ::
  "(uint256 \<Rightarrow> uint256 \<Rightarrow> uint256) \<Rightarrow> bool \<Rightarrow> nat \<Rightarrow> uint256 \<Rightarrow> merkle \<Rightarrow> merkle" where
  "add_leaf H pbranch branchpos leaf m =
     (let count = m_count m + 1;
          (c, level) = carry_up H pbranch True (inner m) (matchlevel m) count 0
            \<lparr>carry_h = leaf, matchh = (m_count m = branchpos), branch_hashes = m_branch m, mutated = m_mutated m\<rparr>
      in \<lparr>m_count = count, inner = (inner m)[level := carry_h c],
          matchlevel = (if matchh c then int level else matchlevel m),
          m_branch = branch_hashes c, m_mutated = mutated c\<rparr>)"

text \<open>The level of the lowest one of the count.\<close>

function lowest_level :: "nat \<Rightarrow> nat \<Rightarrow> nat" where
  "lowest_level count level =
     (if bit count level \<or> drop_bit level count = 0 then level else lowest_level count (level + 1))"
  by pat_completeness auto
termination
  by (relation "measure (\<lambda>(count, level). drop_bit level count)") (auto simp: drop_bit_Suc drop_bit_half)

declare lowest_level.simps [simp del]

lemma carry_up_level:
  "carry_up H pbranch track inn ml count level c = (c', l) \<Longrightarrow> drop_bit l count \<le> drop_bit level count"
proof (induction H pbranch track inn ml count level c arbitrary: c' l rule: carry_up.induct)
  case (1 H pbranch track inn ml count level c)
  show ?case
  proof (cases "bit count level \<or> drop_bit level count = 0")
    case True
    then show ?thesis using 1(2) by (simp add: carry_up.simps)
  next
    case False
    then have "drop_bit l count \<le> drop_bit (level + 1) count" using 1 by (simp add: carry_up.simps [of _ _ _ _ _ _ level])
    also have "\<dots> \<le> drop_bit level count" by (simp add: drop_bit_Suc drop_bit_half)
    finally show ?thesis .
  qed
qed

text \<open>A node without a sibling is combined with itself.\<close>

definition duplicate :: "(uint256 \<Rightarrow> uint256 \<Rightarrow> uint256) \<Rightarrow> bool \<Rightarrow> carry \<Rightarrow> carry" where
  "duplicate H pbranch c =
     (let c = (if pbranch \<and> matchh c then c\<lparr>branch_hashes := branch_hashes c @ [carry_h c]\<rparr> else c)
      in c\<lparr>carry_h := H (carry_h c) (carry_h c)\<rparr>)"

text \<open>The final sweep over the rightmost branch.  The count is a multiple of \<open>2 ^ level\<close>, so it is that
  power exactly when the quotient is one.\<close>

function sweep ::
  "(uint256 \<Rightarrow> uint256 \<Rightarrow> uint256) \<Rightarrow> bool \<Rightarrow> uint256 list \<Rightarrow> int \<Rightarrow> nat \<Rightarrow> nat \<Rightarrow> carry \<Rightarrow> carry" where
  "sweep H pbranch inn ml count level c =
     (if count = 2 ^ level \<or> drop_bit level count \<le> 1 then c
      else let count = count + 2 ^ level;
               (c, level) = carry_up H pbranch False inn ml count (level + 1) (duplicate H pbranch c)
           in sweep H pbranch inn ml count level c)"
  by pat_completeness auto
termination
proof (relation "measure (\<lambda>(_, _, _, _, count, level, _). drop_bit level count)", simp, clarsimp simp: Let_def)
  fix H :: "uint256 \<Rightarrow> uint256 \<Rightarrow> uint256" and pbranch inn ml count level c c' l
  assume n: "count \<noteq> 2 ^ level" "\<not> drop_bit level count \<le> Suc 0"
    and c: "(c', l) = carry_up H pbranch False inn ml (count + 2 ^ level) (Suc level) (duplicate H pbranch c)"
  from carry_up_level [OF c [symmetric]] have "drop_bit l (count + 2 ^ level) \<le> drop_bit (Suc level) (count + 2 ^ level)" .
  also have "\<dots> = (drop_bit level count + 1) div 2"
  proof -
    have "(2 :: nat) ^ Suc level = 2 ^ level * 2" by simp
    moreover have "(count + 2 ^ level) div 2 ^ level = count div 2 ^ level + 1"
      using div_add_self2 [of "2 ^ level" count] by simp
    ultimately show ?thesis by (simp only: drop_bit_eq_div div_mult2_eq)
  qed
  also have "\<dots> < drop_bit level count" using n(2) by simp
  finally show "drop_bit l (count + 2 ^ level) < drop_bit level count" .
qed

declare sweep.simps [simp del]

definition merkle_init :: merkle where
  "merkle_init = \<lparr>m_count = 0, inner = replicate 32 0, matchlevel = -1, m_branch = [], m_mutated = False\<rparr>"

definition MerkleComputation ::
  "(uint256 \<Rightarrow> uint256 \<Rightarrow> uint256) \<Rightarrow> bool \<Rightarrow> nat \<Rightarrow> uint256 list \<Rightarrow> carry" where
  "MerkleComputation H pbranch branchpos leaves =
     (if leaves = [] then \<lparr>carry_h = 0, matchh = False, branch_hashes = [], mutated = False\<rparr>
      else let m = fold (add_leaf H pbranch branchpos) leaves merkle_init;
               level = lowest_level (m_count m) 0
           in sweep H pbranch (inner m) (matchlevel m) (m_count m) level
             \<lparr>carry_h = inner m ! level, matchh = (matchlevel m = int level), branch_hashes = m_branch m,
              mutated = m_mutated m\<rparr>)"

definition ComputeMerkleRoot :: "(uint256 \<Rightarrow> uint256 \<Rightarrow> uint256) \<Rightarrow> uint256 list \<Rightarrow> uint256 \<times> bool" where
  "ComputeMerkleRoot H leaves =
     (let c = MerkleComputation H False (2 ^ 32 - 1) leaves in (carry_h c, mutated c))"

definition ComputeMerkleBranch :: "(uint256 \<Rightarrow> uint256 \<Rightarrow> uint256) \<Rightarrow> uint256 list \<Rightarrow> nat \<Rightarrow> uint256 list" where
  "ComputeMerkleBranch H leaves position = branch_hashes (MerkleComputation H True position leaves)"

fun ComputeMerkleRootFromBranch ::
  "(uint256 \<Rightarrow> uint256 \<Rightarrow> uint256) \<Rightarrow> uint256 \<Rightarrow> uint256 list \<Rightarrow> nat \<Rightarrow> uint256" where
  "ComputeMerkleRootFromBranch H hash [] nIndex = hash"
| "ComputeMerkleRootFromBranch H hash (b # vMerkleBranch) nIndex =
     ComputeMerkleRootFromBranch H (if bit nIndex 0 then H b hash else H hash b) vMerkleBranch (drop_bit 1 nIndex)"

definition BlockMerkleRoot :: "(bytes \<Rightarrow> bytes) \<Rightarrow> CBlock \<Rightarrow> uint256 \<times> bool" where
  "BlockMerkleRoot h block = ComputeMerkleRoot (hash_pair h) (map (GetHash h) (vtx block))"

text \<open>\<open>None\<close>: the first entry of an empty vector is written.\<close>

definition BlockWitnessMerkleRoot :: "(bytes \<Rightarrow> bytes) \<Rightarrow> CBlock \<Rightarrow> (uint256 \<times> bool) option" where
  "BlockWitnessMerkleRoot h block =
     (case vtx block of [] \<Rightarrow> None
      | _ # txs \<Rightarrow> Some (ComputeMerkleRoot (hash_pair h) (0 # map (GetWitnessHash h) txs)))"

definition BlockMerkleBranch :: "(bytes \<Rightarrow> bytes) \<Rightarrow> CBlock \<Rightarrow> nat \<Rightarrow> uint256 list" where
  "BlockMerkleBranch h block position = ComputeMerkleBranch (hash_pair h) (map (GetHash h) (vtx block)) position"

section \<open>The tree\<close>

text \<open>The hash of a tree of height \<open>l\<close> over up to \<open>2 ^ l\<close> leaves: a missing right half is replaced by
  the left one.\<close>

primrec tree_hash :: "(uint256 \<Rightarrow> uint256 \<Rightarrow> uint256) \<Rightarrow> nat \<Rightarrow> uint256 list \<Rightarrow> uint256" where
  "tree_hash H 0 xs = hd xs"
| "tree_hash H (Suc l) xs =
     (if length xs \<le> 2 ^ l then H (tree_hash H l xs) (tree_hash H l xs)
      else H (tree_hash H l (take (2 ^ l) xs)) (tree_hash H l (drop (2 ^ l) xs)))"

text \<open>The hashed pairs of the tree, and two equal complete halves somewhere in it.\<close>

primrec tree_pairs :: "(uint256 \<Rightarrow> uint256 \<Rightarrow> uint256) \<Rightarrow> nat \<Rightarrow> uint256 list \<Rightarrow> (uint256 \<times> uint256) set" where
  "tree_pairs H 0 xs = {}"
| "tree_pairs H (Suc l) xs =
     (if length xs \<le> 2 ^ l then insert (tree_hash H l xs, tree_hash H l xs) (tree_pairs H l xs)
      else insert (tree_hash H l (take (2 ^ l) xs), tree_hash H l (drop (2 ^ l) xs))
        (tree_pairs H l (take (2 ^ l) xs) \<union> tree_pairs H l (drop (2 ^ l) xs)))"

primrec tree_dup :: "(uint256 \<Rightarrow> uint256 \<Rightarrow> uint256) \<Rightarrow> nat \<Rightarrow> uint256 list \<Rightarrow> bool" where
  "tree_dup H 0 xs \<longleftrightarrow> False"
| "tree_dup H (Suc l) xs \<longleftrightarrow>
     (if length xs \<le> 2 ^ l then tree_dup H l xs
      else tree_dup H l (take (2 ^ l) xs) \<or> tree_dup H l (drop (2 ^ l) xs) \<or>
        length xs = 2 * 2 ^ l \<and> tree_hash H l (take (2 ^ l) xs) = tree_hash H l (drop (2 ^ l) xs))"

text \<open>The root commits to the list: two lists without equal complete halves that have the same root and
  trees of the same height are equal, unless two of the hashed pairs collide.\<close>

lemma tree_hash_commits:
  "inj_on (\<lambda>(a, b). H a b) P \<Longrightarrow> tree_pairs H l xs \<subseteq> P \<Longrightarrow> tree_pairs H l ys \<subseteq> P \<Longrightarrow>
   0 < length xs \<Longrightarrow> length xs \<le> 2 ^ l \<Longrightarrow> 0 < length ys \<Longrightarrow> length ys \<le> 2 ^ l \<Longrightarrow>
   \<not> tree_dup H l xs \<Longrightarrow> \<not> tree_dup H l ys \<Longrightarrow> tree_hash H l xs = tree_hash H l ys \<Longrightarrow> xs = ys"
proof (induction l arbitrary: xs ys)
  case 0
  then show ?case by (cases xs; cases ys) auto
next
  case (Suc l)
  note IH = Suc.IH [OF Suc.prems(1)]
  have inj: "a = c \<and> b = d" if "H a b = H c d" "(a, b) \<in> P" "(c, d) \<in> P" for a b c d
    using inj_onD [OF Suc.prems(1), of "(a, b)" "(c, d)"] that by simp
  let ?L = "\<lambda>zs. tree_hash H l (take (2 ^ l) zs)" and ?R = "\<lambda>zs. tree_hash H l (drop (2 ^ l) zs)"
  have half: False
    if z: "\<not> length zs \<le> 2 ^ l" "length zs \<le> 2 ^ Suc l" "\<not> tree_dup H (Suc l) zs" "tree_pairs H (Suc l) zs \<subseteq> P"
      and eq: "?L zs = ?R zs" for zs
  proof -
    have "take (2 ^ l) zs = drop (2 ^ l) zs"
      using z by (intro IH [OF _ _ _ _ _ _ _ _ eq]) simp_all
    then have "length (take (2 ^ l) zs) = length (drop (2 ^ l) zs)" by simp
    then have "length zs = 2 * 2 ^ l" using z(1) by simp
    with z(1,3) eq show False by simp
  qed
  consider "length xs \<le> 2 ^ l" "length ys \<le> 2 ^ l" | "length xs \<le> 2 ^ l" "\<not> length ys \<le> 2 ^ l"
    | "\<not> length xs \<le> 2 ^ l" "length ys \<le> 2 ^ l" | "\<not> length xs \<le> 2 ^ l" "\<not> length ys \<le> 2 ^ l" by blast
  then show ?case
  proof cases
    case 1
    have "tree_hash H l xs = tree_hash H l ys"
      using inj [of "tree_hash H l xs" "tree_hash H l xs" "tree_hash H l ys" "tree_hash H l ys"] 1 Suc.prems(2,3,10) by simp
    from IH [OF _ _ _ _ _ _ _ _ this] 1 Suc.prems show ?thesis by simp
  next
    case 2
    have "tree_hash H l xs = ?L ys \<and> tree_hash H l xs = ?R ys"
      using Suc.prems(2,3,10) 2 by (intro inj) (simp_all del: subset_insertI)
    with half [of ys] 2 Suc.prems(3,7,9) show ?thesis by metis
  next
    case 3
    have "?L xs = tree_hash H l ys \<and> ?R xs = tree_hash H l ys"
      using Suc.prems(2,3,10) 3 by (intro inj) (simp_all del: subset_insertI)
    with half [of xs] 3 Suc.prems(2,5,8) show ?thesis by metis
  next
    case 4
    have e: "?L xs = ?L ys" "?R xs = ?R ys"
      using inj [of "?L xs" "?R xs" "?L ys" "?R ys"] 4 Suc.prems(2,3,10) by simp_all
    have "take (2 ^ l) xs = take (2 ^ l) ys"
      using 4 Suc.prems by (intro IH [OF _ _ _ _ _ _ _ _ e(1)]) simp_all
    moreover have "drop (2 ^ l) xs = drop (2 ^ l) ys"
      using 4 Suc.prems by (intro IH [OF _ _ _ _ _ _ _ _ e(2)]) simp_all
    ultimately show ?thesis by (metis append_take_drop_id)
  qed
qed

section \<open>Nodes\<close>

definition node :: "(uint256 \<Rightarrow> uint256 \<Rightarrow> uint256) \<Rightarrow> uint256 list \<Rightarrow> nat \<Rightarrow> nat \<Rightarrow> uint256" where
  "node H xs l i = tree_hash H l (take (2 ^ l) (drop (i * 2 ^ l) xs))"

lemma node_0: "i < length xs \<Longrightarrow> node H xs 0 i = xs ! i"
  by (simp add: node_def hd_drop_conv_nth take_Suc)

lemma node_Suc:
  assumes "i * 2 ^ Suc l < length xs"
  shows "node H xs (Suc l) i =
    H (node H xs l (2 * i)) (if (2 * i + 1) * 2 ^ l < length xs then node H xs l (2 * i + 1) else node H xs l (2 * i))"
proof -
  let ?zs = "take (2 ^ Suc l) (drop (i * 2 ^ Suc l) xs)"
  have l: "length ?zs = min (length xs - i * 2 ^ Suc l) (2 ^ Suc l)" by simp
  have a: "i * 2 ^ Suc l = 2 * i * 2 ^ l" by simp
  have t: "take (2 ^ l) ?zs = take (2 ^ l) (drop (2 * i * 2 ^ l) xs)"
    unfolding a [symmetric] take_take by (simp add: min_def)
  have d: "drop (2 ^ l) ?zs = take (2 ^ l) (drop ((2 * i + 1) * 2 ^ l) xs)"
    by (simp add: drop_take algebra_simps)
  show ?thesis
  proof (cases "(2 * i + 1) * 2 ^ l < length xs")
    case True
    then have "i * 2 ^ Suc l + 2 ^ l < length xs" using a by (simp add: algebra_simps)
    then have "\<not> length ?zs \<le> 2 ^ l" unfolding l min_def by auto
    then show ?thesis using True t d by (simp add: node_def)
  next
    case False
    then have s: "length ?zs \<le> 2 ^ l" unfolding l by (auto simp: algebra_simps)
    then have "take (2 ^ l) ?zs = ?zs" by (rule take_all)
    with t have "?zs = take (2 ^ l) (drop (2 * i * 2 ^ l) xs)" by simp
    then show ?thesis using False s by (simp add: node_def)
  qed
qed

lemma node_top: "length xs \<le> 2 ^ l \<Longrightarrow> node H xs l 0 = tree_hash H l xs"
  by (simp add: node_def)

section \<open>The calculator computes the nodes\<close>

text \<open>The entries of \<open>inner\<close> at the ones of \<open>m\<close>, from level \<open>l\<close>: the complete subtrees of the first \<open>m\<close>
  leaves.\<close>

definition inner_ok :: "(uint256 \<Rightarrow> uint256 \<Rightarrow> uint256) \<Rightarrow> uint256 list \<Rightarrow> uint256 list \<Rightarrow> nat \<Rightarrow> nat \<Rightarrow> bool" where
  "inner_ok H xs inn l m \<longleftrightarrow> (\<forall>k\<ge>l. bit m k \<longrightarrow> inn ! k = node H xs k (m div 2 ^ k - 1))"

definition carry_ok ::
  "(uint256 \<Rightarrow> uint256 \<Rightarrow> uint256) \<Rightarrow> uint256 list \<Rightarrow> uint256 list \<Rightarrow> nat \<Rightarrow> nat \<Rightarrow> uint256 \<Rightarrow> bool" where
  "carry_ok H xs inn l count v \<longleftrightarrow> 2 ^ l dvd count \<and> 0 < count \<and> count - 2 ^ l < length xs \<and>
     v = node H xs l (count div 2 ^ l - 1) \<and> inner_ok H xs inn l (count - 2 ^ l)"

lemma bit_nat_odd: "bit (n :: nat) k \<longleftrightarrow> odd (n div 2 ^ k)"
  by (simp add: bit_iff_odd)

lemma minus_level:
  fixes q :: nat
  assumes "l < k" "count = (2 * q + 2) * 2 ^ l"
  shows "(count - 2 ^ l) div 2 ^ k = (count - 2 ^ Suc l) div 2 ^ k"
proof -
  obtain d where d: "k = Suc l + d" using assms(1) less_iff_Suc_add [of l k] by auto
  have "(count - 2 ^ l) div 2 ^ l = 2 * q + 1" "(count - 2 ^ Suc l) div 2 ^ l = 2 * q"
    using assms(2) by (simp_all add: algebra_simps)
  moreover have "n div 2 ^ k = n div 2 ^ l div 2 div 2 ^ d" for n :: nat
    unfolding d power_add power_Suc2 by (simp add: div_mult2_eq)
  ultimately show ?thesis by simp
qed

lemma carry_even:
  assumes "carry_ok H xs inn l count v" "\<not> bit count l"
  obtains q where "count = (2 * q + 2) * 2 ^ l" "count div 2 ^ l = 2 * q + 2"
proof -
  have d: "2 ^ l dvd count" "0 < count" using assms(1) by (simp_all add: carry_ok_def)
  then obtain r where r: "count = r * 2 ^ l" by (metis dvdE mult.commute)
  with d(2) assms(2) have "even r" "0 < r" by (simp_all add: bit_nat_odd)
  then obtain q where "r = 2 * q + 2"
    by (metis dvdE gr0_conv_Suc mult_Suc_right mult_zero_right less_irrefl add.commute old.nat.exhaust)
  with r show thesis by (intro that [of q]) simp_all
qed

lemma carry_ok_step:
  assumes c: "carry_ok H xs inn l count v" and b: "\<not> bit count l"
  shows "inn ! l = node H xs l (count div 2 ^ l - 2)" "carry_ok H xs inn (Suc l) count (H (inn ! l) v)"
proof -
  obtain q where q: "count = (2 * q + 2) * 2 ^ l" "count div 2 ^ l = 2 * q + 2" by (rule carry_even [OF c b])
  have v: "v = node H xs l (2 * q + 1)" and n: "(2 * q + 1) * 2 ^ l < length xs"
    and i: "inner_ok H xs inn l (count - 2 ^ l)"
    using c q by (simp_all add: carry_ok_def algebra_simps)
  have m: "(count - 2 ^ l) div 2 ^ l = 2 * q + 1" using q by (simp add: algebra_simps)
  show e: "inn ! l = node H xs l (count div 2 ^ l - 2)"
    using i [unfolded inner_ok_def, rule_format, of l] q m by (simp add: bit_nat_odd)
  have "node H xs (Suc l) q = H (node H xs l (2 * q)) (node H xs l (2 * q + 1))"
    using n by (subst node_Suc) (simp_all add: algebra_simps)
  moreover have "inner_ok H xs inn (Suc l) (count - 2 ^ Suc l)"
    using i minus_level [OF _ q(1)] by (simp add: inner_ok_def bit_nat_odd Suc_le_eq)
  moreover have "count = (q + 1) * 2 ^ Suc l" "count div 2 ^ Suc l = q + 1" using q(1) by simp_all
  ultimately show "carry_ok H xs inn (Suc l) count (H (inn ! l) v)"
    unfolding carry_ok_def using e q(2) n v by (simp add: algebra_simps)
qed

lemma combine_simps [simp]:
  "carry_h (combine H pb t inn ml l c) = H (inn ! l) (carry_h c)"
  "mutated (combine H pb t inn ml l c) \<longleftrightarrow> mutated c \<or> t \<and> inn ! l = carry_h c"
  by (simp_all add: combine_def push_branch_def)

lemma carry_drop_pos: "carry_ok H xs inn l count v \<Longrightarrow> drop_bit l count \<noteq> 0"
  by (auto simp: carry_ok_def drop_bit_eq_div dvd_def)

text \<open>What the carry loop does from a state that is right to the level where it stops.\<close>

lemma carry_up_ok:
  "carry_up H pb t inn ml count l c = (c', L) \<Longrightarrow> carry_ok H xs inn l count (carry_h c) \<Longrightarrow>
   l \<le> L \<and> bit count L \<and> carry_ok H xs inn L count (carry_h c') \<and>
   (mutated c' \<longleftrightarrow> mutated c \<or>
      t \<and> (\<exists>k. l \<le> k \<and> k < L \<and> node H xs k (count div 2 ^ k - 2) = node H xs k (count div 2 ^ k - 1)))"
proof (induction H pb t inn ml count l c arbitrary: c' L rule: carry_up.induct)
  case (1 H pb t inn ml count l c)
  note nz = carry_drop_pos [OF 1(3)]
  show ?case
  proof (cases "bit count l")
    case True
    then show ?thesis using 1(2,3) by (auto simp: carry_up.simps)
  next
    case False
    note s = carry_ok_step [OF 1(3) False]
    have r: "carry_up H pb t inn ml count (l + 1) (combine H pb t inn ml l c) = (c', L)"
      using 1(2) False nz by (simp add: carry_up.simps [of _ _ _ _ _ _ l])
    have v: "carry_h c = node H xs l (count div 2 ^ l - 1)" using 1(3) by (simp add: carry_ok_def)
    have IH: "l + 1 \<le> L \<and> bit count L \<and> carry_ok H xs inn L count (carry_h c') \<and>
      (mutated c' \<longleftrightarrow> mutated (combine H pb t inn ml l c) \<or>
        t \<and> (\<exists>k. l + 1 \<le> k \<and> k < L \<and> node H xs k (count div 2 ^ k - 2) = node H xs k (count div 2 ^ k - 1)))"
      using 1(1) [OF _ r] False nz s(2) by simp
    have "(\<exists>k. l \<le> k \<and> k < L \<and> P k) \<longleftrightarrow> P l \<or> (\<exists>k. l + 1 \<le> k \<and> k < L \<and> P k)" for P
      using IH by (metis Suc_eq_plus1 Suc_le_eq le_eq_less_or_eq)
    with IH show ?thesis by (simp add: s(1) v) (metis Suc_leD)
  qed
qed

lemma minus_done:
  assumes "carry_ok H xs inn L count v" "bit count L"
  shows "even ((count - 2 ^ L) div 2 ^ L)" "Suc L \<le> k \<Longrightarrow> (count - 2 ^ L) div 2 ^ k = count div 2 ^ k"
proof -
  have "2 ^ L dvd count" using assms(1) by (simp add: carry_ok_def)
  then obtain r where r: "count = r * 2 ^ L" by (metis dvdE mult.commute)
  with assms(2) obtain q where q: "r = 2 * q + 1" by (auto simp: bit_nat_odd elim: oddE)
  have e: "(count - 2 ^ L) div 2 ^ L = 2 * q" "count div 2 ^ L = 2 * q + 1"
    using r q by (simp_all add: algebra_simps)
  then show "even ((count - 2 ^ L) div 2 ^ L)" by simp
  assume "Suc L \<le> k"
  then obtain d where d: "k = Suc L + d" using le_Suc_ex by blast
  have "n div 2 ^ k = n div 2 ^ L div 2 div 2 ^ d" for n :: nat
    unfolding d power_add power_Suc2 by (simp add: div_mult2_eq)
  with e show "(count - 2 ^ L) div 2 ^ k = count div 2 ^ k" by simp
qed

lemma carry_done:
  assumes "carry_ok H xs inn L count v" "bit count L"
  shows "inner_ok H xs inn (Suc L) count"
  using assms(1) minus_done(2) [OF assms] by (simp add: inner_ok_def carry_ok_def bit_nat_odd)

text \<open>Two equal complete halves below the first \<open>n\<close> leaves, and the state after \<open>n\<close> leaves.\<close>

definition dup_nodes :: "(uint256 \<Rightarrow> uint256 \<Rightarrow> uint256) \<Rightarrow> uint256 list \<Rightarrow> nat \<Rightarrow> bool" where
  "dup_nodes H xs n \<longleftrightarrow>
     (\<exists>k i. (2 * i + 2) * 2 ^ k \<le> n \<and> node H xs k (2 * i) = node H xs k (2 * i + 1))"

definition merkle_ok :: "(uint256 \<Rightarrow> uint256 \<Rightarrow> uint256) \<Rightarrow> uint256 list \<Rightarrow> nat \<Rightarrow> merkle \<Rightarrow> bool" where
  "merkle_ok H xs n m \<longleftrightarrow> m_count m = n \<and> length (inner m) = 32 \<and> inner_ok H xs (inner m) 0 n \<and>
     (m_mutated m \<longleftrightarrow> dup_nodes H xs n)"

lemma dup_nodes_Suc:
  assumes "2 ^ L dvd n + 1" "bit (n + 1) L"
  shows "dup_nodes H xs (n + 1) \<longleftrightarrow> dup_nodes H xs n \<or>
    (\<exists>k<L. node H xs k ((n + 1) div 2 ^ k - 2) = node H xs k ((n + 1) div 2 ^ k - 1))"
proof -
  have "(\<exists>i. (2 * i + 2) * 2 ^ k = n + 1 \<and> node H xs k (2 * i) = node H xs k (2 * i + 1)) \<longleftrightarrow>
      k < L \<and> node H xs k ((n + 1) div 2 ^ k - 2) = node H xs k ((n + 1) div 2 ^ k - 1)" (is "?A \<longleftrightarrow> ?B") for k
  proof
    assume ?A
    then obtain i where i: "(2 * i + 2) * 2 ^ k = n + 1" "node H xs k (2 * i) = node H xs k (2 * i + 1)" by blast
    have "k < L"
    proof (rule ccontr)
      assume "\<not> k < L"
      then obtain d where "k = L + d" using le_Suc_ex [of L k] by auto
      then have "(n + 1) div 2 ^ L = (2 * i + 2) * 2 ^ d"
        unfolding i(1) [symmetric] by (simp add: power_add)
      with assms(2) show False by (simp add: bit_nat_odd)
    qed
    moreover have "(n + 1) div 2 ^ k = 2 * i + 2" unfolding i(1) [symmetric] by simp
    ultimately show ?B using i(2) by simp
  next
    assume b: ?B
    then have "(2 :: nat) ^ Suc k dvd 2 ^ L" by (simp add: le_imp_power_dvd Suc_le_eq del: power_Suc)
    then have "2 ^ Suc k dvd n + 1" using assms(1) by (rule dvd_trans)
    then obtain r where r: "n + 1 = r * 2 ^ Suc k" by (metis dvdE mult.commute)
    then obtain i where i: "r = Suc i" by (cases r) auto
    have e: "(2 * i + 2) * 2 ^ k = n + 1" using r i by simp
    then have "(n + 1) div 2 ^ k = 2 * i + 2" by (metis nonzero_mult_div_cancel_right power_not_zero zero_neq_numeral)
    with b e show ?A by (intro exI [of _ i]) simp
  qed
  then have "(\<exists>k i. (2 * i + 2) * 2 ^ k = n + 1 \<and> node H xs k (2 * i) = node H xs k (2 * i + 1)) \<longleftrightarrow>
      (\<exists>k<L. node H xs k ((n + 1) div 2 ^ k - 2) = node H xs k ((n + 1) div 2 ^ k - 1))" by blast
  then show ?thesis unfolding dup_nodes_def le_Suc_eq [of _ n] Suc_eq_plus1 [symmetric] by blast
qed

lemma add_leaf_ok:
  assumes m: "merkle_ok H xs n m" and n: "n < length xs" "n + 1 < 2 ^ 32"
  shows "merkle_ok H xs (n + 1) (add_leaf H pb p (xs ! n) m)"
proof -
  let ?c0 = "\<lparr>carry_h = xs ! n, matchh = (n = p), branch_hashes = m_branch m, mutated = m_mutated m\<rparr>"
  obtain c L where c: "carry_up H pb True (inner m) (matchlevel m) (n + 1) 0 ?c0 = (c, L)" by (cases "carry_up H pb True (inner m) (matchlevel m) (n + 1) 0 ?c0")
  have "carry_ok H xs (inner m) 0 (n + 1) (carry_h ?c0)"
    using m n by (simp add: carry_ok_def merkle_ok_def node_0)
  from carry_up_ok [OF c this] have L: "bit (n + 1) L" "carry_ok H xs (inner m) L (n + 1) (carry_h c)"
    and mut: "mutated c \<longleftrightarrow> m_mutated m \<or>
      (\<exists>k<L. node H xs k ((n + 1) div 2 ^ k - 2) = node H xs k ((n + 1) div 2 ^ k - 1))" by auto
  have d: "2 ^ L dvd n + 1" using L(2) by (simp add: carry_ok_def)
  have "2 ^ L \<le> n + 1" using d by (rule dvd_imp_le) simp
  then have "(2 :: nat) ^ L < 2 ^ 32" using n(2) by (rule le_less_trans)
  then have L32: "L < 32" by (rule power_less_imp_less_exp [rotated]) simp
  have "\<not> bit (n + 1) k" if "k < L" for k
  proof -
    have "(2 :: nat) ^ Suc k dvd 2 ^ L" using that by (simp add: le_imp_power_dvd Suc_le_eq del: power_Suc)
    then have "2 ^ Suc k dvd n + 1" using d by (rule dvd_trans)
    then obtain r where "n + 1 = 2 ^ k * (2 * r)" by (auto simp: dvd_def)
    then have "(n + 1) div 2 ^ k = 2 * r" by simp
    then show ?thesis by (simp add: bit_nat_odd)
  qed
  moreover have "inner_ok H xs (inner m) (Suc L) (n + 1)" by (rule carry_done [OF L(2,1)])
  moreover have "carry_h c = node H xs L ((n + 1) div 2 ^ L - 1)" using L(2) by (simp add: carry_ok_def)
  ultimately have "inner_ok H xs ((inner m)[L := carry_h c]) 0 (n + 1)"
    using m L32 unfolding inner_ok_def merkle_ok_def
    by (metis Suc_leI linorder_neqE_nat nth_list_update_eq nth_list_update_neq)
  then show ?thesis
    using m c dup_nodes_Suc [OF d L(1), of H xs] mut
    by (simp add: add_leaf_def merkle_ok_def Let_def)
qed

lemma dup_nodes_0: "\<not> dup_nodes H xs 0"
  by (simp add: dup_nodes_def)

lemma fold_add_leaf_ok:
  "length xs < 2 ^ 32 \<Longrightarrow> n \<le> length xs \<Longrightarrow>
   merkle_ok H xs n (fold (add_leaf H pb p) (take n xs) merkle_init)"
proof (induction n)
  case 0
  have "\<not> bit (0 :: nat) k" for k by simp
  then show ?case by (simp add: merkle_ok_def merkle_init_def inner_ok_def dup_nodes_0)
next
  case (Suc n)
  then have "fold (add_leaf H pb p) (take (Suc n) xs) merkle_init =
      add_leaf H pb p (xs ! n) (fold (add_leaf H pb p) (take n xs) merkle_init)"
    by (simp add: take_Suc_conv_app_nth)
  with Suc add_leaf_ok [of H xs n _ pb p] show ?case by simp
qed

lemma lowest_level_props:
  "drop_bit l n \<noteq> 0 \<Longrightarrow> 2 ^ l dvd n \<Longrightarrow> bit n (lowest_level n l) \<and> 2 ^ lowest_level n l dvd n"
proof (induction n l rule: lowest_level.induct)
  case (1 n l)
  show ?case
  proof (cases "bit n l")
    case True
    then show ?thesis using 1(3) by (simp add: lowest_level.simps)
  next
    case False
    from 1(3) obtain r where r: "n = 2 ^ l * r" by (rule dvdE)
    with False have "even r" by (simp add: bit_nat_odd)
    then obtain s where s: "r = 2 * s" by (rule evenE)
    have "2 ^ (l + 1) dvd n" "drop_bit (l + 1) n \<noteq> 0"
      using 1(2) r s by (simp_all add: drop_bit_eq_div)
    with 1(1,2) False show ?thesis by (simp add: lowest_level.simps [of n l])
  qed
qed

text \<open>The state of the sweep: the count is the number of leaves rounded up at the level.\<close>

definition sweep_ok ::
  "(uint256 \<Rightarrow> uint256 \<Rightarrow> uint256) \<Rightarrow> uint256 list \<Rightarrow> uint256 list \<Rightarrow> nat \<Rightarrow> nat \<Rightarrow> uint256 \<Rightarrow> bool" where
  "sweep_ok H xs inn count l v \<longleftrightarrow> bit count l \<and> carry_ok H xs inn l count v \<and> length xs \<le> count \<and>
     2 ^ l < 2 * length xs"

lemma sweep_step:
  assumes s: "sweep_ok H xs inn count l v" and n: "count \<noteq> 2 ^ l"
  shows "carry_ok H xs inn (Suc l) (count + 2 ^ l) (H v v)" "count + 2 ^ l < 2 * length xs"
    "odd (count div 2 ^ l)" "2 * 2 ^ l < count"
proof -
  from s have c: "carry_ok H xs inn l count v" and b: "bit count l" and len: "length xs \<le> count"
    by (simp_all add: sweep_ok_def)
  obtain r where r: "count = r * 2 ^ l" using c unfolding carry_ok_def by (metis dvdE mult.commute)
  with b show "odd (count div 2 ^ l)" by (simp add: bit_nat_odd)
  with r obtain q where q: "r = 2 * q + 1" by (auto elim: oddE)
  with r n have q0: "0 < q" by (cases q) simp_all
  have lt: "2 * q * 2 ^ l < length xs" using c r q by (simp add: carry_ok_def)
  define M where "M = q * 2 ^ l"
  have "2 ^ l \<le> M" using q0 by (simp add: M_def)
  moreover have "count = 2 * M + 2 ^ l" "2 * M < length xs" using r q lt by (simp_all add: M_def algebra_simps)
  moreover have "0 < (2 :: nat) ^ l" by simp
  ultimately show "count + 2 ^ l < 2 * length xs" "2 * 2 ^ l < count" by linarith+
  have "count \<le> (2 * q + 1) * 2 ^ l" using r q by simp
  then have "node H xs (Suc l) q = H (node H xs l (2 * q)) (node H xs l (2 * q))"
    using lt len by (subst node_Suc) (auto simp: algebra_simps)
  moreover have "v = node H xs l (2 * q)" using c r q by (simp add: carry_ok_def)
  moreover have e: "count + 2 ^ l = (q + 1) * 2 ^ Suc l" using r q by (simp add: algebra_simps)
  moreover have "(count + 2 ^ l) div 2 ^ Suc l = q + 1" unfolding e by simp
  moreover have "inner_ok H xs inn (Suc l) (count + 2 ^ l - 2 ^ Suc l)"
  proof -
    have e': "count + 2 ^ l - 2 ^ Suc l = count - 2 ^ l" by simp
    have "inner_ok H xs inn l (count - 2 ^ l)" using c by (simp add: carry_ok_def)
    then show ?thesis unfolding e' by (simp add: inner_ok_def)
  qed
  ultimately show "carry_ok H xs inn (Suc l) (count + 2 ^ l) (H v v)"
    unfolding carry_ok_def using lt by simp
qed

lemma sweep_ok_step:
  assumes s: "sweep_ok H xs inn count l (carry_h c)" and n: "count \<noteq> 2 ^ l"
    and u: "carry_up H pb False inn ml (count + 2 ^ l) (Suc l) d = (c', l')" and d: "carry_h d = H (carry_h c) (carry_h c)"
  shows "sweep_ok H xs inn (count + 2 ^ l) l' (carry_h c')" "mutated c' = mutated d"
proof -
  note st = sweep_step [OF s n]
  from carry_up_ok [OF u, of xs] st(1) d have r: "bit (count + 2 ^ l) l'"
    "carry_ok H xs inn l' (count + 2 ^ l) (carry_h c')" and mu: "mutated c' = mutated d" by auto
  have "2 ^ l' dvd count + 2 ^ l" using r(2) by (simp add: carry_ok_def)
  then have "2 ^ l' \<le> count + 2 ^ l" by (rule dvd_imp_le) simp
  with st(2) s r show "sweep_ok H xs inn (count + 2 ^ l) l' (carry_h c')" by (simp add: sweep_ok_def)
  from mu show "mutated c' = mutated d" .
qed

lemma sweep_stop:
  assumes "sweep_ok H xs inn count l v"
  shows "count = 2 ^ l \<or> drop_bit l count \<le> 1 \<longleftrightarrow> count = 2 ^ l"
proof -
  obtain r where r: "count = r * 2 ^ l" using assms unfolding sweep_ok_def carry_ok_def by (metis dvdE mult.commute)
  with assms have "odd r" by (simp add: sweep_ok_def bit_nat_odd)
  with r show ?thesis by (auto simp: drop_bit_eq_div le_Suc_eq)
qed

lemma duplicate_simps [simp]:
  "carry_h (duplicate H pb c) = H (carry_h c) (carry_h c)" "mutated (duplicate H pb c) = mutated c"
  by (simp_all add: duplicate_def Let_def)

lemma sweep_result:
  "sweep_ok H xs inn count l (carry_h c) \<Longrightarrow>
   \<exists>L. 2 ^ L < 2 * length xs \<and> length xs \<le> 2 ^ L \<and> carry_h (sweep H pb inn ml count l c) = tree_hash H L xs \<and>
     mutated (sweep H pb inn ml count l c) = mutated c"
proof (induction H pb inn ml count l c rule: sweep.induct)
  case (1 H pb inn ml count l c)
  note stop = sweep_stop [OF 1(2)]
  show ?case
  proof (cases "count = 2 ^ l")
    case True
    then show ?thesis using 1(2)
      by (intro exI [of _ l]) (simp add: sweep.simps sweep_ok_def carry_ok_def node_top)
  next
    case False
    obtain c' l' where
      u: "carry_up H pb False inn ml (count + 2 ^ l) (Suc l) (duplicate H pb c) = (c', l')" by fastforce
    have s: "sweep H pb inn ml count l c = sweep H pb inn ml (count + 2 ^ l) l' c'"
      using False stop u by (simp add: sweep.simps [of _ _ _ _ count l] Let_def)
    note n = sweep_ok_step [OF 1(2) False u duplicate_simps(1)]
    show ?thesis unfolding s
      using 1(1) [of _ "(c', l')" c' l'] False stop u n by simp
  qed
qed

section \<open>The height of the tree\<close>

text \<open>The height counts the levels until the width is one.\<close>

definition tree_width :: "nat \<Rightarrow> nat \<Rightarrow> nat" where
  "tree_width n height = (n + 2 ^ height - 1) div 2 ^ height"

lemma tree_width_le:
  assumes "0 < n"
  shows "tree_width n l \<le> w \<longleftrightarrow> n \<le> w * 2 ^ l"
proof -
  have "(n + 2 ^ l - 1) div 2 ^ l \<le> w \<longleftrightarrow> (n + 2 ^ l - 1) < (w + 1) * 2 ^ l"
    by (simp add: less_Suc_eq_le [symmetric] div_less_iff_less_mult)
  also have "\<dots> \<longleftrightarrow> n \<le> w * 2 ^ l"
  proof -
    have "(w + 1) * 2 ^ l = w * 2 ^ l + 2 ^ l" by simp
    then show ?thesis using assms by linarith
  qed
  finally show ?thesis by (simp add: tree_width_def)
qed

lemma tree_width_gt: "0 < n \<Longrightarrow> w < tree_width n l \<longleftrightarrow> w * 2 ^ l < n"
  using tree_width_le [of n l w] by linarith

function height_from :: "nat \<Rightarrow> nat \<Rightarrow> nat" where
  "height_from n height = (if 1 < tree_width n height then height_from n (height + 1) else height)"
  by pat_completeness auto
termination
proof (relation "measure (\<lambda>(n, height). n - height)", rule wf_measure)
  fix n height assume w: "1 < tree_width n height"
  have "tree_width 0 height = 0" by (simp add: tree_width_def)
  with w have n: "0 < n" by (cases n) auto
  from w have "2 ^ height < n" unfolding tree_width_gt [OF n] by simp
  with less_exp [of height] have "height < n" by (rule less_trans)
  then show "((n, height + 1), n, height) \<in> measure (\<lambda>(n, height). n - height)" by simp
qed

declare height_from.simps [simp del]

abbreviation tree_height :: "nat \<Rightarrow> nat" where
  "tree_height n \<equiv> height_from n 0"

lemma height_from_eq: "0 < n \<Longrightarrow> n \<le> 2 ^ L \<Longrightarrow> 2 ^ L < 2 * n \<Longrightarrow> l \<le> L \<Longrightarrow> height_from n l = L"
proof (induction n l rule: height_from.induct)
  case (1 n l)
  show ?case
  proof (cases "l = L")
    case True
    have "\<not> 1 < tree_width n l" using True 1(2,3) by (simp add: tree_width_gt)
    then show ?thesis using True by (subst height_from.simps) simp
  next
    case False
    then have "2 * 2 ^ l \<le> (2 :: nat) ^ L" using 1(5) power_increasing [of "Suc l" L "2 :: nat"] by simp
    with 1(4) have "1 < tree_width n l" using 1(2) by (simp add: tree_width_gt)
    moreover have "l + 1 \<le> L" using 1(5) False by simp
    ultimately show ?thesis using 1(1-4) by (subst height_from.simps) simp
  qed
qed

section \<open>The root\<close>

lemma merkle_sweep_start:
  assumes m: "merkle_ok H xs (length xs) m" and n: "0 < length xs"
  defines "l \<equiv> lowest_level (length xs) 0"
  shows "sweep_ok H xs (inner m) (length xs) l (inner m ! l)"
proof -
  have l: "bit (length xs) l" "2 ^ l dvd length xs"
    using lowest_level_props [of 0 "length xs"] n by (simp_all add: l_def)
  then obtain r where r: "length xs = r * 2 ^ l" by (metis dvdE mult.commute)
  with l(1) obtain q where q: "r = 2 * q + 1" by (auto simp: bit_nat_odd elim: oddE)
  have i: "inner_ok H xs (inner m) 0 (length xs)" using m by (simp add: merkle_ok_def)
  have "inner_ok H xs (inner m) l (length xs - 2 ^ l)"
    unfolding inner_ok_def
  proof (intro allI impI)
    fix k assume k: "l \<le> k" "bit (length xs - 2 ^ l) k"
    have e: "(length xs - 2 ^ l) div 2 ^ l = 2 * q" "length xs div 2 ^ l = 2 * q + 1"
      using r q by (simp_all add: algebra_simps)
    with k have "k \<noteq> l" by (auto simp: bit_nat_odd)
    with k(1) obtain d where d: "k = Suc l + d" by (metis le_neq_implies_less less_imp_Suc_add add_Suc)
    have "n div 2 ^ k = n div 2 ^ l div 2 div 2 ^ d" for n :: nat
      unfolding d power_add power_Suc2 by (simp add: div_mult2_eq)
    with e have "(length xs - 2 ^ l) div 2 ^ k = length xs div 2 ^ k" by simp
    with i k(2) show "inner m ! k = node H xs k ((length xs - 2 ^ l) div 2 ^ k - 1)"
      by (simp add: inner_ok_def bit_nat_odd)
  qed
  moreover have "inner m ! l = node H xs l (length xs div 2 ^ l - 1)"
    using i l(1) by (simp add: inner_ok_def)
  moreover have "2 ^ l < 2 * length xs" using dvd_imp_le [OF l(2) n] n by linarith
  ultimately show ?thesis using l n by (simp add: sweep_ok_def carry_ok_def)
qed

lemma MerkleComputation_root:
  assumes "0 < length xs" "length xs < 2 ^ 32"
  shows "carry_h (MerkleComputation H pb p xs) = tree_hash H (tree_height (length xs)) xs"
    and "mutated (MerkleComputation H pb p xs) = dup_nodes H xs (length xs)"
proof -
  define m where "m = fold (add_leaf H pb p) xs merkle_init"
  have m: "merkle_ok H xs (length xs) m"
    using fold_add_leaf_ok [OF assms(2) order_refl, of H pb p] by (simp add: m_def)
  define l where "l = lowest_level (length xs) 0"
  define c where "c = \<lparr>carry_h = inner m ! l, matchh = (matchlevel m = int l), branch_hashes = m_branch m,
      mutated = m_mutated m\<rparr>"
  have e: "MerkleComputation H pb p xs = sweep H pb (inner m) (matchlevel m) (length xs) l c"
    using assms(1) m by (simp add: MerkleComputation_def m_def [symmetric] merkle_ok_def c_def l_def Let_def)
  have "sweep_ok H xs (inner m) (length xs) l (carry_h c)"
    using merkle_sweep_start [OF m assms(1)] by (simp add: c_def l_def)
  from sweep_result [OF this] obtain L where L: "2 ^ L < 2 * length xs" "length xs \<le> 2 ^ L"
    "carry_h (MerkleComputation H pb p xs) = tree_hash H L xs"
    "mutated (MerkleComputation H pb p xs) = mutated c" unfolding e by metis
  have "tree_height (length xs) = L" by (rule height_from_eq [OF assms(1) L(2,1)]) simp
  with L show "carry_h (MerkleComputation H pb p xs) = tree_hash H (tree_height (length xs)) xs"
    and "mutated (MerkleComputation H pb p xs) = dup_nodes H xs (length xs)"
    using m by (simp_all add: c_def merkle_ok_def)
qed

theorem ComputeMerkleRoot_eq:
  assumes "0 < length xs" "length xs < 2 ^ 32"
  shows "ComputeMerkleRoot H xs = (tree_hash H (tree_height (length xs)) xs, dup_nodes H xs (length xs))"
  using MerkleComputation_root [OF assms] by (simp add: ComputeMerkleRoot_def Let_def)

lemma tree_height_ge: "0 < n \<Longrightarrow> n \<le> 2 ^ height_from n l"
proof (induction n l rule: height_from.induct)
  case (1 n l)
  then show ?case by (subst height_from.simps) (simp add: tree_width_le [of n l 1, simplified] not_less)
qed

lemma tree_dup_nodes:
  "i * 2 ^ l < length xs \<Longrightarrow> tree_dup H l (take (2 ^ l) (drop (i * 2 ^ l) xs)) \<Longrightarrow> dup_nodes H xs (length xs)"
proof (induction l arbitrary: i)
  case (Suc l)
  let ?zs = "take (2 ^ Suc l) (drop (i * 2 ^ Suc l) xs)"
  have len: "length ?zs = min (length xs - i * 2 ^ Suc l) (2 ^ Suc l)" by simp
  have a: "i * 2 ^ Suc l = 2 * i * 2 ^ l" by simp
  have t: "take (2 ^ l) ?zs = take (2 ^ l) (drop (2 * i * 2 ^ l) xs)"
    unfolding a [symmetric] take_take by (simp add: min_def)
  have d: "drop (2 ^ l) ?zs = take (2 ^ l) (drop ((2 * i + 1) * 2 ^ l) xs)"
    by (simp add: drop_take algebra_simps)
  have i0: "2 * i * 2 ^ l < length xs" using Suc.prems(1) by (simp add: ac_simps)
  show ?case
  proof (cases "length ?zs \<le> 2 ^ l")
    case True
    then have "take (2 ^ l) ?zs = ?zs" by (rule take_all)
    with Suc.prems(2) True t have "tree_dup H l (take (2 ^ l) (drop (2 * i * 2 ^ l) xs))"
      by (simp del: take_take drop_take)
    with i0 show ?thesis by (rule Suc.IH)
  next
    case False
    then have i1: "(2 * i + 1) * 2 ^ l < length xs" unfolding len min_def by (simp add: algebra_simps split: if_splits)
    from Suc.prems(2) False t d consider "tree_dup H l (take (2 ^ l) (drop (2 * i * 2 ^ l) xs))"
      | "tree_dup H l (take (2 ^ l) (drop ((2 * i + 1) * 2 ^ l) xs))"
      | "length ?zs = 2 * 2 ^ l" "node H xs l (2 * i) = node H xs l (2 * i + 1)"
      unfolding node_def by (simp del: take_take drop_take length_take) blast
    then show ?thesis
    proof cases
      case 1 with i0 show ?thesis by (rule Suc.IH)
    next
      case 2 with i1 show ?thesis by (rule Suc.IH)
    next
      case 3
      then have "(2 * i + 2) * 2 ^ l \<le> length xs" unfolding len min_def using i1
        by (simp add: algebra_simps split: if_splits)
      with 3 show ?thesis unfolding dup_nodes_def by blast
    qed
  qed
qed simp

lemma tree_dup_mutated:
  assumes "0 < length xs" "tree_dup H (tree_height (length xs)) xs"
  shows "dup_nodes H xs (length xs)"
  using tree_dup_nodes [of 0 "tree_height (length xs)" xs H] assms tree_height_ge [of "length xs" 0] by simp

text \<open>The root of an unmutated list commits to the list, among the lists of the same height.\<close>

theorem ComputeMerkleRoot_commits:
  assumes "ComputeMerkleRoot H xs = (r, False)" "ComputeMerkleRoot H ys = (r, False)"
    and "tree_height (length xs) = tree_height (length ys)"
    and "0 < length xs" "length xs < 2 ^ 32" "0 < length ys" "length ys < 2 ^ 32"
    and "inj_on (\<lambda>(a, b). H a b)
      (tree_pairs H (tree_height (length xs)) xs \<union> tree_pairs H (tree_height (length ys)) ys)"
  shows "xs = ys"
proof (rule tree_hash_commits [OF assms(8), of "tree_height (length xs)"])
  show "\<not> tree_dup H (tree_height (length xs)) xs" "\<not> tree_dup H (tree_height (length xs)) ys"
    using assms(1-7) tree_dup_mutated [of xs H] tree_dup_mutated [of ys H]
    by (auto simp: ComputeMerkleRoot_eq)
qed (use assms tree_height_ge [of "length xs" 0] tree_height_ge [of "length ys" 0] in \<open>simp_all add: ComputeMerkleRoot_eq\<close>)

section \<open>The branch\<close>

text \<open>The sibling at level \<open>k\<close> of the leaf at \<open>p\<close>, itself when there is none.\<close>

definition sibling :: "(uint256 \<Rightarrow> uint256 \<Rightarrow> uint256) \<Rightarrow> uint256 list \<Rightarrow> nat \<Rightarrow> nat \<Rightarrow> uint256" where
  "sibling H xs p k =
     (let i = p div 2 ^ k in
      if odd i then node H xs k (i - 1)
      else if (i + 1) * 2 ^ k < length xs then node H xs k (i + 1) else node H xs k i)"

definition siblings :: "(uint256 \<Rightarrow> uint256 \<Rightarrow> uint256) \<Rightarrow> uint256 list \<Rightarrow> nat \<Rightarrow> nat \<Rightarrow> uint256 list" where
  "siblings H xs p l = map (sibling H xs p) [0..<l]"

lemma siblings_Suc: "siblings H xs p (Suc l) = siblings H xs p l @ [sibling H xs p l]"
  by (simp add: siblings_def)

lemma root_from_siblings:
  assumes "p < length xs"
  shows "ComputeMerkleRootFromBranch H (xs ! p) (siblings H xs p l) p = node H xs l (p div 2 ^ l)"
proof -
  have "ComputeMerkleRootFromBranch H (node H xs k (p div 2 ^ k)) (map (sibling H xs p) [k..<k + d]) (p div 2 ^ k) =
      node H xs (k + d) (p div 2 ^ (k + d))" for k d
  proof (induction d arbitrary: k)
    case (Suc d)
    let ?i = "p div 2 ^ k"
    have b: "p div 2 ^ Suc k = ?i div 2" unfolding power_Suc2 by (simp add: div_mult2_eq)
    have lt: "?i div 2 * 2 ^ Suc k < length xs"
    proof -
      have "?i div 2 * 2 \<le> ?i" by simp
      then have "?i div 2 * 2 * 2 ^ k \<le> ?i * 2 ^ k" by (rule mult_le_mono1)
      also have "\<dots> \<le> p" by simp
      finally show ?thesis using assms by (simp add: mult.assoc)
    qed
    have "node H xs (Suc k) (?i div 2) =
        (if odd ?i then H (sibling H xs p k) (node H xs k ?i) else H (node H xs k ?i) (sibling H xs p k))"
    proof (cases "odd ?i")
      case True
      then obtain j where j: "?i = 2 * j + 1" by (rule oddE)
      have "?i * 2 ^ k \<le> p" by simp
      then have "(2 * j + 1) * 2 ^ k < length xs" using assms unfolding j by (rule le_less_trans)
      moreover have "?i div 2 = j" using j by simp
      ultimately show ?thesis using True lt j by (simp add: node_Suc sibling_def Let_def)
    next
      case False
      then have "even ?i" by simp
      then obtain j where j: "?i = 2 * j" by (rule evenE)
      moreover have "?i div 2 = j" using j by simp
      ultimately show ?thesis using False lt by (simp add: node_Suc sibling_def Let_def)
    qed
    moreover have "[k..<k + Suc d] = k # [Suc k..<Suc k + d]" by (simp add: upt_conv_Cons)
    ultimately show ?case using Suc.IH [of "Suc k"] b
      by (simp add: bit_iff_odd drop_bit_Suc del: upt_Suc)
  qed simp
  from this [of 0 l] show ?thesis using assms by (simp add: siblings_def node_0)
qed

text \<open>The state of the branch: it is complete to the level of the node that covers the leaf, which is the
  carried one or one of \<open>inner\<close>.\<close>

definition inner_branch ::
  "(uint256 \<Rightarrow> uint256 \<Rightarrow> uint256) \<Rightarrow> uint256 list \<Rightarrow> nat \<Rightarrow> nat \<Rightarrow> nat \<Rightarrow> int \<Rightarrow> uint256 list \<Rightarrow> bool" where
  "inner_branch H xs p l m ml br \<longleftrightarrow>
     (ml = -1 \<and> br = [] \<and> m \<le> p) \<or>
     (\<exists>k\<ge>l. ml = int k \<and> bit m k \<and> p div 2 ^ k = m div 2 ^ k - 1 \<and> br = siblings H xs p k)"

definition carry_branch ::
  "(uint256 \<Rightarrow> uint256 \<Rightarrow> uint256) \<Rightarrow> uint256 list \<Rightarrow> nat \<Rightarrow> nat \<Rightarrow> nat \<Rightarrow> int \<Rightarrow> carry \<Rightarrow> bool" where
  "carry_branch H xs p l count ml c \<longleftrightarrow>
     (if matchh c then p div 2 ^ l = count div 2 ^ l - 1 \<and> branch_hashes c = siblings H xs p l
      else inner_branch H xs p l (count - 2 ^ l) ml (branch_hashes c) \<and> (ml = -1 \<longrightarrow> count \<le> p))"

lemma carry_branch_step:
  assumes c: "carry_ok H xs inn l count (carry_h c)" and b: "\<not> bit count l"
    and br: "carry_branch H xs p l count ml c"
  shows "carry_branch H xs p (Suc l) count ml (combine H True t inn ml l c)"
proof -
  obtain q where q: "count = (2 * q + 2) * 2 ^ l" "count div 2 ^ l = 2 * q + 2" by (rule carry_even [OF c b])
  have v: "carry_h c = node H xs l (2 * q + 1)" and n: "(2 * q + 1) * 2 ^ l < length xs"
    using c q by (simp_all add: carry_ok_def algebra_simps)
  have i: "inn ! l = node H xs l (2 * q)" using carry_ok_step(1) [OF c b] q by simp
  have S: "x div 2 ^ Suc l = x div 2 ^ l div 2" for x :: nat
    unfolding power_Suc2 by (simp add: div_mult2_eq)
  have cS: "count div 2 ^ Suc l = q + 1" using q(2) by (simp only: S)
  show ?thesis
  proof (cases "matchh c")
    case True
    then have p: "p div 2 ^ l = 2 * q + 1" using br q by (simp add: carry_branch_def)
    then have "sibling H xs p l = inn ! l" by (simp add: sibling_def i)
    moreover have "p div 2 ^ Suc l = q" using p by (simp only: S)
    ultimately show ?thesis using True br cS
      by (simp add: carry_branch_def combine_def push_branch_def siblings_Suc Let_def)
  next
    case False
    then have ib: "inner_branch H xs p l (count - 2 ^ l) ml (branch_hashes c)" "ml = -1 \<Longrightarrow> count \<le> p"
      using br by (simp_all add: carry_branch_def)
    show ?thesis
    proof (cases "ml = int l")
      case True
      have "(count - 2 ^ l) div 2 ^ l = 2 * q + 1" using q by (simp add: algebra_simps)
      then have p: "p div 2 ^ l = 2 * q" and s: "branch_hashes c = siblings H xs p l"
        using ib True by (auto simp: inner_branch_def)
      then have "sibling H xs p l = carry_h c" using n by (simp add: sibling_def v)
      moreover have "p div 2 ^ Suc l = q" using p by (simp only: S)
      ultimately show ?thesis using True False s cS
        by (simp add: carry_branch_def combine_def push_branch_def siblings_Suc Let_def)
    next
      case ml: False
      have "inner_branch H xs p (Suc l) (count - 2 ^ Suc l) ml (branch_hashes c)"
      proof (cases "ml = -1")
        case True
        with ib show ?thesis by (auto simp: inner_branch_def)
      next
        case False
        with ib(1) ml obtain k where k: "l < k" "ml = int k" "bit (count - 2 ^ l) k"
          "p div 2 ^ k = (count - 2 ^ l) div 2 ^ k - 1" "branch_hashes c = siblings H xs p k"
          unfolding inner_branch_def by (metis le_neq_implies_less)
        with minus_level [OF k(1) q(1)] show ?thesis
          unfolding inner_branch_def by (intro disjI2 exI [of _ k]) (simp add: bit_nat_odd)
      qed
      with False ml ib(2) show ?thesis by (simp add: carry_branch_def combine_def push_branch_def)
    qed
  qed
qed

lemma carry_up_branch:
  "carry_up H True t inn ml count l c = (c', L) \<Longrightarrow> carry_ok H xs inn l count (carry_h c) \<Longrightarrow>
   carry_branch H xs p l count ml c \<Longrightarrow> carry_branch H xs p L count ml c'"
proof (induction H "True" t inn ml count l c arbitrary: c' L rule: carry_up.induct)
  case (1 H t inn ml count l c)
  note nz = carry_drop_pos [OF 1(3)]
  show ?case
  proof (cases "bit count l")
    case True
    then show ?thesis using 1(2,4) by (auto simp: carry_up.simps)
  next
    case False
    have r: "carry_up H True t inn ml count (l + 1) (combine H True t inn ml l c) = (c', L)"
      using 1(2) False nz by (simp add: carry_up.simps [of _ _ _ _ _ _ l])
    show ?thesis
      using 1(1) [OF _ r] False nz carry_ok_step(2) [OF 1(3) False] carry_branch_step [OF 1(3) False 1(4)] by simp
  qed
qed

lemma carry_branch_done:
  assumes "carry_ok H xs inn L count v" "bit count L"
    and "inner_branch H xs p L (count - 2 ^ L) ml br" "ml = -1 \<Longrightarrow> count \<le> p"
  shows "inner_branch H xs p (Suc L) count ml br"
proof (cases "ml = -1")
  case True
  with assms show ?thesis by (auto simp: inner_branch_def)
next
  case False
  with assms(3) obtain k where k: "L \<le> k" "ml = int k" "bit (count - 2 ^ L) k"
    "p div 2 ^ k = (count - 2 ^ L) div 2 ^ k - 1" "br = siblings H xs p k" by (auto simp: inner_branch_def)
  with minus_done(1) [OF assms(1,2)] have "k \<noteq> L" by (auto simp: bit_nat_odd)
  with k(1) have "Suc L \<le> k" by simp
  with k minus_done(2) [OF assms(1,2) this] show ?thesis
    unfolding inner_branch_def by (intro disjI2 exI [of _ k]) (simp add: bit_nat_odd)
qed

definition merkle_branch ::
  "(uint256 \<Rightarrow> uint256 \<Rightarrow> uint256) \<Rightarrow> uint256 list \<Rightarrow> nat \<Rightarrow> nat \<Rightarrow> merkle \<Rightarrow> bool" where
  "merkle_branch H xs p n m \<longleftrightarrow>
     inner_branch H xs p 0 n (matchlevel m) (m_branch m) \<and> (matchlevel m = -1 \<longrightarrow> n \<le> p)"

lemma inner_branch_weaken: "inner_branch H xs p (Suc l) m ml br \<Longrightarrow> inner_branch H xs p 0 m ml br"
  by (auto simp: inner_branch_def)

lemma add_leaf_branch:
  assumes m: "merkle_ok H xs n m" and n: "n < length xs" "n + 1 < 2 ^ 32" and b: "merkle_branch H xs p n m"
  shows "merkle_branch H xs p (n + 1) (add_leaf H True p (xs ! n) m)"
proof -
  let ?c0 = "\<lparr>carry_h = xs ! n, matchh = (n = p), branch_hashes = m_branch m, mutated = m_mutated m\<rparr>"
  obtain c L where c: "carry_up H True True (inner m) (matchlevel m) (n + 1) 0 ?c0 = (c, L)"
    by (cases "carry_up H True True (inner m) (matchlevel m) (n + 1) 0 ?c0")
  have ok: "carry_ok H xs (inner m) 0 (n + 1) (carry_h ?c0)"
    using m n by (simp add: carry_ok_def merkle_ok_def node_0)
  from carry_up_ok [OF c ok] have L: "bit (n + 1) L" "carry_ok H xs (inner m) L (n + 1) (carry_h c)" by auto
  have "m_branch m = []" if "n = p"
  proof (rule ccontr)
    assume "m_branch m \<noteq> []"
    with b obtain k where k: "bit n k" "p div 2 ^ k = n div 2 ^ k - 1"
      by (auto simp: merkle_branch_def inner_branch_def)
    have "odd (n div 2 ^ k)" using k(1) by (simp add: bit_nat_odd)
    then have "0 < n div 2 ^ k" by (rule odd_pos)
    then have "n div 2 ^ k - 1 \<noteq> n div 2 ^ k" by (metis diff_less less_irrefl zero_less_one)
    moreover from k(2) have "n div 2 ^ k = n div 2 ^ k - 1" unfolding that .
    ultimately show False by (rule notE [OF _ sym])
  qed
  then have "carry_branch H xs p 0 (n + 1) (matchlevel m) ?c0" if "n = p"
    using that by (simp add: carry_branch_def siblings_def)
  moreover have "carry_branch H xs p 0 (n + 1) (matchlevel m) ?c0" if "n \<noteq> p"
  proof -
    have "inner_branch H xs p 0 n (matchlevel m) (m_branch m)" "matchlevel m = -1 \<Longrightarrow> n + 1 \<le> p"
      using b that by (simp_all add: merkle_branch_def)
    then show ?thesis using that by (simp add: carry_branch_def)
  qed
  ultimately have "carry_branch H xs p 0 (n + 1) (matchlevel m) ?c0" by blast
  from carry_up_branch [OF c ok this] have br: "carry_branch H xs p L (n + 1) (matchlevel m) c" .
  have e: "matchlevel (add_leaf H True p (xs ! n) m) = (if matchh c then int L else matchlevel m)"
    "m_branch (add_leaf H True p (xs ! n) m) = branch_hashes c"
    using m c by (simp_all add: add_leaf_def merkle_ok_def Let_def)
  show ?thesis
  proof (cases "matchh c")
    case True
    have "inner_branch H xs p 0 (n + 1) (int L) (branch_hashes c)"
      unfolding inner_branch_def using br L(1) True
      by (intro disjI2 exI [of _ L]) (simp add: carry_branch_def)
    then show ?thesis using e True by (simp add: merkle_branch_def)
  next
    case False
    with br have "inner_branch H xs p L (n + 1 - 2 ^ L) (matchlevel m) (branch_hashes c)"
      and g: "matchlevel m = -1 \<Longrightarrow> n + 1 \<le> p" by (simp_all add: carry_branch_def)
    from carry_branch_done [OF L(2,1) this] have "inner_branch H xs p (Suc L) (n + 1) (matchlevel m) (branch_hashes c)" .
    from inner_branch_weaken [OF this] g False e show ?thesis unfolding merkle_branch_def by simp
  qed
qed

lemma fold_add_leaf_branch:
  "length xs < 2 ^ 32 \<Longrightarrow> n \<le> length xs \<Longrightarrow>
   merkle_branch H xs p n (fold (add_leaf H True p) (take n xs) merkle_init)"
proof (induction n)
  case 0
  then show ?case by (simp add: merkle_branch_def merkle_init_def inner_branch_def)
next
  case (Suc n)
  then have "fold (add_leaf H True p) (take (Suc n) xs) merkle_init =
      add_leaf H True p (xs ! n) (fold (add_leaf H True p) (take n xs) merkle_init)"
    by (simp add: take_Suc_conv_app_nth)
  with Suc add_leaf_branch [of H xs n _ p] fold_add_leaf_ok [of xs n H True p] show ?case by simp
qed

definition sweep_branch ::
  "(uint256 \<Rightarrow> uint256 \<Rightarrow> uint256) \<Rightarrow> uint256 list \<Rightarrow> nat \<Rightarrow> nat \<Rightarrow> nat \<Rightarrow> int \<Rightarrow> carry \<Rightarrow> bool" where
  "sweep_branch H xs p count l ml c \<longleftrightarrow>
     (if matchh c then p div 2 ^ l = count div 2 ^ l - 1 \<and> branch_hashes c = siblings H xs p l
      else inner_branch H xs p (Suc l) count ml (branch_hashes c) \<and> ml \<noteq> -1)"

lemma sweep_branch_duplicate:
  assumes s: "sweep_ok H xs inn count l (carry_h c)" and b: "sweep_branch H xs p count l ml c"
  shows "carry_branch H xs p (Suc l) (count + 2 ^ l) ml (duplicate H True c)"
proof -
  from s have c: "carry_ok H xs inn l count (carry_h c)" and bit: "bit count l" and len: "length xs \<le> count"
    by (simp_all add: sweep_ok_def)
  obtain r where r: "count = r * 2 ^ l" using c unfolding carry_ok_def by (metis dvdE mult.commute)
  with bit obtain q where q: "r = 2 * q + 1" by (auto simp: bit_nat_odd elim: oddE)
  have S: "x div 2 ^ Suc l = x div 2 ^ l div 2" for x :: nat
    unfolding power_Suc2 by (simp add: div_mult2_eq)
  have e: "count + 2 ^ l = (q + 1) * 2 ^ Suc l" using r q by (simp add: algebra_simps)
  have eq: "(count + 2 ^ l) div 2 ^ Suc l = q + 1" unfolding e by simp
  show ?thesis
  proof (cases "matchh c")
    case True
    then have p: "p div 2 ^ l = 2 * q" and br: "branch_hashes c = siblings H xs p l"
      using b r q by (simp_all add: sweep_branch_def)
    have "\<not> (2 * q + 1) * 2 ^ l < length xs" using len r q by simp
    then have "sibling H xs p l = node H xs l (2 * q)" using p by (simp add: sibling_def Let_def)
    moreover have "carry_h c = node H xs l (2 * q)" using c r q by (simp add: carry_ok_def)
    moreover have "p div 2 ^ Suc l = q" using p by (simp only: S)
    ultimately show ?thesis using True br eq
      by (simp add: carry_branch_def duplicate_def siblings_Suc Let_def)
  next
    case False
    then have i: "inner_branch H xs p (Suc l) count ml (branch_hashes c)" "ml \<noteq> -1"
      using b by (simp_all add: sweep_branch_def)
    have "count + 2 ^ l - 2 ^ Suc l = count - 2 ^ l" by simp
    moreover have "inner_branch H xs p (Suc l) (count - 2 ^ l) ml (branch_hashes c)"
      using i minus_done(2) [OF c bit] by (auto simp: inner_branch_def bit_nat_odd)
    ultimately show ?thesis using False i(2)
      by (simp add: carry_branch_def duplicate_def Let_def)
  qed
qed

lemma sweep_branch_result:
  "sweep_ok H xs inn count l (carry_h c) \<Longrightarrow> sweep_branch H xs p count l ml c \<Longrightarrow> p < length xs \<Longrightarrow>
   \<exists>L. 2 ^ L < 2 * length xs \<and> length xs \<le> 2 ^ L \<and>
     branch_hashes (sweep H True inn ml count l c) = siblings H xs p L"
proof (induction H "True" inn ml count l c rule: sweep.induct)
  case (1 H inn ml count l c)
  note stop = sweep_stop [OF 1(2)]
  show ?case
  proof (cases "count = 2 ^ l")
    case True
    have "matchh c"
    proof (rule ccontr)
      assume "\<not> matchh c"
      with 1(3) True obtain k where "Suc l \<le> k" "bit ((2 :: nat) ^ l) k"
        by (auto simp: sweep_branch_def inner_branch_def)
      then show False by (simp add: bit_exp_iff)
    qed
    then show ?thesis using 1(2,3) True
      by (intro exI [of _ l]) (simp add: sweep.simps sweep_ok_def sweep_branch_def)
  next
    case False
    obtain c' l' where
      u: "carry_up H True False inn ml (count + 2 ^ l) (Suc l) (duplicate H True c) = (c', l')" by fastforce
    have s: "sweep H True inn ml count l c = sweep H True inn ml (count + 2 ^ l) l' c'"
      using False stop u by (simp add: sweep.simps [of _ _ _ _ count l] Let_def)
    note n = sweep_ok_step [OF 1(2) False u duplicate_simps(1)]
    have ok: "carry_ok H xs inn (Suc l) (count + 2 ^ l) (carry_h (duplicate H True c))"
      using sweep_step(1) [OF 1(2) False] by simp
    have cb: "carry_branch H xs p l' (count + 2 ^ l) ml c'"
      by (rule carry_up_branch [OF u ok sweep_branch_duplicate [OF 1(2,3)]])
    have n': "carry_ok H xs inn l' (count + 2 ^ l) (carry_h c')" "bit (count + 2 ^ l) l'"
      "length xs \<le> count + 2 ^ l" using n(1) by (simp_all add: sweep_ok_def)
    have "sweep_branch H xs p (count + 2 ^ l) l' ml c'"
      using cb carry_branch_done [OF n'(1,2)] n'(3) 1(4)
      by (auto simp: carry_branch_def sweep_branch_def)
    with 1(1) [of _ "(c', l')" c' l'] False stop u n 1(4) show ?thesis unfolding s by simp
  qed
qed

theorem ComputeMerkleBranch_eq:
  assumes p: "p < length xs" and n: "length xs < 2 ^ 32"
  shows "ComputeMerkleBranch H xs p = siblings H xs p (tree_height (length xs))"
proof -
  have n0: "0 < length xs" using p by (cases xs) simp_all
  define m where "m = fold (add_leaf H True p) xs merkle_init"
  have m: "merkle_ok H xs (length xs) m" and b: "merkle_branch H xs p (length xs) m"
    using fold_add_leaf_ok [OF n order_refl, of H True p] fold_add_leaf_branch [OF n order_refl, of H p]
    by (simp_all add: m_def)
  define l where "l = lowest_level (length xs) 0"
  define c where "c = \<lparr>carry_h = inner m ! l, matchh = (matchlevel m = int l), branch_hashes = m_branch m,
      mutated = m_mutated m\<rparr>"
  have e: "MerkleComputation H True p xs = sweep H True (inner m) (matchlevel m) (length xs) l c"
    using n0 m by (simp add: MerkleComputation_def m_def [symmetric] merkle_ok_def c_def l_def Let_def)
  have s: "sweep_ok H xs (inner m) (length xs) l (carry_h c)"
    using merkle_sweep_start [OF m n0] by (simp add: c_def l_def)
  from b p obtain k where k: "matchlevel m = int k" "bit (length xs) k"
    "p div 2 ^ k = length xs div 2 ^ k - 1" "m_branch m = siblings H xs p k"
    by (auto simp: merkle_branch_def inner_branch_def)
  have "2 ^ l dvd length xs" using s by (simp add: sweep_ok_def carry_ok_def)
  have "l \<le> k"
  proof (rule ccontr)
    assume "\<not> l \<le> k"
    then obtain d where d: "l = Suc k + d" using less_iff_Suc_add [of k l] by auto
    obtain r where "length xs = 2 ^ l * r" using \<open>2 ^ l dvd length xs\<close> by (rule dvdE)
    then have "length xs div 2 ^ k = 2 * (2 ^ d * r)" by (simp add: d power_add)
    with k(2) show False by (simp add: bit_nat_odd)
  qed
  then have "sweep_branch H xs p (length xs) l (matchlevel m) c"
    using k by (auto simp: sweep_branch_def inner_branch_def c_def)
  from sweep_branch_result [OF s this p] obtain L where L: "2 ^ L < 2 * length xs" "length xs \<le> 2 ^ L"
    "branch_hashes (MerkleComputation H True p xs) = siblings H xs p L" unfolding e by metis
  have "tree_height (length xs) = L" by (rule height_from_eq [OF n0 L(2,1)]) simp
  with L show ?thesis by (simp add: ComputeMerkleBranch_def)
qed

text \<open>The branch of a leaf leads from it to the root.\<close>

theorem ComputeMerkleBranch_root:
  assumes "p < length xs" "length xs < 2 ^ 32"
  shows "ComputeMerkleRootFromBranch H (xs ! p) (ComputeMerkleBranch H xs p) p = fst (ComputeMerkleRoot H xs)"
proof -
  have n0: "0 < length xs" using assms(1) by (cases xs) simp_all
  have "length xs \<le> 2 ^ tree_height (length xs)" by (rule tree_height_ge [OF n0])
  moreover from this assms(1) have "p div 2 ^ tree_height (length xs) = 0" by simp
  ultimately show ?thesis
    using root_from_siblings [OF assms(1)]
    by (simp add: ComputeMerkleBranch_eq [OF assms] ComputeMerkleRoot_eq [OF n0 assms(2)] node_top)
qed

end
