(* ===== verification/Strings.thy ===== *)
theory Strings imports Transaction
begin

unbundle bit_operations_syntax

text \<open>
  Text encodings of \<^verbatim>\<open>src/src/utilstrencodings.cpp\<close> and \<^verbatim>\<open>.h\<close>: hexadecimal numbers, the conversion between
  power-of-two bases with base 64 and base 32 on top of it, and decimal fixed-point numbers; and the
  hexadecimal form of a \<open>uint256\<close> (\<^verbatim>\<open>src/src/uint256.cpp\<close>).  A \<open>std::string\<close> is a list of characters; the
  end of the list is the terminating zero of a C string.
\<close>

section \<open>Characters\<close>

abbreviation ord :: "char \<Rightarrow> nat" where "ord c \<equiv> of_char c"

text \<open>\<open>isspace\<close> of the C locale.\<close>

definition isspace :: "char \<Rightarrow> bool" where
  "isspace c \<longleftrightarrow> ord c = 32 \<or> 9 \<le> ord c \<and> ord c \<le> 13"

definition p_util_hexdigit :: "int list" where
  "p_util_hexdigit = replicate 48 (-1) @ [0,1,2,3,4,5,6,7,8,9,-1,-1,-1,-1,-1,-1] @
     [-1,0xa,0xb,0xc,0xd,0xe,0xf] @ replicate 9 (-1) @ replicate 16 (-1) @
     [-1,0xa,0xb,0xc,0xd,0xe,0xf] @ replicate 9 (-1) @ replicate 144 (-1)"

definition HexDigit :: "char \<Rightarrow> int" where
  "HexDigit c = p_util_hexdigit ! ord c"

definition IsHex :: "string \<Rightarrow> bool" where
  "IsHex str \<longleftrightarrow> \<not> list_ex (\<lambda>c. HexDigit c < 0) str \<and> length str > 0 \<and> length str mod 2 = 0"

definition IsHexNumber :: "string \<Rightarrow> bool" where
  "IsHexNumber str \<longleftrightarrow>
     (let start = (if length str > 2 \<and> str ! 0 = CHR ''0'' \<and> str ! 1 = CHR ''x'' then 2 else 0) in
      \<not> list_ex (\<lambda>c. HexDigit c < 0) (drop start str) \<and> length str > start)"

definition hexmap :: string where "hexmap = ''0123456789abcdef''"

fun HexStr_from :: "bool \<Rightarrow> bool \<Rightarrow> bytes \<Rightarrow> string" where
  "HexStr_from fSpaces first [] = []"
| "HexStr_from fSpaces first (val # vch) =
     (if fSpaces \<and> \<not> first then '' '' else []) @
     [hexmap ! unat (drop_bit 4 val), hexmap ! unat (val AND 15)] @ HexStr_from fSpaces False vch"

definition HexStr :: "bytes \<Rightarrow> bool \<Rightarrow> string" where
  "HexStr vch fSpaces = HexStr_from fSpaces True vch"

lemma dropWhile_Cons_less: "dropWhile P xs = c # ys \<Longrightarrow> length ys < length xs"
  using length_dropWhile_le [of P xs] by simp

function ParseHex :: "string \<Rightarrow> bytes" where
  "ParseHex psz =
     (case dropWhile isspace psz of [] \<Rightarrow> []
      | c # psz \<Rightarrow> if HexDigit c = -1 then []
          else (case psz of [] \<Rightarrow> []
            | d # psz \<Rightarrow> if HexDigit d = -1 then []
                else (push_bit 4 (word_of_int (HexDigit c)) OR word_of_int (HexDigit d)) # ParseHex psz))"
  by pat_completeness auto
termination
  by (relation "measure length") (auto dest!: dropWhile_Cons_less)

declare ParseHex.simps [simp del]

text \<open>The digits of a \<open>uint256\<close>, most significant first.\<close>

definition uint256_GetHex :: "uint256 \<Rightarrow> string" where
  "uint256_GetHex h = HexStr (rev (uint256_bytes h)) False"

text \<open>The loop over the digits from the last one on, at most \<open>n\<close> bytes.\<close>

fun SetHex_bytes :: "nat \<Rightarrow> string \<Rightarrow> bytes" where
  "SetHex_bytes 0 ds = []"
| "SetHex_bytes (Suc n) [] = []"
| "SetHex_bytes (Suc n) [c] = [word_of_int (HexDigit c)]"
| "SetHex_bytes (Suc n) (c # d # ds) =
     (word_of_int (HexDigit c) OR push_bit 4 (word_of_int (HexDigit d))) # SetHex_bytes n ds"

definition skip_0x :: "string \<Rightarrow> string" where
  "skip_0x psz = (case psz of c # d # s \<Rightarrow>
      if c = CHR ''0'' \<and> (d = CHR ''x'' \<or> d = CHR ''X'') then s else psz | _ \<Rightarrow> psz)"

definition uint256_SetHex :: "string \<Rightarrow> uint256" where
  "uint256_SetHex psz =
     (let psz = skip_0x (dropWhile isspace psz);
          digits = takeWhile (\<lambda>c. HexDigit c \<noteq> -1) psz;
          data = SetHex_bytes 32 (rev digits)
      in uint256_of (data @ replicate (32 - length data) 0))"

section \<open>Hexadecimal numbers\<close>

definition is_digit :: "char \<Rightarrow> bool" where "is_digit c \<longleftrightarrow> HexDigit c \<noteq> -1"

lemma hexmap_digits:
  "n < 16 \<Longrightarrow> HexDigit (hexmap ! n) = int n \<and> \<not> isspace (hexmap ! n)"
proof -
  have "list_all (\<lambda>n. HexDigit (hexmap ! n) = int n \<and> \<not> isspace (hexmap ! n)) [0..<16]" by code_simp
  then show "n < 16 \<Longrightarrow> HexDigit (hexmap ! n) = int n \<and> \<not> isspace (hexmap ! n)"
    by (simp only: list_all_iff set_upt) simp
qed

lemma ord_less [simp]: "ord c < 256"
  using of_char_mod_256 [of c, where 'a = nat] by (metis mod_less_divisor zero_less_numeral)

lemma hexmap_is_digit: "n < 16 \<Longrightarrow> is_digit (hexmap ! n)"
  using hexmap_digits [of n] by (simp add: is_digit_def)

lemma HexDigit_bounds: "-1 \<le> HexDigit c \<and> HexDigit c < 16"
proof -
  have "list_all (\<lambda>x. -1 \<le> x \<and> x < 16) p_util_hexdigit \<and> length p_util_hexdigit = 256" by code_simp
  moreover have "ord c < 256" by simp
  ultimately show ?thesis by (simp add: HexDigit_def list_all_length)
qed

lemma nibbles:
  assumes "a < 16" and "b < 16"
  shows "unat (of_nat a OR push_bit 4 (of_nat b) :: byte) = a + 16 * b"
proof -
  have "list_all (\<lambda>a. list_all (\<lambda>b. unat (of_nat a OR push_bit 4 (of_nat b) :: byte) = a + 16 * b) [0..<16]) [0..<16]"
    by code_simp
  then show ?thesis using assms by (simp only: list_all_iff set_upt) simp
qed

lemma digit_nat:
  assumes "is_digit c"
  shows "nat (HexDigit c) < 16" and "int (nat (HexDigit c)) = HexDigit c"
  using assms HexDigit_bounds [of c] by (auto simp: is_digit_def)

lemma nibble_byte:
  assumes "is_digit c" and "is_digit d"
  shows "unat (word_of_int (HexDigit c) OR push_bit 4 (word_of_int (HexDigit d)) :: byte) =
    nat (HexDigit c) + 16 * nat (HexDigit d)"
proof -
  have "(word_of_int (HexDigit x) :: byte) = of_nat (nat (HexDigit x))" if "is_digit x" for x
    by (metis digit_nat(2) [OF that] of_int_of_nat_eq)
  with nibbles [OF digit_nat(1) [OF assms(1)] digit_nat(1) [OF assms(2)]] assms show ?thesis by simp
qed

text \<open>The number a sequence of digits denotes, least significant digit first.\<close>

primrec digits_num :: "string \<Rightarrow> nat" where
  "digits_num [] = 0"
| "digits_num (c # ds) = nat (HexDigit c) + 16 * digits_num ds"

lemma digits_num_less: "list_all is_digit ds \<Longrightarrow> digits_num ds < 16 ^ length ds"
proof (induction ds)
  case (Cons c ds)
  then have "digits_num ds + 1 \<le> 16 ^ length ds" "nat (HexDigit c) < 16" using digit_nat by auto
  then show ?case by simp
qed simp

lemma le_nat_SetHex:
  "list_all is_digit ds \<Longrightarrow> le_nat (SetHex_bytes n ds) = digits_num ds mod 256 ^ n"
proof (induction n ds rule: SetHex_bytes.induct)
  case (3 n c)
  then have "unat (word_of_int (HexDigit c) :: byte) = nat (HexDigit c)"
    using digit_nat [of c] by (metis list.pred_inject(2) of_int_of_nat_eq order_less_trans unat_of_nat_byte
      numeral_less_iff semiring_norm(76) semiring_norm(78))
  moreover have "nat (HexDigit c) < 256 ^ Suc n"
  proof -
    have "nat (HexDigit c) < 16" using 3 digit_nat by simp
    also have "(16 :: nat) \<le> 256 ^ Suc n" using one_le_power [of "256 :: nat" n] by simp
    finally show ?thesis .
  qed
  ultimately show ?case by simp
next
  case (4 n c d ds)
  define a where "a = nat (HexDigit c) + 16 * nat (HexDigit d)"
  have "nat (HexDigit c) < 16" "nat (HexDigit d) < 16" using 4 digit_nat by simp_all
  then have a: "a < 256" by (simp add: a_def)
  have "digits_num (c # d # ds) = a + 256 * digits_num ds" by (simp add: a_def)
  moreover have "(a + 256 * m) mod 256 ^ Suc n = a + 256 * (m mod 256 ^ n)" for m
    using a by (simp add: mod_mult2_eq mod_add_left_eq add.commute mult.commute)
  moreover have "le_nat (SetHex_bytes (Suc n) (c # d # ds)) = a + 256 * (digits_num ds mod 256 ^ n)"
    using 4 nibble_byte [of c d] by (simp add: a_def)
  ultimately show ?case by (simp only:)
qed simp_all

lemma le_nat_zeros [simp]: "le_nat (replicate n 0) = 0"
  by (induction n) simp_all

lemma length_SetHex_bytes: "length (SetHex_bytes n ds) \<le> n"
  by (induction n ds rule: SetHex_bytes.induct) simp_all

lemma takeWhile_all_append: "list_all P xs \<Longrightarrow> takeWhile P (xs @ ys) = xs @ takeWhile P ys"
  by (induction xs) simp_all

text \<open>\<open>SetHex\<close> reads the number of the digits that follow the prefix, modulo \<open>2 ^ 256\<close>.\<close>

lemma uint256_SetHex_num:
  assumes "list_all is_digit ds" and "skip_0x (dropWhile isspace psz) = ds @ rest"
    and "rest = [] \<or> \<not> is_digit (hd rest)"
  shows "unat (uint256_SetHex psz) = digits_num (rev ds) mod 2 ^ 256"
proof -
  have tw: "takeWhile (\<lambda>c. HexDigit c \<noteq> -1) (ds @ rest) = ds"
    using assms(1,3) takeWhile_all_append [of is_digit ds rest]
    by (cases rest) (simp_all add: is_digit_def [abs_def])
  have "uint256_SetHex psz = of_nat (digits_num (rev ds) mod 256 ^ 32)"
    using le_nat_SetHex [of "rev ds" 32] assms(1)
    by (simp add: uint256_SetHex_def assms(2) tw Let_def uint256_of_def le_word_le_nat le_nat_append)
  moreover have "(256 :: nat) ^ 32 = 2 ^ 256" by simp
  ultimately show ?thesis by (simp only: unat_of_nat) simp
qed

lemma unat_nibbles: "unat (drop_bit 4 v) = unat v div 16" "unat (v AND 15) = unat v mod 16" for v :: byte
proof -
  show "unat (drop_bit 4 v) = unat v div 16" by (simp only: unat_drop_bit_eq) (simp add: drop_bit_eq_div)
  have "v AND 15 = take_bit 4 v" by (simp add: take_bit_eq_mask mask_numeral)
  then show "unat (v AND 15) = unat v mod 16" by (simp only: unsigned_take_bit_eq) (simp add: take_bit_eq_mod)
qed

lemma nibbles_less: "unat (drop_bit 4 v) < 16" "unat (v AND 15) < 16" for v :: byte
  using unat_byte_less [of v] by (simp_all only: unat_nibbles less_mult_imp_div_less mod_less_divisor)

lemma hexmap_byte:
  fixes v :: byte
  shows "push_bit 4 (word_of_int (HexDigit (hexmap ! unat (drop_bit 4 v)))) OR
    word_of_int (HexDigit (hexmap ! unat (v AND 15))) = v"
proof -
  let ?a = "unat (drop_bit 4 v)" and ?b = "unat (v AND 15)"
  have "HexDigit (hexmap ! ?a) = int ?a" "HexDigit (hexmap ! ?b) = int ?b"
    using hexmap_digits nibbles_less by blast+
  moreover have "unat (of_nat ?b OR push_bit 4 (of_nat ?a) :: byte) = ?b + 16 * ?a"
    by (rule nibbles [OF nibbles_less(2,1)])
  moreover have "?b + 16 * ?a = unat v" by (simp add: unat_nibbles)
  ultimately show ?thesis by (simp add: word_unat_eq_iff or.commute)
qed

lemma HexStr_plain:
  "HexStr_from False b vch = concat (map (\<lambda>v. [hexmap ! unat (drop_bit 4 v), hexmap ! unat (v AND 15)]) vch)"
  by (induction vch arbitrary: b) simp_all

lemma GetHex_digits: "list_all is_digit (HexStr_from False b vch)"
  using hexmap_is_digit [OF nibbles_less(1)] hexmap_is_digit [OF nibbles_less(2)]
  by (auto simp: HexStr_plain list_all_iff)

lemma ParseHex_space: "isspace c \<Longrightarrow> ParseHex (c # s) = ParseHex s"
  by (simp add: ParseHex.simps [of "c # s"] ParseHex.simps [of s])

lemma ParseHex_byte:
  "ParseHex (hexmap ! unat (drop_bit 4 v) # hexmap ! unat (v AND 15) # s) = v # ParseHex s" for v :: byte
proof -
  let ?a = "hexmap ! unat (drop_bit 4 v)" and ?b = "hexmap ! unat (v AND 15)"
  have "\<not> isspace ?a" "HexDigit ?a \<noteq> -1" "HexDigit ?b \<noteq> -1"
    using hexmap_digits [OF nibbles_less(1)] hexmap_is_digit [OF nibbles_less(1)] hexmap_is_digit [OF nibbles_less(2)]
    by (simp_all add: is_digit_def)
  then show ?thesis by (subst ParseHex.simps) (simp add: hexmap_byte)
qed

text \<open>Every vector survives the trip through its hexadecimal text, with or without spaces.\<close>

lemma ParseHex_HexStr: "ParseHex (HexStr vch fSpaces) = vch"
proof -
  have "ParseHex (HexStr_from fSpaces first vch) = vch" for first
  proof (induction vch arbitrary: first)
    case Nil
    then show ?case by (subst ParseHex.simps) simp
  next
    case (Cons v vch)
    have "isspace CHR '' ''" by (simp add: isspace_def)
    with Cons show ?case by (cases fSpaces) (simp_all add: ParseHex_byte ParseHex_space)
  qed
  then show ?thesis by (simp add: HexStr_def)
qed

lemma HexStr_IsHex: "vch \<noteq> [] \<Longrightarrow> IsHex (HexStr vch False)"
proof -
  have l: "length (HexStr_from False b vch) = 2 * length vch" for b by (induction vch arbitrary: b) simp_all
  have "0 \<le> HexDigit c" if "is_digit c" for c using that HexDigit_bounds [of c] by (auto simp: is_digit_def)
  with GetHex_digits [of _ vch] have "\<not> list_ex (\<lambda>c. HexDigit c < 0) (HexStr_from False b vch)" for b
    by (force simp: list_all_iff list_ex_iff)
  then show "vch \<noteq> [] \<Longrightarrow> IsHex (HexStr vch False)" by (simp add: IsHex_def HexStr_def l)
qed

lemma digits_num_HexStr: "digits_num (rev (HexStr_from False b vch)) = le_nat (rev vch)"
proof -
  have one: "nat (HexDigit (hexmap ! unat (v AND 15))) + 16 * nat (HexDigit (hexmap ! unat (drop_bit 4 v))) = unat v"
    for v :: byte
  proof -
    have "nat (HexDigit (hexmap ! unat (v AND 15))) = unat (v AND 15)"
      "nat (HexDigit (hexmap ! unat (drop_bit 4 v))) = unat (drop_bit 4 v)"
      using hexmap_digits [OF nibbles_less(1)] hexmap_digits [OF nibbles_less(2)] by (metis nat_int)+
    then show ?thesis by (simp add: unat_nibbles)
  qed
  have "digits_num (rev (HexStr_from False b (rev vch))) = le_nat vch" for vch
  proof (induction vch)
    case (Cons v vch)
    then show ?case using one [of v] by (simp add: HexStr_plain)
  qed simp
  from this [of "rev vch"] show ?thesis by simp
qed

lemma le_nat_uint256: "le_nat (uint256_bytes h) = unat h"
proof -
  have "(of_nat (le_nat (uint256_bytes h)) :: uint256) = h"
    by (simp add: uint256_bytes_def flip: le_word_le_nat)
  moreover have "le_nat (uint256_bytes h) < 2 ^ 256" using le_nat_less [of "uint256_bytes h"] by simp
  moreover have "unat (of_nat n :: uint256) = n mod 2 ^ 256" for n by (simp only: unat_of_nat) simp
  ultimately show ?thesis by (metis mod_less)
qed

lemma digits_no_prefix:
  assumes "list_all is_digit s"
  shows "skip_0x (dropWhile isspace s) = s"
proof -
  have sp: "\<not> isspace c" if "is_digit c" for c
  proof
    assume "isspace c"
    then have "ord c \<in> set ([9..<14] @ [32])" by (auto simp: isspace_def)
    moreover have "list_all (\<lambda>n. p_util_hexdigit ! n = -1) ([9..<14] @ [32])" by code_simp
    ultimately show False using that by (simp only: list_all_iff is_digit_def HexDigit_def)
  qed
  have "dropWhile isspace s = s" using assms sp by (cases s) auto
  moreover have "\<not> is_digit CHR ''x''" "\<not> is_digit CHR ''X''" by code_simp+
  then have "skip_0x s = s"
    using assms by (auto simp: skip_0x_def split: list.splits)
  ultimately show ?thesis by simp
qed

lemma uint256_SetHex_GetHex: "uint256_SetHex (uint256_GetHex h) = h"
proof -
  let ?s = "uint256_GetHex h"
  have d: "list_all is_digit ?s" by (simp add: uint256_GetHex_def HexStr_def GetHex_digits)
  have "skip_0x (dropWhile isspace ?s) = ?s @ []" using digits_no_prefix [OF d] by simp
  from uint256_SetHex_num [OF d this] have "unat (uint256_SetHex ?s) = le_nat (uint256_bytes h) mod 2 ^ 256"
    by (simp only: uint256_GetHex_def HexStr_def digits_num_HexStr rev_rev_ident simp_thms)
  also have "le_nat (uint256_bytes h) = unat h" by (rule le_nat_uint256)
  also have "\<dots> mod 2 ^ 256 = unat h"
    by (rule mod_less) (rule order_less_le_trans [OF unsigned_less], simp)
  finally show ?thesis by (simp only: word_unat_eq_iff)
qed

end
