(* ===== verification/Pow.thy ===== *)
theory Pow imports Chain Strings Verify "HOL-Library.Signed_Division"
begin

unbundle bit_operations_syntax

text \<open>
  Proof of work (\<^verbatim>\<open>src/src/pow.cpp\<close>): the target a header claims, the retargeting rule, and the fork's
  authorization of blocks by a signature in the coinbase.  The 512-bit arithmetic of boost is a parameter
  (\<open>uint512_ops\<close>): the locale \<open>uint512\<close> states what the code relies on, and the words of 512 bits are
  an instance.  Equihash (the blake2b state and \<open>EhIsValidSolution\<close>) is a parameter too.
\<close>

section \<open>Parameters\<close>

record Consensus_Params =
  powLimit :: uint256
  fPowAllowMinDifficultyBlocks :: bool
  fPowNoRetargeting :: bool
  nPowTargetSpacing :: int
  nPowTargetTimespan :: int
  authorizationForkHeight :: int
  authorizationKey :: bytes

definition DifficultyAdjustmentInterval :: "Consensus_Params \<Rightarrow> int" where
  "DifficultyAdjustmentInterval params = nPowTargetTimespan params sdiv nPowTargetSpacing params"

section \<open>The 512-bit integers\<close>

record 'n uint512_ops =
  of_text :: "string \<Rightarrow> 'n"
  times512 :: "'n \<Rightarrow> int \<Rightarrow> 'n"
  quotient512 :: "'n \<Rightarrow> int \<Rightarrow> 'n"
  greater512 :: "'n \<Rightarrow> 'n \<Rightarrow> bool"
  to_text :: "'n \<Rightarrow> string"

text \<open>What the code relies on; \<open>val\<close> is the number.  Text is hexadecimal, with the prefix on input.\<close>

locale uint512 =
  fixes ops :: "'n uint512_ops" and val :: "'n \<Rightarrow> nat"
  assumes of_text: "list_all is_digit ds \<Longrightarrow> length ds \<le> 128 \<Longrightarrow> val (of_text ops (''0x'' @ ds)) = digits_num (rev ds)"
    and times: "0 \<le> k \<Longrightarrow> val n * nat k < 2 ^ 512 \<Longrightarrow> val (times512 ops n k) = val n * nat k"
    and quotient: "0 < k \<Longrightarrow> val (quotient512 ops n k) = val n div nat k"
    and greater: "greater512 ops m n \<longleftrightarrow> val n < val m"
    and to_text: "\<exists>ds. (to_text ops n = ''0x'' @ ds \<or> to_text ops n = ds) \<and> list_all is_digit ds \<and>
      digits_num (rev ds) = val n"

section \<open>Targets\<close>

definition CheckProofOfWork :: "uint256 \<Rightarrow> u32 \<Rightarrow> Consensus_Params \<Rightarrow> bool" where
  "CheckProofOfWork hash bits params =
     (let (bnTarget, fNegative, fOverflow) = SetCompact bits in
      if fNegative \<or> is_zero bnTarget \<or> fOverflow \<or> CompareTo bnTarget (UintToArith256 (powLimit params)) > 0 then False
      else if CompareTo (UintToArith256 hash) bnTarget > 0 then False
      else True)"

definition UintToCpp512 :: "'n uint512_ops \<Rightarrow> uint256 \<Rightarrow> 'n" where
  "UintToCpp512 ops n = of_text ops (''0x'' @ uint256_GetHex n)"

text \<open>The loop that goes back over blocks with the minimal difficulty.\<close>

partial_function (option) last_special ::
  "index_heap \<Rightarrow> Consensus_Params \<Rightarrow> u32 \<Rightarrow> ptr \<Rightarrow> (chain_fault + CBlockIndex) option" where
  [code]: "last_special H params nProofOfWorkLimit pindex =
     (case deref H pindex of Inl e \<Rightarrow> Some (Inl e)
      | Inr b \<Rightarrow>
          (case pprev b of None \<Rightarrow> Some (Inr b)
           | Some q \<Rightarrow>
               if int (nHeight b) smod DifficultyAdjustmentInterval params \<noteq> 0 \<and> bi_nBits b = nProofOfWorkLimit
               then last_special H params nProofOfWorkLimit q
               else Some (Inr b)))"

definition assert_some :: "'a option \<Rightarrow> chain_fault + 'a" where
  "assert_some x = (case x of None \<Rightarrow> Inl Assert_fails | Some y \<Rightarrow> Inr y)"

definition limit_compact :: "Consensus_Params \<Rightarrow> chain_fault + u32" where
  "limit_compact params = assert_some (GetCompact (UintToArith256 (powLimit params)) False)"

definition clamp_timespan :: "Consensus_Params \<Rightarrow> int \<Rightarrow> int" where
  "clamp_timespan params span =
     (let span = (if span < nPowTargetTimespan params sdiv 4 then nPowTargetTimespan params sdiv 4 else span)
      in if span > nPowTargetTimespan params * 4 then nPowTargetTimespan params * 4 else span)"

text \<open>The arithmetic of the retarget, from the bits of the old target.\<close>

definition retarget :: "'n uint512_ops \<Rightarrow> Consensus_Params \<Rightarrow> u32 \<Rightarrow> int \<Rightarrow> chain_fault + u32" where
  "retarget ops params bits nActualTimespan =
     (let bnPowLimit = UintToCpp512 ops (powLimit params);
          bnNew = UintToCpp512 ops (ArithToUint256 (fst (SetCompact bits)));
          bnNew = times512 ops bnNew nActualTimespan;
          bnNew = quotient512 ops bnNew (nPowTargetTimespan params);
          bnNew = (if greater512 ops bnNew bnPowLimit then bnPowLimit else bnNew)
      in assert_some (GetCompact (UintToArith256 (uint256_SetHex (to_text ops bnNew))) False))"

definition CalculateNextWorkRequired ::
  "'n uint512_ops \<Rightarrow> index_heap \<Rightarrow> Consensus_Params \<Rightarrow> ptr \<Rightarrow> int \<Rightarrow> (chain_fault + u32) option" where
  "CalculateNextWorkRequired ops H params pindexLast nFirstBlockTime =
     (case deref H pindexLast of Inl e \<Rightarrow> Some (Inl e)
      | Inr tip \<Rightarrow>
          if fPowNoRetargeting params then Some (Inr (bi_nBits tip))
          else let nActualTimespan = clamp_timespan params (GetBlockTime tip - nFirstBlockTime) in
            (case limit_compact params of Inl e \<Rightarrow> Some (Inl e)
             | Inr nProofOfWorkLimit \<Rightarrow>
                 if nHeight tip > 51840 then
                   Option.bind (last_special H params nProofOfWorkLimit pindexLast) (\<lambda>r. Some (
                     bind_sum r (\<lambda>b. retarget ops params (bi_nBits b) nActualTimespan)))
                 else Some (retarget ops params (bi_nBits tip) nActualTimespan)))"

definition special_bits ::
  "index_heap \<Rightarrow> Consensus_Params \<Rightarrow> u32 \<Rightarrow> ptr \<Rightarrow> (chain_fault + u32) option" where
  "special_bits H params nProofOfWorkLimit pindexLast =
     Option.bind (last_special H params nProofOfWorkLimit pindexLast) (\<lambda>r. Some (
       bind_sum r (\<lambda>b. Inr (bi_nBits b))))"

definition GetNextWorkRequired ::
  "'n uint512_ops \<Rightarrow> index_heap \<Rightarrow> Consensus_Params \<Rightarrow> ptr option \<Rightarrow> CBlockHeader \<Rightarrow> (chain_fault + u32) option" where
  "GetNextWorkRequired ops H params pindexLast pblock =
     (case pindexLast of None \<Rightarrow> Some (Inl Assert_fails)
      | Some p \<Rightarrow> (case deref H p of Inl e \<Rightarrow> Some (Inl e)
        | Inr tip \<Rightarrow>
          if (int (nHeight tip) + 1) smod DifficultyAdjustmentInterval params \<noteq> 0 then
            (case limit_compact params of Inl e \<Rightarrow> Some (Inl e)
             | Inr nProofOfWorkLimit \<Rightarrow>
                 if nHeight tip < 60500 then
                   (if fPowAllowMinDifficultyBlocks params then
                      (if uint (nTime pblock) > GetBlockTime tip + nPowTargetSpacing params * 2
                       then Some (Inr nProofOfWorkLimit)
                       else special_bits H params nProofOfWorkLimit p)
                    else Some (Inr (bi_nBits tip)))
                 else special_bits H params nProofOfWorkLimit p)
          else let nHeightFirst = int (nHeight tip) - (DifficultyAdjustmentInterval params - 1) in
            if nHeightFirst < 0 then Some (Inl Assert_fails)
            else (case GetAncestor H p nHeightFirst of Inl e \<Rightarrow> Some (Inl e)
              | Inr None \<Rightarrow> Some (Inl Assert_fails)
              | Inr (Some pindexFirst) \<Rightarrow>
                  (case deref H pindexFirst of Inl e \<Rightarrow> Some (Inl e)
                   | Inr first \<Rightarrow> CalculateNextWorkRequired ops H params p (GetBlockTime first)))))"

section \<open>Authorization\<close>

text \<open>\<open>verify_pubkey\<close> is \<open>ed25519_verify_pubkey\<close>; the two numbers at the start of the coinbase script are
  skipped by their length only.\<close>

definition CheckAuthorization ::
  "ed25519_env \<Rightarrow> (bytes \<Rightarrow> bool) \<Rightarrow> (bytes \<Rightarrow> bytes) \<Rightarrow> Consensus_Params \<Rightarrow> index_heap \<Rightarrow> CChain \<Rightarrow>
   CBlock \<Rightarrow> chain_fault + bool" where
  "CheckAuthorization ed verify_pubkey h params H chainActive pblock =
     (case Tip chainActive of None \<Rightarrow> Inr True
      | Some p \<Rightarrow> bind_sum (deref H p) (\<lambda>chainIndex.
          if authorizationForkHeight params \<le> 0 \<or> int (nHeight chainIndex) + 1 < authorizationForkHeight params
          then Inr True
          else if \<not> verify_pubkey (authorizationKey params) then Inr True
          else if vtx pblock = [] \<or> \<not> IsCoinBase (vtx pblock ! 0) then Inr False
          else let coinbase = vtx pblock ! 0; sig = scriptSig (tx_vin coinbase ! 0) in
            if length sig < 65 then Inr False
            else let nHeightScript = push_int64 [] (int (nHeight chainIndex) + 1);
                     nTimeScript = push_int64 [] (uint (nTime pblock));
                     pc = drop (length nHeightScript + length nTimeScript) sig in
              (case GetOp pc of None \<Rightarrow> Inr False
               | Some (opcode, sig, _) \<Rightarrow>
                   if opcode \<noteq> 64 then Inr False
                   else let hash = uint256_of (h (concat (map Serialize_CTxOut (tx_vout coinbase)))) in
                     Inr (CPubKey_Verify ed (authorizationKey params) hash sig))))"

section \<open>The claimed target\<close>

lemma CheckProofOfWork_iff:
  "CheckProofOfWork hash bits params \<longleftrightarrow>
     \<not> (compact_num bits \<noteq> 0 \<and> bits AND 0x00800000 \<noteq> 0) \<and> 0 < compact_num bits \<and>
     compact_num bits \<le> unat (powLimit params) \<and> unat hash \<le> compact_num bits"
proof -
  obtain r neg over where sc: "SetCompact bits = (r, neg, over)" by (cases "SetCompact bits") auto
  note S = SetCompact_spec [OF sc]
  have len: "length (UintToArith256 x) = length r" for x using S(1) by (simp add: UintToArith256_def WIDTH_def)
  have lim: "unat (powLimit params) < 2 ^ 256" by (rule order_less_le_trans [OF unsigned_less]) simp
  have cmp: "CompareTo a b > 0 \<longleftrightarrow> num b < num a" if "length a = length b" for a b
    using CompareTo_num [OF that] by simp
  show ?thesis
  proof (cases over)
    case True
    then have "unat (powLimit params) < compact_num bits" using S(3) lim by (meson order_less_le_trans)
    then show ?thesis using True sc by (simp add: CheckProofOfWork_def)
  next
    case False
    then have "num r = compact_num bits" using S(2,3) by simp
    then show ?thesis using False sc S(4) len cmp
      by (auto simp: CheckProofOfWork_def is_zero_num num_UintToArith256)
  qed
qed

section \<open>Retargeting\<close>

lemma limit_compact_ok: "\<exists>c. limit_compact params = Inr c \<and> GetCompact (UintToArith256 (powLimit params)) False = Some c"
proof -
  have "length (UintToArith256 (powLimit params)) = WIDTH" by (simp add: UintToArith256_def WIDTH_def)
  from GetCompact_spec [OF this] show ?thesis by (auto simp: limit_compact_def assert_some_def)
qed

text \<open>The loop over minimal-difficulty blocks ends at an ancestor.\<close>

lemma last_special_ends:
  assumes "tree_ok H"
  shows "H p = Some b \<Longrightarrow> \<exists>q c. last_special H params lim p = Some (Inr c) \<and> H q = Some c \<and> ancestor H q p \<and>
    (pprev c = None \<or> int (nHeight c) smod DifficultyAdjustmentInterval params = 0 \<or> bi_nBits c \<noteq> lim)"
proof (induction "nHeight b" arbitrary: p b)
  case 0
  then have "pprev b = None" using tree_prev [OF assms] by fastforce
  with 0 show ?case using ancestor_refl by (subst last_special.simps) (auto simp: deref_def)
next
  case (Suc n)
  obtain q where q: "pprev b = Some q" using tree_root [OF assms Suc(3)] Suc(2) by fastforce
  from tree_prev [OF assms Suc(3) q] Suc(2) obtain d where d: "H q = Some d" "n = nHeight d" by auto
  show ?case
  proof (cases "int (nHeight b) smod DifficultyAdjustmentInterval params \<noteq> 0 \<and> bi_nBits b = lim")
    case True
    from Suc.hyps(1) [OF d(2,1)] obtain r c where
      r: "last_special H params lim q = Some (Inr c)" "H r = Some c" "ancestor H r q"
        "pprev c = None \<or> int (nHeight c) smod DifficultyAdjustmentInterval params = 0 \<or> bi_nBits c \<noteq> lim" by blast
    have "ancestor H r p" using r(3) q ancestor_step [of H p b r] Suc(3) by blast
    then show ?thesis using r True Suc(3) q by (subst last_special.simps) (auto simp: deref_def)
  next
    case False
    then show ?thesis using Suc(3) q ancestor_refl by (subst last_special.simps) (auto simp: deref_def)
  qed
qed

lemma length_GetHex: "length (uint256_GetHex n) = 64"
  by (simp add: uint256_GetHex_def HexStr_def HexStr_plain length_concat comp_def sum_list_triv)

lemma digits_num_GetHex: "digits_num (rev (uint256_GetHex n)) = unat n"
proof -
  have d: "list_all is_digit (uint256_GetHex n)" by (simp add: uint256_GetHex_def HexStr_def GetHex_digits)
  have "digits_num (rev (uint256_GetHex n)) = le_nat (uint256_bytes n)"
    by (simp add: uint256_GetHex_def HexStr_def digits_num_HexStr)
  then show ?thesis by (simp add: le_nat_uint256)
qed

lemma clamp_bounds:
  assumes "0 < nPowTargetTimespan params"
  shows "nPowTargetTimespan params sdiv 4 \<le> clamp_timespan params span"
    and "clamp_timespan params span \<le> nPowTargetTimespan params * 4" and "0 \<le> clamp_timespan params span"
proof -
  define T where "T = nPowTargetTimespan params"
  have "T sdiv 4 = T div 4" using assms by (simp add: signed_divide_int_def T_def)
  moreover have "0 \<le> T div 4" "T div 4 \<le> T * 4" using assms by (simp_all add: T_def)
  ultimately show "nPowTargetTimespan params sdiv 4 \<le> clamp_timespan params span"
    and "clamp_timespan params span \<le> nPowTargetTimespan params * 4" and "0 \<le> clamp_timespan params span"
    unfolding clamp_timespan_def T_def [symmetric] Let_def by auto
qed

lemma target_less: "num (fst (SetCompact bits)) < 2 ^ 256" "length (fst (SetCompact bits)) = WIDTH"
proof -
  obtain r neg over where sc: "SetCompact bits = (r, neg, over)" by (cases "SetCompact bits") auto
  then show "num (fst (SetCompact bits)) < 2 ^ 256" "length (fst (SetCompact bits)) = WIDTH"
    using SetCompact_spec [OF sc] by simp_all
qed

text \<open>The target the retarget aims at.\<close>

definition new_target :: "Consensus_Params \<Rightarrow> u32 \<Rightarrow> int \<Rightarrow> nat" where
  "new_target params bits span =
     min (unat (powLimit params)) (num (fst (SetCompact bits)) * nat span div nat (nPowTargetTimespan params))"

context uint512
begin

lemma val_UintToCpp512: "val (UintToCpp512 ops n) = unat n"
proof -
  have "list_all is_digit (uint256_GetHex n)" by (simp add: uint256_GetHex_def HexStr_def GetHex_digits)
  from of_text [OF this] show ?thesis by (simp add: UintToCpp512_def length_GetHex digits_num_GetHex)
qed

lemma SetHex_to_text: "val n < 2 ^ 256 \<Longrightarrow> unat (uint256_SetHex (to_text ops n)) = val n"
proof -
  assume v: "val n < 2 ^ 256"
  from to_text obtain ds where t: "to_text ops n = ''0x'' @ ds \<or> to_text ops n = ds" and d: "list_all is_digit ds"
    and n: "digits_num (rev ds) = val n" by blast
  have "skip_0x (dropWhile isspace (to_text ops n)) = ds @ []"
    using t
  proof
    assume "to_text ops n = ds"
    then show ?thesis using digits_no_prefix [OF d] by simp
  next
    assume "to_text ops n = ''0x'' @ ds"
    moreover have "\<not> isspace CHR ''0''" by (simp add: isspace_def)
    ultimately show ?thesis by (simp add: skip_0x_def)
  qed
  from uint256_SetHex_num [OF d this] n show ?thesis using v by simp
qed

text \<open>The retarget computes the compact form of the new target.\<close>

lemma retarget_new_target:
  assumes "0 < nPowTargetTimespan params" and "nPowTargetTimespan params < 2 ^ 61"
    and "0 \<le> span" and "span \<le> nPowTargetTimespan params * 4"
  shows "\<exists>c. retarget ops params bits span = Inr c \<and>
    GetCompact (UintToArith256 (of_nat (new_target params bits span))) False = Some c"
proof -
  define T where "T = nPowTargetTimespan params"
  define old where "old = num (fst (SetCompact bits))"
  define n0 where "n0 = UintToCpp512 ops (ArithToUint256 (fst (SetCompact bits)))"
  have v0: "val n0 = old" using target_less(2) [of bits] by (simp add: n0_def old_def val_UintToCpp512 ArithToUint256_num)
  have "old * nat span < 2 ^ 256 * 2 ^ 63"
  proof (rule mult_strict_mono)
    show "old < 2 ^ 256" unfolding old_def by (rule target_less)
    show "nat span < 2 ^ 63" using assms(2-4) by simp
  qed simp_all
  also have "(2 :: nat) ^ 256 * 2 ^ 63 \<le> 2 ^ 512" by simp
  finally have b: "old * nat span < 2 ^ 512" .
  define n1 where "n1 = quotient512 ops (times512 ops n0 span) T"
  have v1: "val n1 = old * nat span div nat T"
    using times [of span n0] quotient [of T] assms(1,3) b by (simp add: v0 n1_def T_def)
  define n2 where "n2 = (if greater512 ops n1 (UintToCpp512 ops (powLimit params)) then UintToCpp512 ops (powLimit params) else n1)"
  have v2: "val n2 = new_target params bits span"
    by (simp add: n2_def greater v1 val_UintToCpp512 new_target_def old_def T_def min_def)
  have "unat (powLimit params) < 2 ^ 256" by (rule order_less_le_trans [OF unsigned_less]) simp
  then have "val n2 < 2 ^ 256" by (simp add: v2 new_target_def min_def)
  then have u: "unat (uint256_SetHex (to_text ops n2)) = new_target params bits span"
    using SetHex_to_text [of n2] v2 by simp
  have "uint256_SetHex (to_text ops n2) = of_nat (unat (uint256_SetHex (to_text ops n2)))" by simp
  then have "uint256_SetHex (to_text ops n2) = of_nat (new_target params bits span)" by (simp only: u)
  moreover have "\<exists>c. GetCompact (UintToArith256 x) False = Some c" for x
    using GetCompact_spec [of "UintToArith256 x"] by (auto simp: UintToArith256_def WIDTH_def)
  moreover have "retarget ops params bits span = assert_some (GetCompact (UintToArith256 (uint256_SetHex (to_text ops n2))) False)"
    by (simp only: retarget_def Let_def n0_def n1_def n2_def T_def)
  ultimately show ?thesis by (auto simp: assert_some_def split: option.splits)
qed

text \<open>The whole computation: it ends, no assertion fails, and it retargets the bits of an ancestor,
  the last block itself up to height 51840.\<close>

lemma CalculateNextWorkRequired_target:
  assumes "tree_ok H" and "H p = Some b" and "\<not> fPowNoRetargeting params"
    and "0 < nPowTargetTimespan params" and "nPowTargetTimespan params < 2 ^ 61"
  shows "\<exists>q a c. CalculateNextWorkRequired ops H params p t = Some (Inr c) \<and> ancestor H q p \<and> H q = Some a \<and>
    (nHeight b \<le> 51840 \<longrightarrow> q = p) \<and>
    GetCompact (UintToArith256 (of_nat (new_target params (bi_nBits a) (clamp_timespan params (GetBlockTime b - t))))) False = Some c"
proof -
  from limit_compact_ok obtain lim where lim: "limit_compact params = Inr lim" by blast
  note r = retarget_new_target [OF assms(4,5) clamp_bounds(3,2) [OF assms(4)]]
  show ?thesis
  proof (cases "nHeight b > 51840")
    case True
    from last_special_ends [OF assms(1,2), of params lim] obtain q a where
      q: "last_special H params lim p = Some (Inr a)" "H q = Some a" "ancestor H q p" by blast
    from r [of "bi_nBits a" "GetBlockTime b - t"] q True assms(2,3) lim show ?thesis
      by (auto simp: CalculateNextWorkRequired_def deref_def Let_def)
  next
    case False
    from r [of "bi_nBits b" "GetBlockTime b - t"] False assms(2,3) lim ancestor_refl [of H p] show ?thesis
      by (auto simp: CalculateNextWorkRequired_def deref_def Let_def)
  qed
qed

end

text \<open>The compact form only loses low bits.\<close>

lemma compact_new_target:
  assumes "GetCompact (UintToArith256 (of_nat (new_target params bits span))) False = Some c"
  shows "compact_num c \<le> new_target params bits span" and "compact_num c \<le> unat (powLimit params)"
    and "c AND 0x00800000 = 0"
proof -
  have "unat (powLimit params) < 2 ^ 256" by (rule order_less_le_trans [OF unsigned_less]) simp
  then have l: "new_target params bits span < 2 ^ 256" by (simp add: new_target_def min_def)
  have "unat (of_nat n :: uint256) = n" if "n < 2 ^ 256" for n
  proof -
    have "unat (of_nat n :: uint256) = n mod 2 ^ 256" by (simp only: unat_of_nat) simp
    with that show ?thesis by (simp only: mod_less)
  qed
  then have n: "num (UintToArith256 (of_nat (new_target params bits span))) = new_target params bits span"
    using l by (simp only: num_UintToArith256)
  have "length (UintToArith256 (of_nat (new_target params bits span))) = WIDTH" by (simp add: UintToArith256_def WIDTH_def)
  from GetCompact_spec [OF this] assms n have e: "compact_num c = new_target params bits span div
      compact_unit (compact_exponent c) * compact_unit (compact_exponent c)" and "c AND 0x00800000 = 0" by auto
  then show "compact_num c \<le> new_target params bits span" and "c AND 0x00800000 = 0" by (simp_all add: div_times_less_eq_dividend)
  then show "compact_num c \<le> unat (powLimit params)" by (simp add: new_target_def)
qed

section \<open>An instance of the 512-bit integers\<close>

definition word512_ops :: "512 word uint512_ops" where
  "word512_ops = \<lparr>of_text = (\<lambda>s. of_nat (digits_num (rev (drop 2 s)))), times512 = (\<lambda>n k. n * of_int k),
     quotient512 = (\<lambda>n k. of_nat (unat n div nat k)), greater512 = (\<lambda>m n. n < m),
     to_text = (\<lambda>n. ''0x'' @ HexStr (rev (le_bytes 64 n)) False)\<rparr>"

lemma unat_of_nat_512: "n < 2 ^ 512 \<Longrightarrow> unat (of_nat n :: 512 word) = n"
proof -
  assume n: "n < 2 ^ 512"
  have "unat (of_nat n :: 512 word) = n mod 2 ^ 512" by (simp only: unat_of_nat) simp
  with n show ?thesis by (simp only: mod_less)
qed

lemma unat_512_less: "unat (n :: 512 word) < 2 ^ 512"
  by (rule order_less_le_trans [OF unsigned_less]) simp

interpretation word512: uint512 word512_ops unat
proof
  fix ds
  assume d: "list_all is_digit ds" and l: "length ds \<le> 128"
  have "digits_num (rev ds) < 16 ^ length ds" using digits_num_less [of "rev ds"] d by simp
  also have "(16 :: nat) ^ length ds \<le> 16 ^ 128" using l by (rule power_increasing) simp
  also have "(16 :: nat) ^ 128 = 2 ^ 512" by simp
  finally have "digits_num (rev ds) < 2 ^ 512" .
  moreover have "of_text word512_ops (''0x'' @ ds) = of_nat (digits_num (rev ds))" by (simp add: word512_ops_def)
  ultimately show "unat (of_text word512_ops (''0x'' @ ds)) = digits_num (rev ds)" using unat_of_nat_512 by simp
next
  fix n :: "512 word" and k :: int
  assume k: "0 \<le> k" and b: "unat n * nat k < 2 ^ 512"
  have "times512 word512_ops n k = of_nat (unat n * nat k)" using k by (simp add: word512_ops_def)
  then show "unat (times512 word512_ops n k) = unat n * nat k" using unat_of_nat_512 [OF b] by simp
next
  fix n :: "512 word" and k :: int
  have "unat n div nat k < 2 ^ 512" using unat_512_less [of n] by (meson div_le_dividend order_le_less_trans)
  then show "unat (quotient512 word512_ops n k) = unat n div nat k"
    by (simp only: word512_ops_def uint512_ops.simps unat_of_nat_512)
next
  fix m n :: "512 word"
  show "greater512 word512_ops m n \<longleftrightarrow> unat n < unat m" by (simp add: word512_ops_def word_less_nat_alt)
next
  fix n :: "512 word"
  have "le_nat (le_bytes 64 n) = unat n"
  proof -
    have "(of_nat (le_nat (le_bytes 64 n)) :: 512 word) = n" by (simp flip: le_word_le_nat)
    moreover have "le_nat (le_bytes 64 n) < 2 ^ 512"
    proof -
      have "le_nat (le_bytes 64 n) < 256 ^ 64" using le_nat_less [of "le_bytes 64 n"] by (simp only: length_le_bytes)
      also have "(256 :: nat) ^ 64 = 2 ^ 512" by simp
      finally show ?thesis .
    qed
    ultimately show ?thesis using unat_of_nat_512 by metis
  qed
  then have "digits_num (rev (HexStr (rev (le_bytes 64 n)) False)) = unat n"
    by (simp only: HexStr_def digits_num_HexStr rev_rev_ident)
  moreover have "list_all is_digit (HexStr (rev (le_bytes 64 n)) False)" by (simp add: HexStr_def GetHex_digits)
  ultimately show "\<exists>ds. (to_text word512_ops n = ''0x'' @ ds \<or> to_text word512_ops n = ds) \<and> list_all is_digit ds \<and>
      digits_num (rev ds) = unat n"
    by (intro exI [of _ "HexStr (rev (le_bytes 64 n)) False"]) (simp add: word512_ops_def)
qed

section \<open>What the authorization signs\<close>

text \<open>The signed message is made of the outputs of the coinbase alone: a script that authorizes one
  block authorizes every block whose coinbase has the same script and outputs, on any chain above the
  fork whose height takes as many bytes.\<close>

lemma CheckAuthorization_replay:
  assumes "CheckAuthorization ed vk h params H C b = Inr True"
    and "Tip C = Some p" "H p = Some i" "Tip C' = Some p'" "H' p' = Some i'"
    and "0 < authorizationForkHeight params" "authorizationForkHeight params \<le> int (nHeight i) + 1"
    and "vk (authorizationKey params)"
    and "length (push_int64 [] (int (nHeight i') + 1)) + length (push_int64 [] (uint (nTime b'))) =
      length (push_int64 [] (int (nHeight i) + 1)) + length (push_int64 [] (uint (nTime b)))"
    and "vtx b' \<noteq> []" and "IsCoinBase (vtx b' ! 0)"
    and "scriptSig (tx_vin (vtx b' ! 0) ! 0) = scriptSig (tx_vin (vtx b ! 0) ! 0)"
    and "tx_vout (vtx b' ! 0) = tx_vout (vtx b ! 0)"
  shows "CheckAuthorization ed vk h params H' C' b' = Inr True"
proof (cases "int (nHeight i') + 1 < authorizationForkHeight params")
  case True
  then show ?thesis using assms(4,5) by (simp add: CheckAuthorization_def deref_def)
next
  case False
  then show ?thesis using assms
    by (auto simp: CheckAuthorization_def deref_def Let_def split: if_splits option.splits)
qed

section \<open>The next work\<close>

context uint512
begin

text \<open>At the end of an interval the assertions hold and the target is computed from the time since the
  first block of the interval.\<close>

lemma GetNextWorkRequired_boundary:
  assumes "tree_ok H" and "H p = Some b" and "0 < nPowTargetTimespan params" and "nPowTargetTimespan params < 2 ^ 61"
    and "0 < DifficultyAdjustmentInterval params" and "(int (nHeight b) + 1) smod DifficultyAdjustmentInterval params = 0"
  shows "\<exists>q a. nth_prev H (nat (DifficultyAdjustmentInterval params - 1)) p = Some q \<and> H q = Some a \<and>
    GetNextWorkRequired ops H params (Some p) hdr = CalculateNextWorkRequired ops H params p (GetBlockTime a)"
proof -
  define I where "I = DifficultyAdjustmentInterval params"
  have I: "0 < I" "(int (nHeight b) + 1) mod I = 0" using assms(5,6) by (simp_all add: I_def signed_modulo_int_def)
  have "I \<le> int (nHeight b) + 1"
    using I by (intro zdvd_imp_le) auto
  then have h: "0 \<le> int (nHeight b) - (I - 1)" "int (nHeight b) - (I - 1) \<le> int (nHeight b)" using I(1) by simp_all
  have n: "nHeight b - nat (int (nHeight b) - (I - 1)) = nat (I - 1)" using h I(1) by linarith
  from GetAncestor_Some [OF assms(1,2) h] obtain q a where
    q: "GetAncestor H p (int (nHeight b) - (I - 1)) = Inr (Some q)" "nth_prev H (nat (I - 1)) p = Some q" "H q = Some a"
    unfolding n by blast
  then show ?thesis using h(1) assms(2,6)
    by (auto simp: GetNextWorkRequired_def deref_def Let_def I_def [symmetric])
qed

lemma GetNextWorkRequired_ends:
  assumes "tree_ok H" and "H p = Some b" and "0 < nPowTargetTimespan params" and "nPowTargetTimespan params < 2 ^ 61"
    and "0 < DifficultyAdjustmentInterval params"
  shows "\<exists>c. GetNextWorkRequired ops H params (Some p) hdr = Some (Inr c)"
proof (cases "(int (nHeight b) + 1) smod DifficultyAdjustmentInterval params = 0")
  case True
  from GetNextWorkRequired_boundary [OF assms True] obtain a where
    a: "GetNextWorkRequired ops H params (Some p) hdr = CalculateNextWorkRequired ops H params p (GetBlockTime a)" by blast
  show ?thesis
  proof (cases "fPowNoRetargeting params")
    case True
    then show ?thesis using assms(2) by (simp add: a CalculateNextWorkRequired_def deref_def)
  next
    case False
    from CalculateNextWorkRequired_target [OF assms(1,2) False assms(3,4), of "GetBlockTime a"] show ?thesis
      unfolding a by blast
  qed
next
  case False
  from limit_compact_ok [of params] obtain lim where l: "limit_compact params = Inr lim" by blast
  from last_special_ends [OF assms(1,2), of params lim] obtain q c where
    "last_special H params lim p = Some (Inr c)" "H q = Some c" by blast
  then show ?thesis using False l assms(2)
    by (auto simp: GetNextWorkRequired_def deref_def special_bits_def)
qed

end

end
