(* ===== verification/VersionBits.thy ===== *)
theory VersionBits imports Pow
begin

text \<open>
  The deployment of soft forks by version bits (BIP 9), \<^verbatim>\<open>src/src/versionbits.cpp\<close>.  The checker's virtual
  functions are a record; the state of a deployment is computed backwards along the periods with a cache
  that may start with what earlier calls left.  The reference is the state machine of BIP 9, stepping
  from period to period: whatever a valid cache holds, the code gives its state and keeps the cache valid.
  The early end of the search at a block before the start time is right because median times do not go back.
\<close>

unbundle bit_operations_syntax

section \<open>Parameters\<close>

record BIP9Deployment =
  bip9_bit :: nat
  nStartTime :: int
  nTimeout :: int

definition ALWAYS_ACTIVE :: int where "ALWAYS_ACTIVE = - 1"
definition NO_TIMEOUT :: int where "NO_TIMEOUT = 2 ^ 63 - 1"

record Chain_Params = Consensus_Params +
  hashGenesisBlock :: uint256
  nSubsidyHalvingInterval :: int
  nRuleChangeActivationThreshold :: u32
  nMinerConfirmationWindow :: u32
  vDeployments :: "BIP9Deployment list"

definition VERSIONBITS_TOP_BITS :: u32 where "VERSIONBITS_TOP_BITS = 0x20000000"
definition VERSIONBITS_TOP_MASK :: u32 where "VERSIONBITS_TOP_MASK = 0xE0000000"

datatype ThresholdState =
  THRESHOLD_DEFINED | THRESHOLD_STARTED | THRESHOLD_LOCKED_IN | THRESHOLD_ACTIVE | THRESHOLD_FAILED

text \<open>Keyed by the last block of the period before, \<open>None\<close> for the parent of the genesis block.\<close>

type_synonym ThresholdConditionCache = "ptr option \<rightharpoonup> ThresholdState"

section \<open>The abstract checker\<close>

record threshold_checker =
  Condition :: "index_heap \<Rightarrow> ptr \<Rightarrow> chain_fault + bool"
  BeginTime :: int
  EndTime :: int
  Period :: int
  Threshold :: int

text \<open>The last block of the period before the one a child of \<open>p\<close> belongs to, and the last block of the
  period before that of a block \<open>p\<close> that ends one.\<close>

definition period_end :: "index_heap \<Rightarrow> threshold_checker \<Rightarrow> ptr \<Rightarrow> chain_fault + ptr option" where
  "period_end H ck p =
     bind_sum (deref H p) (\<lambda>b. GetAncestor H p (int (nHeight b) - (int (nHeight b) + 1) mod Period ck))"

definition prev_period :: "index_heap \<Rightarrow> threshold_checker \<Rightarrow> ptr \<Rightarrow> chain_fault + ptr option" where
  "prev_period H ck p = bind_sum (deref H p) (\<lambda>b. GetAncestor H p (int (nHeight b) - Period ck))"

partial_function (option) walk_back ::
  "index_heap \<Rightarrow> threshold_checker \<Rightarrow> ThresholdConditionCache \<Rightarrow> ptr option \<Rightarrow> ptr list \<Rightarrow>
   (chain_fault + ThresholdConditionCache \<times> ptr option \<times> ptr list) option" where
  "walk_back H ck cache pindexPrev vToCompute =
     (if cache pindexPrev \<noteq> None then Some (Inr (cache, pindexPrev, vToCompute))
      else case pindexPrev of
        None \<Rightarrow> Some (Inr (cache(None \<mapsto> THRESHOLD_DEFINED), None, vToCompute))
      | Some p \<Rightarrow>
          (case GetMedianTimePast H p of Inl e \<Rightarrow> Some (Inl e)
           | Inr t \<Rightarrow>
               if t < BeginTime ck then Some (Inr (cache(Some p \<mapsto> THRESHOLD_DEFINED), Some p, vToCompute))
               else (case prev_period H ck p of Inl e \<Rightarrow> Some (Inl e)
                 | Inr q \<Rightarrow> walk_back H ck cache q (p # vToCompute))))"

text \<open>The blocks among \<open>n\<close> that meet the condition.\<close>

fun count_signals :: "index_heap \<Rightarrow> threshold_checker \<Rightarrow> nat \<Rightarrow> ptr option \<Rightarrow> chain_fault + nat" where
  "count_signals H ck 0 pindexCount = Inr 0"
| "count_signals H ck (Suc n) None = Inl Bad_pointer"
| "count_signals H ck (Suc n) (Some p) =
     bind_sum (Condition ck H p) (\<lambda>c. bind_sum (deref H p) (\<lambda>b.
     bind_sum (count_signals H ck n (pprev b)) (\<lambda>k. Inr (if c then k + 1 else k))))"

definition threshold_step ::
  "index_heap \<Rightarrow> threshold_checker \<Rightarrow> ThresholdState \<Rightarrow> ptr \<Rightarrow> chain_fault + ThresholdState" where
  "threshold_step H ck state p =
     (case state of
        THRESHOLD_DEFINED \<Rightarrow>
          bind_sum (GetMedianTimePast H p) (\<lambda>t.
            Inr (if EndTime ck \<le> t then THRESHOLD_FAILED
                 else if BeginTime ck \<le> t then THRESHOLD_STARTED else THRESHOLD_DEFINED))
      | THRESHOLD_STARTED \<Rightarrow>
          bind_sum (GetMedianTimePast H p) (\<lambda>t.
            if EndTime ck \<le> t then Inr THRESHOLD_FAILED
            else bind_sum (count_signals H ck (nat (Period ck)) (Some p)) (\<lambda>count.
              Inr (if Threshold ck \<le> int count then THRESHOLD_LOCKED_IN else THRESHOLD_STARTED)))
      | THRESHOLD_LOCKED_IN \<Rightarrow> Inr THRESHOLD_ACTIVE
      | THRESHOLD_FAILED \<Rightarrow> Inr THRESHOLD_FAILED
      | THRESHOLD_ACTIVE \<Rightarrow> Inr THRESHOLD_ACTIVE)"

fun walk_forward ::
  "index_heap \<Rightarrow> threshold_checker \<Rightarrow> ThresholdConditionCache \<Rightarrow> ThresholdState \<Rightarrow> ptr list \<Rightarrow>
   chain_fault + ThresholdState \<times> ThresholdConditionCache" where
  "walk_forward H ck cache state [] = Inr (state, cache)"
| "walk_forward H ck cache state (p # vToCompute) =
     bind_sum (threshold_step H ck state p) (\<lambda>state. walk_forward H ck (cache(Some p \<mapsto> state)) state vToCompute)"

definition GetStateFor ::
  "index_heap \<Rightarrow> threshold_checker \<Rightarrow> ptr option \<Rightarrow> ThresholdConditionCache \<Rightarrow>
   (chain_fault + ThresholdState \<times> ThresholdConditionCache) option" where
  "GetStateFor H ck pindexPrev cache =
     (if BeginTime ck = ALWAYS_ACTIVE then Some (Inr (THRESHOLD_ACTIVE, cache))
      else case (case pindexPrev of None \<Rightarrow> Inr None | Some p \<Rightarrow> period_end H ck p) of
        Inl e \<Rightarrow> Some (Inl e)
      | Inr q \<Rightarrow>
          Option.bind (walk_back H ck cache q []) (\<lambda>r.
            case r of Inl e \<Rightarrow> Some (Inl e)
            | Inr (cache, q, vToCompute) \<Rightarrow>
                (case cache q of None \<Rightarrow> Some (Inl Assert_fails)
                 | Some state \<Rightarrow> Some (walk_forward H ck cache state vToCompute))))"

section \<open>Statistics\<close>

record BIP9Stats =
  st_period :: int
  st_threshold :: int
  st_elapsed :: int
  st_count :: int
  st_possible :: bool

text \<open>The loop from a block down to the one at height \<open>h\<close>.\<close>

partial_function (option) count_down ::
  "index_heap \<Rightarrow> threshold_checker \<Rightarrow> nat \<Rightarrow> ptr option \<Rightarrow> int \<Rightarrow> (chain_fault + int) option" where
  "count_down H ck h currentIndex n =
     (case currentIndex of None \<Rightarrow> Some (Inl Bad_pointer)
      | Some p \<Rightarrow>
          (case deref H p of Inl e \<Rightarrow> Some (Inl e)
           | Inr b \<Rightarrow>
               if h = nHeight b then Some (Inr n)
               else (case Condition ck H p of Inl e \<Rightarrow> Some (Inl e)
                 | Inr c \<Rightarrow> count_down H ck h (pprev b) (if c then n + 1 else n))))"

definition GetStateStatisticsFor ::
  "index_heap \<Rightarrow> threshold_checker \<Rightarrow> ptr option \<Rightarrow> (chain_fault + BIP9Stats) option" where
  "GetStateStatisticsFor H ck pindex =
     (let stats = \<lparr>st_period = Period ck, st_threshold = Threshold ck, st_elapsed = 0, st_count = 0, st_possible = False\<rparr> in
      case pindex of None \<Rightarrow> Some (Inr stats)
      | Some p \<Rightarrow>
          (case bind_sum (deref H p) (\<lambda>b. bind_sum (period_end H ck p) (\<lambda>q.
                  case q of None \<Rightarrow> Inl Bad_pointer | Some q \<Rightarrow> bind_sum (deref H q) (\<lambda>e. Inr (b, e)))) of
             Inl e \<Rightarrow> Some (Inl e)
           | Inr (b, e) \<Rightarrow>
               (let elapsed = int (nHeight b) - int (nHeight e) in
                Option.bind (count_down H ck (nHeight e) (Some p) 0) (\<lambda>r.
                  case r of Inl e \<Rightarrow> Some (Inl e)
                  | Inr k \<Rightarrow> Some (Inr (stats\<lparr>st_elapsed := elapsed, st_count := k,
                      st_possible := elapsed - k \<le> Period ck - Threshold ck\<rparr>))))))"

section \<open>Since when\<close>

partial_function (option) since_loop ::
  "index_heap \<Rightarrow> threshold_checker \<Rightarrow> ThresholdState \<Rightarrow> ptr \<Rightarrow> ThresholdConditionCache \<Rightarrow>
   (chain_fault + int \<times> ThresholdConditionCache) option" where
  "since_loop H ck initialState p cache =
     (case bind_sum (deref H p) (\<lambda>b. bind_sum (prev_period H ck p) (\<lambda>q. Inr (b, q))) of
        Inl e \<Rightarrow> Some (Inl e)
      | Inr (b, None) \<Rightarrow> Some (Inr (int (nHeight b) + 1, cache))
      | Inr (b, Some q) \<Rightarrow>
          Option.bind (GetStateFor H ck (Some q) cache) (\<lambda>r.
            case r of Inl e \<Rightarrow> Some (Inl e)
            | Inr (s, cache) \<Rightarrow>
                if s = initialState then since_loop H ck initialState q cache
                else Some (Inr (int (nHeight b) + 1, cache))))"

definition GetStateSinceHeightFor ::
  "index_heap \<Rightarrow> threshold_checker \<Rightarrow> ptr option \<Rightarrow> ThresholdConditionCache \<Rightarrow>
   (chain_fault + int \<times> ThresholdConditionCache) option" where
  "GetStateSinceHeightFor H ck pindexPrev cache =
     (if BeginTime ck = ALWAYS_ACTIVE then Some (Inr (0, cache))
      else Option.bind (GetStateFor H ck pindexPrev cache) (\<lambda>r.
        case r of Inl e \<Rightarrow> Some (Inl e)
        | Inr (initialState, cache) \<Rightarrow>
            if initialState = THRESHOLD_DEFINED then Some (Inr (0, cache))
            else (case pindexPrev of None \<Rightarrow> Some (Inl Bad_pointer)
              | Some p \<Rightarrow>
                  (case period_end H ck p of Inl e \<Rightarrow> Some (Inl e)
                   | Inr None \<Rightarrow> Some (Inl Bad_pointer)
                   | Inr (Some q) \<Rightarrow> since_loop H ck initialState q cache))))"

section \<open>Version bits\<close>

definition Mask :: "Chain_Params \<Rightarrow> nat \<Rightarrow> u32" where
  "Mask params pos = push_bit (bip9_bit (vDeployments params ! pos)) 1"

definition VersionBitsConditionChecker :: "Chain_Params \<Rightarrow> nat \<Rightarrow> threshold_checker" where
  "VersionBitsConditionChecker params pos = \<lparr>
     Condition = (\<lambda>H p. bind_sum (deref H p) (\<lambda>b.
       Inr (bi_nVersion b AND VERSIONBITS_TOP_MASK = VERSIONBITS_TOP_BITS \<and> bi_nVersion b AND Mask params pos \<noteq> 0))),
     BeginTime = nStartTime (vDeployments params ! pos), EndTime = nTimeout (vDeployments params ! pos),
     Period = sint (nMinerConfirmationWindow params), Threshold = sint (nRuleChangeActivationThreshold params)\<rparr>"

text \<open>One cache for each deployment.\<close>

type_synonym VersionBitsCache = "ThresholdConditionCache list"

definition VersionBitsCache_Clear :: "Chain_Params \<Rightarrow> VersionBitsCache" where
  "VersionBitsCache_Clear params = replicate (length (vDeployments params)) Map.empty"

definition VersionBitsState ::
  "index_heap \<Rightarrow> ptr option \<Rightarrow> Chain_Params \<Rightarrow> nat \<Rightarrow> VersionBitsCache \<Rightarrow>
   (chain_fault + ThresholdState \<times> VersionBitsCache) option" where
  "VersionBitsState H pindexPrev params pos caches =
     map_option (map_sum id (\<lambda>(s, c). (s, caches[pos := c])))
       (GetStateFor H (VersionBitsConditionChecker params pos) pindexPrev (caches ! pos))"

definition VersionBitsStatistics :: "index_heap \<Rightarrow> ptr option \<Rightarrow> Chain_Params \<Rightarrow> nat \<Rightarrow> (chain_fault + BIP9Stats) option" where
  "VersionBitsStatistics H pindexPrev params pos =
     GetStateStatisticsFor H (VersionBitsConditionChecker params pos) pindexPrev"

definition VersionBitsStateSinceHeight ::
  "index_heap \<Rightarrow> ptr option \<Rightarrow> Chain_Params \<Rightarrow> nat \<Rightarrow> VersionBitsCache \<Rightarrow>
   (chain_fault + int \<times> VersionBitsCache) option" where
  "VersionBitsStateSinceHeight H pindexPrev params pos caches =
     map_option (map_sum id (\<lambda>(s, c). (s, caches[pos := c])))
       (GetStateSinceHeightFor H (VersionBitsConditionChecker params pos) pindexPrev (caches ! pos))"

definition VersionBitsMask :: "Chain_Params \<Rightarrow> nat \<Rightarrow> u32" where
  "VersionBitsMask params pos = Mask params pos"

text \<open>The loop over the deployments of \<open>ComputeBlockVersion\<close> in \<^verbatim>\<open>src/src/validation.cpp\<close>.\<close>

fun version_loop ::
  "index_heap \<Rightarrow> ptr option \<Rightarrow> Chain_Params \<Rightarrow> nat list \<Rightarrow> u32 \<Rightarrow> VersionBitsCache \<Rightarrow>
   (chain_fault + u32 \<times> VersionBitsCache) option" where
  "version_loop H pindexPrev params [] nVersion caches = Some (Inr (nVersion, caches))"
| "version_loop H pindexPrev params (i # is) nVersion caches =
     Option.bind (VersionBitsState H pindexPrev params i caches) (\<lambda>r.
       case r of Inl e \<Rightarrow> Some (Inl e)
       | Inr (state, caches) \<Rightarrow>
           version_loop H pindexPrev params is
             (if state = THRESHOLD_LOCKED_IN \<or> state = THRESHOLD_STARTED then nVersion OR VersionBitsMask params i
              else nVersion) caches)"

definition ComputeBlockVersion ::
  "index_heap \<Rightarrow> ptr option \<Rightarrow> Chain_Params \<Rightarrow> VersionBitsCache \<Rightarrow> (chain_fault + u32 \<times> VersionBitsCache) option" where
  "ComputeBlockVersion H pindexPrev params caches =
     version_loop H pindexPrev params [0..<length (vDeployments params)] VERSIONBITS_TOP_BITS caches"

section \<open>The state machine\<close>

text \<open>The states along the blocks that end a period.\<close>

inductive bip9_state :: "index_heap \<Rightarrow> threshold_checker \<Rightarrow> ptr option \<Rightarrow> ThresholdState \<Rightarrow> bool" for H ck where
  before_genesis: "bip9_state H ck None THRESHOLD_DEFINED"
| next_period: "prev_period H ck p = Inr q \<Longrightarrow> bip9_state H ck q s \<Longrightarrow> threshold_step H ck s p = Inr s' \<Longrightarrow>
    bip9_state H ck (Some p) s'"

inductive_simps bip9_state_None [simp]: "bip9_state H ck None s"
inductive_cases bip9_state_SomeE: "bip9_state H ck (Some p) s"

lemma bip9_state_unique: "bip9_state H ck q s \<Longrightarrow> bip9_state H ck q s' \<Longrightarrow> s = s'"
proof (induction arbitrary: s' rule: bip9_state.induct)
  case (next_period p q s t)
  from next_period.prems show ?case
    by (rule bip9_state_SomeE) (use next_period.hyps next_period.IH in auto)
qed simp

text \<open>What the code needs: a period, a start that is not after the end, a condition that can be evaluated on
  every block, and block times that are not before the median time of the block before
  (\<open>time-too-old\<close>).\<close>

definition checker_ok :: "index_heap \<Rightarrow> threshold_checker \<Rightarrow> bool" where
  "checker_ok H ck \<longleftrightarrow> 0 < Period ck \<and> BeginTime ck \<le> EndTime ck \<and> (\<forall>p b. H p = Some b \<longrightarrow> (\<exists>c. Condition ck H p = Inr c))"

definition times_ok :: "index_heap \<Rightarrow> bool" where
  "times_ok H \<longleftrightarrow> (\<forall>p b q. H p = Some b \<longrightarrow> pprev b = Some q \<longrightarrow>
     (\<exists>m. GetMedianTimePast H q = Inr m \<and> m \<le> GetBlockTime b))"

definition ends_period :: "index_heap \<Rightarrow> threshold_checker \<Rightarrow> ptr \<Rightarrow> bool" where
  "ends_period H ck p \<longleftrightarrow> (\<exists>b. H p = Some b \<and> (int (nHeight b) + 1) mod Period ck = 0)"

definition cache_valid :: "index_heap \<Rightarrow> threshold_checker \<Rightarrow> ThresholdConditionCache \<Rightarrow> bool" where
  "cache_valid H ck cache \<longleftrightarrow> (\<forall>q s. cache q = Some s \<longrightarrow> bip9_state H ck q s)"

lemma cache_validD: "cache_valid H ck cache \<Longrightarrow> cache q = Some s \<Longrightarrow> bip9_state H ck q s"
  by (simp add: cache_valid_def)

lemma cache_valid_upd: "cache_valid H ck cache \<Longrightarrow> bip9_state H ck q s \<Longrightarrow> cache_valid H ck (cache(q \<mapsto> s))"
  by (simp add: cache_valid_def)

lemma mtp_total: "tree_ok H \<Longrightarrow> H p = Some b \<Longrightarrow> \<exists>t. GetMedianTimePast H p = Inr t"
  by (simp add: GetMedianTimePast_prev)

lemma mtp_prev:
  assumes tr: "tree_ok H" and tm: "times_ok H"
  shows "H p = Some b \<Longrightarrow> nth_prev H k p = Some q \<Longrightarrow> GetMedianTimePast H p = Inr t \<Longrightarrow>
    \<exists>t'. GetMedianTimePast H q = Inr t' \<and> t' \<le> t"
proof (induction k arbitrary: p b t)
  case (Suc k)
  then obtain r where r: "pprev b = Some r" "nth_prev H k r = Some q" by (auto split: bind_split_asm)
  from tree_prev [OF tr Suc.prems(1) r(1)] obtain c where c: "H r = Some c" by blast
  from tm Suc.prems(1) r(1) obtain m where m: "GetMedianTimePast H r = Inr m" "m \<le> GetBlockTime b"
    unfolding times_ok_def by blast
  from GetMedianTimePast_mono [OF tr Suc.prems(1) r(1) m] Suc.prems(3) have "m \<le> t" by auto
  with Suc.IH [OF c r(2) m(1)] show ?case by fastforce
qed simp

lemma prev_period_eq:
  assumes "tree_ok H" "H p = Some b" "0 < Period ck"
  shows "prev_period H ck p = Inr (if int (nHeight b) < Period ck then None else nth_prev H (nat (Period ck)) p)"
proof -
  have "nHeight b - nat (int (nHeight b) - Period ck) = nat (Period ck)" if "\<not> int (nHeight b) < Period ck"
    using that assms(3) by linarith
  then show ?thesis using assms by (simp add: prev_period_def deref_def GetAncestor_prev)
qed

text \<open>The block that ends the period before one that ends a period.\<close>

lemma prev_period_cases:
  assumes tr: "tree_ok H" and P: "0 < Period ck" and p: "ends_period H ck p"
  obtains (first) "prev_period H ck p = Inr None"
    | (later) q b c where "prev_period H ck p = Inr (Some q)" "ends_period H ck q" "H p = Some b" "H q = Some c"
      "nHeight c < nHeight b" "nth_prev H (nat (Period ck)) p = Some q"
proof -
  from p obtain b where b: "H p = Some b" "(int (nHeight b) + 1) mod Period ck = 0" by (auto simp: ends_period_def)
  show thesis
  proof (cases "int (nHeight b) < Period ck")
    case True
    then show ?thesis using first prev_period_eq [OF tr b(1) P] by simp
  next
    case False
    then have "nat (Period ck) \<le> nHeight b" by linarith
    from prev_Some [OF tr b(1) this] obtain q c where q: "nth_prev H (nat (Period ck)) p = Some q" "H q = Some c"
      "nHeight c = nHeight b - nat (Period ck)" by blast
    have h: "int (nHeight c) + 1 = int (nHeight b) + 1 - Period ck" using q(3) False P by simp
    have "(int (nHeight b) + 1 - Period ck) mod Period ck = 0" using b(2) by (simp add: mod_diff_right_eq)
    then have "ends_period H ck q" unfolding ends_period_def by (intro exI [of _ c] conjI q(2)) (simp only: h)
    moreover have "nHeight c < nHeight b" using q(3) False P by linarith
    ultimately show ?thesis using later b(1) q(1,2) prev_period_eq [OF tr b(1) P] False by simp
  qed
qed

lemma count_signals_total:
  assumes tr: "tree_ok H" and ck: "checker_ok H ck"
  shows "H p = Some b \<Longrightarrow> n \<le> nHeight b + 1 \<Longrightarrow> \<exists>k. count_signals H ck n (Some p) = Inr k \<and> k \<le> n"
proof (induction n arbitrary: p b)
  case (Suc n)
  from ck Suc.prems(1) obtain c where c: "Condition ck H p = Inr c" unfolding checker_ok_def by blast
  show ?case
  proof (cases n)
    case 0
    then show ?thesis using c Suc.prems(1) by (simp add: deref_def)
  next
    case (Suc m)
    then obtain q where q: "pprev b = Some q" using tree_root [OF tr Suc.prems(1)] Suc.prems(2) by fastforce
    from tree_prev [OF tr Suc.prems(1) q] obtain d where d: "H q = Some d" "nHeight b = Suc (nHeight d)" by blast
    from Suc.IH [OF d(1)] Suc.prems(2) d(2) show ?thesis using c q Suc.prems(1) by (auto simp: deref_def)
  qed
qed simp

lemma ends_period_long:
  assumes "ends_period H ck p" "H p = Some b" "0 < Period ck"
  shows "nat (Period ck) \<le> nHeight b + 1"
proof -
  have "Period ck dvd int (nHeight b) + 1" using assms by (auto simp: ends_period_def)
  then have "Period ck \<le> int (nHeight b) + 1" by (rule zdvd_imp_le) simp
  then show ?thesis by linarith
qed

lemma threshold_step_total:
  assumes tr: "tree_ok H" and ck: "checker_ok H ck" and p: "ends_period H ck p"
  shows "\<exists>s'. threshold_step H ck s p = Inr s'"
proof -
  from p obtain b where b: "H p = Some b" by (auto simp: ends_period_def)
  have P: "0 < Period ck" using ck by (simp add: checker_ok_def)
  obtain t where t: "GetMedianTimePast H p = Inr t" using mtp_total [OF tr b] by blast
  obtain k where k: "count_signals H ck (nat (Period ck)) (Some p) = Inr k"
    using count_signals_total [OF tr ck b ends_period_long [OF p b P]] by blast
  show ?thesis using t k by (cases s) (auto simp: threshold_step_def)
qed

text \<open>Every block that ends a period has a state.\<close>

lemma bip9_state_total:
  assumes tr: "tree_ok H" and ck: "checker_ok H ck"
  shows "ends_period H ck p \<Longrightarrow> H p = Some b \<Longrightarrow> \<exists>s. bip9_state H ck (Some p) s"
proof (induction "nHeight b" arbitrary: p b rule: less_induct)
  case less
  have P: "0 < Period ck" using ck by (simp add: checker_ok_def)
  have step: "\<exists>s. bip9_state H ck (Some p) s" if "prev_period H ck p = Inr q" "bip9_state H ck q s" for q s
    using threshold_step_total [OF tr ck less.prems(1), of s] next_period [OF that] by blast
  from tr P less.prems(1) show ?case
  proof (cases rule: prev_period_cases)
    case first
    from step [OF this before_genesis] show ?thesis .
  next
    case (later q b' c)
    then have "nHeight c < nHeight b" using less.prems(2) by simp
    from less.hyps [OF this later(2,4)] obtain s where "bip9_state H ck (Some q) s" by blast
    with step [OF later(1)] show ?thesis by blast
  qed
qed

text \<open>Before the start time the state is \<open>THRESHOLD_DEFINED\<close>: the search may end there.\<close>

lemma bip9_state_before_start:
  assumes tr: "tree_ok H" and ck: "checker_ok H ck" and tm: "times_ok H"
  shows "ends_period H ck p \<Longrightarrow> H p = Some b \<Longrightarrow> GetMedianTimePast H p = Inr t \<Longrightarrow> t < BeginTime ck \<Longrightarrow>
    bip9_state H ck (Some p) THRESHOLD_DEFINED"
proof (induction "nHeight b" arbitrary: p b t rule: less_induct)
  case less
  have P: "0 < Period ck" "BeginTime ck \<le> EndTime ck" using ck by (simp_all add: checker_ok_def)
  have s: "threshold_step H ck THRESHOLD_DEFINED p = Inr THRESHOLD_DEFINED"
    using less.prems(3,4) P(2) by (simp add: threshold_step_def)
  from tr P(1) less.prems(1) show ?case
  proof (cases rule: prev_period_cases)
    case first
    from next_period [OF this before_genesis s] show ?thesis .
  next
    case (later q b' c)
    then have n: "nHeight c < nHeight b" using less.prems(2) by simp
    from mtp_prev [OF tr tm less.prems(2) later(6) less.prems(3)] obtain t' where
      "GetMedianTimePast H q = Inr t'" "t' \<le> t" by blast
    with less.hyps [OF n later(2,4), of t'] less.prems(4) have "bip9_state H ck (Some q) THRESHOLD_DEFINED" by simp
    from next_period [OF later(1) this s] show ?thesis .
  qed
qed

section \<open>The code gives the state\<close>

text \<open>The blocks that end the periods after \<open>q\<close> up to \<open>r\<close>.\<close>

fun periods_between :: "index_heap \<Rightarrow> threshold_checker \<Rightarrow> ptr option \<Rightarrow> ptr list \<Rightarrow> ptr option \<Rightarrow> bool" where
  "periods_between H ck q [] r \<longleftrightarrow> q = r"
| "periods_between H ck q (p # ps) r \<longleftrightarrow>
     prev_period H ck p = Inr q \<and> ends_period H ck p \<and> periods_between H ck (Some p) ps r"

lemma periods_between_snoc:
  "periods_between H ck q (ps @ [p]) r \<longleftrightarrow>
   (\<exists>m. periods_between H ck q ps m \<and> prev_period H ck p = Inr m \<and> ends_period H ck p \<and> r = Some p)"
  by (induction ps arbitrary: q) auto

lemma walk_forward_state:
  assumes "tree_ok H" "checker_ok H ck"
  shows "periods_between H ck q ps r \<Longrightarrow> bip9_state H ck q s \<Longrightarrow> cache_valid H ck cache \<Longrightarrow>
    \<exists>s' cache'. walk_forward H ck cache s ps = Inr (s', cache') \<and> bip9_state H ck r s' \<and> cache_valid H ck cache'"
proof (induction ps arbitrary: q s cache)
  case Nil
  then show ?case by simp
next
  case (Cons p ps)
  then have p: "prev_period H ck p = Inr q" "ends_period H ck p" "periods_between H ck (Some p) ps r" by simp_all
  obtain t where t: "threshold_step H ck s p = Inr t" using threshold_step_total [OF assms p(2)] by blast
  have st: "bip9_state H ck (Some p) t" by (rule next_period [OF p(1) Cons.prems(2) t])
  from Cons.IH [OF p(3) st cache_valid_upd [OF Cons.prems(3) st]] obtain s' cache' where
    w: "walk_forward H ck (cache(Some p \<mapsto> t)) t ps = Inr (s', cache')" "bip9_state H ck r s'" "cache_valid H ck cache'"
    by blast
  have "walk_forward H ck cache s (p # ps) = Inr (s', cache')" using t w(1) by (simp del: fun_upd_apply)
  with w(2,3) show ?case by blast
qed

lemma walk_back_found: "cache q \<noteq> None \<Longrightarrow> walk_back H ck cache q ps = Some (Inr (cache, q, ps))"
  by (subst walk_back.simps) simp

lemma walk_back_periods:
  assumes tr: "tree_ok H" and ck: "checker_ok H ck" and tm: "times_ok H" and c: "cache_valid H ck cache"
  shows "ends_period H ck p \<Longrightarrow> H p = Some b \<Longrightarrow>
    \<exists>cache' q ps'. walk_back H ck cache (Some p) ps = Some (Inr (cache', q, ps' @ ps)) \<and>
      cache_valid H ck cache' \<and> cache' q \<noteq> None \<and> periods_between H ck q ps' (Some p)"
proof (induction "nHeight b" arbitrary: p b ps rule: less_induct)
  case less
  have P: "0 < Period ck" using ck by (simp add: checker_ok_def)
  obtain t where t: "GetMedianTimePast H p = Inr t" using mtp_total [OF tr less.prems(2)] by blast
  show ?case
  proof (cases "cache (Some p) \<noteq> None \<or> t < BeginTime ck")
    case True
    show ?thesis
    proof (cases "cache (Some p) \<noteq> None")
      case True
      then show ?thesis using walk_back_found [of cache "Some p" H ck ps] c
        by (intro exI [of _ cache] exI [of _ "Some p"] exI [of _ "[]"]) simp
    next
      case False
      then have "t < BeginTime ck" using True by simp
      from cache_valid_upd [OF c bip9_state_before_start [OF tr ck tm less.prems t this]]
      have "cache_valid H ck (cache(Some p \<mapsto> THRESHOLD_DEFINED))" .
      then show ?thesis using False t \<open>t < BeginTime ck\<close>
        by (intro exI [of _ "cache(Some p \<mapsto> THRESHOLD_DEFINED)"] exI [of _ "Some p"] exI [of _ "[]"])
          (simp add: walk_back.simps [of H ck cache "Some p"])
    qed
  next
    case False
    have step: "walk_back H ck cache (Some p) ps = walk_back H ck cache q (p # ps)" if "prev_period H ck p = Inr q" for q
      using False t that by (simp add: walk_back.simps [of H ck cache "Some p"])
    from tr P less.prems(1) show ?thesis
    proof (cases rule: prev_period_cases)
      case first
      show ?thesis
      proof (cases "cache None")
        case None
        have "cache_valid H ck (cache(None \<mapsto> THRESHOLD_DEFINED))" using cache_valid_upd [OF c] by simp
        moreover have "walk_back H ck cache None (p # ps) =
            Some (Inr (cache(None \<mapsto> THRESHOLD_DEFINED), None, [p] @ ps))"
          using None by (simp add: walk_back.simps [of H ck cache None])
        moreover have "periods_between H ck None [p] (Some p)" using first less.prems(1) by simp
        ultimately show ?thesis unfolding step [OF first] by (metis fun_upd_same option.distinct(1))
      next
        case (Some s)
        have "walk_back H ck cache None (p # ps) = Some (Inr (cache, None, [p] @ ps))"
          using Some by (subst walk_back_found) simp_all
        moreover have "periods_between H ck None [p] (Some p)" using first less.prems(1) by simp
        ultimately show ?thesis unfolding step [OF first] using Some c by blast
      qed
    next
      case (later q b' d)
      then have "nHeight d < nHeight b" using less.prems(2) by simp
      from less.hyps [OF this later(2,4), of "p # ps"] obtain cache' r qs where
        w: "walk_back H ck cache (Some q) (p # ps) = Some (Inr (cache', r, qs @ p # ps))" "cache_valid H ck cache'"
        "cache' r \<noteq> None" "periods_between H ck r qs (Some q)" by blast
      have "periods_between H ck r (qs @ [p]) (Some p)"
        using w(4) later(1) less.prems(1) by (simp add: periods_between_snoc)
      moreover have "walk_back H ck cache (Some p) ps = Some (Inr (cache', r, (qs @ [p]) @ ps))"
        using w(1) step [OF later(1)] by simp
      ultimately show ?thesis using w(2,3) by blast
    qed
  qed
qed

lemma period_end_ok:
  assumes tr: "tree_ok H" and P: "0 < Period ck" and p: "H p = Some b"
  shows "\<exists>q. period_end H ck p = Inr q \<and> (case q of None \<Rightarrow> int (nHeight b) + 1 < Period ck
    | Some e \<Rightarrow> ends_period H ck e \<and> nth_prev H (nat ((int (nHeight b) + 1) mod Period ck)) p = Some e)"
proof -
  let ?m = "(int (nHeight b) + 1) mod Period ck"
  have m: "0 \<le> ?m" "?m < Period ck" "?m \<le> int (nHeight b) + 1" using P by (simp_all add: zmod_le_nonneg_dividend)
  show ?thesis
  proof (cases "?m = int (nHeight b) + 1")
    case True
    then have "period_end H ck p = Inr None" using tr p by (simp add: period_end_def deref_def GetAncestor_prev)
    moreover have "int (nHeight b) + 1 < Period ck" using m(2) True by simp
    ultimately show ?thesis by simp
  next
    case False
    then have le: "nat ?m \<le> nHeight b" using m by linarith
    from prev_Some [OF tr p le] obtain e c where e: "nth_prev H (nat ?m) p = Some e" "H e = Some c"
      "nHeight c = nHeight b - nat ?m" by blast
    have "nHeight b - nat (int (nHeight b) - ?m) = nat ?m" using m le by linarith
    then have "period_end H ck p = Inr (Some e)"
      using tr p m(1) le e(1) by (simp add: period_end_def deref_def GetAncestor_prev)
    moreover have "(int (nHeight c) + 1) mod Period ck = 0"
    proof -
      have "int (nHeight c) + 1 = int (nHeight b) + 1 - ?m" using e(3) le m(1) by simp
      also have "\<dots> = (int (nHeight b) + 1) div Period ck * Period ck" by (simp add: minus_mod_eq_div_mult)
      finally show ?thesis by simp
    qed
    ultimately show ?thesis using e by (auto simp: ends_period_def)
  qed
qed

theorem GetStateFor_state:
  assumes tr: "tree_ok H" and ck: "checker_ok H ck" and tm: "times_ok H" and c: "cache_valid H ck cache"
    and b: "BeginTime ck \<noteq> ALWAYS_ACTIVE" and p: "H p = Some e"
  shows "\<exists>q s cache'. GetStateFor H ck (Some p) cache = Some (Inr (s, cache')) \<and> period_end H ck p = Inr q \<and>
    bip9_state H ck q s \<and> cache_valid H ck cache'"
proof -
  have P: "0 < Period ck" using ck by (simp add: checker_ok_def)
  from period_end_ok [OF tr P p] obtain q where q: "period_end H ck p = Inr q" "case q of None \<Rightarrow> int (nHeight e) + 1 < Period ck
      | Some r \<Rightarrow> ends_period H ck r \<and> nth_prev H (nat ((int (nHeight e) + 1) mod Period ck)) p = Some r" by blast
  obtain cache' r ps where w: "walk_back H ck cache q [] = Some (Inr (cache', r, ps))" "cache_valid H ck cache'"
    "cache' r \<noteq> None" "periods_between H ck r ps q"
  proof (cases q)
    case None
    show thesis
    proof (cases "cache None")
      case None': None
      have "cache_valid H ck (cache(None \<mapsto> THRESHOLD_DEFINED))" using cache_valid_upd [OF c] by simp
      then show thesis using None None'
        by (intro that [of "cache(None \<mapsto> THRESHOLD_DEFINED)" None "[]"]) (simp_all add: walk_back.simps [of H ck cache None])
    next
      case (Some s)
      then show thesis using None c by (intro that [of cache None "[]"]) (simp_all add: walk_back_found)
    qed
  next
    case (Some r)
    then have r: "ends_period H ck r" using q(2) by simp
    then obtain d where "H r = Some d" unfolding ends_period_def by blast
    from walk_back_periods [OF tr ck tm c r this, of "[]"] Some that show thesis by auto
  qed
  obtain s where s: "cache' r = Some s" using w(3) by blast
  from walk_forward_state [OF tr ck w(4) cache_validD [OF w(2) s] w(2)] show ?thesis
    using b q(1) w(1) s by (auto simp: GetStateFor_def)
qed

section \<open>What the states mean\<close>

text \<open>Once the median time has passed the end, the deployment is decided.\<close>

lemma decided_after_timeout:
  assumes "bip9_state H ck (Some p) s" "GetMedianTimePast H p = Inr t" "EndTime ck \<le> t"
  shows "s = THRESHOLD_ACTIVE \<or> s = THRESHOLD_FAILED"
  using assms(1)
proof (rule bip9_state_SomeE)
  fix q s0 assume "threshold_step H ck s0 p = Inr s"
  then show ?thesis using assms(2,3) by (cases s0) (auto simp: threshold_step_def)
qed

text \<open>A decision is not revised: it holds for every later period.\<close>

lemma decided_forever:
  "periods_between H ck q ps r \<Longrightarrow> bip9_state H ck q s \<Longrightarrow> s = THRESHOLD_ACTIVE \<or> s = THRESHOLD_FAILED \<Longrightarrow>
   bip9_state H ck r s"
proof (induction ps arbitrary: q)
  case (Cons p ps)
  then have p: "prev_period H ck p = Inr q" "periods_between H ck (Some p) ps r" by simp_all
  have "threshold_step H ck s p = Inr s" using Cons.prems(3) by (auto simp: threshold_step_def)
  from Cons.IH [OF p(2) next_period [OF p(1) Cons.prems(2) this] Cons.prems(3)] show ?case .
qed simp

text \<open>Activation was signalled: some period before the end time had enough signals.\<close>

definition signalled :: "index_heap \<Rightarrow> threshold_checker \<Rightarrow> ptr \<Rightarrow> bool" where
  "signalled H ck p \<longleftrightarrow> (\<exists>t n. GetMedianTimePast H p = Inr t \<and> t < EndTime ck \<and>
     count_signals H ck (nat (Period ck)) (Some p) = Inr n \<and> Threshold ck \<le> int n)"

lemma active_was_signalled:
  "bip9_state H ck r s \<Longrightarrow> s = THRESHOLD_LOCKED_IN \<or> s = THRESHOLD_ACTIVE \<Longrightarrow>
   \<exists>q p ps. prev_period H ck p = Inr q \<and> bip9_state H ck q THRESHOLD_STARTED \<and> signalled H ck p \<and>
     bip9_state H ck (Some p) THRESHOLD_LOCKED_IN"
proof (induction rule: bip9_state.induct)
  case (next_period p q s s')
  show ?case
  proof (cases s)
    case THRESHOLD_STARTED
    then have "s' = THRESHOLD_LOCKED_IN \<and> signalled H ck p"
      using next_period.hyps(3) next_period.prems
      by (auto simp: threshold_step_def signalled_def not_le split: sum.splits if_splits)
    then show ?thesis
      using next_period.hyps THRESHOLD_STARTED bip9_state.next_period [OF next_period.hyps] by blast
  qed (use next_period in \<open>auto simp: threshold_step_def split: sum.splits if_splits\<close>)
qed simp

section \<open>The height since which a state holds\<close>

text \<open>The blocks that end the \<open>k\<close> periods before a block.\<close>

primrec back_periods :: "index_heap \<Rightarrow> threshold_checker \<Rightarrow> nat \<Rightarrow> ptr \<Rightarrow> ptr option" where
  "back_periods H ck 0 p = Some p"
| "back_periods H ck (Suc k) p =
     (case prev_period H ck p of Inr (Some q) \<Rightarrow> back_periods H ck k q | _ \<Rightarrow> None)"

text \<open>\<open>h\<close> is the first height of the run of periods with the state \<open>s\<close> that ends with \<open>p\<close>.\<close>

definition state_since :: "index_heap \<Rightarrow> threshold_checker \<Rightarrow> ThresholdState \<Rightarrow> ptr \<Rightarrow> int \<Rightarrow> bool" where
  "state_since H ck s p h \<longleftrightarrow>
     (\<exists>k r c q. back_periods H ck k p = Some r \<and> H r = Some c \<and> h = int (nHeight c) + 1 \<and>
        (\<forall>j\<le>k. \<exists>x. back_periods H ck j p = Some x \<and> bip9_state H ck (Some x) s) \<and>
        prev_period H ck r = Inr q \<and> \<not> (q \<noteq> None \<and> bip9_state H ck q s))"

lemma state_since_here:
  assumes "H p = Some b" "bip9_state H ck (Some p) s" "prev_period H ck p = Inr q" "\<not> (q \<noteq> None \<and> bip9_state H ck q s)"
  shows "state_since H ck s p (int (nHeight b) + 1)"
  unfolding state_since_def using assms by (intro exI [of _ 0] exI [of _ p]) simp

lemma state_since_step:
  assumes "bip9_state H ck (Some p) s" "prev_period H ck p = Inr (Some q)" "state_since H ck s q h"
  shows "state_since H ck s p h"
proof -
  from assms(3) obtain k r c x where k: "back_periods H ck k q = Some r" "H r = Some c" "h = int (nHeight c) + 1"
    "\<forall>j\<le>k. \<exists>x. back_periods H ck j q = Some x \<and> bip9_state H ck (Some x) s"
    "prev_period H ck r = Inr x" "\<not> (x \<noteq> None \<and> bip9_state H ck x s)"
    unfolding state_since_def by blast
  have "\<exists>x. back_periods H ck j p = Some x \<and> bip9_state H ck (Some x) s" if "j \<le> Suc k" for j
    using that k(4) assms(1,2) by (cases j) auto
  then show ?thesis unfolding state_since_def using k assms(2)
    by (intro exI [of _ "Suc k"] exI [of _ r] exI [of _ c] exI [of _ x]) simp
qed

lemma period_end_self:
  assumes tr: "tree_ok H" and p: "ends_period H ck p"
  shows "period_end H ck p = Inr (Some p)"
proof -
  from p obtain b where "H p = Some b" "(int (nHeight b) + 1) mod Period ck = 0" by (auto simp: ends_period_def)
  then show ?thesis using tr by (simp add: period_end_def deref_def GetAncestor_prev)
qed

lemma since_loop_state:
  assumes tr: "tree_ok H" and ck: "checker_ok H ck" and tm: "times_ok H" and a: "BeginTime ck \<noteq> ALWAYS_ACTIVE"
  shows "ends_period H ck p \<Longrightarrow> H p = Some b \<Longrightarrow> bip9_state H ck (Some p) s \<Longrightarrow> cache_valid H ck cache \<Longrightarrow>
    \<exists>h cache'. since_loop H ck s p cache = Some (Inr (h, cache')) \<and> state_since H ck s p h \<and> cache_valid H ck cache'"
proof (induction "nHeight b" arbitrary: p b cache rule: less_induct)
  case less
  have P: "0 < Period ck" using ck by (simp add: checker_ok_def)
  from tr P less.prems(1) show ?case
  proof (cases rule: prev_period_cases)
    case first
    then have "since_loop H ck s p cache = Some (Inr (int (nHeight b) + 1, cache))"
      using less.prems(2) by (simp add: since_loop.simps [of H ck s p] deref_def)
    moreover have "state_since H ck s p (int (nHeight b) + 1)"
      using state_since_here [OF less.prems(2,3) first] by simp
    ultimately show ?thesis using less.prems(4) by blast
  next
    case (later q b' c)
    from GetStateFor_state [OF tr ck tm less.prems(4) a later(4)] obtain s' cache' where
      g: "GetStateFor H ck (Some q) cache = Some (Inr (s', cache'))" "bip9_state H ck (Some q) s'" "cache_valid H ck cache'"
      unfolding period_end_self [OF tr later(2)] by auto
    have l: "since_loop H ck s p cache =
        (if s' = s then since_loop H ck s q cache' else Some (Inr (int (nHeight b) + 1, cache')))"
      using less.prems(2) later(1) g(1) by (simp add: since_loop.simps [of H ck s p] deref_def)
    show ?thesis
    proof (cases "s' = s")
      case True
      have n: "nHeight c < nHeight b" using later(3,5) less.prems(2) by simp
      from less.hyps [OF n later(2,4) g(2) [unfolded True] g(3)] obtain h cache'' where
        "since_loop H ck s q cache' = Some (Inr (h, cache''))" "state_since H ck s q h" "cache_valid H ck cache''" by blast
      then show ?thesis using l True state_since_step [OF less.prems(3) later(1)] by auto
    next
      case False
      then have "\<not> bip9_state H ck (Some q) s" using bip9_state_unique [OF g(2)] by blast
      then have "state_since H ck s p (int (nHeight b) + 1)"
        using state_since_here [OF less.prems(2,3) later(1)] by simp
      then show ?thesis using l False g(3) by simp
    qed
  qed
qed

theorem GetStateSinceHeightFor_since:
  assumes tr: "tree_ok H" and ck: "checker_ok H ck" and tm: "times_ok H" and a: "BeginTime ck \<noteq> ALWAYS_ACTIVE"
    and c: "cache_valid H ck cache" and p: "H p = Some e"
  shows "\<exists>h q s cache'. GetStateSinceHeightFor H ck (Some p) cache = Some (Inr (h, cache')) \<and> cache_valid H ck cache' \<and>
    period_end H ck p = Inr q \<and> bip9_state H ck q s \<and>
    (if s = THRESHOLD_DEFINED then h = 0 else \<exists>r. q = Some r \<and> state_since H ck s r h)"
proof -
  have P: "0 < Period ck" using ck by (simp add: checker_ok_def)
  from GetStateFor_state [OF tr ck tm c a p] obtain q s cache1 where
    g: "GetStateFor H ck (Some p) cache = Some (Inr (s, cache1))" "period_end H ck p = Inr q" "bip9_state H ck q s"
    "cache_valid H ck cache1" by blast
  show ?thesis
  proof (cases "s = THRESHOLD_DEFINED")
    case True
    then show ?thesis using g a by (auto simp: GetStateSinceHeightFor_def)
  next
    case False
    then obtain r where r: "q = Some r" using g(3) by (cases q) auto
    with period_end_ok [OF tr P p] g(2) have "ends_period H ck r" by simp
    moreover from this obtain d where "H r = Some d" by (auto simp: ends_period_def)
    ultimately obtain h cache2 where "since_loop H ck s r cache1 = Some (Inr (h, cache2))" "state_since H ck s r h"
      "cache_valid H ck cache2" using since_loop_state [OF tr ck tm a _ _ g(3) [unfolded r] g(4)] by blast
    then show ?thesis using False g a r by (auto simp: GetStateSinceHeightFor_def)
  qed
qed

section \<open>Statistics count the signals of the period\<close>

lemma count_down_signals:
  assumes tr: "tree_ok H" and ck: "checker_ok H ck"
  shows "H p = Some b \<Longrightarrow> h \<le> nHeight b \<Longrightarrow>
    \<exists>k. count_signals H ck (nHeight b - h) (Some p) = Inr k \<and> count_down H ck h (Some p) n = Some (Inr (n + int k))"
proof (induction "nHeight b - h" arbitrary: p b n)
  case 0
  then show ?case by (simp add: count_down.simps [of H ck h "Some p"] deref_def)
next
  case (Suc m)
  from ck Suc.prems(1) obtain c where c: "Condition ck H p = Inr c" unfolding checker_ok_def by blast
  have ne: "h \<noteq> nHeight b" using Suc.hyps(2) by auto
  obtain q where q: "pprev b = Some q" using tree_root [OF tr Suc.prems(1)] Suc.hyps(2) by fastforce
  from tree_prev [OF tr Suc.prems(1) q] obtain d where d: "H q = Some d" "nHeight b = Suc (nHeight d)" by blast
  have m: "m = nHeight d - h" "h \<le> nHeight d" using Suc.hyps(2) d(2) by simp_all
  from Suc.hyps(1) [OF m(1) d(1) m(2), of "if c then n + 1 else n"] obtain k where
    k: "count_signals H ck (nHeight d - h) (Some q) = Inr k"
    "count_down H ck h (Some q) (if c then n + 1 else n) = Some (Inr ((if c then n + 1 else n) + int k))" by blast
  have "count_signals H ck (nHeight b - h) (Some p) = Inr (if c then k + 1 else k)"
    using c q k(1) Suc.prems(1) Suc.hyps(2) m(1) by (simp add: deref_def flip: Suc.hyps(2))
  moreover have "count_down H ck h (Some p) n = count_down H ck h (Some q) (if c then n + 1 else n)"
    using c q ne Suc.prems(1) by (subst count_down.simps) (simp add: deref_def)
  ultimately show ?case using k(2) by auto
qed

theorem GetStateStatisticsFor_period:
  assumes tr: "tree_ok H" and ck: "checker_ok H ck" and p: "H p = Some b"
  shows "if int (nHeight b) + 1 < Period ck then GetStateStatisticsFor H ck (Some p) = Some (Inl Bad_pointer)
    else \<exists>k. count_signals H ck (nat ((int (nHeight b) + 1) mod Period ck)) (Some p) = Inr k \<and>
      GetStateStatisticsFor H ck (Some p) = Some (Inr \<lparr>st_period = Period ck, st_threshold = Threshold ck,
        st_elapsed = (int (nHeight b) + 1) mod Period ck, st_count = int k,
        st_possible = ((int (nHeight b) + 1) mod Period ck - int k \<le> Period ck - Threshold ck)\<rparr>)"
proof -
  have P: "0 < Period ck" using ck by (simp add: checker_ok_def)
  let ?m = "(int (nHeight b) + 1) mod Period ck"
  from period_end_ok [OF tr P p] obtain q where q: "period_end H ck p = Inr q" "case q of None \<Rightarrow> int (nHeight b) + 1 < Period ck
      | Some r \<Rightarrow> ends_period H ck r \<and> nth_prev H (nat ?m) p = Some r" by blast
  show ?thesis
  proof (cases q)
    case None
    then show ?thesis using q p by (simp add: GetStateStatisticsFor_def deref_def)
  next
    case (Some r)
    then have r: "ends_period H ck r" "nth_prev H (nat ?m) p = Some r" using q(2) by simp_all
    from prev_height [OF tr p r(2)] obtain c where c: "H r = Some c" "nHeight c = nHeight b - nat ?m" "nat ?m \<le> nHeight b" by blast
    have "0 \<le> ?m" using P by simp
    then have m: "int (nHeight b) - int (nHeight c) = ?m" "nHeight b - nHeight c = nat ?m" using c(2,3) by linarith+
    have "nHeight c \<le> nHeight b" using c(2) by simp
    from count_down_signals [OF tr ck p this, of 0] obtain k where
      k: "count_signals H ck (nat ?m) (Some p) = Inr k" "count_down H ck (nHeight c) (Some p) 0 = Some (Inr (int k))"
      unfolding m(2) by auto
    have "\<not> int (nHeight b) + 1 < Period ck"
      using ends_period_long [OF r(1) c(1) P] c(2) by linarith
    then show ?thesis using k q(1) Some p c(1) m(1) by (simp add: GetStateStatisticsFor_def deref_def Let_def)
  qed
qed

section \<open>The checker of the version bits\<close>

lemma VersionBits_checker_ok:
  assumes "0 < sint (nMinerConfirmationWindow params)"
    "nStartTime (vDeployments params ! pos) \<le> nTimeout (vDeployments params ! pos)"
  shows "checker_ok H (VersionBitsConditionChecker params pos)"
  using assms by (simp add: checker_ok_def VersionBitsConditionChecker_def deref_def)

text \<open>A block signals the deployment while it is started or locked in.\<close>

lemma ComputeBlockVersion_one:
  assumes "length (vDeployments params) = 1" "VersionBitsState H q params 0 caches = Some (Inr (s, caches'))"
  shows "ComputeBlockVersion H q params caches =
    Some (Inr (if s = THRESHOLD_LOCKED_IN \<or> s = THRESHOLD_STARTED then VERSIONBITS_TOP_BITS OR VersionBitsMask params 0
      else VERSIONBITS_TOP_BITS, caches'))"
  using assms by (simp add: ComputeBlockVersion_def upt_rec)

end
