(* ===== verification/BlockCheck.thy ===== *)
theory BlockCheck imports BlockUndo Merkle VersionBits
begin

text \<open>
  The checks of a block that need no coins, \<^verbatim>\<open>src/src/validation.cpp\<close>: \<open>CheckBlockHeader\<close>, \<open>CheckBlock\<close> with
  the authorization by the coinbase script, \<open>ContextualCheckBlockHeader\<close>, \<open>ContextualCheckBlock\<close>, and the
  commitment to the witnesses that a miner generates.  The theorems say which blocks pass, that a generated
  commitment passes, and that the height in the coinbase keeps coinbase transactions of different heights
  apart, which is why the code has no check for overwritten transactions.
\<close>

unbundle bit_operations_syntax

section \<open>Headers\<close>

text \<open>The signature library, the double hash and the equihash verifier.\<close>

record block_env =
  be_ed :: ed25519_env
  be_verify_pubkey :: "bytes \<Rightarrow> bool"
  be_hash :: "bytes \<Rightarrow> bytes"
  CheckEquihashSolution :: "CBlockHeader \<Rightarrow> bool"

definition reject_corrupt :: "int \<Rightarrow> string \<Rightarrow> reject" where
  "reject_corrupt level reason = (reject level reason)\<lparr>rj_corruption := True\<rparr>"

definition CheckBlockHeader :: "block_env \<Rightarrow> Consensus_Params \<Rightarrow> CBlock \<Rightarrow> bool \<Rightarrow> reject + unit" where
  "CheckBlockHeader env params block fCheckPOW =
     (if fCheckPOW \<and> \<not> CheckEquihashSolution env (GetBlockHeader block) then Inl (reject 100 ''invalid-solution'')
      else if fCheckPOW \<and> \<not> CheckProofOfWork (BlockHeader_GetHash (be_hash env) (GetBlockHeader block)) (nBits block) params
        then Inl (reject 50 ''high-hash'')
      else Inr ())"

section \<open>Blocks\<close>

definition MAX_BLOCK_SIGOPS_COST :: nat where "MAX_BLOCK_SIGOPS_COST = 80000"

text \<open>The check of the merkle root, of the size and of the form.\<close>

definition check_merkle_root :: "(bytes \<Rightarrow> bytes) \<Rightarrow> CBlock \<Rightarrow> reject + unit" where
  "check_merkle_root h block =
     (let (hashMerkleRoot2, mut) = BlockMerkleRoot h block in
      if hashMerkleRoot block \<noteq> hashMerkleRoot2 then Inl (reject_corrupt 100 ''bad-txnmrklroot'')
      else if mut then Inl (reject_corrupt 100 ''bad-txns-duplicate'')
      else Inr ())"

definition check_form :: "CBlock \<Rightarrow> reject + unit" where
  "check_form block =
     (if vtx block = [] \<or> MAX_BLOCK_WEIGHT < length (vtx block) * WITNESS_SCALE_FACTOR \<or>
         MAX_BLOCK_WEIGHT < length (Serialize_CBlock False block) * WITNESS_SCALE_FACTOR
      then Inl (reject 100 ''bad-blk-length'')
      else if vtx block = [] \<or> \<not> IsCoinBase (vtx block ! 0) then Inl (reject 100 ''bad-cb-missing'')
      else if list_ex IsCoinBase (tl (vtx block)) then Inl (reject 100 ''bad-cb-multiple'')
      else Inr ())"

text \<open>The authorization: the signature that follows height and time in the coinbase script.\<close>

definition check_authorization ::
  "block_env \<Rightarrow> Consensus_Params \<Rightarrow> index_heap \<Rightarrow> CChain \<Rightarrow> CBlock \<Rightarrow> bool \<Rightarrow> tx_error + unit" where
  "check_authorization env params H chainActive block fCheckPOW =
     bind_sum (case Tip chainActive of None \<Rightarrow> Inr None
         | Some p \<Rightarrow> bind_sum (lift_fault (deref H p)) (\<lambda>chainIndex.
             if authorizationForkHeight params \<le> 0 \<or> int (nHeight chainIndex) + 1 < authorizationForkHeight params
             then Inr None else Inr (Some chainIndex))) (\<lambda>checkAuth.
       case checkAuth of None \<Rightarrow> Inr ()
       | Some chainIndex \<Rightarrow>
           if be_verify_pubkey env (authorizationKey params) \<and> fCheckPOW then
             let coinbase = vtx block ! 0; sig = scriptSig (tx_vin coinbase ! 0) in
             if length sig < 65 then Inl (Rejected (reject 100 ''bad-coinbase-scriptsig''))
             else let nHeightScript = push_int64 [] (int (nHeight chainIndex) + 1);
                      nTimeScript = push_int64 [] (uint (nTime block));
                      pc = drop (length nHeightScript + length nTimeScript) sig in
               (case GetOp pc of None \<Rightarrow> Inl (Rejected (reject 100 ''bad-coinbase-scriptsig''))
                | Some (opcode, sig, _) \<Rightarrow>
                    if opcode \<noteq> 64 then Inl (Rejected (reject 100 ''bad-coinbase-scriptsig''))
                    else let hash = uint256_of (be_hash env (concat (map Serialize_CTxOut (tx_vout coinbase)))) in
                      if \<not> CPubKey_Verify (be_ed env) (authorizationKey params) hash sig
                      then Inl (Rejected (reject 100 ''bad-coinbase-scriptsig''))
                      else Inr ())
           else Inr ())"

fun check_transactions :: "CTransaction list \<Rightarrow> reject + unit" where
  "check_transactions [] = Inr ()"
| "check_transactions (tx # txs) = bind_sum (CheckTransaction tx False) (\<lambda>_. check_transactions txs)"

text \<open>The sum is kept in an \<open>unsigned int\<close>, and so is its product with the scale factor.\<close>

definition check_sigops :: "CBlock \<Rightarrow> reject + unit" where
  "check_sigops block =
     (let nSigOps = sum_list (map GetLegacySigOpCount (vtx block)) mod 2 ^ 32 in
      if MAX_BLOCK_SIGOPS_COST < nSigOps * WITNESS_SCALE_FACTOR mod 2 ^ 32 then Inl (reject 100 ''bad-blk-sigops'')
      else Inr ())"

definition lift_reject :: "reject + 'a \<Rightarrow> tx_error + 'a" where
  "lift_reject r = (case r of Inl e \<Rightarrow> Inl (Rejected e) | Inr x \<Rightarrow> Inr x)"

text \<open>With the new value of the flag \<open>fChecked\<close> of the block.\<close>

definition CheckBlock ::
  "block_env \<Rightarrow> Consensus_Params \<Rightarrow> index_heap \<Rightarrow> CChain \<Rightarrow> CBlock \<Rightarrow> bool \<Rightarrow> bool \<Rightarrow> bool \<Rightarrow> (tx_error + unit) \<times> bool" where
  "CheckBlock env params H chainActive block fChecked fCheckPOW fCheckMerkleRoot =
     (if fChecked then (Inr (), True)
      else case
        bind_sum (lift_reject (CheckBlockHeader env params block fCheckPOW)) (\<lambda>_.
        bind_sum (if fCheckMerkleRoot then lift_reject (check_merkle_root (be_hash env) block) else Inr ()) (\<lambda>_.
        bind_sum (lift_reject (check_form block)) (\<lambda>_.
        bind_sum (check_authorization env params H chainActive block fCheckPOW) (\<lambda>_.
        bind_sum (lift_reject (check_transactions (vtx block))) (\<lambda>_.
          lift_reject (check_sigops block)))))) of
        Inl e \<Rightarrow> (Inl e, fChecked)
      | Inr _ \<Rightarrow> (Inr (), fCheckPOW \<and> fCheckMerkleRoot))"

section \<open>The commitment to the witnesses\<close>

definition commitment_header :: bytes where
  "commitment_header = [OP_RETURN, 0x24, 0xaa, 0x21, 0xa9, 0xed]"

definition is_commitment :: "CTxOut \<Rightarrow> bool" where
  "is_commitment out \<longleftrightarrow> 38 \<le> length (scriptPubKey out) \<and> take 6 (scriptPubKey out) = commitment_header"

text \<open>The last output that is one, from the \<open>o\<close>-th; \<open>None\<close> is -1.\<close>

fun commitment_from :: "nat \<Rightarrow> CTxOut list \<Rightarrow> nat option \<Rightarrow> nat option" where
  "commitment_from i [] commitpos = commitpos"
| "commitment_from i (out # vout) commitpos = commitment_from (i + 1) vout (if is_commitment out then Some i else commitpos)"

definition GetWitnessCommitmentIndex :: "CBlock \<Rightarrow> nat option" where
  "GetWitnessCommitmentIndex block =
     (if vtx block = [] then None else commitment_from 0 (tx_vout (vtx block ! 0)) None)"

definition zero_nonce :: bytes where "zero_nonce = replicate 32 0"

definition UpdateUncommittedBlockStructures :: "CBlock \<Rightarrow> CBlock" where
  "UpdateUncommittedBlockStructures block =
     (if GetWitnessCommitmentIndex block \<noteq> None \<and> \<not> HasWitness (vtx block ! 0) then
        let tx = vtx block ! 0; tx = tx\<lparr>tx_vin := (tx_vin tx)[0 := (tx_vin tx ! 0)\<lparr>scriptWitness := [zero_nonce]\<rparr>]\<rparr> in
        block\<lparr>vtx := (vtx block)[0 := tx]\<rparr>
      else block)"

definition witness_commitment :: "(bytes \<Rightarrow> bytes) \<Rightarrow> uint256 \<Rightarrow> bytes \<Rightarrow> uint256" where
  "witness_commitment h witnessroot nonce = uint256_of (h (uint256_bytes witnessroot @ nonce))"

text \<open>The commitment that was added, empty when there was one; \<open>None\<close>: a block without a transaction.\<close>

definition GenerateCoinbaseCommitment :: "(bytes \<Rightarrow> bytes) \<Rightarrow> CBlock \<Rightarrow> (CBlock \<times> bytes) option" where
  "GenerateCoinbaseCommitment h block =
     (if GetWitnessCommitmentIndex block = None then
        Option.bind (BlockWitnessMerkleRoot h block) (\<lambda>(witnessroot, _).
          let out = \<lparr>nValue = 0,
                scriptPubKey = commitment_header @ uint256_bytes (witness_commitment h witnessroot zero_nonce)\<rparr>;
              tx = vtx block ! 0
          in Some (UpdateUncommittedBlockStructures (block\<lparr>vtx := (vtx block)[0 := tx\<lparr>tx_vout := tx_vout tx @ [out]\<rparr>]\<rparr>),
               scriptPubKey out))
      else Some (UpdateUncommittedBlockStructures block, []))"

section \<open>Checks in the context of the previous block\<close>

definition MAX_FUTURE_BLOCK_TIME :: int where "MAX_FUTURE_BLOCK_TIME = 2 * 60 * 60"

text \<open>\<open>mapBlockIndex\<close> finds an entry by its hash; the checkpoints are heights and hashes in ascending order.\<close>

type_synonym BlockMap = "uint256 \<rightharpoonup> ptr"

definition GetLastCheckpoint :: "BlockMap \<Rightarrow> (int \<times> uint256) list \<Rightarrow> ptr option" where
  "GetLastCheckpoint mapBlockIndex checkpoints =
     (case filter (\<lambda>(_, hash). mapBlockIndex hash \<noteq> None) (rev checkpoints) of
        [] \<Rightarrow> None | (_, hash) # _ \<Rightarrow> mapBlockIndex hash)"

text \<open>\<open>None\<close>: the computation of the next work does not end.  The test of \<open>nBits\<close> is an inequality.\<close>

definition ContextualCheckBlockHeader ::
  "'n uint512_ops \<Rightarrow> Consensus_Params \<Rightarrow> (int \<times> uint256) list option \<Rightarrow> BlockMap \<Rightarrow> index_heap \<Rightarrow> CBlockHeader \<Rightarrow>
   ptr option \<Rightarrow> int \<Rightarrow> (tx_error + unit) option" where
  "ContextualCheckBlockHeader ops params checkpoints mapBlockIndex H block pindexPrev nAdjustedTime =
     (case pindexPrev of None \<Rightarrow> Some (Inl (Fault Assert_fails))
      | Some p \<Rightarrow> Option.bind (GetNextWorkRequired ops H params pindexPrev block) (\<lambda>required. Some (
          bind_sum (lift_fault (deref H p)) (\<lambda>prev.
          bind_sum (lift_fault required) (\<lambda>required.
            if required < nBits block then Inl (Rejected (reject 100 ''bad-diffbits''))
            else bind_sum
              (case Option.bind checkpoints (GetLastCheckpoint mapBlockIndex) of None \<Rightarrow> Inr ()
               | Some c \<Rightarrow> bind_sum (lift_fault (deref H c)) (\<lambda>pcheckpoint.
                   if nHeight prev + 1 < nHeight pcheckpoint
                   then Inl (Rejected ((reject 100 ''bad-fork-prior-to-checkpoint'')\<lparr>rj_code := 0x43\<rparr>))
                   else Inr ())) (\<lambda>_.
            bind_sum (lift_fault (GetMedianTimePast H p)) (\<lambda>past.
              if uint (nTime block) \<le> past then Inl (Rejected (reject 0 ''time-too-old''))
              else if nAdjustedTime + MAX_FUTURE_BLOCK_TIME < uint (nTime block)
                then Inl (Rejected (reject 0 ''time-too-new''))
              else Inr ())))))))"

text \<open>The commitment is compared with the 32 bytes behind its header.\<close>

definition check_witness_commitment :: "(bytes \<Rightarrow> bytes) \<Rightarrow> CBlock \<Rightarrow> tx_error + unit" where
  "check_witness_commitment h block =
     (case GetWitnessCommitmentIndex block of
        Some commitpos \<Rightarrow>
          (case BlockWitnessMerkleRoot h block of None \<Rightarrow> Inl (Fault Bad_pointer)
           | Some (hashWitness, _) \<Rightarrow>
               let stack = scriptWitness (tx_vin (vtx block ! 0) ! 0) in
               if length stack \<noteq> 1 \<or> length (stack ! 0) \<noteq> 32
                 then Inl (Rejected (reject_corrupt 100 ''bad-witness-nonce-size''))
               else if uint256_bytes (witness_commitment h hashWitness (stack ! 0)) \<noteq>
                   take 32 (drop 6 (scriptPubKey (tx_vout (vtx block ! 0) ! commitpos)))
                 then Inl (Rejected (reject_corrupt 100 ''bad-witness-merkle-match''))
               else Inr ())
      | None \<Rightarrow>
          if list_ex HasWitness (vtx block) then Inl (Rejected (reject_corrupt 100 ''unexpected-witness'')) else Inr ())"

definition ContextualCheckBlock ::
  "(bytes \<Rightarrow> bytes) \<Rightarrow> index_heap \<Rightarrow> CBlock \<Rightarrow> ptr option \<Rightarrow> tx_error + unit" where
  "ContextualCheckBlock h H block pindexPrev =
     (case pindexPrev of None \<Rightarrow> Inl (Fault Bad_pointer)
      | Some p \<Rightarrow> bind_sum (lift_fault (deref H p)) (\<lambda>prev. bind_sum (lift_fault (GetMedianTimePast H p)) (\<lambda>nLockTimeCutoff.
          let height = int (nHeight prev) + 1; expect = push_int64 [] height;
              sig = scriptSig (tx_vin (vtx block ! 0) ! 0) in
          if \<not> list_all (\<lambda>tx. IsFinalTx tx height nLockTimeCutoff) (vtx block)
            then Inl (Rejected (reject 10 ''bad-txns-nonfinal''))
          else if length sig < length expect \<or> take (length expect) sig \<noteq> expect
            then Inl (Rejected (reject 100 ''bad-cb-height''))
          else bind_sum (check_witness_commitment h block) (\<lambda>_.
            if MAX_BLOCK_WEIGHT < GetBlockWeight block then Inl (Rejected (reject 100 ''bad-blk-weight''))
            else Inr ()))))"

section \<open>Which blocks pass\<close>

lemma length_concat_bound:
  "(\<And>x. x \<in> set xs \<Longrightarrow> f x \<le> k * length (g x)) \<Longrightarrow> sum_list (map f xs) \<le> k * length (concat (map g xs))"
proof (induction xs)
  case (Cons a xs)
  then have "f a \<le> k * length (g a)" "sum_list (map f xs) \<le> k * length (concat (map g xs))" by auto
  then show ?case by (simp add: algebra_simps)
qed simp

lemma GetLegacySigOpCount_bound:
  "GetLegacySigOpCount tx \<le> MAX_PUBKEYS_PER_MULTISIG * length (SerializeTransaction False tx)"
proof -
  have "sum_list (map (\<lambda>i. GetSigOpCount (scriptSig i) False) (tx_vin tx))
      \<le> MAX_PUBKEYS_PER_MULTISIG * length (concat (map Serialize_CTxIn (tx_vin tx)))"
    by (rule length_concat_bound, rule order_trans [OF GetSigOpCount_bound])
      (simp add: Serialize_CTxIn_def Serialize_bytes_def)
  moreover have "sum_list (map (\<lambda>out. GetSigOpCount (scriptPubKey out) False) (tx_vout tx))
      \<le> MAX_PUBKEYS_PER_MULTISIG * length (concat (map Serialize_CTxOut (tx_vout tx)))"
    by (rule length_concat_bound, rule order_trans [OF GetSigOpCount_bound])
      (simp add: Serialize_CTxOut_def Serialize_bytes_def)
  ultimately show ?thesis
    by (simp add: GetLegacySigOpCount_def SerializeTransaction_def Let_def Serialize_vector_def algebra_simps)
qed

lemma block_sigops_bound:
  "sum_list (map GetLegacySigOpCount (vtx block)) \<le> MAX_PUBKEYS_PER_MULTISIG * length (Serialize_CBlock False block)"
proof -
  have "sum_list (map GetLegacySigOpCount (vtx block))
      \<le> MAX_PUBKEYS_PER_MULTISIG * length (concat (map (SerializeTransaction False) (vtx block)))"
    by (rule length_concat_bound) (rule GetLegacySigOpCount_bound)
  then show ?thesis by (simp add: Serialize_CBlock_def Serialize_vector_def algebra_simps)
qed

text \<open>In a block of the allowed size neither the count nor its product wraps.\<close>

lemma check_sigops_iff:
  assumes "length (Serialize_CBlock False block) * WITNESS_SCALE_FACTOR \<le> MAX_BLOCK_WEIGHT"
  shows "check_sigops block = Inr () \<longleftrightarrow>
    sum_list (map GetLegacySigOpCount (vtx block)) * WITNESS_SCALE_FACTOR \<le> MAX_BLOCK_SIGOPS_COST"
proof -
  have "length (Serialize_CBlock False block) \<le> 8000000"
    using assms by (simp add: WITNESS_SCALE_FACTOR_def MAX_BLOCK_WEIGHT_def)
  then have "sum_list (map GetLegacySigOpCount (vtx block)) \<le> 160000000"
    using block_sigops_bound [of block] by (simp add: MAX_PUBKEYS_PER_MULTISIG_def)
  then show ?thesis
    by (auto simp: check_sigops_def Let_def WITNESS_SCALE_FACTOR_def MAX_BLOCK_SIGOPS_COST_def mod_less)
qed

lemma check_transactions_iff: "check_transactions txs = Inr () \<longleftrightarrow> (\<forall>tx\<in>set txs. CheckTransaction tx False = Inr ())"
  by (induction txs) (auto split: sum.splits)

lemma lift_reject_ok [simp]: "lift_reject r = Inr x \<longleftrightarrow> r = Inr x"
  by (auto simp: lift_reject_def split: sum.splits)

lemma bind_sum_ok: "bind_sum m f = Inr y \<longleftrightarrow> (\<exists>x. m = Inr x \<and> f x = Inr y)"
  by (auto split: sum.splits)

lemma CheckBlockHeader_iff:
  "CheckBlockHeader env params block pow = Inr () \<longleftrightarrow> (pow \<longrightarrow> CheckEquihashSolution env (GetBlockHeader block) \<and>
     CheckProofOfWork (BlockHeader_GetHash (be_hash env) (GetBlockHeader block)) (nBits block) params)"
  by (auto simp: CheckBlockHeader_def)

lemma check_merkle_root_iff:
  "check_merkle_root h block = Inr () \<longleftrightarrow> BlockMerkleRoot h block = (hashMerkleRoot block, False)"
  by (auto simp: check_merkle_root_def split: prod.splits)

lemma check_form_iff:
  "check_form block = Inr () \<longleftrightarrow> (\<exists>cb txs. vtx block = cb # txs \<and> IsCoinBase cb \<and> (\<forall>tx\<in>set txs. \<not> IsCoinBase tx)) \<and>
     length (vtx block) * WITNESS_SCALE_FACTOR \<le> MAX_BLOCK_WEIGHT \<and>
     length (Serialize_CBlock False block) * WITNESS_SCALE_FACTOR \<le> MAX_BLOCK_WEIGHT"
  by (cases "vtx block") (auto simp: check_form_def list_ex_iff)

theorem CheckBlock_iff:
  "CheckBlock env params H C block False pow merkle = (Inr (), pow \<and> merkle) \<longleftrightarrow>
     (pow \<longrightarrow> CheckEquihashSolution env (GetBlockHeader block) \<and>
       CheckProofOfWork (BlockHeader_GetHash (be_hash env) (GetBlockHeader block)) (nBits block) params) \<and>
     (merkle \<longrightarrow> BlockMerkleRoot (be_hash env) block = (hashMerkleRoot block, False)) \<and>
     (\<exists>cb txs. vtx block = cb # txs \<and> IsCoinBase cb \<and> (\<forall>tx\<in>set txs. \<not> IsCoinBase tx)) \<and>
     length (vtx block) * WITNESS_SCALE_FACTOR \<le> MAX_BLOCK_WEIGHT \<and>
     length (Serialize_CBlock False block) * WITNESS_SCALE_FACTOR \<le> MAX_BLOCK_WEIGHT \<and>
     check_authorization env params H C block pow = Inr () \<and>
     (\<forall>tx\<in>set (vtx block). CheckTransaction tx False = Inr ()) \<and>
     sum_list (map GetLegacySigOpCount (vtx block)) * WITNESS_SCALE_FACTOR \<le> MAX_BLOCK_SIGOPS_COST"
  (is "?l \<longleftrightarrow> ?p \<and> ?m \<and> ?f \<and> ?n \<and> ?s \<and> ?a \<and> ?t \<and> ?o")
proof -
  have "?l \<longleftrightarrow> ?p \<and> ?m \<and> (?f \<and> ?n \<and> ?s) \<and> ?a \<and> ?t \<and> check_sigops block = Inr ()"
    unfolding CheckBlock_def CheckBlockHeader_iff [symmetric] check_form_iff [symmetric]
      check_merkle_root_iff [symmetric] check_transactions_iff [symmetric]
    by (auto simp: lift_reject_def split: sum.splits)
  then show ?thesis using check_sigops_iff by auto
qed

text \<open>The flag only ever skips a check that passed.\<close>

lemma CheckBlock_flag:
  "snd (CheckBlock env params H C block fChecked pow merkle) \<longleftrightarrow>
     fChecked \<or> pow \<and> merkle \<and> fst (CheckBlock env params H C block fChecked pow merkle) = Inr ()"
  by (auto simp: CheckBlock_def split: sum.splits)

section \<open>The generated commitment passes\<close>

lemma commitment_from_append:
  "commitment_from i (vout @ [out]) c = (if is_commitment out then Some (i + length vout) else commitment_from i vout c)"
  by (induction vout arbitrary: i c) auto

lemma generated_is_commitment: "is_commitment \<lparr>nValue = v, scriptPubKey = commitment_header @ uint256_bytes w\<rparr>"
  by (simp add: is_commitment_def commitment_header_def)

theorem generated_commitment:
  assumes "vtx block = cb # txs" and "tx_vin cb \<noteq> []" and "\<not> HasWitness cb" and "GetWitnessCommitmentIndex block = None"
  shows "\<exists>block' c. GenerateCoinbaseCommitment h block = Some (block', c) \<and> tl (vtx block') = txs \<and>
    GetBlockHeader block' = GetBlockHeader block \<and> check_witness_commitment h block' = Inr ()"
proof -
  obtain i vin where vin: "tx_vin cb = i # vin" using assms(2) by (cases "tx_vin cb") auto
  obtain root mut where m: "ComputeMerkleRoot (hash_pair h) (0 # map (GetWitnessHash h) txs) = (root, mut)"
    by (rule prod.exhaust)
  define out where "out = \<lparr>nValue = 0, scriptPubKey = commitment_header @ uint256_bytes (witness_commitment h root zero_nonce)\<rparr>"
  have r: "BlockWitnessMerkleRoot h b = Some (root, mut)" if "vtx b = c # txs" for b c
    unfolding BlockWitnessMerkleRoot_def that by (simp only: list.case m)
  define cb1 where "cb1 = cb\<lparr>tx_vout := tx_vout cb @ [out]\<rparr>"
  define cb2 where "cb2 = cb1\<lparr>tx_vin := (i\<lparr>scriptWitness := [zero_nonce]\<rparr>) # vin\<rparr>"
  have com: "is_commitment out" unfolding out_def by (rule generated_is_commitment)
  have idx: "GetWitnessCommitmentIndex b = Some (length (tx_vout cb))" if "vtx b = c # txs" "tx_vout c = tx_vout cb @ [out]" for b c
    using that com by (simp add: GetWitnessCommitmentIndex_def commitment_from_append)
  have nw: "\<not> HasWitness cb1" using assms(3) by (simp add: HasWitness_def cb1_def)
  have g: "GenerateCoinbaseCommitment h block =
      Some (UpdateUncommittedBlockStructures (block\<lparr>vtx := cb1 # txs\<rparr>), scriptPubKey out)"
    using assms(4) r [OF assms(1)]
    by (simp add: GenerateCoinbaseCommitment_def cb1_def out_def assms(1) Let_def)
  have u: "UpdateUncommittedBlockStructures (block\<lparr>vtx := cb1 # txs\<rparr>) = block\<lparr>vtx := cb2 # txs\<rparr>"
    using idx [of "block\<lparr>vtx := cb1 # txs\<rparr>" cb1] nw vin
    by (simp add: UpdateUncommittedBlockStructures_def Let_def cb1_def cb2_def)
  have o2: "tx_vout cb2 ! length (tx_vout cb) = out" "tx_vout cb2 = tx_vout cb @ [out]" by (simp_all add: cb2_def cb1_def)
  have s2: "scriptWitness (tx_vin cb2 ! 0) = [zero_nonce]" by (simp add: cb2_def)
  have c: "take 32 (drop 6 (scriptPubKey out)) = uint256_bytes (witness_commitment h root zero_nonce)"
    by (simp add: out_def commitment_header_def)
  have z: "length zero_nonce = 32" by (simp add: zero_nonce_def)
  have "check_witness_commitment h (block\<lparr>vtx := cb2 # txs\<rparr>) = Inr ()"
    using idx [of "block\<lparr>vtx := cb2 # txs\<rparr>" cb2, OF _ o2(2)] r [of "block\<lparr>vtx := cb2 # txs\<rparr>" cb2]
    by (simp add: check_witness_commitment_def o2(1) s2 z c)
  then show ?thesis using g u by (simp add: GetBlockHeader_def)
qed

section \<open>The height in the coinbase\<close>

lemma GetOp_push_int64:
  assumes "0 \<le> n" and "n < 2 ^ 63"
  shows "\<exists>opcode b. GetOp (push_int64 [] n @ s) = Some (opcode, b, s) \<and>
    n = (if OP_1 \<le> opcode then uint opcode - 80 else CScriptNum_set_vch b)"
proof -
  consider "n = 0" | "1 \<le> n \<and> n \<le> 16" | "16 < n" using assms(1) by linarith
  then show ?thesis
  proof cases
    case 1
    then show ?thesis by (simp add: push_int64_def GetOp_def GetOp2_def CScriptNum_set_vch_def)
  next
    case 2
    then have u: "uint (word_of_int (n + 80) :: byte) = n + 80" by (simp only: uint_word_of_int) simp
    then have "OP_1 \<le> (word_of_int (n + 80) :: byte)" "\<not> (word_of_int (n + 80) :: byte) \<le> OP_PUSHDATA4"
      using 2 by (simp_all add: word_le_def)
    then show ?thesis using 2 u by (auto simp: push_int64_def GetOp_def GetOp2_def)
  next
    case 3
    have "length (CScriptNum_serialize n) \<le> 8" using length_serialize_le [of 8 n] assms by simp
    then obtain opcode where "GetOp (push_data [] (CScriptNum_serialize n) @ s) = Some (opcode, CScriptNum_serialize n, s)"
        "opcode \<le> OP_PUSHDATA4"
      using GetOp_push_data [of "CScriptNum_serialize n" s] by auto
    moreover have "\<not> OP_1 \<le> opcode" using \<open>opcode \<le> OP_PUSHDATA4\<close> by (auto dest: order_trans)
    ultimately show ?thesis using 3 assms set_vch_serialize [of n] by (simp add: push_int64_def)
  qed
qed

lemma push_int64_prefix:
  assumes "0 \<le> m" "m < 2 ^ 63" "0 \<le> n" "n < 2 ^ 63" and "push_int64 [] m @ s = push_int64 [] n @ t"
  shows "m = n"
  using GetOp_push_int64 [OF assms(1,2), of s] GetOp_push_int64 [OF assms(3,4), of t] assms(5) by auto

lemma ContextualCheckBlock_height:
  assumes "ContextualCheckBlock h H block (Some p) = Inr ()" and "H p = Some i"
  shows "\<exists>s. scriptSig (tx_vin (vtx block ! 0) ! 0) = push_int64 [] (int (nHeight i) + 1) @ s"
proof -
  let ?e = "push_int64 [] (int (nHeight i) + 1)" and ?s = "scriptSig (tx_vin (vtx block ! 0) ! 0)"
  have "take (length ?e) ?s = ?e"
    using assms by (auto simp: ContextualCheckBlock_def deref_def lift_fault_def Let_def split: sum.splits if_splits)
  then have "?s = ?e @ drop (length ?e) ?s" by (metis append_take_drop_id)
  then show ?thesis by blast
qed

theorem coinbase_heights_differ:
  assumes "ContextualCheckBlock h H block (Some p) = Inr ()" and "ContextualCheckBlock h H' block' (Some p') = Inr ()"
    and "H p = Some i" and "H' p' = Some i'" and "nHeight i \<noteq> nHeight i'"
    and "nHeight i < 2 ^ 31" and "nHeight i' < 2 ^ 31"
  shows "scriptSig (tx_vin (vtx block ! 0) ! 0) \<noteq> scriptSig (tx_vin (vtx block' ! 0) ! 0)"
proof
  assume e: "scriptSig (tx_vin (vtx block ! 0) ! 0) = scriptSig (tx_vin (vtx block' ! 0) ! 0)"
  obtain s t where "push_int64 [] (int (nHeight i) + 1) @ s = push_int64 [] (int (nHeight i') + 1) @ t"
    using ContextualCheckBlock_height [OF assms(1,3)] ContextualCheckBlock_height [OF assms(2,4)] e by metis
  then have "int (nHeight i) + 1 = int (nHeight i') + 1" by (rule push_int64_prefix [rotated 4]) (use assms(6,7) in simp_all)
  then show False using assms(5) by simp
qed

text \<open>So the coinbase transactions of two heights have the same id only when the hash collides.\<close>

theorem coinbase_ids_differ:
  assumes "ContextualCheckBlock h H block (Some p) = Inr ()" and "ContextualCheckBlock h H' block' (Some p') = Inr ()"
    and "H p = Some i" and "H' p' = Some i'" and "nHeight i \<noteq> nHeight i'"
    and "nHeight i < 2 ^ 31" and "nHeight i' < 2 ^ 31"
    and "tx_ok (vtx block ! 0)" and "tx_ok (vtx block' ! 0)" and "IsCoinBase (vtx block ! 0)" and "IsCoinBase (vtx block' ! 0)"
    and "GetHash h (vtx block ! 0) = GetHash h (vtx block' ! 0)"
  shows "\<exists>x y. x \<noteq> y \<and> uint256_of (h x) = uint256_of (h y)"
proof -
  let ?c = "vtx block ! 0" and ?d = "vtx block' ! 0"
  have "SerializeTransaction False ?c \<noteq> SerializeTransaction False ?d"
  proof
    assume "SerializeTransaction False ?c = SerializeTransaction False ?d"
    then have "strip_witness ?c = strip_witness ?d" by (rule SerializeTransaction_inj [OF assms(8,9)])
    then have "tx_vin (strip_witness ?c) = tx_vin (strip_witness ?d)" by (rule arg_cong)
    then have "map clear_witness (tx_vin ?c) = map clear_witness (tx_vin ?d)" by (simp add: strip_witness_def)
    then have "map clear_witness (tx_vin ?c) ! 0 = map clear_witness (tx_vin ?d) ! 0" by (rule arg_cong)
    moreover have "0 < length (tx_vin ?c)" "0 < length (tx_vin ?d)" using assms(10,11) by (simp_all add: IsCoinBase_def)
    ultimately have "clear_witness (tx_vin ?c ! 0) = clear_witness (tx_vin ?d ! 0)" by (simp only: nth_map)
    then have "scriptSig (clear_witness (tx_vin ?c ! 0)) = scriptSig (clear_witness (tx_vin ?d ! 0))" by (rule arg_cong)
    then have "scriptSig (tx_vin ?c ! 0) = scriptSig (tx_vin ?d ! 0)" by (simp add: clear_witness_def)
    then show False using coinbase_heights_differ [OF assms(1-7)] by simp
  qed
  then show ?thesis using assms(12) unfolding GetHash_def by blast
qed

section \<open>Headers in context\<close>

theorem ContextualCheckBlockHeader_iff:
  assumes "H p = Some prev" and "GetNextWorkRequired ops H params (Some p) block = Some (Inr required)"
    and "GetMedianTimePast H p = Inr past"
  shows "ContextualCheckBlockHeader ops params checkpoints m H block (Some p) now = Some (Inr ()) \<longleftrightarrow>
    nBits block \<le> required \<and>
    (\<forall>c. Option.bind checkpoints (GetLastCheckpoint m) = Some c \<longrightarrow> (\<exists>i. H c = Some i \<and> nHeight i \<le> nHeight prev + 1)) \<and>
    past < uint (nTime block) \<and> uint (nTime block) \<le> now + MAX_FUTURE_BLOCK_TIME"
proof -
  show ?thesis
  proof (cases "Option.bind checkpoints (GetLastCheckpoint m)")
    case None
    then show ?thesis by (auto simp: ContextualCheckBlockHeader_def assms deref_def lift_fault_def)
  next
    case (Some c)
    show ?thesis
      by (cases "H c") (auto simp: ContextualCheckBlockHeader_def assms Some deref_def lift_fault_def)
  qed
qed

text \<open>The inequality lets a block choose only smaller targets, when the required word is in the form that
  \<open>GetCompact\<close> gives.\<close>

definition compact_normal :: "u32 \<Rightarrow> bool" where
  "compact_normal c \<longleftrightarrow> unat c mod 2 ^ 24 < 2 ^ 23 \<and> 2 ^ 15 \<le> compact_mantissa c \<and> 3 < compact_exponent c"

lemma unat_compact: "unat c = compact_exponent c * 2 ^ 24 + unat c mod 2 ^ 24"
  by (simp add: compact_exponent_def)

lemma compact_num_mono:
  assumes "bits \<le> required" and "compact_normal required"
  shows "compact_num bits \<le> compact_num required"
proof -
  have le: "unat bits \<le> unat required" using assms(1) by (simp add: word_le_nat_alt)
  define E where "E = compact_exponent required - 4"
  have E: "compact_exponent required = E + 4" using assms(2) by (simp add: compact_normal_def E_def)
  have r: "compact_num required = compact_mantissa required * 256 * 256 ^ E"
    by (simp add: compact_num_def Let_def E)
  have rm: "unat required mod 2 ^ 24 = compact_mantissa required"
  proof -
    have "unat required mod 2 ^ 24 mod 2 ^ 23 = compact_mantissa required"
      unfolding compact_mantissa_def by (rule mod_mod_cancel) simp
    then show ?thesis using assms(2) by (simp add: compact_normal_def)
  qed
  have e: "compact_exponent bits \<le> compact_exponent required"
    using le by (simp add: compact_exponent_def div_le_mono)
  have m: "compact_mantissa bits \<le> unat bits mod 2 ^ 24"
  proof -
    have "unat bits mod 2 ^ 24 mod 2 ^ 23 = compact_mantissa bits"
      unfolding compact_mantissa_def by (rule mod_mod_cancel) simp
    then show ?thesis by (metis mod_less_eq_dividend)
  qed
  show ?thesis
  proof (cases "compact_exponent bits = compact_exponent required")
    case True
    then have "unat bits mod 2 ^ 24 \<le> unat required mod 2 ^ 24"
      using le unat_compact [of bits] unat_compact [of required] by (metis add_le_cancel_left)
    then have "compact_mantissa bits \<le> compact_mantissa required" using m rm by linarith
    then show ?thesis by (simp add: compact_num_def Let_def E True)
  next
    case False
    have "compact_num bits \<le> compact_mantissa bits * 256 ^ E"
    proof (cases "compact_exponent bits \<le> 3")
      case True
      have "compact_mantissa bits div 256 ^ (3 - compact_exponent bits) \<le> compact_mantissa bits * 1" by simp
      also have "\<dots> \<le> compact_mantissa bits * 256 ^ E" by (rule mult_le_mono2) simp
      finally show ?thesis using True by (simp add: compact_num_def)
    next
      case False
      then have "compact_exponent bits - 3 \<le> E"
        using \<open>compact_exponent bits \<noteq> compact_exponent required\<close> e E by linarith
      then have "(256 :: nat) ^ (compact_exponent bits - 3) \<le> 256 ^ E" by (rule power_increasing) simp
      then show ?thesis using False by (simp add: compact_num_def Let_def)
    qed
    also have "\<dots> \<le> (compact_mantissa required * 256) * 256 ^ E"
      using compact_mantissa_less [of bits] assms(2) by (intro mult_le_mono1) (simp add: compact_normal_def)
    finally show ?thesis by (simp only: r)
  qed
qed

end
