(* ===== verification/Cuckoo.thy ===== *)
theory Cuckoo imports Prelude "HOL-Library.Multiset"
begin

text \<open>
  The cache of verified signatures and scripts, \<^verbatim>\<open>src/src/cuckoocache.h\<close>: a table of fixed size in which an
  element has eight places, with a bit per place that says whether it may be overwritten, and a generation
  per place that ages the elements.  The hash functions are a parameter, and so is the depth of a search,
  which the code computes as the logarithm of the size in floating point.  An insertion drops exactly one
  element of the table, one that may be overwritten whenever a place of the element is free; what the cache
  says it contains has been inserted, or is the default element the table starts with.
\<close>

unbundle bit_operations_syntax

section \<open>Packed bits\<close>

definition flags_setup :: "nat \<Rightarrow> byte list" where
  "flags_setup b = replicate ((b + 7) div 8) 0xFF"

definition bit_set :: "byte list \<Rightarrow> nat \<Rightarrow> byte list" where
  "bit_set mem s = mem[drop_bit 3 s := mem ! drop_bit 3 s OR push_bit (s AND 7) 1]"

definition bit_unset :: "byte list \<Rightarrow> nat \<Rightarrow> byte list" where
  "bit_unset mem s = mem[drop_bit 3 s := mem ! drop_bit 3 s AND NOT (push_bit (s AND 7) 1)]"

definition bit_is_set :: "byte list \<Rightarrow> nat \<Rightarrow> bool" where
  "bit_is_set mem s \<longleftrightarrow> push_bit (s AND 7) 1 AND mem ! drop_bit 3 s \<noteq> 0"

section \<open>The cache\<close>

record 'e cuckoo =
  slots :: "'e list"
  slot_count :: nat
  collection_flags :: "byte list"
  epoch_flags :: "bool list"
  epoch_heuristic_counter :: nat
  epoch_size :: nat
  depth_limit :: nat

type_synonym 'e hashes = "nat \<Rightarrow> 'e \<Rightarrow> u32"

definition compute_hashes :: "'e hashes \<Rightarrow> nat \<Rightarrow> 'e \<Rightarrow> nat list" where
  "compute_hashes h n e = map (\<lambda>k. drop_bit 32 (unat (h k e) * n)) [0, 1, 2, 3, 4, 5, 6, 7]"

definition invalid_loc :: nat where "invalid_loc = 2 ^ 32 - 1"

definition allow_erase :: "'e cuckoo \<Rightarrow> nat \<Rightarrow> 'e cuckoo" where
  "allow_erase c n = c\<lparr>collection_flags := bit_set (collection_flags c) n\<rparr>"

definition please_keep :: "'e cuckoo \<Rightarrow> nat \<Rightarrow> 'e cuckoo" where
  "please_keep c n = c\<lparr>collection_flags := bit_unset (collection_flags c) n\<rparr>"

text \<open>A cache that is not set up, and \<open>setup\<close> with the default element that fills the table.\<close>

definition cache_empty :: "'e cuckoo" where
  "cache_empty = \<lparr>slots = [], slot_count = 0, collection_flags = flags_setup 0, epoch_flags = [],
     epoch_heuristic_counter = 0, epoch_size = 0, depth_limit = 0\<rparr>"

definition resize_list :: "'a \<Rightarrow> nat \<Rightarrow> 'a list \<Rightarrow> 'a list" where
  "resize_list d n xs = take n xs @ replicate (n - length xs) d"

definition cache_setup :: "'e \<Rightarrow> nat \<Rightarrow> nat \<Rightarrow> 'e cuckoo \<Rightarrow> 'e cuckoo" where
  "cache_setup dflt depth new_size c =
     (let n = max 2 new_size; es = max 1 (45 * n mod 2 ^ 32 div 100) in
      c\<lparr>depth_limit := depth, slot_count := n, slots := resize_list dflt n (slots c), collection_flags := flags_setup n,
        epoch_flags := resize_list False n (epoch_flags c), epoch_size := es, epoch_heuristic_counter := es\<rparr>)"

text \<open>The scan of an epoch: the elements in use, and the ageing.\<close>

definition epoch_unused_count :: "'e cuckoo \<Rightarrow> nat" where
  "epoch_unused_count c = length (filter (\<lambda>i. epoch_flags c ! i \<and> \<not> bit_is_set (collection_flags c) i) [0..<slot_count c])"

fun age :: "nat list \<Rightarrow> 'e cuckoo \<Rightarrow> 'e cuckoo" where
  "age [] c = c"
| "age (i # is) c =
     age is (if epoch_flags c ! i then c\<lparr>epoch_flags := (epoch_flags c)[i := False]\<rparr> else allow_erase c i)"

definition epoch_check :: "'e cuckoo \<Rightarrow> 'e cuckoo" where
  "epoch_check c =
     (if epoch_heuristic_counter c \<noteq> 0 then c\<lparr>epoch_heuristic_counter := epoch_heuristic_counter c - 1\<rparr>
      else let n = epoch_unused_count c in
        if epoch_size c \<le> n then (age [0..<slot_count c] c)\<lparr>epoch_heuristic_counter := epoch_size c\<rparr>
        else c\<lparr>epoch_heuristic_counter := max 1 (max (epoch_size c div 16) (epoch_size c - n))\<rparr>)"

definition put :: "'e cuckoo \<Rightarrow> nat \<Rightarrow> 'e \<Rightarrow> bool \<Rightarrow> 'e cuckoo" where
  "put c loc e epoch =
     (please_keep (c\<lparr>slots := (slots c)[loc := e]\<rparr>) loc)\<lparr>epoch_flags := (epoch_flags c)[loc := epoch]\<rparr>"

text \<open>The place after the last one, the first one when there is none.\<close>

definition next_loc :: "nat \<Rightarrow> nat list \<Rightarrow> nat" where
  "next_loc last_loc locs = locs ! ((1 + length (takeWhile (\<lambda>l. l \<noteq> last_loc) locs)) AND 7)"

text \<open>The search for a place, with the element to place, its generation, the place it was taken from and its places.\<close>

fun insert_loop :: "'e hashes \<Rightarrow> nat \<Rightarrow> 'e cuckoo \<Rightarrow> 'e \<Rightarrow> bool \<Rightarrow> nat \<Rightarrow> nat list \<Rightarrow> 'e cuckoo" where
  "insert_loop h 0 c e last_epoch last_loc locs = c"
| "insert_loop h (Suc depth) c e last_epoch last_loc locs =
     (case find (bit_is_set (collection_flags c)) locs of
        Some loc \<Rightarrow> put c loc e last_epoch
      | None \<Rightarrow>
          let last_loc = next_loc last_loc locs;
              e' = slots c ! last_loc; epoch = epoch_flags c ! last_loc
          in insert_loop h depth
               (c\<lparr>slots := (slots c)[last_loc := e], epoch_flags := (epoch_flags c)[last_loc := last_epoch]\<rparr>)
               e' epoch last_loc (compute_hashes h (slot_count c) e'))"

definition cache_insert :: "'e hashes \<Rightarrow> 'e cuckoo \<Rightarrow> 'e \<Rightarrow> 'e cuckoo" where
  "cache_insert h c e =
     (let c = epoch_check c; locs = compute_hashes h (slot_count c) e in
      case find (\<lambda>loc. slots c ! loc = e) locs of
        Some loc \<Rightarrow> (please_keep c loc)\<lparr>epoch_flags := (epoch_flags c)[loc := True]\<rparr>
      | None \<Rightarrow> insert_loop h (depth_limit c) c e True invalid_loc locs)"

definition cache_contains :: "'e hashes \<Rightarrow> 'e cuckoo \<Rightarrow> 'e \<Rightarrow> bool \<Rightarrow> bool \<times> 'e cuckoo" where
  "cache_contains h c e erase =
     (case find (\<lambda>loc. slots c ! loc = e) (compute_hashes h (slot_count c) e) of
        Some loc \<Rightarrow> (True, if erase then allow_erase c loc else c)
      | None \<Rightarrow> (False, c))"

section \<open>Packed bits are a set of positions\<close>

lemma bit_position: "drop_bit 3 i = drop_bit 3 j \<Longrightarrow> (i :: nat) AND 7 = j AND 7 \<Longrightarrow> i = j"
proof -
  assume "drop_bit 3 i = drop_bit 3 j" "i AND 7 = j AND 7"
  moreover have "n = drop_bit 3 n * 8 + (n AND 7)" for n :: nat
  proof -
    have "n AND 7 = take_bit 3 n" using take_bit_eq_mask [of 3 n] by (simp add: mask_eq_exp_minus_1)
    then show ?thesis by (simp add: drop_bit_eq_div take_bit_eq_mod)
  qed
  ultimately show "i = j" by metis
qed

lemma and_7_less: "(i :: nat) AND 7 < 8"
proof -
  have "i AND 7 = take_bit 3 i" using take_bit_eq_mask [of 3 i] by (simp add: mask_eq_exp_minus_1)
  then show ?thesis by (simp add: take_bit_eq_mod)
qed

lemma bit_is_set_iff: "bit_is_set mem s \<longleftrightarrow> bit (mem ! drop_bit 3 s) (s AND 7)"
proof -
  have "push_bit k 1 AND (w :: byte) = (if bit w k then push_bit k 1 else 0)" for k w
    by (rule bit_word_eqI) (auto simp: bit_simps)
  moreover have "push_bit (s AND 7) (1 :: byte) \<noteq> 0"
  proof -
    have "bit (push_bit (s AND 7) (1 :: byte)) (s AND 7)" using and_7_less [of s]
      by (simp only: bit_push_bit_iff bit_1_iff) simp
    then show ?thesis using and_7_less [of s] by auto
  qed
  ultimately show ?thesis unfolding bit_is_set_def by auto
qed

lemma bit_is_set_set:
  assumes "drop_bit 3 i < length mem"
  shows "bit_is_set (bit_set mem i) j \<longleftrightarrow> i = j \<or> bit_is_set mem j"
proof (cases "drop_bit 3 i = drop_bit 3 j")
  case True
  then have "bit_is_set (bit_set mem i) j \<longleftrightarrow> bit (mem ! drop_bit 3 j OR push_bit (i AND 7) 1) (j AND 7)"
    using assms by (simp add: bit_is_set_iff bit_set_def)
  also have "\<dots> \<longleftrightarrow> i AND 7 = j AND 7 \<or> bit_is_set mem j"
    using and_7_less [of j] by (simp only: bit_or_iff bit_push_bit_iff bit_1_iff bit_is_set_iff) auto
  finally show ?thesis using bit_position [OF True] by blast
next
  case False
  then have "i \<noteq> j" by blast
  with False show ?thesis by (simp add: bit_is_set_iff bit_set_def)
qed

lemma bit_is_set_unset:
  assumes "drop_bit 3 i < length mem"
  shows "bit_is_set (bit_unset mem i) j \<longleftrightarrow> i \<noteq> j \<and> bit_is_set mem j"
proof (cases "drop_bit 3 i = drop_bit 3 j")
  case True
  then have "bit_is_set (bit_unset mem i) j \<longleftrightarrow> bit (mem ! drop_bit 3 j AND NOT (push_bit (i AND 7) 1)) (j AND 7)"
    using assms by (simp add: bit_is_set_iff bit_unset_def)
  also have "\<dots> \<longleftrightarrow> i AND 7 \<noteq> j AND 7 \<and> bit_is_set mem j"
    using and_7_less [of j] by (simp only: bit_and_iff bit_not_iff bit_push_bit_iff bit_1_iff bit_is_set_iff) auto
  finally show ?thesis using bit_position [OF True] by blast
next
  case False
  then have "i \<noteq> j" by blast
  with False show ?thesis by (simp add: bit_is_set_iff bit_unset_def)
qed

lemma length_bit_set [simp]: "length (bit_set mem i) = length mem" "length (bit_unset mem i) = length mem"
  by (simp_all add: bit_set_def bit_unset_def)

lemma flags_setup_set: "i < n \<Longrightarrow> bit_is_set (flags_setup n) i"
proof -
  assume "i < n"
  then have "drop_bit 3 i < (n + 7) div 8" by (simp add: drop_bit_eq_div)
  moreover have "bit (0xFF :: byte) (i AND 7)"
  proof -
    have "(0xFF :: byte) = mask 8" by (simp add: mask_eq_exp_minus_1)
    then show ?thesis using and_7_less [of i] by (simp only: bit_mask_iff) simp
  qed
  ultimately show ?thesis by (simp add: bit_is_set_iff flags_setup_def)
qed

section \<open>The invariant\<close>

definition cuckoo_ok :: "'e cuckoo \<Rightarrow> bool" where
  "cuckoo_ok c \<longleftrightarrow> 2 \<le> slot_count c \<and> slot_count c < 2 ^ 32 \<and> length (slots c) = slot_count c \<and>
     length (epoch_flags c) = slot_count c \<and> slot_count c \<le> 8 * length (collection_flags c)"

lemma loc_flag: "cuckoo_ok c \<Longrightarrow> i < slot_count c \<Longrightarrow> drop_bit 3 i < length (collection_flags c)"
  by (simp add: cuckoo_ok_def drop_bit_eq_div less_mult_imp_div_less)

lemma length_compute_hashes [simp]: "length (compute_hashes h n e) = 8"
  by (simp add: compute_hashes_def)

lemma compute_hashes_less: "l \<in> set (compute_hashes h n e) \<Longrightarrow> 0 < n \<Longrightarrow> l < n"
proof -
  assume "l \<in> set (compute_hashes h n e)" "0 < n"
  then obtain k where l: "l = unat (h k e) * n div 2 ^ 32" by (auto simp: compute_hashes_def drop_bit_eq_div)
  have "unat (h k e) < 2 ^ 32" by (rule order_less_le_trans [OF unsigned_less]) simp
  with \<open>0 < n\<close> have "unat (h k e) * n < n * 2 ^ 32" by (simp add: mult.commute)
  then show "l < n" unfolding l by (rule less_mult_imp_div_less)
qed

lemma cache_setup_ok: "new_size < 2 ^ 32 \<Longrightarrow> cuckoo_ok (cache_setup dflt depth new_size cache_empty)"
  by (simp add: cuckoo_ok_def cache_setup_def cache_empty_def Let_def resize_list_def flags_setup_def) linarith

text \<open>What stays the same when places are marked.\<close>

lemma cuckoo_ok_mark [simp]:
  "cuckoo_ok (allow_erase c i) \<longleftrightarrow> cuckoo_ok c" "cuckoo_ok (please_keep c i) \<longleftrightarrow> cuckoo_ok c"
  "cuckoo_ok (c\<lparr>epoch_heuristic_counter := k\<rparr>) \<longleftrightarrow> cuckoo_ok c"
  "cuckoo_ok (c\<lparr>epoch_flags := (epoch_flags c)[i := b]\<rparr>) \<longleftrightarrow> cuckoo_ok c"
  "cuckoo_ok (c\<lparr>slots := (slots c)[i := e]\<rparr>) \<longleftrightarrow> cuckoo_ok c"
  by (simp_all add: cuckoo_ok_def allow_erase_def please_keep_def)

lemma slots_mark [simp]:
  "slots (allow_erase c i) = slots c" "slots (please_keep c i) = slots c"
  "slot_count (allow_erase c i) = slot_count c" "slot_count (please_keep c i) = slot_count c"
  "epoch_flags (allow_erase c i) = epoch_flags c" "epoch_flags (please_keep c i) = epoch_flags c"
  "depth_limit (allow_erase c i) = depth_limit c" "depth_limit (please_keep c i) = depth_limit c"
  by (simp_all add: allow_erase_def please_keep_def)

lemma age_ok: "cuckoo_ok (age is c) = cuckoo_ok c \<and> slots (age is c) = slots c \<and> slot_count (age is c) = slot_count c \<and>
    depth_limit (age is c) = depth_limit c"
  by (induction "is" c rule: age.induct) auto

lemma epoch_check_ok [simp]:
  "cuckoo_ok (epoch_check c) = cuckoo_ok c" "slots (epoch_check c) = slots c" "slot_count (epoch_check c) = slot_count c"
  "depth_limit (epoch_check c) = depth_limit c"
  using age_ok by (auto simp: epoch_check_def Let_def)

lemma put_simps [simp]:
  "cuckoo_ok (put c i e b) = cuckoo_ok c" "slots (put c i e b) = (slots c)[i := e]" "slot_count (put c i e b) = slot_count c"
  by (simp_all add: put_def cuckoo_ok_def please_keep_def)

lemma put_flag:
  "cuckoo_ok c \<Longrightarrow> i < slot_count c \<Longrightarrow>
   bit_is_set (collection_flags (put c i e b)) j \<longleftrightarrow> i \<noteq> j \<and> bit_is_set (collection_flags c) j"
  using loc_flag [of c i] by (simp add: put_def please_keep_def bit_is_set_unset)

text \<open>Placing an element drops one: the element is put in exchange for another one.\<close>

lemma mset_exchange: "i < length xs \<Longrightarrow> add_mset e (mset xs) = add_mset (xs ! i) (mset (xs[i := e]))"
  by (simp add: mset_update)

lemma insert_loop_ok:
  "cuckoo_ok c \<Longrightarrow> set locs \<subseteq> {..<slot_count c} \<Longrightarrow> length locs = 8 \<Longrightarrow>
   \<exists>x. add_mset e (mset (slots c)) = add_mset x (mset (slots (insert_loop h depth c e b l locs))) \<and>
     cuckoo_ok (insert_loop h depth c e b l locs) \<and> slot_count (insert_loop h depth c e b l locs) = slot_count c"
proof (induction h depth c e b l locs rule: insert_loop.induct)
  case (2 h depth c e b l locs)
  have len: "length (slots c) = slot_count c" "0 < slot_count c" using 2(2) by (auto simp: cuckoo_ok_def)
  show ?case
  proof (cases "find (bit_is_set (collection_flags c)) locs")
    case (Some loc)
    then have "loc \<in> set locs" by (metis find_Some_iff nth_mem)
    then have "loc < length (slots c)" using 2(3) len by auto
    from mset_exchange [OF this, of e] show ?thesis using Some 2(2) by auto
  next
    case None
    define k where "k = next_loc l locs"
    define c' where "c' = c\<lparr>slots := (slots c)[k := e], epoch_flags := (epoch_flags c)[k := b]\<rparr>"
    have "k \<in> set locs" unfolding k_def next_loc_def by (rule nth_mem) (simp only: 2(4) and_7_less)
    then have k: "k < length (slots c)" using 2(3) len by auto
    have c': "cuckoo_ok c'" "slot_count c' = slot_count c" "slots c' = (slots c)[k := e]"
      using 2(2) by (simp_all add: c'_def cuckoo_ok_def)
    have "set (compute_hashes h (slot_count c) (slots c ! k)) \<subseteq> {..<slot_count c'}"
      using compute_hashes_less len(2) c'(2) by fastforce
    from 2(1) [OF None k_def refl refl, folded c'_def, OF c'(1) this] obtain x where
      "add_mset (slots c ! k) (mset (slots c')) = add_mset x (mset (slots (insert_loop h (Suc depth) c e b l locs)))"
      "cuckoo_ok (insert_loop h (Suc depth) c e b l locs)" "slot_count (insert_loop h (Suc depth) c e b l locs) = slot_count c"
      using None c'(2) unfolding insert_loop.simps Let_def k_def [symmetric] c'_def [symmetric] by auto
    then show ?thesis using mset_exchange [OF k, of e] c'(3) by metis
  qed
qed auto

theorem cache_insert_drops_one:
  assumes "cuckoo_ok c"
  shows "\<exists>x. add_mset e (mset (slots c)) = add_mset x (mset (slots (cache_insert h c e))) \<and> cuckoo_ok (cache_insert h c e) \<and>
    slot_count (cache_insert h c e) = slot_count c"
proof -
  let ?c = "epoch_check c" and ?l = "compute_hashes h (slot_count c) e"
  have n: "0 < slot_count c" using assms by (simp add: cuckoo_ok_def)
  show ?thesis
  proof (cases "find (\<lambda>loc. slots c ! loc = e) ?l")
    case (Some loc)
    then have "cache_insert h c e = (please_keep ?c loc)\<lparr>epoch_flags := (epoch_flags ?c)[loc := True]\<rparr>"
      by (simp add: cache_insert_def Let_def)
    then show ?thesis using assms cuckoo_ok_mark(4) [of "please_keep ?c loc" loc True] by auto
  next
    case None
    have "set ?l \<subseteq> {..<slot_count ?c}" using compute_hashes_less n by fastforce
    from insert_loop_ok [of ?c ?l, OF _ this] assms None show ?thesis by (simp add: cache_insert_def Let_def)
  qed
qed

text \<open>When a place of the element may be overwritten, the element is placed, and what is dropped is the element
  of such a place.\<close>

theorem cache_insert_free:
  assumes "cuckoo_ok c" and "loc \<in> set (compute_hashes h (slot_count c) e)" and "bit_is_set (collection_flags (epoch_check c)) loc"
    and "0 < depth_limit c"
  shows "fst (cache_contains h (cache_insert h c e) e False) \<and>
    (\<exists>i < slot_count c. bit_is_set (collection_flags (epoch_check c)) i \<and>
      (slots (cache_insert h c e) = slots c \<or> slots (cache_insert h c e) = (slots c)[i := e]))"
proof -
  let ?c = "epoch_check c" and ?l = "compute_hashes h (slot_count c) e"
  have n: "0 < slot_count c" "length (slots c) = slot_count c" using assms by (auto simp: cuckoo_ok_def)
  obtain d where d: "depth_limit c = Suc d" using assms(4) gr0_conv_Suc by blast
  have found: "fst (cache_contains h c' e False)" if "i \<in> set ?l" "slots c' ! i = e" "slot_count c' = slot_count c" for i c'
    using that find_None_iff [of "\<lambda>loc. slots c' ! loc = e" ?l]
    by (cases "find (\<lambda>loc. slots c' ! loc = e) ?l") (auto simp: cache_contains_def)
  show ?thesis
  proof (cases "find (\<lambda>loc. slots c ! loc = e) ?l")
    case (Some i)
    then have i: "i \<in> set ?l" "slots c ! i = e" by (auto simp: find_Some_iff)
    have c': "cache_insert h c e = (please_keep ?c i)\<lparr>epoch_flags := (epoch_flags ?c)[i := True]\<rparr>"
      using Some by (simp add: cache_insert_def Let_def)
    have "fst (cache_contains h (cache_insert h c e) e False)" using i by (intro found) (simp_all add: c')
    moreover have "loc < slot_count c" using compute_hashes_less [OF assms(2) n(1)] .
    ultimately show ?thesis using assms(3) by (auto simp: c')
  next
    case None
    obtain i where i: "find (bit_is_set (collection_flags ?c)) ?l = Some i"
      using find_None_iff [of "bit_is_set (collection_flags ?c)" ?l] assms(2,3) by (cases "find (bit_is_set (collection_flags ?c)) ?l") auto
    then have s: "i \<in> set ?l" "bit_is_set (collection_flags ?c) i" by (auto simp: find_Some_iff)
    have il: "i < slot_count c" using compute_hashes_less [OF s(1) n(1)] .
    have c': "cache_insert h c e = put ?c i e True" using None i d by (simp add: cache_insert_def Let_def)
    have "fst (cache_contains h (cache_insert h c e) e False)" using s(1) il n(2) by (intro found [of i]) (simp_all add: c')
    then show ?thesis using il s(2) by (auto simp: c')
  qed
qed

section \<open>What the cache contains\<close>

text \<open>The states a cache reaches after its setup, with the elements inserted so far and the default element.\<close>

inductive cuckoo_run :: "'e hashes \<Rightarrow> 'e \<Rightarrow> 'e list \<Rightarrow> 'e cuckoo \<Rightarrow> bool" for h dflt where
  Setup: "n < 2 ^ 32 \<Longrightarrow> cuckoo_run h dflt [dflt] (cache_setup dflt depth n cache_empty)"
| Insert: "cuckoo_run h dflt es c \<Longrightarrow> cuckoo_run h dflt (e # es) (cache_insert h c e)"
| Contains: "cuckoo_run h dflt es c \<Longrightarrow> cuckoo_run h dflt es (snd (cache_contains h c e erase))"

lemma cache_contains_ok:
  "cuckoo_ok (snd (cache_contains h c e erase)) = cuckoo_ok c" "slots (snd (cache_contains h c e erase)) = slots c"
  "slot_count (snd (cache_contains h c e erase)) = slot_count c"
  by (auto simp: cache_contains_def split: option.splits)

text \<open>Marking an element for erasure does not remove it: only an insertion does.\<close>

lemma contains_erase: "fst (cache_contains h (snd (cache_contains h c e' erase)) e b) = fst (cache_contains h c e b)"
proof -
  have "fst (cache_contains h c e b) \<longleftrightarrow> find (\<lambda>loc. slots c ! loc = e) (compute_hashes h (slot_count c) e) \<noteq> None" for c b
    by (auto simp: cache_contains_def split: option.splits)
  then show ?thesis by (simp add: cache_contains_ok)
qed

lemma cuckoo_run_ok: "cuckoo_run h dflt es c \<Longrightarrow> cuckoo_ok c \<and> set (slots c) \<subseteq> set es"
proof (induction rule: cuckoo_run.induct)
  case (Setup n depth)
  from cache_setup_ok [OF this] show ?case
    by (auto simp: cache_setup_def cache_empty_def Let_def resize_list_def)
next
  case (Insert es c e)
  from cache_insert_drops_one [of c e h] Insert.IH obtain x where
    x: "add_mset e (mset (slots c)) = add_mset x (mset (slots (cache_insert h c e)))" "cuckoo_ok (cache_insert h c e)" by blast
  have "insert e (set (slots c)) = insert x (set (slots (cache_insert h c e)))"
    using arg_cong [OF x(1), of set_mset] by simp
  then show ?case using Insert.IH x(2) by auto
next
  case (Contains es c e erase)
  then show ?case by (simp add: cache_contains_ok)
qed

theorem contains_only_inserted:
  assumes "cuckoo_run h dflt es c" and "fst (cache_contains h c e erase)"
  shows "e \<in> set es"
proof -
  from assms(2) obtain loc where "find (\<lambda>loc. slots c ! loc = e) (compute_hashes h (slot_count c) e) = Some loc"
    by (auto simp: cache_contains_def split: option.splits)
  then have l: "loc \<in> set (compute_hashes h (slot_count c) e)" "slots c ! loc = e" by (auto simp: find_Some_iff)
  have ok: "cuckoo_ok c" "set (slots c) \<subseteq> set es" using cuckoo_run_ok [OF assms(1)] by auto
  then have "loc < length (slots c)" using compute_hashes_less [OF l(1)] by (simp add: cuckoo_ok_def)
  then show ?thesis using ok(2) l(2) by (metis nth_mem subsetD)
qed

text \<open>The default element counts as contained from the start.\<close>

lemma default_contained: "n < 2 ^ 32 \<Longrightarrow> fst (cache_contains h (cache_setup dflt depth n cache_empty) dflt erase)"
proof -
  let ?c = "cache_setup dflt depth n cache_empty"
  assume "n < 2 ^ 32"
  then have "0 < slot_count ?c" using cache_setup_ok [of n dflt depth] by (simp add: cuckoo_ok_def)
  have "slots ?c ! loc = dflt" if "loc < slot_count ?c" for loc
    using that by (simp add: cache_setup_def cache_empty_def Let_def resize_list_def)
  then have "slots ?c ! hd (compute_hashes h (slot_count ?c) dflt) = dflt"
    using compute_hashes_less [of "hd (compute_hashes h (slot_count ?c) dflt)" h "slot_count ?c" dflt] \<open>0 < slot_count ?c\<close>
    by (simp add: compute_hashes_def)
  then show ?thesis
    by (auto simp: cache_contains_def compute_hashes_def split: option.splits)
qed

end
