(* ===== verification/InputCheck.thy ===== *)
theory InputCheck imports BlockCheck Cuckoo
begin

text \<open>
  The check of the scripts of a transaction's inputs: \<open>CScriptCheck\<close> and \<open>CheckInputs\<close> of
  \<^verbatim>\<open>src/src/validation.cpp\<close>, the cache of verified signatures of \<^verbatim>\<open>src/src/script/sigcache.cpp\<close> and the texts of
  \<^verbatim>\<open>src/src/script/script_error.cpp\<close>.  Checking the scripts at once and handing them to the queue accept the same
  transactions, and the signature cache never changes a verdict, unless the hash of its entries collides.
  Because of the latter the script checks verify signatures directly.
\<close>

unbundle bit_operations_syntax

section \<open>The texts of the errors\<close>

fun ScriptErrorString :: "ScriptError \<Rightarrow> string" where
  "ScriptErrorString SCRIPT_ERR_OK = ''No error''"
| "ScriptErrorString SCRIPT_ERR_EVAL_FALSE = ''Script evaluated without error but finished with a false/empty top stack element''"
| "ScriptErrorString SCRIPT_ERR_VERIFY = ''Script failed an OP_VERIFY operation''"
| "ScriptErrorString SCRIPT_ERR_EQUALVERIFY = ''Script failed an OP_EQUALVERIFY operation''"
| "ScriptErrorString SCRIPT_ERR_CHECKMULTISIGVERIFY = ''Script failed an OP_CHECKMULTISIGVERIFY operation''"
| "ScriptErrorString SCRIPT_ERR_CHECKSIGVERIFY = ''Script failed an OP_CHECKSIGVERIFY operation''"
| "ScriptErrorString SCRIPT_ERR_NUMEQUALVERIFY = ''Script failed an OP_NUMEQUALVERIFY operation''"
| "ScriptErrorString SCRIPT_ERR_SCRIPT_SIZE = ''Script is too big''"
| "ScriptErrorString SCRIPT_ERR_PUSH_SIZE = ''Push value size limit exceeded''"
| "ScriptErrorString SCRIPT_ERR_OP_COUNT = ''Operation limit exceeded''"
| "ScriptErrorString SCRIPT_ERR_STACK_SIZE = ''Stack size limit exceeded''"
| "ScriptErrorString SCRIPT_ERR_SIG_COUNT = ''Signature count negative or greater than pubkey count''"
| "ScriptErrorString SCRIPT_ERR_PUBKEY_COUNT = ''Pubkey count negative or limit exceeded''"
| "ScriptErrorString SCRIPT_ERR_BAD_OPCODE = ''Opcode missing or not understood''"
| "ScriptErrorString SCRIPT_ERR_DISABLED_OPCODE = ''Attempted to use a disabled opcode''"
| "ScriptErrorString SCRIPT_ERR_INVALID_STACK_OPERATION = ''Operation not valid with the current stack size''"
| "ScriptErrorString SCRIPT_ERR_INVALID_ALTSTACK_OPERATION = ''Operation not valid with the current altstack size''"
| "ScriptErrorString SCRIPT_ERR_OP_RETURN = ''OP_RETURN was encountered''"
| "ScriptErrorString SCRIPT_ERR_UNBALANCED_CONDITIONAL = ''Invalid OP_IF construction''"
| "ScriptErrorString SCRIPT_ERR_NEGATIVE_LOCKTIME = ''Negative locktime''"
| "ScriptErrorString SCRIPT_ERR_UNSATISFIED_LOCKTIME = ''Locktime requirement not satisfied''"
| "ScriptErrorString SCRIPT_ERR_SIG_HASHTYPE = ''Signature hash type missing or not understood''"
| "ScriptErrorString SCRIPT_ERR_MINIMALDATA = ''Data push larger than necessary''"
| "ScriptErrorString SCRIPT_ERR_SIG_PUSHONLY = ''Only non-push operators allowed in signatures''"
| "ScriptErrorString SCRIPT_ERR_SIG_HIGH_S = ''Non-canonical signature: S value is unnecessarily high''"
| "ScriptErrorString SCRIPT_ERR_SIG_NULLDUMMY = ''Dummy CHECKMULTISIG argument must be zero''"
| "ScriptErrorString SCRIPT_ERR_MINIMALIF = ''OP_IF/NOTIF argument must be minimal''"
| "ScriptErrorString SCRIPT_ERR_SIG_NULLFAIL = ''Signature must be zero for failed CHECK(MULTI)SIG operation''"
| "ScriptErrorString SCRIPT_ERR_DISCOURAGE_UPGRADABLE_NOPS = ''NOPx reserved for soft-fork upgrades''"
| "ScriptErrorString SCRIPT_ERR_DISCOURAGE_UPGRADABLE_WITNESS_PROGRAM = ''Witness version reserved for soft-fork upgrades''"
| "ScriptErrorString SCRIPT_ERR_PUBKEYTYPE = ''Public key is neither compressed or uncompressed''"
| "ScriptErrorString SCRIPT_ERR_CLEANSTACK = ''Extra items left on stack after execution''"
| "ScriptErrorString SCRIPT_ERR_WITNESS_PROGRAM_WRONG_LENGTH = ''Witness program has incorrect length''"
| "ScriptErrorString SCRIPT_ERR_WITNESS_PROGRAM_WITNESS_EMPTY = ''Witness program was passed an empty witness''"
| "ScriptErrorString SCRIPT_ERR_WITNESS_PROGRAM_MISMATCH = ''Witness program hash mismatch''"
| "ScriptErrorString SCRIPT_ERR_WITNESS_MALLEATED = ''Witness requires empty scriptSig''"
| "ScriptErrorString SCRIPT_ERR_WITNESS_MALLEATED_P2SH = ''Witness requires only-redeemscript scriptSig''"
| "ScriptErrorString SCRIPT_ERR_WITNESS_UNEXPECTED = ''Witness provided for non-witness script''"
| "ScriptErrorString SCRIPT_ERR_WITNESS_PUBKEYTYPE = ''Using non-compressed keys in segwit''"
| "ScriptErrorString _ = ''unknown error''"

section \<open>The cache of signatures\<close>

definition SignatureCacheHasher :: "uint256 hashes" where
  "SignatureCacheHasher k key = le_word (take 4 (drop (4 * k) (uint256_bytes key)))"

record CSignatureCache =
  sc_nonce :: uint256
  setValid :: "uint256 cuckoo"

definition ComputeEntry :: "(bytes \<Rightarrow> bytes) \<Rightarrow> uint256 \<Rightarrow> uint256 \<Rightarrow> bytes \<Rightarrow> bytes \<Rightarrow> uint256" where
  "ComputeEntry sha3 nonce hash vchSig pubkey =
     uint256_of (sha3 (uint256_bytes nonce @ uint256_bytes hash @ take (CPubKey_size pubkey) pubkey @ vchSig))"

text \<open>\<open>CachingTransactionSignatureChecker::VerifySignature\<close>.\<close>

definition CachingVerifySignature ::
  "(bytes \<Rightarrow> bytes) \<Rightarrow> ed25519_env \<Rightarrow> bool \<Rightarrow> bytes \<Rightarrow> bytes \<Rightarrow> uint256 \<Rightarrow> CSignatureCache \<Rightarrow> bool \<times> CSignatureCache" where
  "CachingVerifySignature sha3 ed store vchSig pubkey sighash cache =
     (let entry = ComputeEntry sha3 (sc_nonce cache) sighash vchSig pubkey;
          (hit, valid) = cache_contains SignatureCacheHasher (setValid cache) entry (\<not> store);
          cache = cache\<lparr>setValid := valid\<rparr> in
      if hit then (True, cache)
      else if \<not> CPubKey_Verify ed pubkey sighash vchSig then (False, cache)
      else (True, if store then cache\<lparr>setValid := cache_insert SignatureCacheHasher (setValid cache) entry\<rparr> else cache))"

section \<open>Checks of scripts\<close>

text \<open>The environment of the checks: that of the block checks and the hash functions of the scripts.\<close>

record connect_env = block_env +
  ce_hashers :: hashers

record CScriptCheck =
  m_tx_out :: CTxOut
  ptxTo :: CTransaction
  nIn :: nat
  nFlags :: u32
  sk_txdata :: PrecomputedTransactionData

definition CScriptCheck_run :: "connect_env \<Rightarrow> CScriptCheck \<Rightarrow> failure + unit" where
  "CScriptCheck_run env check =
     (let txin = tx_vin (ptxTo check) ! nIn check in
      VerifyScript
        \<lparr>flags = nFlags check, sigversion = SIGVERSION_BASE,
         sig_checker = TransactionSignatureChecker (be_ed env) (be_hash env)
           \<lparr>tc_txTo = ptxTo check, tc_nIn = nIn check, tc_amount = nValue (m_tx_out check), tc_txdata = Some (sk_txdata check)\<rparr>,
         hash_fns = ce_hashers env\<rparr>
        (scriptSig txin) (scriptPubKey (m_tx_out check)) (Some (scriptWitness txin)))"

definition REJECT_NONSTANDARD :: nat where "REJECT_NONSTANDARD = 0x40"

definition MANDATORY_SCRIPT_VERIFY_FLAGS :: u32 where "MANDATORY_SCRIPT_VERIFY_FLAGS = SCRIPT_VERIFY_P2SH"

definition STANDARD_SCRIPT_VERIFY_FLAGS :: u32 where
  "STANDARD_SCRIPT_VERIFY_FLAGS = MANDATORY_SCRIPT_VERIFY_FLAGS OR SCRIPT_VERIFY_STRICTENC OR SCRIPT_VERIFY_MINIMALDATA OR
     SCRIPT_VERIFY_NULLDUMMY OR SCRIPT_VERIFY_DISCOURAGE_UPGRADABLE_NOPS OR SCRIPT_VERIFY_CLEANSTACK OR
     SCRIPT_VERIFY_MINIMALIF OR SCRIPT_VERIFY_NULLFAIL OR SCRIPT_VERIFY_CHECKLOCKTIMEVERIFY OR
     SCRIPT_VERIFY_CHECKSEQUENCEVERIFY OR SCRIPT_VERIFY_WITNESS OR
     SCRIPT_VERIFY_DISCOURAGE_UPGRADABLE_WITNESS_PROGRAM OR SCRIPT_VERIFY_WITNESS_PUBKEYTYPE"

definition STANDARD_NOT_MANDATORY_VERIFY_FLAGS :: u32 where
  "STANDARD_NOT_MANDATORY_VERIFY_FLAGS = STANDARD_SCRIPT_VERIFY_FLAGS AND NOT MANDATORY_SCRIPT_VERIFY_FLAGS"

text \<open>What a failed check is reported as.\<close>

definition script_failure :: "connect_env \<Rightarrow> CScriptCheck \<Rightarrow> ScriptError \<Rightarrow> tx_error" where
  "script_failure env check e =
     (let mandatory = Rejected (reject 100 (''mandatory-script-verify-flag-failed ('' @ ScriptErrorString e @ '')'')) in
      if flag_set (nFlags check) STANDARD_NOT_MANDATORY_VERIFY_FLAGS then
        (case CScriptCheck_run env (check\<lparr>nFlags := nFlags check AND NOT STANDARD_NOT_MANDATORY_VERIFY_FLAGS\<rparr>) of
           Inr _ \<Rightarrow> Rejected ((reject 0 (''non-mandatory-script-verify-flag ('' @ ScriptErrorString e @ '')''))\<lparr>rj_code := REJECT_NONSTANDARD\<rparr>)
         | Inl Assertion_failed \<Rightarrow> Fault Assert_fails
         | Inl (Script_error _) \<Rightarrow> mandatory)
      else mandatory)"

text \<open>The loop over the inputs from the \<open>i\<close>-th; \<open>queue\<close> says that there is a vector for the checks, which are
  then not run.\<close>

fun check_scripts ::
  "connect_env \<Rightarrow> 'v view_ops \<Rightarrow> CTransaction \<Rightarrow> u32 \<Rightarrow> PrecomputedTransactionData \<Rightarrow> bool \<Rightarrow> nat \<Rightarrow> CTxIn list \<Rightarrow>
   CScriptCheck list \<Rightarrow> 'v CCoinsViewCache \<Rightarrow> (tx_error + CScriptCheck list) \<times> 'v CCoinsViewCache" where
  "check_scripts env B tx fl txdata queue i [] pvChecks inputs = (Inr pvChecks, inputs)"
| "check_scripts env B tx fl txdata queue i (txin # vin) pvChecks inputs =
     (case AccessCoin B inputs (prevout txin) of (coin, inputs) \<Rightarrow>
        if IsSpent coin then (Inl (Fault Assert_fails), inputs)
        else let check = \<lparr>m_tx_out = coin_out coin, ptxTo = tx, nIn = i, nFlags = fl, sk_txdata = txdata\<rparr> in
          if queue then check_scripts env B tx fl txdata queue (i + 1) vin (pvChecks @ [check]) inputs
          else case CScriptCheck_run env check of
            Inr _ \<Rightarrow> check_scripts env B tx fl txdata queue (i + 1) vin pvChecks inputs
          | Inl Assertion_failed \<Rightarrow> (Inl (Fault Assert_fails), inputs)
          | Inl (Script_error e) \<Rightarrow> (Inl (script_failure env check e), inputs))"

definition script_cache_entry :: "connect_env \<Rightarrow> uint256 \<Rightarrow> CTransaction \<Rightarrow> u32 \<Rightarrow> uint256" where
  "script_cache_entry env nonce tx fl =
     uint256_of (SHA3_256 (ce_hashers env)
       (take (55 - 4 - 32) (uint256_bytes nonce) @ uint256_bytes (GetWitnessHash (be_hash env) tx) @ le_bytes 4 fl))"

text \<open>The checks that are left for the queue, the view and the cache of scripts.\<close>

definition CheckInputs ::
  "connect_env \<Rightarrow> 'v view_ops \<Rightarrow> uint256 \<Rightarrow> CTransaction \<Rightarrow> 'v CCoinsViewCache \<Rightarrow> bool \<Rightarrow> u32 \<Rightarrow> bool \<Rightarrow>
   PrecomputedTransactionData \<Rightarrow> bool \<Rightarrow> uint256 cuckoo \<Rightarrow>
   (tx_error + CScriptCheck list) \<times> 'v CCoinsViewCache \<times> uint256 cuckoo" where
  "CheckInputs env B nonce tx inputs fScriptChecks fl cacheFullScriptStore txdata queue cache =
     (if IsCoinBase tx \<or> \<not> fScriptChecks then (Inr [], inputs, cache)
      else let hashCacheEntry = script_cache_entry env nonce tx fl;
               (hit, cache) = cache_contains SignatureCacheHasher cache hashCacheEntry (\<not> cacheFullScriptStore) in
        if hit then (Inr [], inputs, cache)
        else case check_scripts env B tx fl txdata queue 0 (tx_vin tx) [] inputs of
            (Inl e, inputs) \<Rightarrow> (Inl e, inputs, cache)
          | (Inr pvChecks, inputs) \<Rightarrow>
              (Inr pvChecks, inputs,
               if cacheFullScriptStore \<and> \<not> queue then cache_insert SignatureCacheHasher cache hashCacheEntry else cache))"

section \<open>The signature cache changes no verdict\<close>

text \<open>Every entry of the cache is the null entry the table starts with, or stands for a signature that verifies.\<close>

definition sig_cache_ok :: "(bytes \<Rightarrow> bytes) \<Rightarrow> ed25519_env \<Rightarrow> CSignatureCache \<Rightarrow> bool" where
  "sig_cache_ok sha3 ed cache \<longleftrightarrow> cuckoo_ok (setValid cache) \<and>
     (\<forall>e\<in>set (slots (setValid cache)). e = 0 \<or>
       (\<exists>hash sig key. length key = PUBLIC_KEY_SIZE \<and> CPubKey_Verify ed key hash sig \<and>
          e = ComputeEntry sha3 (sc_nonce cache) hash sig key))"

lemma contains_slot: "cuckoo_ok c \<Longrightarrow> fst (cache_contains h c e erase) \<Longrightarrow> e \<in> set (slots c)"
proof -
  assume ok: "cuckoo_ok c" and "fst (cache_contains h c e erase)"
  then obtain loc where "find (\<lambda>loc. slots c ! loc = e) (compute_hashes h (slot_count c) e) = Some loc"
    by (auto simp: cache_contains_def split: option.splits)
  then have l: "loc \<in> set (compute_hashes h (slot_count c) e)" "slots c ! loc = e" by (auto simp: find_Some_iff)
  then have "loc < length (slots c)" using ok compute_hashes_less [OF l(1)] by (simp add: cuckoo_ok_def)
  then show ?thesis using l(2) nth_mem by blast
qed

lemma insert_slots: "cuckoo_ok c \<Longrightarrow> set (slots (cache_insert h c e)) \<subseteq> insert e (set (slots c)) \<and> cuckoo_ok (cache_insert h c e)"
proof -
  assume "cuckoo_ok c"
  then obtain x where x: "add_mset e (mset (slots c)) = add_mset x (mset (slots (cache_insert h c e)))" "cuckoo_ok (cache_insert h c e)"
    using cache_insert_drops_one [of c e h] by blast
  have "insert e (set (slots c)) = insert x (set (slots (cache_insert h c e)))" using arg_cong [OF x(1), of set_mset] by simp
  then show ?thesis using x(2) by auto
qed

theorem CachingVerifySignature_sound:
  assumes "sig_cache_ok sha3 ed cache" and "length pubkey = PUBLIC_KEY_SIZE"
    and r: "CachingVerifySignature sha3 ed store vchSig pubkey sighash cache = (b, cache')"
  shows "sig_cache_ok sha3 ed cache' \<and>
    ((b \<longleftrightarrow> CPubKey_Verify ed pubkey sighash vchSig) \<or>
     (\<exists>x y. x \<noteq> y \<and> uint256_of (sha3 x) = uint256_of (sha3 y)) \<or> (\<exists>x. uint256_of (sha3 x) = 0))"
proof -
  let ?e = "ComputeEntry sha3 (sc_nonce cache) sighash vchSig pubkey"
  let ?v = "CPubKey_Verify ed pubkey sighash vchSig"
  obtain hit valid where h: "cache_contains SignatureCacheHasher (setValid cache) ?e (\<not> store) = (hit, valid)"
    by (cases "cache_contains SignatureCacheHasher (setValid cache) ?e (\<not> store)")
  have v: "cuckoo_ok valid" "slots valid = slots (setValid cache)"
    using assms(1) cache_contains_ok [of SignatureCacheHasher "setValid cache" ?e "\<not> store"] h by (simp_all add: sig_cache_ok_def)
  have keep: "sig_cache_ok sha3 ed (cache\<lparr>setValid := valid\<rparr>)"
    using assms(1) v by (simp add: sig_cache_ok_def)
  consider "hit" | "\<not> hit" "\<not> ?v" | "\<not> hit" "?v" "\<not> store" | "\<not> hit" "?v" "store" by blast
  then show ?thesis
  proof cases
    case 1
    then have "?e \<in> set (slots (setValid cache))"
      using contains_slot [of "setValid cache" SignatureCacheHasher ?e "\<not> store"] h assms(1) by (simp add: sig_cache_ok_def)
    then consider "?e = 0" | hash sig key where "length key = PUBLIC_KEY_SIZE" "CPubKey_Verify ed key hash sig"
        "?e = ComputeEntry sha3 (sc_nonce cache) hash sig key"
      using assms(1) by (auto simp: sig_cache_ok_def)
    then have "?v \<or> (\<exists>x y. x \<noteq> y \<and> uint256_of (sha3 x) = uint256_of (sha3 y)) \<or> (\<exists>x. uint256_of (sha3 x) = 0)"
    proof cases
      case 1
      then show ?thesis unfolding ComputeEntry_def by blast
    next
      case 2
      show ?thesis
      proof (cases "hash = sighash \<and> key = pubkey \<and> sig = vchSig")
        case False
        then have "uint256_bytes (sc_nonce cache) @ uint256_bytes sighash @ take (CPubKey_size pubkey) pubkey @ vchSig \<noteq>
            uint256_bytes (sc_nonce cache) @ uint256_bytes hash @ take (CPubKey_size key) key @ sig"
          using 2(1) assms(2) by (auto simp: CPubKey_size_def append_eq_append_conv)
        with 2(3) show ?thesis unfolding ComputeEntry_def by blast
      qed (use 2 in simp)
    qed
    moreover have "b" "cache' = cache\<lparr>setValid := valid\<rparr>" using r h 1 by (simp_all add: CachingVerifySignature_def)
    ultimately show ?thesis using keep by auto
  next
    case 2
    then show ?thesis using r h keep by (auto simp: CachingVerifySignature_def)
  next
    case 3
    then show ?thesis using r h keep by (auto simp: CachingVerifySignature_def)
  next
    case 4
    have ins: "set (slots (cache_insert SignatureCacheHasher valid ?e)) \<subseteq> insert ?e (set (slots (setValid cache)))"
      "cuckoo_ok (cache_insert SignatureCacheHasher valid ?e)"
      using insert_slots [OF v(1), of SignatureCacheHasher ?e] v(2) by simp_all
    have c': "b" "cache' = cache\<lparr>setValid := cache_insert SignatureCacheHasher valid ?e\<rparr>"
      using r h 4 by (auto simp: CachingVerifySignature_def)
    have "e = 0 \<or> (\<exists>hash sig key. length key = PUBLIC_KEY_SIZE \<and> CPubKey_Verify ed key hash sig \<and>
          e = ComputeEntry sha3 (sc_nonce cache) hash sig key)" if "e \<in> set (slots (setValid cache'))" for e
    proof (cases "e = ?e")
      case True
      then show ?thesis using 4 assms(2) by blast
    next
      case False
      then have "e \<in> set (slots (setValid cache))" using that ins(1) c'(2) by auto
      then show ?thesis using assms(1) by (simp add: sig_cache_ok_def)
    qed
    then have "sig_cache_ok sha3 ed cache'" using ins(2) c'(2) by (simp add: sig_cache_ok_def)
    then show ?thesis using c'(1) 4 by simp
  qed
qed

section \<open>What the script checks establish\<close>

definition input_check ::
  "(COutPoint \<rightharpoonup> Coin) \<Rightarrow> CTransaction \<Rightarrow> u32 \<Rightarrow> PrecomputedTransactionData \<Rightarrow> nat \<Rightarrow> CTxIn \<Rightarrow> CScriptCheck" where
  "input_check f tx fl txdata i txin =
     \<lparr>m_tx_out = coin_out (the (f (prevout txin))), ptxTo = tx, nIn = i, nFlags = fl, sk_txdata = txdata\<rparr>"

definition scripts_pass ::
  "connect_env \<Rightarrow> (COutPoint \<rightharpoonup> Coin) \<Rightarrow> CTransaction \<Rightarrow> u32 \<Rightarrow> PrecomputedTransactionData \<Rightarrow> bool" where
  "scripts_pass env f tx fl txdata \<longleftrightarrow>
     (\<forall>i < length (tx_vin tx). CScriptCheck_run env (input_check f tx fl txdata i (tx_vin tx ! i)) = Inr ())"

context coins_view
begin

lemma check_scripts_ok:
  "cache_ok c \<Longrightarrow> check_scripts env B tx fl txdata queue i vin pv c = (r, c') \<Longrightarrow>
   cache_ok c' \<and> cache_contents c' = cache_contents c \<and> cache_best c' = cache_best c \<and>
   (\<forall>checks. r = Inr checks \<longrightarrow>
     (\<forall>txin\<in>set vin. cache_contents c (prevout txin) \<noteq> None) \<and>
     checks = pv @ (if queue then map2 (input_check (cache_contents c) tx fl txdata) [i..<i + length vin] vin else []) \<and>
     (\<not> queue \<longrightarrow> (\<forall>j < length vin. CScriptCheck_run env (input_check (cache_contents c) tx fl txdata (i + j) (vin ! j)) = Inr ())))"
proof (induction vin arbitrary: i pv c)
  case Nil
  then show ?case by auto
next
  case (Cons txin vin)
  obtain coin d where ac: "AccessCoin B c (prevout txin) = (coin, d)" by (cases "AccessCoin B c (prevout txin)")
  note o = AccessCoin_ok [OF Cons.prems(1) ac]
  show ?case
  proof (cases "IsSpent coin")
    case True
    then show ?thesis using Cons.prems(2) ac o by auto
  next
    case False
    have sc: "cache_contents c (prevout txin) = Some coin" using o False by (metis (no_types))
    define chk where "chk = input_check (cache_contents c) tx fl txdata i txin"
    have chk: "\<lparr>m_tx_out = coin_out coin, ptxTo = tx, nIn = i, nFlags = fl, sk_txdata = txdata\<rparr> = chk"
      by (simp add: chk_def input_check_def sc)
    have up: "[i..<i + length (txin # vin)] = i # [Suc i..<Suc i + length vin]" by (simp add: upt_rec)
    show ?thesis
    proof (cases queue)
      case True
      then have r: "check_scripts env B tx fl txdata queue (Suc i) vin (pv @ [chk]) d = (r, c')"
        using Cons.prems(2) ac False chk by (simp add: Let_def)
      from Cons.IH [OF _ r] o have IH: "cache_ok c' \<and> cache_contents c' = cache_contents c \<and> cache_best c' = cache_best c \<and>
         (\<forall>checks. r = Inr checks \<longrightarrow> (\<forall>txin\<in>set vin. cache_contents c (prevout txin) \<noteq> None) \<and>
           checks = (pv @ [chk]) @ map2 (input_check (cache_contents c) tx fl txdata) [Suc i..<Suc i + length vin] vin)"
        using True by simp
      then show ?thesis using True sc unfolding up by (auto simp: chk_def)
    next
      case nq: False
      show ?thesis
      proof (cases "CScriptCheck_run env chk")
        case (Inl e)
        then show ?thesis using Cons.prems(2) ac False chk nq o by (cases e) (auto simp: Let_def)
      next
        case (Inr u)
        then have r: "check_scripts env B tx fl txdata queue (Suc i) vin pv d = (r, c')"
          using Cons.prems(2) ac False chk nq by (simp add: Let_def)
        from Cons.IH [OF _ r] o have IH: "cache_ok c' \<and> cache_contents c' = cache_contents c \<and> cache_best c' = cache_best c \<and>
           (\<forall>checks. r = Inr checks \<longrightarrow> (\<forall>txin\<in>set vin. cache_contents c (prevout txin) \<noteq> None) \<and> checks = pv \<and>
             (\<forall>j < length vin. CScriptCheck_run env (input_check (cache_contents c) tx fl txdata (Suc i + j) (vin ! j)) = Inr ()))"
          using nq by simp
        have "CScriptCheck_run env (input_check (cache_contents c) tx fl txdata (i + j) ((txin # vin) ! j)) = Inr ()"
          if "r = Inr checks" "j < length (txin # vin)" for checks j
          using that IH Inr by (cases j) (auto simp: chk_def)
        then show ?thesis using IH nq sc by auto
      qed
    qed
  qed
qed

lemma check_scripts_queue:
  "cache_ok c \<Longrightarrow> (\<forall>txin\<in>set vin. cache_contents c (prevout txin) \<noteq> None) \<Longrightarrow>
   \<exists>checks c'. check_scripts env B tx fl txdata True i vin pv c = (Inr checks, c')"
proof (induction vin arbitrary: i pv c)
  case (Cons txin vin)
  obtain coin d where ac: "AccessCoin B c (prevout txin) = (coin, d)" by (cases "AccessCoin B c (prevout txin)")
  note o = AccessCoin_ok [OF Cons.prems(1) ac]
  have ns: "\<not> IsSpent coin" using o Cons.prems(2) by auto
  have "\<forall>txin\<in>set vin. cache_contents d (prevout txin) \<noteq> None" using o Cons.prems(2) by simp
  with Cons.IH [of d] o ac ns show ?case by (simp add: Let_def)
qed auto

end

context coins_view
begin

text \<open>When all the inputs are there, the scripts pass if and only if the checks do, at once or in the queue.\<close>

lemma check_scripts_direct:
  "cache_ok c \<Longrightarrow> (\<forall>txin\<in>set vin. cache_contents c (prevout txin) \<noteq> None) \<Longrightarrow>
   (\<forall>j < length vin. CScriptCheck_run env (input_check (cache_contents c) tx fl txdata (i + j) (vin ! j)) = Inr ()) \<Longrightarrow>
   fst (check_scripts env B tx fl txdata False i vin pv c) = Inr pv"
proof (induction vin arbitrary: i c)
  case (Cons txin vin)
  obtain coin d where ac: "AccessCoin B c (prevout txin) = (coin, d)" by (cases "AccessCoin B c (prevout txin)")
  note o = AccessCoin_ok [OF Cons.prems(1) ac]
  have ns: "\<not> IsSpent coin" and sc: "cache_contents c (prevout txin) = Some coin"
    using o Cons.prems(2) by (auto split: if_splits)
  have run: "CScriptCheck_run env (input_check (cache_contents c) tx fl txdata i txin) = Inr ()"
    using Cons.prems(3) by (metis add_0_right length_greater_0_conv list.distinct(1) nth_Cons_0)
  have "\<forall>j < length vin. CScriptCheck_run env (input_check (cache_contents d) tx fl txdata (Suc i + j) (vin ! j)) = Inr ()"
    using Cons.prems(3) o by (metis (no_types) Suc_mono add_Suc_shift length_Cons nth_Cons_Suc)
  moreover have "\<forall>txin\<in>set vin. cache_contents d (prevout txin) \<noteq> None" using o Cons.prems(2) by simp
  ultimately have "fst (check_scripts env B tx fl txdata False (Suc i) vin pv d) = Inr pv" using Cons.IH o by blast
  then show ?case using ac ns run sc by (simp add: Let_def input_check_def)
qed simp

theorem CheckInputs_ok:
  assumes c: "cache_ok c"
    and r: "CheckInputs env B nonce tx c fScriptChecks fl store txdata queue sc = (r, c', sc')"
  shows "cache_ok c' \<and> cache_contents c' = cache_contents c \<and> cache_best c' = cache_best c"
    and "r = Inr checks \<Longrightarrow> \<not> IsCoinBase tx \<Longrightarrow> fScriptChecks \<Longrightarrow>
      \<not> fst (cache_contains SignatureCacheHasher sc (script_cache_entry env nonce tx fl) (\<not> store)) \<Longrightarrow>
      list_all (\<lambda>chk. CScriptCheck_run env chk = Inr ()) checks \<Longrightarrow> scripts_pass env (cache_contents c) tx fl txdata"
proof -
  obtain hit sc1 where h: "cache_contains SignatureCacheHasher sc (script_cache_entry env nonce tx fl) (\<not> store) = (hit, sc1)"
    by (cases "cache_contains SignatureCacheHasher sc (script_cache_entry env nonce tx fl) (\<not> store)")
  obtain q d where s: "check_scripts env B tx fl txdata queue 0 (tx_vin tx) [] c = (q, d)"
    by (cases "check_scripts env B tx fl txdata queue 0 (tx_vin tx) [] c")
  note o = check_scripts_ok [OF c s]
  show "cache_ok c' \<and> cache_contents c' = cache_contents c \<and> cache_best c' = cache_best c"
    using r h s o c by (auto simp: CheckInputs_def Let_def split: if_splits sum.splits)
  assume a: "r = Inr checks" "\<not> IsCoinBase tx" fScriptChecks
    "\<not> fst (cache_contains SignatureCacheHasher sc (script_cache_entry env nonce tx fl) (\<not> store))"
    and all: "list_all (\<lambda>chk. CScriptCheck_run env chk = Inr ()) checks"
  then have q: "q = Inr checks" using r h s by (auto simp: CheckInputs_def Let_def split: if_splits sum.splits)
  show "scripts_pass env (cache_contents c) tx fl txdata"
  proof (cases queue)
    case True
    then have "checks = map2 (input_check (cache_contents c) tx fl txdata) [0..<length (tx_vin tx)] (tx_vin tx)"
      using o q by simp
    with all show ?thesis by (simp add: scripts_pass_def list_all_length)
  next
    case False
    then show ?thesis using o q by (simp add: scripts_pass_def)
  qed
qed

theorem CheckInputs_queue_direct:
  assumes c: "cache_ok c" and ins: "\<forall>txin\<in>set (tx_vin tx). cache_contents c (prevout txin) \<noteq> None"
  shows "(\<exists>checks. fst (CheckInputs env B nonce tx c fScriptChecks fl store txdata True sc) = Inr checks \<and>
      list_all (\<lambda>chk. CScriptCheck_run env chk = Inr ()) checks) \<longleftrightarrow>
    fst (CheckInputs env B nonce tx c fScriptChecks fl store txdata False sc) = Inr []"
proof -
  obtain hit sc1 where h: "cache_contains SignatureCacheHasher sc (script_cache_entry env nonce tx fl) (\<not> store) = (hit, sc1)"
    by (cases "cache_contains SignatureCacheHasher sc (script_cache_entry env nonce tx fl) (\<not> store)")
  obtain checks d where q: "check_scripts env B tx fl txdata True 0 (tx_vin tx) [] c = (Inr checks, d)"
    using check_scripts_queue [OF c ins] by blast
  have ck: "checks = map2 (input_check (cache_contents c) tx fl txdata) [0..<length (tx_vin tx)] (tx_vin tx)"
    using check_scripts_ok [OF c q] by simp
  obtain r e where s: "check_scripts env B tx fl txdata False 0 (tx_vin tx) [] c = (r, e)"
    by (cases "check_scripts env B tx fl txdata False 0 (tx_vin tx) [] c")
  have pass: "list_all (\<lambda>chk. CScriptCheck_run env chk = Inr ()) checks \<longleftrightarrow> scripts_pass env (cache_contents c) tx fl txdata"
    by (simp add: ck scripts_pass_def list_all_length)
  have "r = Inr [] \<longleftrightarrow> scripts_pass env (cache_contents c) tx fl txdata"
  proof
    assume "r = Inr []"
    then show "scripts_pass env (cache_contents c) tx fl txdata"
      using check_scripts_ok [OF c s] by (simp add: scripts_pass_def)
  next
    assume "scripts_pass env (cache_contents c) tx fl txdata"
    then show "r = Inr []" using check_scripts_direct [OF c ins, of env tx fl txdata 0 "[]"] s by (simp add: scripts_pass_def)
  qed
  moreover have "r = Inr xs \<Longrightarrow> xs = []" for xs using check_scripts_ok [OF c s] by auto
  ultimately show ?thesis using h q s pass
    by (cases r) (auto simp: CheckInputs_def Let_def)
qed

end

end
