(* ===== verification/BlockFiles.thy ===== *)
theory BlockFiles imports DiskIndex Compressor Pow
begin

text \<open>
  The block and undo files, \<^verbatim>\<open>src/src/validation.cpp\<close>: where the next block and the undo data of a block go
  (\<open>FindBlockPos\<close>, \<open>FindUndoPos\<close>), the preallocation and truncation of the files, and the records that are
  written and read.  A file is the bytes it holds; opening for writing and writing always succeed here, and
  the free space of the disk is a parameter.  What has been written is read back, and nothing that is
  written or truncated later touches it.
\<close>

unbundle bit_operations_syntax

section \<open>Files\<close>

type_synonym files = "nat \<Rightarrow> bytes option"

record disk_state =
  blk_files :: files
  rev_files :: files
  vinfoBlockFile :: "CBlockFileInfo list"
  nLastBlockFile :: nat
  setDirtyFileInfo :: "nat list"
  fCheckForPruning :: bool

record disk_env =
  fPruneMode :: bool
  nFreeBytesAvailable :: nat
  messageStart :: bytes

definition MAX_BLOCKFILE_SIZE :: u32 where "MAX_BLOCKFILE_SIZE = 0x8000000"
definition BLOCKFILE_CHUNK_SIZE :: u32 where "BLOCKFILE_CHUNK_SIZE = 0x1000000"
definition UNDOFILE_CHUNK_SIZE :: u32 where "UNDOFILE_CHUNK_SIZE = 0x100000"
definition nMinDiskSpace :: nat where "nMinDiskSpace = 52428800"

definition CheckDiskSpace :: "disk_env \<Rightarrow> u32 \<Rightarrow> bool" where
  "CheckDiskSpace env nAdditionalBytes \<longleftrightarrow> \<not> nFreeBytesAvailable env < nMinDiskSpace + unat nAdditionalBytes"

text \<open>Opened for writing a file exists; a write behind its end leaves zeros.\<close>

definition open_rw :: "bytes option \<Rightarrow> bytes" where
  "open_rw f = (case f of None \<Rightarrow> [] | Some d \<Rightarrow> d)"

definition file_write :: "nat \<Rightarrow> bytes \<Rightarrow> bytes \<Rightarrow> bytes" where
  "file_write pos data d =
     (let d = d @ replicate (pos - length d) 0 in take pos d @ data @ drop (pos + length data) d)"

definition AllocateFileRange :: "nat \<Rightarrow> nat \<Rightarrow> bytes \<Rightarrow> bytes" where
  "AllocateFileRange offset len d = d @ replicate (offset + len - length d) 0"

definition TruncateFile :: "nat \<Rightarrow> bytes \<Rightarrow> bytes" where
  "TruncateFile len d = take len d @ replicate (len - length d) 0"

definition FlushBlockFile :: "bool \<Rightarrow> disk_state \<Rightarrow> disk_state" where
  "FlushBlockFile fFinalize st =
     (let f = nLastBlockFile st; blk = open_rw (blk_files st f); rev = open_rw (rev_files st f);
          info = vinfoBlockFile st ! f in
      st\<lparr>blk_files := (blk_files st)(f \<mapsto> if fFinalize then TruncateFile (unat (fi_nSize info)) blk else blk),
         rev_files := (rev_files st)(f \<mapsto> if fFinalize then TruncateFile (unat (nUndoSize info)) rev else rev)\<rparr>)"

section \<open>Where a block goes\<close>

definition resize_infos :: "nat \<Rightarrow> CBlockFileInfo list \<Rightarrow> CBlockFileInfo list" where
  "resize_infos n infos = infos @ replicate (n - length infos) CBlockFileInfo_null"

text \<open>The loop over the files that are full; it does not end when no file can ever hold the block.\<close>

partial_function (option) find_file :: "u32 \<Rightarrow> CBlockFileInfo list \<Rightarrow> nat \<Rightarrow> (CBlockFileInfo list \<times> nat) option" where
  "find_file nAddSize infos fno =
     (if MAX_BLOCKFILE_SIZE \<le> fi_nSize (infos ! fno) + nAddSize
      then find_file nAddSize (resize_infos (fno + 2) infos) (fno + 1)
      else Some (infos, fno))"

definition chunks :: "u32 \<Rightarrow> u32 \<Rightarrow> u32" where
  "chunks chunk n = (n + chunk - 1) div chunk"

text \<open>The file is extended when the data reach another chunk; \<open>None\<close>: not enough space.\<close>

definition preallocate :: "disk_env \<Rightarrow> u32 \<Rightarrow> u32 \<Rightarrow> u32 \<Rightarrow> bytes option \<Rightarrow> bool \<Rightarrow> (bytes option \<times> bool) option" where
  "preallocate env chunk old new f check =
     (if chunks chunk old < chunks chunk new then
        let check = (if fPruneMode env then True else check); len = chunks chunk new * chunk - old in
        if CheckDiskSpace env len then Some (Some (AllocateFileRange (unat old) (unat len) (open_rw f)), check)
        else None
      else Some (f, check))"

definition change_file :: "bool \<Rightarrow> nat \<Rightarrow> disk_state \<Rightarrow> disk_state" where
  "change_file fKnown fno st =
     (if fno \<noteq> nLastBlockFile st then (FlushBlockFile (\<not> fKnown) st)\<lparr>nLastBlockFile := fno\<rparr> else st)"

definition set_info :: "nat \<Rightarrow> CBlockFileInfo \<Rightarrow> disk_state \<Rightarrow> disk_state" where
  "set_info fno info st = st\<lparr>vinfoBlockFile := (vinfoBlockFile st)[fno := info]\<rparr>"

definition set_dirty_file :: "nat \<Rightarrow> disk_state \<Rightarrow> disk_state" where
  "set_dirty_file fno st = st\<lparr>setDirtyFileInfo := List.insert fno (setDirtyFileInfo st)\<rparr>"

text \<open>The part behind the search for a file.\<close>

definition take_place ::
  "disk_env \<Rightarrow> CDiskBlockPos \<Rightarrow> u32 \<Rightarrow> u32 \<Rightarrow> u64 \<Rightarrow> bool \<Rightarrow> nat \<Rightarrow> disk_state \<Rightarrow> bool \<times> CDiskBlockPos \<times> disk_state" where
  "take_place env pos nAddSize height time fKnown fno st =
     (let st = change_file fKnown fno st; info = AddBlock (vinfoBlockFile st ! fno) height time;
          info = info\<lparr>fi_nSize := if fKnown then max (pos_nPos pos + nAddSize) (fi_nSize info) else fi_nSize info + nAddSize\<rparr>;
          st = set_info fno info st in
      if fKnown then (True, pos, set_dirty_file fno st)
      else case preallocate env BLOCKFILE_CHUNK_SIZE (pos_nPos pos) (fi_nSize info) (blk_files st fno) (fCheckForPruning st) of
        None \<Rightarrow> (False, pos, st\<lparr>fCheckForPruning := if fPruneMode env then True else fCheckForPruning st\<rparr>)
      | Some (f, check) \<Rightarrow>
          (True, pos, set_dirty_file fno (st\<lparr>blk_files := (blk_files st)(fno := f), fCheckForPruning := check\<rparr>)))"

definition FindBlockPos ::
  "disk_env \<Rightarrow> CDiskBlockPos \<Rightarrow> u32 \<Rightarrow> u32 \<Rightarrow> u64 \<Rightarrow> bool \<Rightarrow> disk_state \<Rightarrow> (bool \<times> CDiskBlockPos \<times> disk_state) option" where
  "FindBlockPos env pos nAddSize height time fKnown st =
     (let fno = (if fKnown then nat (pos_nFile pos) else nLastBlockFile st);
          infos = resize_infos (fno + 1) (vinfoBlockFile st) in
      Option.bind (if fKnown then Some (infos, fno) else find_file nAddSize infos fno) (\<lambda>(infos, fno).
        Some (take_place env (if fKnown then pos else \<lparr>pos_nFile = int fno, pos_nPos = fi_nSize (infos ! fno)\<rparr>)
          nAddSize height time fKnown fno (st\<lparr>vinfoBlockFile := infos\<rparr>))))"

definition FindUndoPos :: "disk_env \<Rightarrow> nat \<Rightarrow> u32 \<Rightarrow> disk_state \<Rightarrow> bool \<times> CDiskBlockPos \<times> disk_state" where
  "FindUndoPos env fno nAddSize st =
     (let info = vinfoBlockFile st ! fno; pos = \<lparr>pos_nFile = int fno, pos_nPos = nUndoSize info\<rparr>;
          nNewSize = nUndoSize info + nAddSize;
          st = st\<lparr>vinfoBlockFile := (vinfoBlockFile st)[fno := info\<lparr>nUndoSize := nNewSize\<rparr>],
            setDirtyFileInfo := List.insert fno (setDirtyFileInfo st)\<rparr> in
      case preallocate env UNDOFILE_CHUNK_SIZE (pos_nPos pos) nNewSize (rev_files st fno) (fCheckForPruning st) of
        None \<Rightarrow> (False, pos, st\<lparr>fCheckForPruning := if fPruneMode env then True else fCheckForPruning st\<rparr>)
      | Some (f, check) \<Rightarrow> (True, pos, st\<lparr>rev_files := (rev_files st)(fno := f), fCheckForPruning := check\<rparr>))"

section \<open>Records\<close>

text \<open>The magic bytes and the size, then the block; the position returned is that of the block.\<close>

definition record_bytes :: "disk_env \<Rightarrow> bytes \<Rightarrow> bytes" where
  "record_bytes env data = messageStart env @ ser_writedata32 (of_nat (length data)) @ data"

definition WriteBlockToDisk ::
  "disk_env \<Rightarrow> CBlock \<Rightarrow> CDiskBlockPos \<Rightarrow> disk_state \<Rightarrow> (CDiskBlockPos \<times> disk_state) option" where
  "WriteBlockToDisk env block pos st =
     (if CDiskBlockPos_IsNull pos then None
      else let f = nat (pos_nFile pos); data = Serialize_CBlock True block in
        Some (pos\<lparr>pos_nPos := of_nat (unat (pos_nPos pos) + length (messageStart env) + 4)\<rparr>,
          st\<lparr>blk_files := (blk_files st)(f \<mapsto>
            file_write (unat (pos_nPos pos)) (record_bytes env data) (open_rw (blk_files st f)))\<rparr>))"

definition ReadBlockFromDisk ::
  "(bytes \<Rightarrow> bytes) \<Rightarrow> (CBlockHeader \<Rightarrow> bool) \<Rightarrow> Consensus_Params \<Rightarrow> CDiskBlockPos \<Rightarrow> disk_state \<Rightarrow> CBlock option" where
  "ReadBlockFromDisk h equihash params pos st =
     (if CDiskBlockPos_IsNull pos then None
      else case blk_files st (nat (pos_nFile pos)) of None \<Rightarrow> None
      | Some d \<Rightarrow>
          (case Unserialize_CBlock True (drop (unat (pos_nPos pos)) d) of
             Inl e \<Rightarrow> None
           | Inr (block, _) \<Rightarrow>
               if \<not> equihash (GetBlockHeader block) then None
               else if \<not> CheckProofOfWork (BlockHeader_GetHash h (GetBlockHeader block)) (nBits block) params then None
               else Some block))"

text \<open>By an entry of the index.\<close>

definition ReadBlockFromDisk_index ::
  "(bytes \<Rightarrow> bytes) \<Rightarrow> (CBlockHeader \<Rightarrow> bool) \<Rightarrow> Consensus_Params \<Rightarrow> CBlockIndex \<Rightarrow> disk_state \<Rightarrow> chain_fault + CBlock option" where
  "ReadBlockFromDisk_index h equihash params pindex st =
     (case ReadBlockFromDisk h equihash params (GetBlockPos pindex) st of
        None \<Rightarrow> Inr None
      | Some block \<Rightarrow> bind_sum (GetBlockHash pindex) (\<lambda>hash.
          Inr (if BlockHeader_GetHash h (GetBlockHeader block) \<noteq> hash then None else Some block)))"

text \<open>The position of a block that is stored, null when that fails; \<open>dbp\<close> is where it is known to be already.\<close>

definition SaveBlockToDisk ::
  "disk_env \<Rightarrow> CBlock \<Rightarrow> u32 \<Rightarrow> CDiskBlockPos option \<Rightarrow> disk_state \<Rightarrow> (CDiskBlockPos \<times> disk_state) option" where
  "SaveBlockToDisk env block height dbp st =
     (let nBlockSize = of_nat (length (Serialize_CBlock True block));
          pos = (case dbp of None \<Rightarrow> CDiskBlockPos_null | Some p \<Rightarrow> p) in
      Option.bind (FindBlockPos env pos (nBlockSize + 8) height (ucast (nTime block)) (dbp \<noteq> None) st) (\<lambda>(ok, pos, st).
        Some (if \<not> ok then (CDiskBlockPos_null, st)
              else if dbp = None then (case WriteBlockToDisk env block pos st of
                  None \<Rightarrow> (CDiskBlockPos_null, st) | Some r \<Rightarrow> r)
              else (pos, st))))"

definition undo_checksum :: "(bytes \<Rightarrow> bytes) \<Rightarrow> uint256 \<Rightarrow> bytes \<Rightarrow> uint256" where
  "undo_checksum h prevHash data = uint256_of (h (Serialize_uint256 prevHash @ data))"

definition UndoWriteToDisk ::
  "disk_env \<Rightarrow> (bytes \<Rightarrow> bytes) \<Rightarrow> Coin list list \<Rightarrow> CDiskBlockPos \<Rightarrow> uint256 \<Rightarrow> disk_state \<Rightarrow> (CDiskBlockPos \<times> disk_state) option" where
  "UndoWriteToDisk env h blockundo pos prevHash st =
     (if CDiskBlockPos_IsNull pos then None
      else let f = nat (pos_nFile pos); data = Serialize_CBlockUndo blockundo in
        Some (pos\<lparr>pos_nPos := of_nat (unat (pos_nPos pos) + length (messageStart env) + 4)\<rparr>,
          st\<lparr>rev_files := (rev_files st)(f \<mapsto>
            file_write (unat (pos_nPos pos)) (record_bytes env data @ Serialize_uint256 (undo_checksum h prevHash data))
              (open_rw (rev_files st f)))\<rparr>))"

text \<open>The checksum is over the bytes that were read, behind the hash of the previous block.\<close>

definition UndoReadFromDisk ::
  "(bytes \<Rightarrow> bytes) \<Rightarrow> CDiskBlockPos \<Rightarrow> uint256 \<Rightarrow> disk_state \<Rightarrow> Coin list list option" where
  "UndoReadFromDisk h pos prevHash st =
     (if CDiskBlockPos_IsNull pos then None
      else case rev_files st (nat (pos_nFile pos)) of None \<Rightarrow> None
      | Some d \<Rightarrow>
          let s = drop (unat (pos_nPos pos)) d in
          (case Unserialize_CBlockUndo s of Inl e \<Rightarrow> None
           | Inr (blockundo, rest) \<Rightarrow>
               (case Unserialize_uint256 rest of Inl e \<Rightarrow> None
                | Inr (hashChecksum, _) \<Rightarrow>
                    if hashChecksum \<noteq> undo_checksum h prevHash (take (length s - length rest) s) then None
                    else Some blockundo)))"

definition WriteUndoDataForBlock ::
  "disk_env \<Rightarrow> (bytes \<Rightarrow> bytes) \<Rightarrow> Coin list list \<Rightarrow> CBlockIndex \<Rightarrow> uint256 \<Rightarrow> disk_state \<Rightarrow> bool \<times> CBlockIndex \<times> disk_state" where
  "WriteUndoDataForBlock env h blockundo pindex prevHash st =
     (if CDiskBlockPos_IsNull (GetUndoPos pindex) then
        (case FindUndoPos env (nat (nFile pindex)) (of_nat (length (Serialize_CBlockUndo blockundo)) + 40) st of
           (False, _, st) \<Rightarrow> (False, pindex, st)
         | (True, pos, st) \<Rightarrow>
             (case UndoWriteToDisk env h blockundo pos prevHash st of
                None \<Rightarrow> (False, pindex, st)
              | Some (pos, st) \<Rightarrow>
                  (True, pindex\<lparr>nUndoPos := pos_nPos pos, nStatus := nStatus pindex OR BLOCK_HAVE_UNDO\<rparr>, st)))
      else (True, pindex, st))"

section \<open>What a file holds\<close>

definition holds :: "bytes \<Rightarrow> nat \<Rightarrow> bytes \<Rightarrow> bool" where
  "holds d n bs \<longleftrightarrow> n + length bs \<le> length d \<and> take (length bs) (drop n d) = bs"

lemma holds_nth: "holds d n bs \<longleftrightarrow> n + length bs \<le> length d \<and> (\<forall>i < length bs. d ! (n + i) = bs ! i)"
  by (auto simp: holds_def list_eq_iff_nth_eq min_def)

lemma holds_written: "holds (file_write pos data d) pos data"
  by (auto simp: holds_nth file_write_def Let_def nth_append min_def)

lemma holds_write: "holds d n bs \<Longrightarrow> n + length bs \<le> pos \<Longrightarrow> holds (file_write pos data d) n bs"
  by (auto simp: holds_nth file_write_def Let_def nth_append min_def)

lemma holds_allocate: "holds d n bs \<Longrightarrow> holds (AllocateFileRange offset len d) n bs"
  by (auto simp: holds_nth AllocateFileRange_def nth_append)

lemma holds_truncate: "holds d n bs \<Longrightarrow> n + length bs \<le> len \<Longrightarrow> holds (TruncateFile len d) n bs"
  by (auto simp: holds_nth TruncateFile_def nth_append min_def)

lemma holds_append: "holds d n (xs @ ys) \<Longrightarrow> holds d (n + length xs) ys"
  by (auto simp: holds_nth nth_append add.assoc)

lemma holds_drop: "holds d n bs \<Longrightarrow> \<exists>rest. drop n d = bs @ rest"
  unfolding holds_def by (metis append_take_drop_id)

text \<open>Bytes that belong to a block in a file: below the size that is recorded for it.\<close>

definition block_stored :: "disk_state \<Rightarrow> nat \<Rightarrow> nat \<Rightarrow> bytes \<Rightarrow> bool" where
  "block_stored st f n bs \<longleftrightarrow> f < length (vinfoBlockFile st) \<and> n + length bs \<le> unat (fi_nSize (vinfoBlockFile st ! f)) \<and>
     (\<exists>d. blk_files st f = Some d \<and> holds d n bs)"

definition undo_stored :: "disk_state \<Rightarrow> nat \<Rightarrow> nat \<Rightarrow> bytes \<Rightarrow> bool" where
  "undo_stored st f n bs \<longleftrightarrow> f < length (vinfoBlockFile st) \<and> n + length bs \<le> unat (nUndoSize (vinfoBlockFile st ! f)) \<and>
     (\<exists>d. rev_files st f = Some d \<and> holds d n bs)"

definition sizes_ok :: "disk_state \<Rightarrow> bool" where
  "sizes_ok st \<longleftrightarrow> list_all (\<lambda>info. unat (fi_nSize info) < 2 ^ 31) (vinfoBlockFile st)"

section \<open>The loop ends\<close>

lemma resize_infos_simps [simp]:
  "length (resize_infos n infos) = max n (length infos)" "i < length infos \<Longrightarrow> resize_infos n infos ! i = infos ! i"
  "length infos \<le> i \<Longrightarrow> i < n \<Longrightarrow> resize_infos n infos ! i = CBlockFileInfo_null"
  by (auto simp: resize_infos_def nth_append)

lemma find_file_ends:
  assumes "nAddSize < MAX_BLOCKFILE_SIZE"
  shows "f < length infos \<Longrightarrow> \<exists>infos' f'. find_file nAddSize infos f = Some (infos', f') \<and> f' < length infos' \<and>
    fi_nSize (infos' ! f') + nAddSize < MAX_BLOCKFILE_SIZE \<and> length infos \<le> length infos' \<and>
    (\<forall>i < length infos'. infos' ! i = (if i < length infos then infos ! i else CBlockFileInfo_null))"
proof (induction "length infos - f" arbitrary: infos f rule: less_induct)
  case less
  show ?case
  proof (cases "MAX_BLOCKFILE_SIZE \<le> fi_nSize (infos ! f) + nAddSize")
    case False
    then have "find_file nAddSize infos f = Some (infos, f)" by (subst find_file.simps) simp
    then show ?thesis using less.prems False by (auto simp: not_le)
  next
    case True
    let ?r = "resize_infos (f + 2) infos"
    show ?thesis
    proof (cases "f + 1 < length infos")
      case True': True
      then have r: "?r = infos" by (simp add: resize_infos_def)
      have "find_file nAddSize infos f = find_file nAddSize infos (f + 1)"
        using True by (subst find_file.simps) (simp add: r [simplified])
      with less.hyps [of infos "f + 1"] True' less.prems show ?thesis by simp
    next
      case False
      then have l: "length infos = f + 1" using less.prems by simp
      have "?r ! (f + 1) = CBlockFileInfo_null" using l by simp
      then have "find_file nAddSize ?r (f + 1) = Some (?r, f + 1)"
        using assms by (subst find_file.simps) (auto simp: CBlockFileInfo_null_def)
      moreover have "fi_nSize (?r ! (f + 1)) + nAddSize < MAX_BLOCKFILE_SIZE"
        using assms l by (simp add: CBlockFileInfo_null_def)
      ultimately show ?thesis using True l
        by (subst find_file.simps) auto
    qed
  qed
qed

section \<open>Storing a block\<close>

lemma AddBlock_sizes [simp]: "fi_nSize (AddBlock info height time) = fi_nSize info" "nUndoSize (AddBlock info height time) = nUndoSize info"
  by (simp_all add: AddBlock_def Let_def)

lemma preallocate_holds:
  assumes "preallocate env chunk old new f check = Some (f', check')"
  shows "f = Some d \<Longrightarrow> \<exists>d'. f' = Some d' \<and> (\<forall>n bs. holds d n bs \<longrightarrow> holds d' n bs)"
  using assms by (auto simp: preallocate_def Let_def open_rw_def holds_allocate split: if_splits)

lemma FlushBlockFile_stored:
  assumes "nLastBlockFile st < length (vinfoBlockFile st)"
  shows "block_stored st f n bs \<Longrightarrow> block_stored (FlushBlockFile fin st) f n bs"
    and "undo_stored st f n bs \<Longrightarrow> undo_stored (FlushBlockFile fin st) f n bs"
    and "vinfoBlockFile (FlushBlockFile fin st) = vinfoBlockFile st"
  by (auto simp: block_stored_def undo_stored_def FlushBlockFile_def Let_def open_rw_def holds_truncate)

text \<open>The position is at the end of a file, and what was stored stays.\<close>

lemma FindBlockPos_new:
  assumes r: "FindBlockPos env pos0 nAddSize height time False st = Some (True, pos, st')"
    and add: "nAddSize < MAX_BLOCKFILE_SIZE" and ok: "sizes_ok st" and lst: "nLastBlockFile st < length (vinfoBlockFile st)"
  shows "\<exists>f m. pos = \<lparr>pos_nFile = int f, pos_nPos = m\<rparr> \<and> f < length (vinfoBlockFile st') \<and> nLastBlockFile st' = f \<and>
    fi_nSize (vinfoBlockFile st' ! f) = m + nAddSize \<and> unat m + unat nAddSize < 2 ^ 27 \<and> sizes_ok st' \<and>
    (\<forall>g n bs. block_stored st g n bs \<longrightarrow> block_stored st' g n bs \<and> (g = f \<longrightarrow> n + length bs \<le> unat m)) \<and>
    (\<forall>g n bs. undo_stored st g n bs \<longrightarrow> undo_stored st' g n bs)"
proof -
  have rs: "resize_infos (nLastBlockFile st + 1) (vinfoBlockFile st) = vinfoBlockFile st"
    using lst by (simp add: resize_infos_def)
  from find_file_ends [OF add lst] obtain infos f where
    ff: "find_file nAddSize (vinfoBlockFile st) (nLastBlockFile st) = Some (infos, f)" "f < length infos"
      "fi_nSize (infos ! f) + nAddSize < MAX_BLOCKFILE_SIZE" "length (vinfoBlockFile st) \<le> length infos"
      "\<forall>i < length infos. infos ! i = (if i < length (vinfoBlockFile st) then vinfoBlockFile st ! i else CBlockFileInfo_null)"
    by blast
  define m where "m = fi_nSize (infos ! f)"
  have small: "\<forall>i < length infos. unat (fi_nSize (infos ! i)) < 2 ^ 31"
    using ok ff(5) by (auto simp: sizes_ok_def list_all_length CBlockFileInfo_null_def)
  have nowrap: "unat (m + nAddSize) = unat m + unat nAddSize"
    using small ff(2) add by (intro unat_plus_if' [THEN trans]) (auto simp: m_def word_less_nat_alt MAX_BLOCKFILE_SIZE_def)
  have lt: "unat m + unat nAddSize < 2 ^ 27"
    using ff(3) unfolding m_def [symmetric] word_less_nat_alt nowrap by (simp add: MAX_BLOCKFILE_SIZE_def)
  define st0 where "st0 = st\<lparr>vinfoBlockFile := infos\<rparr>"
  define st1 where "st1 = change_file False f st0"
  define info where "info = (AddBlock (infos ! f) height time)\<lparr>fi_nSize := m + nAddSize\<rparr>"
  define st2 where "st2 = set_info f info st1"
  have i2: "vinfoBlockFile st1 = infos" "nLastBlockFile st1 = f"
    by (auto simp: st1_def st0_def change_file_def FlushBlockFile_def Let_def)
  have tp: "(True, pos, st') = take_place env \<lparr>pos_nFile = int f, pos_nPos = m\<rparr> nAddSize height time False f st0"
    using r by (simp add: FindBlockPos_def rs [simplified] ff(1) m_def st0_def Let_def)
  have info': "(AddBlock (vinfoBlockFile st1 ! f) height time)\<lparr>fi_nSize := fi_nSize (AddBlock (vinfoBlockFile st1 ! f) height time) + nAddSize\<rparr> = info"
    by (simp add: info_def i2 m_def)
  have pos: "pos = \<lparr>pos_nFile = int f, pos_nPos = m\<rparr>"
    and st': "\<exists>b check. preallocate env BLOCKFILE_CHUNK_SIZE m (m + nAddSize) (blk_files st2 f) (fCheckForPruning st2) = Some (b, check) \<and>
      st' = set_dirty_file f (st2\<lparr>blk_files := (blk_files st2)(f := b), fCheckForPruning := check\<rparr>)"
    using tp unfolding take_place_def Let_def if_False simp_thms st1_def [symmetric] info' st2_def [symmetric] CDiskBlockPos.simps
    by (auto simp: info_def split: option.splits)
  have keep0: "block_stored st g n bs \<Longrightarrow> block_stored st0 g n bs" "undo_stored st g n bs \<Longrightarrow> undo_stored st0 g n bs" for g n bs
    using ff(4,5) by (auto simp: block_stored_def undo_stored_def st0_def)
  have l0: "nLastBlockFile st0 < length (vinfoBlockFile st0)" using lst ff(4) by (simp add: st0_def)
  have keep1: "block_stored st0 g n bs \<Longrightarrow> block_stored st1 g n bs" "undo_stored st0 g n bs \<Longrightarrow> undo_stored st1 g n bs" for g n bs
    using FlushBlockFile_stored(1) [OF l0, of g n bs True] FlushBlockFile_stored(2) [OF l0, of g n bs True] by (auto simp: st1_def change_file_def block_stored_def undo_stored_def)
  have keep2: "block_stored st1 g n bs \<Longrightarrow> block_stored st2 g n bs \<and> (g = f \<longrightarrow> n + length bs \<le> unat m)"
    "undo_stored st1 g n bs \<Longrightarrow> undo_stored st2 g n bs" for g n bs
    using ff(2) nowrap by (auto simp: block_stored_def undo_stored_def st2_def set_info_def i2 info_def m_def nth_list_update)
  obtain b check where b: "preallocate env BLOCKFILE_CHUNK_SIZE m (m + nAddSize) (blk_files st2 f) (fCheckForPruning st2) = Some (b, check)"
    and st'_eq: "st' = set_dirty_file f (st2\<lparr>blk_files := (blk_files st2)(f := b), fCheckForPruning := check\<rparr>)"
    using st' by blast
  have keep3: "block_stored st2 g n bs \<Longrightarrow> block_stored st' g n bs" "undo_stored st2 g n bs \<Longrightarrow> undo_stored st' g n bs" for g n bs
    using preallocate_holds [OF b] by (fastforce simp: block_stored_def undo_stored_def st'_eq set_dirty_file_def)+
  have v: "vinfoBlockFile st' = infos[f := info]" "nLastBlockFile st' = f" by (simp_all add: st'_eq st2_def i2 set_dirty_file_def set_info_def)
  have "sizes_ok st'"
    using small lt ff(2) by (auto simp: sizes_ok_def list_all_length v nth_list_update info_def nowrap)
  moreover have "fi_nSize (vinfoBlockFile st' ! f) = m + nAddSize" using ff(2) by (simp add: v info_def)
  moreover have "block_stored st' g n bs \<and> (g = f \<longrightarrow> n + length bs \<le> unat m)" if "block_stored st g n bs" for g n bs
    using keep2(1) [OF keep1(1) [OF keep0(1) [OF that]]] keep3(1) by blast
  moreover have "undo_stored st' g n bs" if "undo_stored st g n bs" for g n bs
    using keep3(2) [OF keep2(2) [OF keep1(2) [OF keep0(2) [OF that]]]] .
  ultimately show ?thesis using pos ff(2) v lt by auto
qed

theorem SaveBlockToDisk_stores:
  assumes r: "SaveBlockToDisk env block height None st = Some (pos, st')" and nn: "\<not> CDiskBlockPos_IsNull pos"
    and ok: "sizes_ok st" and lst: "nLastBlockFile st < length (vinfoBlockFile st)" and magic: "length (messageStart env) = 4"
    and size: "length (Serialize_CBlock True block) + 8 < 2 ^ 27"
  shows "block_stored st' (nat (pos_nFile pos)) (unat (pos_nPos pos)) (Serialize_CBlock True block) \<and> 0 \<le> pos_nFile pos \<and>
    sizes_ok st' \<and> nLastBlockFile st' < length (vinfoBlockFile st') \<and>
    (\<forall>g n bs. block_stored st g n bs \<longrightarrow> block_stored st' g n bs) \<and> (\<forall>g n bs. undo_stored st g n bs \<longrightarrow> undo_stored st' g n bs)"
proof -
  let ?data = "Serialize_CBlock True block"
  define add where "add = (of_nat (length ?data) + 8 :: u32)"
  have add: "unat add = length ?data + 8"
    using size by (simp add: add_def unat_word_ariths unsigned_of_nat take_bit_nat_eq_self)
  then have lt: "add < MAX_BLOCKFILE_SIZE" using size by (simp add: word_less_nat_alt MAX_BLOCKFILE_SIZE_def)
  obtain pos1 st1 where f: "FindBlockPos env CDiskBlockPos_null add height (ucast (nTime block)) False st = Some (True, pos1, st1)"
    and w: "WriteBlockToDisk env block pos1 st1 = Some (pos, st') \<or> (WriteBlockToDisk env block pos1 st1 = None \<and> pos = CDiskBlockPos_null)"
    using r nn by (auto simp: SaveBlockToDisk_def Let_def add_def CDiskBlockPos_IsNull_def CDiskBlockPos_null_def
        split: bind_splits prod.splits if_splits option.splits)
  from FindBlockPos_new [OF f lt ok lst] obtain k m where
    k: "pos1 = \<lparr>pos_nFile = int k, pos_nPos = m\<rparr>" "k < length (vinfoBlockFile st1)" "nLastBlockFile st1 = k"
      "fi_nSize (vinfoBlockFile st1 ! k) = m + add" "unat m + unat add < 2 ^ 27" "sizes_ok st1"
    and keep: "\<And>g n bs. block_stored st g n bs \<Longrightarrow> block_stored st1 g n bs \<and> (g = k \<longrightarrow> n + length bs \<le> unat m)"
      "\<And>g n bs. undo_stored st g n bs \<Longrightarrow> undo_stored st1 g n bs" by blast
  have pos: "pos = \<lparr>pos_nFile = int k, pos_nPos = of_nat (unat m + 8)\<rparr>"
    and st': "st' = st1\<lparr>blk_files := (blk_files st1)(k \<mapsto> file_write (unat m) (record_bytes env ?data) (open_rw (blk_files st1 k)))\<rparr>"
    using w nn by (auto simp: WriteBlockToDisk_def k(1) CDiskBlockPos_IsNull_def CDiskBlockPos_null_def Let_def magic)
  have p: "unat (pos_nPos pos) = unat m + 8"
    using k(5) add by (simp add: pos unat_word_ariths)
  have "holds (file_write (unat m) (record_bytes env ?data) d) (unat m + 8) ?data" for d
    using holds_append [of "file_write (unat m) (record_bytes env ?data) d" "unat m" "messageStart env @ ser_writedata32 (of_nat (length ?data))" ?data]
      holds_written [of "unat m" "record_bytes env ?data" d] magic
    by (simp add: record_bytes_def ser_writedata32_def)
  moreover have "unat (m + add) = unat m + unat add"
    using k(5) by (intro unat_plus_if' [THEN trans]) simp
  ultimately have "block_stored st' k (unat m + 8) ?data"
    using k(2,4) add by (simp add: block_stored_def st')
  moreover have "block_stored st' g n bs" if "block_stored st g n bs" for g n bs
    using keep(1) [OF that] by (auto simp: block_stored_def st' open_rw_def holds_write)
  moreover have "undo_stored st' g n bs" if "undo_stored st g n bs" for g n bs
    using keep(2) [OF that] by (auto simp: undo_stored_def st')
  ultimately show ?thesis using p k(2,3,6) by (auto simp: pos st' sizes_ok_def)
qed

theorem ReadBlockFromDisk_stored:
  assumes "block_stored st (nat (pos_nFile pos)) (unat (pos_nPos pos)) (Serialize_CBlock True block)" and "0 \<le> pos_nFile pos"
    and "block_ok block" and "equihash (GetBlockHeader block)"
    and "CheckProofOfWork (BlockHeader_GetHash h (GetBlockHeader block)) (nBits block) params"
  shows "ReadBlockFromDisk h equihash params pos st = Some block"
proof -
  from assms(1) obtain d rest where "blk_files st (nat (pos_nFile pos)) = Some d"
    "drop (unat (pos_nPos pos)) d = Serialize_CBlock True block @ rest"
    unfolding block_stored_def using holds_drop by blast
  then show ?thesis using assms(2-5) block.unser_ser [OF assms(3)]
    by (simp add: ReadBlockFromDisk_def CDiskBlockPos_IsNull_def)
qed

section \<open>Storing undo data\<close>

lemma length_checksum [simp]: "length (Serialize_uint256 w) = 32"
  by (simp add: Serialize_uint256_def)

theorem WriteUndoData_stores:
  assumes r: "WriteUndoDataForBlock env h undo pindex prevHash st = (True, pindex', st')"
    and none: "CDiskBlockPos_IsNull (GetUndoPos pindex)" and magic: "length (messageStart env) = 4"
    and fno: "nat (nFile pindex) < length (vinfoBlockFile st)"
    and size: "unat (nUndoSize (vinfoBlockFile st ! nat (nFile pindex))) + length (Serialize_CBlockUndo undo) + 40 < 2 ^ 32"
  shows "pindex' = pindex\<lparr>nUndoPos := nUndoPos pindex', nStatus := nStatus pindex OR BLOCK_HAVE_UNDO\<rparr> \<and>
    undo_stored st' (nat (nFile pindex)) (unat (nUndoPos pindex'))
      (Serialize_CBlockUndo undo @ Serialize_uint256 (undo_checksum h prevHash (Serialize_CBlockUndo undo))) \<and>
    (\<forall>g n bs. block_stored st g n bs \<longrightarrow> block_stored st' g n bs) \<and> (\<forall>g n bs. undo_stored st g n bs \<longrightarrow> undo_stored st' g n bs)"
proof -
  let ?data = "Serialize_CBlockUndo undo"
  let ?tail = "?data @ Serialize_uint256 (undo_checksum h prevHash ?data)"
  define f where "f = nat (nFile pindex)"
  note r = r [unfolded WriteUndoDataForBlock_def, folded f_def]
  note fno = fno [folded f_def] and size = size [folded f_def]
  define m where "m = nUndoSize (vinfoBlockFile st ! f)"
  define add where "add = (of_nat (length ?data) + 40 :: u32)"
  have add: "unat add = length ?data + 40" and nowrap: "unat (m + add) = unat m + unat add"
    using size by (simp_all add: add_def m_def unat_word_ariths unsigned_of_nat take_bit_nat_eq_self)
  define info where "info = (vinfoBlockFile st ! f)\<lparr>nUndoSize := m + add\<rparr>"
  define st1 where "st1 = st\<lparr>vinfoBlockFile := (vinfoBlockFile st)[f := info],
    setDirtyFileInfo := List.insert f (setDirtyFileInfo st)\<rparr>"
  have "\<exists>b check. preallocate env UNDOFILE_CHUNK_SIZE m (m + add) (rev_files st f) (fCheckForPruning st1) = Some (b, check) \<and>
    UndoWriteToDisk env h undo \<lparr>pos_nFile = int f, pos_nPos = m\<rparr> prevHash
      (st1\<lparr>rev_files := (rev_files st)(f := b), fCheckForPruning := check\<rparr>) = Some (\<lparr>pos_nFile = int f, pos_nPos = nUndoPos pindex'\<rparr>, st') \<and>
    pindex' = pindex\<lparr>nUndoPos := nUndoPos pindex', nStatus := nStatus pindex OR BLOCK_HAVE_UNDO\<rparr>"
    using r none by (auto simp: FindUndoPos_def Let_def m_def add_def info_def st1_def UndoWriteToDisk_def
        CDiskBlockPos_IsNull_def split: option.splits)
  then obtain b check where b: "preallocate env UNDOFILE_CHUNK_SIZE m (m + add) (rev_files st f) (fCheckForPruning st1) = Some (b, check)"
    and w: "UndoWriteToDisk env h undo \<lparr>pos_nFile = int f, pos_nPos = m\<rparr> prevHash
      (st1\<lparr>rev_files := (rev_files st)(f := b), fCheckForPruning := check\<rparr>) = Some (\<lparr>pos_nFile = int f, pos_nPos = nUndoPos pindex'\<rparr>, st')"
    and p': "pindex' = pindex\<lparr>nUndoPos := nUndoPos pindex', nStatus := nStatus pindex OR BLOCK_HAVE_UNDO\<rparr>" by blast
  have st': "st' = st1\<lparr>rev_files := (rev_files st)(f \<mapsto> file_write (unat m) (record_bytes env ?data @
      Serialize_uint256 (undo_checksum h prevHash ?data)) (open_rw b)), fCheckForPruning := check\<rparr>"
    and q: "nUndoPos pindex' = of_nat (unat m + 8)"
    using w by (auto simp: UndoWriteToDisk_def CDiskBlockPos_IsNull_def Let_def magic add.commute)
  have q8: "unat (nUndoPos pindex') = unat m + 8" using size by (simp add: q m_def unat_word_ariths)
  have info: "vinfoBlockFile st1 = (vinfoBlockFile st)[f := info]" by (simp add: st1_def)
  have "holds (file_write (unat m) ((messageStart env @ ser_writedata32 (of_nat (length ?data))) @ ?tail) d) (unat m + 8) ?tail" for d
    using holds_append [OF holds_written, of "unat m" "messageStart env @ ser_writedata32 (of_nat (length ?data))" ?tail d] magic
    by (simp add: ser_writedata32_def)
  then have "undo_stored st' f (unat m + 8) ?tail"
    using fno add nowrap by (simp add: undo_stored_def info info_def st' record_bytes_def)
  moreover have "undo_stored st' g n bs" if u: "undo_stored st g n bs" for g n bs
  proof (cases "g = f")
    case True
    from u obtain d where d: "rev_files st f = Some d" "holds d n bs" "n + length bs \<le> unat m"
      by (auto simp: undo_stored_def True m_def)
    from preallocate_holds [OF b d(1)] obtain d' where "b = Some d'" "holds d' n bs" using d(2) by blast
    then show ?thesis using fno d(3) nowrap by (simp add: undo_stored_def True info info_def st' open_rw_def holds_write)
  next
    case False
    then show ?thesis using u by (simp add: undo_stored_def info st')
  qed
  moreover have "block_stored st' g n bs" if "block_stored st g n bs" for g n bs
    using that fno by (auto simp: block_stored_def info info_def st' st1_def nth_list_update)
  ultimately show ?thesis using p' q8 by (auto simp: f_def)
qed

theorem UndoReadFromDisk_stored:
  assumes "undo_stored st (nat (pos_nFile pos)) (unat (pos_nPos pos))
      (Serialize_CBlockUndo undo @ Serialize_uint256 (undo_checksum h prevHash (Serialize_CBlockUndo undo)))"
    and "0 \<le> pos_nFile pos" and "list_all undo_ok undo" and "fits_size undo"
  shows "UndoReadFromDisk h pos prevHash st = Some undo"
proof -
  from assms(1) obtain d rest where d: "rev_files st (nat (pos_nFile pos)) = Some d"
    "drop (unat (pos_nPos pos)) d = (Serialize_CBlockUndo undo @ Serialize_uint256 (undo_checksum h prevHash (Serialize_CBlockUndo undo))) @ rest"
    unfolding undo_stored_def using holds_drop by blast
  have "Unserialize_uint256 (Serialize_uint256 w @ s) = Inr (w, s)" for w s by (simp add: codec_simps)
  then show ?thesis using assms(2) CBlockUndo_round_trip [folded Unserialize_CBlockUndo_def, OF assms(3,4)] d
    by (simp add: UndoReadFromDisk_def CDiskBlockPos_IsNull_def Let_def)
qed

text \<open>Undo data that was written for another predecessor is not accepted, unless the hash collides.\<close>

theorem UndoReadFromDisk_binds:
  assumes "undo_stored st (nat (pos_nFile pos)) (unat (pos_nPos pos))
      (Serialize_CBlockUndo undo @ Serialize_uint256 (undo_checksum h prevHash (Serialize_CBlockUndo undo)))"
    and "0 \<le> pos_nFile pos" and "list_all undo_ok undo" and "fits_size undo"
    and "UndoReadFromDisk h pos prevHash' st = Some undo'" and "prevHash' \<noteq> prevHash"
  shows "\<exists>x y. x \<noteq> y \<and> uint256_of (h x) = uint256_of (h y)"
proof -
  from assms(1) obtain d rest where d: "rev_files st (nat (pos_nFile pos)) = Some d"
    "drop (unat (pos_nPos pos)) d = (Serialize_CBlockUndo undo @ Serialize_uint256 (undo_checksum h prevHash (Serialize_CBlockUndo undo))) @ rest"
    unfolding undo_stored_def using holds_drop by blast
  have "Unserialize_uint256 (Serialize_uint256 w @ s) = Inr (w, s)" for w s by (simp add: codec_simps)
  then have "undo_checksum h prevHash (Serialize_CBlockUndo undo) = undo_checksum h prevHash' (Serialize_CBlockUndo undo)"
    using assms(2,5) CBlockUndo_round_trip [folded Unserialize_CBlockUndo_def, OF assms(3,4)] d
    by (simp add: UndoReadFromDisk_def CDiskBlockPos_IsNull_def Let_def split: if_splits)
  moreover have "Serialize_uint256 prevHash @ Serialize_CBlockUndo undo \<noteq> Serialize_uint256 prevHash' @ Serialize_CBlockUndo undo"
    using assms(6) by (simp add: Serialize_uint256_def)
  ultimately show ?thesis unfolding undo_checksum_def by blast
qed

end
