(* ===== verification/Connect.thy ===== *)
theory Connect imports InputCheck BlockFiles
begin

text \<open>
  Connecting a block, \<^verbatim>\<open>src/src/validation.cpp\<close>: \<open>GetBlockScriptFlags\<close>, the decision to skip the scripts of an
  assumed valid chain, the loop over the transactions of \<open>ConnectBlock\<close> and what it writes, with the index of
  transactions.  A block that connects spends coins that are there and mature, pays no more than its fees and
  the subsidy, so that the sum of all coins grows by the subsidy at most, and leaves the view and the undo data
  that disconnecting it takes back.
\<close>

unbundle bit_operations_syntax

section \<open>State\<close>

record CDiskTxPos = CDiskBlockPos +
  nTxOffset :: u32

record node_env = connect_env +
  ne_disk :: disk_env
  nScriptCheckThreads :: nat
  hashAssumeValid :: uint256
  nMinimumChainWork :: base_uint
  fTxIndex :: bool
  scriptExecutionCacheNonce :: uint256

record node_state =
  ns_index :: index_heap
  mapBlockIndex :: BlockMap
  chainActive :: CChain
  pindexBestHeader :: "ptr option"
  ns_disk :: disk_state
  ns_txindex :: "uint256 \<rightharpoonup> CDiskTxPos"
  setDirtyBlockIndex :: "ptr list"
  scriptExecutionCache :: "uint256 cuckoo"

definition set_dirty :: "ptr \<Rightarrow> 'z node_state_scheme \<Rightarrow> 'z node_state_scheme" where
  "set_dirty p ns = ns\<lparr>setDirtyBlockIndex := List.insert p (setDirtyBlockIndex ns)\<rparr>"

definition set_entry :: "ptr \<Rightarrow> CBlockIndex \<Rightarrow> 'z node_state_scheme \<Rightarrow> 'z node_state_scheme" where
  "set_entry p b ns = ns\<lparr>ns_index := (ns_index ns)(p \<mapsto> b)\<rparr>"

section \<open>Flags\<close>

definition GetBlockScriptFlags :: u32 where
  "GetBlockScriptFlags =
     ((((SCRIPT_VERIFY_NONE OR SCRIPT_VERIFY_P2SH) OR SCRIPT_VERIFY_CHECKLOCKTIMEVERIFY) OR SCRIPT_VERIFY_CHECKSEQUENCEVERIFY)
       OR SCRIPT_VERIFY_WITNESS) OR SCRIPT_VERIFY_NULLDUMMY"

text \<open>The scripts are skipped for an ancestor of the assumed valid block on the best header chain, when that has
  the minimum work and two weeks of work on top of the block.\<close>

definition fScriptChecks_for :: "node_env \<Rightarrow> Chain_Params \<Rightarrow> node_state \<Rightarrow> ptr \<Rightarrow> tx_error + bool" where
  "fScriptChecks_for env params ns pindex =
     (if uint256_IsNull (hashAssumeValid env) then Inr True
      else case mapBlockIndex ns (hashAssumeValid env) of None \<Rightarrow> Inr True
      | Some it \<Rightarrow>
          let H = ns_index ns in
          bind_sum (lift_fault (deref H pindex)) (\<lambda>b.
          bind_sum (lift_fault (GetAncestor H it (int (nHeight b)))) (\<lambda>a.
          if a \<noteq> Some pindex then Inr True
          else case pindexBestHeader ns of None \<Rightarrow> Inl (Fault Bad_pointer)
          | Some best \<Rightarrow>
              bind_sum (lift_fault (GetAncestor H best (int (nHeight b)))) (\<lambda>a.
              bind_sum (lift_fault (deref H best)) (\<lambda>bh.
              if a \<noteq> Some pindex \<or> CompareTo (nChainWork bh) (nMinimumChainWork env) < 0 then Inr True
              else case GetBlockProofEquivalentTime bh b bh (word_of_int (nPowTargetSpacing params)) of
                None \<Rightarrow> Inl (Fault Assert_fails)
              | Some t \<Rightarrow> Inr (t \<le> 60 * 60 * 24 * 7 * 2))))))"

section \<open>The loop over the transactions\<close>

record 'v connect_state =
  cs_view :: "'v CCoinsViewCache"
  nFees :: CAmount
  nSigOpsCost :: nat
  vtxundo :: "Coin list list"
  cs_checks :: "CScriptCheck list"
  cs_cache :: "uint256 cuckoo"

fun prev_heights :: "'v view_ops \<Rightarrow> CTxIn list \<Rightarrow> 'v CCoinsViewCache \<Rightarrow> int list \<times> 'v CCoinsViewCache" where
  "prev_heights B [] view = ([], view)"
| "prev_heights B (txin # vin) view =
     (case AccessCoin B view (prevout txin) of (coin, view) \<Rightarrow>
       case prev_heights B vin view of (hs, view) \<Rightarrow> (uint (coin_nHeight coin) # hs, view))"

text \<open>The checks of the inputs of a transaction: values, fee and relative lock times.\<close>

definition connect_inputs ::
  "'v view_ops \<Rightarrow> index_heap \<Rightarrow> ptr \<Rightarrow> int \<Rightarrow> CTransaction \<Rightarrow> 'v connect_state \<Rightarrow> (tx_error + unit) \<times> 'v connect_state" where
  "connect_inputs B H pindex height tx cs =
     (case CheckTxInputs B tx (cs_view cs) height of
        (Inl e, view) \<Rightarrow> (Inl e, cs\<lparr>cs_view := view\<rparr>)
      | (Inr txfee, view) \<Rightarrow>
          let cs = cs\<lparr>cs_view := view, nFees := nFees cs + txfee\<rparr> in
          if \<not> MoneyRange (nFees cs) then (Inl (Rejected (reject 100 ''bad-txns-accumulated-fee-outofrange'')), cs)
          else let (prevheights, view) = prev_heights B (tx_vin tx) (cs_view cs); cs = cs\<lparr>cs_view := view\<rparr> in
            (case SequenceLocks tx (2 ^ LOCKTIME_VERIFY_SEQUENCE) prevheights H pindex of
               Inl f \<Rightarrow> (Inl (Fault f), cs)
             | Inr (_, locked) \<Rightarrow> if \<not> locked then (Inl (Rejected (reject 100 ''bad-txns-nonfinal'')), cs) else (Inr (), cs)))"

text \<open>The scripts of a transaction.\<close>

definition connect_scripts ::
  "node_env \<Rightarrow> 'v view_ops \<Rightarrow> bool \<Rightarrow> bool \<Rightarrow> CTransaction \<Rightarrow> 'v connect_state \<Rightarrow> (tx_error + unit) \<times> 'v connect_state" where
  "connect_scripts env B fJustCheck fScriptChecks tx cs =
     (case CheckInputs (connect_env.truncate env) B (scriptExecutionCacheNonce env) tx (cs_view cs) fScriptChecks
             GetBlockScriptFlags fJustCheck (Precompute (be_hash env) tx) (nScriptCheckThreads env \<noteq> 0) (cs_cache cs) of
        (Inl e, view, cache) \<Rightarrow> (Inl e, cs\<lparr>cs_view := view, cs_cache := cache\<rparr>)
      | (Inr vChecks, view, cache) \<Rightarrow>
          (Inr (), cs\<lparr>cs_view := view, cs_cache := cache,
             cs_checks := cs_checks cs @ (if fScriptChecks \<and> nScriptCheckThreads env \<noteq> 0 then vChecks else [])\<rparr>))"

text \<open>One turn of the loop; \<open>first\<close> says that it is the transaction at index 0, which has no undo record.\<close>

definition connect_tx ::
  "node_env \<Rightarrow> 'v view_ops \<Rightarrow> index_heap \<Rightarrow> ptr \<Rightarrow> int \<Rightarrow> bool \<Rightarrow> bool \<Rightarrow> bool \<Rightarrow> CTransaction \<Rightarrow> 'v connect_state \<Rightarrow>
   (tx_error + unit) \<times> 'v connect_state" where
  "connect_tx env B H pindex height fJustCheck fScriptChecks first tx cs =
     (case (if \<not> IsCoinBase tx then connect_inputs B H pindex height tx cs else (Inr (), cs)) of
        (Inl e, cs) \<Rightarrow> (Inl e, cs)
      | (Inr _, cs) \<Rightarrow>
     (case GetTransactionSigOpCost B tx (cs_view cs) GetBlockScriptFlags of
        Inl e \<Rightarrow> (Inl e, cs)
      | Inr (n, view) \<Rightarrow>
          let cs = cs\<lparr>cs_view := view, nSigOpsCost := nSigOpsCost cs + n\<rparr> in
          if MAX_BLOCK_SIGOPS_COST < nSigOpsCost cs then (Inl (Rejected (reject 100 ''bad-blk-sigops'')), cs)
          else case (if \<not> IsCoinBase tx then connect_scripts env B fJustCheck fScriptChecks tx cs else (Inr (), cs)) of
            (Inl e, cs) \<Rightarrow> (Inl e, cs)
          | (Inr _, cs) \<Rightarrow>
              (case UpdateCoins (be_hash env) B tx (cs_view cs) height of
                 Inl e \<Rightarrow> (Inl e, cs)
               | Inr (undo, view) \<Rightarrow>
                   (Inr (), cs\<lparr>cs_view := view, vtxundo := vtxundo cs @ (if first then [] else [undo])\<rparr>))))"

fun connect_txs ::
  "node_env \<Rightarrow> 'v view_ops \<Rightarrow> index_heap \<Rightarrow> ptr \<Rightarrow> int \<Rightarrow> bool \<Rightarrow> bool \<Rightarrow> bool \<Rightarrow> CTransaction list \<Rightarrow> 'v connect_state \<Rightarrow>
   (tx_error + unit) \<times> 'v connect_state" where
  "connect_txs env B H pindex height fJustCheck fScriptChecks first [] cs = (Inr (), cs)"
| "connect_txs env B H pindex height fJustCheck fScriptChecks first (tx # txs) cs =
     (case connect_tx env B H pindex height fJustCheck fScriptChecks first tx cs of
        (Inl e, cs) \<Rightarrow> (Inl e, cs)
      | (Inr _, cs) \<Rightarrow> connect_txs env B H pindex height fJustCheck fScriptChecks False txs cs)"

section \<open>What is written\<close>

text \<open>The positions of the transactions behind the header, from an offset.\<close>

fun tx_positions :: "(bytes \<Rightarrow> bytes) \<Rightarrow> CDiskBlockPos \<Rightarrow> u32 \<Rightarrow> CTransaction list \<Rightarrow> (uint256 \<times> CDiskTxPos) list" where
  "tx_positions h pos off [] = []"
| "tx_positions h pos off (tx # txs) =
     (GetHash h tx, CDiskBlockPos.extend pos \<lparr>nTxOffset = off\<rparr>) #
     tx_positions h pos (off + of_nat (length (SerializeTransaction True tx))) txs"

definition WriteTxIndexDataForBlock :: "node_env \<Rightarrow> CBlock \<Rightarrow> CBlockIndex \<Rightarrow> node_state \<Rightarrow> node_state" where
  "WriteTxIndexDataForBlock env block b ns =
     (if \<not> fTxIndex env then ns
      else ns\<lparr>ns_txindex := fold (\<lambda>(txid, pos) m. m(txid \<mapsto> pos))
        (tx_positions (be_hash env) (GetBlockPos b) (of_nat (length (WriteCompactSize (of_nat (length (vtx block)))))) (vtx block))
        (ns_txindex ns)\<rparr>)"

text \<open>The undo data, the validity of the entry and the index of transactions; \<open>False\<close> where the undo data cannot
  be written.\<close>

definition connect_write ::
  "node_env \<Rightarrow> CBlock \<Rightarrow> Coin list list \<Rightarrow> ptr \<Rightarrow> uint256 \<Rightarrow> node_state \<Rightarrow> (tx_error + bool) \<times> node_state" where
  "connect_write env block undo pindex prevHash ns =
     (case ns_index ns pindex of None \<Rightarrow> (Inl (Fault Bad_pointer), ns)
      | Some b \<Rightarrow>
          (case WriteUndoDataForBlock (ne_disk env) (be_hash env) undo b prevHash (ns_disk ns) of
             (ok, b', disk) \<Rightarrow>
               let ns = (set_entry pindex b' ns)\<lparr>ns_disk := disk\<rparr>;
                   ns = (if ok \<and> CDiskBlockPos_IsNull (GetUndoPos b) then set_dirty pindex ns else ns) in
               if \<not> ok then (Inr False, ns)
               else case IsValid b' BLOCK_VALID_SCRIPTS of
                 Inl f \<Rightarrow> (Inl (Fault f), ns)
               | Inr valid \<Rightarrow>
                   (case (if \<not> valid then RaiseValidity b' BLOCK_VALID_SCRIPTS else Inr (b', False)) of
                      Inl f \<Rightarrow> (Inl (Fault f), ns)
                    | Inr (b'', _) \<Rightarrow>
                        let ns = set_entry pindex b'' ns; ns = (if \<not> valid then set_dirty pindex ns else ns) in
                        (Inr True, WriteTxIndexDataForBlock env block b'' ns))))"

section \<open>ConnectBlock\<close>

text \<open>Behind the loop: the value of the coinbase, the checks of the queue, and what is written unless the block is
  only checked.  \<open>Inr False\<close> where writing fails.\<close>

definition connect_finish ::
  "node_env \<Rightarrow> Chain_Params \<Rightarrow> CBlock \<Rightarrow> nat \<Rightarrow> ptr \<Rightarrow> uint256 \<Rightarrow> bool \<Rightarrow> 'v connect_state \<Rightarrow> node_state \<Rightarrow>
   (tx_error + bool) \<times> 'v CCoinsViewCache \<times> node_state" where
  "connect_finish env params block height pindex prevHash fJustCheck cs ns =
     (let blockReward = nFees cs + GetBlockSubsidy (nSubsidyHalvingInterval params) (int height) in
      case GetValueOut (vtx block ! 0) of
        None \<Rightarrow> (Inl Value_out_of_range, cs_view cs, ns)
      | Some out \<Rightarrow>
          if blockReward < out then (Inl (Rejected (reject 100 ''bad-cb-amount'')), cs_view cs, ns)
          else if \<not> list_all (\<lambda>chk. CScriptCheck_run (connect_env.truncate env) chk = Inr ()) (cs_checks cs)
          then (Inl (Rejected (reject 100 ''block-validation-failed'')), cs_view cs, ns)
          else if fJustCheck then (Inr True, cs_view cs, ns)
          else case connect_write env block (vtxundo cs) pindex prevHash ns of
            (Inr True, ns) \<Rightarrow>
              (Inr True, SetBestBlock (cs_view cs) (BlockHeader_GetHash (be_hash env) (GetBlockHeader block)), ns)
          | (w, ns) \<Rightarrow> (w, cs_view cs, ns))"

definition hash_of_prev :: "index_heap \<Rightarrow> CBlockIndex \<Rightarrow> chain_fault + uint256" where
  "hash_of_prev H b = (case pprev b of None \<Rightarrow> Inr 0 | Some q \<Rightarrow> bind_sum (deref H q) GetBlockHash)"

text \<open>From the check of the best block of the view on.\<close>

definition connect_checked ::
  "node_env \<Rightarrow> Chain_Params \<Rightarrow> 'v view_ops \<Rightarrow> CBlock \<Rightarrow> CBlockIndex \<Rightarrow> ptr \<Rightarrow> bool \<Rightarrow> 'v CCoinsViewCache \<Rightarrow> node_state \<Rightarrow>
   (tx_error + bool) \<times> 'v CCoinsViewCache \<times> node_state" where
  "connect_checked env params B block b pindex fJustCheck view ns =
     (case hash_of_prev (ns_index ns) b of
        Inl f \<Rightarrow> (Inl (Fault f), view, ns)
      | Inr prevHash \<Rightarrow>
          (case Cache_GetBestBlock B view of (best, view) \<Rightarrow>
             if prevHash \<noteq> best then (Inl (Fault Assert_fails), view, ns)
             else case fScriptChecks_for env params ns pindex of
               Inl e \<Rightarrow> (Inl e, view, ns)
             | Inr fScriptChecks \<Rightarrow>
                 if \<not> uint256_IsNull best \<and> pprev b = None then (Inl (Fault Assert_fails), view, ns)
                 else (case connect_txs env B (ns_index ns) pindex (int (nHeight b)) fJustCheck fScriptChecks True (vtx block)
                     \<lparr>cs_view = view, nFees = 0, nSigOpsCost = 0, vtxundo = [], cs_checks = [],
                      cs_cache = scriptExecutionCache ns\<rparr> of
                     (r, cs) \<Rightarrow>
                       let ns = ns\<lparr>scriptExecutionCache := cs_cache cs\<rparr> in
                       (case r of Inl e \<Rightarrow> (Inl e, cs_view cs, ns)
                        | Inr _ \<Rightarrow> connect_finish env params block (nHeight b) pindex prevHash fJustCheck cs ns))))"

text \<open>With the flag of the block that it has been checked.\<close>

definition ConnectBlock ::
  "node_env \<Rightarrow> Chain_Params \<Rightarrow> 'v view_ops \<Rightarrow> CBlock \<Rightarrow> bool \<Rightarrow> ptr \<Rightarrow> bool \<Rightarrow> 'v CCoinsViewCache \<Rightarrow> node_state \<Rightarrow>
   (tx_error + bool) \<times> bool \<times> 'v CCoinsViewCache \<times> node_state" where
  "ConnectBlock env params B block fChecked pindex fJustCheck view ns =
     (case ns_index ns pindex of None \<Rightarrow> (Inl (Fault Bad_pointer), fChecked, view, ns)
      | Some b \<Rightarrow>
          if phashBlock b \<noteq> Some (BlockHeader_GetHash (be_hash env) (GetBlockHeader block))
          then (Inl (Fault Assert_fails), fChecked, view, ns)
          else (case CheckBlock (block_env.truncate env) (Consensus_Params.truncate params) (ns_index ns) (chainActive ns) block
                  fChecked (\<not> fJustCheck) (\<not> fJustCheck) of
              (Inl e, fChecked) \<Rightarrow> (Inl e, fChecked, view, ns)
            | (Inr _, fChecked) \<Rightarrow> (case connect_checked env params B block b pindex fJustCheck view ns of
                (r, view, ns) \<Rightarrow> (r, fChecked, view, ns))))"

section \<open>The value of the coins\<close>

definition coins_value :: "(COutPoint \<rightharpoonup> Coin) \<Rightarrow> int" where
  "coins_value f = (\<Sum>p\<in>dom f. nValue (coin_out (the (f p))))"

lemma coins_value_add:
  assumes "finite (dom f)" "finite (dom g)" "dom f \<inter> dom g = {}"
  shows "coins_value (f ++ g) = coins_value f + coins_value g"
proof -
  have "coins_value (f ++ g) = (\<Sum>p\<in>dom f. nValue (coin_out (the ((f ++ g) p)))) + (\<Sum>p\<in>dom g. nValue (coin_out (the ((f ++ g) p))))"
    using assms by (simp add: coins_value_def sum.union_disjoint Un_commute)
  moreover have "(\<Sum>p\<in>dom f. nValue (coin_out (the ((f ++ g) p)))) = coins_value f"
    unfolding coins_value_def
  proof (intro sum.cong refl)
    fix p assume "p \<in> dom f"
    then have "p \<notin> dom g" using assms(3) by blast
    then show "nValue (coin_out (the ((f ++ g) p))) = nValue (coin_out (the (f p)))" by (simp add: map_add_dom_app_simps(3))
  qed
  moreover have "(\<Sum>p\<in>dom g. nValue (coin_out (the ((f ++ g) p)))) = coins_value g"
    unfolding coins_value_def by (intro sum.cong) (auto simp: map_add_dom_app_simps)
  ultimately show ?thesis by simp
qed

lemma dom_without: "dom (without f ps) = dom f - set ps"
  by (auto simp: without_def dom_def)

lemma coins_value_without:
  assumes "finite (dom f)" "distinct ps" "\<forall>p\<in>set ps. f p \<noteq> None"
  shows "coins_value (without f ps) = coins_value f - sum_list (map (\<lambda>p. nValue (coin_out (the (f p)))) ps)"
proof -
  have "set ps \<subseteq> dom f" using assms(3) by auto
  then have "(\<Sum>p\<in>dom f - set ps. nValue (coin_out (the (f p)))) = coins_value f - (\<Sum>p\<in>set ps. nValue (coin_out (the (f p))))"
    unfolding coins_value_def using assms(1) by (intro sum_diff) auto
  moreover have "coins_value (without f ps) = (\<Sum>p\<in>dom f - set ps. nValue (coin_out (the (f p))))"
    unfolding coins_value_def dom_without by (intro sum.cong) (auto simp: without_def)
  ultimately show ?thesis using assms(2) by (simp add: sum.distinct_set_conv_list)
qed

lemma tx_coins_value:
  "i + length vout \<le> 2 ^ 32 \<Longrightarrow> \<forall>out\<in>set vout. 0 \<le> nValue out \<Longrightarrow>
   finite (dom (tx_coins_from cb height txid i vout)) \<and>
   coins_value (tx_coins_from cb height txid i vout) \<le> sum_list (map nValue vout)"
proof (induction vout arbitrary: i)
  case Nil
  then show ?case by (simp add: coins_value_def)
next
  case (Cons out vout)
  let ?g = "tx_coins_from cb height txid (i + 1) vout"
  let ?f = "if spendable out then [COutPoint txid (of_nat i) \<mapsto> tx_coin cb height out] else Map.empty"
  from Cons have IH: "finite (dom ?g)" "coins_value ?g \<le> sum_list (map nValue vout)" by auto
  have "?g (COutPoint txid (of_nat i)) = None" using Cons.prems(1) by (intro tx_coins_from_fresh) auto
  then have "dom ?f \<inter> dom ?g = {}" by (auto split: if_splits)
  then have v: "coins_value (?f ++ ?g) = coins_value ?f + coins_value ?g" using IH(1) by (intro coins_value_add) auto
  have "coins_value ?f \<le> nValue out"
    using Cons.prems(2) by (simp add: coins_value_def tx_coin_def)
  moreover have "finite (dom (?f ++ ?g))" using IH(1) by auto
  ultimately show ?case using v IH(2) by simp
qed

definition tx_fee :: "(COutPoint \<rightharpoonup> Coin) \<Rightarrow> CTransaction \<Rightarrow> CAmount" where
  "tx_fee f tx = (if IsCoinBase tx then 0
     else sum_list (map (input_value f) (tx_vin tx)) - sum_list (map nValue (tx_vout tx)))"

lemma apply_tx_value:
  assumes fin: "finite (dom f)" and fit: "tx_fits h tx f" and pos: "\<forall>out\<in>set (tx_vout tx). 0 \<le> nValue out"
  shows "finite (dom (apply_tx h height tx f)) \<and>
    coins_value (apply_tx h height tx f) \<le> coins_value f - tx_fee f tx + (if IsCoinBase tx then sum_list (map nValue (tx_vout tx)) else 0)"
proof -
  have n: "finite (dom (new_coins h height tx))" "coins_value (new_coins h height tx) \<le> sum_list (map nValue (tx_vout tx))"
    using tx_coins_value [of 0 "tx_vout tx" "IsCoinBase tx" height "GetHash h tx"] fit pos by (simp_all add: new_coins_def tx_fits_def)
  have "p \<notin> dom (new_coins h height tx)" if d: "p \<in> dom f" for p
  proof
    assume "p \<in> dom (new_coins h height tx)"
    then have "f p = None" by (rule new_coins_dom [OF fit])
    with d show False by auto
  qed
  then have disj: "dom (without f (tx_inputs tx)) \<inter> dom (new_coins h height tx) = {}" by (auto simp: dom_without)
  have w: "coins_value (without f (tx_inputs tx)) = coins_value f - sum_list (map (\<lambda>p. nValue (coin_out (the (f p)))) (tx_inputs tx))"
    using fit by (intro coins_value_without [OF fin]) (auto simp: tx_fits_def)
  have "finite (dom (without f (tx_inputs tx)))" using fin by (simp add: dom_without)
  then have "finite (dom (apply_tx h height tx f))"
    "coins_value (apply_tx h height tx f) = coins_value (without f (tx_inputs tx)) + coins_value (new_coins h height tx)"
    using n(1) coins_value_add [OF _ n(1) disj] by (simp_all add: apply_tx_def)
  moreover have "sum_list (map (\<lambda>p. nValue (coin_out (the (f p)))) (tx_inputs tx)) =
      (if IsCoinBase tx then 0 else sum_list (map (input_value f) (tx_vin tx)))"
  proof (cases "IsCoinBase tx")
    case False
    have "map (\<lambda>i. nValue (coin_out (the (f (prevout i))))) (tx_vin tx) = map (input_value f) (tx_vin tx)"
      using fit False by (intro list.map_cong) (auto simp: tx_fits_def tx_inputs_def input_value_def)
    from arg_cong [OF this, of sum_list] show ?thesis using False by (simp only: tx_inputs_def if_False list.map_comp o_def)
  qed (simp add: tx_inputs_def)
  ultimately show ?thesis using n(2) w by (simp add: tx_fee_def)
qed

fun txs_fees :: "(bytes \<Rightarrow> bytes) \<Rightarrow> int \<Rightarrow> CTransaction list \<Rightarrow> (COutPoint \<rightharpoonup> Coin) \<Rightarrow> CAmount" where
  "txs_fees h height [] f = 0"
| "txs_fees h height (tx # txs) f = tx_fee f tx + txs_fees h height txs (apply_tx h height tx f)"

lemma apply_txs_value:
  "finite (dom f) \<Longrightarrow> txs_fit h height txs f \<Longrightarrow> \<forall>tx\<in>set txs. \<forall>out\<in>set (tx_vout tx). 0 \<le> nValue out \<Longrightarrow>
   finite (dom (apply_txs h height txs f)) \<and>
   coins_value (apply_txs h height txs f) \<le> coins_value f - txs_fees h height txs f +
     sum_list (map (\<lambda>tx. if IsCoinBase tx then sum_list (map nValue (tx_vout tx)) else 0) txs)"
proof (induction txs arbitrary: f)
  case (Cons tx txs)
  then have a: "finite (dom (apply_tx h height tx f))" "coins_value (apply_tx h height tx f) \<le>
      coins_value f - tx_fee f tx + (if IsCoinBase tx then sum_list (map nValue (tx_vout tx)) else 0)"
    using apply_tx_value [of f h tx height] by simp_all
  from Cons.IH [OF a(1)] Cons.prems show ?case using a(2) by simp
qed simp

section \<open>What the loop establishes\<close>

text \<open>What the checks of a block do not establish: that inputs differ, and that ids are new.\<close>

definition tx_new :: "(bytes \<Rightarrow> bytes) \<Rightarrow> CTransaction \<Rightarrow> (COutPoint \<rightharpoonup> Coin) \<Rightarrow> bool" where
  "tx_new h tx f \<longleftrightarrow> distinct (tx_inputs tx) \<and> (\<forall>j < length (tx_vout tx). f (COutPoint (GetHash h tx) (of_nat j)) = None)"

fun txs_new :: "(bytes \<Rightarrow> bytes) \<Rightarrow> int \<Rightarrow> CTransaction list \<Rightarrow> (COutPoint \<rightharpoonup> Coin) \<Rightarrow> bool" where
  "txs_new h height [] f \<longleftrightarrow> True"
| "txs_new h height (tx # txs) f \<longleftrightarrow> tx_new h tx f \<and> txs_new h height txs (apply_tx h height tx f)"

definition outputs_ok :: "CTransaction \<Rightarrow> bool" where
  "outputs_ok tx \<longleftrightarrow> (\<forall>out\<in>set (tx_vout tx). 0 \<le> nValue out) \<and> length (tx_vout tx) \<le> 2 ^ 32"

lemma connect_tx_stages:
  assumes r: "connect_tx env B H pindex height just chk first tx cs = (Inr (), cs')"
  obtains cs1 n v2 cs2 cs3 undo v4 where
    "(if \<not> IsCoinBase tx then connect_inputs B H pindex height tx cs else (Inr (), cs)) = (Inr (), cs1)"
    "GetTransactionSigOpCost B tx (cs_view cs1) GetBlockScriptFlags = Inr (n, v2)"
    "cs2 = cs1\<lparr>cs_view := v2, nSigOpsCost := nSigOpsCost cs1 + n\<rparr>" "nSigOpsCost cs1 + n \<le> MAX_BLOCK_SIGOPS_COST"
    "(if \<not> IsCoinBase tx then connect_scripts env B just chk tx cs2 else (Inr (), cs2)) = (Inr (), cs3)"
    "UpdateCoins (be_hash env) B tx (cs_view cs3) height = Inr (undo, v4)"
    "cs' = cs3\<lparr>cs_view := v4, vtxundo := vtxundo cs3 @ (if first then [] else [undo])\<rparr>"
proof -
  obtain q1 cs1 where s1: "(if \<not> IsCoinBase tx then connect_inputs B H pindex height tx cs else (Inr (), cs)) = (q1, cs1)"
    by (cases "if \<not> IsCoinBase tx then connect_inputs B H pindex height tx cs else (Inr (), cs)")
  with r have q1: "q1 = Inr ()" by (auto simp: connect_tx_def split: sum.splits)
  obtain n v2 where s2: "GetTransactionSigOpCost B tx (cs_view cs1) GetBlockScriptFlags = Inr (n, v2)"
    using r s1 by (auto simp: connect_tx_def split: sum.splits)
  define cs2 where "cs2 = cs1\<lparr>cs_view := v2, nSigOpsCost := nSigOpsCost cs1 + n\<rparr>"
  obtain q3 cs3 where s3: "(if \<not> IsCoinBase tx then connect_scripts env B just chk tx cs2 else (Inr (), cs2)) = (q3, cs3)"
    by (cases "if \<not> IsCoinBase tx then connect_scripts env B just chk tx cs2 else (Inr (), cs2)")
  note r2 = r [unfolded connect_tx_def s1 q1 sum.case prod.case s2 Let_def, folded cs2_def]
  have lim: "nSigOpsCost cs2 \<le> MAX_BLOCK_SIGOPS_COST" using r2 by (auto split: if_splits)
  then have r3: "(case (q3, cs3) of (Inl e, cs) \<Rightarrow> (Inl e, cs)
      | (Inr _, cs) \<Rightarrow> (case UpdateCoins (be_hash env) B tx (cs_view cs) height of Inl e \<Rightarrow> (Inl e, cs)
         | Inr (undo, view) \<Rightarrow> (Inr (), cs\<lparr>cs_view := view, vtxundo := vtxundo cs @ (if first then [] else [undo])\<rparr>))) = (Inr (), cs')"
    using r2 unfolding s3 by (simp add: not_less)
  obtain undo v4 where s4: "UpdateCoins (be_hash env) B tx (cs_view cs3) height = Inr (undo, v4)"
    and cs': "cs' = cs3\<lparr>cs_view := v4, vtxundo := vtxundo cs3 @ (if first then [] else [undo])\<rparr>"
    using r3 by (auto split: sum.splits)
  have q3: "q3 = Inr ()" using r3 by (cases q3) auto
  show ?thesis using that [OF s1 [unfolded q1] s2 cs2_def _ s3 [unfolded q3] s4 cs'] lim by (simp add: cs2_def)
qed

context coins_view
begin

lemma prev_heights_ok:
  "cache_ok c \<Longrightarrow> prev_heights B vin c = (hs, c') \<Longrightarrow>
   cache_ok c' \<and> cache_contents c' = cache_contents c \<and> cache_best c' = cache_best c \<and> length hs = length vin \<and>
   ((\<forall>i\<in>set vin. cache_contents c (prevout i) \<noteq> None) \<longrightarrow>
     hs = map (\<lambda>i. uint (coin_nHeight (the (cache_contents c (prevout i))))) vin)"
proof (induction vin arbitrary: c hs)
  case (Cons i vin)
  obtain coin d where ac: "AccessCoin B c (prevout i) = (coin, d)" by (cases "AccessCoin B c (prevout i)")
  note o = AccessCoin_ok [OF Cons.prems(1) ac]
  obtain hs' where ph: "prev_heights B vin d = (hs', c')" "hs = uint (coin_nHeight coin) # hs'"
    using Cons.prems(2) ac by (auto split: prod.splits)
  from Cons.IH [OF _ ph(1)] o ph(2) show ?case by (auto split: if_splits)
qed auto

lemma connect_inputs_ok:
  assumes c: "cache_ok (cs_view cs)" and r: "connect_inputs B H pindex height tx cs = (r, cs')" and nc: "\<not> IsCoinBase tx"
  shows "cache_ok (cs_view cs') \<and> cache_contents (cs_view cs') = cache_contents (cs_view cs) \<and>
    cache_best (cs_view cs') = cache_best (cs_view cs) \<and> vtxundo cs' = vtxundo cs \<and> cs_checks cs' = cs_checks cs \<and>
    nSigOpsCost cs' = nSigOpsCost cs \<and> cs_cache cs' = cs_cache cs"
    and "r = Inr () \<Longrightarrow> (\<forall>i\<in>set (tx_vin tx). \<exists>coin. cache_contents (cs_view cs) (prevout i) = Some coin \<and> mature height coin) \<and>
      nFees cs' = nFees cs + tx_fee (cache_contents (cs_view cs)) tx \<and> MoneyRange (nFees cs') \<and>
      MoneyRange (tx_fee (cache_contents (cs_view cs)) tx)"
proof -
  obtain q v where ck: "CheckTxInputs B tx (cs_view cs) height = (q, v)" by (cases "CheckTxInputs B tx (cs_view cs) height")
  note o = CheckTxInputs_ok [OF c ck]
  obtain hs w where ph: "prev_heights B (tx_vin tx) v = (hs, w)" by (cases "prev_heights B (tx_vin tx) v")
  note p = prev_heights_ok [OF _ ph]
  show "cache_ok (cs_view cs') \<and> cache_contents (cs_view cs') = cache_contents (cs_view cs) \<and>
    cache_best (cs_view cs') = cache_best (cs_view cs) \<and> vtxundo cs' = vtxundo cs \<and> cs_checks cs' = cs_checks cs \<and>
    nSigOpsCost cs' = nSigOpsCost cs \<and> cs_cache cs' = cs_cache cs"
    using r ck ph o(1) p by (auto simp: connect_inputs_def Let_def split: sum.splits if_splits)
  assume "r = Inr ()"
  then obtain fee where fee: "q = Inr fee" "nFees cs' = nFees cs + fee" "MoneyRange (nFees cs')"
    using r ck ph by (auto simp: connect_inputs_def Let_def split: sum.splits if_splits)
  from o(2) [OF fee(1)] fee(2,3) nc show "(\<forall>i\<in>set (tx_vin tx). \<exists>coin. cache_contents (cs_view cs) (prevout i) = Some coin \<and> mature height coin) \<and>
      nFees cs' = nFees cs + tx_fee (cache_contents (cs_view cs)) tx \<and> MoneyRange (nFees cs') \<and>
      MoneyRange (tx_fee (cache_contents (cs_view cs)) tx)"
    by (auto simp: tx_fee_def)
qed

lemma connect_scripts_ok:
  assumes c: "cache_ok (cs_view cs)" and r: "connect_scripts env B just chk tx cs = (r, cs')"
  shows "cache_ok (cs_view cs') \<and> cache_contents (cs_view cs') = cache_contents (cs_view cs) \<and>
    cache_best (cs_view cs') = cache_best (cs_view cs) \<and> vtxundo cs' = vtxundo cs \<and> nFees cs' = nFees cs \<and>
    nSigOpsCost cs' = nSigOpsCost cs"
proof -
  let ?e = "connect_env.truncate env" and ?n = "scriptExecutionCacheNonce env" and ?t = "Precompute (be_hash env) tx"
  let ?q = "nScriptCheckThreads env \<noteq> 0"
  obtain q v sc where k: "CheckInputs ?e B ?n tx (cs_view cs) chk GetBlockScriptFlags just ?t ?q (cs_cache cs) = (q, v, sc)"
    by (cases "CheckInputs ?e B ?n tx (cs_view cs) chk GetBlockScriptFlags just ?t ?q (cs_cache cs)")
  from CheckInputs_ok(1) [OF c k] show ?thesis using r k
    by (auto simp: connect_scripts_def split: sum.splits)
qed

text \<open>One transaction.\<close>

lemma connect_tx_ok:
  assumes c: "cache_ok (cs_view cs)" and r: "connect_tx env B H pindex height just chk first tx cs = (Inr (), cs')"
    and new: "tx_new (be_hash env) tx (cache_contents (cs_view cs))" and outs: "outputs_ok tx"
  shows "tx_fits (be_hash env) tx (cache_contents (cs_view cs)) \<and> cache_ok (cs_view cs') \<and>
    cache_contents (cs_view cs') = apply_tx (be_hash env) height tx (cache_contents (cs_view cs)) \<and>
    cache_best (cs_view cs') = cache_best (cs_view cs) \<and>
    nFees cs' = nFees cs + tx_fee (cache_contents (cs_view cs)) tx \<and>
    vtxundo cs' = vtxundo cs @ (if first then [] else [spent_coins (cache_contents (cs_view cs)) tx]) \<and>
    nSigOpsCost cs + GetLegacySigOpCount tx * WITNESS_SCALE_FACTOR \<le> nSigOpsCost cs' \<and> nSigOpsCost cs' \<le> MAX_BLOCK_SIGOPS_COST \<and>
    (\<not> IsCoinBase tx \<longrightarrow>
      (\<forall>i\<in>set (tx_vin tx). \<exists>coin. cache_contents (cs_view cs) (prevout i) = Some coin \<and> mature height coin) \<and>
      0 \<le> tx_fee (cache_contents (cs_view cs)) tx)"
proof -
  let ?f = "cache_contents (cs_view cs)" and ?h = "be_hash env"
  obtain cs1 n v2 cs2 cs3 undo v4 where
    s1: "(if \<not> IsCoinBase tx then connect_inputs B H pindex height tx cs else (Inr (), cs)) = (Inr (), cs1)"
    and s2: "GetTransactionSigOpCost B tx (cs_view cs1) GetBlockScriptFlags = Inr (n, v2)"
    and cs2_def: "cs2 = cs1\<lparr>cs_view := v2, nSigOpsCost := nSigOpsCost cs1 + n\<rparr>" and lim: "nSigOpsCost cs1 + n \<le> MAX_BLOCK_SIGOPS_COST"
    and s3: "(if \<not> IsCoinBase tx then connect_scripts env B just chk tx cs2 else (Inr (), cs2)) = (Inr (), cs3)"
    and s4: "UpdateCoins (be_hash env) B tx (cs_view cs3) height = Inr (undo, v4)"
    and cs': "cs' = cs3\<lparr>cs_view := v4, vtxundo := vtxundo cs3 @ (if first then [] else [undo])\<rparr>"
    using connect_tx_stages [OF r] by blast
  have k1: "cache_ok (cs_view cs1)" "cache_contents (cs_view cs1) = ?f" "cache_best (cs_view cs1) = cache_best (cs_view cs)"
    "vtxundo cs1 = vtxundo cs" "nFees cs1 = nFees cs + tx_fee ?f tx" "nSigOpsCost cs1 = nSigOpsCost cs"
    "\<not> IsCoinBase tx \<longrightarrow> (\<forall>i\<in>set (tx_vin tx). \<exists>coin. ?f (prevout i) = Some coin \<and> mature height coin) \<and> 0 \<le> tx_fee ?f tx"
    using connect_inputs_ok [OF c, of H pindex height tx "Inr ()" cs1] s1 c by (auto simp: tx_fee_def MoneyRange_def split: if_splits)
  from GetTransactionSigOpCost_ok [OF k1(1) s2] have k2: "cache_ok (cs_view cs2)" "cache_contents (cs_view cs2) = ?f"
      "cache_best (cs_view cs2) = cache_best (cs_view cs)" "GetLegacySigOpCount tx * WITNESS_SCALE_FACTOR \<le> n"
    using k1 by (simp_all add: cs2_def)
  have k3: "cache_ok (cs_view cs3)" "cache_contents (cs_view cs3) = ?f" "cache_best (cs_view cs3) = cache_best (cs_view cs)"
    "vtxundo cs3 = vtxundo cs" "nFees cs3 = nFees cs + tx_fee ?f tx" "nSigOpsCost cs3 = nSigOpsCost cs + n"
    using connect_scripts_ok [OF k2(1), of env just chk tx "Inr ()" cs3] s3 k1 k2 by (auto simp: cs2_def split: if_splits)
  have fit: "tx_fits ?h tx ?f"
    using new outs k1(7)
    by (auto simp: tx_fits_def tx_new_def outputs_ok_def tx_inputs_def list_all_iff CTxOut_IsNull_def)
  from UpdateCoins_ok [OF k3(1), of ?h tx height] fit s4 k3(2,3) have k4: "undo = spent_coins ?f tx" "cache_ok v4"
      "cache_contents v4 = apply_tx ?h height tx ?f" "cache_best v4 = cache_best (cs_view cs)" by auto
  show ?thesis using fit k1(7) k2(4) k3 k4 lim by (auto simp: cs' cs2_def k1(6))
qed

text \<open>All transactions, with the undo records of all but the first.\<close>

lemma connect_txs_ok:
  "cache_ok (cs_view cs) \<Longrightarrow> connect_txs env B H pindex height just chk first txs cs = (Inr (), cs') \<Longrightarrow>
   txs_new (be_hash env) height txs (cache_contents (cs_view cs)) \<Longrightarrow> \<forall>tx\<in>set txs. outputs_ok tx \<Longrightarrow>
   txs_fit (be_hash env) height txs (cache_contents (cs_view cs)) \<and> cache_ok (cs_view cs') \<and>
   cache_contents (cs_view cs') = apply_txs (be_hash env) height txs (cache_contents (cs_view cs)) \<and>
   cache_best (cs_view cs') = cache_best (cs_view cs) \<and>
   nFees cs' = nFees cs + txs_fees (be_hash env) height txs (cache_contents (cs_view cs)) \<and>
   vtxundo cs' = vtxundo cs @ (if first then tl else id) (spent_by (be_hash env) height txs (cache_contents (cs_view cs))) \<and>
   (txs \<noteq> [] \<longrightarrow> nSigOpsCost cs' \<le> MAX_BLOCK_SIGOPS_COST)"
proof (induction txs arbitrary: cs first)
  case Nil
  then show ?case by auto
next
  case (Cons tx txs)
  obtain d where d: "connect_tx env B H pindex height just chk first tx cs = (Inr (), d)"
    and rest: "connect_txs env B H pindex height just chk False txs d = (Inr (), cs')"
    using Cons.prems(2) by (auto split: prod.splits sum.splits)
  have new: "tx_new (be_hash env) tx (cache_contents (cs_view cs))" "outputs_ok tx"
    "txs_new (be_hash env) height txs (apply_tx (be_hash env) height tx (cache_contents (cs_view cs)))"
    "\<forall>tx\<in>set txs. outputs_ok tx" using Cons.prems(3,4) by simp_all
  note o = connect_tx_ok [OF Cons.prems(1) d new(1,2)]
  have "cache_ok (cs_view d)" "cache_contents (cs_view d) = apply_tx (be_hash env) height tx (cache_contents (cs_view cs))"
    using o by simp_all
  from Cons.IH [OF this(1) rest] new(3,4) this(2)
  have IH: "txs_fit (be_hash env) height txs (cache_contents (cs_view d)) \<and> cache_ok (cs_view cs') \<and>
    cache_contents (cs_view cs') = apply_txs (be_hash env) height txs (cache_contents (cs_view d)) \<and>
    cache_best (cs_view cs') = cache_best (cs_view d) \<and>
    nFees cs' = nFees d + txs_fees (be_hash env) height txs (cache_contents (cs_view d)) \<and>
    vtxundo cs' = vtxundo d @ spent_by (be_hash env) height txs (cache_contents (cs_view d)) \<and>
    (txs \<noteq> [] \<longrightarrow> nSigOpsCost cs' \<le> MAX_BLOCK_SIGOPS_COST)" by simp
  have "txs = [] \<Longrightarrow> cs' = d" using rest by simp
  with IH o show ?case by (cases "txs = []") auto
qed

end

section \<open>What the block as a whole establishes\<close>

lemma length_concat_le: "\<forall>x\<in>set xs. 0 < length (g x) \<Longrightarrow> length xs \<le> length (concat (map g xs))"
proof (induction xs)
  case (Cons x xs)
  then have "length xs \<le> length (concat (map g xs))" "1 \<le> length (g x)"
    by (simp_all add: Suc_le_eq)
  then show ?case unfolding list.map concat.simps length_append list.size by linarith
qed simp

lemma tx_vout_length: "length (tx_vout tx) \<le> length (SerializeTransaction False tx)"
proof -
  have "length (tx_vout tx) \<le> length (concat (map Serialize_CTxOut (tx_vout tx)))"
    by (rule length_concat_le) (simp add: Serialize_CTxOut_def Serialize_int64_def ser_writedata64_def)
  then show ?thesis by (simp add: SerializeTransaction_def Serialize_vector_def Let_def)
qed

lemma outputs_ok_checked: "CheckTransaction tx dup = Inr () \<Longrightarrow> outputs_ok tx"
  using tx_vout_length [of tx]
  by (auto simp: CheckTransaction_iff outputs_ok_def list_all_iff MoneyRange_def MAX_BLOCK_WEIGHT_def WITNESS_SCALE_FACTOR_def)

lemma connect_finish_ok:
  assumes "connect_finish env params block height pindex prevHash just cs ns = (Inr True, view', ns')"
  shows "\<exists>out. GetValueOut (vtx block ! 0) = Some out \<and>
      out \<le> nFees cs + GetBlockSubsidy (nSubsidyHalvingInterval params) (int height) \<and>
      list_all (\<lambda>chk. CScriptCheck_run (connect_env.truncate env) chk = Inr ()) (cs_checks cs) \<and>
      (if just then view' = cs_view cs \<and> ns' = ns
       else view' = SetBestBlock (cs_view cs) (BlockHeader_GetHash (be_hash env) (GetBlockHeader block)) \<and>
         connect_write env block (vtxundo cs) pindex prevHash ns = (Inr True, ns'))"
  using assms by (auto simp: connect_finish_def Let_def not_less split: option.splits if_splits prod.splits sum.splits bool.splits)

lemma connect_checked_ok:
  assumes "connect_checked env params B block b pindex just view ns = (Inr True, view', ns')"
  shows "\<exists>prevHash v chk cs. hash_of_prev (ns_index ns) b = Inr prevHash \<and> Cache_GetBestBlock B view = (prevHash, v) \<and>
      fScriptChecks_for env params ns pindex = Inr chk \<and>
      connect_txs env B (ns_index ns) pindex (int (nHeight b)) just chk True (vtx block)
        \<lparr>cs_view = v, nFees = 0, nSigOpsCost = 0, vtxundo = [], cs_checks = [], cs_cache = scriptExecutionCache ns\<rparr> = (Inr (), cs) \<and>
      connect_finish env params block (nHeight b) pindex prevHash just cs (ns\<lparr>scriptExecutionCache := cs_cache cs\<rparr>) =
        (Inr True, view', ns')"
  using assms by (auto simp: connect_checked_def Let_def split: sum.splits prod.splits if_splits)

lemma connect_write_ok:
  assumes w: "connect_write env block undo pindex prevHash ns = (Inr True, ns')" and b: "ns_index ns pindex = Some b"
  shows "\<exists>b' b''. WriteUndoDataForBlock (ne_disk env) (be_hash env) undo b prevHash (ns_disk ns) = (True, b', ns_disk ns') \<and>
    ns_index ns' = (ns_index ns)(pindex \<mapsto> b'') \<and> (b'' = b' \<or> RaiseValidity b' BLOCK_VALID_SCRIPTS = Inr (b'', True) \<or>
      RaiseValidity b' BLOCK_VALID_SCRIPTS = Inr (b'', False))"
proof -
  obtain ok b' disk where u: "WriteUndoDataForBlock (ne_disk env) (be_hash env) undo b prevHash (ns_disk ns) = (ok, b', disk)"
    by (cases "WriteUndoDataForBlock (ne_disk env) (be_hash env) undo b prevHash (ns_disk ns)")
  with w b show ?thesis
    by (auto simp: connect_write_def Let_def set_entry_def set_dirty_def WriteTxIndexDataForBlock_def
        split: if_splits sum.splits prod.splits)
qed

text \<open>The block of an accepted block, its outputs and its form.\<close>

lemma CheckBlock_accepts:
  assumes "CheckBlock env params H C block False pow merkle = (Inr (), fc)"
  shows "block_form (vtx block) \<and> (\<forall>tx\<in>set (vtx block). CheckTransaction tx False = Inr ())"
proof -
  have "fc = (pow \<and> merkle)" using CheckBlock_flag [of env params H C block False pow merkle] assms by simp
  then show ?thesis using assms CheckBlock_iff [of env params H C block pow merkle]
    by (auto simp: block_form_def list_all_iff)
qed

text \<open>The first transaction is the coinbase, and only that.\<close>

lemma coinbase_outputs:
  assumes "block_form txs"
  shows "sum_list (map (\<lambda>tx. if IsCoinBase tx then sum_list (map nValue (tx_vout tx)) else 0) txs) =
    sum_list (map nValue (tx_vout (txs ! 0)))"
proof -
  obtain cb rest where t: "txs = cb # rest" "IsCoinBase cb" "\<forall>tx\<in>set rest. \<not> IsCoinBase tx"
    using assms by (cases txs) (auto simp: block_form_def list_all_iff)
  have "sum_list (map (\<lambda>tx. if IsCoinBase tx then sum_list (map nValue (tx_vout tx)) else 0) rest) = 0"
    using t(3) by (induction rest) auto
  then show ?thesis using t by simp
qed

lemma ConnectBlock_stages:
  assumes r: "ConnectBlock env params B block fChecked pindex just view ns = (Inr True, fc, view', ns')"
    and b: "ns_index ns pindex = Some b"
  shows "CheckBlock (block_env.truncate env) (Consensus_Params.truncate params) (ns_index ns) (chainActive ns) block
      fChecked (\<not> just) (\<not> just) = (Inr (), fc) \<and>
    connect_checked env params B block b pindex just view ns = (Inr True, view', ns') \<and>
    phashBlock b = Some (BlockHeader_GetHash (be_hash env) (GetBlockHeader block))"
proof -
  obtain q fc1 where ck: "CheckBlock (block_env.truncate env) (Consensus_Params.truncate params) (ns_index ns) (chainActive ns) block
      fChecked (\<not> just) (\<not> just) = (q, fc1)"
    by (cases "CheckBlock (block_env.truncate env) (Consensus_Params.truncate params) (ns_index ns) (chainActive ns) block
      fChecked (\<not> just) (\<not> just)")
  obtain r2 v2 n2 where cc: "connect_checked env params B block b pindex just view ns = (r2, v2, n2)"
    by (cases "connect_checked env params B block b pindex just view ns")
  show ?thesis using r unfolding ConnectBlock_def b option.case ck cc prod.case by (cases q) (simp_all split: if_splits)
qed

context coins_view
begin

theorem ConnectBlock_ok:
  assumes c: "cache_ok view" and b: "ns_index ns pindex = Some b"
    and r: "ConnectBlock env params B block False pindex just view ns = (Inr True, fc, view', ns')"
    and new: "txs_new (be_hash env) (int (nHeight b)) (vtx block) (cache_contents view)"
  defines "f \<equiv> cache_contents view" and "height \<equiv> int (nHeight b)"
  shows "block_form (vtx block) \<and> txs_fit (be_hash env) height (vtx block) f \<and> cache_ok view' \<and>
    cache_contents view' = apply_txs (be_hash env) height (vtx block) f \<and>
    hash_of_prev (ns_index ns) b = Inr (cache_best view) \<and>
    (\<not> just \<longrightarrow> hashBlock view' = BlockHeader_GetHash (be_hash env) (GetBlockHeader block) \<and>
      (\<exists>ns2. ns_disk ns2 = ns_disk ns \<and> ns_index ns2 = ns_index ns \<and>
        connect_write env block (tl (spent_by (be_hash env) height (vtx block) f)) pindex (cache_best view) ns2 = (Inr True, ns')))"
    and "finite (dom f) \<Longrightarrow> coins_value (cache_contents view') \<le>
      coins_value f + GetBlockSubsidy (nSubsidyHalvingInterval params) height"
proof -
  obtain fc1 where ck: "CheckBlock (block_env.truncate env) (Consensus_Params.truncate params) (ns_index ns) (chainActive ns) block
        False (\<not> just) (\<not> just) = (Inr (), fc1)"
    and cc: "connect_checked env params B block b pindex just view ns = (Inr True, view', ns')"
    using ConnectBlock_stages [OF r b] by blast
  note k = CheckBlock_accepts [OF ck]
  obtain prevHash v chk cs where p: "hash_of_prev (ns_index ns) b = Inr prevHash" "Cache_GetBestBlock B view = (prevHash, v)"
    and t: "connect_txs env B (ns_index ns) pindex height just chk True (vtx block)
        \<lparr>cs_view = v, nFees = 0, nSigOpsCost = 0, vtxundo = [], cs_checks = [], cs_cache = scriptExecutionCache ns\<rparr> = (Inr (), cs)"
    and fin: "connect_finish env params block (nHeight b) pindex prevHash just cs (ns\<lparr>scriptExecutionCache := cs_cache cs\<rparr>) =
        (Inr True, view', ns')"
    using connect_checked_ok [OF cc] unfolding height_def by blast
  note g = Cache_GetBestBlock_ok [OF c p(2)]
  have outs: "\<forall>tx\<in>set (vtx block). outputs_ok tx" using k outputs_ok_checked by blast
  have o: "txs_fit (be_hash env) height (vtx block) f" "cache_ok (cs_view cs)"
     "cache_contents (cs_view cs) = apply_txs (be_hash env) height (vtx block) f" "cache_best (cs_view cs) = cache_best view"
     "nFees cs = txs_fees (be_hash env) height (vtx block) f"
     "vtxundo cs = tl (spent_by (be_hash env) height (vtx block) f)"
    using connect_txs_ok [OF _ t] g new outs by (simp_all add: f_def height_def)
  from connect_finish_ok [OF fin] obtain out where out: "GetValueOut (vtx block ! 0) = Some out"
    "out \<le> nFees cs + GetBlockSubsidy (nSubsidyHalvingInterval params) height"
    and w: "if just then view' = cs_view cs \<and> ns' = ns\<lparr>scriptExecutionCache := cs_cache cs\<rparr>
       else view' = SetBestBlock (cs_view cs) (BlockHeader_GetHash (be_hash env) (GetBlockHeader block)) \<and>
         connect_write env block (vtxundo cs) pindex prevHash (ns\<lparr>scriptExecutionCache := cs_cache cs\<rparr>) = (Inr True, ns')"
    unfolding height_def by blast
  have wr: "\<not> just \<longrightarrow> hashBlock view' = BlockHeader_GetHash (be_hash env) (GetBlockHeader block) \<and>
      (\<exists>ns2. ns_disk ns2 = ns_disk ns \<and> ns_index ns2 = ns_index ns \<and> connect_write env block (vtxundo cs) pindex prevHash ns2 = (Inr True, ns'))"
  proof
    assume "\<not> just"
    with w have "view' = SetBestBlock (cs_view cs) (BlockHeader_GetHash (be_hash env) (GetBlockHeader block))"
      "connect_write env block (vtxundo cs) pindex prevHash (ns\<lparr>scriptExecutionCache := cs_cache cs\<rparr>) = (Inr True, ns')" by simp_all
    then show "hashBlock view' = BlockHeader_GetHash (be_hash env) (GetBlockHeader block) \<and>
      (\<exists>ns2. ns_disk ns2 = ns_disk ns \<and> ns_index ns2 = ns_index ns \<and> connect_write env block (vtxundo cs) pindex prevHash ns2 = (Inr True, ns'))"
      by (intro conjI exI [of _ "ns\<lparr>scriptExecutionCache := cs_cache cs\<rparr>"]) (simp_all add: SetBestBlock_def)
  qed
  have v: "cache_ok view'" "cache_contents view' = cache_contents (cs_view cs)"
    using w o(2) by (auto simp: SetBestBlock_def cache_ok_def cache_contents_def split: if_splits)
  show "block_form (vtx block) \<and> txs_fit (be_hash env) height (vtx block) f \<and> cache_ok view' \<and>
    cache_contents view' = apply_txs (be_hash env) height (vtx block) f \<and>
    hash_of_prev (ns_index ns) b = Inr (cache_best view) \<and>
    (\<not> just \<longrightarrow> hashBlock view' = BlockHeader_GetHash (be_hash env) (GetBlockHeader block) \<and>
      (\<exists>ns2. ns_disk ns2 = ns_disk ns \<and> ns_index ns2 = ns_index ns \<and>
        connect_write env block (tl (spent_by (be_hash env) height (vtx block) f)) pindex (cache_best view) ns2 = (Inr True, ns')))"
    using k o(1,3,4,6) v p(1) g wr by simp
  assume finf: "finite (dom f)"
  have "list_all (\<lambda>out. MoneyRange (nValue out)) (tx_vout (vtx block ! 0)) \<and> out = sum_list (map nValue (tx_vout (vtx block ! 0)))"
    using value_out_from_sum [of 0 "tx_vout (vtx block ! 0)"] out(1)
    by (simp add: GetValueOut_def MoneyRange_def MAX_MONEY_def COIN_def split: if_splits)
  then have "out = sum_list (map nValue (tx_vout (vtx block ! 0)))" by simp
  moreover have "\<forall>tx\<in>set (vtx block). \<forall>out\<in>set (tx_vout tx). 0 \<le> nValue out" using outs by (simp add: outputs_ok_def)
  ultimately show "coins_value (cache_contents view') \<le> coins_value f + GetBlockSubsidy (nSubsidyHalvingInterval params) height"
    using apply_txs_value [OF finf o(1)] out(2) k o(3,5) v(2) by (simp add: coinbase_outputs)
qed

end

section \<open>The scripts\<close>

text \<open>Every transaction behind the coinbase passes its scripts on the coins before it, unless the cache of whole
  transactions held its entry.\<close>

definition tx_scripts :: "node_env \<Rightarrow> uint256 list \<Rightarrow> CTransaction \<Rightarrow> (COutPoint \<rightharpoonup> Coin) \<Rightarrow> bool" where
  "tx_scripts env cached tx f \<longleftrightarrow>
     IsCoinBase tx \<or>
     script_cache_entry (connect_env.truncate env) (scriptExecutionCacheNonce env) tx GetBlockScriptFlags \<in> set cached \<or>
     scripts_pass (connect_env.truncate env) f tx GetBlockScriptFlags (Precompute (be_hash env) tx)"

fun txs_scripts ::
  "node_env \<Rightarrow> uint256 list \<Rightarrow> int \<Rightarrow> CTransaction list \<Rightarrow> (COutPoint \<rightharpoonup> Coin) \<Rightarrow> bool" where
  "txs_scripts env cached height [] f \<longleftrightarrow> True"
| "txs_scripts env cached height (tx # txs) f \<longleftrightarrow>
     tx_scripts env cached tx f \<and> txs_scripts env cached height txs (apply_tx (be_hash env) height tx f)"

definition checks_pass :: "node_env \<Rightarrow> CScriptCheck list \<Rightarrow> bool" where
  "checks_pass env checks \<longleftrightarrow> list_all (\<lambda>chk. CScriptCheck_run (connect_env.truncate env) chk = Inr ()) checks"

lemma checks_pass_append [simp]: "checks_pass env (xs @ ys) \<longleftrightarrow> checks_pass env xs \<and> checks_pass env ys" "checks_pass env []"
  by (simp_all add: checks_pass_def)

lemma connect_inputs_checks:
  "connect_inputs B H pindex height tx cs = (r, cs') \<Longrightarrow> cs_checks cs' = cs_checks cs \<and> cs_cache cs' = cs_cache cs"
  by (auto simp: connect_inputs_def Let_def split: sum.splits prod.splits if_splits)

context coins_view
begin

lemma connect_scripts_pass:
  assumes c: "cache_ok (cs_view cs)" "cuckoo_ok (cs_cache cs)" and r: "connect_scripts env B False chk tx cs = (Inr (), cs')"
    and nc: "\<not> IsCoinBase tx"
  shows "cuckoo_ok (cs_cache cs') \<and> slots (cs_cache cs') = slots (cs_cache cs) \<and>
    (\<exists>more. cs_checks cs' = cs_checks cs @ more \<and>
      (chk \<and> checks_pass env more \<longrightarrow>
        tx_scripts env (slots (cs_cache cs)) tx (cache_contents (cs_view cs))))"
proof -
  let ?e = "connect_env.truncate env" and ?n = "scriptExecutionCacheNonce env" and ?t = "Precompute (be_hash env) tx"
  let ?q = "nScriptCheckThreads env \<noteq> 0"
  let ?entry = "script_cache_entry ?e ?n tx GetBlockScriptFlags"
  obtain q v sc where k: "CheckInputs ?e B ?n tx (cs_view cs) chk GetBlockScriptFlags False ?t ?q (cs_cache cs) = (q, v, sc)"
    by (cases "CheckInputs ?e B ?n tx (cs_view cs) chk GetBlockScriptFlags False ?t ?q (cs_cache cs)")
  obtain checks where q: "q = Inr checks" and cs': "cs' = cs\<lparr>cs_view := v, cs_cache := sc,
      cs_checks := cs_checks cs @ (if chk \<and> ?q then checks else [])\<rparr>"
    using r k by (auto simp: connect_scripts_def split: sum.splits)
  obtain hit sc1 where h: "cache_contains SignatureCacheHasher (cs_cache cs) ?entry True = (hit, sc1)"
    by (cases "cache_contains SignatureCacheHasher (cs_cache cs) ?entry True")
  have sc1: "cuckoo_ok sc1" "slots sc1 = slots (cs_cache cs)"
    using cache_contains_ok(1,2) [of SignatureCacheHasher "cs_cache cs" ?entry True] c(2) h by simp_all
  have sc: "sc = cs_cache cs \<or> sc = sc1"
    using k h by (auto simp: CheckInputs_def Let_def split: if_splits sum.splits prod.splits)
  have "checks = [] \<or> ?q" if "\<not> hit" chk
  proof (cases "?q")
    case False
    obtain qq d where s: "check_scripts ?e B tx GetBlockScriptFlags ?t ?q 0 (tx_vin tx) [] (cs_view cs) = (qq, d)"
      by (cases "check_scripts ?e B tx GetBlockScriptFlags ?t ?q 0 (tx_vin tx) [] (cs_view cs)")
    have "qq = Inr checks" using k h s q that nc by (auto simp: CheckInputs_def Let_def split: sum.splits)
    with check_scripts_ok [OF c(1) s] False show ?thesis by auto
  qed simp
  moreover have "hit \<Longrightarrow> ?entry \<in> set (slots (cs_cache cs))" using contains_slot [OF c(2), of SignatureCacheHasher ?entry True] h by simp
  moreover have "checks_pass env checks \<Longrightarrow> chk \<Longrightarrow> \<not> hit \<Longrightarrow>
      scripts_pass ?e (cache_contents (cs_view cs)) tx GetBlockScriptFlags ?t"
    using CheckInputs_ok(2) [OF c(1) k q nc] h by (simp add: checks_pass_def)
  ultimately have "chk \<and> checks_pass env (if chk \<and> ?q then checks else []) \<longrightarrow>
      tx_scripts env (slots (cs_cache cs)) tx (cache_contents (cs_view cs))"
    unfolding tx_scripts_def by (metis (mono_tags) checks_pass_append(2))
  then show ?thesis using sc sc1 c(2) by (auto simp: cs')
qed

lemma connect_tx_scripts:
  assumes c: "cache_ok (cs_view cs)" "cuckoo_ok (cs_cache cs)"
    and r: "connect_tx env B H pindex height False chk first tx cs = (Inr (), cs')"
  shows "cuckoo_ok (cs_cache cs') \<and> slots (cs_cache cs') = slots (cs_cache cs) \<and>
    (\<exists>more. cs_checks cs' = cs_checks cs @ more \<and>
      (chk \<and> checks_pass env more \<longrightarrow> tx_scripts env (slots (cs_cache cs)) tx (cache_contents (cs_view cs))))"
proof -
  obtain cs1 n v2 cs2 cs3 undo v4 where
    s1: "(if \<not> IsCoinBase tx then connect_inputs B H pindex height tx cs else (Inr (), cs)) = (Inr (), cs1)"
    and s2: "GetTransactionSigOpCost B tx (cs_view cs1) GetBlockScriptFlags = Inr (n, v2)"
    and cs2: "cs2 = cs1\<lparr>cs_view := v2, nSigOpsCost := nSigOpsCost cs1 + n\<rparr>" and "nSigOpsCost cs1 + n \<le> MAX_BLOCK_SIGOPS_COST"
    and s3: "(if \<not> IsCoinBase tx then connect_scripts env B False chk tx cs2 else (Inr (), cs2)) = (Inr (), cs3)"
    and "UpdateCoins (be_hash env) B tx (cs_view cs3) height = Inr (undo, v4)"
    and cs': "cs' = cs3\<lparr>cs_view := v4, vtxundo := vtxundo cs3 @ (if first then [] else [undo])\<rparr>"
    by (rule connect_tx_stages [OF r])
  show ?thesis
  proof (cases "IsCoinBase tx")
    case True
    then show ?thesis using s1 s3 c(2) by (auto simp: cs' cs2 tx_scripts_def)
  next
    case False
    with s1 have i: "connect_inputs B H pindex height tx cs = (Inr (), cs1)" by simp
    note k1 = connect_inputs_ok(1) [OF c(1) i False] connect_inputs_checks [OF i]
    have k2: "cache_ok (cs_view cs2)" "cache_contents (cs_view cs2) = cache_contents (cs_view cs)" "cuckoo_ok (cs_cache cs2)"
      "cs_cache cs2 = cs_cache cs" "cs_checks cs2 = cs_checks cs"
      using GetTransactionSigOpCost_ok [OF _ s2] k1 c(2) by (simp_all add: cs2)
    from False s3 have s: "connect_scripts env B False chk tx cs2 = (Inr (), cs3)" by simp
    show ?thesis using connect_scripts_pass [OF k2(1,3) s False] k2 by (simp add: cs')
  qed
qed

lemma connect_txs_scripts:
  "cache_ok (cs_view cs) \<Longrightarrow> cuckoo_ok (cs_cache cs) \<Longrightarrow>
   connect_txs env B H pindex height False chk first txs cs = (Inr (), cs') \<Longrightarrow>
   txs_new (be_hash env) height txs (cache_contents (cs_view cs)) \<Longrightarrow> \<forall>tx\<in>set txs. outputs_ok tx \<Longrightarrow>
   \<exists>more. cs_checks cs' = cs_checks cs @ more \<and>
     (chk \<and> checks_pass env more \<longrightarrow>
       txs_scripts env (slots (cs_cache cs)) height txs (cache_contents (cs_view cs)))"
proof (induction txs arbitrary: cs first)
  case (Cons tx txs)
  obtain d where d: "connect_tx env B H pindex height False chk first tx cs = (Inr (), d)"
    and rest: "connect_txs env B H pindex height False chk False txs d = (Inr (), cs')"
    using Cons.prems(3) by (auto split: prod.splits sum.splits)
  have new: "tx_new (be_hash env) tx (cache_contents (cs_view cs))" "outputs_ok tx"
    "txs_new (be_hash env) height txs (apply_tx (be_hash env) height tx (cache_contents (cs_view cs)))"
    "\<forall>tx\<in>set txs. outputs_ok tx" using Cons.prems(4,5) by simp_all
  have o: "cache_ok (cs_view d)" "cache_contents (cs_view d) = apply_tx (be_hash env) height tx (cache_contents (cs_view cs))"
    using connect_tx_ok [OF Cons.prems(1) d new(1,2)] by simp_all
  from connect_tx_scripts [OF Cons.prems(1,2) d] obtain m1 where m1: "cuckoo_ok (cs_cache d)" "slots (cs_cache d) = slots (cs_cache cs)"
    "cs_checks d = cs_checks cs @ m1"
    "chk \<and> checks_pass env m1 \<longrightarrow> tx_scripts env (slots (cs_cache cs)) tx (cache_contents (cs_view cs))" by blast
  from Cons.IH [OF o(1) m1(1) rest] new(3,4) o(2) obtain m2 where "cs_checks cs' = cs_checks d @ m2"
    "chk \<and> checks_pass env m2 \<longrightarrow>
       txs_scripts env (slots (cs_cache d)) height txs (cache_contents (cs_view d))" by auto
  then show ?case using m1 o(2) by (intro exI [of _ "m1 @ m2"]) auto
qed simp

theorem ConnectBlock_scripts:
  assumes c: "cache_ok view" and sc: "cuckoo_ok (scriptExecutionCache ns)" and b: "ns_index ns pindex = Some b"
    and r: "ConnectBlock env params B block False pindex False view ns = (Inr True, fc, view', ns')"
    and new: "txs_new (be_hash env) (int (nHeight b)) (vtx block) (cache_contents view)"
    and chk: "fScriptChecks_for env params ns pindex = Inr True"
  shows "txs_scripts env (slots (scriptExecutionCache ns)) (int (nHeight b)) (vtx block) (cache_contents view)"
proof -
  note s = ConnectBlock_stages [OF r b]
  note ck = conjunct1 [OF s] and cc = conjunct1 [OF conjunct2 [OF s]]
  let ?start = "\<lambda>v. \<lparr>cs_view = v, nFees = 0, nSigOpsCost = 0, vtxundo = [], cs_checks = [], cs_cache = scriptExecutionCache ns\<rparr>"
  obtain prevHash v k cs where p: "Cache_GetBestBlock B view = (prevHash, v)" and k: "fScriptChecks_for env params ns pindex = Inr k"
    and t: "connect_txs env B (ns_index ns) pindex (int (nHeight b)) False k True (vtx block) (?start v) = (Inr (), cs)"
    and fin: "connect_finish env params block (nHeight b) pindex prevHash False cs (ns\<lparr>scriptExecutionCache := cs_cache cs\<rparr>) =
        (Inr True, view', ns')"
    using connect_checked_ok [OF cc] by blast
  from k chk have k: "k = True" by simp
  have outs: "\<forall>tx\<in>set (vtx block). outputs_ok tx" using CheckBlock_accepts [OF ck] outputs_ok_checked by blast
  have "checks_pass env (cs_checks cs)"
    using connect_finish_ok [OF fin] unfolding checks_pass_def by blast
  moreover have "cache_ok v" "cache_contents v = cache_contents view" using Cache_GetBestBlock_ok [OF c p] by simp_all
  moreover note connect_txs_scripts [OF _ _ t, simplified]
  ultimately show ?thesis using sc new outs k by (metis (no_types))
qed

end
section \<open>The money that is ever made\<close>

definition issued :: "int \<Rightarrow> nat \<Rightarrow> CAmount" where
  "issued interval h = (\<Sum>k\<le>h. GetBlockSubsidy interval (int k))"

definition period_subsidy :: "nat \<Rightarrow> CAmount" where
  "period_subsidy q = (if 64 \<le> q then 0 else INITIAL_SUBSIDY div 2 ^ q)"

lemma subsidy_period:
  assumes "0 < k" "0 < p"
  shows "GetBlockSubsidy (int p) (int k) = period_subsidy (k div p)"
proof -
  have "int k div int p = int (k div p)" by (simp add: zdiv_int)
  then show ?thesis using assms by (simp add: GetBlockSubsidy_def period_subsidy_def drop_bit_eq_div Let_def)
qed

lemma period_subsidy_range: "0 \<le> period_subsidy q"
  by (simp add: period_subsidy_def INITIAL_SUBSIDY_def COIN_def pos_imp_zdiv_nonneg_iff)

lemma sum_periods: "0 < p \<Longrightarrow> (\<Sum>k<n * p. period_subsidy (k div p)) = int p * (\<Sum>q<n. period_subsidy q)"
proof (induction n)
  case (Suc n)
  have "(\<Sum>k<Suc n * p. period_subsidy (k div p)) =
      (\<Sum>k<n * p. period_subsidy (k div p)) + (\<Sum>k\<in>{n * p..<n * p + p}. period_subsidy (k div p))"
    using sum.atLeastLessThan_concat [of 0 "n * p" "n * p + p" "\<lambda>k. period_subsidy (k div p)"]
    by (simp add: lessThan_atLeast0 add.commute)
  moreover have "(\<Sum>k\<in>{n * p..<n * p + p}. period_subsidy (k div p)) = (\<Sum>k\<in>{n * p..<n * p + p}. period_subsidy n)"
  proof (intro sum.cong refl)
    fix k assume k: "k \<in> {n * p..<n * p + p}"
    then have "k div p = n" by (intro div_nat_eqI) (auto simp: mult.commute)
    then show "period_subsidy (k div p) = period_subsidy n" by simp
  qed
  ultimately show ?case using Suc by (simp add: algebra_simps)
qed simp

lemma halvings: "0 \<le> (s :: int) \<Longrightarrow> (\<Sum>q<n. s div 2 ^ q) + 2 * (s div 2 ^ n) \<le> 2 * s"
proof (induction n)
  case (Suc n)
  have "s div 2 ^ Suc n = s div 2 ^ n div 2" by (simp only: power_Suc2) (simp add: zdiv_zmult2_eq)
  then have "2 * (s div 2 ^ Suc n) \<le> s div 2 ^ n" by simp
  then show ?case using Suc by simp
qed simp

lemma periods_total: "(\<Sum>q<64. period_subsidy q) \<le> 2 * INITIAL_SUBSIDY"
proof -
  have "0 \<le> INITIAL_SUBSIDY" by (simp add: INITIAL_SUBSIDY_def COIN_def)
  moreover have "(\<Sum>q<64. period_subsidy q) = (\<Sum>q<64. INITIAL_SUBSIDY div 2 ^ q)"
    by (intro sum.cong) (auto simp: period_subsidy_def)
  moreover have "0 \<le> INITIAL_SUBSIDY div 2 ^ 64" by (simp add: INITIAL_SUBSIDY_def COIN_def)
  ultimately show ?thesis using halvings [of INITIAL_SUBSIDY 64] by linarith
qed

theorem issued_bound:
  assumes p: "0 < p"
  shows "issued (int p) h \<le> GENESIS_MONEY + 2 * int p * INITIAL_SUBSIDY"
proof -
  have "issued (int p) h = GENESIS_MONEY + (\<Sum>k\<in>{1..h}. GetBlockSubsidy (int p) (int k))"
    by (simp add: issued_def atMost_atLeast0 sum.atLeast_Suc_atMost GetBlockSubsidy_def)
  also have "(\<Sum>k\<in>{1..h}. GetBlockSubsidy (int p) (int k)) = (\<Sum>k\<in>{1..h}. period_subsidy (k div p))"
    using p by (intro sum.cong) (auto simp: subsidy_period)
  also have "\<dots> \<le> (\<Sum>k<(64 + h) * p. period_subsidy (k div p))"
  proof (rule sum_mono2)
    show "{1..h} \<subseteq> {..<(64 + h) * p}" using p by (auto simp: less_le_trans [of _ "(64 + h) * 1"])
  qed (simp_all add: period_subsidy_range)
  also have "\<dots> = int p * (\<Sum>q<64 + h. period_subsidy q)" using p by (rule sum_periods)
  also have "(\<Sum>q<64 + h. period_subsidy q) = (\<Sum>q<64. period_subsidy q)"
    by (rule sum.mono_neutral_right) (auto simp: period_subsidy_def)
  also have "GENESIS_MONEY + int p * (\<Sum>q<64. period_subsidy q) \<le> GENESIS_MONEY + 2 * int p * INITIAL_SUBSIDY"
    using mult_left_mono [OF periods_total, of "int p"] by (simp add: ac_simps)
  finally show ?thesis by simp
qed

lemma issued_max: "issued 2000000 h \<le> MAX_MONEY"
  using issued_bound [of 2000000 h] by (simp add: GENESIS_MONEY_def INITIAL_SUBSIDY_def MAX_MONEY_def COIN_def)
section \<open>Policy and consensus\<close>

lemma CScriptCheck_run_weaker:
  assumes "CScriptCheck_run env (chk\<lparr>nFlags := fl'\<rparr>) = Inr ()" and "fl AND fl' = fl" "flags_ok fl"
  shows "CScriptCheck_run env (chk\<lparr>nFlags := fl\<rparr>) = Inr ()"
proof -
  define e where "e fl = \<lparr>flags = fl, sigversion = SIGVERSION_BASE,
         sig_checker = TransactionSignatureChecker (be_ed env) (be_hash env)
           \<lparr>tc_txTo = ptxTo chk, tc_nIn = nIn chk, tc_amount = nValue (m_tx_out chk), tc_txdata = Some (sk_txdata chk)\<rparr>,
         hash_fns = ce_hashers env\<rparr>" for fl
  have "subenv (e fl') (e fl)" "flags_ok (flags (e fl))" using assms(2,3) by (auto simp: subenv_def e_def)
  from VerifyScript_weaker [OF this] assms(1) show ?thesis by (simp add: CScriptCheck_run_def Let_def e_def [symmetric])
qed

text \<open>What passes under the flags of the relay policy passes in a block.\<close>

theorem standard_scripts_pass:
  assumes "scripts_pass env f tx STANDARD_SCRIPT_VERIFY_FLAGS txdata"
  shows "scripts_pass env f tx GetBlockScriptFlags txdata"
proof -
  have sub: "GetBlockScriptFlags AND STANDARD_SCRIPT_VERIFY_FLAGS = GetBlockScriptFlags" and ok: "flags_ok GetBlockScriptFlags"
    by (simp_all add: GetBlockScriptFlags_def STANDARD_SCRIPT_VERIFY_FLAGS_def MANDATORY_SCRIPT_VERIFY_FLAGS_def flags_ok_def flag_set_def)
  have "CScriptCheck_run env (input_check f tx GetBlockScriptFlags txdata i txin) = Inr ()"
    if "CScriptCheck_run env (input_check f tx STANDARD_SCRIPT_VERIFY_FLAGS txdata i txin) = Inr ()" for i txin
    using CScriptCheck_run_weaker [OF _ sub ok, of env "input_check f tx 0 txdata i txin"] that by (simp add: input_check_def)
  with assms show ?thesis by (simp add: scripts_pass_def)
qed

section \<open>Disconnecting what has been connected\<close>

lemma raised_undo_pos:
  assumes "b'' = b' \<or> RaiseValidity b' BLOCK_VALID_SCRIPTS = Inr (b'', True) \<or> RaiseValidity b' BLOCK_VALID_SCRIPTS = Inr (b'', False)"
    and "b' = b\<lparr>nUndoPos := n, nStatus := nStatus b OR BLOCK_HAVE_UNDO\<rparr>"
  shows "GetUndoPos b'' = \<lparr>pos_nFile = nFile b, pos_nPos = n\<rparr>"
proof -
  have h: "w AND BLOCK_HAVE_UNDO \<noteq> 0 \<longleftrightarrow> bit w 4" for w
    using and_exp_eq_0_iff_not_bit [of w 4] by (simp add: BLOCK_HAVE_UNDO_def)
  have n: "\<not> bit BLOCK_VALID_MASK 4" "bit BLOCK_HAVE_UNDO 4" by (simp_all add: BLOCK_VALID_MASK_def BLOCK_HAVE_UNDO_def BLOCK_VALID_HEADER_def BLOCK_VALID_TREE_def BLOCK_VALID_TRANSACTIONS_def BLOCK_VALID_CHAIN_def BLOCK_VALID_SCRIPTS_def)
  have "bit (nStatus b') 4" by (simp add: assms(2) bit_simps n)
  moreover have "bit (nStatus b'') 4 \<and> nFile b'' = nFile b' \<and> nUndoPos b'' = nUndoPos b'"
    if "RaiseValidity b' BLOCK_VALID_SCRIPTS = Inr (b'', r)" for r
    using that calculation n by (auto simp: RaiseValidity_def bit_simps split: if_splits)
  ultimately show ?thesis using assms by (auto simp: GetUndoPos_def h)
qed

context coins_view
begin

lemma disconnect_applied:
  assumes c: "cache_ok c" and block: "block_form (vtx block)" and hh: "height < 2 ^ 31"
    and fit: "txs_fit h (int height) (vtx block) f" and cc: "cache_contents c = apply_txs h (int height) (vtx block) f"
    and u: "\<forall>us\<in>set (spent_by h (int height) (vtx block) f). \<forall>u\<in>set us. restorable u"
  shows "\<exists>c2. DisconnectBlock h B block height prev (Some (tl (spent_by h (int height) (vtx block) f))) c = Inr (DISCONNECT_OK, c2) \<and>
    cache_ok c2 \<and> cache_contents c2 = f \<and> hashBlock c2 = prev"
proof -
  let ?s = "spent_by h (int height) (vtx block) f"
  obtain d where d: "disconnect_txs h B height (rev (zip (vtx block) (map2 undo_of (vtx block) ?s))) (True, c) =
      Inr (Some (True, d))" "cache_ok d" "cache_contents d = f"
    using disconnect_txs_ok [OF c cc fit hh u] by blast
  have "0 < length (vtx block)" using block by (cases "vtx block") (simp_all add: block_form_def)
  then have l: "length (tl ?s) + 1 = length (vtx block)" by simp
  have "DisconnectBlock h B block height prev (Some (tl ?s)) c = Inr (DISCONNECT_OK, SetBestBlock d prev)"
    using d(1) l unfolding undo_of_block [OF block, symmetric] by (simp add: DisconnectBlock_def)
  moreover have "cache_ok (SetBestBlock d prev)" "cache_contents (SetBestBlock d prev) = f" "hashBlock (SetBestBlock d prev) = prev"
    using d(2,3) by (simp_all add: SetBestBlock_def cache_ok_def cache_contents_def)
  ultimately show ?thesis by blast
qed

theorem ConnectBlock_DisconnectBlock:
  assumes c: "cache_ok view" and b: "ns_index ns pindex = Some b"
    and r: "ConnectBlock env params B block False pindex False view ns = (Inr True, fc, view', ns')"
    and new: "txs_new (be_hash env) (int (nHeight b)) (vtx block) (cache_contents view)" and hh: "nHeight b < 2 ^ 31"
    and none: "CDiskBlockPos_IsNull (GetUndoPos b)" and fno: "0 \<le> nFile b" "nat (nFile b) < length (vinfoBlockFile (ns_disk ns))"
    and magic: "length (messageStart (ne_disk env)) = 4"
  defines "us \<equiv> tl (spent_by (be_hash env) (int (nHeight b)) (vtx block) (cache_contents view))"
  assumes size: "unat (nUndoSize (vinfoBlockFile (ns_disk ns) ! nat (nFile b))) + length (Serialize_CBlockUndo us) + 40 < 2 ^ 32"
    and ok: "list_all undo_ok us" "fits_size us" and u: "\<forall>u\<in>set (concat us). restorable u"
  shows "\<exists>b'' view''. ns_index ns' pindex = Some b'' \<and>
    UndoReadFromDisk (be_hash env) (GetUndoPos b'') (cache_best view) (ns_disk ns') = Some us \<and>
    DisconnectBlock (be_hash env) B block (nHeight b) (cache_best view) (Some us) view' = Inr (DISCONNECT_OK, view'') \<and>
    cache_ok view'' \<and> cache_contents view'' = cache_contents view \<and> hashBlock view'' = cache_best view"
proof -
  let ?f = "cache_contents view" and ?h = "be_hash env"
  have o: "block_form (vtx block)" "txs_fit ?h (int (nHeight b)) (vtx block) ?f" "cache_ok view'"
    "cache_contents view' = apply_txs ?h (int (nHeight b)) (vtx block) ?f"
    and "\<exists>ns2. ns_disk ns2 = ns_disk ns \<and> ns_index ns2 = ns_index ns \<and>
        connect_write env block us pindex (cache_best view) ns2 = (Inr True, ns')"
    using ConnectBlock_ok(1) [OF c b r new] unfolding us_def by simp_all
  then obtain ns2 where ns2: "ns_disk ns2 = ns_disk ns" "ns_index ns2 = ns_index ns"
    "connect_write env block us pindex (cache_best view) ns2 = (Inr True, ns')" by blast
  have b2: "ns_index ns2 pindex = Some b" using ns2(2) b by simp
  obtain b' b'' where w: "WriteUndoDataForBlock (ne_disk env) ?h us b (cache_best view) (ns_disk ns) = (True, b', ns_disk ns')"
    "ns_index ns' = (ns_index ns2)(pindex \<mapsto> b'')"
    "b'' = b' \<or> RaiseValidity b' BLOCK_VALID_SCRIPTS = Inr (b'', True) \<or> RaiseValidity b' BLOCK_VALID_SCRIPTS = Inr (b'', False)"
    using connect_write_ok [OF ns2(3) b2] ns2(1) by auto
  note st = WriteUndoData_stores [OF w(1) none magic fno(2) size]
  have pos: "GetUndoPos b'' = \<lparr>pos_nFile = nFile b, pos_nPos = nUndoPos b'\<rparr>" using raised_undo_pos [OF w(3)] st by blast
  have rd: "UndoReadFromDisk ?h (GetUndoPos b'') (cache_best view) (ns_disk ns') = Some us"
    using st fno(1) ok by (intro UndoReadFromDisk_stored) (simp_all add: pos)
  have sp: "spent_by ?h (int (nHeight b)) (vtx block) ?f = [] # us"
  proof -
    obtain cb txs where "vtx block = cb # txs" "IsCoinBase cb" using o(1) by (cases "vtx block") (auto simp: block_form_def)
    then show ?thesis by (simp add: us_def spent_coins_def)
  qed
  then have "\<forall>us\<in>set (spent_by ?h (int (nHeight b)) (vtx block) ?f). \<forall>u\<in>set us. restorable u" using u by auto
  from disconnect_applied [OF o(3,1) hh o(2,4) this] show ?thesis using rd w(2) unfolding us_def by auto
qed

end

end
