(* ===== verification/BlockTree.thy ===== *)
theory BlockTree imports Connect "HOL-Library.Product_Lexorder"
begin

text \<open>
  The tree of blocks and its candidates, \<^verbatim>\<open>src/src/validation.cpp\<close>: the order of the candidates for the tip
  (\<open>CBlockIndexWorkComparator\<close>), \<open>AddToBlockIndex\<close>, \<open>ReceivedBlockTransactions\<close>, \<open>AcceptBlockHeader\<close>,
  \<open>InvalidBlockFound\<close>, \<open>FindMostWorkChain\<close> and \<open>PruneBlockIndexCandidates\<close>.  The tree stays a tree, the work of a
  block is the sum of the proofs of its branch, and the search for the tip ends and finds the best candidate
  whose branch can be connected.
\<close>

unbundle bit_operations_syntax

section \<open>State\<close>

text \<open>The set of candidates is ordered by the comparator, which is total, so that it is a set of pointers of which
  the greatest is taken; \<open>g_failed_blocks\<close> is ordered by address.  The entries of \<open>mapBlocksUnlinked\<close> with one key
  are in the order of their insertion.\<close>

record chain_state = node_state +
  setBlockIndexCandidates :: "ptr list"
  nBlockSequenceId :: int
  nBlockReverseSequenceId :: int
  nLastPreciousChainwork :: base_uint
  g_failed_blocks :: "ptr list"
  mapBlocksUnlinked :: "(ptr \<times> ptr) list"
  pindexBestInvalid :: "ptr option"

definition work_less :: "CBlockIndex \<Rightarrow> ptr \<Rightarrow> CBlockIndex \<Rightarrow> ptr \<Rightarrow> bool" where
  "work_less a pa b pb =
     (if CompareTo (nChainWork a) (nChainWork b) > 0 then False
      else if CompareTo (nChainWork a) (nChainWork b) < 0 then True
      else if nSequenceId a < nSequenceId b then False
      else if nSequenceId a > nSequenceId b then True
      else if pa < pb then False
      else if pa > pb then True
      else False)"

text \<open>On pointers; a dangling one is never compared.\<close>

definition CBlockIndexWorkComparator :: "index_heap \<Rightarrow> ptr \<Rightarrow> ptr \<Rightarrow> bool" where
  "CBlockIndexWorkComparator H pa pb =
     (case (H pa, H pb) of (Some a, Some b) \<Rightarrow> work_less a pa b pb | _ \<Rightarrow> False)"

fun best_candidate :: "index_heap \<Rightarrow> ptr list \<Rightarrow> ptr option" where
  "best_candidate H [] = None"
| "best_candidate H (p # ps) =
     (case best_candidate H ps of None \<Rightarrow> Some p
      | Some q \<Rightarrow> Some (if CBlockIndexWorkComparator H q p then p else q))"

definition add_candidate :: "ptr \<Rightarrow> 'z chain_state_scheme \<Rightarrow> 'z chain_state_scheme" where
  "add_candidate p cs = cs\<lparr>setBlockIndexCandidates := List.insert p (setBlockIndexCandidates cs)\<rparr>"

definition erase_candidate :: "ptr \<Rightarrow> 'z chain_state_scheme \<Rightarrow> 'z chain_state_scheme" where
  "erase_candidate p cs = cs\<lparr>setBlockIndexCandidates := removeAll p (setBlockIndexCandidates cs)\<rparr>"

text \<open>The candidates that are worse than the tip go; one must be left.\<close>

definition PruneBlockIndexCandidates :: "'z chain_state_scheme \<Rightarrow> chain_fault + 'z chain_state_scheme" where
  "PruneBlockIndexCandidates cs =
     (if setBlockIndexCandidates cs = [] then Inl Assert_fails
      else case Tip (chainActive cs) of None \<Rightarrow> Inl Bad_pointer
      | Some tip \<Rightarrow>
          let ps = filter (\<lambda>p. \<not> CBlockIndexWorkComparator (ns_index cs) p tip) (setBlockIndexCandidates cs) in
          if ps = [] then Inl Assert_fails else Inr (cs\<lparr>setBlockIndexCandidates := ps\<rparr>))"

section \<open>New entries\<close>

text \<open>The new entry with its parent and its skip pointer, and the parent.\<close>

definition link_entry :: "index_heap \<Rightarrow> ptr \<Rightarrow> CBlockIndex \<Rightarrow> ptr option \<Rightarrow> chain_fault + index_heap \<times> CBlockIndex option" where
  "link_entry H p new miPrev =
     (case miPrev of None \<Rightarrow> Inr (H(p \<mapsto> new), None)
      | Some q \<Rightarrow> bind_sum (deref (H(p \<mapsto> new)) q) (\<lambda>prev.
          bind_sum (BuildSkip (H(p \<mapsto> new\<lparr>pprev := Some q, nHeight := nHeight prev + 1\<rparr>)) p) (\<lambda>H. Inr (H, Some prev))))"

text \<open>With the largest time, the work and the validity.\<close>

definition fill_entry :: "CBlockIndex \<Rightarrow> CBlockIndex option \<Rightarrow> chain_fault + CBlockIndex" where
  "fill_entry b prev =
     (case GetBlockProof (bi_nBits b) of None \<Rightarrow> Inl Bad_pointer
      | Some proof \<Rightarrow>
          let b = b\<lparr>nTimeMax := (case prev of None \<Rightarrow> bi_nTime b | Some a \<Rightarrow> max (nTimeMax a) (bi_nTime b)),
                nChainWork := arith_add (case prev of None \<Rightarrow> arith_of_u64 0 | Some a \<Rightarrow> nChainWork a) proof\<rparr> in
          bind_sum (RaiseValidity b BLOCK_VALID_TREE) (\<lambda>(b, _). Inr b))"

definition better_header :: "index_heap \<Rightarrow> ptr option \<Rightarrow> CBlockIndex \<Rightarrow> chain_fault + bool" where
  "better_header H best b =
     (case best of None \<Rightarrow> Inr True
      | Some q \<Rightarrow> bind_sum (deref H q) (\<lambda>bh. Inr (CompareTo (nChainWork bh) (nChainWork b) < 0)))"

text \<open>The new entry is at an address \<open>p\<close> that the allocator chose.\<close>

definition AddToBlockIndex ::
  "(bytes \<Rightarrow> bytes) \<Rightarrow> ptr \<Rightarrow> CBlockHeader \<Rightarrow> 'z chain_state_scheme \<Rightarrow> chain_fault + ptr \<times> 'z chain_state_scheme" where
  "AddToBlockIndex h p block cs =
     (let hash = BlockHeader_GetHash h block in
      case mapBlockIndex cs hash of Some q \<Rightarrow> Inr (q, cs)
      | None \<Rightarrow>
          let new = (CBlockIndex_of block)\<lparr>nSequenceId := 0, phashBlock := Some hash\<rparr>;
              m = (mapBlockIndex cs)(hash \<mapsto> p) in
          bind_sum (link_entry (ns_index cs) p new (m (hashPrevBlock block))) (\<lambda>(H, prev).
          bind_sum (deref H p) (\<lambda>b.
          bind_sum (fill_entry b prev) (\<lambda>b.
          bind_sum (better_header (H(p \<mapsto> b)) (pindexBestHeader cs) b) (\<lambda>better.
            let cs = cs\<lparr>ns_index := H(p \<mapsto> b), mapBlockIndex := m\<rparr> in
            Inr (p, set_dirty p (if better then cs\<lparr>pindexBestHeader := Some p\<rparr> else cs)))))))"

section \<open>Data that has been received\<close>

text \<open>The queue of the blocks that are now linked to the genesis block.\<close>

definition link_block :: "ptr \<Rightarrow> 'z chain_state_scheme \<Rightarrow> chain_fault + ptr list \<times> 'z chain_state_scheme" where
  "link_block p cs =
     bind_sum (deref (ns_index cs) p) (\<lambda>b.
     bind_sum (case pprev b of None \<Rightarrow> Inr 0 | Some q \<Rightarrow> bind_sum (deref (ns_index cs) q) (\<lambda>a. Inr (nChainTx a))) (\<lambda>before.
       let b = b\<lparr>nChainTx := before + nTx b, nSequenceId := nBlockSequenceId cs\<rparr>;
           cs = (set_entry p b cs)\<lparr>nBlockSequenceId := nBlockSequenceId cs + 1\<rparr>;
           cs = (case Tip (chainActive cs) of None \<Rightarrow> add_candidate p cs
             | Some tip \<Rightarrow> if \<not> CBlockIndexWorkComparator (ns_index cs) p tip then add_candidate p cs else cs) in
       Inr (map snd (filter (\<lambda>(a, _). a = p) (mapBlocksUnlinked cs)),
            cs\<lparr>mapBlocksUnlinked := filter (\<lambda>(a, _). a \<noteq> p) (mapBlocksUnlinked cs)\<rparr>)))"

lemma link_block_queue:
  "link_block p cs = Inr (ps, cs') \<Longrightarrow> length ps + length (mapBlocksUnlinked cs') = length (mapBlocksUnlinked cs)"
  using sum_length_filter_compl [of "\<lambda>(a, _). a = p" "mapBlocksUnlinked cs"]
  by (auto simp: link_block_def Let_def set_entry_def add_candidate_def case_prod_unfold split: sum.splits option.splits if_splits)

function link_blocks :: "ptr list \<Rightarrow> 'z chain_state_scheme \<Rightarrow> chain_fault + 'z chain_state_scheme" where
  "link_blocks [] cs = Inr cs"
| "link_blocks (p # queue) cs =
     (case link_block p cs of Inl e \<Rightarrow> Inl e | Inr (ps, cs) \<Rightarrow> link_blocks (queue @ ps) cs)"
  by pat_completeness auto
termination
  by (relation "measure (\<lambda>(queue, cs). length queue + length (mapBlocksUnlinked cs))") (auto dest!: link_block_queue)

definition ReceivedBlockTransactions ::
  "CBlock \<Rightarrow> ptr \<Rightarrow> CDiskBlockPos \<Rightarrow> 'z chain_state_scheme \<Rightarrow> chain_fault + 'z chain_state_scheme" where
  "ReceivedBlockTransactions block p pos cs =
     bind_sum (deref (ns_index cs) p) (\<lambda>b.
       let b = b\<lparr>nTx := of_nat (length (vtx block)), nChainTx := 0, nFile := pos_nFile pos, nDataPos := pos_nPos pos,
             nUndoPos := 0, nStatus := (nStatus b OR BLOCK_HAVE_DATA) OR BLOCK_OPT_WITNESS\<rparr> in
       bind_sum (RaiseValidity b BLOCK_VALID_TRANSACTIONS) (\<lambda>(b, _).
       let cs = set_dirty p (set_entry p b cs) in
       case pprev b of None \<Rightarrow> link_blocks [p] cs
       | Some q \<Rightarrow> bind_sum (deref (ns_index cs) q) (\<lambda>prev.
           if nChainTx prev \<noteq> 0 then link_blocks [p] cs
           else bind_sum (IsValid prev BLOCK_VALID_TREE) (\<lambda>valid.
             Inr (if valid then cs\<lparr>mapBlocksUnlinked := mapBlocksUnlinked cs @ [(q, p)]\<rparr> else cs)))))"

section \<open>Blocks that fail\<close>

definition InvalidChainFound :: "ptr \<Rightarrow> 'z chain_state_scheme \<Rightarrow> chain_fault + 'z chain_state_scheme" where
  "InvalidChainFound p cs =
     bind_sum (deref (ns_index cs) p) (\<lambda>b.
     bind_sum (case pindexBestInvalid cs of None \<Rightarrow> Inr True
       | Some q \<Rightarrow> bind_sum (deref (ns_index cs) q) (\<lambda>a. Inr (CompareTo (nChainWork b) (nChainWork a) > 0))) (\<lambda>more.
       if Tip (chainActive cs) = None then Inl Assert_fails
       else Inr (if more then cs\<lparr>pindexBestInvalid := Some p\<rparr> else cs)))"

definition InvalidBlockFound :: "ptr \<Rightarrow> bool \<Rightarrow> 'z chain_state_scheme \<Rightarrow> chain_fault + 'z chain_state_scheme" where
  "InvalidBlockFound p corruption cs =
     (if corruption then Inr cs
      else bind_sum (deref (ns_index cs) p) (\<lambda>b.
        let cs = set_entry p (b\<lparr>nStatus := nStatus b OR BLOCK_FAILED_VALID\<rparr>) cs;
            cs = set_dirty p (cs\<lparr>g_failed_blocks := insort_insert p (g_failed_blocks cs)\<rparr>) in
        InvalidChainFound p (erase_candidate p cs)))"

section \<open>The best candidate\<close>

text \<open>The first block on the way down to the active chain that has failed or has no data.\<close>

partial_function (option) unusable_on_path ::
  "index_heap \<Rightarrow> CChain \<Rightarrow> ptr option \<Rightarrow> (chain_fault + (ptr \<times> bool) option) option" where
  [code]: "unusable_on_path H C pindexTest =
     (case pindexTest of None \<Rightarrow> Some (Inr None)
      | Some p \<Rightarrow> (case Contains H C p of Inl e \<Rightarrow> Some (Inl e)
          | Inr on_chain \<Rightarrow> if on_chain then Some (Inr None)
              else (case deref H p of Inl e \<Rightarrow> Some (Inl e)
              | Inr b \<Rightarrow>
                  if nChainTx b = 0 \<and> nHeight b \<noteq> 0 then Some (Inl Assert_fails)
                  else if nStatus b AND BLOCK_FAILED_MASK \<noteq> 0 \<or> nStatus b AND BLOCK_HAVE_DATA = 0
                  then Some (Inr (Some (p, nStatus b AND BLOCK_FAILED_MASK \<noteq> 0)))
                  else unusable_on_path H C (pprev b))))"

text \<open>The blocks above it are no candidates either.\<close>

partial_function (option) drop_path ::
  "bool \<Rightarrow> ptr \<Rightarrow> ptr \<Rightarrow> 'z chain_state_scheme \<Rightarrow> (chain_fault + 'z chain_state_scheme) option" where
  [code]: "drop_path fFailedChain target p cs =
     (if p = target then Some (Inr (erase_candidate target cs))
      else case ns_index cs p of None \<Rightarrow> Some (Inl Bad_pointer)
      | Some b \<Rightarrow> (case pprev b of None \<Rightarrow> Some (Inl Bad_pointer)
          | Some q \<Rightarrow>
              let cs = (if fFailedChain then set_entry p (b\<lparr>nStatus := nStatus b OR BLOCK_FAILED_CHILD\<rparr>) cs
                        else cs\<lparr>mapBlocksUnlinked := mapBlocksUnlinked cs @ [(q, p)]\<rparr>) in
              drop_path fFailedChain target q (erase_candidate p cs)))"

definition note_invalid :: "ptr \<Rightarrow> 'z chain_state_scheme \<Rightarrow> chain_fault + 'z chain_state_scheme" where
  "note_invalid p cs =
     bind_sum (deref (ns_index cs) p) (\<lambda>b.
     bind_sum (case pindexBestInvalid cs of None \<Rightarrow> Inr True
       | Some q \<Rightarrow> bind_sum (deref (ns_index cs) q) (\<lambda>a. Inr (CompareTo (nChainWork b) (nChainWork a) > 0))) (\<lambda>more.
       Inr (if more then cs\<lparr>pindexBestInvalid := Some p\<rparr> else cs)))"

partial_function (option) FindMostWorkChain ::
  "'z chain_state_scheme \<Rightarrow> (chain_fault + ptr option \<times> 'z chain_state_scheme) option" where
  [code]: "FindMostWorkChain cs =
     (case best_candidate (ns_index cs) (setBlockIndexCandidates cs) of None \<Rightarrow> Some (Inr (None, cs))
      | Some p \<Rightarrow> Option.bind (unusable_on_path (ns_index cs) (chainActive cs) (Some p)) (\<lambda>r.
          case r of Inl e \<Rightarrow> Some (Inl e)
          | Inr bad \<Rightarrow> (case bad of None \<Rightarrow> Some (Inr (Some p, cs))
              | Some tf \<Rightarrow>
                  (case (if snd tf then note_invalid p cs else Inr cs) of Inl e \<Rightarrow> Some (Inl e)
                   | Inr cs \<Rightarrow> Option.bind (drop_path (snd tf) (fst tf) p cs) (\<lambda>r.
                       case r of Inl e \<Rightarrow> Some (Inl e) | Inr cs \<Rightarrow> FindMostWorkChain cs)))))"


section \<open>Accepting headers and blocks\<close>

text \<open>The first of the failed blocks that is on the branch of \<open>p\<close>.\<close>

fun failed_ancestor :: "index_heap \<Rightarrow> ptr list \<Rightarrow> ptr \<Rightarrow> chain_fault + ptr option" where
  "failed_ancestor H [] p = Inr None"
| "failed_ancestor H (f # fs) p =
     bind_sum (deref H f) (\<lambda>b. bind_sum (GetAncestor H p (int (nHeight b))) (\<lambda>a.
       if a = Some f then (if nStatus b AND BLOCK_FAILED_VALID = 0 then Inl Assert_fails else Inr (Some f))
       else failed_ancestor H fs p))"

partial_function (option) mark_failed_children ::
  "ptr \<Rightarrow> ptr \<Rightarrow> 'z chain_state_scheme \<Rightarrow> (chain_fault + 'z chain_state_scheme) option" where
  [code]: "mark_failed_children target p cs =
     (if p = target then Some (Inr cs)
      else case ns_index cs p of None \<Rightarrow> Some (Inl Bad_pointer)
      | Some b \<Rightarrow> (case pprev b of None \<Rightarrow> Some (Inl Bad_pointer)
          | Some q \<Rightarrow> mark_failed_children target q
              (set_dirty p (set_entry p (b\<lparr>nStatus := nStatus b OR BLOCK_FAILED_CHILD\<rparr>) cs))))"

text \<open>Everything outside the tree that \<open>AcceptBlockHeader\<close> reads: the time and the checkpoints.\<close>

record 'n accept_env = node_env +
  ops512 :: "'n uint512_ops"
  ae_checkpoints :: "(int \<times> uint256) list option"
  AdjustedTime :: int

definition accept_new_header ::
  "'n accept_env \<Rightarrow> ptr \<Rightarrow> CBlock \<Rightarrow> 'z chain_state_scheme \<Rightarrow> (tx_error + ptr) \<times> 'z chain_state_scheme" where
  "accept_new_header env p block cs =
     (case AddToBlockIndex (be_hash env) p (GetBlockHeader block) cs of
        Inl f \<Rightarrow> (Inl (Fault f), cs) | Inr (q, cs) \<Rightarrow> (Inr q, cs))"

text \<open>A header that is not known: the checks, and whether a block below it has failed.\<close>

definition check_new_header ::
  "'n accept_env \<Rightarrow> Chain_Params \<Rightarrow> CBlock \<Rightarrow> 'z chain_state_scheme \<Rightarrow> ((tx_error + unit) \<times> 'z chain_state_scheme) option" where
  "check_new_header env params block cs =
     (case CheckBlockHeader (block_env.truncate env) (Consensus_Params.truncate params) block True of
        Inl r \<Rightarrow> Some (Inl (Rejected r), cs)
      | Inr _ \<Rightarrow>
          (case mapBlockIndex cs (hashPrevBlock block) of
             None \<Rightarrow> Some (Inl (Rejected ((reject 10 ''prev-blk-not-found'')\<lparr>rj_code := 0\<rparr>)), cs)
           | Some q \<Rightarrow>
          (case ns_index cs q of None \<Rightarrow> Some (Inl (Fault Bad_pointer), cs)
           | Some prev \<Rightarrow>
               if nStatus prev AND BLOCK_FAILED_MASK \<noteq> 0 then Some (Inl (Rejected (reject 100 ''bad-prevblk'')), cs)
               else Option.bind (ContextualCheckBlockHeader (ops512 env) (Consensus_Params.truncate params) (ae_checkpoints env)
                   (mapBlockIndex cs) (ns_index cs) (GetBlockHeader block) (Some q) (AdjustedTime env)) (\<lambda>r.
               case r of Inl e \<Rightarrow> Some (Inl e, cs)
               | Inr _ \<Rightarrow>
                   (case IsValid prev BLOCK_VALID_SCRIPTS of Inl f \<Rightarrow> Some (Inl (Fault f), cs)
                    | Inr valid \<Rightarrow>
                        if valid then Some (Inr (), cs)
                        else (case failed_ancestor (ns_index cs) (g_failed_blocks cs) q of
                            Inl f \<Rightarrow> Some (Inl (Fault f), cs)
                          | Inr None \<Rightarrow> Some (Inr (), cs)
                          | Inr (Some f) \<Rightarrow> Option.bind (mark_failed_children f q cs) (\<lambda>r.
                              case r of Inl e \<Rightarrow> Some (Inl (Fault e), cs)
                              | Inr cs \<Rightarrow> Some (Inl (Rejected (reject 100 ''bad-prevblk'')), cs))))))))"

definition AcceptBlockHeader ::
  "'n accept_env \<Rightarrow> Chain_Params \<Rightarrow> ptr \<Rightarrow> CBlock \<Rightarrow> 'z chain_state_scheme \<Rightarrow> ((tx_error + ptr) \<times> 'z chain_state_scheme) option" where
  "AcceptBlockHeader env params p block cs =
     (let hash = BlockHeader_GetHash (be_hash env) (GetBlockHeader block) in
      if hash = hashGenesisBlock params then Some (accept_new_header env p block cs)
      else case mapBlockIndex cs hash of
        Some q \<Rightarrow> Some (case ns_index cs q of None \<Rightarrow> (Inl (Fault Bad_pointer), cs)
          | Some b \<Rightarrow>
              if nStatus b AND BLOCK_FAILED_MASK \<noteq> 0
              then (Inl (Rejected ((reject 0 ''duplicate'')\<lparr>rj_code := 0\<rparr>)), cs) else (Inr q, cs))
      | None \<Rightarrow> Option.bind (check_new_header env params block cs) (\<lambda>(r, cs).
          case r of Inl e \<Rightarrow> Some (Inl e, cs) | Inr _ \<Rightarrow> Some (accept_new_header env p block cs)))"

fun ProcessNewBlockHeaders ::
  "'n accept_env \<Rightarrow> Chain_Params \<Rightarrow> (ptr \<times> CBlock) list \<Rightarrow> 'z chain_state_scheme \<Rightarrow> ((tx_error + unit) \<times> 'z chain_state_scheme) option" where
  "ProcessNewBlockHeaders env params [] cs = Some (Inr (), cs)"
| "ProcessNewBlockHeaders env params ((p, header) # headers) cs =
     Option.bind (AcceptBlockHeader env params p header cs) (\<lambda>(r, cs).
       case r of Inl e \<Rightarrow> Some (Inl e, cs) | Inr _ \<Rightarrow> ProcessNewBlockHeaders env params headers cs)"

section \<open>The order of the candidates\<close>

text \<open>More work comes last, then the lower sequence number, then the lower address.\<close>

definition work_key :: "index_heap \<Rightarrow> ptr \<Rightarrow> nat \<times> int \<times> int" where
  "work_key H p = (case H p of None \<Rightarrow> (0, 0, 0) | Some b \<Rightarrow> (num (nChainWork b), - nSequenceId b, - int p))"

definition works_ok :: "index_heap \<Rightarrow> bool" where
  "works_ok H \<longleftrightarrow> (\<forall>p b. H p = Some b \<longrightarrow> length (nChainWork b) = WIDTH)"

lemma comparator_key:
  assumes "works_ok H" "H p \<noteq> None" "H q \<noteq> None"
  shows "CBlockIndexWorkComparator H p q \<longleftrightarrow> work_key H p < work_key H q"
proof -
  obtain a b where ab: "H p = Some a" "H q = Some b" using assms by auto
  then have "length (nChainWork a) = length (nChainWork b)" using assms(1) by (simp add: works_ok_def)
  then show ?thesis using CompareTo_num [of "nChainWork a" "nChainWork b"] ab
    by (auto simp: CBlockIndexWorkComparator_def work_less_def work_key_def)
qed

lemma work_key_inj: "H p \<noteq> None \<Longrightarrow> H q \<noteq> None \<Longrightarrow> work_key H p = work_key H q \<Longrightarrow> p = q"
  by (auto simp: work_key_def)

lemma best_candidate_max:
  assumes "works_ok H"
  shows "\<forall>p\<in>set ps. H p \<noteq> None \<Longrightarrow> ps \<noteq> [] \<Longrightarrow>
    \<exists>p. best_candidate H ps = Some p \<and> p \<in> set ps \<and> (\<forall>q\<in>set ps. work_key H q \<le> work_key H p)"
proof (induction ps)
  case (Cons a ps)
  show ?case
  proof (cases "ps = []")
    case False
    with Cons obtain p where p: "best_candidate H ps = Some p" "p \<in> set ps" "\<forall>q\<in>set ps. work_key H q \<le> work_key H p" by auto
    have c: "CBlockIndexWorkComparator H p a \<longleftrightarrow> work_key H p < work_key H a"
      using comparator_key [OF assms, of p a] p(2) Cons.prems(1) by auto
    show ?thesis
    proof (cases "work_key H p < work_key H a")
      case True
      then have "\<forall>q\<in>set ps. work_key H q \<le> work_key H a" using p(3) by (meson order.trans less_imp_le)
      then show ?thesis using p(1) c True by simp
    qed (use p c in auto)
  qed simp
qed simp

section \<open>Updates that keep the shape of the tree\<close>

definition entry_shape :: "CBlockIndex \<Rightarrow> ptr option \<times> ptr option \<times> nat" where
  "entry_shape b = (pprev b, pskip b, nHeight b)"

definition same_shape :: "index_heap \<Rightarrow> index_heap \<Rightarrow> bool" where
  "same_shape H H' \<longleftrightarrow> map_option entry_shape \<circ> H = map_option entry_shape \<circ> H'"

lemma same_shape_refl [simp]: "same_shape H H"
  by (simp add: same_shape_def)

lemma same_shape_trans: "same_shape H H' \<Longrightarrow> same_shape H' H'' \<Longrightarrow> same_shape H H''"
  by (simp add: same_shape_def)

lemma same_shape_sym: "same_shape H H' \<Longrightarrow> same_shape H' H"
  by (simp add: same_shape_def)

lemma same_shape_point: "same_shape H H' \<Longrightarrow> map_option entry_shape (H p) = map_option entry_shape (H' p)"
  by (metis comp_apply same_shape_def)

lemma same_shape_at:
  assumes "same_shape H H'" "H p = Some b"
  shows "\<exists>b'. H' p = Some b' \<and> pprev b' = pprev b \<and> pskip b' = pskip b \<and> nHeight b' = nHeight b"
  using same_shape_point [OF assms(1), of p] assms(2) by (cases "H' p") (auto simp: entry_shape_def)

lemma same_shape_None: "same_shape H H' \<Longrightarrow> H' p = None \<longleftrightarrow> H p = None"
  using same_shape_point [of H H' p] by (cases "H p"; cases "H' p") auto

lemma same_shape_upd:
  "H p = Some b \<Longrightarrow> pprev b' = pprev b \<Longrightarrow> pskip b' = pskip b \<Longrightarrow> nHeight b' = nHeight b \<Longrightarrow>
   same_shape H (H(p \<mapsto> b'))"
  by (auto simp: same_shape_def entry_shape_def fun_eq_iff)

lemma same_shape_prev: "same_shape H H' \<Longrightarrow> nth_prev H' k p = nth_prev H k p"
proof (induction k arbitrary: p)
  case (Suc k)
  show ?case
  proof (cases "H p")
    case None
    then have "H' p = None" using same_shape_None [OF Suc.prems, of p] by simp
    with None show ?thesis by simp
  next
    case (Some b)
    then show ?thesis using same_shape_at [OF Suc.prems Some] Suc.IH [OF Suc.prems] by (auto split: bind_split)
  qed
qed simp

lemma same_shape_ancestor: "same_shape H H' \<Longrightarrow> ancestor H' x p = ancestor H x p"
  by (simp add: ancestor_def same_shape_prev)

lemma same_shape_tree:
  assumes s: "same_shape H H'" and t: "tree_ok H"
  shows "tree_ok H'"
  unfolding tree_ok_def entry_ok_def
proof (intro allI impI conjI)
  fix p b assume b: "H' p = Some b"
  from same_shape_at [OF same_shape_sym [OF s] b] obtain a where
    a: "H p = Some a" "pprev a = pprev b" "pskip a = pskip b" "nHeight a = nHeight b" by blast
  have e: "entry_ok H p a" by (rule tree_entry [OF t a(1)])
  show "case pprev b of None \<Rightarrow> nHeight b = 0 | Some q \<Rightarrow> \<exists>c. H' q = Some c \<and> nHeight b = Suc (nHeight c)"
  proof (cases "pprev b")
    case None
    then show ?thesis using e a by (simp add: entry_ok_def)
  next
    case (Some q)
    then obtain c where "H q = Some c" "nHeight b = Suc (nHeight c)" using e a by (auto simp: entry_ok_def)
    then show ?thesis using Some same_shape_at [OF s, of q c] by auto
  qed
  fix x assume "pskip b = Some x"
  then show "nth_prev H' (nHeight b - GetSkipHeight (nHeight b)) p = Some x"
    using e a by (simp add: entry_ok_def same_shape_prev [OF s])
qed

lemma same_shape_branch:
  assumes s: "same_shape H H'" and b: "is_branch H C"
  shows "is_branch H' C"
proof (cases "C = []")
  case False
  then obtain p b where p: "H p = Some b" "C = branch H p (nHeight b)" using assms(2) by (auto simp: is_branch_def)
  moreover obtain b' where "H' p = Some b'" "nHeight b' = nHeight b" using same_shape_at [OF s p(1)] by blast
  ultimately show ?thesis unfolding is_branch_def by (auto simp: branch_def same_shape_prev [OF s])
qed simp

lemma same_shape_Contains: "same_shape H H' \<Longrightarrow> Contains H' C p = Contains H C p"
proof (cases "H p")
  case (Some b)
  assume "same_shape H H'"
  from same_shape_at [OF this Some] show ?thesis using Some by (auto simp: Contains_def deref_def)
next
  case None
  assume "same_shape H H'"
  then have "H' p = None" using None same_shape_None by blast
  with None show ?thesis by (simp add: Contains_def deref_def)
qed

text \<open>Updates that keep the order of the candidates as well.\<close>

definition entry_rank :: "CBlockIndex \<Rightarrow> base_uint \<times> int" where
  "entry_rank b = (nChainWork b, nSequenceId b)"

definition same_rank :: "index_heap \<Rightarrow> index_heap \<Rightarrow> bool" where
  "same_rank H H' \<longleftrightarrow> map_option entry_rank \<circ> H = map_option entry_rank \<circ> H'"

lemma same_rank_refl [simp]: "same_rank H H"
  by (simp add: same_rank_def)

lemma same_rank_trans: "same_rank H H' \<Longrightarrow> same_rank H' H'' \<Longrightarrow> same_rank H H''"
  by (simp add: same_rank_def)

lemma same_rank_upd:
  "H p = Some b \<Longrightarrow> nChainWork b' = nChainWork b \<Longrightarrow> nSequenceId b' = nSequenceId b \<Longrightarrow> same_rank H (H(p \<mapsto> b'))"
  by (auto simp: same_rank_def entry_rank_def fun_eq_iff)

lemma same_rank_point: "same_rank H H' \<Longrightarrow> map_option entry_rank (H p) = map_option entry_rank (H' p)"
  by (metis comp_apply same_rank_def)

lemma same_rank_key: "same_rank H H' \<Longrightarrow> work_key H' p = work_key H p"
  using same_rank_point [of H H' p] by (cases "H p"; cases "H' p") (auto simp: entry_rank_def work_key_def)

lemma same_rank_works:
  assumes "same_rank H H'" "works_ok H"
  shows "works_ok H'"
  unfolding works_ok_def
proof (intro allI impI)
  fix p b assume "H' p = Some b"
  with same_rank_point [OF assms(1), of p] obtain a where "H p = Some a" "nChainWork a = nChainWork b"
    by (cases "H p") (auto simp: entry_rank_def)
  then show "length (nChainWork b) = WIDTH" using assms(2) unfolding works_ok_def by metis
qed

section \<open>The tree of the index\<close>

text \<open>The work of a block is that of the block before it and its own proof.\<close>

definition work_ok :: "index_heap \<Rightarrow> bool" where
  "work_ok H \<longleftrightarrow> (\<forall>p b. H p = Some b \<longrightarrow> (\<exists>w. GetBlockProof (bi_nBits b) = Some w \<and>
     (case pprev b of None \<Rightarrow> nChainWork b = arith_add (arith_of_u64 0) w
      | Some q \<Rightarrow> \<forall>a. H q = Some a \<longrightarrow> nChainWork b = arith_add (nChainWork a) w)))"

text \<open>The map of the hashes and the entries agree.\<close>

definition index_inv :: "BlockMap \<Rightarrow> index_heap \<Rightarrow> bool" where
  "index_inv m H \<longleftrightarrow> tree_ok H \<and> works_ok H \<and> work_ok H \<and> time_max_ok H \<and>
     (\<forall>hash p. m hash = Some p \<longleftrightarrow> (\<exists>b. H p = Some b \<and> phashBlock b = Some hash)) \<and> hashes_ok H"

abbreviation index_ok :: "'z chain_state_scheme \<Rightarrow> bool" where
  "index_ok cs \<equiv> index_inv (mapBlockIndex cs) (ns_index cs)"

lemma index_inv_free: "index_inv m H \<Longrightarrow> H p = None \<Longrightarrow> m hash \<noteq> Some p"
  by (auto simp: index_inv_def)

text \<open>The best header has the most work of all.\<close>

definition best_header_ok :: "index_heap \<Rightarrow> ptr option \<Rightarrow> bool" where
  "best_header_ok H best \<longleftrightarrow>
     (case best of None \<Rightarrow> H = Map.empty
      | Some p \<Rightarrow> \<exists>b. H p = Some b \<and> (\<forall>q a. H q = Some a \<longrightarrow> num (nChainWork a) \<le> num (nChainWork b)))"

text \<open>A block whose parent is in the tree, or that has none there.\<close>

lemma link_entry_ok:
  assumes t: "tree_ok H" and free: "H p = None" and par: "\<And>q. par = Some q \<Longrightarrow> H q \<noteq> None"
    and new: "pprev new = None" "pskip new = None" "nHeight new = 0"
  shows "\<exists>s hgt. link_entry H p new par =
      Inr (H(p \<mapsto> new\<lparr>pprev := par, nHeight := hgt, pskip := s\<rparr>), Option.bind par H) \<and>
    tree_ok (H(p \<mapsto> new\<lparr>pprev := par, nHeight := hgt, pskip := s\<rparr>))"
proof (cases par)
  case None
  have e: "new\<lparr>pprev := None, nHeight := 0, pskip := None\<rparr> = new" using new by (cases new) simp
  have "entry_ok (H(p \<mapsto> new)) p new" using new by (simp add: entry_ok_def)
  then have "tree_ok (H(p \<mapsto> new))" by (rule tree_ok_upd [OF t free])
  then show ?thesis using None e by (intro exI [of _ None] exI [of _ 0]) (simp add: link_entry_def)
next
  case (Some q)
  then obtain prev where q: "H q = Some prev" using par by blast
  let ?b = "new\<lparr>pprev := Some q, nHeight := nHeight prev + 1\<rparr>"
  have "fresh_entry H p ?b" using free new(2) q by (simp add: fresh_entry_def)
  from BuildSkip_tree [OF t this] obtain s where s: "BuildSkip (H(p \<mapsto> ?b)) p = Inr (H(p \<mapsto> ?b\<lparr>pskip := s\<rparr>))"
    "tree_ok (H(p \<mapsto> ?b\<lparr>pskip := s\<rparr>))" by blast
  have "q \<noteq> p" using free q by auto
  then show ?thesis using Some q s by (intro exI [of _ s] exI [of _ "nHeight prev + 1"]) (simp add: link_entry_def deref_def)
qed

lemma fill_entry_ok:
  assumes "nStatus b = 0" and "\<And>a. prev = Some a \<Longrightarrow> length (nChainWork a) = WIDTH"
  shows "\<exists>w. GetBlockProof (bi_nBits b) = Some w \<and>
    fill_entry b prev = Inr (b\<lparr>nTimeMax := (case prev of None \<Rightarrow> bi_nTime b | Some a \<Rightarrow> max (nTimeMax a) (bi_nTime b)),
      nChainWork := arith_add (case prev of None \<Rightarrow> arith_of_u64 0 | Some a \<Rightarrow> nChainWork a) w, nStatus := BLOCK_VALID_TREE\<rparr>) \<and>
    length (arith_add (case prev of None \<Rightarrow> arith_of_u64 0 | Some a \<Rightarrow> nChainWork a) w) = WIDTH"
proof -
  obtain w where w: "GetBlockProof (bi_nBits b) = Some w" "length w = WIDTH" using GetBlockProof_num [of "bi_nBits b"] by blast
  show ?thesis using w assms
    by (intro exI [of _ w]) (auto simp: fill_entry_def Let_def RaiseValidity_def block_status_defs split: option.splits)
qed

text \<open>A new entry that is filled in keeps the index.\<close>

definition filled_entry :: "index_heap \<Rightarrow> CBlockIndex \<Rightarrow> bool" where
  "filled_entry H b \<longleftrightarrow> length (nChainWork b) = WIDTH \<and>
     (\<exists>w. GetBlockProof (bi_nBits b) = Some w \<and>
       nChainWork b = arith_add (case Option.bind (pprev b) H of None \<Rightarrow> arith_of_u64 0 | Some a \<Rightarrow> nChainWork a) w) \<and>
     (\<forall>q a. pprev b = Some q \<longrightarrow> H q = Some a \<longrightarrow> nTimeMax a \<le> nTimeMax b)"

lemma work_ok_grow:
  assumes w: "work_ok H" and t: "tree_ok H" and free: "H p = None" and b: "filled_entry H b" and par: "\<And>q. pprev b = Some q \<Longrightarrow> H q \<noteq> None"
  shows "work_ok (H(p \<mapsto> b))"
  unfolding work_ok_def
proof (intro allI impI)
  fix q c assume q: "(H(p \<mapsto> b)) q = Some c"
  show "\<exists>w. GetBlockProof (bi_nBits c) = Some w \<and> (case pprev c of None \<Rightarrow> nChainWork c = arith_add (arith_of_u64 0) w
    | Some r \<Rightarrow> \<forall>a. (H(p \<mapsto> b)) r = Some a \<longrightarrow> nChainWork c = arith_add (nChainWork a) w)"
  proof (cases "q = p")
    case True
    then have "c = b" "pprev b \<noteq> Some p" using q par free by auto
    then show ?thesis using b by (auto simp: filled_entry_def split: option.splits)
  next
    case False
    then have c: "H q = Some c" using q by simp
    then obtain w where w: "GetBlockProof (bi_nBits c) = Some w \<and> (case pprev c of None \<Rightarrow> nChainWork c = arith_add (arith_of_u64 0) w
      | Some r \<Rightarrow> \<forall>a. H r = Some a \<longrightarrow> nChainWork c = arith_add (nChainWork a) w)"
      using w unfolding work_ok_def by blast
    have "pprev c \<noteq> Some p" using tree_prev [OF t c, of p] free by auto
    then show ?thesis using w by (intro exI [of _ w]) (auto split: option.splits)
  qed
qed

lemma time_max_grow:
  assumes w: "time_max_ok H" and t: "tree_ok H" and free: "H p = None" and b: "filled_entry H b" and par: "\<And>q. pprev b = Some q \<Longrightarrow> H q \<noteq> None"
  shows "time_max_ok (H(p \<mapsto> b))"
  unfolding time_max_ok_def
proof (intro allI impI)
  fix q c r a assume q: "(H(p \<mapsto> b)) q = Some c \<and> pprev c = Some r \<and> (H(p \<mapsto> b)) r = Some a"
  show "nTimeMax a \<le> nTimeMax c"
  proof (cases "q = p")
    case True
    then have "c = b" "pprev b \<noteq> Some p" using q par free by auto
    then show ?thesis using q b by (auto simp: filled_entry_def)
  next
    case False
    then have "H q = Some c" "r \<noteq> p" using q tree_prev [OF t, of q c p] free by auto
    then show ?thesis using q w by (auto simp: time_max_ok_def)
  qed
qed

lemma index_inv_grow:
  assumes inv: "index_inv m H" and free: "H p = None" and new: "m hash = None" and T: "tree_ok (H(p \<mapsto> b))"
    and b: "filled_entry H b" "phashBlock b = Some hash" and par: "\<And>q. pprev b = Some q \<Longrightarrow> H q \<noteq> None"
  shows "index_inv (m(hash \<mapsto> p)) (H(p \<mapsto> b))"
proof -
  have i: "tree_ok H" "works_ok H" "work_ok H" "time_max_ok H" "hashes_ok H"
    and mp: "\<And>x q. m x = Some q \<longleftrightarrow> (\<exists>b. H q = Some b \<and> phashBlock b = Some x)"
    using inv by (simp_all add: index_inv_def)
  have "(m(hash \<mapsto> p)) x = Some q \<longleftrightarrow> (\<exists>c. (H(p \<mapsto> b)) q = Some c \<and> phashBlock c = Some x)" for x q
  proof (cases "q = p")
    case True
    have "m x \<noteq> Some p" using mp free by simp
    then show ?thesis using True b(2) by auto
  next
    case False
    then show ?thesis using mp [of x q] new by auto
  qed
  moreover have "works_ok (H(p \<mapsto> b))" using i(2) b(1) by (simp add: works_ok_def filled_entry_def)
  moreover have "hashes_ok (H(p \<mapsto> b))" using i(5) b(2) by (simp add: hashes_ok_def)
  ultimately show ?thesis
    using T work_ok_grow [OF i(3,1) free b(1) par] time_max_grow [OF i(4,1) free b(1) par] by (simp add: index_inv_def)
qed

lemma better_header_ok:
  assumes best: "best_header_ok H best" and w: "works_ok (H(p \<mapsto> b))" and free: "H p = None"
  shows "\<exists>better. better_header (H(p \<mapsto> b)) best b = Inr better \<and> best_header_ok (H(p \<mapsto> b)) (if better then Some p else best)"
proof (cases best)
  case None
  then show ?thesis using best by (intro exI [of _ True]) (simp add: better_header_def best_header_ok_def)
next
  case (Some q)
  then obtain a where a: "H q = Some a" "\<And>r c. H r = Some c \<Longrightarrow> num (nChainWork c) \<le> num (nChainWork a)"
    using best by (auto simp: best_header_ok_def)
  have qp: "q \<noteq> p" using a free by auto
  have "length (nChainWork a) = length (nChainWork b)"
    using w [unfolded works_ok_def, rule_format, of q a] w [unfolded works_ok_def, rule_format, of p b] a(1) qp by simp
  then have bet: "better_header (H(p \<mapsto> b)) best b = Inr (num (nChainWork a) < num (nChainWork b))"
    using CompareTo_num [of "nChainWork a" "nChainWork b"] Some a qp by (simp add: better_header_def deref_def)
  have le: "num (nChainWork c) \<le> num (nChainWork (if num (nChainWork a) < num (nChainWork b) then b else a))"
    if "(H(p \<mapsto> b)) r = Some c" for r c
    using that a(2) [of r c] by (auto split: if_splits)
  have "best_header_ok (H(p \<mapsto> b)) (if num (nChainWork a) < num (nChainWork b) then Some p else best)"
    using le Some a(1) qp unfolding best_header_ok_def by (cases "num (nChainWork a) < num (nChainWork b)") simp_all
  with bet show ?thesis by blast
qed

theorem AddToBlockIndex_ok:
  assumes ok: "index_ok cs" and new: "mapBlockIndex cs (BlockHeader_GetHash h block) = None" and free: "ns_index cs p = None"
    and self: "hashPrevBlock block \<noteq> BlockHeader_GetHash h block" and best: "best_header_ok (ns_index cs) (pindexBestHeader cs)"
  shows "\<exists>b cs'. AddToBlockIndex h p block cs = Inr (p, cs') \<and> ns_index cs' = (ns_index cs)(p \<mapsto> b) \<and>
    mapBlockIndex cs' = (mapBlockIndex cs)(BlockHeader_GetHash h block \<mapsto> p) \<and>
    phashBlock b = Some (BlockHeader_GetHash h block) \<and> pprev b = mapBlockIndex cs (hashPrevBlock block) \<and>
    nStatus b = BLOCK_VALID_TREE \<and> nTx b = 0 \<and> nChainTx b = 0 \<and> bi_nTime b = nTime block \<and> bi_nBits b = nBits block \<and>
    chain_state.more cs' = chain_state.more cs \<and> setBlockIndexCandidates cs' = setBlockIndexCandidates cs \<and>
    chainActive cs' = chainActive cs \<and> index_ok cs' \<and> best_header_ok (ns_index cs') (pindexBestHeader cs')"
proof -
  define H where "H = ns_index cs"
  define hash where "hash = BlockHeader_GetHash h block"
  define par where "par = mapBlockIndex cs (hashPrevBlock block)"
  define prev where "prev = Option.bind par H"
  define entry where "entry = (CBlockIndex_of block)\<lparr>nSequenceId := 0, phashBlock := Some hash\<rparr>"
  have m: "((mapBlockIndex cs)(hash \<mapsto> p)) (hashPrevBlock block) = par" using self by (simp add: hash_def par_def)
  have inv: "tree_ok H" "works_ok H" and par: "\<And>q. par = Some q \<Longrightarrow> H q \<noteq> None"
    using ok by (auto simp: index_inv_def H_def par_def)
  have ent: "pprev entry = None" "pskip entry = None" "nHeight entry = 0" "nStatus entry = 0" "nTx entry = 0" "nChainTx entry = 0"
    "bi_nTime entry = nTime block" "bi_nBits entry = nBits block" "phashBlock entry = Some hash"
    by (simp_all add: entry_def CBlockIndex_of_def CBlockIndex_null_def)
  have free': "H p = None" and new': "mapBlockIndex cs hash = None" using free new by (simp_all add: H_def hash_def)
  obtain s hgt where link: "link_entry H p entry par = Inr (H(p \<mapsto> entry\<lparr>pprev := par, nHeight := hgt, pskip := s\<rparr>), prev)"
    and T0: "tree_ok (H(p \<mapsto> entry\<lparr>pprev := par, nHeight := hgt, pskip := s\<rparr>))"
    using link_entry_ok [where H = H and p = p and par = par and new = entry, OF inv(1) free' par ent(1-3)]
    unfolding prev_def by blast
  define b0 where "b0 = entry\<lparr>pprev := par, nHeight := hgt, pskip := s\<rparr>"
  have pw: "length (nChainWork a) = WIDTH" if "prev = Some a" for a
    using that inv(2) by (auto simp: prev_def works_ok_def split: bind_splits)
  have st0: "nStatus b0 = 0" using ent by (simp add: b0_def)
  obtain w where w: "GetBlockProof (bi_nBits b0) = Some w"
      "length (arith_add (case prev of None \<Rightarrow> arith_of_u64 0 | Some a \<Rightarrow> nChainWork a) w) = WIDTH"
    and fill: "fill_entry b0 prev = Inr (b0\<lparr>nTimeMax := (case prev of None \<Rightarrow> bi_nTime b0 | Some a \<Rightarrow> max (nTimeMax a) (bi_nTime b0)),
      nChainWork := arith_add (case prev of None \<Rightarrow> arith_of_u64 0 | Some a \<Rightarrow> nChainWork a) w, nStatus := BLOCK_VALID_TREE\<rparr>)"
    using fill_entry_ok [OF st0 pw] by blast
  define b where "b = b0\<lparr>nTimeMax := (case prev of None \<Rightarrow> bi_nTime b0 | Some a \<Rightarrow> max (nTimeMax a) (bi_nTime b0)),
      nChainWork := arith_add (case prev of None \<Rightarrow> arith_of_u64 0 | Some a \<Rightarrow> nChainWork a) w, nStatus := BLOCK_VALID_TREE\<rparr>"
  have fields: "phashBlock b = Some hash" "pprev b = par" "nStatus b = BLOCK_VALID_TREE" "nTx b = 0" "nChainTx b = 0"
    "bi_nTime b = nTime block" "bi_nBits b = nBits block" using ent by (simp_all add: b_def b0_def)
  have "filled_entry H b" using w by (auto simp: filled_entry_def b_def b0_def prev_def)
  moreover have "tree_ok (H(p \<mapsto> b))"
    using same_shape_tree [OF same_shape_upd [of "H(p \<mapsto> b0)" p b0 b] T0 [folded b0_def]] by (simp add: b_def)
  ultimately have I: "index_inv ((mapBlockIndex cs)(hash \<mapsto> p)) (H(p \<mapsto> b))"
    using ok fields(1,2) par new' by (intro index_inv_grow) (simp_all add: H_def free)
  then obtain better where bet: "better_header (H(p \<mapsto> b)) (pindexBestHeader cs) b = Inr better"
    "best_header_ok (H(p \<mapsto> b)) (if better then Some p else pindexBestHeader cs)"
    using better_header_ok [OF best [folded H_def] _ free'] unfolding index_inv_def by blast
  define cs1 where "cs1 = cs\<lparr>ns_index := H(p \<mapsto> b), mapBlockIndex := (mapBlockIndex cs)(hash \<mapsto> p)\<rparr>"
  define cs' where "cs' = set_dirty p (if better then cs1\<lparr>pindexBestHeader := Some p\<rparr> else cs1)"
  have "AddToBlockIndex h p block cs = Inr (p, cs')"
    using new' link fill bet m
    by (simp add: AddToBlockIndex_def Let_def hash_def [symmetric] entry_def [symmetric] H_def [symmetric] b0_def [symmetric]
        b_def [symmetric] deref_def cs1_def cs'_def)
  moreover have "ns_index cs' = H(p \<mapsto> b)" "mapBlockIndex cs' = (mapBlockIndex cs)(hash \<mapsto> p)"
    "chain_state.more cs' = chain_state.more cs" "setBlockIndexCandidates cs' = setBlockIndexCandidates cs"
    "chainActive cs' = chainActive cs" "pindexBestHeader cs' = (if better then Some p else pindexBestHeader cs)"
    by (simp_all add: cs'_def cs1_def set_dirty_def)
  ultimately show ?thesis using fields I bet(2) unfolding H_def hash_def par_def by auto
qed

section \<open>The search for the best candidate\<close>

definition entry_failed :: "CBlockIndex \<Rightarrow> bool" where
  "entry_failed b \<longleftrightarrow> nStatus b AND BLOCK_FAILED_MASK \<noteq> 0"

definition entry_bad :: "CBlockIndex \<Rightarrow> bool" where
  "entry_bad b \<longleftrightarrow> entry_failed b \<or> nStatus b AND BLOCK_HAVE_DATA = 0"

text \<open>A chain that can be connected: no block on the way to the active chain has failed or lacks its data.\<close>

definition usable :: "index_heap \<Rightarrow> CChain \<Rightarrow> ptr \<Rightarrow> bool" where
  "usable H C p \<longleftrightarrow> (\<forall>q b. ancestor H q p \<and> H q = Some b \<and> Some q \<notin> set C \<longrightarrow> \<not> entry_bad b)"

definition linked :: "index_heap \<Rightarrow> ptr \<Rightarrow> bool" where
  "linked H p \<longleftrightarrow> (\<forall>q b. ancestor H q p \<and> H q = Some b \<longrightarrow> nChainTx b \<noteq> 0 \<or> nHeight b = 0)"

lemma ancestor_trans: "ancestor H x y \<Longrightarrow> ancestor H y z \<Longrightarrow> ancestor H x z"
  unfolding ancestor_def by (metis prev_add bind.bind_lunit)

lemma ancestor_antisym:
  assumes t: "tree_ok H" and b: "H p = Some b" and a: "ancestor H q p" "ancestor H p q"
  shows "q = p"
proof -
  from ancestor_height [OF t b a(1)] obtain c where c: "H q = Some c" "nHeight c \<le> nHeight b"
    "nth_prev H (nHeight b - nHeight c) p = Some q" by blast
  from ancestor_height [OF t c(1) a(2)] b have "nHeight b \<le> nHeight c" by auto
  then show ?thesis using c(2,3) by simp
qed

lemma linked_below:
  assumes "linked H p" "ancestor H q p"
  shows "linked H q"
  unfolding linked_def
proof (intro allI impI)
  fix y b assume "ancestor H y q \<and> H y = Some b"
  then have "ancestor H y p \<and> H y = Some b" using ancestor_trans assms(2) by blast
  then show "nChainTx b \<noteq> 0 \<or> nHeight b = 0" by (rule assms(1) [unfolded linked_def, rule_format])
qed

lemma chain_ancestor:
  assumes t: "tree_ok H" and c: "is_branch H C" and p: "Some p \<in> set C" and a: "ancestor H q p"
  shows "Some q \<in> set C"
proof -
  obtain i where i: "i < length C" "C ! i = Some p" using p by (auto simp: in_set_conv_nth)
  have "(\<exists>b. H p = Some b \<and> nHeight b = i) \<and> (\<forall>j\<le>i. C ! j = nth_prev H (i - j) p)"
    using branch_downward [OF t c, of i] i unfolding downward_def by blast
  then obtain b where b: "H p = Some b" "nHeight b = i" "\<forall>j\<le>i. C ! j = nth_prev H (i - j) p" by blast
  from a obtain k where k: "nth_prev H k p = Some q" by (auto simp: ancestor_def)
  then have "k \<le> i" using prev_height [OF t b(1) k] b(2) by simp
  then have "C ! (i - k) = Some q" using b(3) k by simp
  moreover have "i - k < length C" using i(1) by simp
  ultimately show ?thesis by (metis nth_mem)
qed

lemma unusable_on_path_ok:
  assumes t: "tree_ok H" and c: "is_branch H C"
  shows "H p = Some b \<Longrightarrow> nHeight b = n \<Longrightarrow> linked H p \<Longrightarrow>
    \<exists>r. unusable_on_path H C (Some p) = Some (Inr r) \<and>
      (case r of None \<Rightarrow> usable H C p
       | Some (x, f) \<Rightarrow> ancestor H x p \<and> Some x \<notin> set C \<and> (\<exists>a. H x = Some a \<and> entry_bad a \<and> f = entry_failed a))"
proof (induction n arbitrary: p b)
  case 0
  have con: "Contains H C p = Inr (Some p \<in> set C)" by (rule Contains_iff [OF t c 0(1)])
  have pr: "pprev b = None" using tree_prev [OF t 0(1)] 0(2) by (cases "pprev b") auto
  have anc: "ancestor H q p \<longleftrightarrow> q = p" for q using ancestor_step [of H p b q, OF 0(1)] pr by simp
  consider "Some p \<in> set C" | "Some p \<notin> set C" "entry_bad b" | "Some p \<notin> set C" "\<not> entry_bad b" by blast
  then show ?case
  proof cases
    case 1
    then show ?thesis using con by (subst unusable_on_path.simps) (auto simp: usable_def anc)
  next
    case 2
    then show ?thesis using con 0 anc
      by (subst unusable_on_path.simps) (auto simp: deref_def entry_bad_def entry_failed_def)
  next
    case 3
    have e: "unusable_on_path H C None = Some (Inr None)" by (subst unusable_on_path.simps) simp
    show ?thesis using 3 con 0 anc pr e
      by (subst unusable_on_path.simps) (auto simp: deref_def entry_bad_def entry_failed_def usable_def)
  qed
next
  case (Suc n)
  have con: "Contains H C p = Inr (Some p \<in> set C)" by (rule Contains_iff [OF t c Suc.prems(1)])
  obtain q where q: "pprev b = Some q" using tree_root [OF t Suc.prems(1)] Suc.prems(2) by (cases "pprev b") auto
  from tree_prev [OF t Suc.prems(1) q] Suc.prems(2) obtain d where d: "H q = Some d" "nHeight d = n" by auto
  have anc: "ancestor H x p \<longleftrightarrow> x = p \<or> ancestor H x q" for x using ancestor_step [of H p b x, OF Suc.prems(1)] q by simp
  have "ancestor H q p" using anc ancestor_refl by simp
  then have "linked H q" using linked_below [OF Suc.prems(3)] by blast
  from Suc.IH [OF d this] obtain r where r: "unusable_on_path H C (Some q) = Some (Inr r)"
    "case r of None \<Rightarrow> usable H C q
       | Some (x, f) \<Rightarrow> ancestor H x q \<and> Some x \<notin> set C \<and> (\<exists>a. H x = Some a \<and> entry_bad a \<and> f = entry_failed a)" by blast
  have ct: "nChainTx b \<noteq> 0" using Suc.prems ancestor_refl by (fastforce simp: linked_def)
  consider "Some p \<in> set C" | "Some p \<notin> set C" "entry_bad b" | "Some p \<notin> set C" "\<not> entry_bad b" by blast
  then show ?case
  proof cases
    case 1
    then have "usable H C p" using chain_ancestor [OF t c] by (auto simp: usable_def)
    then show ?thesis using con 1 by (subst unusable_on_path.simps) simp
  next
    case 2
    then show ?thesis using con Suc.prems(1) ct ancestor_refl
      by (subst unusable_on_path.simps) (auto simp: deref_def entry_bad_def entry_failed_def)
  next
    case 3
    then have e: "unusable_on_path H C (Some p) = unusable_on_path H C (Some q)"
      using con Suc.prems(1) ct q by (subst unusable_on_path.simps) (auto simp: deref_def entry_bad_def entry_failed_def)
    show ?thesis unfolding e r(1) using r(2) 3 Suc.prems(1)
      by (intro exI [of _ r]) (auto simp: usable_def anc split: option.splits)
  qed
qed

text \<open>What is on the path from \<open>p\<close> down to \<open>x\<close>.\<close>

definition on_path :: "index_heap \<Rightarrow> ptr \<Rightarrow> ptr \<Rightarrow> ptr \<Rightarrow> bool" where
  "on_path H x p q \<longleftrightarrow> ancestor H q p \<and> ancestor H x q"

definition mark_path :: "bool \<Rightarrow> ptr \<Rightarrow> ptr \<Rightarrow> index_heap \<Rightarrow> index_heap" where
  "mark_path f x p H = (\<lambda>q. map_option (\<lambda>b. if f \<and> q \<noteq> x \<and> on_path H x p q then b\<lparr>nStatus := nStatus b OR BLOCK_FAILED_CHILD\<rparr> else b) (H q))"

lemma mark_path_shape [simp]: "same_shape H (mark_path f x p H)" "same_rank H (mark_path f x p H)"
  by (auto simp: same_shape_def same_rank_def mark_path_def fun_eq_iff entry_shape_def entry_rank_def option.map_comp
      intro!: option.map_cong0)

lemma on_path_step:
  assumes t: "tree_ok H" and b: "H p = Some b" "pprev b = Some q" and x: "ancestor H x p" "x \<noteq> p"
  shows "on_path H x p y \<longleftrightarrow> y = p \<or> on_path H x q y" and "\<not> on_path H x q p" "ancestor H x q"
proof -
  have anc: "ancestor H y p \<longleftrightarrow> y = p \<or> ancestor H y q" for y using ancestor_step [of H p b y, OF b(1)] b(2) by simp
  show "on_path H x p y \<longleftrightarrow> y = p \<or> on_path H x q y" "ancestor H x q" using anc x by (auto simp: on_path_def)
  obtain c where "H q = Some c" "nHeight b = Suc (nHeight c)" using tree_prev [OF t b] by blast
  then show "\<not> on_path H x q p" using ancestor_height [OF t, of q c p] b(1) by (auto simp: on_path_def)
qed

lemma drop_path_ok:
  "tree_ok (ns_index cs) \<Longrightarrow> ns_index cs p = Some b \<Longrightarrow> nHeight b = n \<Longrightarrow> ancestor (ns_index cs) x p \<Longrightarrow>
   \<exists>cs'. drop_path f x p cs = Some (Inr cs') \<and> ns_index cs' = mark_path f x p (ns_index cs) \<and>
     set (setBlockIndexCandidates cs') = {q \<in> set (setBlockIndexCandidates cs). \<not> on_path (ns_index cs) x p q} \<and>
     chainActive cs' = chainActive cs \<and> mapBlockIndex cs' = mapBlockIndex cs \<and> pindexBestInvalid cs' = pindexBestInvalid cs"
proof (induction n arbitrary: p b cs)
  case 0
  have "pprev b = None" using tree_prev [OF 0(1,2)] 0(3) by (cases "pprev b") auto
  then have anc: "ancestor (ns_index cs) q p \<longleftrightarrow> q = p" for q using ancestor_step [of "ns_index cs" p b q, OF 0(2)] by simp
  then have x: "x = p" using 0(4) by simp
  have "ns_index cs = mark_path f x p (ns_index cs)"
    by (auto simp: mark_path_def on_path_def anc x fun_eq_iff map_option_case split: option.splits)
  then show ?case using x anc by (subst drop_path.simps) (auto simp: erase_candidate_def on_path_def)
next
  case (Suc n)
  let ?H = "ns_index cs"
  show ?case
  proof (cases "p = x")
    case True
    have "on_path ?H x p q \<longleftrightarrow> q = p" for q
    proof
      assume "on_path ?H x p q"
      then show "q = p" using ancestor_antisym [OF Suc.prems(1,2)] True by (simp add: on_path_def)
    qed (simp add: on_path_def True ancestor_refl)
    moreover have "?H = mark_path f x p ?H"
      using calculation True by (auto simp: mark_path_def fun_eq_iff map_option_case split: option.splits)
    ultimately show ?thesis using True by (subst drop_path.simps) (auto simp: erase_candidate_def)
  next
    case False
    obtain q where q: "pprev b = Some q" using tree_root [OF Suc.prems(1,2)] Suc.prems(3) by (cases "pprev b") auto
    note st = on_path_step [OF Suc.prems(1,2) q Suc.prems(4) False [symmetric]]
    define cs1 where "cs1 = erase_candidate p (if f then set_entry p (b\<lparr>nStatus := nStatus b OR BLOCK_FAILED_CHILD\<rparr>) cs
        else cs\<lparr>mapBlocksUnlinked := mapBlocksUnlinked cs @ [(q, p)]\<rparr>)"
    have H1: "ns_index cs1 = (if f then ?H(p \<mapsto> b\<lparr>nStatus := nStatus b OR BLOCK_FAILED_CHILD\<rparr>) else ?H)"
      and fr: "chainActive cs1 = chainActive cs" "mapBlockIndex cs1 = mapBlockIndex cs" "pindexBestInvalid cs1 = pindexBestInvalid cs"
        "set (setBlockIndexCandidates cs1) = set (setBlockIndexCandidates cs) - {p}"
      by (auto simp: cs1_def erase_candidate_def set_entry_def)
    have sh: "same_shape ?H (ns_index cs1)" unfolding H1 using same_shape_upd [of "ns_index cs" p b, OF Suc.prems(2)] by simp
    obtain d where d: "?H q = Some d" "nHeight d = n" using tree_prev [OF Suc.prems(1,2) q] Suc.prems(3) by auto
    then obtain d' where d': "ns_index cs1 q = Some d'" "nHeight d' = n" using same_shape_at [OF sh, of q d] by auto
    have path: "on_path (ns_index cs1) x q y = on_path ?H x q y" for y by (simp add: on_path_def same_shape_ancestor [OF sh])
    have "ancestor (ns_index cs1) x q" using st(3) by (simp add: same_shape_ancestor [OF sh])
    from Suc.IH [OF same_shape_tree [OF sh Suc.prems(1)] d' this] obtain cs' where
      cs': "drop_path f x q cs1 = Some (Inr cs')" "ns_index cs' = mark_path f x q (ns_index cs1)"
      "set (setBlockIndexCandidates cs') = {y \<in> set (setBlockIndexCandidates cs1). \<not> on_path (ns_index cs1) x q y}"
      "chainActive cs' = chainActive cs1" "mapBlockIndex cs' = mapBlockIndex cs1" "pindexBestInvalid cs' = pindexBestInvalid cs1" by blast
    have "mark_path f x q (ns_index cs1) = mark_path f x p ?H"
      using Suc.prems(2) False st(1,2) by (auto simp: mark_path_def fun_eq_iff H1 path [unfolded H1] map_option_case split: option.splits if_splits)
    moreover have "drop_path f x p cs = drop_path f x q cs1"
      using False Suc.prems(2) q by (subst drop_path.simps) (simp add: cs1_def Let_def)
    ultimately show ?thesis using cs' fr st(1) path by auto
  qed
qed

text \<open>What the search relies on: the candidates are in the tree and linked to the genesis block.\<close>

definition candidates_linked :: "'z chain_state_scheme \<Rightarrow> bool" where
  "candidates_linked cs \<longleftrightarrow> tree_ok (ns_index cs) \<and> works_ok (ns_index cs) \<and> is_branch (ns_index cs) (chainActive cs) \<and>
     (\<forall>p\<in>set (setBlockIndexCandidates cs). ns_index cs p \<noteq> None \<and> linked (ns_index cs) p) \<and>
     (\<forall>q. pindexBestInvalid cs = Some q \<longrightarrow> ns_index cs q \<noteq> None)"

lemma note_invalid_ok:
  assumes "ns_index cs p \<noteq> None" "\<forall>q. pindexBestInvalid cs = Some q \<longrightarrow> ns_index cs q \<noteq> None"
  shows "note_invalid p cs = Inr cs \<or> note_invalid p cs = Inr (cs\<lparr>pindexBestInvalid := Some p\<rparr>)"
  using assms by (cases "pindexBestInvalid cs") (auto simp: note_invalid_def deref_def)

lemma mark_path_usable:
  assumes t: "tree_ok H" and x: "ancestor H x p" "Some x \<notin> set C" "H x = Some a" "entry_bad a" "f \<longleftrightarrow> entry_failed a"
  shows "usable (mark_path f x p H) C q \<longleftrightarrow> usable H C q"
proof
  have anc: "ancestor (mark_path f x p H) = ancestor H" by (intro ext) (rule same_shape_ancestor [OF mark_path_shape(1)])
  {
    assume u: "usable (mark_path f x p H) C q"
    show "usable H C q"
      unfolding usable_def
    proof (intro allI impI)
      fix y b assume y: "ancestor H y q \<and> H y = Some b \<and> Some y \<notin> set C"
      then obtain b' where b': "mark_path f x p H y = Some b'" "b' = b \<or> b' = b\<lparr>nStatus := nStatus b OR BLOCK_FAILED_CHILD\<rparr>"
        by (auto simp: mark_path_def)
      moreover have "(nStatus b OR BLOCK_FAILED_CHILD) AND BLOCK_FAILED_MASK \<noteq> 0"
        using and_exp_eq_0_iff_not_bit [of "(nStatus b OR BLOCK_FAILED_CHILD) AND BLOCK_FAILED_MASK" 6]
        by (auto simp: block_status_defs bit_simps dest: arg_cong [where f = "\<lambda>w. bit w 6"])
      moreover have "\<not> entry_bad b'" using u y b'(1) unfolding usable_def anc by blast
      ultimately show "\<not> entry_bad b" by (auto simp: entry_bad_def entry_failed_def)
    qed
  }
  assume u: "usable H C q"
  then have nx: "\<not> ancestor H x q" using x(2-4) unfolding usable_def by blast
  show "usable (mark_path f x p H) C q"
    unfolding usable_def anc
  proof (intro allI impI)
    fix y b assume y: "ancestor H y q \<and> mark_path f x p H y = Some b \<and> Some y \<notin> set C"
    then have "\<not> on_path H x p y" using nx ancestor_trans by (auto simp: on_path_def)
    then have "H y = Some b" using y by (auto simp: mark_path_def)
    then show "\<not> entry_bad b" using u y unfolding usable_def by blast
  qed
qed

theorem FindMostWorkChain_ok:
  "candidates_linked cs \<Longrightarrow> \<exists>r cs'. FindMostWorkChain cs = Some (Inr (r, cs')) \<and>
     same_shape (ns_index cs) (ns_index cs') \<and> same_rank (ns_index cs) (ns_index cs') \<and> chainActive cs' = chainActive cs \<and>
     candidates_linked cs' \<and> (\<forall>q. usable (ns_index cs') (chainActive cs) q \<longleftrightarrow> usable (ns_index cs) (chainActive cs) q) \<and>
     set (setBlockIndexCandidates cs') \<subseteq> set (setBlockIndexCandidates cs) \<and>
     (\<forall>q\<in>set (setBlockIndexCandidates cs). usable (ns_index cs) (chainActive cs) q \<longrightarrow> q \<in> set (setBlockIndexCandidates cs')) \<and>
     (case r of None \<Rightarrow> setBlockIndexCandidates cs' = []
      | Some p \<Rightarrow> p \<in> set (setBlockIndexCandidates cs') \<and> usable (ns_index cs) (chainActive cs) p \<and>
          (\<forall>q\<in>set (setBlockIndexCandidates cs'). work_key (ns_index cs) q \<le> work_key (ns_index cs) p))"
proof (induction "card (set (setBlockIndexCandidates cs))" arbitrary: cs rule: less_induct)
  case less
  let ?H = "ns_index cs" and ?C = "chainActive cs" and ?ps = "setBlockIndexCandidates cs"
  have inv: "tree_ok ?H" "works_ok ?H" "is_branch ?H ?C" "\<forall>q. pindexBestInvalid cs = Some q \<longrightarrow> ?H q \<noteq> None"
    and lk: "\<And>p. p \<in> set ?ps \<Longrightarrow> ?H p \<noteq> None \<and> linked ?H p"
    using less.prems by (auto simp: candidates_linked_def)
  show ?case
  proof (cases "?ps = []")
    case True
    then show ?thesis using less.prems by (subst FindMostWorkChain.simps) simp
  next
    case False
    then obtain p where p: "best_candidate ?H ?ps = Some p" "p \<in> set ?ps" "\<forall>q\<in>set ?ps. work_key ?H q \<le> work_key ?H p"
      using best_candidate_max [OF inv(2), of ?ps] lk by blast
    obtain b where b: "?H p = Some b" "linked ?H p" using lk [OF p(2)] by auto
    obtain r where r: "unusable_on_path ?H ?C (Some p) = Some (Inr r)"
      "case r of None \<Rightarrow> usable ?H ?C p
       | Some (x, f) \<Rightarrow> ancestor ?H x p \<and> Some x \<notin> set ?C \<and> (\<exists>a. ?H x = Some a \<and> entry_bad a \<and> f = entry_failed a)"
      using unusable_on_path_ok [OF inv(1,3) b(1) refl b(2)] by blast
    show ?thesis
    proof (cases r)
      case None
      then show ?thesis using less.prems p r by (subst FindMostWorkChain.simps) simp
    next
      case (Some xf)
      then obtain x f a where xf: "r = Some (x, f)" and x: "ancestor ?H x p" "Some x \<notin> set ?C" "?H x = Some a" "entry_bad a" "f = entry_failed a"
        using r(2) by (cases xf) auto
      define cs1 where "cs1 = (if f then (case note_invalid p cs of Inl _ \<Rightarrow> cs | Inr c \<Rightarrow> c) else cs)"
      have n: "(if f then note_invalid p cs else Inr cs) = Inr cs1" and e1: "ns_index cs1 = ?H" "setBlockIndexCandidates cs1 = ?ps"
          "chainActive cs1 = ?C" "mapBlockIndex cs1 = mapBlockIndex cs"
          "pindexBestInvalid cs1 = pindexBestInvalid cs \<or> pindexBestInvalid cs1 = Some p"
        using note_invalid_ok [of cs p] b(1) inv(4) by (auto simp: cs1_def)
      have "tree_ok (ns_index cs1)" "ns_index cs1 p = Some b" "ancestor (ns_index cs1) x p" using e1 inv(1) b(1) x(1) by simp_all
      from drop_path_ok [OF this(1,2) refl this(3), of f] obtain cs2 where
        d: "drop_path f x p cs1 = Some (Inr cs2)" "ns_index cs2 = mark_path f x p ?H"
          "set (setBlockIndexCandidates cs2) = {q \<in> set ?ps. \<not> on_path ?H x p q}"
          "chainActive cs2 = ?C" "mapBlockIndex cs2 = mapBlockIndex cs" "pindexBestInvalid cs2 = pindexBestInvalid cs1"
        unfolding e1 by blast
      have sh: "same_shape ?H (ns_index cs2)" "same_rank ?H (ns_index cs2)" by (simp_all add: d(2))
      have us: "usable (ns_index cs2) ?C q \<longleftrightarrow> usable ?H ?C q" for q unfolding d(2) by (rule mark_path_usable [OF inv(1) x])
      have "on_path ?H x p p" using x(1) ancestor_refl by (simp add: on_path_def)
      then have lt: "set (setBlockIndexCandidates cs2) \<subset> set ?ps" using p(2) unfolding d(3) by blast
      have gone: "\<not> usable ?H ?C q" if "q \<in> set ?ps" "q \<notin> set (setBlockIndexCandidates cs2)" for q
        using that x(2-4) unfolding d(3) on_path_def usable_def by blast
      have "linked (ns_index cs2) q" if "linked ?H q" for q
        unfolding linked_def same_shape_ancestor [OF sh(1)]
      proof (intro allI impI)
        fix y c assume y: "ancestor ?H y q \<and> ns_index cs2 y = Some c"
        then obtain c' where "?H y = Some c'" "nChainTx c = nChainTx c'" "nHeight c = nHeight c'"
          by (auto simp: d(2) mark_path_def split: if_splits)
        then show "nChainTx c \<noteq> 0 \<or> nHeight c = 0" using that y by (auto simp: linked_def)
      qed
      then have ok: "candidates_linked cs2"
        using lk inv e1(5) b(1) d(4,6) lt same_shape_tree [OF sh(1)] same_rank_works [OF sh(2)] same_shape_branch [OF sh(1)] same_shape_None [OF sh(1)]
        unfolding candidates_linked_def by (auto simp: psubset_eq subset_eq)
      have "card (set (setBlockIndexCandidates cs2)) < card (set ?ps)" using lt by (intro psubset_card_mono) simp_all
      from less.hyps [OF this ok] obtain r' cs' where IH: "FindMostWorkChain cs2 = Some (Inr (r', cs'))"
        "same_shape (ns_index cs2) (ns_index cs')" "same_rank (ns_index cs2) (ns_index cs')" "chainActive cs' = ?C"
        "candidates_linked cs'" "\<forall>q. usable (ns_index cs') ?C q \<longleftrightarrow> usable (ns_index cs2) ?C q"
        "set (setBlockIndexCandidates cs') \<subseteq> set (setBlockIndexCandidates cs2)"
        "\<forall>q\<in>set (setBlockIndexCandidates cs2). usable (ns_index cs2) ?C q \<longrightarrow> q \<in> set (setBlockIndexCandidates cs')"
        "case r' of None \<Rightarrow> setBlockIndexCandidates cs' = []
          | Some p \<Rightarrow> p \<in> set (setBlockIndexCandidates cs') \<and> usable (ns_index cs2) ?C p \<and>
            (\<forall>q\<in>set (setBlockIndexCandidates cs'). work_key (ns_index cs2) q \<le> work_key (ns_index cs2) p)"
        unfolding d(4) by blast
      have "FindMostWorkChain cs = Some (Inr (r', cs'))"
        using p(1) r(1) xf n d(1) IH(1) by (subst FindMostWorkChain.simps) simp
      moreover have "case r' of None \<Rightarrow> setBlockIndexCandidates cs' = []
          | Some p \<Rightarrow> p \<in> set (setBlockIndexCandidates cs') \<and> usable ?H ?C p \<and>
            (\<forall>q\<in>set (setBlockIndexCandidates cs'). work_key ?H q \<le> work_key ?H p)"
        using IH(9) us by (cases r') (simp_all add: same_rank_key [OF sh(2)])
      moreover have "\<forall>q\<in>set ?ps. usable ?H ?C q \<longrightarrow> q \<in> set (setBlockIndexCandidates cs')" using IH(8) us gone by blast
      moreover have "set (setBlockIndexCandidates cs') \<subseteq> set ?ps" using IH(7) lt by blast
      ultimately show ?thesis
        using IH(4-6) us same_shape_trans [OF sh(1) IH(2)] same_rank_trans [OF sh(2) IH(3)] by blast
    qed
  qed
qed

end
