(* ===== verification/StateFlush.thy ===== *)
theory StateFlush imports BlockTree
begin

text \<open>
  Writing the state of the node, \<^verbatim>\<open>src/src/validation.cpp\<close> and \<^verbatim>\<open>src/src/txdb.cpp\<close>: \<open>FlushStateToDisk\<close> with its
  modes, the batch that is written to the database of the index, and the pruning of block files.  Flushing
  never changes the coins, and pruning takes no block that is near the tip.
\<close>

unbundle bit_operations_syntax

section \<open>State\<close>

text \<open>The database of the index: the information on the files, the last file, the records of the entries, and
  whether files have been pruned.\<close>

record block_tree_db =
  bt_files :: "nat \<rightharpoonup> CBlockFileInfo"
  bt_last :: "nat option"
  bt_blocks :: "uint256 \<rightharpoonup> bytes"
  bt_pruned :: bool

record 'v node = chain_state +
  pcoinsTip :: "'v CCoinsViewCache"
  pblocktree :: block_tree_db
  fHavePruned :: bool
  nLastWrite :: int
  nLastFlush :: int
  nLastSetChain :: int

text \<open>The time, the memory that is used and the settings are parameters.\<close>

record ('n, 'v) run_env = "'n accept_env" +
  re_version :: int
  re_now :: int
  nMempoolUsage :: int
  nMempoolSizeMax :: int
  nCoinCacheUsage :: int
  DynamicMemoryUsage :: "'v CCoinsViewCache \<Rightarrow> int"
  fReindex :: bool
  nPruneTarget :: nat
  PruneAfterHeight :: nat

datatype FlushStateMode = FLUSH_STATE_NONE | FLUSH_STATE_IF_NEEDED | FLUSH_STATE_PERIODIC | FLUSH_STATE_ALWAYS

definition DATABASE_WRITE_INTERVAL :: int where "DATABASE_WRITE_INTERVAL = 60 * 60"
definition DATABASE_FLUSH_INTERVAL :: int where "DATABASE_FLUSH_INTERVAL = 24 * 60 * 60"
definition MAX_BLOCK_COINSDB_USAGE :: int where "MAX_BLOCK_COINSDB_USAGE = 10"
definition MIN_BLOCKS_TO_KEEP :: nat where "MIN_BLOCKS_TO_KEEP = 288"

section \<open>Pruning\<close>

definition CalculateCurrentUsage :: "disk_state \<Rightarrow> nat" where
  "CalculateCurrentUsage st = sum_list (map (\<lambda>f. unat (fi_nSize f + nUndoSize f)) (vinfoBlockFile st))"

definition pruned_entry :: "CBlockIndex \<Rightarrow> CBlockIndex" where
  "pruned_entry b = b\<lparr>nStatus := (nStatus b AND NOT BLOCK_HAVE_DATA) AND NOT BLOCK_HAVE_UNDO,
     nFile := 0, nDataPos := 0, nUndoPos := 0\<rparr>"

text \<open>The entry at \<open>p\<close>; \<open>entries\<close> below are the entries in the order in which \<open>mapBlockIndex\<close> is visited.\<close>

definition prune_entry :: "nat \<Rightarrow> ptr \<Rightarrow> 'z chain_state_scheme \<Rightarrow> 'z chain_state_scheme" where
  "prune_entry fileNumber p cs =
     (case ns_index cs p of None \<Rightarrow> cs
      | Some b \<Rightarrow>
          if nFile b = int fileNumber then
            (let cs = set_dirty p (set_entry p (pruned_entry b) cs) in
             case pprev b of None \<Rightarrow> cs
             | Some q \<Rightarrow> cs\<lparr>mapBlocksUnlinked := filter (\<lambda>e. e \<noteq> (q, p)) (mapBlocksUnlinked cs)\<rparr>)
          else cs)"

definition PruneOneBlockFile :: "ptr list \<Rightarrow> nat \<Rightarrow> 'z chain_state_scheme \<Rightarrow> 'z chain_state_scheme" where
  "PruneOneBlockFile entries fileNumber cs =
     (let cs = fold (prune_entry fileNumber) entries cs; st = ns_disk cs in
      cs\<lparr>ns_disk := st\<lparr>vinfoBlockFile := (vinfoBlockFile st)[fileNumber := CBlockFileInfo_null],
         setDirtyFileInfo := List.insert fileNumber (setDirtyFileInfo st)\<rparr>\<rparr>)"

definition unlink_file :: "nat \<Rightarrow> disk_state \<Rightarrow> disk_state" where
  "unlink_file f st = st\<lparr>blk_files := (blk_files st)(f := None), rev_files := (rev_files st)(f := None)\<rparr>"

definition UnlinkPrunedFiles :: "nat list \<Rightarrow> disk_state \<Rightarrow> disk_state" where
  "UnlinkPrunedFiles fs st = fold unlink_file fs st"

text \<open>The last height that may go is an \<open>unsigned int\<close>, so that it wraps below the height of 288.\<close>

fun prune_manual :: "ptr list \<Rightarrow> u32 \<Rightarrow> nat list \<Rightarrow> nat list \<times> 'z chain_state_scheme \<Rightarrow> nat list \<times> 'z chain_state_scheme" where
  "prune_manual entries lastBlock [] s = s"
| "prune_manual entries lastBlock (f # fs) (pruned, cs) =
     (let info = vinfoBlockFile (ns_disk cs) ! f in
      if fi_nSize info = 0 \<or> lastBlock < nHeightLast info then prune_manual entries lastBlock fs (pruned, cs)
      else prune_manual entries lastBlock fs (pruned @ [f], PruneOneBlockFile entries f cs))"

definition FindFilesToPruneManual :: "ptr list \<Rightarrow> int \<Rightarrow> 'z chain_state_scheme \<Rightarrow> chain_fault + nat list \<times> 'z chain_state_scheme" where
  "FindFilesToPruneManual entries nManualPruneHeight cs =
     (case Tip (chainActive cs) of None \<Rightarrow> Inr ([], cs)
      | Some tip \<Rightarrow> bind_sum (deref (ns_index cs) tip) (\<lambda>t.
          let lastBlock = min (word_of_int nManualPruneHeight) (of_nat (nHeight t) - of_nat MIN_BLOCKS_TO_KEEP) in
          Inr (prune_manual entries lastBlock [0..<nLastBlockFile (ns_disk cs)] ([], cs))))"

fun prune_target ::
  "ptr list \<Rightarrow> nat \<Rightarrow> u32 \<Rightarrow> nat list \<Rightarrow> nat \<Rightarrow> nat list \<times> 'z chain_state_scheme \<Rightarrow> nat list \<times> 'z chain_state_scheme" where
  "prune_target entries target lastBlock [] usage s = s"
| "prune_target entries target lastBlock (f # fs) usage (pruned, cs) =
     (let info = vinfoBlockFile (ns_disk cs) ! f; nBytesToPrune = unat (fi_nSize info + nUndoSize info);
          nBuffer = unat (BLOCKFILE_CHUNK_SIZE + UNDOFILE_CHUNK_SIZE) in
      if fi_nSize info = 0 then prune_target entries target lastBlock fs usage (pruned, cs)
      else if usage + nBuffer < target then (pruned, cs)
      else if lastBlock < nHeightLast info then prune_target entries target lastBlock fs usage (pruned, cs)
      else prune_target entries target lastBlock fs (usage - nBytesToPrune) (pruned @ [f], PruneOneBlockFile entries f cs))"

definition FindFilesToPrune ::
  "ptr list \<Rightarrow> nat \<Rightarrow> nat \<Rightarrow> 'z chain_state_scheme \<Rightarrow> chain_fault + nat list \<times> 'z chain_state_scheme" where
  "FindFilesToPrune entries target nPruneAfterHeight cs =
     (case Tip (chainActive cs) of None \<Rightarrow> Inr ([], cs)
      | Some tip \<Rightarrow>
          if target = 0 then Inr ([], cs)
          else bind_sum (deref (ns_index cs) tip) (\<lambda>t.
            if nHeight t \<le> nPruneAfterHeight then Inr ([], cs)
            else let lastBlock = of_nat (nHeight t) - of_nat MIN_BLOCKS_TO_KEEP; usage = CalculateCurrentUsage (ns_disk cs) in
              Inr (if target \<le> usage + unat (BLOCKFILE_CHUNK_SIZE + UNDOFILE_CHUNK_SIZE)
                then prune_target entries target lastBlock [0..<nLastBlockFile (ns_disk cs)] usage ([], cs) else ([], cs))))"

section \<open>Flushing\<close>

fun index_records :: "int \<Rightarrow> index_heap \<Rightarrow> ptr list \<Rightarrow> (uint256 \<rightharpoonup> bytes) \<Rightarrow> chain_fault + (uint256 \<rightharpoonup> bytes)" where
  "index_records version H [] m = Inr m"
| "index_records version H (p # ps) m =
     bind_sum (deref H p) (\<lambda>b. bind_sum (GetBlockHash b) (\<lambda>hash. bind_sum (CDiskBlockIndex_of H b) (\<lambda>d.
       index_records version H ps (m(hash \<mapsto> Serialize_CDiskBlockIndex version d)))))"

definition WriteBatchSync ::
  "int \<Rightarrow> index_heap \<Rightarrow> (nat \<times> CBlockFileInfo) list \<Rightarrow> nat \<Rightarrow> ptr list \<Rightarrow> block_tree_db \<Rightarrow> chain_fault + block_tree_db" where
  "WriteBatchSync version H fileInfo lastFile blockinfo db =
     bind_sum (index_records version H blockinfo (bt_blocks db)) (\<lambda>m.
       Inr (db\<lparr>bt_files := fold (\<lambda>(n, i) f. f(n \<mapsto> i)) fileInfo (bt_files db), bt_last := Some lastFile, bt_blocks := m\<rparr>))"

text \<open>The files to prune, and that there are some.\<close>

definition flush_prune ::
  "('n, 'v) run_env \<Rightarrow> ptr list \<Rightarrow> int \<Rightarrow> 'v node \<Rightarrow> chain_fault + nat list \<times> 'v node" where
  "flush_prune env entries nManualPruneHeight nd =
     (if fPruneMode (ne_disk env) \<and> (fCheckForPruning (ns_disk nd) \<or> 0 < nManualPruneHeight) \<and> \<not> fReindex env then
        bind_sum (if 0 < nManualPruneHeight then FindFilesToPruneManual entries nManualPruneHeight nd
            else bind_sum (FindFilesToPrune entries (nPruneTarget env) (PruneAfterHeight env) nd) (\<lambda>(fs, nd).
              Inr (fs, nd\<lparr>ns_disk := (ns_disk nd)\<lparr>fCheckForPruning := False\<rparr>\<rparr>))) (\<lambda>(fs, nd).
          Inr (fs, if fs \<noteq> [] \<and> \<not> fHavePruned nd
            then nd\<lparr>fHavePruned := True, pblocktree := (pblocktree nd)\<lparr>bt_pruned := True\<rparr>\<rparr> else nd))
      else Inr ([], nd))"

text \<open>The block files, the information on them and the entries that have changed.\<close>

definition flush_index :: "('n, 'v) run_env \<Rightarrow> nat list \<Rightarrow> 'v node \<Rightarrow> chain_fault + 'v node" where
  "flush_index env pruned nd =
     (let st = FlushBlockFile False (ns_disk nd); vFiles = map (\<lambda>f. (f, vinfoBlockFile st ! f)) (setDirtyFileInfo st) in
      bind_sum (WriteBatchSync (re_version env) (ns_index nd) vFiles (nLastBlockFile st) (setDirtyBlockIndex nd) (pblocktree nd)) (\<lambda>db.
        Inr (nd\<lparr>ns_disk := UnlinkPrunedFiles pruned (st\<lparr>setDirtyFileInfo := []\<rparr>), setDirtyBlockIndex := [],
          pblocktree := db, nLastWrite := re_now env\<rparr>)))"

definition free_space :: "disk_env \<Rightarrow> nat \<Rightarrow> bool" where
  "free_space env nAdditionalBytes \<longleftrightarrow> \<not> nFreeBytesAvailable env < nMinDiskSpace + nAdditionalBytes"

text \<open>The coins; \<open>False\<close> where there is no space.  The estimate of what they need is an \<open>unsigned int\<close>.\<close>

definition flush_coins :: "('n, 'v) run_env \<Rightarrow> 'v view_ops \<Rightarrow> 'v node \<Rightarrow> tx_error + bool \<times> 'v node" where
  "flush_coins env B nd =
     (case Cache_GetBestBlock B (pcoinsTip nd) of (best, tip) \<Rightarrow>
        let nd = nd\<lparr>pcoinsTip := tip\<rparr> in
        if uint256_IsNull best then Inr (True, nd)
        else if \<not> free_space (ne_disk env) (unat (48 * 2 * 2 * of_nat (GetCacheSize tip) :: u32)) then Inr (False, nd)
        else (case Flush B tip of Inl e \<Rightarrow> Inl (Coins_fault e)
          | Inr (ok, tip) \<Rightarrow> Inr (ok, if ok then nd\<lparr>pcoinsTip := tip, nLastFlush := re_now env\<rparr> else nd\<lparr>pcoinsTip := tip\<rparr>)))"

definition cache_large :: "('n, 'v) run_env \<Rightarrow> FlushStateMode \<Rightarrow> 'v node \<Rightarrow> bool" where
  "cache_large env mode nd \<longleftrightarrow>
     (let cacheSize = DynamicMemoryUsage env (pcoinsTip nd);
          nTotalSpace = nCoinCacheUsage env + max (nMempoolSizeMax env - nMempoolUsage env) 0 in
      mode = FLUSH_STATE_PERIODIC \<and>
        max ((9 * nTotalSpace) sdiv 10) (nTotalSpace - MAX_BLOCK_COINSDB_USAGE * 1024 * 1024) < cacheSize \<or>
      mode = FLUSH_STATE_IF_NEEDED \<and> nTotalSpace < cacheSize)"

text \<open>What is to be written, after the space has been looked at; the result is \<open>False\<close> where \<open>state.Error\<close> is.\<close>

definition flush_write ::
  "('n, 'v) run_env \<Rightarrow> 'v view_ops \<Rightarrow> FlushStateMode \<Rightarrow> bool \<Rightarrow> bool \<Rightarrow> nat list \<Rightarrow> 'v node \<Rightarrow> (tx_error + bool) \<times> 'v node" where
  "flush_write env B mode fDoFullFlush fPeriodicWrite pruned nd =
     (case (if fDoFullFlush \<or> fPeriodicWrite then flush_index env pruned nd else Inr nd) of
        Inl f \<Rightarrow> (Inl (Fault f), nd)
      | Inr nd \<Rightarrow>
          (case (if fDoFullFlush then flush_coins env B nd else Inr (True, nd)) of
             Inl e \<Rightarrow> (Inl e, nd)
           | Inr (ok, nd) \<Rightarrow>
               if \<not> ok then (Inr False, nd)
               else (Inr True,
                 if fDoFullFlush \<or> (mode = FLUSH_STATE_ALWAYS \<or> mode = FLUSH_STATE_PERIODIC) \<and>
                   nLastSetChain nd + DATABASE_WRITE_INTERVAL * 1000000 < re_now env
                 then nd\<lparr>nLastSetChain := re_now env\<rparr> else nd)))"

definition start_times :: "int \<Rightarrow> 'v node \<Rightarrow> 'v node" where
  "start_times now nd = nd\<lparr>nLastWrite := (if nLastWrite nd = 0 then now else nLastWrite nd),
     nLastFlush := (if nLastFlush nd = 0 then now else nLastFlush nd),
     nLastSetChain := (if nLastSetChain nd = 0 then now else nLastSetChain nd)\<rparr>"

definition FlushStateToDisk ::
  "('n, 'v) run_env \<Rightarrow> 'v view_ops \<Rightarrow> ptr list \<Rightarrow> FlushStateMode \<Rightarrow> int \<Rightarrow> 'v node \<Rightarrow> (tx_error + bool) \<times> 'v node" where
  "FlushStateToDisk env B entries mode nManualPruneHeight nd =
     (case flush_prune env entries nManualPruneHeight nd of Inl f \<Rightarrow> (Inl (Fault f), nd)
      | Inr (pruned, nd) \<Rightarrow>
          let now = re_now env; nd = start_times now nd;
              fPeriodicWrite = (mode = FLUSH_STATE_PERIODIC \<and> nLastWrite nd + DATABASE_WRITE_INTERVAL * 1000000 < now);
              fPeriodicFlush = (mode = FLUSH_STATE_PERIODIC \<and> nLastFlush nd + DATABASE_FLUSH_INTERVAL * 1000000 < now);
              fDoFullFlush = (mode = FLUSH_STATE_ALWAYS \<or> cache_large env mode nd \<or> fPeriodicFlush \<or> pruned \<noteq> []) in
          if (fDoFullFlush \<or> fPeriodicWrite) \<and> \<not> free_space (ne_disk env) 0 then (Inr False, nd)
          else flush_write env B mode fDoFullFlush fPeriodicWrite pruned nd)"

section \<open>What pruning keeps\<close>

text \<open>An entry of another file stays as it is, and the shape of the tree too.\<close>

lemma prune_entry_at:
  "ns_index (prune_entry f p cs) q =
     map_option (\<lambda>b. if q = p \<and> nFile b = int f then pruned_entry b else b) (ns_index cs q)"
  by (auto simp: prune_entry_def Let_def set_dirty_def set_entry_def map_option_case split: option.splits)

lemma prune_entry_frame [simp]:
  "chainActive (prune_entry f p cs) = chainActive cs" "ns_disk (prune_entry f p cs) = ns_disk cs"
  "chain_state.more (prune_entry f p cs) = chain_state.more cs"
  by (simp_all add: prune_entry_def Let_def set_dirty_def set_entry_def split: option.splits)

lemma prune_entries_at:
  assumes "ns_index cs q = Some b" "nFile b \<noteq> int f"
  shows "ns_index (fold (prune_entry f) ps cs) q = Some b"
  using assms by (induction ps arbitrary: cs) (auto simp: prune_entry_at)

lemma pruned_no_data [simp]: "nStatus (pruned_entry b) AND BLOCK_HAVE_DATA = 0"
proof -
  have "((x AND NOT BLOCK_HAVE_DATA) AND NOT BLOCK_HAVE_UNDO) AND BLOCK_HAVE_DATA = 0" for x :: u32
    by (auto simp: bit_eq_iff bit_simps)
  then show ?thesis by (simp add: pruned_entry_def)
qed

lemma prune_entries_data:
  "ns_index (fold (prune_entry f) ps cs) q = Some b \<Longrightarrow> nStatus b AND BLOCK_HAVE_DATA \<noteq> 0 \<Longrightarrow>
   ns_index cs q = Some b \<and> (q \<in> set ps \<longrightarrow> nFile b \<noteq> int f)"
proof (induction ps arbitrary: cs)
  case (Cons p ps)
  then have "ns_index (prune_entry f p cs) q = Some b" "q \<in> set ps \<longrightarrow> nFile b \<noteq> int f" by simp_all
  moreover have "pruned_entry b \<noteq> b" using Cons.prems(2) pruned_no_data by metis
  ultimately show ?case using Cons.prems(2) by (auto simp: prune_entry_at split: if_splits)
qed simp

lemma prune_entries_shape: "same_shape (ns_index cs) (ns_index (fold (prune_entry f) ps cs))"
proof (induction ps arbitrary: cs)
  case (Cons p ps)
  have "same_shape (ns_index cs) (ns_index (prune_entry f p cs))"
    by (auto simp: same_shape_def fun_eq_iff prune_entry_at entry_shape_def pruned_entry_def option.map_comp intro!: option.map_cong0)
  from same_shape_trans [OF this Cons.IH] show ?case by simp
qed simp

lemma prune_entries_frame [simp]:
  "chainActive (fold (prune_entry f) ps cs) = chainActive cs" "ns_disk (fold (prune_entry f) ps cs) = ns_disk cs"
  "chain_state.more (fold (prune_entry f) ps cs) = chain_state.more cs"
  by (induction ps arbitrary: cs) simp_all

lemma PruneOneBlockFile_ok:
  "same_shape (ns_index cs) (ns_index (PruneOneBlockFile entries f cs))"
  "chainActive (PruneOneBlockFile entries f cs) = chainActive cs"
  "chain_state.more (PruneOneBlockFile entries f cs) = chain_state.more cs"
  "ns_index cs q = Some b \<Longrightarrow> nFile b \<noteq> int f \<Longrightarrow> ns_index (PruneOneBlockFile entries f cs) q = Some b"
  "vinfoBlockFile (ns_disk (PruneOneBlockFile entries f cs)) = (vinfoBlockFile (ns_disk cs))[f := CBlockFileInfo_null]"
  "ns_index (PruneOneBlockFile entries f cs) q = Some b \<Longrightarrow> nStatus b AND BLOCK_HAVE_DATA \<noteq> 0 \<Longrightarrow>
     ns_index cs q = Some b \<and> (q \<in> set entries \<longrightarrow> nFile b \<noteq> int f)"
  using prune_entries_shape [of cs f entries] prune_entries_at [of cs q b f entries] prune_entries_data [of f entries cs q b]
  by (simp_all add: PruneOneBlockFile_def Let_def)

text \<open>No block above the height that is given goes, when the information on the files bounds the heights in them.\<close>

definition heights_recorded :: "index_heap \<Rightarrow> CBlockFileInfo list \<Rightarrow> bool" where
  "heights_recorded H info \<longleftrightarrow> (\<forall>p b. H p = Some b \<longrightarrow> nStatus b AND BLOCK_HAVE_DATA \<noteq> 0 \<longrightarrow>
     0 \<le> nFile b \<and> nFile b < int (length info) \<and> nHeight b \<le> unat (nHeightLast (info ! nat (nFile b))))"

text \<open>The pruning of files whose last height is at most a bound.\<close>

inductive prunes :: "ptr list \<Rightarrow> u32 \<Rightarrow> nat list \<times> 'z chain_state_scheme \<Rightarrow> nat list \<times> 'z chain_state_scheme \<Rightarrow> bool" for entries lastBlock where
  prunes_none: "prunes entries lastBlock s s"
| prunes_file: "nHeightLast (vinfoBlockFile (ns_disk cs) ! f) \<le> lastBlock \<Longrightarrow> f < length (vinfoBlockFile (ns_disk cs)) \<Longrightarrow>
    prunes entries lastBlock (pruned @ [f], PruneOneBlockFile entries f cs) s \<Longrightarrow> prunes entries lastBlock (pruned, cs) s"

lemma prune_manual_prunes:
  "\<forall>f\<in>set fs. f < length (vinfoBlockFile (ns_disk (snd s))) \<Longrightarrow> prunes entries lastBlock s (prune_manual entries lastBlock fs s)"
proof (induction entries lastBlock fs s rule: prune_manual.induct)
  case (2 entries lastBlock f fs pruned cs)
  then show ?case
    by (auto simp: Let_def PruneOneBlockFile_ok(5) not_less intro: prunes_file)
qed (simp add: prunes_none)

lemma prune_target_prunes:
  "\<forall>f\<in>set fs. f < length (vinfoBlockFile (ns_disk (snd s))) \<Longrightarrow>
   prunes entries lastBlock s (prune_target entries target lastBlock fs usage s)"
proof (induction entries target lastBlock fs usage s rule: prune_target.induct)
  case (2 entries target lastBlock f fs usage pruned cs)
  then show ?case
    by (auto simp: Let_def PruneOneBlockFile_ok(5) not_less intro: prunes_file prunes_none)
qed (simp add: prunes_none)

lemma prune_file_step:
  assumes all: "dom (ns_index cs) \<subseteq> set entries" and rec: "heights_recorded (ns_index cs) (vinfoBlockFile (ns_disk cs))"
  shows "dom (ns_index (PruneOneBlockFile entries f cs)) \<subseteq> set entries"
    and "heights_recorded (ns_index (PruneOneBlockFile entries f cs)) (vinfoBlockFile (ns_disk (PruneOneBlockFile entries f cs)))"
    and "nHeightLast (vinfoBlockFile (ns_disk cs) ! f) \<le> lastBlock \<Longrightarrow> ns_index cs q = Some b \<Longrightarrow>
      nStatus b AND BLOCK_HAVE_DATA \<noteq> 0 \<Longrightarrow> unat lastBlock < nHeight b \<Longrightarrow> ns_index (PruneOneBlockFile entries f cs) q = Some b"
proof -
  note rec' = rec [unfolded heights_recorded_def, rule_format]
  show "dom (ns_index (PruneOneBlockFile entries f cs)) \<subseteq> set entries"
  proof
    fix q assume "q \<in> dom (ns_index (PruneOneBlockFile entries f cs))"
    then have "q \<in> dom (ns_index cs)" using same_shape_None [OF PruneOneBlockFile_ok(1) [of cs entries f], of q]
      unfolding domIff by simp
    then show "q \<in> set entries" using all by blast
  qed
  show "heights_recorded (ns_index (PruneOneBlockFile entries f cs)) (vinfoBlockFile (ns_disk (PruneOneBlockFile entries f cs)))"
    unfolding heights_recorded_def PruneOneBlockFile_ok(5)
  proof (intro allI impI)
    fix q b assume q: "ns_index (PruneOneBlockFile entries f cs) q = Some b" "nStatus b AND BLOCK_HAVE_DATA \<noteq> 0"
    have b: "ns_index cs q = Some b" using PruneOneBlockFile_ok(6) [OF q] by blast
    then have "q \<in> set entries" using all by blast
    then have f: "nFile b \<noteq> int f" using PruneOneBlockFile_ok(6) [OF q] by blast
    have n: "0 \<le> nFile b \<and> nFile b < int (length (vinfoBlockFile (ns_disk cs))) \<and>
      nHeight b \<le> unat (nHeightLast (vinfoBlockFile (ns_disk cs) ! nat (nFile b)))" by (rule rec' [OF b q(2)])
    have "f \<noteq> nat (nFile b)" using n f by linarith
    with n show "0 \<le> nFile b \<and> nFile b < int (length ((vinfoBlockFile (ns_disk cs))[f := CBlockFileInfo_null])) \<and>
      nHeight b \<le> unat (nHeightLast ((vinfoBlockFile (ns_disk cs))[f := CBlockFileInfo_null] ! nat (nFile b)))"
      by (simp only: length_list_update nth_list_update_neq simp_thms)
  qed
  assume last: "nHeightLast (vinfoBlockFile (ns_disk cs) ! f) \<le> lastBlock" and b: "ns_index cs q = Some b"
    "nStatus b AND BLOCK_HAVE_DATA \<noteq> 0" "unat lastBlock < nHeight b"
  have n: "nHeight b \<le> unat (nHeightLast (vinfoBlockFile (ns_disk cs) ! nat (nFile b)))" using rec' [OF b(1,2)] by blast
  have "nFile b \<noteq> int f"
  proof
    assume "nFile b = int f"
    then have "nat (nFile b) = f" by (simp only: nat_int)
    with n have "nHeight b \<le> unat (nHeightLast (vinfoBlockFile (ns_disk cs) ! f))" by (simp only:)
    with last b(3) show False unfolding word_le_nat_alt by linarith
  qed
  then show "ns_index (PruneOneBlockFile entries f cs) q = Some b" by (rule PruneOneBlockFile_ok(4) [OF b(1)])
qed

definition prune_keeps :: "u32 \<Rightarrow> 'z chain_state_scheme \<Rightarrow> 'z chain_state_scheme \<Rightarrow> bool" where
  "prune_keeps lastBlock cs cs' \<longleftrightarrow> same_shape (ns_index cs) (ns_index cs') \<and> chainActive cs' = chainActive cs \<and>
     chain_state.more cs' = chain_state.more cs \<and>
     (\<forall>q b. ns_index cs q = Some b \<longrightarrow> nStatus b AND BLOCK_HAVE_DATA \<noteq> 0 \<longrightarrow> unat lastBlock < nHeight b \<longrightarrow>
       ns_index cs' q = Some b)"

lemma prune_keeps_refl: "prune_keeps lastBlock cs cs"
  by (simp add: prune_keeps_def)

lemma prune_keeps_trans: "prune_keeps lastBlock a b \<Longrightarrow> prune_keeps lastBlock b c \<Longrightarrow> prune_keeps lastBlock a c"
  unfolding prune_keeps_def by (metis same_shape_trans)

lemma prunes_keep:
  "prunes entries lastBlock s s' \<Longrightarrow> dom (ns_index (snd s)) \<subseteq> set entries \<Longrightarrow>
   heights_recorded (ns_index (snd s)) (vinfoBlockFile (ns_disk (snd s))) \<Longrightarrow> prune_keeps lastBlock (snd s) (snd s')"
proof (induction rule: prunes.induct)
  case (prunes_none s)
  show ?case by (rule prune_keeps_refl)
next
  case (prunes_file cs f pruned s)
  note p = prunes_file.prems [unfolded snd_conv]
  have "prune_keeps lastBlock cs (PruneOneBlockFile entries f cs)"
    unfolding prune_keeps_def
    using PruneOneBlockFile_ok(1) [of cs entries f] PruneOneBlockFile_ok(2,3) [of entries f cs] prune_file_step(3) [OF p prunes_file.hyps(1)] by blast
  moreover have "prune_keeps lastBlock (PruneOneBlockFile entries f cs) (snd s)"
    using prunes_file.IH [unfolded snd_conv, OF prune_file_step(1,2) [OF p]] .
  ultimately show ?case unfolding snd_conv by (rule prune_keeps_trans)
qed

text \<open>The blocks within 288 of the tip are never taken.\<close>

theorem FindFilesToPrune_keeps:
  assumes tip: "Tip (chainActive cs) = Some tip" "ns_index cs tip = Some t" and h: "MIN_BLOCKS_TO_KEEP \<le> nPruneAfterHeight" "nHeight t < 2 ^ 31"
    and files: "nLastBlockFile (ns_disk cs) \<le> length (vinfoBlockFile (ns_disk cs))" and all: "dom (ns_index cs) \<subseteq> set entries"
    and rec: "heights_recorded (ns_index cs) (vinfoBlockFile (ns_disk cs))"
  shows "\<exists>fs cs'. FindFilesToPrune entries target nPruneAfterHeight cs = Inr (fs, cs') \<and>
    same_shape (ns_index cs) (ns_index cs') \<and> chainActive cs' = chainActive cs \<and> chain_state.more cs' = chain_state.more cs \<and>
    (\<forall>q b. ns_index cs q = Some b \<longrightarrow> nStatus b AND BLOCK_HAVE_DATA \<noteq> 0 \<longrightarrow> nHeight t < nHeight b + MIN_BLOCKS_TO_KEEP \<longrightarrow>
      ns_index cs' q = Some b)"
proof -
  define lastBlock :: u32 where "lastBlock = of_nat (nHeight t) - of_nat MIN_BLOCKS_TO_KEEP"
  let ?fs = "[0..<nLastBlockFile (ns_disk cs)]" and ?usage = "CalculateCurrentUsage (ns_disk cs)"
  define s where "s = (if target = 0 \<or> nHeight t \<le> nPruneAfterHeight \<or>
      \<not> target \<le> ?usage + unat (BLOCKFILE_CHUNK_SIZE + UNDOFILE_CHUNK_SIZE) then ([], cs)
    else prune_target entries target lastBlock ?fs ?usage ([], cs))"
  have s: "FindFilesToPrune entries target nPruneAfterHeight cs = Inr s"
    using tip by (simp add: FindFilesToPrune_def deref_def Let_def lastBlock_def [symmetric] s_def)
  have "\<forall>f\<in>set ?fs. f < length (vinfoBlockFile (ns_disk (snd ([] :: nat list, cs))))" using files by simp
  from prune_target_prunes [OF this, of entries lastBlock target ?usage]
  have p: "s = ([], cs) \<or> prunes entries lastBlock ([], cs) s \<and> nPruneAfterHeight < nHeight t" by (auto simp: s_def)
  show ?thesis
  proof (cases "s = ([], cs)")
    case True
    then show ?thesis using s by auto
  next
    case False
    then have pr: "prunes entries lastBlock ([], cs) s" and lt: "nPruneAfterHeight < nHeight t" using p by blast+
    have "unat lastBlock = nHeight t - MIN_BLOCKS_TO_KEEP"
    proof -
      have "(of_nat MIN_BLOCKS_TO_KEEP :: u32) \<le> of_nat (nHeight t)"
        using h lt by (simp add: word_le_nat_alt unat_of_nat MIN_BLOCKS_TO_KEEP_def)
      then show ?thesis using h by (simp add: lastBlock_def unat_sub unat_of_nat MIN_BLOCKS_TO_KEEP_def)
    qed
    then have "unat lastBlock < nHeight b" if "nHeight t < nHeight b + MIN_BLOCKS_TO_KEEP" for b :: CBlockIndex
      using that h(1) lt by linarith
    then show ?thesis using prunes_keep [OF pr, unfolded snd_conv, OF all rec, unfolded prune_keeps_def] s
      by (metis surjective_pairing)
  qed
qed
section \<open>What flushing keeps\<close>

text \<open>A step that leaves the coins, the active chain and the shape of the tree alone.\<close>

definition same_hashes :: "index_heap \<Rightarrow> index_heap \<Rightarrow> bool" where
  "same_hashes H H' \<longleftrightarrow> (\<forall>p. map_option phashBlock (H' p) = map_option phashBlock (H p))"

definition quiet :: "'v node \<Rightarrow> 'v node \<Rightarrow> bool" where
  "quiet nd nd' \<longleftrightarrow> same_shape (ns_index nd) (ns_index nd') \<and> chainActive nd' = chainActive nd \<and> pcoinsTip nd' = pcoinsTip nd \<and>
     same_hashes (ns_index nd) (ns_index nd') \<and> set (setDirtyBlockIndex nd) \<subseteq> set (setDirtyBlockIndex nd')"

lemma same_hashes_simps [simp]: "same_hashes H H"
  by (simp add: same_hashes_def)

lemma same_hashes_trans: "same_hashes H H' \<Longrightarrow> same_hashes H' H'' \<Longrightarrow> same_hashes H H''"
  by (simp add: same_hashes_def)

lemma quiet_trans: "quiet a b \<Longrightarrow> quiet b c \<Longrightarrow> quiet a c"
  unfolding quiet_def using same_shape_trans same_hashes_trans by (metis order.trans)

lemma prune_entries_hashes:
  "same_hashes (ns_index cs) (ns_index (fold (prune_entry f) ps cs)) \<and>
   set (setDirtyBlockIndex cs) \<subseteq> set (setDirtyBlockIndex (fold (prune_entry f) ps cs))"
proof (induction ps arbitrary: cs)
  case (Cons p ps)
  have "same_hashes (ns_index cs) (ns_index (prune_entry f p cs))"
    by (auto simp: same_hashes_def prune_entry_at pruned_entry_def option.map_comp intro!: option.map_cong0)
  moreover have "set (setDirtyBlockIndex cs) \<subseteq> set (setDirtyBlockIndex (prune_entry f p cs))"
    by (auto simp: prune_entry_def Let_def set_dirty_def set_entry_def split: option.splits)
  ultimately show ?case using Cons.IH [of "prune_entry f p cs"] same_hashes_trans by auto
qed simp

lemma PruneOneBlockFile_hashes:
  "same_hashes (ns_index cs) (ns_index (PruneOneBlockFile entries f cs))"
  "set (setDirtyBlockIndex cs) \<subseteq> set (setDirtyBlockIndex (PruneOneBlockFile entries f cs))"
  using prune_entries_hashes [of cs f entries] by (simp_all add: PruneOneBlockFile_def Let_def)

lemma more_coins: "chain_state.more nd' = chain_state.more nd \<Longrightarrow> pcoinsTip nd' = pcoinsTip nd"
  by (cases nd; cases nd') simp

lemma PruneOneBlockFile_quiet:
  assumes "quiet nd cs"
  shows "quiet nd (PruneOneBlockFile entries f cs)"
proof (rule quiet_trans [OF assms])
  show "quiet cs (PruneOneBlockFile entries f cs)"
    unfolding quiet_def
    using PruneOneBlockFile_ok(1) [of cs entries f] PruneOneBlockFile_ok(2) [of entries f cs]
      more_coins [OF PruneOneBlockFile_ok(3) [of entries f cs]] PruneOneBlockFile_hashes [of cs entries f] by blast
qed

lemma prune_manual_quiet: "quiet nd (snd s) \<Longrightarrow> quiet nd (snd (prune_manual entries lastBlock fs s))"
  by (induction entries lastBlock fs s rule: prune_manual.induct)
    (simp_all add: Let_def PruneOneBlockFile_quiet)

lemma prune_target_quiet: "quiet nd (snd s) \<Longrightarrow> quiet nd (snd (prune_target entries target lastBlock fs usage s))"
proof (induction fs arbitrary: usage s)
  case (Cons f fs)
  obtain pruned cs where s: "s = (pruned, cs)" by (cases s)
  have cs: "quiet nd cs" using Cons.prems by (simp add: s)
  then have step: "quiet nd (PruneOneBlockFile entries f cs)" by (rule PruneOneBlockFile_quiet)
  have IH: "quiet nd c \<Longrightarrow> quiet nd (snd (prune_target entries target lastBlock fs u (ps, c)))" for u ps c
    by (rule Cons.IH) (simp only: snd_conv)
  show ?case unfolding s prune_target.simps Let_def
    by (simp only: IH [OF cs] IH [OF step] snd_conv cs simp_thms split: if_split)
qed simp

lemma quiet_refl [simp]: "quiet nd nd"
  by (simp add: quiet_def)

lemma FindFilesToPruneManual_quiet:
  assumes "FindFilesToPruneManual entries height nd = Inr (fs, nd')"
  shows "quiet nd nd'"
proof -
  have "nd' = nd \<or> (\<exists>last n. (fs, nd') = prune_manual entries last [0..<n] ([], nd))"
    using assms by (auto simp: FindFilesToPruneManual_def Let_def split: option.splits sum.splits) metis
  then show ?thesis using prune_manual_quiet [of nd "([], nd)" entries] by (metis quiet_refl snd_conv)
qed

lemma FindFilesToPrune_quiet:
  assumes "FindFilesToPrune entries target after nd = Inr (fs, nd')"
  shows "quiet nd nd'"
proof -
  have "nd' = nd \<or> (\<exists>last n u. (fs, nd') = prune_target entries target last [0..<n] u ([], nd))"
    using assms by (auto simp: FindFilesToPrune_def Let_def split: option.splits sum.splits if_splits) metis
  then show ?thesis using prune_target_quiet [of nd "([], nd)" entries target] by (metis quiet_refl snd_conv)
qed

lemma flush_prune_quiet:
  assumes "flush_prune env entries height nd = Inr (fs, nd')"
  shows "quiet nd nd'"
proof (cases "fPruneMode (ne_disk env) \<and> (fCheckForPruning (ns_disk nd) \<or> 0 < height) \<and> \<not> fReindex env")
  case True
  obtain fs1 nd1 where n: "(if 0 < height then FindFilesToPruneManual entries height nd
      else bind_sum (FindFilesToPrune entries (nPruneTarget env) (PruneAfterHeight env) nd) (\<lambda>(fs, nd).
        Inr (fs, nd\<lparr>ns_disk := (ns_disk nd)\<lparr>fCheckForPruning := False\<rparr>\<rparr>))) = Inr (fs1, nd1)"
    and nd': "nd' = (if fs1 \<noteq> [] \<and> \<not> fHavePruned nd1
      then nd1\<lparr>fHavePruned := True, pblocktree := (pblocktree nd1)\<lparr>bt_pruned := True\<rparr>\<rparr> else nd1)"
    using assms True unfolding flush_prune_def by (auto split: sum.splits)
  have "quiet nd nd1"
    using n by (auto simp: quiet_def split: if_splits sum.splits dest!: FindFilesToPruneManual_quiet FindFilesToPrune_quiet)
  then show ?thesis by (simp add: nd' quiet_def)
qed (use assms in \<open>auto simp: flush_prune_def\<close>)

text \<open>The records of the entries that were written are those of the index.\<close>

definition recorded :: "int \<Rightarrow> index_heap \<Rightarrow> (uint256 \<rightharpoonup> bytes) \<Rightarrow> ptr \<Rightarrow> bool" where
  "recorded version H m p \<longleftrightarrow> (\<exists>b hash d. H p = Some b \<and> phashBlock b = Some hash \<and> CDiskBlockIndex_of H b = Inr d \<and>
     m hash = Some (Serialize_CDiskBlockIndex version d))"

definition distinct_hashes :: "index_heap \<Rightarrow> bool" where
  "distinct_hashes H \<longleftrightarrow> (\<forall>p q a b hash. H p = Some a \<longrightarrow> H q = Some b \<longrightarrow> phashBlock a = Some hash \<longrightarrow> phashBlock b = Some hash \<longrightarrow> p = q)"

lemma recorded_upd:
  assumes "distinct_hashes H" and b: "H p = Some b" "phashBlock b = Some hash" "CDiskBlockIndex_of H b = Inr d"
  shows "recorded version H (m(hash \<mapsto> Serialize_CDiskBlockIndex version d)) q \<longleftrightarrow> q = p \<or> recorded version H m q"
proof (cases "q = p")
  case False
  then have "phashBlock a \<noteq> Some hash" if "H q = Some a" for a
    using assms(1) that b unfolding distinct_hashes_def by blast
  with False show ?thesis unfolding recorded_def by (metis fun_upd_apply)
qed (use b in \<open>simp add: recorded_def\<close>)

lemma index_records_ok:
  "index_records version H ps m = Inr m' \<Longrightarrow> distinct_hashes H \<Longrightarrow>
   (\<forall>q. (q \<in> set ps \<or> recorded version H m q) \<longrightarrow> recorded version H m' q)"
proof (induction ps arbitrary: m)
  case (Cons p ps)
  obtain b hash d where b: "H p = Some b" "phashBlock b = Some hash" "CDiskBlockIndex_of H b = Inr d"
    and r: "index_records version H ps (m(hash \<mapsto> Serialize_CDiskBlockIndex version d)) = Inr m'"
    using Cons.prems(1) by (auto simp: deref_def GetBlockHash_def split: option.splits sum.splits)
  show ?case using Cons.IH [OF r Cons.prems(2)] unfolding recorded_upd [OF Cons.prems(2) b] list.set by blast
qed simp

lemma distinct_hashes_same: "same_hashes H H' \<Longrightarrow> distinct_hashes H \<Longrightarrow> distinct_hashes H'"
proof (unfold distinct_hashes_def, intro allI impI)
  fix p q a b hash
  assume s: "same_hashes H H'" and d: "\<forall>p q a b hash. H p = Some a \<longrightarrow> H q = Some b \<longrightarrow> phashBlock a = Some hash \<longrightarrow>
      phashBlock b = Some hash \<longrightarrow> p = q" and h: "H' p = Some a" "H' q = Some b" "phashBlock a = Some hash" "phashBlock b = Some hash"
  have at: "\<exists>c. H r = Some c \<and> phashBlock c = phashBlock x" if "H' r = Some x" for r x
    using s that unfolding same_hashes_def by (metis map_option_eq_Some)
  from at [OF h(1)] at [OF h(2)] show "p = q" using d h(3,4) by metis
qed

lemma FlushBlockFile_files: "vinfoBlockFile (FlushBlockFile fin st) = vinfoBlockFile st"
  by (simp add: FlushBlockFile_def Let_def)

lemma flush_index_ok:
  assumes "flush_index env pruned nd = Inr nd'" and d: "distinct_hashes (ns_index nd)"
  shows "ns_index nd' = ns_index nd" "chainActive nd' = chainActive nd" "pcoinsTip nd' = pcoinsTip nd" "setDirtyBlockIndex nd' = []"
    and "\<forall>p\<in>set (setDirtyBlockIndex nd). recorded (re_version env) (ns_index nd') (bt_blocks (pblocktree nd')) p"
proof -
  obtain m where m: "index_records (re_version env) (ns_index nd) (setDirtyBlockIndex nd) (bt_blocks (pblocktree nd)) = Inr m"
    and nd': "ns_index nd' = ns_index nd" "bt_blocks (pblocktree nd') = m" "chainActive nd' = chainActive nd" "pcoinsTip nd' = pcoinsTip nd"
      "setDirtyBlockIndex nd' = []"
    using assms(1) by (auto simp: flush_index_def WriteBatchSync_def Let_def split: sum.splits)
  show "ns_index nd' = ns_index nd" "chainActive nd' = chainActive nd" "pcoinsTip nd' = pcoinsTip nd" "setDirtyBlockIndex nd' = []"
    by (fact nd')+
  show "\<forall>p\<in>set (setDirtyBlockIndex nd). recorded (re_version env) (ns_index nd') (bt_blocks (pblocktree nd')) p"
    using index_records_ok [OF m d] by (simp add: nd')
qed

context coins_view
begin

lemma flush_coins_ok:
  assumes c: "cache_ok (pcoinsTip nd)"
  shows "\<exists>fOk nd'. flush_coins env B nd = Inr (fOk, nd') \<and> ns_index nd' = ns_index nd \<and> chainActive nd' = chainActive nd \<and>
      setDirtyBlockIndex nd' = setDirtyBlockIndex nd \<and> pblocktree nd' = pblocktree nd \<and>
    cache_ok (pcoinsTip nd') \<and> cache_contents (pcoinsTip nd') = cache_contents (pcoinsTip nd) \<and>
    cache_best (pcoinsTip nd') = cache_best (pcoinsTip nd) \<and>
    (contents (base (pcoinsTip nd')) = contents (base (pcoinsTip nd)) \<and> best (base (pcoinsTip nd')) = best (base (pcoinsTip nd)) \<and>
        (fOk \<longrightarrow> cache_best (pcoinsTip nd) = 0) \<or>
     fOk \<and> contents (base (pcoinsTip nd')) = cache_contents (pcoinsTip nd) \<and> best (base (pcoinsTip nd')) = cache_best (pcoinsTip nd) \<and>
       cacheCoins (pcoinsTip nd') = [])"
proof -
  obtain h t where g: "Cache_GetBestBlock B (pcoinsTip nd) = (h, t)" by (cases "Cache_GetBestBlock B (pcoinsTip nd)")
  note b = Cache_GetBestBlock_ok [OF c g]
  have base: "contents (base t) = contents (base (pcoinsTip nd)) \<and> best (base t) = best (base (pcoinsTip nd)) \<and> (h \<noteq> 0 \<longrightarrow> hashBlock t = h)"
    using g GetBestBlock_law [of "base (pcoinsTip nd)"] c by (auto simp: Cache_GetBestBlock_def cache_ok_def split: if_splits prod.splits)
  show ?thesis
  proof (cases "h = 0 \<or> \<not> free_space (ne_disk env) (unat (48 * 2 * 2 * of_nat (GetCacheSize t) :: u32))")
    case True
    then show ?thesis using g b base by (auto simp: flush_coins_def Let_def)
  next
    case False
    with base have "hashBlock t \<noteq> 0" by simp
    with b obtain t' where f: "Flush B t = Inr (True, t')" "cache_ok t'" "contents (base t') = cache_contents t"
      "cache_contents t' = cache_contents t" "best (base t') = cache_best t" "cacheCoins t' = []"
      using Flush_ok [of t] by auto
    have "hashBlock t' = hashBlock t" using f(1) by (auto simp: Flush_def split: sum.splits prod.splits)
    then have "cache_best t' = cache_best t" using f(5) by (simp add: cache_best_def split: if_splits)
    then show ?thesis using g b f False by (auto simp: flush_coins_def Let_def)
  qed
qed

text \<open>The coins are never ahead of the index on disk, and no result loses a coin.\<close>

definition flush_safe :: "int \<Rightarrow> 'v node \<Rightarrow> 'v node \<Rightarrow> bool" where
  "flush_safe version nd nd' \<longleftrightarrow>
     same_shape (ns_index nd) (ns_index nd') \<and> chainActive nd' = chainActive nd \<and> cache_ok (pcoinsTip nd') \<and>
     cache_contents (pcoinsTip nd') = cache_contents (pcoinsTip nd) \<and> cache_best (pcoinsTip nd') = cache_best (pcoinsTip nd) \<and>
     (contents (base (pcoinsTip nd')) = contents (base (pcoinsTip nd)) \<and> best (base (pcoinsTip nd')) = best (base (pcoinsTip nd)) \<or>
      contents (base (pcoinsTip nd')) = cache_contents (pcoinsTip nd) \<and> best (base (pcoinsTip nd')) = cache_best (pcoinsTip nd) \<and>
      setDirtyBlockIndex nd' = [] \<and>
      (\<forall>p\<in>set (setDirtyBlockIndex nd). recorded version (ns_index nd') (bt_blocks (pblocktree nd')) p))"

lemma quiet_safe: "quiet nd nd' \<Longrightarrow> cache_ok (pcoinsTip nd) \<Longrightarrow> flush_safe version nd nd'"
  by (simp add: quiet_def flush_safe_def)

text \<open>A full flush, where the coins have been written.\<close>

definition fully_flushed :: "'v node \<Rightarrow> 'v node \<Rightarrow> bool" where
  "fully_flushed nd nd' \<longleftrightarrow> cache_best (pcoinsTip nd) \<noteq> 0 \<longrightarrow>
     contents (base (pcoinsTip nd')) = cache_contents (pcoinsTip nd) \<and> best (base (pcoinsTip nd')) = cache_best (pcoinsTip nd) \<and>
     cacheCoins (pcoinsTip nd') = []"

lemma flush_safe_chain [simp]: "flush_safe version nd (nd'\<lparr>nLastSetChain := t\<rparr>) \<longleftrightarrow> flush_safe version nd nd'"
  "fully_flushed nd (nd'\<lparr>nLastSetChain := t\<rparr>) \<longleftrightarrow> fully_flushed nd nd'"
  by (simp_all add: flush_safe_def fully_flushed_def)

lemma flush_coins_safe:
  assumes c: "cache_ok (pcoinsTip nd)" and f: "flush_coins env B nd = Inr (fOk, nd')"
    and w: "setDirtyBlockIndex nd = []" "\<forall>p\<in>set (setDirtyBlockIndex nd0). recorded version (ns_index nd) (bt_blocks (pblocktree nd)) p"
    and q: "same_shape (ns_index nd0) (ns_index nd)" "chainActive nd = chainActive nd0" "pcoinsTip nd = pcoinsTip nd0"
  shows "flush_safe version nd0 nd'" and "fOk \<Longrightarrow> fully_flushed nd0 nd'"
proof -
  have r: "ns_index nd' = ns_index nd \<and> chainActive nd' = chainActive nd \<and> setDirtyBlockIndex nd' = setDirtyBlockIndex nd \<and>
      pblocktree nd' = pblocktree nd \<and>
      cache_ok (pcoinsTip nd') \<and> cache_contents (pcoinsTip nd') = cache_contents (pcoinsTip nd) \<and>
      cache_best (pcoinsTip nd') = cache_best (pcoinsTip nd) \<and>
      (contents (base (pcoinsTip nd')) = contents (base (pcoinsTip nd)) \<and> best (base (pcoinsTip nd')) = best (base (pcoinsTip nd)) \<and>
          (fOk \<longrightarrow> cache_best (pcoinsTip nd) = 0) \<or>
       fOk \<and> contents (base (pcoinsTip nd')) = cache_contents (pcoinsTip nd) \<and> best (base (pcoinsTip nd')) = cache_best (pcoinsTip nd) \<and>
         cacheCoins (pcoinsTip nd') = [])"
    using flush_coins_ok [OF c, of env] unfolding f sum.inject prod.inject by (elim exE conjE) (simp only: simp_thms)
  then show "flush_safe version nd0 nd'" using w q unfolding flush_safe_def by (elim conjE disjE) (simp_all add: q)
  show "fully_flushed nd0 nd'" if fOk using r that unfolding fully_flushed_def q(3) by blast
qed

lemma flush_write_ok:
  assumes c: "cache_ok (pcoinsTip nd)" and d: "distinct_hashes (ns_index nd)"
    and r: "flush_write env B mode full periodic pruned nd = (r, nd')"
  shows "flush_safe (re_version env) nd nd'" and "r \<noteq> Inl (Coins_fault e)" and "full \<Longrightarrow> r = Inr True \<Longrightarrow> fully_flushed nd nd'"
proof -
  have "flush_safe (re_version env) nd nd' \<and> r \<noteq> Inl (Coins_fault e) \<and> (full \<longrightarrow> r = Inr True \<longrightarrow> fully_flushed nd nd')"
  proof (cases "if full \<or> periodic then flush_index env pruned nd else Inr nd")
    case (Inl f)
    then have "r = Inl (Fault f)" "nd' = nd" using r by (simp_all add: flush_write_def)
    then show ?thesis using quiet_safe [OF quiet_refl c] by simp
  next
    case (Inr nd1)
    note r1 = r [unfolded flush_write_def Inr sum.case]
    have same: "ns_index nd1 = ns_index nd" "chainActive nd1 = chainActive nd" "pcoinsTip nd1 = pcoinsTip nd"
      using Inr flush_index_ok(1-3) [OF _ d] by (auto split: if_splits)
    show ?thesis
    proof (cases full)
      case False
      then have "r = Inr True" "nd' = nd1 \<or> nd' = nd1\<lparr>nLastSetChain := re_now env\<rparr>"
        using r1 by (auto split: if_splits)
      moreover have "flush_safe (re_version env) nd nd1" using c by (simp add: flush_safe_def same)
      ultimately show ?thesis using False by auto
    next
      case True
      then have x: "flush_index env pruned nd = Inr nd1" using Inr by simp
      note w = flush_index_ok(4,5) [OF x d]
      have c1: "cache_ok (pcoinsTip nd1)" using c by (simp add: same)
      obtain fOk nd2 where f: "flush_coins env B nd1 = Inr (fOk, nd2)" using flush_coins_ok [OF c1, of env] by blast
      have s: "flush_safe (re_version env) nd nd2" "fOk \<Longrightarrow> fully_flushed nd nd2"
        using flush_coins_safe [OF c1 f w _ same(2,3)] by (simp_all add: same)
      have "r = Inr fOk" "nd' = nd2 \<or> nd' = nd2\<lparr>nLastSetChain := re_now env\<rparr>"
        using r1 unfolding if_P [OF True] f sum.case prod.case by (auto split: if_splits)
      then show ?thesis using s by auto
    qed
  qed
  then show "flush_safe (re_version env) nd nd'" "r \<noteq> Inl (Coins_fault e)" "full \<Longrightarrow> r = Inr True \<Longrightarrow> fully_flushed nd nd'"
    by simp_all
qed

lemma flush_safe_quiet:
  assumes "quiet nd nd1" "flush_safe version nd1 nd'"
  shows "flush_safe version nd nd'" and "fully_flushed nd1 nd' \<Longrightarrow> fully_flushed nd nd'"
  using assms same_shape_trans [of "ns_index nd" "ns_index nd1" "ns_index nd'"]
  by (auto simp: quiet_def flush_safe_def fully_flushed_def)

theorem FlushStateToDisk_ok:
  assumes c: "cache_ok (pcoinsTip nd)" and d: "distinct_hashes (ns_index nd)"
    and r: "FlushStateToDisk env B entries mode height nd = (r, nd')"
  shows "flush_safe (re_version env) nd nd'" and "r \<noteq> Inl (Coins_fault e)"
    and "mode = FLUSH_STATE_ALWAYS \<Longrightarrow> r = Inr True \<Longrightarrow> fully_flushed nd nd'"
proof -
  have "flush_safe (re_version env) nd nd' \<and> r \<noteq> Inl (Coins_fault e) \<and> (mode = FLUSH_STATE_ALWAYS \<longrightarrow> r = Inr True \<longrightarrow> fully_flushed nd nd')"
  proof (cases "flush_prune env entries height nd")
    case (Inl f)
    then have "r = Inl (Fault f)" "nd' = nd" using r by (simp_all add: FlushStateToDisk_def)
    then show ?thesis using quiet_safe [OF quiet_refl c] by simp
  next
    case (Inr p)
    obtain pruned nd1 where p: "p = (pruned, nd1)" by (cases p)
    define nd2 where "nd2 = start_times (re_now env) nd1"
    have q: "quiet nd nd2" using flush_prune_quiet [of env entries height nd pruned nd1] Inr p
      by (simp add: nd2_def start_times_def quiet_def)
    obtain full periodic where r1: "(if (full \<or> periodic) \<and> \<not> free_space (ne_disk env) 0 then (Inr False, nd2)
        else flush_write env B mode full periodic pruned nd2) = (r, nd')" and full: "mode = FLUSH_STATE_ALWAYS \<Longrightarrow> full"
      using r unfolding FlushStateToDisk_def Inr p sum.case prod.case Let_def nd2_def [symmetric] by blast
    show ?thesis
    proof (cases "(full \<or> periodic) \<and> \<not> free_space (ne_disk env) 0")
      case True
      then have "r = Inr False" "nd' = nd2" using r1 by auto
      then show ?thesis using quiet_safe [OF q c] by simp
    next
      case False
      then have w: "flush_write env B mode full periodic pruned nd2 = (r, nd')" using r1 by (simp only: if_False)
      have "cache_ok (pcoinsTip nd2)" "distinct_hashes (ns_index nd2)"
        using q c distinct_hashes_same [OF _ d] by (simp_all add: quiet_def)
      from flush_write_ok [OF this w] flush_safe_quiet [OF q] full show ?thesis by blast
    qed
  qed
  then show "flush_safe (re_version env) nd nd'" "r \<noteq> Inl (Coins_fault e)"
    "mode = FLUSH_STATE_ALWAYS \<Longrightarrow> r = Inr True \<Longrightarrow> fully_flushed nd nd'" by simp_all
qed

end

end
