(* ===== verification/Reads.thy ===== *)
theory Reads imports StateFlush
begin

text \<open>
  What the operations on a cache do to the view below it: until they are flushed, the caches of
  \<^verbatim>\<open>src/src/coins.cpp\<close>, and so the connecting and the disconnecting of a block, only read from it, whether they
  succeed or fail.  A block that is refused leaves the coins of the tip as they were.
\<close>

text \<open>A number of calls that read.\<close>

inductive reads :: "'v view_ops \<Rightarrow> 'v \<Rightarrow> 'v \<Rightarrow> bool" for B where
  reads_refl [simp]: "reads B v v"
| reads_coin: "reads B v w \<Longrightarrow> v_GetCoin B w p = (r, w') \<Longrightarrow> reads B v w'"
| reads_have: "reads B v w \<Longrightarrow> v_HaveCoin B w p = (b, w') \<Longrightarrow> reads B v w'"
| reads_best: "reads B v w \<Longrightarrow> v_GetBestBlock B w = (h, w') \<Longrightarrow> reads B v w'"

lemma reads_trans [trans]: "reads B u v \<Longrightarrow> reads B v w \<Longrightarrow> reads B u w"
  by (rotate_tac, induction rule: reads.induct) (auto intro: reads.intros)

section \<open>One call\<close>

lemma FetchCoin_reads: "FetchCoin B c p = (r, c') \<Longrightarrow> reads B (base c) (base c')"
  by (auto simp: FetchCoin_def Let_def intro: reads.intros split: option.splits prod.splits)

lemma Cache_GetCoin_reads: "Cache_GetCoin B c p = (r, c') \<Longrightarrow> reads B (base c) (base c')"
  by (auto simp: Cache_GetCoin_def dest: FetchCoin_reads split: option.splits prod.splits)

lemma Cache_HaveCoin_reads: "Cache_HaveCoin B c p = (r, c') \<Longrightarrow> reads B (base c) (base c')"
  by (auto simp: Cache_HaveCoin_def dest: FetchCoin_reads split: option.splits prod.splits)

lemma AccessCoin_reads: "AccessCoin B c p = (r, c') \<Longrightarrow> reads B (base c) (base c')"
  by (auto simp: AccessCoin_def dest: FetchCoin_reads split: option.splits prod.splits)

lemma Cache_GetBestBlock_reads: "Cache_GetBestBlock B c = (r, c') \<Longrightarrow> reads B (base c) (base c')"
  by (auto simp: Cache_GetBestBlock_def intro: reads.intros split: prod.splits if_splits)

lemma SpendCoin_reads: "SpendCoin B c p = (r, c') \<Longrightarrow> reads B (base c) (base c')"
  by (auto simp: SpendCoin_def dest: FetchCoin_reads split: option.splits prod.splits)

lemma AddCoin_base: "AddCoin c p coin ow = Inr c' \<Longrightarrow> base c' = base c"
  by (auto simp: AddCoin_def Let_def split: if_splits)

section \<open>Transactions\<close>

lemma access_by_txid_reads: "access_by_txid B txid n c = (r, c') \<Longrightarrow> reads B (base c) (base c')"
proof (induction B txid n c arbitrary: r c' rule: access_by_txid.induct)
  case (1 B txid n c)
  obtain a d where a: "AccessCoin B c (COutPoint txid (of_nat n)) = (a, d)" by (cases "AccessCoin B c (COutPoint txid (of_nat n))")
  show ?case using "1.IH" [OF _ a [symmetric]] "1.prems" AccessCoin_reads [OF a] a
    by (subst (asm) access_by_txid.simps) (auto split: if_splits intro: reads_trans)
qed

lemma AddCoins_from_reads: "AddCoins_from B check cb height txid i vout c = Inr c' \<Longrightarrow> reads B (base c) (base c')"
proof (induction vout arbitrary: i c)
  case (Cons out vout)
  obtain ow d where ow: "(if check then Cache_HaveCoin B c (COutPoint txid (of_nat i)) else (cb, c)) = (ow, d)" by force
  then have "reads B (base c) (base d)" by (auto dest: Cache_HaveCoin_reads split: if_splits)
  with Cons ow show ?case
    by (auto simp: Let_def dest!: AddCoin_base split: sum.splits) (metis reads_trans)+
qed simp

lemma have_inputs_reads: "have_inputs B vin c = (r, c') \<Longrightarrow> reads B (base c) (base c')"
  by (induction vin arbitrary: c) (auto split: prod.splits if_splits dest!: Cache_HaveCoin_reads intro: reads_trans)

lemma HaveInputs_reads: "HaveInputs B c tx = (r, c') \<Longrightarrow> reads B (base c) (base c')"
  by (auto simp: HaveInputs_def dest: have_inputs_reads split: if_splits)

lemma check_inputs_reads: "check_inputs B height vin v c = (r, c') \<Longrightarrow> reads B (base c) (base c')"
  by (induction vin arbitrary: v c) (auto simp: Let_def split: prod.splits if_splits dest!: AccessCoin_reads intro: reads_trans)

lemma CheckTxInputs_reads: "CheckTxInputs B tx c height = (r, c') \<Longrightarrow> reads B (base c) (base c')"
  by (auto simp: CheckTxInputs_def dest!: HaveInputs_reads check_inputs_reads intro: reads_trans
      split: prod.splits if_splits sum.splits option.splits)

lemma prev_heights_reads: "prev_heights B vin c = (r, c') \<Longrightarrow> reads B (base c) (base c')"
  by (induction vin arbitrary: c r) (auto split: prod.splits dest!: AccessCoin_reads intro: reads_trans)

lemma p2sh_sigops_reads: "p2sh_sigops B vin n c = Inr (r, c') \<Longrightarrow> reads B (base c) (base c')"
  by (induction vin arbitrary: n c) (auto simp: Let_def split: prod.splits if_splits dest!: AccessCoin_reads intro: reads_trans)

lemma witness_sigops_reads: "witness_sigops B fl vin n c = Inr (r, c') \<Longrightarrow> reads B (base c) (base c')"
  by (induction vin arbitrary: n c) (auto simp: Let_def split: prod.splits if_splits option.splits dest!: AccessCoin_reads intro: reads_trans)

lemma GetTransactionSigOpCost_reads: "GetTransactionSigOpCost B tx c fl = Inr (r, c') \<Longrightarrow> reads B (base c) (base c')"
  by (auto simp: GetTransactionSigOpCost_def GetP2SHSigOpCount_def Let_def split: if_splits sum.splits
      dest!: p2sh_sigops_reads witness_sigops_reads intro: reads_trans)

lemma check_scripts_reads: "check_scripts env B tx fl txdata queue i vin pv c = (r, c') \<Longrightarrow> reads B (base c) (base c')"
  by (induction vin arbitrary: i pv c)
    (auto simp: Let_def split: prod.splits if_splits sum.splits failure.splits dest!: AccessCoin_reads intro: reads_trans)

lemma CheckInputs_reads:
  "CheckInputs env B nonce tx c chk fl store txdata queue cache = (r, c', cache') \<Longrightarrow> reads B (base c) (base c')"
  by (auto simp: CheckInputs_def Let_def split: prod.splits if_splits sum.splits dest!: check_scripts_reads)

lemma spend_inputs_reads: "spend_inputs B vin c = Inr (r, c') \<Longrightarrow> reads B (base c) (base c')"
  by (induction vin arbitrary: c r) (auto split: prod.splits option.splits sum.splits dest!: SpendCoin_reads intro: reads_trans)

lemma UpdateCoins_reads: "UpdateCoins h B tx c height = Inr (r, c') \<Longrightarrow> reads B (base c) (base c')"
  by (auto simp: UpdateCoins_def AddCoins_def split: if_splits sum.splits dest!: spend_inputs_reads AddCoins_from_reads intro: reads_trans)

section \<open>Connecting a block\<close>

lemma connect_inputs_reads: "connect_inputs B H p height tx cs = (r, cs') \<Longrightarrow> reads B (base (cs_view cs)) (base (cs_view cs'))"
  by (auto simp: connect_inputs_def Let_def split: prod.splits sum.splits if_splits
      dest!: CheckTxInputs_reads prev_heights_reads intro: reads_trans)

lemma connect_scripts_reads: "connect_scripts env B just chk tx cs = (r, cs') \<Longrightarrow> reads B (base (cs_view cs)) (base (cs_view cs'))"
  by (auto simp: connect_scripts_def split: prod.splits sum.splits dest!: CheckInputs_reads)

lemma connect_tx_reads:
  assumes "connect_tx env B H p height just chk first tx cs = (r, cs')"
  shows "reads B (base (cs_view cs)) (base (cs_view cs'))"
proof -
  obtain q1 cs1 where s1: "(if \<not> IsCoinBase tx then connect_inputs B H p height tx cs else (Inr (), cs)) = (q1, cs1)" by force
  have r1: "reads B (base (cs_view cs)) (base (cs_view cs1))" using s1 connect_inputs_reads by (fastforce split: if_splits)
  note a = assms [unfolded connect_tx_def s1 prod.case]
  show ?thesis
  proof (cases "\<exists>u n v2. q1 = Inr u \<and> GetTransactionSigOpCost B tx (cs_view cs1) GetBlockScriptFlags = Inr (n, v2)")
    case False
    then have "cs' = cs1" using a by (auto split: sum.splits)
    then show ?thesis using r1 by simp
  next
    case True
    then obtain u n v2 where q: "q1 = Inr u" "GetTransactionSigOpCost B tx (cs_view cs1) GetBlockScriptFlags = Inr (n, v2)" by blast
    define cs2 where "cs2 = cs1\<lparr>cs_view := v2, nSigOpsCost := nSigOpsCost cs1 + n\<rparr>"
    obtain q3 cs3 where s3: "(if \<not> IsCoinBase tx then connect_scripts env B just chk tx cs2 else (Inr (), cs2)) = (q3, cs3)" by force
    have r2: "reads B (base (cs_view cs1)) (base (cs_view cs2))" using GetTransactionSigOpCost_reads [OF q(2)] by (simp add: cs2_def)
    have r3: "reads B (base (cs_view cs2)) (base (cs_view cs3))" using s3 connect_scripts_reads by (fastforce split: if_splits)
    note a = a [unfolded q sum.case prod.case Let_def, folded cs2_def, unfolded s3 prod.case]
    have "cs' = cs2 \<or> cs' = cs3 \<or> reads B (base (cs_view cs3)) (base (cs_view cs'))"
      using a by (auto split: if_splits sum.splits dest!: UpdateCoins_reads)
    then show ?thesis using r1 r2 r3 reads_trans by metis
  qed
qed

lemma connect_txs_reads:
  "connect_txs env B H p height just chk first txs cs = (r, cs') \<Longrightarrow> reads B (base (cs_view cs)) (base (cs_view cs'))"
proof (induction txs arbitrary: cs first)
  case (Cons tx txs)
  obtain q d where d: "connect_tx env B H p height just chk first tx cs = (q, d)"
    by (cases "connect_tx env B H p height just chk first tx cs")
  note t = connect_tx_reads [OF d]
  show ?case
  proof (cases q)
    case (Inl e)
    then show ?thesis using Cons.prems d t by simp
  next
    case (Inr u)
    then have "connect_txs env B H p height just chk False txs d = (r, cs')" using Cons.prems d by simp
    from reads_trans [OF t Cons.IH [OF this]] show ?thesis .
  qed
qed simp

lemma connect_finish_reads:
  "connect_finish env params block height p prev just cs ns = (r, v', ns') \<Longrightarrow> base v' = base (cs_view cs)"
  by (auto simp: connect_finish_def Let_def SetBestBlock_def split: option.splits if_splits prod.splits sum.splits bool.splits)

lemma connect_checked_reads:
  assumes "connect_checked env params B block b p just view ns = (r, view', ns')"
  shows "reads B (base view) (base view')"
proof -
  obtain best v where g: "Cache_GetBestBlock B view = (best, v)" by (cases "Cache_GetBestBlock B view")
  let ?start = "\<lparr>cs_view = v, nFees = 0, nSigOpsCost = 0, vtxundo = [], cs_checks = [], cs_cache = scriptExecutionCache ns\<rparr>"
  note r = Cache_GetBestBlock_reads [OF g]
  have "view' = view \<or> view' = v \<or> (\<exists>k q cs. connect_txs env B (ns_index ns) p (int (nHeight b)) just k True (vtx block) ?start = (q, cs) \<and>
      base view' = base (cs_view cs))"
  proof (cases "hash_of_prev (ns_index ns) b")
    case (Inl f)
    then show ?thesis using assms by (simp add: connect_checked_def)
  next
    case (Inr h)
    note a = assms [unfolded connect_checked_def Inr sum.case g prod.case]
    show ?thesis
    proof (cases "h \<noteq> best \<or> (\<exists>e. fScriptChecks_for env params ns p = Inl e) \<or> (\<not> uint256_IsNull best \<and> pprev b = None)")
      case True
      then show ?thesis using a by (auto split: if_splits sum.splits)
    next
      case False
      then obtain k where k: "fScriptChecks_for env params ns p = Inr k" by (cases "fScriptChecks_for env params ns p") auto
      obtain q cs where t: "connect_txs env B (ns_index ns) p (int (nHeight b)) just k True (vtx block) ?start = (q, cs)"
        by (cases "connect_txs env B (ns_index ns) p (int (nHeight b)) just k True (vtx block) ?start")
      have "base view' = base (cs_view cs)"
        using a False unfolding k sum.case t prod.case Let_def
        by (cases q) (auto split: if_splits dest: connect_finish_reads)
      with t show ?thesis by blast
    qed
  qed
  then show ?thesis
  proof (elim disjE exE conjE)
    fix k q cs
    assume t: "connect_txs env B (ns_index ns) p (int (nHeight b)) just k True (vtx block) ?start = (q, cs)"
      and "base view' = base (cs_view cs)"
    with connect_txs_reads [OF t] r show ?thesis by (simp add: reads_trans)
  qed (use r in simp_all)
qed

theorem ConnectBlock_reads:
  assumes "ConnectBlock env params B block fc p just view ns = (r, fc', view', ns')"
  shows "reads B (base view) (base view')"
proof (cases "ns_index ns p")
  case None
  then show ?thesis using assms by (simp add: ConnectBlock_def)
next
  case (Some b)
  obtain q fc1 where ck: "CheckBlock (block_env.truncate env) (Consensus_Params.truncate params) (ns_index ns) (chainActive ns) block
      fc (\<not> just) (\<not> just) = (q, fc1)"
    by (cases "CheckBlock (block_env.truncate env) (Consensus_Params.truncate params) (ns_index ns) (chainActive ns) block
      fc (\<not> just) (\<not> just)")
  obtain r2 v2 n2 where cc: "connect_checked env params B block b p just view ns = (r2, v2, n2)"
    by (cases "connect_checked env params B block b p just view ns")
  have "view' = view \<or> view' = v2" using assms unfolding ConnectBlock_def Some option.case ck cc prod.case
    by (cases q) (simp_all split: if_splits)
  then show ?thesis using connect_checked_reads [OF cc] by auto
qed

section \<open>Disconnecting a block\<close>

lemma spend_outputs_reads:
  "spend_outputs B cb height txid i vout (f, c) = (f', c') \<Longrightarrow> reads B (base c) (base c')"
proof (induction vout arbitrary: i f c)
  case (Cons out vout)
  define x where "x = (if \<not> IsUnspendable (scriptPubKey out) then
          (case SpendCoin B c (COutPoint txid (of_nat i)) of
             (None, view) \<Rightarrow> (False, view)
           | (Some coin, view) \<Rightarrow>
               (if out \<noteq> coin_out coin \<or> int height \<noteq> uint (coin_nHeight coin) \<or> cb \<noteq> coin_fCoinBase coin
                then False else f, view))
        else (f, c))"
  obtain g d where d: "x = (g, d)" by (cases x)
  have r: "reads B (base c) (base d)"
  proof (cases "IsUnspendable (scriptPubKey out)")
    case False
    obtain q e where e: "SpendCoin B c (COutPoint txid (of_nat i)) = (q, e)" by (cases "SpendCoin B c (COutPoint txid (of_nat i))")
    then have "d = e" using d False by (cases q) (simp_all add: x_def)
    then show ?thesis using SpendCoin_reads [OF e] by simp
  qed (use d in \<open>simp add: x_def\<close>)
  have "spend_outputs B cb height txid (i + 1) vout (g, d) = (f', c')"
    using Cons.prems unfolding spend_outputs.simps x_def [symmetric] d .
  from reads_trans [OF r Cons.IH [OF this]] show ?case .
qed simp

lemma ApplyTxInUndo_reads: "ApplyTxInUndo B undo c out = Inr (r, c') \<Longrightarrow> reads B (base c) (base c')"
  by (auto simp: ApplyTxInUndo_def AccessByTxid_def Let_def split: prod.splits option.splits if_splits sum.splits
      dest!: Cache_HaveCoin_reads access_by_txid_reads AddCoin_base intro: reads_trans)

lemma restore_inputs_reads: "restore_inputs B us (f, c) = Inr (Some (f', c')) \<Longrightarrow> reads B (base c) (base c')"
proof (induction us arbitrary: f c)
  case (Cons u us)
  obtain out undo where u: "u = (out, undo)" by (cases u)
  obtain r d where d: "ApplyTxInUndo B undo c out = Inr (r, d)" "restore_inputs B us (f \<and> r \<noteq> DISCONNECT_UNCLEAN, d) = Inr (Some (f', c'))"
    using Cons.prems u by (auto split: sum.splits if_splits)
  from reads_trans [OF ApplyTxInUndo_reads [OF d(1)] Cons.IH [OF d(2)]] show ?case .
qed simp

lemma disconnect_txs_reads: "disconnect_txs h B height us (f, c) = Inr (Some (f', c')) \<Longrightarrow> reads B (base c) (base c')"
proof (induction us arbitrary: f c)
  case (Cons u us)
  obtain tx undo where u: "u = (tx, undo)" by (cases u)
  obtain g d where sp: "spend_outputs B (IsCoinBase tx) height (GetHash h tx) 0 (tx_vout tx) (f, c) = (g, d)" by force
  obtain g' d' where d: "disconnect_tx h B height tx undo (f, c) = Inr (Some (g', d'))"
    "disconnect_txs h B height us (g', d') = Inr (Some (f', c'))"
    using Cons.prems u by (auto split: sum.splits option.splits)
  have "reads B (base d) (base d')"
    using d(1) sp by (auto simp: disconnect_tx_def Let_def split: option.splits if_splits dest: restore_inputs_reads)
  with spend_outputs_reads [OF sp] Cons.IH [OF d(2)] show ?case by (metis reads_trans)
qed simp

theorem DisconnectBlock_reads:
  "DisconnectBlock h B block height prev undo view = Inr (r, view') \<Longrightarrow> reads B (base view) (base view')"
  by (auto simp: DisconnectBlock_def SetBestBlock_def split: option.splits if_splits sum.splits dest!: disconnect_txs_reads)

section \<open>Reading keeps the coins\<close>

context coins_view
begin

lemma reads_ok:
  "reads B v w \<Longrightarrow> ok v \<Longrightarrow> ok w \<and> contents w = contents v \<and> best w = best v"
proof (induction rule: reads.induct)
  case (reads_coin v w p r w')
  then show ?case using GetCoin_law [of w p r w'] by simp
next
  case (reads_have v w p b w')
  then show ?case using HaveCoin_law [of w p b w'] by simp
next
  case (reads_best v w h w')
  then show ?case using GetBestBlock_law [of w h w'] by simp
qed simp

end

end
