(* ===== verification/Activate.thy ===== *)
theory Activate imports Reads
begin

text \<open>
  The best chain, \<^verbatim>\<open>src/src/validation.cpp\<close>: \<open>ConnectTip\<close> and \<open>DisconnectTip\<close>, which move the tip by one block, and
  \<open>ActivateBestChainStep\<close> and \<open>ActivateBestChain\<close>, which move it to the best candidate.  The transactions of the
  blocks that are disconnected are queued (\<open>DisconnectedBlockTransactions\<close> of \<^verbatim>\<open>src/src/txmempool.h\<close>); the memory pool
  itself is a parameter.
\<close>

unbundle bit_operations_syntax

section \<open>The transactions that are disconnected\<close>

text \<open>In the order of their insertion; ids are unique.  \<open>usage\<close> is \<open>RecursiveDynamicUsage\<close> of a transaction and
  \<open>entry\<close> what one entry of the container takes.\<close>

record DisconnectedBlockTransactions =
  queuedTx :: "CTransaction list"
  cachedInnerUsage :: u64

definition DisconnectedBlockTransactions_new :: DisconnectedBlockTransactions where
  "DisconnectedBlockTransactions_new = \<lparr>queuedTx = [], cachedInnerUsage = 0\<rparr>"

definition pool_usage :: "u64 \<Rightarrow> DisconnectedBlockTransactions \<Rightarrow> u64" where
  "pool_usage entry pool = entry * of_nat (length (queuedTx pool)) + cachedInnerUsage pool"

definition pool_addTransaction ::
  "(bytes \<Rightarrow> bytes) \<Rightarrow> (CTransaction \<Rightarrow> u64) \<Rightarrow> CTransaction \<Rightarrow> DisconnectedBlockTransactions \<Rightarrow> DisconnectedBlockTransactions" where
  "pool_addTransaction h usage tx pool =
     pool\<lparr>queuedTx := (if GetHash h tx \<in> set (map (GetHash h) (queuedTx pool)) then queuedTx pool else queuedTx pool @ [tx]),
       cachedInnerUsage := cachedInnerUsage pool + usage tx\<rparr>"

definition pool_removeTransaction ::
  "(bytes \<Rightarrow> bytes) \<Rightarrow> (CTransaction \<Rightarrow> u64) \<Rightarrow> CTransaction \<Rightarrow> DisconnectedBlockTransactions \<Rightarrow> DisconnectedBlockTransactions" where
  "pool_removeTransaction h usage tx pool =
     (case find (\<lambda>t. GetHash h t = GetHash h tx) (queuedTx pool) of None \<Rightarrow> pool
      | Some t \<Rightarrow> pool\<lparr>queuedTx := filter (\<lambda>u. GetHash h u \<noteq> GetHash h tx) (queuedTx pool),
          cachedInnerUsage := cachedInnerUsage pool - usage t\<rparr>)"

definition pool_removeForBlock ::
  "(bytes \<Rightarrow> bytes) \<Rightarrow> (CTransaction \<Rightarrow> u64) \<Rightarrow> CTransaction list \<Rightarrow> DisconnectedBlockTransactions \<Rightarrow> DisconnectedBlockTransactions" where
  "pool_removeForBlock h usage txs pool =
     (if queuedTx pool = [] then pool else fold (pool_removeTransaction h usage) txs pool)"

definition MAX_DISCONNECTED_TX_POOL_SIZE :: u64 where "MAX_DISCONNECTED_TX_POOL_SIZE = 20000"

text \<open>The earliest entries are dropped while the limit is exceeded.\<close>

fun pool_trim :: "(CTransaction \<Rightarrow> u64) \<Rightarrow> u64 \<Rightarrow> CTransaction list \<Rightarrow> u64 \<Rightarrow> chain_fault + DisconnectedBlockTransactions" where
  "pool_trim usage entry [] used =
     (if MAX_DISCONNECTED_TX_POOL_SIZE * 1000 < used then Inl Bad_pointer else Inr \<lparr>queuedTx = [], cachedInnerUsage = used\<rparr>)"
| "pool_trim usage entry (tx # txs) used =
     (if MAX_DISCONNECTED_TX_POOL_SIZE * 1000 < pool_usage entry \<lparr>queuedTx = tx # txs, cachedInnerUsage = used\<rparr>
      then pool_trim usage entry txs (used - usage tx)
      else Inr \<lparr>queuedTx = tx # txs, cachedInnerUsage = used\<rparr>)"

section \<open>One block\<close>

text \<open>The order in which \<open>mapBlockIndex\<close> is visited, the memory pool after a reorganisation (with the transactions that
  are left of the blocks that were disconnected, and whether they may come back), requests to shut down, the height
  to stop at, and the memory that transactions take.\<close>

record ('n, 'v) chain_env = "('n, 'v) run_env" +
  map_order :: "BlockMap \<Rightarrow> ptr list"
  UpdateMempoolForReorg :: "CTransaction list \<Rightarrow> bool \<Rightarrow> 'v node \<Rightarrow> chain_fault + 'v node"
  ShutdownRequested :: "'v node \<Rightarrow> bool"
  nStopAtHeight :: int
  tx_usage :: "CTransaction \<Rightarrow> u64"
  entry_usage :: u64

text \<open>\<open>Inl (Rejected _)\<close> is a block that breaks a rule, \<open>Inr False\<close> an error of the system; everything else on the
  left ends the program.\<close>

type_synonym 'v outcome = "(tx_error + bool) \<times> 'v node"

definition put_state :: "node_state \<Rightarrow> 'v node \<Rightarrow> 'v node" where
  "put_state ns nd = node_state.extend ns (node_state.more nd)"

definition read_block :: "('n, 'v) chain_env \<Rightarrow> Chain_Params \<Rightarrow> CBlockIndex \<Rightarrow> 'v node \<Rightarrow> chain_fault + CBlock option" where
  "read_block env params b nd =
     ReadBlockFromDisk_index (be_hash env) (CheckEquihashSolution env) (Consensus_Params.truncate params) b (ns_disk nd)"

definition flush_state :: "('n, 'v) chain_env \<Rightarrow> 'v view_ops \<Rightarrow> FlushStateMode \<Rightarrow> 'v node \<Rightarrow> 'v outcome" where
  "flush_state env B mode nd = FlushStateToDisk (run_env.truncate env) B (map_order env (mapBlockIndex nd)) mode 0 nd"

text \<open>\<open>UpdateTip\<close> logs the hash of the new tip, so that there must be one.\<close>

definition move_tip :: "ptr option \<Rightarrow> 'v node \<Rightarrow> 'v outcome option" where
  "move_tip p nd = Option.bind (SetTip (ns_index nd) (chainActive nd) p) (\<lambda>r. Some (case r of
     Inl f \<Rightarrow> (Inl (Fault f), nd)
   | Inr C \<Rightarrow> (if p = None then Inl (Fault Bad_pointer) else Inr True, nd\<lparr>chainActive := C\<rparr>)))"

text \<open>The coins of the block's view go to the cache of the tip, which is flushed when it must be.\<close>

definition settle ::
  "('n, 'v) chain_env \<Rightarrow> 'v view_ops \<Rightarrow> 'v CCoinsViewCache CCoinsViewCache \<Rightarrow> 'v node \<Rightarrow> 'v outcome" where
  "settle env B view nd =
     (case Flush (Cache_ops B) view of Inl e \<Rightarrow> (Inl (Coins_fault e), nd)
      | Inr (flushed, view) \<Rightarrow>
          let nd = nd\<lparr>pcoinsTip := base view\<rparr> in
          if \<not> flushed then (Inl (Fault Assert_fails), nd) else flush_state env B FLUSH_STATE_IF_NEEDED nd)"

text \<open>\<open>DisconnectTip\<close>, with the queue; \<open>None\<close> is a null pointer for it.\<close>

definition queue_block ::
  "('n, 'v) chain_env \<Rightarrow> CBlock \<Rightarrow> DisconnectedBlockTransactions option \<Rightarrow> chain_fault + DisconnectedBlockTransactions option" where
  "queue_block env block pool =
     (case pool of None \<Rightarrow> Inr None
      | Some pool \<Rightarrow>
          let pool = fold (pool_addTransaction (be_hash env) (tx_usage env)) (rev (vtx block)) pool in
          bind_sum (pool_trim (tx_usage env) (entry_usage env) (queuedTx pool) (cachedInnerUsage pool)) (\<lambda>pool. Inr (Some pool)))"

definition disconnect_view ::
  "('n, 'v) chain_env \<Rightarrow> 'v view_ops \<Rightarrow> CBlock \<Rightarrow> CBlockIndex \<Rightarrow> 'v CCoinsViewCache CCoinsViewCache \<Rightarrow> 'v node \<Rightarrow>
   tx_error + DisconnectResult \<times> 'v CCoinsViewCache CCoinsViewCache" where
  "disconnect_view env B block b view nd =
     bind_sum (lift_fault (hash_of_prev (ns_index nd) b)) (\<lambda>prev.
       DisconnectBlock (be_hash env) (Cache_ops B) block (nHeight b) prev
         (UndoReadFromDisk (be_hash env) (GetUndoPos b) prev (ns_disk nd)) view)"

text \<open>The coins without the block; \<open>Inr False\<close> when they cannot be had or written.\<close>

definition disconnect_coins ::
  "('n, 'v) chain_env \<Rightarrow> 'v view_ops \<Rightarrow> CBlock \<Rightarrow> CBlockIndex \<Rightarrow> uint256 \<Rightarrow> 'v node \<Rightarrow> 'v outcome" where
  "disconnect_coins env B block b hash nd =
     (case Cache_GetBestBlock (Cache_ops B) (CCoinsViewCache_new (pcoinsTip nd)) of (best, view) \<Rightarrow>
        if best \<noteq> hash then (Inl (Fault Assert_fails), nd\<lparr>pcoinsTip := base view\<rparr>)
        else (case disconnect_view env B block b view nd of
            Inl e \<Rightarrow> (Inl e, nd)
          | Inr (DISCONNECT_OK, view) \<Rightarrow> settle env B view nd
          | Inr (_, view) \<Rightarrow> (Inr False, nd\<lparr>pcoinsTip := base view\<rparr>)))"

definition DisconnectTip ::
  "('n, 'v) chain_env \<Rightarrow> Chain_Params \<Rightarrow> 'v view_ops \<Rightarrow> DisconnectedBlockTransactions option \<Rightarrow> 'v node \<Rightarrow>
   ('v outcome \<times> DisconnectedBlockTransactions option) option" where
  "DisconnectTip env params B pool nd =
     (case Tip (chainActive nd) of None \<Rightarrow> Some ((Inl (Fault Assert_fails), nd), pool)
      | Some p \<Rightarrow>
     (case bind_sum (deref (ns_index nd) p) (\<lambda>b. bind_sum (read_block env params b nd) (\<lambda>block.
             bind_sum (GetBlockHash b) (\<lambda>hash. Inr (b, block, hash)))) of
        Inl f \<Rightarrow> Some ((Inl (Fault f), nd), pool)
      | Inr (b, None, hash) \<Rightarrow> Some ((Inr False, nd), pool)
      | Inr (b, Some block, hash) \<Rightarrow>
          (case disconnect_coins env B block b hash nd of
             (Inr True, nd) \<Rightarrow>
               (case queue_block env block pool of
                  Inl f \<Rightarrow> Some ((Inl (Fault f), nd), pool)
                | Inr pool \<Rightarrow> map_option (\<lambda>out. (out, pool)) (move_tip (pprev b) nd))
           | (r, nd) \<Rightarrow> Some ((r, nd), pool))))"

text \<open>\<open>ConnectTip\<close>; \<open>pblock\<close> is the block with its flag, when it is there already.\<close>

definition block_to_connect ::
  "('n, 'v) chain_env \<Rightarrow> Chain_Params \<Rightarrow> ptr \<Rightarrow> (CBlock \<times> bool) option \<Rightarrow> 'v node \<Rightarrow> chain_fault + (CBlock \<times> bool) option" where
  "block_to_connect env params pindexNew pblock nd =
     bind_sum (deref (ns_index nd) pindexNew) (\<lambda>b.
       if pprev b \<noteq> Tip (chainActive nd) then Inl Assert_fails
       else case pblock of Some bl \<Rightarrow> Inr (Some bl)
         | None \<Rightarrow> bind_sum (read_block env params b nd) (\<lambda>r. Inr (map_option (\<lambda>block. (block, False)) r)))"

text \<open>The coins with the block; a block that breaks a rule is marked.\<close>

definition connect_coins ::
  "('n, 'v) chain_env \<Rightarrow> Chain_Params \<Rightarrow> 'v view_ops \<Rightarrow> CBlock \<Rightarrow> bool \<Rightarrow> ptr \<Rightarrow> 'v node \<Rightarrow> 'v outcome" where
  "connect_coins env params B block fChecked pindexNew nd =
     (case ConnectBlock (node_env.truncate env) params (Cache_ops B) block fChecked pindexNew False
             (CCoinsViewCache_new (pcoinsTip nd)) (node_state.truncate nd) of
        (r, _, view, ns) \<Rightarrow>
          let nd = (put_state ns nd)\<lparr>pcoinsTip := base view\<rparr> in
          (case r of
             Inl (Rejected rj) \<Rightarrow>
               (case InvalidBlockFound pindexNew (rj_corruption rj) nd of
                  Inl f \<Rightarrow> (Inl (Fault f), nd) | Inr nd \<Rightarrow> (Inl (Rejected rj), nd))
           | Inr True \<Rightarrow> settle env B view nd
           | _ \<Rightarrow> (r, nd)))"

definition ConnectTip ::
  "('n, 'v) chain_env \<Rightarrow> Chain_Params \<Rightarrow> 'v view_ops \<Rightarrow> ptr \<Rightarrow> (CBlock \<times> bool) option \<Rightarrow>
   DisconnectedBlockTransactions \<Rightarrow> 'v node \<Rightarrow> ('v outcome \<times> DisconnectedBlockTransactions) option" where
  "ConnectTip env params B pindexNew pblock pool nd =
     (case block_to_connect env params pindexNew pblock nd of
        Inl f \<Rightarrow> Some ((Inl (Fault f), nd), pool)
      | Inr None \<Rightarrow> Some ((Inr False, nd), pool)
      | Inr (Some (block, fChecked)) \<Rightarrow>
          (case connect_coins env params B block fChecked pindexNew nd of
             (Inr True, nd) \<Rightarrow>
               map_option (\<lambda>out. (out, pool_removeForBlock (be_hash env) (tx_usage env) (vtx block) pool))
                 (move_tip (Some pindexNew) nd)
           | (r, nd) \<Rightarrow> Some ((r, nd), pool)))"

section \<open>Towards a candidate\<close>

text \<open>The blocks above the fork go.\<close>

partial_function (option) disconnect_to ::
  "('n, 'v) chain_env \<Rightarrow> Chain_Params \<Rightarrow> 'v view_ops \<Rightarrow> ptr option \<Rightarrow> DisconnectedBlockTransactions option \<Rightarrow> 'v node \<Rightarrow>
   ('v outcome \<times> DisconnectedBlockTransactions option) option" where
  [code]: "disconnect_to env params B fork pool nd =
     (if Tip (chainActive nd) = None \<or> Tip (chainActive nd) = fork then Some ((Inr True, nd), pool)
      else Option.bind (DisconnectTip env params B pool nd) (\<lambda>((r, nd), pool).
        if r = Inr True then disconnect_to env params B fork pool nd else Some ((r, nd), pool)))"

text \<open>The next blocks to connect, from the highest down to the one above \<open>height\<close>.\<close>

partial_function (option) path_down :: "index_heap \<Rightarrow> ptr option \<Rightarrow> int \<Rightarrow> (chain_fault + ptr list) option" where
  [code]: "path_down H p height =
     (case p of None \<Rightarrow> Some (Inr [])
      | Some q \<Rightarrow> (case deref H q of Inl f \<Rightarrow> Some (Inl f)
          | Inr b \<Rightarrow> if int (nHeight b) = height then Some (Inr [])
              else Option.bind (path_down H (pprev b) height) (\<lambda>r.
                Some (case r of Inl f \<Rightarrow> Inl f | Inr ps \<Rightarrow> Inr (q # ps)))))"

text \<open>They are connected from the lowest on.  A step ends the program, stops with an error of the system, or is done,
  with \<open>fInvalidFound\<close> and \<open>fContinue\<close>.\<close>

datatype step_result = Step_crash tx_error | Step_error | Step_done bool bool

definition better_tip :: "base_uint option \<Rightarrow> 'v node \<Rightarrow> chain_fault + bool" where
  "better_tip oldWork nd =
     (case oldWork of None \<Rightarrow> Inr True
      | Some w \<Rightarrow> (case Tip (chainActive nd) of None \<Rightarrow> Inl Bad_pointer
          | Some p \<Rightarrow> bind_sum (deref (ns_index nd) p) (\<lambda>t. Inr (CompareTo (nChainWork t) w > 0))))"

text \<open>What follows an attempt to connect: the step ends, or the tip is no better than the old one and the next block
  is tried.\<close>

definition after_connect :: "base_uint option \<Rightarrow> ptr \<Rightarrow> 'v outcome \<Rightarrow> step_result option \<times> 'v node" where
  "after_connect oldWork lowest out =
     (case out of
        (Inl (Rejected rj), nd) \<Rightarrow>
          (case (if rj_corruption rj then Inr nd else InvalidChainFound lowest nd) of
             Inl f \<Rightarrow> (Some (Step_crash (Fault f)), nd) | Inr nd \<Rightarrow> (Some (Step_done True False), nd))
      | (Inl e, nd) \<Rightarrow> (Some (Step_crash e), nd)
      | (Inr False, nd) \<Rightarrow> (Some Step_error, nd)
      | (Inr True, nd) \<Rightarrow>
          (case PruneBlockIndexCandidates nd of Inl f \<Rightarrow> (Some (Step_crash (Fault f)), nd)
           | Inr nd \<Rightarrow> (case better_tip oldWork nd of Inl f \<Rightarrow> (Some (Step_crash (Fault f)), nd)
               | Inr better \<Rightarrow> (if better then Some (Step_done False False) else None, nd))))"

fun connect_blocks ::
  "('n, 'v) chain_env \<Rightarrow> Chain_Params \<Rightarrow> 'v view_ops \<Rightarrow> base_uint option \<Rightarrow> ptr \<Rightarrow> (CBlock \<times> bool) option \<Rightarrow> ptr \<Rightarrow> ptr list \<Rightarrow>
   DisconnectedBlockTransactions \<Rightarrow> 'v node \<Rightarrow> (step_result \<times> DisconnectedBlockTransactions \<times> 'v node) option" where
  "connect_blocks env params B oldWork pindexMostWork pblock lowest [] pool nd = Some (Step_done False True, pool, nd)"
| "connect_blocks env params B oldWork pindexMostWork pblock lowest (p # ps) pool nd =
     Option.bind (ConnectTip env params B p (if p = pindexMostWork then pblock else None) pool nd) (\<lambda>(out, pool).
       case after_connect oldWork lowest out of
         (Some r, nd) \<Rightarrow> Some (r, pool, nd)
       | (None, nd) \<Rightarrow> connect_blocks env params B oldWork pindexMostWork pblock lowest ps pool nd)"

text \<open>In portions of 32 heights, from \<open>height\<close> up to \<open>high\<close>, that of the candidate.\<close>

definition next_blocks :: "'v node \<Rightarrow> ptr \<Rightarrow> int \<Rightarrow> int \<Rightarrow> (chain_fault + ptr list) option" where
  "next_blocks nd pindexMostWork height target =
     (case GetAncestor (ns_index nd) pindexMostWork target of Inl f \<Rightarrow> Some (Inl f)
      | Inr p \<Rightarrow> map_option (map_sum id rev) (path_down (ns_index nd) p height))"

partial_function (option) connect_up ::
  "('n, 'v) chain_env \<Rightarrow> Chain_Params \<Rightarrow> 'v view_ops \<Rightarrow> base_uint option \<Rightarrow> ptr \<Rightarrow> int \<Rightarrow> (CBlock \<times> bool) option \<Rightarrow> int \<Rightarrow>
   DisconnectedBlockTransactions \<Rightarrow> 'v node \<Rightarrow> (step_result \<times> DisconnectedBlockTransactions \<times> 'v node) option" where
  [code]: "connect_up env params B oldWork pindexMostWork high pblock height pool nd =
     (if height = high then Some (Step_done False True, pool, nd)
      else Option.bind (next_blocks nd pindexMostWork height (min (height + 32) high)) (\<lambda>r. case r of
          Inl f \<Rightarrow> Some (Step_crash (Fault f), pool, nd)
        | Inr ps \<Rightarrow>
            Option.bind (connect_blocks env params B oldWork pindexMostWork pblock (hd (ps @ [pindexMostWork])) ps pool nd) (\<lambda>(r, pool, nd).
              if r = Step_done False True
              then connect_up env params B oldWork pindexMostWork high pblock (min (height + 32) high) pool nd
              else Some (r, pool, nd))))"

definition work_of :: "'v node \<Rightarrow> ptr option \<Rightarrow> chain_fault + base_uint option" where
  "work_of nd p = (case p of None \<Rightarrow> Inr None | Some q \<Rightarrow> bind_sum (deref (ns_index nd) q) (\<lambda>b. Inr (Some (nChainWork b))))"

definition height_of :: "'v node \<Rightarrow> ptr option \<Rightarrow> chain_fault + int" where
  "height_of nd p = (case p of None \<Rightarrow> Inr (- 1) | Some q \<Rightarrow> bind_sum (deref (ns_index nd) q) (\<lambda>b. Inr (int (nHeight b))))"

text \<open>The result of a step after the memory pool has been brought up to date: \<open>Inl\<close> ends the program, otherwise
  success and \<open>fInvalidFound\<close>.\<close>

definition update_pool ::
  "('n, 'v) chain_env \<Rightarrow> bool \<Rightarrow> bool \<times> bool \<Rightarrow> DisconnectedBlockTransactions \<Rightarrow> 'v node \<Rightarrow> (tx_error + bool \<times> bool) \<times> 'v node" where
  "update_pool env fAddToMempool r pool nd =
     (case UpdateMempoolForReorg env (queuedTx pool) fAddToMempool nd of Inl f \<Rightarrow> (Inl (Fault f), nd) | Inr nd \<Rightarrow> (Inr r, nd))"

definition finish_step ::
  "('n, 'v) chain_env \<Rightarrow> bool \<Rightarrow> step_result \<times> DisconnectedBlockTransactions \<times> 'v node \<Rightarrow> (tx_error + bool \<times> bool) \<times> 'v node" where
  "finish_step env fBlocksDisconnected s =
     (case s of
        (Step_crash e, pool, nd) \<Rightarrow> (Inl e, nd)
      | (Step_error, pool, nd) \<Rightarrow> update_pool env False (False, False) pool nd
      | (Step_done invalid cont, pool, nd) \<Rightarrow>
          if fBlocksDisconnected then update_pool env True (True, invalid) pool nd else (Inr (True, invalid), nd))"

definition ActivateBestChainStep ::
  "('n, 'v) chain_env \<Rightarrow> Chain_Params \<Rightarrow> 'v view_ops \<Rightarrow> ptr \<Rightarrow> (CBlock \<times> bool) option \<Rightarrow> 'v node \<Rightarrow>
   ((tx_error + bool \<times> bool) \<times> 'v node) option" where
  "ActivateBestChainStep env params B pindexMostWork pblock nd =
     Option.bind (FindFork (ns_index nd) (chainActive nd) (Some pindexMostWork)) (\<lambda>r.
       case bind_sum r (\<lambda>fork. bind_sum (work_of nd (Tip (chainActive nd))) (\<lambda>oldWork.
           bind_sum (height_of nd fork) (\<lambda>low. bind_sum (height_of nd (Some pindexMostWork)) (\<lambda>high.
             Inr (fork, oldWork, low, high))))) of
         Inl f \<Rightarrow> Some (Inl (Fault f), nd)
       | Inr (fork, oldWork, low, high) \<Rightarrow>
           let moved = (Tip (chainActive nd) \<noteq> None \<and> Tip (chainActive nd) \<noteq> fork) in
           Option.bind (disconnect_to env params B fork (Some DisconnectedBlockTransactions_new) nd) (\<lambda>((r, nd), pool).
             let pool = (case pool of None \<Rightarrow> DisconnectedBlockTransactions_new | Some pool \<Rightarrow> pool) in
             case r of
               Inl e \<Rightarrow> Some (Inl e, nd)
             | Inr True \<Rightarrow> map_option (finish_step env moved) (connect_up env params B oldWork pindexMostWork high pblock low pool nd)
             | Inr False \<Rightarrow> Some (update_pool env False (False, False) pool nd)))"

section \<open>To the best candidate\<close>

text \<open>The block that is at hand is used when it is the candidate.\<close>

definition block_for :: "('n, 'v) chain_env \<Rightarrow> 'v node \<Rightarrow> ptr \<Rightarrow> (CBlock \<times> bool) option \<Rightarrow> chain_fault + (CBlock \<times> bool) option" where
  "block_for env nd p pblock =
     (case pblock of None \<Rightarrow> Inr None
      | Some (block, fChecked) \<Rightarrow> bind_sum (deref (ns_index nd) p) (\<lambda>b. bind_sum (GetBlockHash b) (\<lambda>hash.
          Inr (if BlockHeader_GetHash (be_hash env) (GetBlockHeader block) = hash then Some (block, fChecked) else None))))"

definition stop_requested :: "('n, 'v) chain_env \<Rightarrow> 'v node \<Rightarrow> bool" where
  "stop_requested env nd \<longleftrightarrow> ShutdownRequested env nd \<or>
     nStopAtHeight env \<noteq> 0 \<and>
       (case Option.bind (Tip (chainActive nd)) (ns_index nd) of None \<Rightarrow> False | Some b \<Rightarrow> nStopAtHeight env \<le> int (nHeight b))"

partial_function (option) activate_loop ::
  "('n, 'v) chain_env \<Rightarrow> Chain_Params \<Rightarrow> 'v view_ops \<Rightarrow> (CBlock \<times> bool) option \<Rightarrow> ptr option \<Rightarrow> 'v node \<Rightarrow>
   ((tx_error + bool \<times> bool) \<times> 'v node) option" where
  [code]: "activate_loop env params B pblock pindexMostWork nd =
     Option.bind (case pindexMostWork of None \<Rightarrow> FindMostWorkChain nd | Some p \<Rightarrow> Some (Inr (Some p, nd))) (\<lambda>r.
       case r of Inl f \<Rightarrow> Some (Inl (Fault f), nd)
       | Inr (None, nd) \<Rightarrow> Some (Inr (True, True), nd)
       | Inr (Some p, nd) \<Rightarrow>
           if Tip (chainActive nd) = Some p then Some (Inr (True, True), nd)
           else (case block_for env nd p pblock of Inl f \<Rightarrow> Some (Inl (Fault f), nd)
             | Inr bl \<Rightarrow> Option.bind (ActivateBestChainStep env params B p bl nd) (\<lambda>(r, nd). case r of
                   Inl e \<Rightarrow> Some (Inl e, nd)
                 | Inr (ok, invalid) \<Rightarrow>
                     if \<not> ok then Some (Inr (False, True), nd)
                     else if stop_requested env nd \<or> Tip (chainActive nd) = (if invalid then None else Some p)
                     then Some (Inr (True, False), nd)
                     else activate_loop env params B pblock (if invalid then None else Some p) nd)))"

text \<open>The loop returns at once, without the periodic flush, when there is nothing to do.\<close>

definition ActivateBestChain ::
  "('n, 'v) chain_env \<Rightarrow> Chain_Params \<Rightarrow> 'v view_ops \<Rightarrow> (CBlock \<times> bool) option \<Rightarrow> 'v node \<Rightarrow> 'v outcome option" where
  "ActivateBestChain env params B pblock nd =
     Option.bind (activate_loop env params B pblock None nd) (\<lambda>(r, nd). Some (case r of
         Inl e \<Rightarrow> (Inl e, nd)
       | Inr (ok, done_already) \<Rightarrow> if \<not> ok \<or> done_already then (Inr ok, nd) else flush_state env B FLUSH_STATE_PERIODIC nd))"

end
