(* ===== verification/TipMove.thy ===== *)
theory TipMove imports Activate
begin

text \<open>
  What \<open>ConnectTip\<close> and \<open>DisconnectTip\<close> keep: the tree of blocks and the order of the candidates stay as they are
  whatever the result, and when they succeed the coins are those of the new tip.  A block that is refused moves
  neither the tip nor the coins.
\<close>

section \<open>What no move of the tip changes\<close>

definition entry_core :: "CBlockIndex \<Rightarrow> ptr option \<times> ptr option \<times> nat \<times> uint256 option \<times> base_uint \<times> int \<times> u32" where
  "entry_core b = (pprev b, pskip b, nHeight b, phashBlock b, nChainWork b, nSequenceId b, nChainTx b)"

definition same_core :: "index_heap \<Rightarrow> index_heap \<Rightarrow> bool" where
  "same_core H H' \<longleftrightarrow> (\<forall>p. map_option entry_core (H' p) = map_option entry_core (H p))"

lemma same_core_refl [simp]: "same_core H H"
  by (simp add: same_core_def)

lemma same_core_trans: "same_core H H' \<Longrightarrow> same_core H' H'' \<Longrightarrow> same_core H H''"
  by (simp add: same_core_def)

lemma same_core_upd: "H p = Some b \<Longrightarrow> entry_core b' = entry_core b \<Longrightarrow> same_core H (H(p \<mapsto> b'))"
  by (simp add: same_core_def)

lemma same_core_at:
  assumes "same_core H H'" "H' p = Some b'"
  shows "\<exists>b. H p = Some b \<and> pprev b = pprev b' \<and> pskip b = pskip b' \<and> nHeight b = nHeight b' \<and> phashBlock b = phashBlock b' \<and>
    nChainWork b = nChainWork b' \<and> nSequenceId b = nSequenceId b' \<and> nChainTx b = nChainTx b'"
proof -
  have "map_option entry_core (H' p) = map_option entry_core (H p)" using assms(1) unfolding same_core_def by blast
  with assms(2) show ?thesis by (cases "H p") (auto simp: entry_core_def)
qed

lemma same_core_sym: "same_core H H' \<Longrightarrow> same_core H' H"
  by (simp add: same_core_def)

lemma same_core_None: "same_core H H' \<Longrightarrow> H' p = None \<longleftrightarrow> H p = None"
  unfolding same_core_def by (metis map_option_is_None)

lemma same_coreI: "(\<And>p. map_option entry_core (H' p) = map_option entry_core (H p)) \<Longrightarrow> same_core H H'"
  by (simp add: same_core_def)

lemma same_core_shape: "same_core H H' \<Longrightarrow> same_shape H H'"
proof (unfold same_shape_def, rule ext)
  fix p assume s: "same_core H H'"
  show "(map_option entry_shape \<circ> H) p = (map_option entry_shape \<circ> H') p"
  proof (cases "H' p")
    case None
    then show ?thesis using same_core_None [OF s, of p] by simp
  next
    case (Some b')
    then show ?thesis using same_core_at [OF s Some] by (auto simp: entry_shape_def)
  qed
qed

lemma same_core_hashes: "same_core H H' \<Longrightarrow> same_hashes H H'"
proof (unfold same_hashes_def, rule allI)
  fix p assume s: "same_core H H'"
  show "map_option phashBlock (H' p) = map_option phashBlock (H p)"
    using same_core_None [OF s, of p] same_core_at [OF s, of p] by (cases "H' p") auto
qed

lemma same_core_rank: "same_core H H' \<Longrightarrow> same_rank H H'"
proof (unfold same_rank_def, rule ext)
  fix p assume s: "same_core H H'"
  show "(map_option entry_rank \<circ> H) p = (map_option entry_rank \<circ> H') p"
    using same_core_None [OF s, of p] same_core_at [OF s, of p] by (cases "H' p") (auto simp: entry_rank_def)
qed

lemma same_core_linked: "same_core H H' \<Longrightarrow> linked H p \<Longrightarrow> linked H' p"
  unfolding linked_def same_shape_ancestor [OF same_core_shape] using same_core_at by metis

text \<open>The tree and the map stay, candidates only go, and the best invalid block is one of the tree.\<close>

definition kept :: "'z chain_state_scheme \<Rightarrow> 'z chain_state_scheme \<Rightarrow> bool" where
  "kept cs cs' \<longleftrightarrow> same_core (ns_index cs) (ns_index cs') \<and> mapBlockIndex cs' = mapBlockIndex cs \<and>
     set (setBlockIndexCandidates cs') \<subseteq> set (setBlockIndexCandidates cs) \<and>
     (\<forall>q. pindexBestInvalid cs' = Some q \<longrightarrow> pindexBestInvalid cs = Some q \<or> ns_index cs q \<noteq> None)"

definition chain_kept :: "'z chain_state_scheme \<Rightarrow> 'z chain_state_scheme \<Rightarrow> bool" where
  "chain_kept cs cs' \<longleftrightarrow> kept cs cs' \<and> chainActive cs' = chainActive cs"

lemma kept_refl [simp]: "kept cs cs" "chain_kept cs cs"
  by (simp_all add: kept_def chain_kept_def)

lemma kept_trans: "kept a b \<Longrightarrow> kept b c \<Longrightarrow> kept a c"
  unfolding kept_def using same_core_trans [of "ns_index a" "ns_index b" "ns_index c"] same_core_None [of "ns_index a" "ns_index b"]
  by (metis subset_trans)

lemma chain_kept_trans: "chain_kept a b \<Longrightarrow> chain_kept b c \<Longrightarrow> chain_kept a c"
  using kept_trans by (auto simp: chain_kept_def)

lemma chain_kept_kept: "chain_kept a b \<Longrightarrow> kept a b"
  by (simp add: chain_kept_def)

lemma kept_None: "kept a b \<Longrightarrow> ns_index b p = None \<longleftrightarrow> ns_index a p = None"
  unfolding kept_def by (metis same_core_None)

lemma kept_candidates:
  assumes k: "kept cs cs'" and c: "candidates_linked cs" and b: "is_branch (ns_index cs') (chainActive cs')"
  shows "candidates_linked cs'"
proof -
  note s = k [unfolded kept_def, THEN conjunct1]
  have "ns_index cs' p \<noteq> None \<and> linked (ns_index cs') p" if "p \<in> set (setBlockIndexCandidates cs')" for p
    using that k c same_core_None [OF s] same_core_linked [OF s] by (auto simp: kept_def candidates_linked_def)
  moreover have "ns_index cs' q \<noteq> None" if "pindexBestInvalid cs' = Some q" for q
    using that k c same_core_None [OF s] by (auto simp: kept_def candidates_linked_def)
  ultimately show ?thesis
    using c b same_shape_tree [OF same_core_shape [OF s]] same_rank_works [OF same_core_rank [OF s]] by (simp add: candidates_linked_def)
qed

section \<open>Flushing\<close>

lemma prune_entry_kept: "chain_kept cs (prune_entry f p cs)"
proof -
  have "same_core (ns_index cs) (ns_index (prune_entry f p cs))"
    by (rule same_coreI) (auto simp: prune_entry_at entry_core_def pruned_entry_def option.map_comp intro!: option.map_cong0)
  then show ?thesis
    by (auto simp: chain_kept_def kept_def prune_entry_def Let_def set_dirty_def set_entry_def split: option.splits)
qed

lemma PruneOneBlockFile_kept: "chain_kept cs (PruneOneBlockFile entries f cs)"
proof -
  have "chain_kept cs (fold (prune_entry f) entries cs)"
    by (induction entries arbitrary: cs) (use prune_entry_kept chain_kept_trans in \<open>auto, blast\<close>)
  then show ?thesis by (simp add: PruneOneBlockFile_def Let_def chain_kept_def kept_def)
qed

lemma prune_manual_kept: "chain_kept cs (snd s) \<Longrightarrow> chain_kept cs (snd (prune_manual entries lastBlock fs s))"
  by (induction entries lastBlock fs s rule: prune_manual.induct)
    (simp_all add: Let_def chain_kept_trans [OF _ PruneOneBlockFile_kept])

lemma prune_target_kept: "chain_kept cs (snd s) \<Longrightarrow> chain_kept cs (snd (prune_target entries target lastBlock fs usage s))"
proof (induction fs arbitrary: usage s)
  case (Cons f fs)
  obtain pruned c where s: "s = (pruned, c)" by (cases s)
  have c: "chain_kept cs c" using Cons.prems by (simp add: s)
  then have step: "chain_kept cs (PruneOneBlockFile entries f c)" by (rule chain_kept_trans [OF _ PruneOneBlockFile_kept])
  have IH: "chain_kept cs c \<Longrightarrow> chain_kept cs (snd (prune_target entries target lastBlock fs u (ps, c)))" for u ps c
    by (rule Cons.IH) (simp only: snd_conv)
  show ?case unfolding s prune_target.simps Let_def
    by (simp only: IH [OF c] IH [OF step] snd_conv c simp_thms split: if_split)
qed simp

lemma FindFilesToPruneManual_kept:
  assumes "FindFilesToPruneManual entries height nd = Inr (fs, nd')"
  shows "chain_kept nd nd'"
proof -
  have "nd' = nd \<or> (\<exists>last n. (fs, nd') = prune_manual entries last [0..<n] ([], nd))"
    using assms by (auto simp: FindFilesToPruneManual_def Let_def split: option.splits sum.splits) metis
  then show ?thesis using prune_manual_kept [of nd "([], nd)" entries] by (metis kept_refl(2) snd_conv)
qed

lemma FindFilesToPrune_kept:
  assumes "FindFilesToPrune entries target after nd = Inr (fs, nd')"
  shows "chain_kept nd nd'"
proof -
  have "nd' = nd \<or> (\<exists>last n u. (fs, nd') = prune_target entries target last [0..<n] u ([], nd))"
    using assms by (auto simp: FindFilesToPrune_def Let_def split: option.splits sum.splits if_splits) metis
  then show ?thesis using prune_target_kept [of nd "([], nd)" entries target] by (metis kept_refl(2) snd_conv)
qed

lemma chain_kept_cong:
  "ns_index b = ns_index a \<Longrightarrow> mapBlockIndex b = mapBlockIndex a \<Longrightarrow> setBlockIndexCandidates b = setBlockIndexCandidates a \<Longrightarrow>
   pindexBestInvalid b = pindexBestInvalid a \<Longrightarrow> chainActive b = chainActive a \<Longrightarrow> chain_kept a b"
  by (simp add: chain_kept_def kept_def)

lemma flush_prune_kept:
  assumes "flush_prune env entries height nd = Inr (fs, nd')"
  shows "chain_kept nd nd'"
proof (cases "fPruneMode (ne_disk env) \<and> (fCheckForPruning (ns_disk nd) \<or> 0 < height) \<and> \<not> fReindex env")
  case True
  obtain fs1 nd1 where n: "(if 0 < height then FindFilesToPruneManual entries height nd
      else bind_sum (FindFilesToPrune entries (nPruneTarget env) (PruneAfterHeight env) nd) (\<lambda>(fs, nd).
        Inr (fs, nd\<lparr>ns_disk := (ns_disk nd)\<lparr>fCheckForPruning := False\<rparr>\<rparr>))) = Inr (fs1, nd1)"
    and nd': "nd' = (if fs1 \<noteq> [] \<and> \<not> fHavePruned nd1
      then nd1\<lparr>fHavePruned := True, pblocktree := (pblocktree nd1)\<lparr>bt_pruned := True\<rparr>\<rparr> else nd1)"
    using assms True unfolding flush_prune_def by (auto split: sum.splits)
  have "chain_kept nd nd1"
    using n by (auto simp: chain_kept_def kept_def split: if_splits sum.splits
        dest!: FindFilesToPruneManual_kept FindFilesToPrune_kept)
  moreover have "chain_kept nd1 nd'" by (rule chain_kept_cong) (simp_all add: nd')
  ultimately show ?thesis by (rule chain_kept_trans)
qed (use assms in \<open>auto simp: flush_prune_def\<close>)

lemma flush_index_kept: "flush_index env pruned nd = Inr nd' \<Longrightarrow> chain_kept nd nd'"
  by (rule chain_kept_cong) (auto simp: flush_index_def Let_def split: sum.splits)

lemma flush_coins_kept: "flush_coins env B nd = Inr (fOk, nd') \<Longrightarrow> chain_kept nd nd'"
  by (rule chain_kept_cong) (auto simp: flush_coins_def Let_def split: sum.splits prod.splits if_splits)

lemma flush_write_kept:
  assumes "flush_write env B mode full periodic pruned nd = (r, nd')"
  shows "chain_kept nd nd'"
proof (cases "if full \<or> periodic then flush_index env pruned nd else Inr nd")
  case (Inl f)
  then show ?thesis using assms by (simp add: flush_write_def)
next
  case (Inr nd1)
  then have k1: "chain_kept nd nd1" using flush_index_kept by (auto split: if_splits)
  note a = assms [unfolded flush_write_def Inr sum.case]
  show ?thesis
  proof (cases "if full then flush_coins env B nd1 else Inr (True, nd1)")
    case (Inl e)
    then show ?thesis using a k1 by simp
  next
    case (Inr q)
    obtain fOk nd2 where q: "q = (fOk, nd2)" by (cases q)
    have k2: "chain_kept nd1 nd2" using Inr flush_coins_kept unfolding q by (auto split: if_splits)
    have "chain_kept nd2 nd'" using a unfolding Inr q sum.case prod.case
      by (intro chain_kept_cong) (auto split: if_splits)
    then show ?thesis using k1 k2 chain_kept_trans by blast
  qed
qed

theorem FlushStateToDisk_kept:
  assumes "FlushStateToDisk env B entries mode height nd = (r, nd')"
  shows "chain_kept nd nd'"
proof (cases "flush_prune env entries height nd")
  case (Inl f)
  then show ?thesis using assms by (simp add: FlushStateToDisk_def)
next
  case (Inr q)
  obtain pruned nd1 where q: "q = (pruned, nd1)" by (cases q)
  define nd2 where "nd2 = start_times (re_now env) nd1"
  have "chain_kept nd nd1" using flush_prune_kept Inr q by blast
  moreover have "chain_kept nd1 nd2" by (rule chain_kept_cong) (simp_all add: nd2_def start_times_def)
  ultimately have k: "chain_kept nd nd2" by (rule chain_kept_trans)
  obtain full periodic where "(if (full \<or> periodic) \<and> \<not> free_space (ne_disk env) 0 then (Inr False, nd2)
      else flush_write env B mode full periodic pruned nd2) = (r, nd')"
    using assms unfolding FlushStateToDisk_def Inr q sum.case prod.case Let_def nd2_def [symmetric] by blast
  then have "nd' = nd2 \<or> flush_write env B mode full periodic pruned nd2 = (r, nd')" by (auto split: if_splits)
  then show ?thesis using k flush_write_kept chain_kept_trans by blast
qed

lemma flush_state_kept: "flush_state env B mode nd = (r, nd') \<Longrightarrow> chain_kept nd nd'"
  unfolding flush_state_def by (rule FlushStateToDisk_kept)

lemma settle_kept: "settle env B view nd = (r, nd') \<Longrightarrow> chain_kept nd nd'"
proof -
  assume r: "settle env B view nd = (r, nd')"
  have u: "chain_kept nd (nd\<lparr>pcoinsTip := v\<rparr>)" for v by (rule chain_kept_cong) simp_all
  show ?thesis
    using r u chain_kept_trans [OF u flush_state_kept] by (auto simp: settle_def Let_def split: sum.splits prod.splits if_splits)
qed

section \<open>Connecting and disconnecting\<close>

lemma put_state_sel [simp]:
  "ns_index (put_state ns nd) = ns_index ns" "mapBlockIndex (put_state ns nd) = mapBlockIndex ns"
  "chainActive (put_state ns nd) = chainActive ns" "ns_disk (put_state ns nd) = ns_disk ns"
  "setBlockIndexCandidates (put_state ns nd) = setBlockIndexCandidates nd" "pindexBestInvalid (put_state ns nd) = pindexBestInvalid nd"
  "pcoinsTip (put_state ns nd) = pcoinsTip nd"
  by (cases ns; cases nd; simp add: put_state_def node_state.extend_def)+

lemma truncate_sel [simp]:
  "ns_index (node_state.truncate nd) = ns_index nd" "mapBlockIndex (node_state.truncate nd) = mapBlockIndex nd"
  "chainActive (node_state.truncate nd) = chainActive nd" "ns_disk (node_state.truncate nd) = ns_disk nd"
  by (simp_all add: node_state.truncate_def)

definition node_kept :: "'z node_state_scheme \<Rightarrow> 'z node_state_scheme \<Rightarrow> bool" where
  "node_kept ns ns' \<longleftrightarrow> same_core (ns_index ns) (ns_index ns') \<and> mapBlockIndex ns' = mapBlockIndex ns \<and> chainActive ns' = chainActive ns"

lemma node_kept_refl [simp]: "node_kept ns ns"
  by (simp add: node_kept_def)

lemma node_kept_trans: "node_kept a b \<Longrightarrow> node_kept b c \<Longrightarrow> node_kept a c"
  using same_core_trans by (auto simp: node_kept_def)

lemma put_state_kept: "node_kept (node_state.truncate nd) ns \<Longrightarrow> chain_kept nd (put_state ns nd)"
  by (simp add: node_kept_def chain_kept_def kept_def)

lemma WriteUndoDataForBlock_core:
  "WriteUndoDataForBlock env h undo b prev st = (r, b', st') \<Longrightarrow> entry_core b' = entry_core b"
  by (auto simp: WriteUndoDataForBlock_def entry_core_def split: if_splits prod.splits bool.splits option.splits)

lemma RaiseValidity_core: "RaiseValidity b v = Inr (b', r) \<Longrightarrow> entry_core b' = entry_core b"
  by (auto simp: RaiseValidity_def entry_core_def split: if_splits)

lemma WriteTxIndexDataForBlock_sel [simp]:
  "ns_index (WriteTxIndexDataForBlock env block b ns) = ns_index ns" "mapBlockIndex (WriteTxIndexDataForBlock env block b ns) = mapBlockIndex ns"
  "chainActive (WriteTxIndexDataForBlock env block b ns) = chainActive ns"
  by (simp_all add: WriteTxIndexDataForBlock_def)

lemma set_dirty_sel [simp]:
  "ns_index (set_dirty p ns) = ns_index ns" "mapBlockIndex (set_dirty p ns) = mapBlockIndex ns" "chainActive (set_dirty p ns) = chainActive ns"
  by (simp_all add: set_dirty_def)

lemma set_entry_sel [simp]:
  "ns_index (set_entry p b ns) = (ns_index ns)(p \<mapsto> b)" "mapBlockIndex (set_entry p b ns) = mapBlockIndex ns"
  "chainActive (set_entry p b ns) = chainActive ns"
  by (simp_all add: set_entry_def)

lemma connect_write_kept:
  assumes "connect_write env block undo p prev ns = (r, ns')"
  shows "node_kept ns ns'"
proof (cases "ns_index ns p")
  case None
  then show ?thesis using assms by (simp add: connect_write_def)
next
  case (Some b)
  obtain w b' disk where u: "WriteUndoDataForBlock (ne_disk env) (be_hash env) undo b prev (ns_disk ns) = (w, b', disk)"
    by (cases "WriteUndoDataForBlock (ne_disk env) (be_hash env) undo b prev (ns_disk ns)")
  note c = WriteUndoDataForBlock_core [OF u]
  have c2: "RaiseValidity b' BLOCK_VALID_SCRIPTS = Inr (b'', x) \<Longrightarrow> entry_core b'' = entry_core b" for b'' x
    using c RaiseValidity_core [of b' BLOCK_VALID_SCRIPTS b'' x] by simp
  have "(\<exists>b''. entry_core b'' = entry_core b \<and> ns_index ns' = (ns_index ns)(p \<mapsto> b'')) \<and> mapBlockIndex ns' = mapBlockIndex ns \<and> chainActive ns' = chainActive ns"
    using assms c unfolding connect_write_def Some option.case u prod.case Let_def
    by (auto split: if_splits sum.splits dest!: c2)
  then show ?thesis using same_core_upd [of "ns_index ns" p b] Some by (auto simp: node_kept_def)
qed

lemma connect_finish_kept:
  "connect_finish env params block height p prev just cs ns = (r, v', ns') \<Longrightarrow> node_kept ns ns'"
  by (auto simp: connect_finish_def Let_def split: option.splits if_splits prod.splits sum.splits bool.splits dest: connect_write_kept)

lemma connect_checked_kept:
  assumes "connect_checked env params B block b p just view ns = (r, view', ns')"
  shows "node_kept ns ns'"
proof -
  obtain best v where g: "Cache_GetBestBlock B view = (best, v)" by (cases "Cache_GetBestBlock B view")
  let ?start = "\<lparr>cs_view = v, nFees = 0, nSigOpsCost = 0, vtxundo = [], cs_checks = [], cs_cache = scriptExecutionCache ns\<rparr>"
  have c: "node_kept ns (ns\<lparr>scriptExecutionCache := c\<rparr>)" for c by (simp add: node_kept_def)
  show ?thesis
  proof (cases "hash_of_prev (ns_index ns) b")
    case (Inl f)
    then show ?thesis using assms by (simp add: connect_checked_def)
  next
    case (Inr h)
    note a = assms [unfolded connect_checked_def Inr sum.case g prod.case]
    show ?thesis
    proof (cases "h \<noteq> best \<or> (\<exists>e. fScriptChecks_for env params ns p = Inl e) \<or> (\<not> uint256_IsNull best \<and> pprev b = None)")
      case True
      then show ?thesis using a by (auto split: if_splits sum.splits)
    next
      case False
      then obtain k where k: "fScriptChecks_for env params ns p = Inr k" by (cases "fScriptChecks_for env params ns p") auto
      obtain q cs where t: "connect_txs env B (ns_index ns) p (int (nHeight b)) just k True (vtx block) ?start = (q, cs)"
        by (cases "connect_txs env B (ns_index ns) p (int (nHeight b)) just k True (vtx block) ?start")
      show ?thesis
      proof (cases q)
        case (Inl e)
        then show ?thesis using a False c unfolding k sum.case t prod.case Let_def by (auto split: if_splits)
      next
        case Inr': (Inr u)
        have "connect_finish env params block (nHeight b) p h just cs (ns\<lparr>scriptExecutionCache := cs_cache cs\<rparr>) = (r, view', ns')"
          using a False unfolding k sum.case t prod.case Let_def Inr' by (auto split: if_splits)
        from node_kept_trans [OF c connect_finish_kept [OF this]] show ?thesis .
      qed
    qed
  qed
qed

theorem ConnectBlock_kept:
  assumes "ConnectBlock env params B block fc p just view ns = (r, fc', view', ns')"
  shows "node_kept ns ns'"
proof (cases "ns_index ns p")
  case None
  then show ?thesis using assms by (simp add: ConnectBlock_def)
next
  case (Some b)
  obtain q fc1 where ck: "CheckBlock (block_env.truncate env) (Consensus_Params.truncate params) (ns_index ns) (chainActive ns) block
      fc (\<not> just) (\<not> just) = (q, fc1)"
    by (cases "CheckBlock (block_env.truncate env) (Consensus_Params.truncate params) (ns_index ns) (chainActive ns) block
      fc (\<not> just) (\<not> just)")
  obtain r2 v2 n2 where cc: "connect_checked env params B block b p just view ns = (r2, v2, n2)"
    by (cases "connect_checked env params B block b p just view ns")
  have "ns' = ns \<or> ns' = n2" using assms unfolding ConnectBlock_def Some option.case ck cc prod.case
    by (cases q) (simp_all split: if_splits)
  then show ?thesis using connect_checked_kept [OF cc] by auto
qed

lemma chain_frame [simp]:
  "chain_state.more (set_dirty p cs) = chain_state.more cs" "setBlockIndexCandidates (set_dirty p cs) = setBlockIndexCandidates cs"
  "pindexBestInvalid (set_dirty p cs) = pindexBestInvalid cs"
  "chain_state.more (set_entry p b cs) = chain_state.more cs" "setBlockIndexCandidates (set_entry p b cs) = setBlockIndexCandidates cs"
  "pindexBestInvalid (set_entry p b cs) = pindexBestInvalid cs"
  "ns_index (erase_candidate p cs) = ns_index cs" "mapBlockIndex (erase_candidate p cs) = mapBlockIndex cs"
  "chainActive (erase_candidate p cs) = chainActive cs" "chain_state.more (erase_candidate p cs) = chain_state.more cs"
  "setBlockIndexCandidates (erase_candidate p cs) = removeAll p (setBlockIndexCandidates cs)"
  "pindexBestInvalid (erase_candidate p cs) = pindexBestInvalid cs"
  by (simp_all add: set_dirty_def set_entry_def erase_candidate_def)

lemma InvalidChainFound_kept: "InvalidChainFound p cs = Inr cs' \<Longrightarrow> chain_kept cs cs' \<and> chain_state.more cs' = chain_state.more cs"
  by (auto simp: InvalidChainFound_def chain_kept_def kept_def deref_def split: sum.splits option.splits if_splits)

lemma InvalidBlockFound_kept:
  assumes "InvalidBlockFound p corruption cs = Inr cs'"
  shows "chain_kept cs cs' \<and> chain_state.more cs' = chain_state.more cs"
proof (cases corruption)
  case False
  then obtain b where b: "ns_index cs p = Some b" using assms by (auto simp: InvalidBlockFound_def deref_def split: option.splits)
  define cs1 where "cs1 = erase_candidate p (set_dirty p ((set_entry p (b\<lparr>nStatus := nStatus b OR BLOCK_FAILED_VALID\<rparr>) cs)\<lparr>g_failed_blocks :=
      insort_insert p (g_failed_blocks (set_entry p (b\<lparr>nStatus := nStatus b OR BLOCK_FAILED_VALID\<rparr>) cs))\<rparr>))"
  have "InvalidChainFound p cs1 = Inr cs'" using assms False b by (simp add: InvalidBlockFound_def deref_def Let_def cs1_def)
  moreover have "same_core (ns_index cs) (ns_index cs1)"
    using b by (auto simp: cs1_def entry_core_def intro!: same_core_upd)
  then have "chain_kept cs cs1" "chain_state.more cs1 = chain_state.more cs" by (auto simp: chain_kept_def kept_def cs1_def)
  ultimately show ?thesis using InvalidChainFound_kept chain_kept_trans by metis
qed (use assms in \<open>simp add: InvalidBlockFound_def\<close>)

lemma PruneBlockIndexCandidates_kept:
  "PruneBlockIndexCandidates cs = Inr cs' \<Longrightarrow> chain_kept cs cs' \<and> chain_state.more cs' = chain_state.more cs"
  by (auto simp: PruneBlockIndexCandidates_def chain_kept_def kept_def Let_def split: option.splits if_splits)

lemma coins_update_kept: "chain_kept nd (nd\<lparr>pcoinsTip := v\<rparr>)"
  by (rule chain_kept_cong) simp_all

lemma connect_coins_kept:
  assumes "connect_coins env params B block fc p nd = (r, nd')"
  shows "chain_kept nd nd'"
proof -
  obtain q f view ns where c: "ConnectBlock (node_env.truncate env) params (Cache_ops B) block fc p False
      (CCoinsViewCache_new (pcoinsTip nd)) (node_state.truncate nd) = (q, f, view, ns)"
    by (cases "ConnectBlock (node_env.truncate env) params (Cache_ops B) block fc p False
      (CCoinsViewCache_new (pcoinsTip nd)) (node_state.truncate nd)")
  define nd1 where "nd1 = (put_state ns nd)\<lparr>pcoinsTip := base view\<rparr>"
  have k: "chain_kept nd nd1"
    unfolding nd1_def by (rule chain_kept_trans [OF put_state_kept [OF ConnectBlock_kept [OF c]] coins_update_kept])
  have "nd' = nd1 \<or> settle env B view nd1 = (r, nd') \<or> (\<exists>c. InvalidBlockFound p c nd1 = Inr nd')"
    using assms unfolding connect_coins_def c prod.case Let_def nd1_def [symmetric]
    by (auto split: sum.splits tx_error.splits bool.splits)
  then show ?thesis using k chain_kept_trans settle_kept InvalidBlockFound_kept by metis
qed

lemma disconnect_coins_kept:
  assumes "disconnect_coins env B block b hash nd = (r, nd')"
  shows "chain_kept nd nd'"
  using assms coins_update_kept settle_kept
  by (auto simp: disconnect_coins_def split: prod.splits if_splits sum.splits DisconnectResult.splits)

lemma SetTip_None [simp]: "SetTip H C None = Some (Inr [])"
  by (simp add: SetTip_def)

text \<open>Whatever a move of the tip returns, the tree is kept, and the chain is the old one or the branch of the new tip.\<close>

definition tip_moved :: "'z chain_state_scheme \<Rightarrow> ptr option \<Rightarrow> 'z chain_state_scheme \<Rightarrow> bool" where
  "tip_moved cs p cs' \<longleftrightarrow> kept cs cs' \<and> (chainActive cs' = chainActive cs \<or>
     (case p of None \<Rightarrow> chainActive cs' = []
      | Some q \<Rightarrow> \<exists>b. ns_index cs' q = Some b \<and> chainActive cs' = branch (ns_index cs') q (nHeight b)))"

lemma move_tip_result:
  assumes t: "tree_ok (ns_index nd)" "is_branch (ns_index nd) (chainActive nd)" and p: "\<And>q. p = Some q \<Longrightarrow> ns_index nd q \<noteq> None"
  shows "\<exists>r nd'. move_tip p nd = Some (r, nd') \<and> kept nd nd' \<and> ns_index nd' = ns_index nd \<and> pcoinsTip nd' = pcoinsTip nd \<and>
    (case p of None \<Rightarrow> r = Inl (Fault Bad_pointer) \<and> chainActive nd' = []
     | Some q \<Rightarrow> r = Inr True \<and> (\<exists>b. ns_index nd q = Some b \<and> chainActive nd' = branch (ns_index nd) q (nHeight b)))"
proof (cases p)
  case None
  then show ?thesis by (simp add: move_tip_def kept_def)
next
  case (Some q)
  then obtain b where b: "ns_index nd q = Some b" using p by blast
  then show ?thesis using Some SetTip_branch [OF t b] by (simp add: move_tip_def kept_def)
qed

lemma chain_kept_tree:
  assumes "chain_kept nd nd'" "tree_ok (ns_index nd)" "is_branch (ns_index nd) (chainActive nd)"
  shows "tree_ok (ns_index nd')" "is_branch (ns_index nd') (chainActive nd')"
proof -
  have s: "same_shape (ns_index nd) (ns_index nd')" using assms(1) same_core_shape by (auto simp: chain_kept_def kept_def)
  from same_shape_tree [OF s assms(2)] show "tree_ok (ns_index nd')" .
  from same_shape_branch [OF s assms(3)] show "is_branch (ns_index nd') (chainActive nd')"
    using assms(1) by (simp add: chain_kept_def)
qed

theorem ConnectTip_moves:
  assumes t: "tree_ok (ns_index nd)" "is_branch (ns_index nd) (chainActive nd)"
  shows "\<exists>r nd' pool'. ConnectTip env params B p pblock pool nd = Some ((r, nd'), pool') \<and> tip_moved nd (Some p) nd' \<and>
    (r = Inr True \<longrightarrow> Tip (chainActive nd') = Some p)"
proof (cases "block_to_connect env params p pblock nd")
  case (Inl f)
  then show ?thesis by (simp add: ConnectTip_def tip_moved_def)
next
  case (Inr q)
  show ?thesis
  proof (cases q)
    case None
    then show ?thesis using Inr by (simp add: ConnectTip_def tip_moved_def)
  next
    case (Some bl)
    obtain block fc where bl: "bl = (block, fc)" by (cases bl)
    obtain b where b: "ns_index nd p = Some b"
      using Inr by (auto simp: block_to_connect_def deref_def split: option.splits)
    obtain r1 nd1 where c: "connect_coins env params B block fc p nd = (r1, nd1)" by (cases "connect_coins env params B block fc p nd")
    note k = connect_coins_kept [OF c]
    note t1 = chain_kept_tree [OF k t]
    have "ns_index nd1 p \<noteq> None" using b kept_None [OF chain_kept_kept [OF k], of p] by simp
    then obtain r nd' b1 where m: "move_tip (Some p) nd1 = Some (r, nd')" "kept nd1 nd'" "ns_index nd' = ns_index nd1" "r = Inr True"
      "ns_index nd1 p = Some b1" "chainActive nd' = branch (ns_index nd1) p (nHeight b1)"
      using move_tip_result [OF t1, of "Some p"] by auto
    show ?thesis
    proof (cases "r1 = Inr True")
      case True
      then have "ConnectTip env params B p pblock pool nd =
          Some ((Inr True, nd'), pool_removeForBlock (be_hash env) (tx_usage env) (vtx block) pool)"
        by (simp add: ConnectTip_def Inr Some bl c m(1,4))
      moreover have "tip_moved nd (Some p) nd'"
        using m k kept_trans [OF chain_kept_kept [OF k] m(2)] by (auto simp: tip_moved_def)
      ultimately show ?thesis using m(6) by (simp add: Tip_branch)
    next
      case False
      then have "ConnectTip env params B p pblock pool nd = Some ((r1, nd1), pool)"
        by (auto simp: ConnectTip_def Inr Some bl c split: sum.splits bool.splits)
      then show ?thesis using k False by (simp add: tip_moved_def chain_kept_def)
    qed
  qed
qed

theorem DisconnectTip_moves:
  assumes t: "tree_ok (ns_index nd)" "is_branch (ns_index nd) (chainActive nd)"
    and p: "Tip (chainActive nd) = Some p" and b: "ns_index nd p = Some b"
  shows "\<exists>r nd' pool'. DisconnectTip env params B pool nd = Some ((r, nd'), pool') \<and> tip_moved nd (pprev b) nd' \<and>
    (r = Inr True \<longrightarrow> pprev b \<noteq> None \<and> Tip (chainActive nd') = pprev b)"
proof (cases "bind_sum (read_block env params b nd) (\<lambda>block. bind_sum (GetBlockHash b) (\<lambda>hash. Inr (b, block, hash)))")
  case (Inl f)
  then show ?thesis using p b by (simp add: DisconnectTip_def tip_moved_def deref_def)
next
  case (Inr q)
  obtain ob hash where q: "q = (b, ob, hash)" using Inr by (auto split: sum.splits)
  have u: "DisconnectTip env params B pool nd = (case ob of None \<Rightarrow> Some ((Inr False, nd), pool)
      | Some block \<Rightarrow> (case disconnect_coins env B block b hash nd of
             (Inr True, nd) \<Rightarrow>
               (case queue_block env block pool of
                  Inl f \<Rightarrow> Some ((Inl (Fault f), nd), pool)
                | Inr pool \<Rightarrow> map_option (\<lambda>out. (out, pool)) (move_tip (pprev b) nd))
           | (r, nd) \<Rightarrow> Some ((r, nd), pool)))"
    using Inr b unfolding q by (cases ob) (simp_all add: DisconnectTip_def p deref_def)
  show ?thesis
  proof (cases ob)
    case None
    then show ?thesis using u by (simp add: tip_moved_def)
  next
    case (Some block)
    obtain r1 nd1 where c: "disconnect_coins env B block b hash nd = (r1, nd1)" by (cases "disconnect_coins env B block b hash nd")
    note k = disconnect_coins_kept [OF c]
    note t1 = chain_kept_tree [OF k t]
    show ?thesis
    proof (cases "r1 = Inr True \<and> (\<exists>pool1. queue_block env block pool = Inr pool1)")
      case False
      then have "DisconnectTip env params B pool nd = Some ((r1, nd1), pool) \<and> r1 \<noteq> Inr True \<or>
          (\<exists>f. DisconnectTip env params B pool nd = Some ((Inl f, nd1), pool))"
        using u Some c by (auto split: sum.splits bool.splits)
      then show ?thesis using k by (auto simp: tip_moved_def chain_kept_def)
    next
      case True
      then obtain pool1 where pool1: "queue_block env block pool = Inr pool1" by blast
      have "ns_index nd1 q \<noteq> None" if "pprev b = Some q" for q
        using tree_prev [OF t(1) b that] kept_None [OF chain_kept_kept [OF k], of q] by auto
      from move_tip_result [OF t1 this, of "pprev b"] obtain r nd' where m: "move_tip (pprev b) nd1 = Some (r, nd')" "kept nd1 nd'"
        "ns_index nd' = ns_index nd1"
        "case pprev b of None \<Rightarrow> r = Inl (Fault Bad_pointer) \<and> chainActive nd' = []
         | Some q \<Rightarrow> r = Inr True \<and> (\<exists>b. ns_index nd1 q = Some b \<and> chainActive nd' = branch (ns_index nd1) q (nHeight b))" by auto
      have "DisconnectTip env params B pool nd = Some ((r, nd'), pool1)" using u Some c True pool1 m(1) by simp
      moreover have "tip_moved nd (pprev b) nd'"
        using m kept_trans [OF chain_kept_kept [OF k] m(2)] by (auto simp: tip_moved_def split: option.splits)
      moreover have "r = Inr True \<longrightarrow> pprev b \<noteq> None \<and> Tip (chainActive nd') = pprev b"
        using m(4) Tip_branch by (auto split: option.splits)
      ultimately show ?thesis by blast
    qed
  qed
qed

end
