(* ===== verification/TipCoins.thy ===== *)
theory TipCoins imports TipMove
begin

text \<open>
  The coins of the tip: when \<open>ConnectTip\<close> or \<open>DisconnectTip\<close> succeeds, the best block that the coins name is the new
  tip, so that the assertions on it never fail, and a block that is refused leaves the tip and the coins as they were.
\<close>

definition hashes_set :: "index_heap \<Rightarrow> bool" where
  "hashes_set H \<longleftrightarrow> (\<forall>p b. H p = Some b \<longrightarrow> (\<exists>hash. phashBlock b = Some hash \<and> hash \<noteq> 0))"

lemma same_core_hashes_set: "same_core H H' \<Longrightarrow> hashes_set H \<Longrightarrow> hashes_set H'"
  unfolding hashes_set_def using same_core_at by metis

lemma same_core_distinct: "same_core H H' \<Longrightarrow> distinct_hashes H \<Longrightarrow> distinct_hashes H'"
  by (rule distinct_hashes_same [OF same_core_hashes])

lemma same_core_block_hash:
  assumes "same_core H H'"
  shows "block_hash H' p = block_hash H p"
proof (cases p)
  case (Some q)
  then show ?thesis
    using same_core_None [OF assms, of q] same_core_at [OF assms, of q] by (cases "H' q") (auto simp: block_hash_def)
qed (simp add: block_hash_def)

text \<open>Writing the state refuses no block.\<close>

lemma settle_no_reject: "settle env B view nd = (r, nd') \<Longrightarrow> r \<noteq> Inl (Rejected rj)"
proof -
  have c: "flush_coins e B n \<noteq> Inl (Rejected rj)" for e n
    by (auto simp: flush_coins_def Let_def split: sum.splits prod.splits)
  have w: "fst (flush_write e B m f p ps n) \<noteq> Inl (Rejected rj)" for e m f p ps n
    using c [of e] by (auto simp: flush_write_def split: sum.splits prod.splits if_splits)
  have "fst (FlushStateToDisk e B es m h n) \<noteq> Inl (Rejected rj)" for e es m h n
  proof (cases "flush_prune e es h n")
    case (Inr q)
    obtain ps n1 where q: "q = (ps, n1)" by (cases q)
    obtain full periodic n2 where "FlushStateToDisk e B es m h n =
        (if (full \<or> periodic) \<and> \<not> free_space (ne_disk e) 0 then (Inr False, n2) else flush_write e B m full periodic ps n2)"
      unfolding FlushStateToDisk_def Inr q sum.case prod.case Let_def by blast
    then show ?thesis using w [of e m full periodic ps n2] by simp
  qed (simp add: FlushStateToDisk_def)
  then have "flush_state env B m n \<noteq> (Inl (Rejected rj), nd')" for m n
    unfolding flush_state_def by (metis fst_conv)
  then show "settle env B view nd = (r, nd') \<Longrightarrow> r \<noteq> Inl (Rejected rj)"
    by (auto simp: settle_def Let_def split: sum.splits prod.splits if_splits)
qed

context coins_view
begin

section \<open>Disconnecting keeps the contract\<close>

lemma access_by_txid_cache:
  "cache_ok c \<Longrightarrow> access_by_txid B txid n c = (coin, c') \<Longrightarrow>
   cache_ok c' \<and> cache_contents c' = cache_contents c \<and> cache_best c' = cache_best c"
proof (induction "MAX_OUTPUTS_PER_BLOCK - n" arbitrary: n c)
  case 0
  then show ?case by (simp add: access_by_txid.simps)
next
  case (Suc k)
  then have n: "n < MAX_OUTPUTS_PER_BLOCK" by simp
  obtain a d where ac: "AccessCoin B c (COutPoint txid (of_nat n)) = (a, d)" by (cases "AccessCoin B c (COutPoint txid (of_nat n))")
  note o = AccessCoin_ok [OF Suc.prems(1) ac]
  have "c' = d \<or> access_by_txid B txid (n + 1) d = (coin, c')"
    using Suc.prems(2) n ac by (simp add: access_by_txid.simps [of B txid n] split: if_splits)
  with Suc.hyps(1) [of "n + 1" d] Suc.hyps(2) o show ?case by auto
qed

lemma AddCoin_cache:
  assumes c: "cache_ok c" and a: "AddCoin c p coin overwrite = Inr c'" and n: "overwrite \<or> cache_contents c p = None"
  shows "cache_ok c'"
proof -
  have "\<not> IsSpent coin" using a by (auto simp: AddCoin_def)
  from AddCoin_ok [OF c this n] a show ?thesis by auto
qed

lemma ApplyTxInUndo_cache:
  assumes c: "cache_ok c" and r: "ApplyTxInUndo B undo c p = Inr (r, c')"
  shows "cache_ok c'"
proof -
  obtain b d where h: "Cache_HaveCoin B c p = (b, d)" by (cases "Cache_HaveCoin B c p")
  note o = Cache_HaveCoin_ok [OF c h]
  obtain alt e where e: "AccessByTxid B d (op_hash p) = (alt, e)" by (cases "AccessByTxid B d (op_hash p)")
  then have oe: "cache_ok e" "cache_contents e = cache_contents c"
    using access_by_txid_cache [of d "op_hash p" 0 alt e] o by (simp_all add: AccessByTxid_def)
  have add: "cache_ok c'" if "AddCoin w p coin (\<not> \<not> b) = Inr c'" "cache_ok w" "cache_contents w = cache_contents c" for w coin
    by (rule AddCoin_cache [OF that(2,1)]) (use o that(3) in auto)
  show ?thesis
    using r o oe add unfolding ApplyTxInUndo_def h Let_def prod.case e
    by (auto split: if_splits sum.splits)
qed

lemma restore_inputs_cache:
  "cache_ok c \<Longrightarrow> restore_inputs B us (f, c) = Inr (Some (f', c')) \<Longrightarrow> cache_ok c'"
proof (induction us arbitrary: f c)
  case (Cons u us)
  obtain out undo where u: "u = (out, undo)" by (cases u)
  obtain r d where d: "ApplyTxInUndo B undo c out = Inr (r, d)" "restore_inputs B us (f \<and> r \<noteq> DISCONNECT_UNCLEAN, d) = Inr (Some (f', c'))"
    using Cons.prems(2) u by (auto split: sum.splits if_splits)
  from Cons.IH [OF ApplyTxInUndo_cache [OF Cons.prems(1) d(1)] d(2)] show ?case .
qed simp

lemma spend_outputs_cache:
  "cache_ok c \<Longrightarrow> spend_outputs B cb height txid i vout (f, c) = (f', c') \<Longrightarrow> cache_ok c'"
proof (induction vout arbitrary: i f c)
  case (Cons out vout)
  obtain q e where e: "SpendCoin B c (COutPoint txid (of_nat i)) = (q, e)" by (cases "SpendCoin B c (COutPoint txid (of_nat i))")
  note o = SpendCoin_ok(1) [OF Cons.prems(1) e]
  have "\<exists>g d. cache_ok d \<and> spend_outputs B cb height txid (i + 1) vout (g, d) = (f', c')"
  proof (cases "IsUnspendable (scriptPubKey out)")
    case True
    then show ?thesis using Cons.prems by auto
  next
    case False
    then show ?thesis using Cons.prems(2) o unfolding spend_outputs.simps e prod.case
      by (cases q) (simp_all, blast+)
  qed
  then show ?case using Cons.IH by blast
qed simp

lemma disconnect_txs_cache:
  "cache_ok c \<Longrightarrow> disconnect_txs h B height us (f, c) = Inr (Some (f', c')) \<Longrightarrow> cache_ok c'"
proof (induction us arbitrary: f c)
  case (Cons u us)
  obtain tx undo where u: "u = (tx, undo)" by (cases u)
  obtain g d where sp: "spend_outputs B (IsCoinBase tx) height (GetHash h tx) 0 (tx_vout tx) (f, c) = (g, d)"
    by (cases "spend_outputs B (IsCoinBase tx) height (GetHash h tx) 0 (tx_vout tx) (f, c)")
  obtain g' d' where d: "disconnect_tx h B height tx undo (f, c) = Inr (Some (g', d'))"
    "disconnect_txs h B height us (g', d') = Inr (Some (f', c'))"
    using Cons.prems(2) u by (auto split: sum.splits option.splits)
  have "cache_ok d'"
    using d(1) sp spend_outputs_cache [OF Cons.prems(1) sp]
    by (auto simp: disconnect_tx_def Let_def split: option.splits if_splits dest: restore_inputs_cache)
  from Cons.IH [OF this d(2)] show ?case .
qed simp

lemma DisconnectBlock_cache:
  assumes c: "cache_ok view" and r: "DisconnectBlock h B block height prev undo view = Inr (DISCONNECT_OK, view')"
  shows "cache_ok view' \<and> hashBlock view' = prev"
proof -
  obtain us v f where "disconnect_txs h B height us (True, view) = Inr (Some (f, v))" "view' = SetBestBlock v prev"
    using r by (auto simp: DisconnectBlock_def split: option.splits if_splits sum.splits)
  then show ?thesis using disconnect_txs_cache [OF c] by (simp add: SetBestBlock_def cache_ok_def)
qed

section \<open>The tip and its coins\<close>

definition tip_ok :: "'v node \<Rightarrow> bool" where
  "tip_ok nd \<longleftrightarrow> tree_ok (ns_index nd) \<and> is_branch (ns_index nd) (chainActive nd) \<and> distinct_hashes (ns_index nd) \<and>
     hashes_set (ns_index nd) \<and> cache_ok (pcoinsTip nd) \<and> cache_best (pcoinsTip nd) = block_hash (ns_index nd) (Tip (chainActive nd))"

definition coins_at_tip :: "'v node \<Rightarrow> COutPoint \<rightharpoonup> Coin" where
  "coins_at_tip nd = cache_contents (pcoinsTip nd)"

text \<open>The coins of a view that is written to the tip.\<close>

lemma flush_state_coins:
  assumes c: "cache_ok (pcoinsTip nd)" "distinct_hashes (ns_index nd)" and r: "flush_state env B mode nd = (r, nd')"
  shows "cache_ok (pcoinsTip nd') \<and> cache_contents (pcoinsTip nd') = cache_contents (pcoinsTip nd) \<and>
    cache_best (pcoinsTip nd') = cache_best (pcoinsTip nd)"
  using FlushStateToDisk_ok(1) [OF c r [unfolded flush_state_def]] unfolding flush_safe_def by blast

lemma settle_coins:
  assumes v: "coins_view.cache_ok cache_contents cache_ok view" and h: "hashBlock view \<noteq> 0" and d: "distinct_hashes (ns_index nd)"
    and r: "settle env B view nd = (r, nd')"
  shows "cache_ok (pcoinsTip nd') \<and> cache_contents (pcoinsTip nd') = coins_view.cache_contents cache_contents view \<and>
    cache_best (pcoinsTip nd') = hashBlock view"
proof -
  obtain view' where f: "Flush (Cache_ops B) view = Inr (True, view')" "cache_ok (base view')"
    "cache_contents (base view') = coins_view.cache_contents cache_contents view"
    "cache_best (base view') = coins_view.cache_best cache_best view"
    using coins_view.Flush_ok [OF cache_is_view v h] coins_view.cache_ok_def [OF cache_is_view] by blast
  have "coins_view.cache_best cache_best view = hashBlock view" using h by (simp add: coins_view.cache_best_def [OF cache_is_view])
  moreover have "flush_state env B FLUSH_STATE_IF_NEEDED (nd\<lparr>pcoinsTip := base view'\<rparr>) = (r, nd')"
    using r by (simp add: settle_def f(1))
  note flush_state_coins [OF _ _ this]
  ultimately show ?thesis using f(2-4) d by simp
qed

lemma reads_tip:
  assumes "reads (Cache_ops B) c c'" "cache_ok c"
  shows "cache_ok c' \<and> cache_contents c' = cache_contents c \<and> cache_best c' = cache_best c"
  by (rule coins_view.reads_ok [OF cache_is_view assms])

text \<open>A block that is refused, or that cannot be undone, leaves the coins.\<close>

lemma new_view:
  assumes "cache_ok (pcoinsTip nd)"
  shows "coins_view.cache_ok cache_contents cache_ok (CCoinsViewCache_new (pcoinsTip nd))"
    "coins_view.cache_contents cache_contents (CCoinsViewCache_new (pcoinsTip nd)) = cache_contents (pcoinsTip nd)"
    "coins_view.cache_best cache_best (CCoinsViewCache_new (pcoinsTip nd)) = cache_best (pcoinsTip nd)"
  using coins_view.cache_new_ok [OF cache_is_view] assms by simp_all

lemma CCoinsViewCache_new_base [simp]: "base (CCoinsViewCache_new b) = b"
  by (simp add: CCoinsViewCache_new_def)

theorem connect_coins_ok:
  assumes t: "tip_ok nd" and b: "ns_index nd p = Some b"
    and r: "connect_coins env params B block False p nd = (r, nd')"
  shows "r = Inl (Rejected rj) \<Longrightarrow> cache_ok (pcoinsTip nd') \<and> cache_contents (pcoinsTip nd') = cache_contents (pcoinsTip nd) \<and>
      cache_best (pcoinsTip nd') = cache_best (pcoinsTip nd)"
    and "r = Inr True \<Longrightarrow> txs_new (be_hash env) (int (nHeight b)) (vtx block) (cache_contents (pcoinsTip nd)) \<Longrightarrow>
      cache_ok (pcoinsTip nd') \<and> phashBlock b = Some (cache_best (pcoinsTip nd')) \<and>
      cache_contents (pcoinsTip nd') = apply_txs (be_hash env) (int (nHeight b)) (vtx block) (cache_contents (pcoinsTip nd))"
proof -
  have c: "cache_ok (pcoinsTip nd)" and dh: "distinct_hashes (ns_index nd)" and hs: "hashes_set (ns_index nd)"
    using t by (simp_all add: tip_ok_def)
  obtain q f view ns where cb: "ConnectBlock (node_env.truncate env) params (Cache_ops B) block False p False
      (CCoinsViewCache_new (pcoinsTip nd)) (node_state.truncate nd) = (q, f, view, ns)"
    by (cases "ConnectBlock (node_env.truncate env) params (Cache_ops B) block False p False
      (CCoinsViewCache_new (pcoinsTip nd)) (node_state.truncate nd)")
  define nd1 where "nd1 = (put_state ns nd)\<lparr>pcoinsTip := base view\<rparr>"
  note r1 = r [unfolded connect_coins_def cb prod.case Let_def, folded nd1_def]
  have k1: "chain_kept nd nd1"
    unfolding nd1_def by (rule chain_kept_trans [OF put_state_kept [OF ConnectBlock_kept [OF cb]] coins_update_kept])
  have rd: "cache_ok (pcoinsTip nd1) \<and> cache_contents (pcoinsTip nd1) = cache_contents (pcoinsTip nd) \<and>
      cache_best (pcoinsTip nd1) = cache_best (pcoinsTip nd)"
    using reads_tip [OF ConnectBlock_reads [OF cb, unfolded CCoinsViewCache_new_base] c] by (simp add: nd1_def)
  show "cache_ok (pcoinsTip nd') \<and> cache_contents (pcoinsTip nd') = cache_contents (pcoinsTip nd) \<and>
      cache_best (pcoinsTip nd') = cache_best (pcoinsTip nd)" if rr: "r = Inl (Rejected rj)"
  proof (cases "q = Inr True")
    case True
    then have "settle env B view nd1 = (Inl (Rejected rj), nd')" using r1 rr by simp
    then show ?thesis using settle_no_reject by blast
  next
    case False
    then have "nd' = nd1 \<or> (\<exists>c. InvalidBlockFound p c nd1 = Inr nd')"
      using r1 by (auto split: sum.splits tx_error.splits bool.splits)
    then have "pcoinsTip nd' = pcoinsTip nd1" using InvalidBlockFound_kept more_coins by metis
    then show ?thesis using rd by simp
  qed
  show "cache_ok (pcoinsTip nd') \<and> phashBlock b = Some (cache_best (pcoinsTip nd')) \<and>
      cache_contents (pcoinsTip nd') = apply_txs (be_hash env) (int (nHeight b)) (vtx block) (cache_contents (pcoinsTip nd))"
    if rr: "r = Inr True" and new: "txs_new (be_hash env) (int (nHeight b)) (vtx block) (cache_contents (pcoinsTip nd))"
  proof -
    have q: "q = Inr True" using r1 rr by (auto split: sum.splits tx_error.splits bool.splits)
    then have st: "settle env B view nd1 = (r, nd')" using r1 by simp
    have bt: "ns_index (node_state.truncate nd) p = Some b" using b by simp
    have he: "be_hash (node_env.truncate env) = be_hash env" by (simp add: node_env.truncate_def)
    note o1 = coins_view.ConnectBlock_ok(1) [OF cache_is_view new_view(1) [OF c] bt cb [unfolded q]]
    note o = o1 [unfolded new_view(2) [OF c] he, OF new]
    have v: "coins_view.cache_ok cache_contents cache_ok view"
      "coins_view.cache_contents cache_contents view = apply_txs (be_hash env) (int (nHeight b)) (vtx block) (cache_contents (pcoinsTip nd))"
      "hashBlock view = BlockHeader_GetHash (be_hash env) (GetBlockHeader block)" using o by simp_all
    have ph: "phashBlock b = Some (hashBlock view)"
      using conjunct2 [OF conjunct2 [OF ConnectBlock_stages [OF cb [unfolded q] bt]]] by (simp only: v(3) he)
    have "\<exists>hash. phashBlock b = Some hash \<and> hash \<noteq> 0" using hs b unfolding hashes_set_def by blast
    then have "hashBlock view \<noteq> 0" using ph by auto
    moreover have "distinct_hashes (ns_index nd1)" using k1 same_core_distinct [OF _ dh, of "ns_index nd1"] by (simp add: chain_kept_def kept_def)
    ultimately have "cache_ok (pcoinsTip nd') \<and> cache_contents (pcoinsTip nd') = coins_view.cache_contents cache_contents view \<and>
        cache_best (pcoinsTip nd') = hashBlock view" using settle_coins [OF v(1) _ _ st] by blast
    then show ?thesis using v(2) ph by simp
  qed
qed

theorem disconnect_coins_ok:
  assumes t: "tip_ok nd" and p: "Tip (chainActive nd) = Some p" and b: "ns_index nd p = Some b" "phashBlock b = Some hash"
    and prev: "pprev b \<noteq> None" and r: "disconnect_coins env B block b hash nd = (r, nd')"
  shows "r = Inr True \<Longrightarrow> cache_ok (pcoinsTip nd') \<and> cache_best (pcoinsTip nd') = block_hash (ns_index nd) (pprev b)"
proof -
  have c: "cache_ok (pcoinsTip nd)" and dh: "distinct_hashes (ns_index nd)" and hs: "hashes_set (ns_index nd)" and T: "tree_ok (ns_index nd)"
    and best: "cache_best (pcoinsTip nd) = hash" using t p b by (simp_all add: tip_ok_def block_hash_def)
  note n = new_view [OF c]
  obtain h view where g: "Cache_GetBestBlock (Cache_ops B) (CCoinsViewCache_new (pcoinsTip nd)) = (h, view)"
    by (cases "Cache_GetBestBlock (Cache_ops B) (CCoinsViewCache_new (pcoinsTip nd))")
  have v: "h = hash" "coins_view.cache_ok cache_contents cache_ok view"
    using coins_view.Cache_GetBestBlock_ok [OF cache_is_view n(1) g] n(3) best by simp_all
  obtain q a where q: "pprev b = Some q" "ns_index nd q = Some a" using prev tree_prev [OF T b(1)] by blast
  obtain ph where ph: "phashBlock a = Some ph" "ph \<noteq> 0" using hs q(2) unfolding hashes_set_def by blast
  have hp: "hash_of_prev (ns_index nd) b = Inr ph" using q ph by (simp add: hash_of_prev_def deref_def GetBlockHash_def)
  note r1 = r [unfolded disconnect_coins_def g prod.case v(1), simplified]
  show "cache_ok (pcoinsTip nd') \<and> cache_best (pcoinsTip nd') = block_hash (ns_index nd) (pprev b)" if rr: "r = Inr True"
  proof -
    obtain view' where d: "disconnect_view env B block b view nd = Inr (DISCONNECT_OK, view')" "settle env B view' nd = (r, nd')"
      using r1 rr by (auto split: sum.splits prod.splits DisconnectResult.splits)
    then have "DisconnectBlock (be_hash env) (Cache_ops B) block (nHeight b) ph
        (UndoReadFromDisk (be_hash env) (GetUndoPos b) ph (ns_disk nd)) view = Inr (DISCONNECT_OK, view')"
      by (simp add: disconnect_view_def hp lift_fault_def)
    from coins_view.DisconnectBlock_cache [OF cache_is_view v(2) this] have
      "coins_view.cache_ok cache_contents cache_ok view'" "hashBlock view' = ph" by simp_all
    from settle_coins [OF this(1) _ dh d(2)] this(2) ph(2) show ?thesis using q ph by (simp add: block_hash_def)
  qed
qed

section \<open>The moves keep the tip\<close>

lemma tip_ok_kept:
  assumes t: "tip_ok nd" and k: "kept nd nd'" and b: "is_branch (ns_index nd') (chainActive nd')"
    and c: "cache_ok (pcoinsTip nd')" "cache_best (pcoinsTip nd') = block_hash (ns_index nd) (Tip (chainActive nd'))"
  shows "tip_ok nd'"
proof -
  have s: "same_core (ns_index nd) (ns_index nd')" using k by (simp add: kept_def)
  show ?thesis using t b c same_shape_tree [OF same_core_shape [OF s]] same_core_distinct [OF s] same_core_hashes_set [OF s]
    by (simp add: tip_ok_def same_core_block_hash [OF s])
qed

theorem ConnectTip_ok:
  assumes t: "tip_ok nd" and bl: "block_to_connect env params p pblock nd = Inr (Some (block, False))" and b: "ns_index nd p = Some b"
    and r: "ConnectTip env params B p pblock pool nd = Some ((r, nd'), pool')"
  shows "r = Inl (Rejected rj) \<Longrightarrow> tip_ok nd' \<and> chainActive nd' = chainActive nd \<and> coins_at_tip nd' = coins_at_tip nd"
    and "r = Inr True \<Longrightarrow> txs_new (be_hash env) (int (nHeight b)) (vtx block) (coins_at_tip nd) \<Longrightarrow>
      tip_ok nd' \<and> Tip (chainActive nd') = Some p \<and>
      coins_at_tip nd' = apply_txs (be_hash env) (int (nHeight b)) (vtx block) (coins_at_tip nd)"
proof -
  have T: "tree_ok (ns_index nd)" "is_branch (ns_index nd) (chainActive nd)" using t by (simp_all add: tip_ok_def)
  obtain r1 nd1 where c: "connect_coins env params B block False p nd = (r1, nd1)" by (cases "connect_coins env params B block False p nd")
  note k = connect_coins_kept [OF c]
  note ok = connect_coins_ok [OF t b c]
  note t1 = chain_kept_tree [OF k T]
  have s: "same_core (ns_index nd) (ns_index nd1)" using k by (simp add: chain_kept_def kept_def)
  have "ns_index nd1 p \<noteq> None" using b kept_None [OF chain_kept_kept [OF k], of p] by simp
  then obtain nd2 b1 where m: "move_tip (Some p) nd1 = Some (Inr True, nd2)" "kept nd1 nd2" "ns_index nd2 = ns_index nd1"
    "pcoinsTip nd2 = pcoinsTip nd1" "ns_index nd1 p = Some b1" "chainActive nd2 = branch (ns_index nd1) p (nHeight b1)"
    using move_tip_result [OF t1, of "Some p"] by auto
  have res: "(r1 = Inr True \<and> r = Inr True \<and> nd' = nd2) \<or> (r1 \<noteq> Inr True \<and> r = r1 \<and> nd' = nd1)"
    using r bl c m(1) by (auto simp: ConnectTip_def split: sum.splits bool.splits)
  show "tip_ok nd' \<and> chainActive nd' = chainActive nd \<and> coins_at_tip nd' = coins_at_tip nd" if "r = Inl (Rejected rj)"
  proof -
    have e: "r1 = Inl (Rejected rj)" "nd' = nd1" using res that by auto
    have "chainActive nd1 = chainActive nd" using k by (simp add: chain_kept_def)
    then show ?thesis using ok(1) [OF e(1)] tip_ok_kept [OF t chain_kept_kept [OF k] t1(2)] t
      by (simp add: e(2) coins_at_tip_def tip_ok_def)
  qed
  show "tip_ok nd' \<and> Tip (chainActive nd') = Some p \<and>
      coins_at_tip nd' = apply_txs (be_hash env) (int (nHeight b)) (vtx block) (coins_at_tip nd)"
    if "r = Inr True" "txs_new (be_hash env) (int (nHeight b)) (vtx block) (coins_at_tip nd)"
  proof -
    have e: "r1 = Inr True" "nd' = nd2" using res that(1) by auto
    have o: "cache_ok (pcoinsTip nd1)" "phashBlock b = Some (cache_best (pcoinsTip nd1))"
      "cache_contents (pcoinsTip nd1) = apply_txs (be_hash env) (int (nHeight b)) (vtx block) (coins_at_tip nd)"
      using ok(2) [OF e(1)] that(2) by (simp_all add: coins_at_tip_def)
    have "is_branch (ns_index nd2) (chainActive nd2)" using m(3,5,6) is_branchI by metis
    moreover have "Tip (chainActive nd2) = Some p" by (simp add: m(6) Tip_branch)
    moreover have "cache_best (pcoinsTip nd2) = block_hash (ns_index nd) (Some p)"
      using o(2) b by (simp add: m(4) block_hash_def)
    ultimately show ?thesis
      using tip_ok_kept [OF t kept_trans [OF chain_kept_kept [OF k] m(2)]] o by (simp add: e(2) m(4) coins_at_tip_def)
  qed
qed

theorem DisconnectTip_ok:
  assumes t: "tip_ok nd" and p: "Tip (chainActive nd) = Some p" "ns_index nd p = Some b"
    and r: "DisconnectTip env params B pool nd = Some ((Inr True, nd'), pool')"
  shows "tip_ok nd' \<and> pprev b \<noteq> None \<and> Tip (chainActive nd') = pprev b"
proof -
  have T: "tree_ok (ns_index nd)" "is_branch (ns_index nd) (chainActive nd)" using t by (simp_all add: tip_ok_def)
  obtain hash where hash: "phashBlock b = Some hash" using t p(2) unfolding tip_ok_def hashes_set_def by blast
  obtain block where bl: "read_block env params b nd = Inr (Some block)"
    using r p hash by (auto simp: DisconnectTip_def deref_def GetBlockHash_def split: sum.splits option.splits)
  obtain r1 nd1 where c: "disconnect_coins env B block b hash nd = (r1, nd1)" by (cases "disconnect_coins env B block b hash nd")
  have e: "r1 = Inr True" "\<exists>pool1. queue_block env block pool = Inr pool1 \<and> map_option (\<lambda>out. (out, pool1)) (move_tip (pprev b) nd1) = Some ((Inr True, nd'), pool')"
    using r p hash bl c by (auto simp: DisconnectTip_def deref_def GetBlockHash_def split: sum.splits bool.splits)
  note k = disconnect_coins_kept [OF c]
  note t1 = chain_kept_tree [OF k T]
  have "ns_index nd1 q \<noteq> None" if "pprev b = Some q" for q
    using tree_prev [OF T(1) p(2) that] kept_None [OF chain_kept_kept [OF k], of q] by auto
  from move_tip_result [OF t1 this, of "pprev b"] e(2) obtain q b1 where m: "pprev b = Some q" "kept nd1 nd'" "ns_index nd' = ns_index nd1"
    "pcoinsTip nd' = pcoinsTip nd1" "ns_index nd1 q = Some b1" "chainActive nd' = branch (ns_index nd1) q (nHeight b1)"
    by (auto split: option.splits)
  have "cache_ok (pcoinsTip nd1)" "cache_best (pcoinsTip nd1) = block_hash (ns_index nd) (pprev b)"
    using disconnect_coins_ok(1) [OF t p hash _ c e(1)] m(1) by simp_all
  moreover have "is_branch (ns_index nd') (chainActive nd')" using m(3,5,6) is_branchI by metis
  moreover have "Tip (chainActive nd') = pprev b" by (simp add: m(1,6) Tip_branch)
  ultimately show ?thesis
    using tip_ok_kept [OF t kept_trans [OF chain_kept_kept [OF k] m(2)]] m(1) by (simp add: m(4))
qed

end

end
