(* ===== verification/BestTip.thy ===== *)
theory BestTip imports TipCoins
begin

text \<open>
  \<open>ActivateBestChain\<close> as a whole.  The locale \<open>node_moves\<close> is the contract between the single moves of the tip and
  the loops over them: what every move keeps, the loops keep.  Its interpretation shows that no run changes the
  tree, and from that follows that a run that succeeds leaves no candidate that is better than the tip.
\<close>

section \<open>The contract of the moves\<close>

locale node_moves =
  fixes env :: "('n, 'v) chain_env" and params :: Chain_Params and B :: "'v view_ops" and Inv :: "'v node \<Rightarrow> bool"
  assumes connect: "Inv nd \<Longrightarrow> ConnectTip env params B p pblock pool nd = Some ((r, nd'), pool') \<Longrightarrow> Inv nd'"
    and disconnect: "Inv nd \<Longrightarrow> DisconnectTip env params B dpool nd = Some ((r, nd'), dpool') \<Longrightarrow> Inv nd'"
    and prune: "Inv nd \<Longrightarrow> PruneBlockIndexCandidates nd = Inr nd' \<Longrightarrow> Inv nd'"
    and invalid: "Inv nd \<Longrightarrow> InvalidChainFound p nd = Inr nd' \<Longrightarrow> Inv nd'"
    and search: "Inv nd \<Longrightarrow> FindMostWorkChain nd = Some (Inr (found, nd')) \<Longrightarrow> Inv nd'"
    and mempool: "Inv nd \<Longrightarrow> UpdateMempoolForReorg env txs add nd = Inr nd' \<Longrightarrow> Inv nd'"
    and flush: "Inv nd \<Longrightarrow> flush_state env B mode nd = (r, nd') \<Longrightarrow> Inv nd'"
begin

lemma disconnect_to_inv:
  "disconnect_to e pa b fork pool nd = Some y \<Longrightarrow> e = env \<Longrightarrow> pa = params \<Longrightarrow> b = B \<Longrightarrow> Inv nd \<Longrightarrow> Inv (snd (fst y))"
proof (induction rule: disconnect_to.raw_induct [rotated, consumes 1, case_names 1])
  case (1 rec e pa b fork pool nd y)
  show ?case
  proof (cases "Tip (chainActive nd) = None \<or> Tip (chainActive nd) = fork")
    case True
    then show ?thesis using 1 by auto
  next
    case False
    then obtain r nd1 pool1 where d: "DisconnectTip env params B pool nd = Some ((r, nd1), pool1)"
      "(if r = Inr True then rec env params B fork pool1 nd1 else Some ((r, nd1), pool1)) = Some y"
      using 1 by (auto split: bind_splits prod.splits)
    have "Inv nd1" by (rule disconnect [OF 1(6) d(1)])
    then show ?thesis using d(2) 1(1) by (auto split: if_splits)
  qed
qed

lemma after_connect_inv: "Inv (snd out) \<Longrightarrow> after_connect oldWork lowest out = (r, nd') \<Longrightarrow> Inv nd'"
  by (cases out) (auto simp: after_connect_def dest: prune invalid split: sum.splits tx_error.splits bool.splits if_splits)

lemma connect_blocks_inv:
  "connect_blocks env params B oldWork p pblock lowest ps pool nd = Some (r, pool', nd') \<Longrightarrow> Inv nd \<Longrightarrow> Inv nd'"
proof (induction ps arbitrary: pool nd)
  case (Cons q ps)
  obtain out pool1 where c: "ConnectTip env params B q (if q = p then pblock else None) pool nd = Some (out, pool1)"
    using Cons.prems(1) by (auto split: bind_splits)
  have "Inv (snd out)" using connect [of nd q _ pool "fst out" "snd out" pool1] c Cons.prems(2) by simp
  moreover obtain s nd1 where a: "after_connect oldWork lowest out = (s, nd1)" by (cases "after_connect oldWork lowest out")
  ultimately have "Inv nd1" by (rule after_connect_inv)
  then show ?case using Cons.prems(1) Cons.IH c a by (auto split: option.splits)
qed simp

lemma connect_up_inv:
  "connect_up e pa b oldWork p high pblock height pool nd = Some y \<Longrightarrow> e = env \<Longrightarrow> pa = params \<Longrightarrow> b = B \<Longrightarrow> Inv nd \<Longrightarrow>
   Inv (snd (snd y))"
proof (induction rule: connect_up.raw_induct [rotated, consumes 1, case_names 1])
  case (1 rec e pa b oldWork p high pblock height pool nd y)
  show ?case
  proof (cases "height = high")
    case True
    then show ?thesis using 1 by auto
  next
    case False
    then obtain q where q: "next_blocks nd p height (min (height + 32) high) = Some q" using 1(2) by (auto split: bind_splits)
    show ?thesis
    proof (cases q)
      case (Inl f)
      then show ?thesis using 1 False q by auto
    next
      case (Inr ps)
      obtain s pool1 nd1 where c: "connect_blocks env params B oldWork p pblock (hd (ps @ [p])) ps pool nd = Some (s, pool1, nd1)"
        "(if s = Step_done False True then rec env params B oldWork p high pblock (min (height + 32) high) pool1 nd1
          else Some (s, pool1, nd1)) = Some y"
        using 1(2-5) False q Inr by (auto split: bind_splits prod.splits)
      have "Inv nd1" by (rule connect_blocks_inv [OF c(1) 1(6)])
      then show ?thesis using c(2) 1(1) by (auto split: if_splits)
    qed
  qed
qed

lemma update_pool_inv: "Inv nd \<Longrightarrow> update_pool env add res pool nd = (r, nd') \<Longrightarrow> Inv nd'"
  by (auto simp: update_pool_def dest: mempool split: sum.splits)

lemma finish_step_inv: "Inv (snd (snd s)) \<Longrightarrow> finish_step env moved s = (r, nd') \<Longrightarrow> Inv nd'"
  by (cases s) (auto simp: finish_step_def dest: update_pool_inv split: step_result.splits if_splits)

theorem step_inv:
  assumes inv: "Inv nd" and r: "ActivateBestChainStep env params B p pblock nd = Some (r, nd')"
  shows "Inv nd'"
proof -
  obtain f where f: "FindFork (ns_index nd) (chainActive nd) (Some p) = Some f"
    using r by (auto simp: ActivateBestChainStep_def split: bind_splits)
  show ?thesis
  proof (cases "bind_sum f (\<lambda>fork. bind_sum (work_of nd (Tip (chainActive nd))) (\<lambda>oldWork.
           bind_sum (height_of nd fork) (\<lambda>low. bind_sum (height_of nd (Some p)) (\<lambda>high. Inr (fork, oldWork, low, high)))))")
    case (Inl e)
    then show ?thesis using r f inv unfolding ActivateBestChainStep_def by simp
  next
    case (Inr q)
    obtain fork oldWork low high where q: "q = (fork, oldWork, low, high)" by (cases q)
    note r1 = r [unfolded ActivateBestChainStep_def f bind.bind_lunit Inr q sum.case prod.case Let_def]
    obtain d nd1 dpool where d: "disconnect_to env params B fork (Some DisconnectedBlockTransactions_new) nd = Some ((d, nd1), dpool)"
      using r1 by (auto split: bind_splits)
    have i1: "Inv nd1" using disconnect_to_inv [OF d refl refl refl inv] by simp
    show ?thesis
    proof (cases d)
      case (Inl e)
      then show ?thesis using r1 d i1 by simp
    next
      case (Inr b)
      show ?thesis
      proof (cases b)
        case False
        then show ?thesis using r1 d Inr update_pool_inv [OF i1] by simp
      next
        case True
        then obtain s where s: "connect_up env params B oldWork p high pblock low
            (case dpool of None \<Rightarrow> DisconnectedBlockTransactions_new | Some pool \<Rightarrow> pool) nd1 = Some s"
          and e: "\<exists>moved. finish_step env moved s = (r, nd')"
          using r1 d Inr by auto
        from connect_up_inv [OF s refl refl refl i1] e show ?thesis using finish_step_inv by blast
      qed
    qed
  qed
qed

lemma activate_loop_inv:
  "activate_loop e pa b pblock best nd = Some y \<Longrightarrow> e = env \<Longrightarrow> pa = params \<Longrightarrow> b = B \<Longrightarrow> Inv nd \<Longrightarrow> Inv (snd y)"
proof (induction rule: activate_loop.raw_induct [rotated, consumes 1, case_names 1])
  case (1 rec e pa b pblock best nd y)
  obtain f where f: "(case best of None \<Rightarrow> FindMostWorkChain nd | Some p \<Rightarrow> Some (Inr (Some p, nd))) = Some f"
    using 1(2) by (auto split: bind_splits)
  show ?case
  proof (cases f)
    case (Inl e')
    then show ?thesis using 1(2,6) f by auto
  next
    case (Inr q)
    obtain found nd1 where q: "q = (found, nd1)" by (cases q)
    have i1: "Inv nd1" using f search [OF 1(6)] 1(6) unfolding Inr q by (auto split: option.splits)
    note y = 1(2) [unfolded 1(3-5) f bind.bind_lunit Inr q sum.case prod.case]
    show ?thesis
    proof (cases "\<exists>p bl. found = Some p \<and> Tip (chainActive nd1) \<noteq> Some p \<and> block_for env nd1 p pblock = Inr bl")
      case False
      then have "snd y = nd1" using y by (auto split: option.splits if_splits sum.splits)
      then show ?thesis using i1 by simp
    next
      case True
      then obtain p bl where p: "found = Some p" "Tip (chainActive nd1) \<noteq> Some p" "block_for env nd1 p pblock = Inr bl" by blast
      obtain r nd2 where s: "ActivateBestChainStep env params B p bl nd1 = Some (r, nd2)" using y p by (auto split: bind_splits)
      have i2: "Inv nd2" by (rule step_inv [OF i1 s])
      have "snd y = nd2 \<or> (\<exists>best'. rec env params B pblock best' nd2 = Some y)"
        using y p s by (auto split: sum.splits prod.splits if_splits)
      then show ?thesis using i2 1(1) by blast
    qed
  qed
qed

theorem ActivateBestChain_inv:
  assumes inv: "Inv nd" and r: "ActivateBestChain env params B pblock nd = Some (r, nd')"
  shows "Inv nd'"
proof -
  obtain q nd1 where q: "activate_loop env params B pblock None nd = Some (q, nd1)"
    using r by (auto simp: ActivateBestChain_def split: bind_splits)
  have "Inv nd1" using activate_loop_inv [OF q refl refl refl inv] by simp
  then show ?thesis using r q flush by (auto simp: ActivateBestChain_def split: sum.splits if_splits)
qed

end

section \<open>No run changes the tree\<close>

lemma drop_path_kept:
  "drop_path f target p cs = Some y \<Longrightarrow> y = Inr cs' \<Longrightarrow> chain_kept cs cs' \<and> chain_state.more cs' = chain_state.more cs"
proof (induction arbitrary: cs' rule: drop_path.raw_induct [rotated, consumes 1, case_names 1])
  case (1 rec f target p cs y cs')
  show ?case
  proof (cases "p = target")
    case True
    then show ?thesis using 1(2,3) by (auto simp: chain_kept_def kept_def)
  next
    case False
    then obtain b q where b: "ns_index cs p = Some b" "pprev b = Some q"
      using 1(2,3) by (auto split: option.splits)
    define cs1 where "cs1 = (if f then set_entry p (b\<lparr>nStatus := nStatus b OR BLOCK_FAILED_CHILD\<rparr>) cs
        else cs\<lparr>mapBlocksUnlinked := mapBlocksUnlinked cs @ [(q, p)]\<rparr>)"
    have "same_core (ns_index cs) (ns_index cs1)"
      using b by (auto simp: cs1_def entry_core_def intro!: same_core_upd)
    then have k: "chain_kept cs (erase_candidate p cs1)" "chain_state.more (erase_candidate p cs1) = chain_state.more cs"
      by (auto simp: chain_kept_def kept_def cs1_def)
    have "rec f target q (erase_candidate p cs1) = Some y"
      using 1(2) False b by (simp add: cs1_def Let_def)
    from 1(1) [OF this 1(3)] k show ?thesis using chain_kept_trans by metis
  qed
qed

lemma note_invalid_kept: "note_invalid p cs = Inr cs' \<Longrightarrow> chain_kept cs cs' \<and> chain_state.more cs' = chain_state.more cs"
  by (auto simp: note_invalid_def chain_kept_def kept_def deref_def split: sum.splits option.splits if_splits)

lemma FindMostWorkChain_kept:
  "FindMostWorkChain cs = Some y \<Longrightarrow> y = Inr (r, cs') \<Longrightarrow> chain_kept cs cs' \<and> chain_state.more cs' = chain_state.more cs"
proof (induction arbitrary: r cs' rule: FindMostWorkChain.raw_induct [rotated, consumes 1, case_names 1])
  case (1 rec cs y r cs')
  show ?case
  proof (cases "best_candidate (ns_index cs) (setBlockIndexCandidates cs)")
    case None
    then show ?thesis using 1(2,3) by simp
  next
    case (Some p)
    then obtain u where u: "unusable_on_path (ns_index cs) (chainActive cs) (Some p) = Some u" using 1(2) by (auto split: bind_splits)
    show ?thesis
    proof (cases "\<exists>tf. u = Inr (Some tf)")
      case False
      then show ?thesis using 1(2,3) Some u by (auto split: sum.splits option.splits)
    next
      case True
      then obtain tf where tf: "u = Inr (Some tf)" by blast
      note y = 1(2) [unfolded Some option.case u bind.bind_lunit tf sum.case 1(3)]
      obtain cs1 where c1: "(if snd tf then note_invalid p cs else Inr cs) = Inr cs1" using y by (auto split: sum.splits)
      obtain d where d: "drop_path (snd tf) (fst tf) p cs1 = Some d" using y c1 by (auto split: bind_splits)
      obtain cs2 where cs2: "d = Inr cs2" "rec cs2 = Some (Inr (r, cs'))" using y c1 d by (auto split: sum.splits)
      have "chain_kept cs cs1 \<and> chain_state.more cs1 = chain_state.more cs" using c1 note_invalid_kept by (auto split: if_splits)
      moreover note drop_path_kept [OF d cs2(1)] 1(1) [OF cs2(2) refl]
      ultimately show ?thesis using chain_kept_trans by metis
    qed
  qed
qed

text \<open>The memory pool reads coins and may flush, but it does not touch the chain.\<close>

definition pool_safe :: "('n, 'v) chain_env \<Rightarrow> bool" where
  "pool_safe env \<longleftrightarrow> (\<forall>txs add nd nd'. UpdateMempoolForReorg env txs add nd = Inr nd' \<longrightarrow> chain_kept nd nd')"

definition descends :: "'v node \<Rightarrow> 'v node \<Rightarrow> bool" where
  "descends nd0 nd \<longleftrightarrow> kept nd0 nd \<and> tree_ok (ns_index nd) \<and> is_branch (ns_index nd) (chainActive nd)"

lemma descends_chain: "descends nd0 nd \<Longrightarrow> chain_kept nd nd' \<Longrightarrow> descends nd0 nd'"
proof -
  assume d: "descends nd0 nd" and k: "chain_kept nd nd'"
  have "tree_ok (ns_index nd)" "is_branch (ns_index nd) (chainActive nd)" "kept nd0 nd" using d by (simp_all add: descends_def)
  then show ?thesis using chain_kept_tree [OF k] kept_trans [OF _ chain_kept_kept [OF k]] by (simp add: descends_def)
qed

lemma descends_moved:
  assumes d: "descends nd0 nd" and m: "tip_moved nd p nd'"
  shows "descends nd0 nd'"
proof -
  have k: "kept nd nd'" using m by (simp add: tip_moved_def)
  then have s: "same_shape (ns_index nd) (ns_index nd')" using same_core_shape by (auto simp: kept_def)
  have "is_branch (ns_index nd') (chainActive nd')"
    using m d same_shape_branch [OF s] is_branchI by (auto simp: tip_moved_def descends_def split: option.splits)
  then show ?thesis using d kept_trans [OF _ k] same_shape_tree [OF s] by (auto simp: descends_def)
qed

lemma DisconnectTip_no_tip: "DisconnectTip env params B pool nd = Some ((r, nd'), pool') \<Longrightarrow> Tip (chainActive nd) = None \<Longrightarrow> nd' = nd"
  by (simp add: DisconnectTip_def)

lemma tip_of_branch:
  assumes "is_branch H C" "Tip C = Some p"
  shows "\<exists>b. H p = Some b \<and> C = branch H p (nHeight b)"
proof -
  have "C \<noteq> []" using assms(2) by (auto simp: Tip_def)
  then obtain q b where "H q = Some b" "C = branch H q (nHeight b)" using assms(1) by (auto simp: is_branch_def)
  moreover have "q = p" using assms(2) calculation Tip_branch by (metis option.sel)
  ultimately show ?thesis by blast
qed

interpretation run: node_moves env params B "\<lambda>nd. pool_safe env \<longrightarrow> descends nd0 nd" for env params B nd0
proof
  fix nd nd' and p q :: ptr and pblock pool pool' r dpool dpool' found txs add mode
  show "pool_safe env \<longrightarrow> descends nd0 nd'"
    if i: "pool_safe env \<longrightarrow> descends nd0 nd" and r: "ConnectTip env params B p pblock pool nd = Some ((r, nd'), pool')"
  proof
    assume "pool_safe env"
    with i have d: "descends nd0 nd" by blast
    with ConnectTip_moves [of nd env params B p pblock pool] r show "descends nd0 nd'"
      using descends_moved [OF d] by (auto simp: descends_def)
  qed
  show "pool_safe env \<longrightarrow> descends nd0 nd'"
    if i: "pool_safe env \<longrightarrow> descends nd0 nd" and r: "DisconnectTip env params B dpool nd = Some ((r, nd'), dpool')"
  proof
    assume "pool_safe env"
    with i have d: "descends nd0 nd" by blast
    show "descends nd0 nd'"
    proof (cases "Tip (chainActive nd)")
      case None
      then show ?thesis using DisconnectTip_no_tip [OF r] d by simp
    next
      case (Some t)
      have "is_branch (ns_index nd) (chainActive nd)" using d by (simp add: descends_def)
      then obtain b where b: "ns_index nd t = Some b" using tip_of_branch Some by blast
      with DisconnectTip_moves [of nd t b env params B dpool] Some r d show ?thesis
        using descends_moved [OF d] by (auto simp: descends_def)
    qed
  qed
  show "pool_safe env \<longrightarrow> descends nd0 nd'" if "pool_safe env \<longrightarrow> descends nd0 nd" "PruneBlockIndexCandidates nd = Inr nd'"
    using that descends_chain PruneBlockIndexCandidates_kept by blast
  show "pool_safe env \<longrightarrow> descends nd0 nd'" if "pool_safe env \<longrightarrow> descends nd0 nd" "InvalidChainFound p nd = Inr nd'"
    using that descends_chain InvalidChainFound_kept by blast
  show "pool_safe env \<longrightarrow> descends nd0 nd'" if "pool_safe env \<longrightarrow> descends nd0 nd" "FindMostWorkChain nd = Some (Inr (found, nd'))"
    using that descends_chain FindMostWorkChain_kept by blast
  show "pool_safe env \<longrightarrow> descends nd0 nd'" if "pool_safe env \<longrightarrow> descends nd0 nd" "UpdateMempoolForReorg env txs add nd = Inr nd'"
    using that descends_chain unfolding pool_safe_def by blast
  show "pool_safe env \<longrightarrow> descends nd0 nd'" if "pool_safe env \<longrightarrow> descends nd0 nd" "flush_state env B mode nd = (r, nd')"
    using that descends_chain flush_state_kept by blast
qed

section \<open>The tip at the end\<close>

text \<open>No candidate is better than \<open>p\<close>.\<close>

definition none_better :: "'z chain_state_scheme \<Rightarrow> ptr \<Rightarrow> bool" where
  "none_better cs p \<longleftrightarrow> (\<forall>q\<in>set (setBlockIndexCandidates cs). work_key (ns_index cs) q \<le> work_key (ns_index cs) p)"

lemma none_better_kept:
  assumes "kept cs cs'" "none_better cs p"
  shows "none_better cs' p"
proof -
  have "same_rank (ns_index cs) (ns_index cs')" using assms(1) same_core_rank by (auto simp: kept_def)
  then have "work_key (ns_index cs') q = work_key (ns_index cs) q" for q by (rule same_rank_key)
  then show ?thesis using assms by (auto simp: none_better_def kept_def)
qed

lemma candidates_descend: "candidates_linked nd \<Longrightarrow> descends nd nd"
  by (simp add: candidates_linked_def descends_def)

lemma descends_candidates: "descends nd nd' \<Longrightarrow> candidates_linked nd \<Longrightarrow> candidates_linked nd'"
  using kept_candidates by (auto simp: descends_def)

lemma activate_loop_best:
  "activate_loop e pa b pblock best nd = Some y \<Longrightarrow> pool_safe e \<Longrightarrow> candidates_linked nd \<Longrightarrow>
   (\<forall>p. best = Some p \<longrightarrow> none_better nd p) \<Longrightarrow> y = (Inr (True, d), nd') \<Longrightarrow> \<not> stop_requested e nd' \<Longrightarrow>
   Tip (chainActive nd') = None \<or> (\<exists>p. Tip (chainActive nd') = Some p \<and> none_better nd' p)"
proof (induction arbitrary: rule: activate_loop.raw_induct [rotated, consumes 1, case_names 1])
  case (1 rec e pa b pblock best nd y)
  note prem = 1(3-7)
  obtain f where f: "(case best of None \<Rightarrow> FindMostWorkChain nd | Some p \<Rightarrow> Some (Inr (Some p, nd))) = Some f"
    using 1(2) by (auto split: bind_splits)
  show ?case
  proof (cases f)
    case (Inl e')
    then show ?thesis using 1(2) f prem(4) by auto
  next
    case (Inr q)
    obtain found nd1 where q: "q = (found, nd1)" by (cases q)
    have k1: "kept nd nd1" and c1: "candidates_linked nd1"
      and b1: "case found of None \<Rightarrow> setBlockIndexCandidates nd1 = [] | Some p \<Rightarrow> none_better nd1 p"
    proof -
      have "kept nd nd1 \<and> candidates_linked nd1 \<and> (case found of None \<Rightarrow> setBlockIndexCandidates nd1 = [] | Some p \<Rightarrow> none_better nd1 p)"
      proof (cases best)
        case None
        then have s: "FindMostWorkChain nd = Some (Inr (found, nd1))" using f Inr q by simp
        obtain r cs' where r: "FindMostWorkChain nd = Some (Inr (r, cs'))" "candidates_linked cs'" "same_rank (ns_index nd) (ns_index cs')"
          "case r of None \<Rightarrow> setBlockIndexCandidates cs' = []
            | Some p \<Rightarrow> p \<in> set (setBlockIndexCandidates cs') \<and> usable (ns_index nd) (chainActive nd) p \<and>
                (\<forall>q\<in>set (setBlockIndexCandidates cs'). work_key (ns_index nd) q \<le> work_key (ns_index nd) p)"
          using FindMostWorkChain_ok [OF prem(2)] by blast
        with s have "r = found" "cs' = nd1" by simp_all
        then show ?thesis using r chain_kept_kept FindMostWorkChain_kept [OF s refl] same_rank_key [OF r(3)]
          by (auto simp: none_better_def split: option.splits)
      qed (use f Inr q prem in auto)
      then show "kept nd nd1" "candidates_linked nd1" "case found of None \<Rightarrow> setBlockIndexCandidates nd1 = [] | Some p \<Rightarrow> none_better nd1 p"
        by simp_all
    qed
    note y = 1(2) [unfolded f bind.bind_lunit Inr q sum.case prod.case]
    show ?thesis
    proof (cases found)
      case None
      then have "nd' = nd1" using y prem(4) by simp
      then show ?thesis using b1 None by (cases "Tip (chainActive nd')") (simp_all add: none_better_def)
    next
      case (Some p)
      note y = y [unfolded Some option.case]
      show ?thesis
      proof (cases "Tip (chainActive nd1) = Some p")
        case True
        then show ?thesis using y prem(4) b1 Some by simp
      next
        case False
        obtain bl where bl: "block_for e nd1 p pblock = Inr bl" using y False prem(4) by (auto split: sum.splits)
        obtain r nd2 where s: "ActivateBestChainStep e pa b p bl nd1 = Some (r, nd2)" using y False bl by (auto split: bind_splits)
        obtain ok invalid where r: "r = Inr (ok, invalid)" using y False bl s prem(4) by (auto split: sum.splits)
        have ok: ok using y False bl s r prem(4) by (auto split: if_splits)
        have d2: "descends nd1 nd2"
          using run.step_inv [of e nd1 nd1 pa b p bl r nd2] candidates_descend [OF c1] s prem(1) by blast
        then have n2: "none_better nd2 p" and c2: "candidates_linked nd2"
          using none_better_kept [of nd1 nd2 p] b1 Some descends_candidates [OF _ c1] by (auto simp: descends_def)
        note y2 = y [unfolded bl s, simplified, unfolded r, simplified]
        show ?thesis
        proof (cases "stop_requested e nd2 \<or> Tip (chainActive nd2) = (if invalid then None else Some p)")
          case True
          then have "nd' = nd2" using y False bl s r ok prem(4) by simp
          then show ?thesis using True prem(5) n2 by (auto split: if_splits)
        next
          case False': False
          then have "rec e pa b pblock (if invalid then None else Some p) nd2 = Some y"
            using y False bl s r ok by simp
          from 1(1) [OF this prem(1) c2 _ prem(4,5)] n2 show ?thesis by simp
        qed
      qed
    qed
  qed
qed

theorem ActivateBestChain_best:
  assumes safe: "pool_safe env" and run: "\<forall>nd. \<not> stop_requested env nd" and c: "candidates_linked nd"
    and r: "ActivateBestChain env params B pblock nd = Some (Inr True, nd')"
  shows "kept nd nd' \<and> candidates_linked nd' \<and>
    (Tip (chainActive nd') = None \<or> (\<exists>p. Tip (chainActive nd') = Some p \<and> none_better nd' p))"
proof -
  have d: "descends nd nd'"
    using run.ActivateBestChain_inv [of env nd nd params B pblock "Inr True" nd'] candidates_descend [OF c] r safe by blast
  obtain q nd1 where q: "activate_loop env params B pblock None nd = Some (q, nd1)"
    using r by (auto simp: ActivateBestChain_def split: bind_splits)
  obtain d1 where d1: "q = Inr (True, d1)" "nd' = nd1 \<or> flush_state env B FLUSH_STATE_PERIODIC nd1 = (Inr True, nd')"
  proof (cases q)
    case (Inl e)
    then show thesis using r q by (simp add: ActivateBestChain_def)
  next
    case (Inr x)
    obtain ok d1 where x: "x = (ok, d1)" by (cases x)
    then show thesis using that [of d1] r q Inr by (auto simp: ActivateBestChain_def split: if_splits)
  qed
  then have k: "chain_kept nd1 nd'" using flush_state_kept by auto
  have "Tip (chainActive nd1) = None \<or> (\<exists>p. Tip (chainActive nd1) = Some p \<and> none_better nd1 p)"
    using activate_loop_best [OF q safe c, of d1 nd1] d1(1) run by simp
  then show ?thesis using k none_better_kept [OF chain_kept_kept [OF k]] d descends_candidates [OF d c]
    by (auto simp: chain_kept_def descends_def)
qed

section \<open>A corrupted block\<close>

text \<open>A block whose transactions do not match its header counts as corrupted, and is neither marked nor dropped: when
  the best candidate is such a block, read from disk, every turn of the loop finds it again.\<close>

lemma put_state_id [simp]: "put_state (node_state.truncate nd) nd = nd"
  by (cases nd) (simp add: put_state_def node_state.truncate_def node_state.extend_def)

lemma refused_connect:
  assumes b: "ns_index nd p = Some b" and bl: "block_to_connect env params p pblock nd = Inr (Some (block, False))"
    and h: "phashBlock b = Some (BlockHeader_GetHash (be_hash env) (GetBlockHeader block))"
    and ck: "CheckBlock (block_env.truncate (node_env.truncate env)) (Consensus_Params.truncate params) (ns_index nd) (chainActive nd) block False True True =
      (Inl (Rejected rj), False)" and m: "InvalidBlockFound p (rj_corruption rj) nd = Inr nd1"
  shows "ConnectTip env params B p pblock pool nd = Some ((Inl (Rejected rj), nd1), pool)"
proof -
  have he: "be_hash (node_env.truncate env) = be_hash env" by (simp add: node_env.truncate_def)
  have "ConnectBlock (node_env.truncate env) params (Cache_ops B) block False p False (CCoinsViewCache_new (pcoinsTip nd)) (node_state.truncate nd) =
      (Inl (Rejected rj), False, CCoinsViewCache_new (pcoinsTip nd), node_state.truncate nd)"
    unfolding ConnectBlock_def truncate_sel b(1) option.case he h
    by (simp only: ck simp_thms not_False_eq_True if_False sum.case prod.case)
  then have "connect_coins env params B block False p nd = (Inl (Rejected rj), nd1)"
    using m by (simp add: connect_coins_def)
  then show ?thesis using bl by (simp add: ConnectTip_def)
qed

text \<open>A block above the tip is refused: the step ends there.\<close>

lemma refused_step:
  assumes t: "tree_ok (ns_index nd)" "is_branch (ns_index nd) (chainActive nd)"
    and tip: "Tip (chainActive nd) = Some q" "ns_index nd q = Some a" and b: "ns_index nd p = Some b" "pprev b = Some q"
    and c: "\<And>pool. ConnectTip env params B p pblock pool nd = Some ((Inl (Rejected rj), nd1), pool)"
    and m: "(if rj_corruption rj then Inr nd1 else InvalidChainFound p nd1) = Inr nd2"
  shows "ActivateBestChainStep env params B p pblock nd = Some (Inr (True, True), nd2)"
proof -
  let ?H = "ns_index nd" and ?C = "chainActive nd"
  have hb: "nHeight b = Suc (nHeight a)" using tree_prev [OF t(1) b] tip(2) by auto
  have C: "?C = branch ?H q (nHeight a)" using tip_of_branch [OF t(2) tip(1)] tip(2) by auto
  have conq: "Contains ?H ?C q = Inr True"
    using tip(2) C by (simp add: Contains_def deref_def chain_at_branch)
  have "Height ?C = int (nHeight a)" by (simp add: C Height_def)
  moreover have "GetAncestor ?H p (int (nHeight a)) = Inr (Some q)"
    using GetAncestor_prev [OF t(1) b(1), of "int (nHeight a)"] hb b by simp
  ultimately have fork: "FindFork ?H ?C (Some p) = Some (Inr (Some q))"
    using b(1) hb conq by (simp add: FindFork_def deref_def FindFork_loop.simps [of ?H ?C "Some q"])
  have anc: "GetAncestor ?H p (int (nHeight b)) = Inr (Some p)"
    using GetAncestor_prev [OF t(1) b(1), of "int (nHeight b)"] by simp
  have down: "path_down ?H (Some p) (int (nHeight a)) = Some (Inr [p])"
    using b tip(2) hb by (subst path_down.simps, simp add: deref_def) (subst path_down.simps, simp add: deref_def)
  have nb: "next_blocks nd p (int (nHeight a)) (min (int (nHeight a) + 32) (int (nHeight b))) = Some (Inr [p])"
    using anc down hb by (simp add: next_blocks_def min_def)
  have "connect_up env params B w p (int (nHeight b)) pblock (int (nHeight a)) pool nd = Some (Step_done True False, pool, nd2)" for w pool
    using nb hb c [of pool] m by (subst connect_up.simps) (simp add: after_connect_def)
  moreover have "disconnect_to env params B (Some q) pool nd = Some ((Inr True, nd), pool)" for pool
    using tip(1) by (subst disconnect_to.simps) simp
  ultimately show ?thesis
    using fork tip b(1) by (simp add: ActivateBestChainStep_def work_of_def height_of_def deref_def finish_step_def)
qed

theorem corrupt_block_loops:
  assumes c: "candidates_linked nd" and found: "FindMostWorkChain nd = Some (Inr (Some p, nd))"
    and tip: "Tip (chainActive nd) = Some q" and b: "ns_index nd p = Some b" "pprev b = Some q"
    and bl: "read_block env params b nd = Inr (Some block)"
    and h: "phashBlock b = Some (BlockHeader_GetHash (be_hash env) (GetBlockHeader block))"
    and ck: "CheckBlock (block_env.truncate (node_env.truncate env)) (Consensus_Params.truncate params) (ns_index nd) (chainActive nd) block False True True =
      (Inl (Rejected rj), False)" and co: "rj_corruption rj" and run: "\<not> stop_requested env nd"
  shows "ActivateBestChain env params B None nd = None"
proof -
  have t: "tree_ok (ns_index nd)" "is_branch (ns_index nd) (chainActive nd)" using c by (simp_all add: candidates_linked_def)
  obtain a where a: "ns_index nd q = Some a" using tip_of_branch [OF t(2) tip] by blast
  have qp: "q \<noteq> p" using tree_prev [OF t(1) b] b(1) by auto
  have con: "block_to_connect env params p None nd = Inr (Some (block, False))" using b bl tip by (simp add: block_to_connect_def deref_def)
  have "InvalidBlockFound p (rj_corruption rj) nd = Inr nd" using co by (simp add: InvalidBlockFound_def)
  note refused = refused_connect [OF b(1) con h ck this]
  have step: "ActivateBestChainStep env params B p None nd = Some (Inr (True, True), nd)"
    using refused_step [OF t tip a b refused, of nd] co by simp
  have stuck: "nd1 \<noteq> nd \<or> best \<noteq> None \<or> e \<noteq> env \<or> pa \<noteq> params \<or> B' \<noteq> B \<or> pb \<noteq> None"
    if "activate_loop e pa B' pb best nd1 = Some y" for e pa B' pb best nd1 y
    using that
  proof (induction rule: activate_loop.raw_induct [rotated, consumes 1, case_names 1])
    case (1 rec e pa B' pb best nd1 y)
    show ?case
    proof (rule ccontr)
      assume "\<not> ?case"
      then have eq: "nd1 = nd" "best = None" "e = env" "pa = params" "B' = B" "pb = None" by blast+
      have "rec env params B None None nd = Some y"
        using 1(2) unfolding eq using found tip qp step run by (simp add: block_for_def)
      from 1(1) [OF this] show False by simp
    qed
  qed
  have "activate_loop env params B None None nd = None"
    using stuck [of env params B None None nd] by (cases "activate_loop env params B None None nd") auto
  then show ?thesis by (simp add: ActivateBestChain_def)
qed

end
