(* ===== verification/ChainOps.thy ===== *)
theory ChainOps imports BestTip
begin

text \<open>
  The other ways in which the state of the chain changes, \<^verbatim>\<open>src/src/validation.cpp\<close>: the manual operations
  \<open>PreciousBlock\<close>, \<open>InvalidateBlock\<close> and \<open>ResetBlockFailureFlags\<close>, \<open>AcceptBlock\<close> and \<open>ProcessNewBlock\<close>, through which
  blocks come in, and \<open>TestBlockValidity\<close>.  Resetting the flags of a block changes exactly its ancestors and
  descendants, a block that nobody asked for is not stored unless its work is enough, trying a block changes nothing
  but caches, and an invalidated block has left the active chain.
\<close>

unbundle bit_operations_syntax

section \<open>Manual operations\<close>

text \<open>A precious block counts as if it had been received earlier; \<open>None\<close> is nothing to do.\<close>

definition precious_mark :: "ptr \<Rightarrow> 'z chain_state_scheme \<Rightarrow> chain_fault + 'z chain_state_scheme option" where
  "precious_mark p cs =
     bind_sum (deref (ns_index cs) p) (\<lambda>b.
     case Tip (chainActive cs) of None \<Rightarrow> Inl Bad_pointer
     | Some t \<Rightarrow> bind_sum (deref (ns_index cs) t) (\<lambda>tip.
         if CompareTo (nChainWork b) (nChainWork tip) < 0 then Inr None
         else let cs = (if CompareTo (nChainWork tip) (nLastPreciousChainwork cs) > 0 then cs\<lparr>nBlockReverseSequenceId := - 1\<rparr> else cs);
                  cs = erase_candidate p (cs\<lparr>nLastPreciousChainwork := nChainWork tip\<rparr>);
                  b = b\<lparr>nSequenceId := nBlockReverseSequenceId cs\<rparr>;
                  cs = set_entry p b cs;
                  cs = (if nBlockReverseSequenceId cs > - (2 ^ 31)
                    then cs\<lparr>nBlockReverseSequenceId := nBlockReverseSequenceId cs - 1\<rparr> else cs) in
           bind_sum (IsValid b BLOCK_VALID_TRANSACTIONS) (\<lambda>valid.
             if valid \<and> nChainTx b \<noteq> 0
             then bind_sum (PruneBlockIndexCandidates (add_candidate p cs)) (\<lambda>cs. Inr (Some cs)) else Inr (Some cs))))"

definition PreciousBlock ::
  "('n, 'v) chain_env \<Rightarrow> Chain_Params \<Rightarrow> 'v view_ops \<Rightarrow> ptr \<Rightarrow> 'v node \<Rightarrow> 'v outcome option" where
  "PreciousBlock env params B p nd =
     (case precious_mark p nd of
        Inl f \<Rightarrow> Some (Inl (Fault f), nd)
      | Inr None \<Rightarrow> Some (Inr True, nd)
      | Inr (Some nd) \<Rightarrow> ActivateBestChain env params B None nd)"

text \<open>The chain is disconnected down to the block before \<open>p\<close>.\<close>

partial_function (option) disconnect_from ::
  "('n, 'v) chain_env \<Rightarrow> Chain_Params \<Rightarrow> 'v view_ops \<Rightarrow> ptr \<Rightarrow> DisconnectedBlockTransactions option \<Rightarrow> 'v node \<Rightarrow>
   ('v outcome \<times> DisconnectedBlockTransactions option) option" where
  [code]: "disconnect_from env params B p pool nd =
     (case Contains (ns_index nd) (chainActive nd) p of Inl f \<Rightarrow> Some ((Inl (Fault f), nd), pool)
      | Inr in_chain \<Rightarrow>
          if \<not> in_chain then Some ((Inr True, nd), pool)
          else Option.bind (DisconnectTip env params B pool nd) (\<lambda>((r, nd), pool).
            if r = Inr True then disconnect_from env params B p pool nd else Some ((r, nd), pool)))"

text \<open>The blocks that were on top of it have an invalid ancestor.\<close>

partial_function (option) mark_disconnected ::
  "ptr \<Rightarrow> ptr option \<Rightarrow> 'z chain_state_scheme \<Rightarrow> (chain_fault + 'z chain_state_scheme) option" where
  [code]: "mark_disconnected p walk cs =
     (if walk = Some p then Some (Inr cs)
      else case walk of None \<Rightarrow> Some (Inl Bad_pointer)
      | Some q \<Rightarrow> (case ns_index cs q of None \<Rightarrow> Some (Inl Bad_pointer)
          | Some b \<Rightarrow> mark_disconnected p (pprev b)
              (erase_candidate q (set_dirty q (set_entry q (b\<lparr>nStatus := nStatus b OR BLOCK_FAILED_CHILD\<rparr>) cs)))))"

definition mark_invalid :: "ptr \<Rightarrow> 'z chain_state_scheme \<Rightarrow> chain_fault + 'z chain_state_scheme" where
  "mark_invalid p cs =
     bind_sum (deref (ns_index cs) p) (\<lambda>b.
       let cs = erase_candidate p (set_dirty p (set_entry p (b\<lparr>nStatus := nStatus b OR BLOCK_FAILED_VALID\<rparr>) cs)) in
       Inr (cs\<lparr>g_failed_blocks := insort_insert p (g_failed_blocks cs)\<rparr>))"

text \<open>The blocks that can be connected and are not worse than the tip are candidates again.\<close>

fun readd_candidates :: "ptr list \<Rightarrow> 'z chain_state_scheme \<Rightarrow> chain_fault + 'z chain_state_scheme" where
  "readd_candidates [] cs = Inr cs"
| "readd_candidates (q # qs) cs =
     bind_sum (deref (ns_index cs) q) (\<lambda>b. bind_sum (IsValid b BLOCK_VALID_TRANSACTIONS) (\<lambda>valid.
       if valid \<and> nChainTx b \<noteq> 0
       then (case Tip (chainActive cs) of None \<Rightarrow> Inl Bad_pointer
         | Some t \<Rightarrow> readd_candidates qs (if \<not> CBlockIndexWorkComparator (ns_index cs) q t then add_candidate q cs else cs))
       else readd_candidates qs cs))"

definition InvalidateBlock ::
  "('n, 'v) chain_env \<Rightarrow> Chain_Params \<Rightarrow> 'v view_ops \<Rightarrow> ptr \<Rightarrow> 'v node \<Rightarrow> 'v outcome option" where
  "InvalidateBlock env params B p nd =
     (let walk = Tip (chainActive nd); was_in_chain = (Contains (ns_index nd) (chainActive nd) p = Inr True) in
      Option.bind (disconnect_from env params B p (Some DisconnectedBlockTransactions_new) nd) (\<lambda>((r, nd), pool).
        let pool = (case pool of None \<Rightarrow> DisconnectedBlockTransactions_new | Some pool \<Rightarrow> pool) in
        case r of
          Inl e \<Rightarrow> Some (Inl e, nd)
        | Inr ok \<Rightarrow>
            if \<not> ok then Some (case UpdateMempoolForReorg env (queuedTx pool) False nd of
              Inl f \<Rightarrow> (Inl (Fault f), nd) | Inr nd \<Rightarrow> (Inr False, nd))
            else Option.bind (if was_in_chain then mark_disconnected p walk nd else Some (Inr nd)) (\<lambda>m.
              Some (case bind_sum m (\<lambda>nd. bind_sum (mark_invalid p nd) (\<lambda>nd.
                      bind_sum (UpdateMempoolForReorg env (queuedTx pool) True nd) (\<lambda>nd.
                      bind_sum (readd_candidates (map_order env (mapBlockIndex nd)) nd) (InvalidChainFound p)))) of
                Inl f \<Rightarrow> (Inl (Fault f), nd) | Inr nd \<Rightarrow> (Inr True, nd)))))"

definition clear_failed :: "CBlockIndex \<Rightarrow> CBlockIndex" where
  "clear_failed b = b\<lparr>nStatus := nStatus b AND NOT BLOCK_FAILED_MASK\<rparr>"

text \<open>A descendant of \<open>p\<close>, which is at height \<open>h\<close>.\<close>

definition reset_descendant :: "ptr \<Rightarrow> int \<Rightarrow> ptr \<Rightarrow> 'z chain_state_scheme \<Rightarrow> chain_fault + 'z chain_state_scheme" where
  "reset_descendant p h q cs =
     bind_sum (deref (ns_index cs) q) (\<lambda>b. bind_sum (IsValid b BLOCK_VALID_TRANSACTIONS) (\<lambda>valid.
       if valid then Inr cs
       else bind_sum (GetAncestor (ns_index cs) q h) (\<lambda>a.
         if a \<noteq> Some p then Inr cs
         else let cs = set_dirty q (set_entry q (clear_failed b) cs) in
           bind_sum (IsValid (clear_failed b) BLOCK_VALID_TRANSACTIONS) (\<lambda>valid.
           bind_sum (if valid \<and> nChainTx b \<noteq> 0
               then (case Tip (chainActive cs) of None \<Rightarrow> Inl Bad_pointer
                 | Some t \<Rightarrow> Inr (if CBlockIndexWorkComparator (ns_index cs) t q then add_candidate q cs else cs))
               else Inr cs) (\<lambda>cs.
             Inr (cs\<lparr>pindexBestInvalid := (if pindexBestInvalid cs = Some q then None else pindexBestInvalid cs),
               g_failed_blocks := removeAll q (g_failed_blocks cs)\<rparr>))))))"

fun reset_descendants :: "ptr \<Rightarrow> int \<Rightarrow> ptr list \<Rightarrow> 'z chain_state_scheme \<Rightarrow> chain_fault + 'z chain_state_scheme" where
  "reset_descendants p h [] cs = Inr cs"
| "reset_descendants p h (q # qs) cs = bind_sum (reset_descendant p h q cs) (reset_descendants p h qs)"

partial_function (option) reset_ancestors ::
  "ptr option \<Rightarrow> 'z chain_state_scheme \<Rightarrow> (chain_fault + 'z chain_state_scheme) option" where
  [code]: "reset_ancestors p cs =
     (case p of None \<Rightarrow> Some (Inr cs)
      | Some q \<Rightarrow> (case ns_index cs q of None \<Rightarrow> Some (Inl Bad_pointer)
          | Some b \<Rightarrow> reset_ancestors (pprev b)
              (if nStatus b AND BLOCK_FAILED_MASK \<noteq> 0 then set_dirty q (set_entry q (clear_failed b) cs) else cs)))"

text \<open>\<open>entries\<close> are the entries in the order in which \<open>mapBlockIndex\<close> is visited.\<close>

definition ResetBlockFailureFlags ::
  "ptr list \<Rightarrow> ptr \<Rightarrow> 'z chain_state_scheme \<Rightarrow> (chain_fault + 'z chain_state_scheme) option" where
  "ResetBlockFailureFlags entries p cs =
     (case bind_sum (deref (ns_index cs) p) (\<lambda>b. reset_descendants p (int (nHeight b)) entries cs) of
        Inl f \<Rightarrow> Some (Inl f) | Inr cs \<Rightarrow> reset_ancestors (Some p) cs)"

section \<open>New blocks\<close>

text \<open>What is looked at when a block was not asked for: it must be new, on a chain with enough work, and not too far
  ahead.\<close>

definition worth_storing :: "('n, 'v) chain_env \<Rightarrow> bool \<Rightarrow> CBlockIndex \<Rightarrow> 'v node \<Rightarrow> chain_fault + bool" where
  "worth_storing env fRequested b nd =
     bind_sum (case Tip (chainActive nd) of None \<Rightarrow> Inr True
       | Some t \<Rightarrow> bind_sum (deref (ns_index nd) t) (\<lambda>tip. Inr (CompareTo (nChainWork b) (nChainWork tip) \<ge> 0))) (\<lambda>fHasMoreOrSameWork.
       let fTooFarAhead = (int (nHeight b) > Height (chainActive nd) + int MIN_BLOCKS_TO_KEEP) in
       Inr (if nStatus b AND BLOCK_HAVE_DATA \<noteq> 0 then False
         else fRequested \<or> nTx b = 0 \<and> fHasMoreOrSameWork \<and> \<not> fTooFarAhead \<and>
           \<not> CompareTo (nChainWork b) (nMinimumChainWork env) < 0))"

text \<open>The checks of the block; a block that fails them without being corrupted is marked.\<close>

definition check_new_block ::
  "('n, 'v) chain_env \<Rightarrow> Chain_Params \<Rightarrow> CBlock \<Rightarrow> bool \<Rightarrow> ptr \<Rightarrow> CBlockIndex \<Rightarrow> 'v node \<Rightarrow> (tx_error + unit) \<times> bool \<times> 'v node" where
  "check_new_block env params block fChecked p b nd =
     (case CheckBlock (block_env.truncate (node_env.truncate env)) (Consensus_Params.truncate params) (ns_index nd) (chainActive nd) block
             fChecked True True of
        (r, fChecked) \<Rightarrow>
          (case bind_sum r (\<lambda>_. ContextualCheckBlock (be_hash env) (ns_index nd) block (pprev b)) of
             Inl (Rejected rj) \<Rightarrow>
               (Inl (Rejected rj), fChecked,
                if rj_corruption rj then nd
                else set_dirty p (set_entry p (b\<lparr>nStatus := nStatus b OR BLOCK_FAILED_VALID\<rparr>) nd))
           | r \<Rightarrow> (r, fChecked, nd)))"

text \<open>The block goes to the disk and into the tree.  \<open>Inr False\<close> is an error of the system.\<close>

definition store_block ::
  "('n, 'v) chain_env \<Rightarrow> 'v view_ops \<Rightarrow> CBlock \<Rightarrow> ptr \<Rightarrow> CBlockIndex \<Rightarrow> CDiskBlockPos option \<Rightarrow> 'v node \<Rightarrow> 'v outcome option" where
  "store_block env B block p b dbp nd =
     Option.bind (SaveBlockToDisk (ne_disk env) block (of_nat (nHeight b)) dbp (ns_disk nd)) (\<lambda>(pos, disk).
       let nd = nd\<lparr>ns_disk := disk\<rparr> in
       Some (if CDiskBlockPos_IsNull pos then (Inr False, nd)
         else (case ReceivedBlockTransactions block p pos nd of
             Inl f \<Rightarrow> (Inl (Fault f), nd)
           | Inr nd \<Rightarrow>
               if \<not> fCheckForPruning (ns_disk nd) then (Inr True, nd)
               else (case flush_state env B FLUSH_STATE_NONE nd of (Inr _, nd) \<Rightarrow> (Inr True, nd) | out \<Rightarrow> out))))"

text \<open>\<open>new\<close> is the address for a new entry.  The result comes with the flag of the block and \<open>fNewBlock\<close>.\<close>

definition AcceptBlock ::
  "('n, 'v) chain_env \<Rightarrow> Chain_Params \<Rightarrow> 'v view_ops \<Rightarrow> ptr \<Rightarrow> CBlock \<Rightarrow> bool \<Rightarrow> bool \<Rightarrow> CDiskBlockPos option \<Rightarrow> 'v node \<Rightarrow>
   ('v outcome \<times> bool \<times> bool) option" where
  "AcceptBlock env params B new block fChecked fRequested dbp nd =
     Option.bind (AcceptBlockHeader (accept_env.truncate env) params new block nd) (\<lambda>(r, nd).
       case r of Inl e \<Rightarrow> Some ((Inl e, nd), fChecked, False)
       | Inr p \<Rightarrow>
       (case bind_sum (deref (ns_index nd) p) (\<lambda>b. bind_sum (worth_storing env fRequested b nd) (\<lambda>store. Inr (b, store))) of
          Inl f \<Rightarrow> Some ((Inl (Fault f), nd), fChecked, False)
        | Inr (b, store) \<Rightarrow>
            if \<not> store then Some ((Inr True, nd), fChecked, False)
            else (case check_new_block env params block fChecked p b nd of
                (Inl e, fChecked, nd) \<Rightarrow> Some ((Inl e, nd), fChecked, True)
              | (Inr _, fChecked, nd) \<Rightarrow> map_option (\<lambda>out. (out, fChecked, True)) (store_block env B block p b dbp nd))))"

text \<open>The checks come first, then the block is stored and the best chain activated.  A block that is refused and an
  error of the system are both \<open>Inr False\<close>.\<close>

definition ProcessNewBlock ::
  "('n, 'v) chain_env \<Rightarrow> Chain_Params \<Rightarrow> 'v view_ops \<Rightarrow> ptr \<Rightarrow> CBlock \<Rightarrow> bool \<Rightarrow> bool \<Rightarrow> 'v node \<Rightarrow> ('v outcome \<times> bool) option" where
  "ProcessNewBlock env params B new block fChecked fForceProcessing nd =
     (case CheckBlock (block_env.truncate (node_env.truncate env)) (Consensus_Params.truncate params) (ns_index nd) (chainActive nd) block
             fChecked True True of
        (Inl (Rejected rj), fChecked) \<Rightarrow> Some ((Inr False, nd), False)
      | (Inl e, fChecked) \<Rightarrow> Some ((Inl e, nd), False)
      | (Inr _, fChecked) \<Rightarrow>
          Option.bind (AcceptBlock env params B new block fChecked fForceProcessing None nd) (\<lambda>((r, nd), fChecked, fNewBlock).
            case r of
              Inl (Rejected rj) \<Rightarrow> Some ((Inr False, nd), fNewBlock)
            | Inl e \<Rightarrow> Some ((Inl e, nd), fNewBlock)
            | Inr ok \<Rightarrow>
                if \<not> ok then Some ((Inr False, nd), fNewBlock)
                else map_option (\<lambda>out. (out, fNewBlock)) (ActivateBestChain env params B (Some (block, fChecked)) nd)))"

text \<open>A block on top of the tip is tried out with a temporary entry at a free address \<open>p\<close>; the view over the tip's
  cache is thrown away.\<close>

definition dummy_entry :: "CBlock \<Rightarrow> ptr \<Rightarrow> CBlockIndex \<Rightarrow> uint256 \<Rightarrow> CBlockIndex" where
  "dummy_entry block q prev hash =
     (CBlockIndex_of (GetBlockHeader block))\<lparr>pprev := Some q, nHeight := nHeight prev + 1, phashBlock := Some hash\<rparr>"

definition TestBlockValidity ::
  "('n, 'v) chain_env \<Rightarrow> Chain_Params \<Rightarrow> 'v view_ops \<Rightarrow> ptr \<Rightarrow> CBlock \<Rightarrow> bool \<Rightarrow> ptr \<Rightarrow> bool \<Rightarrow> bool \<Rightarrow> 'v node \<Rightarrow> ('v outcome \<times> bool) option" where
  "TestBlockValidity env params B p block fChecked pindexPrev fCheckPOW fCheckMerkleRoot nd =
     (if Tip (chainActive nd) \<noteq> Some pindexPrev then Some ((Inl (Fault Assert_fails), nd), fChecked)
      else case ns_index nd pindexPrev of None \<Rightarrow> Some ((Inl (Fault Bad_pointer), nd), fChecked)
      | Some prev \<Rightarrow>
          Option.bind (ContextualCheckBlockHeader (ops512 env) (Consensus_Params.truncate params) (ae_checkpoints env)
              (mapBlockIndex nd) (ns_index nd) (GetBlockHeader block) (Some pindexPrev) (AdjustedTime env)) (\<lambda>r. Some (
          case r of Inl e \<Rightarrow> ((Inl e, nd), fChecked)
          | Inr _ \<Rightarrow>
          (case CheckBlock (block_env.truncate (node_env.truncate env)) (Consensus_Params.truncate params) (ns_index nd) (chainActive nd)
                  block fChecked fCheckPOW fCheckMerkleRoot of
             (Inl e, fChecked) \<Rightarrow> ((Inl e, nd), fChecked)
           | (Inr _, fChecked) \<Rightarrow>
          (case ContextualCheckBlock (be_hash env) (ns_index nd) block (Some pindexPrev) of
             Inl e \<Rightarrow> ((Inl e, nd), fChecked)
           | Inr _ \<Rightarrow>
               let ns = node_state.truncate nd;
                   b = dummy_entry block pindexPrev prev (BlockHeader_GetHash (be_hash env) (GetBlockHeader block)) in
               (case ConnectBlock (node_env.truncate env) params (Cache_ops B) block fChecked p True
                       (CCoinsViewCache_new (pcoinsTip nd)) (ns\<lparr>ns_index := (ns_index ns)(p \<mapsto> b)\<rparr>) of
                  (r, fChecked, view, ns) \<Rightarrow>
                    ((r, (put_state (ns\<lparr>ns_index := (ns_index ns)(p := None)\<rparr>) nd)\<lparr>pcoinsTip := base view\<rparr>), fChecked)))))))"

section \<open>Resetting the flags\<close>

lemma clear_failed_idem [simp]: "clear_failed (clear_failed b) = clear_failed b"
  by (simp add: clear_failed_def and.assoc)

lemma clear_failed_core [simp]: "entry_core (clear_failed b) = entry_core b"
  by (simp add: clear_failed_def entry_core_def)

lemma valid_mask [simp]: "BLOCK_VALID_TRANSACTIONS AND NOT BLOCK_VALID_MASK = 0"
  by (simp add: block_status_defs)

lemma IsValid_total: "IsValid b BLOCK_VALID_TRANSACTIONS =
    Inr (nStatus b AND BLOCK_FAILED_MASK = 0 \<and> BLOCK_VALID_TRANSACTIONS \<le> nStatus b AND BLOCK_VALID_MASK)"
  by (simp add: IsValid_def)

lemma clear_not_failed:
  assumes "nStatus b AND BLOCK_FAILED_MASK = 0"
  shows "clear_failed b = b"
proof -
  have "nStatus b AND NOT BLOCK_FAILED_MASK = nStatus b"
  proof (rule bit_word_eqI)
    fix n assume "n < LENGTH(32)"
    have "\<not> (bit (nStatus b) n \<and> bit BLOCK_FAILED_MASK n)" using assms bit_and_iff by (metis bit_0_eq bot_apply bot_bool_def)
    then show "bit (nStatus b AND NOT BLOCK_FAILED_MASK) n = bit (nStatus b) n" using \<open>n < LENGTH(32)\<close> by (auto simp: bit_simps)
  qed
  then show ?thesis by (simp add: clear_failed_def)
qed

lemma GetAncestor_ancestor:
  assumes t: "tree_ok H" and p: "H p = Some b" and q: "H q = Some c"
  shows "\<exists>a. GetAncestor H q (int (nHeight b)) = Inr a \<and> (a = Some p \<longleftrightarrow> ancestor H p q)"
proof -
  note g = GetAncestor_prev [OF t q, of "int (nHeight b)"]
  show ?thesis
  proof (cases "ancestor H p q")
    case True
    from ancestor_height [OF t q True] p have "nHeight b \<le> nHeight c" "nth_prev H (nHeight c - nHeight b) q = Some p" by auto
    then show ?thesis using g True by simp
  next
    case False
    then have "nth_prev H k q \<noteq> Some p" for k by (auto simp: ancestor_def)
    then show ?thesis using g False by auto
  qed
qed

text \<open>The descendants that become candidates: they can be connected now, and are better than the tip.\<close>

definition candidate_again :: "index_heap \<Rightarrow> ptr \<Rightarrow> ptr \<Rightarrow> bool" where
  "candidate_again H t q \<longleftrightarrow> (\<exists>b. H q = Some b \<and> nStatus b AND BLOCK_FAILED_MASK \<noteq> 0 \<and>
     BLOCK_VALID_TRANSACTIONS \<le> nStatus (clear_failed b) AND BLOCK_VALID_MASK \<and> nChainTx b \<noteq> 0 \<and> CBlockIndexWorkComparator H t q)"

definition cleared :: "(ptr \<Rightarrow> bool) \<Rightarrow> index_heap \<Rightarrow> index_heap" where
  "cleared P H = (\<lambda>q. map_option (\<lambda>b. if P q then clear_failed b else b) (H q))"

lemma cleared_core [simp]: "same_core H (cleared P H)"
  by (rule same_coreI) (auto simp: cleared_def option.map_comp intro!: option.map_cong0)

lemma cleared_cleared: "cleared Q (cleared P H) = cleared (\<lambda>q. P q \<or> Q q) H"
  by (auto simp: cleared_def fun_eq_iff option.map_comp intro!: option.map_cong0)

lemma comparator_core:
  assumes "same_core H H'"
  shows "CBlockIndexWorkComparator H' p q = CBlockIndexWorkComparator H p q"
proof (cases "H' p = None \<or> H' q = None")
  case True
  then have "H p = None \<or> H q = None" using same_core_None [OF assms] by simp
  with True show ?thesis unfolding CBlockIndexWorkComparator_def by (auto split: option.splits)
next
  case False
  then obtain a' b' where n: "H' p = Some a'" "H' q = Some b'" by auto
  obtain a b where o: "H p = Some a" "H q = Some b" "nChainWork a = nChainWork a'" "nSequenceId a = nSequenceId a'"
    "nChainWork b = nChainWork b'" "nSequenceId b = nSequenceId b'"
    using same_core_at [OF assms n(1)] same_core_at [OF assms n(2)] by blast
  then show ?thesis using n unfolding CBlockIndexWorkComparator_def work_less_def by simp
qed

lemma reset_descendant_ok:
  assumes t: "tree_ok (ns_index cs)" and tip: "Tip (chainActive cs) = Some tip" and p: "ns_index cs p = Some b" and q: "ns_index cs q = Some c"
  shows "\<exists>cs'. reset_descendant p (int (nHeight b)) q cs = Inr cs' \<and>
    ns_index cs' = cleared (\<lambda>r. r = q \<and> ancestor (ns_index cs) p q) (ns_index cs) \<and>
    set (setBlockIndexCandidates cs') = set (setBlockIndexCandidates cs) \<union> {r. r = q \<and> ancestor (ns_index cs) p q \<and> candidate_again (ns_index cs) tip q} \<and>
    chainActive cs' = chainActive cs \<and> mapBlockIndex cs' = mapBlockIndex cs"
proof -
  let ?H = "ns_index cs" and ?V = BLOCK_VALID_TRANSACTIONS
  obtain a where a: "GetAncestor ?H q (int (nHeight b)) = Inr a" "a = Some p \<longleftrightarrow> ancestor ?H p q"
    using GetAncestor_ancestor [OF t p q] by blast
  have upd: "?H(q \<mapsto> clear_failed c) = cleared (\<lambda>r. r = q) ?H" using q by (auto simp: cleared_def fun_eq_iff option.map_ident)
  have none: "cleared (\<lambda>r. False) ?H = ?H" by (auto simp: cleared_def option.map_ident)
  have again: "candidate_again ?H tip q \<longleftrightarrow> nStatus c AND BLOCK_FAILED_MASK \<noteq> 0 \<and>
      ?V \<le> nStatus (clear_failed c) AND BLOCK_VALID_MASK \<and> nChainTx c \<noteq> 0 \<and> CBlockIndexWorkComparator ?H tip q"
    using q by (simp add: candidate_again_def)
  have m0: "nStatus (clear_failed c) AND BLOCK_FAILED_MASK = 0" by (auto simp: clear_failed_def bit_eq_iff bit_simps)
  consider "\<not> ancestor ?H p q" | "ancestor ?H p q" "IsValid c ?V = Inr True" | "ancestor ?H p q" "IsValid c ?V = Inr False"
    by (cases "ancestor ?H p q") (auto simp: IsValid_total)
  then show ?thesis
  proof cases
    case 1
    then show ?thesis using q a none by (auto simp: reset_descendant_def deref_def IsValid_total)
  next
    case 2
    then have f: "nStatus c AND BLOCK_FAILED_MASK = 0" by (simp add: IsValid_total)
    have "?H(q \<mapsto> clear_failed c) = ?H" using clear_not_failed [OF f] q by (simp add: fun_upd_idem)
    then show ?thesis using 2 q f again upd by (auto simp: reset_descendant_def deref_def)
  next
    case 3
    have cmp: "CBlockIndexWorkComparator (?H(q \<mapsto> clear_failed c)) tip q = CBlockIndexWorkComparator ?H tip q"
      unfolding upd by (rule comparator_core) simp
    have fv: "nStatus c AND BLOCK_FAILED_MASK \<noteq> 0 \<or> \<not> ?V \<le> nStatus c AND BLOCK_VALID_MASK" using 3(2) by (simp add: IsValid_total)
    have cl: "?V \<le> nStatus (clear_failed c) AND BLOCK_VALID_MASK \<Longrightarrow> nStatus c AND BLOCK_FAILED_MASK \<noteq> 0"
      using fv clear_not_failed by fastforce
    define cs1 where "cs1 = set_dirty q (set_entry q (clear_failed c) cs)"
    define cs2 where "cs2 = (if ?V \<le> nStatus (clear_failed c) AND BLOCK_VALID_MASK \<and> nChainTx c \<noteq> 0 \<and> CBlockIndexWorkComparator ?H tip q
        then add_candidate q cs1 else cs1)"
    have "reset_descendant p (int (nHeight b)) q cs = Inr (cs2\<lparr>pindexBestInvalid := (if pindexBestInvalid cs2 = Some q then None else pindexBestInvalid cs2),
        g_failed_blocks := removeAll q (g_failed_blocks cs2)\<rparr>)"
      using 3 q a tip cmp m0 by (simp add: reset_descendant_def deref_def IsValid_total [of "clear_failed c"] cs2_def cs1_def Let_def)
    moreover have "ns_index cs2 = cleared (\<lambda>r. r = q) ?H" "chainActive cs2 = chainActive cs" "mapBlockIndex cs2 = mapBlockIndex cs"
      using upd by (simp_all add: cs2_def cs1_def add_candidate_def)
    moreover have "set (setBlockIndexCandidates cs2) = set (setBlockIndexCandidates cs) \<union> {r. r = q \<and> candidate_again ?H tip q}"
      using again cl by (auto simp: cs2_def cs1_def add_candidate_def)
    ultimately show ?thesis using 3(1) by simp
  qed
qed

lemma candidate_again_cleared: "\<not> P q \<Longrightarrow> candidate_again (cleared P H) t q = candidate_again H t q"
  by (auto simp: candidate_again_def cleared_def comparator_core [OF cleared_core, unfolded cleared_def])

lemma candidate_not_again: "P q \<Longrightarrow> \<not> candidate_again (cleared P H) t q"
  by (auto simp: candidate_again_def cleared_def clear_failed_def bit_eq_iff bit_simps)

lemma reset_descendants_ok:
  "tree_ok (ns_index cs) \<Longrightarrow> Tip (chainActive cs) = Some tip \<Longrightarrow> ns_index cs p = Some b \<Longrightarrow> set qs \<subseteq> dom (ns_index cs) \<Longrightarrow>
   \<exists>cs'. reset_descendants p (int (nHeight b)) qs cs = Inr cs' \<and>
    ns_index cs' = cleared (\<lambda>r. r \<in> set qs \<and> ancestor (ns_index cs) p r) (ns_index cs) \<and>
    set (setBlockIndexCandidates cs') = set (setBlockIndexCandidates cs) \<union>
      {r. r \<in> set qs \<and> ancestor (ns_index cs) p r \<and> candidate_again (ns_index cs) tip r} \<and>
    chainActive cs' = chainActive cs \<and> mapBlockIndex cs' = mapBlockIndex cs"
proof (induction qs arbitrary: cs b)
  case Nil
  then show ?case by (auto simp: cleared_def option.map_ident)
next
  case (Cons q qs)
  let ?H = "ns_index cs"
  obtain c where q: "?H q = Some c" using Cons.prems(4) by auto
  obtain cs1 where c1: "reset_descendant p (int (nHeight b)) q cs = Inr cs1" "ns_index cs1 = cleared (\<lambda>r. r = q \<and> ancestor ?H p q) ?H"
    "set (setBlockIndexCandidates cs1) = set (setBlockIndexCandidates cs) \<union> {r. r = q \<and> ancestor ?H p q \<and> candidate_again ?H tip r}"
    "chainActive cs1 = chainActive cs" "mapBlockIndex cs1 = mapBlockIndex cs"
    using reset_descendant_ok [OF Cons.prems(1-3) q] by blast
  have s: "same_core ?H (ns_index cs1)" unfolding c1(2) by simp
  have anc: "ancestor (ns_index cs1) = ancestor ?H" by (intro ext) (rule same_shape_ancestor [OF same_core_shape [OF s]])
  obtain b1 where b1: "ns_index cs1 p = Some b1" "nHeight b1 = nHeight b"
    using same_shape_at [OF same_core_shape [OF s] Cons.prems(3)] by blast
  have sub: "set qs \<subseteq> dom (ns_index cs1)" using Cons.prems(4) same_core_None [OF s] by (auto simp: domIff)
  have tip1: "Tip (chainActive cs1) = Some tip" using Cons.prems(2) c1(4) by simp
  from Cons.IH [OF same_shape_tree [OF same_core_shape [OF s] Cons.prems(1)] tip1 b1(1) sub] b1(2) anc obtain cs' where
    c': "reset_descendants p (int (nHeight b)) qs cs1 = Inr cs'" "ns_index cs' = cleared (\<lambda>r. r \<in> set qs \<and> ancestor ?H p r) (ns_index cs1)"
    "set (setBlockIndexCandidates cs') = set (setBlockIndexCandidates cs1) \<union> {r. r \<in> set qs \<and> ancestor ?H p r \<and> candidate_again (ns_index cs1) tip r}"
    "chainActive cs' = chainActive cs1" "mapBlockIndex cs' = mapBlockIndex cs1" by auto
  have "ns_index cs' = cleared (\<lambda>r. r \<in> set (q # qs) \<and> ancestor ?H p r) ?H"
    unfolding c'(2) c1(2) cleared_cleared by (auto simp: cleared_def fun_eq_iff intro!: option.map_cong0)
  moreover have "set (setBlockIndexCandidates cs') = set (setBlockIndexCandidates cs) \<union>
      {r. r \<in> set (q # qs) \<and> ancestor ?H p r \<and> candidate_again ?H tip r}"
  proof -
    have again: "candidate_again (ns_index cs1) tip r = candidate_again ?H tip r" if "r \<noteq> q" for r
      unfolding c1(2) by (rule candidate_again_cleared) (use that in simp)
    have notq: "\<not> candidate_again (ns_index cs1) tip q" if "ancestor ?H p q"
      unfolding c1(2) by (rule candidate_not_again [where P = "\<lambda>r. r = q \<and> ancestor ?H p q"]) (use that in simp)
    show ?thesis unfolding c'(3) c1(3)
    proof (intro set_eqI)
      fix x
      show "x \<in> set (setBlockIndexCandidates cs) \<union> {r. r = q \<and> ancestor ?H p q \<and> candidate_again ?H tip r} \<union>
          {r. r \<in> set qs \<and> ancestor ?H p r \<and> candidate_again (ns_index cs1) tip r} \<longleftrightarrow>
        x \<in> set (setBlockIndexCandidates cs) \<union> {r. r \<in> set (q # qs) \<and> ancestor ?H p r \<and> candidate_again ?H tip r}"
        by (cases "x = q") (use again [of x] notq in auto)
    qed
  qed
  ultimately show ?case using c1(1,4,5) c'(1,4,5) by simp
qed

lemma reset_ancestors_ok:
  "tree_ok (ns_index cs) \<Longrightarrow> ns_index cs p = Some b \<Longrightarrow> nHeight b = n \<Longrightarrow>
   \<exists>cs'. reset_ancestors (Some p) cs = Some (Inr cs') \<and> ns_index cs' = cleared (\<lambda>r. ancestor (ns_index cs) r p) (ns_index cs) \<and>
     setBlockIndexCandidates cs' = setBlockIndexCandidates cs \<and> chainActive cs' = chainActive cs \<and> mapBlockIndex cs' = mapBlockIndex cs"
proof (induction n arbitrary: cs p b)
  case (0 cs p b)
  let ?H = "ns_index cs"
  have pr: "pprev b = None" using tree_prev [OF 0(1,2)] 0(3) by (cases "pprev b") auto
  have anc: "ancestor ?H r p \<longleftrightarrow> r = p" for r using ancestor_step [of ?H p b r, OF 0(2)] pr by simp
  have upd: "?H(p \<mapsto> clear_failed b) = cleared (\<lambda>r. r = p) ?H" using 0(2) by (auto simp: cleared_def fun_eq_iff option.map_ident)
  have same: "nStatus b AND BLOCK_FAILED_MASK = 0 \<Longrightarrow> ?H = cleared (\<lambda>r. r = p) ?H"
    using clear_not_failed [of b] 0(2) upd by (metis fun_upd_triv)
  show ?case unfolding anc
    using 0(2) pr upd same reset_ancestors.simps [of None]
    by (subst reset_ancestors.simps) auto
next
  case (Suc n cs p b)
  let ?H = "ns_index cs"
  obtain q where q: "pprev b = Some q" using tree_root [OF Suc.prems(1,2)] Suc.prems(3) by (cases "pprev b") auto
  have anc: "ancestor ?H r p \<longleftrightarrow> r = p \<or> ancestor ?H r q" for r using ancestor_step [of ?H p b r, OF Suc.prems(2)] q by simp
  define cs1 where "cs1 = (if nStatus b AND BLOCK_FAILED_MASK \<noteq> 0 then set_dirty p (set_entry p (clear_failed b) cs) else cs)"
  have upd: "?H(p \<mapsto> clear_failed b) = cleared (\<lambda>r. r = p) ?H" using Suc.prems(2) by (auto simp: cleared_def fun_eq_iff option.map_ident)
  have same: "nStatus b AND BLOCK_FAILED_MASK = 0 \<Longrightarrow> ?H = cleared (\<lambda>r. r = p) ?H"
    using clear_not_failed [of b] Suc.prems(2) upd by (metis fun_upd_triv)
  have H1: "ns_index cs1 = cleared (\<lambda>r. r = p) ?H" and fr: "setBlockIndexCandidates cs1 = setBlockIndexCandidates cs"
    "chainActive cs1 = chainActive cs" "mapBlockIndex cs1 = mapBlockIndex cs" using upd same by (auto simp: cs1_def)
  have s: "same_core ?H (ns_index cs1)" unfolding H1 by simp
  have anc1: "ancestor (ns_index cs1) = ancestor ?H" by (intro ext) (rule same_shape_ancestor [OF same_core_shape [OF s]])
  obtain d where d: "?H q = Some d" "nHeight d = n" using tree_prev [OF Suc.prems(1,2) q] Suc.prems(3) by auto
  then obtain d1 where d1: "ns_index cs1 q = Some d1" "nHeight d1 = n" using same_shape_at [OF same_core_shape [OF s] d(1)] by auto
  from Suc.IH [OF same_shape_tree [OF same_core_shape [OF s] Suc.prems(1)] d1] anc1 obtain cs' where
    c': "reset_ancestors (Some q) cs1 = Some (Inr cs')" "ns_index cs' = cleared (\<lambda>r. ancestor ?H r q) (ns_index cs1)"
    "setBlockIndexCandidates cs' = setBlockIndexCandidates cs1" "chainActive cs' = chainActive cs1" "mapBlockIndex cs' = mapBlockIndex cs1" by auto
  have "reset_ancestors (Some p) cs = reset_ancestors (Some q) cs1"
    using Suc.prems(2) q by (subst reset_ancestors.simps) (simp add: cs1_def)
  then show ?case using c' fr unfolding H1 cleared_cleared anc by simp
qed

theorem ResetBlockFailureFlags_ok:
  assumes t: "tree_ok (ns_index cs)" and tip: "Tip (chainActive cs) = Some tip" and p: "ns_index cs p = Some b"
    and entries: "set entries = dom (ns_index cs)"
  shows "\<exists>cs'. ResetBlockFailureFlags entries p cs = Some (Inr cs') \<and>
    ns_index cs' = cleared (\<lambda>q. ancestor (ns_index cs) p q \<or> ancestor (ns_index cs) q p) (ns_index cs) \<and>
    set (setBlockIndexCandidates cs') = set (setBlockIndexCandidates cs) \<union>
      {q. ancestor (ns_index cs) p q \<and> candidate_again (ns_index cs) tip q} \<and>
    chainActive cs' = chainActive cs \<and> mapBlockIndex cs' = mapBlockIndex cs"
proof -
  let ?H = "ns_index cs"
  obtain cs1 where c1: "reset_descendants p (int (nHeight b)) entries cs = Inr cs1"
    "ns_index cs1 = cleared (\<lambda>r. r \<in> set entries \<and> ancestor ?H p r) ?H"
    "set (setBlockIndexCandidates cs1) = set (setBlockIndexCandidates cs) \<union> {r. r \<in> set entries \<and> ancestor ?H p r \<and> candidate_again ?H tip r}"
    "chainActive cs1 = chainActive cs" "mapBlockIndex cs1 = mapBlockIndex cs"
    using reset_descendants_ok [OF t tip p, of entries] entries by auto
  have s: "same_core ?H (ns_index cs1)" unfolding c1(2) by simp
  have anc: "ancestor (ns_index cs1) = ancestor ?H" by (intro ext) (rule same_shape_ancestor [OF same_core_shape [OF s]])
  obtain b1 where b1: "ns_index cs1 p = Some b1" using same_shape_at [OF same_core_shape [OF s] p] by blast
  from reset_ancestors_ok [OF same_shape_tree [OF same_core_shape [OF s] t] b1 refl] anc obtain cs' where
    c': "reset_ancestors (Some p) cs1 = Some (Inr cs')" "ns_index cs' = cleared (\<lambda>r. ancestor ?H r p) (ns_index cs1)"
    "setBlockIndexCandidates cs' = setBlockIndexCandidates cs1" "chainActive cs' = chainActive cs1" "mapBlockIndex cs' = mapBlockIndex cs1" by auto
  have "ns_index cs' = cleared (\<lambda>q. ancestor ?H p q \<or> ancestor ?H q p) ?H"
    unfolding c'(2) c1(2) cleared_cleared entries by (auto simp: cleared_def fun_eq_iff intro!: option.map_cong0 split: option.splits)
  moreover have "candidate_again ?H tip r \<Longrightarrow> r \<in> set entries" for r unfolding entries by (auto simp: candidate_again_def)
  then have "set (setBlockIndexCandidates cs') = set (setBlockIndexCandidates cs) \<union> {q. ancestor ?H p q \<and> candidate_again ?H tip q}"
    unfolding c'(3) c1(3) by blast
  moreover have "ResetBlockFailureFlags entries p cs = Some (Inr cs')" using p c1(1) c'(1) by (simp add: ResetBlockFailureFlags_def deref_def)
  ultimately show ?thesis using c1(4,5) c'(4,5) by simp
qed

section \<open>A block that nobody asked for\<close>

lemma mark_failed_children_frame:
  "mark_failed_children t p cs = Some y \<Longrightarrow> y = Inr cs' \<Longrightarrow> ns_disk cs' = ns_disk cs \<and> chainActive cs' = chainActive cs"
proof (induction arbitrary: cs' rule: mark_failed_children.raw_induct [rotated, consumes 1, case_names 1])
  case (1 rec t p cs y cs')
  show ?case
  proof (cases "p = t")
    case True
    then show ?thesis using 1(2,3) by simp
  next
    case False
    then obtain b q where b: "ns_index cs p = Some b" "pprev b = Some q" using 1(2,3) by (auto split: option.splits)
    let ?cs = "set_dirty p (set_entry p (b\<lparr>nStatus := nStatus b OR BLOCK_FAILED_CHILD\<rparr>) cs)"
    have "rec t q ?cs = Some y" using 1(2) b False by simp
    from 1(1) [OF this 1(3)] show ?thesis by (simp add: set_dirty_def set_entry_def)
  qed
qed

lemma check_new_header_frame:
  assumes "check_new_header env params block cs = Some (r, cs')"
  shows "ns_disk cs' = ns_disk cs \<and> chainActive cs' = chainActive cs"
proof -
  have "cs' = cs \<or> (\<exists>f q. mark_failed_children f q cs = Some (Inr cs'))"
  proof (cases "CheckBlockHeader (block_env.truncate env) (Consensus_Params.truncate params) block True")
    case Inr1: (Inr u)
    note a = assms [unfolded check_new_header_def Inr1 sum.case]
    show ?thesis
    proof (cases "\<exists>q prev. mapBlockIndex cs (hashPrevBlock block) = Some q \<and> ns_index cs q = Some prev \<and> nStatus prev AND BLOCK_FAILED_MASK = 0")
      case True
      then obtain q prev where q: "mapBlockIndex cs (hashPrevBlock block) = Some q" "ns_index cs q = Some prev"
        "(nStatus prev AND BLOCK_FAILED_MASK \<noteq> 0) = False" by blast
      note a = a [unfolded q option.case if_False]
      obtain k where k: "ContextualCheckBlockHeader (ops512 env) (Consensus_Params.truncate params) (ae_checkpoints env)
          (mapBlockIndex cs) (ns_index cs) (GetBlockHeader block) (Some q) (AdjustedTime env) = Some k"
        using a by (auto split: bind_splits)
      note a = a [unfolded k bind.bind_lunit]
      obtain v where v: "IsValid prev BLOCK_VALID_SCRIPTS = Inr v"
        by (cases "IsValid prev BLOCK_VALID_SCRIPTS") (auto simp: IsValid_def block_status_defs split: if_splits)
      note a = a [unfolded v sum.case]
      show ?thesis
      proof (cases "k = Inr () \<and> \<not> v")
        case True
        then have kv: "k = Inr ()" "v = False" by simp_all
        note a = a [unfolded kv sum.case if_False]
        show ?thesis
        proof (cases "failed_ancestor (ns_index cs) (g_failed_blocks cs) q")
          case (Inl f)
          then show ?thesis using a by simp
        next
          case (Inr x)
          note a = a [unfolded Inr sum.case]
          show ?thesis
          proof (cases x)
            case None
            then show ?thesis using a by simp
          next
            case (Some f)
            then obtain m where m: "mark_failed_children f q cs = Some m" using a by (auto split: bind_splits)
            then show ?thesis using a [unfolded Some option.case m bind.bind_lunit] by (cases m) auto
          qed
        qed
      next
        case False
        then show ?thesis using a by (cases k) simp_all
      qed
    next
      case False
      then show ?thesis using a
        by (cases "mapBlockIndex cs (hashPrevBlock block)"; cases "ns_index cs (the (mapBlockIndex cs (hashPrevBlock block)))") simp_all
    qed
  qed (use assms in \<open>simp add: check_new_header_def\<close>)
  then show ?thesis using mark_failed_children_frame by blast
qed

lemma AddToBlockIndex_frame: "AddToBlockIndex h p block cs = Inr (q, cs') \<Longrightarrow> ns_disk cs' = ns_disk cs \<and> chainActive cs' = chainActive cs"
  by (auto simp: AddToBlockIndex_def Let_def set_dirty_def split: option.splits sum.splits if_splits prod.splits)

lemma accept_new_header_frame: "accept_new_header env p block cs = (r, cs') \<Longrightarrow> ns_disk cs' = ns_disk cs \<and> chainActive cs' = chainActive cs"
  by (auto simp: accept_new_header_def dest: AddToBlockIndex_frame split: sum.splits)

lemma AcceptBlockHeader_frame:
  assumes "AcceptBlockHeader env params p block cs = Some (r, cs')"
  shows "ns_disk cs' = ns_disk cs \<and> chainActive cs' = chainActive cs"
proof (cases "BlockHeader_GetHash (be_hash env) (GetBlockHeader block) = hashGenesisBlock params")
  case True
  then have "accept_new_header env p block cs = (r, cs')" using assms by (simp add: AcceptBlockHeader_def)
  then show ?thesis by (rule accept_new_header_frame)
next
  case False
  show ?thesis
  proof (cases "mapBlockIndex cs (BlockHeader_GetHash (be_hash env) (GetBlockHeader block))")
    case (Some q)
    then show ?thesis using assms False by (auto simp: AcceptBlockHeader_def split: option.splits if_splits)
  next
    case None
    then obtain r1 cs1 where c: "check_new_header env params block cs = Some (r1, cs1)"
      "(case r1 of Inl e \<Rightarrow> Some (Inl e, cs1) | Inr _ \<Rightarrow> Some (accept_new_header env p block cs1)) = Some (r, cs')"
      using assms False by (auto simp: AcceptBlockHeader_def split: bind_splits)
    then show ?thesis using check_new_header_frame [OF c(1)] accept_new_header_frame by (cases r1) force+
  qed
qed

lemma check_new_block_frame:
  "check_new_block env params block fc p b nd = (r, fc', nd') \<Longrightarrow> ns_disk nd' = ns_disk nd"
proof -
  assume r: "check_new_block env params block fc p b nd = (r, fc', nd')"
  obtain q fc1 where c: "CheckBlock (block_env.truncate (node_env.truncate env)) (Consensus_Params.truncate params) (ns_index nd) (chainActive nd) block
      fc True True = (q, fc1)"
    by (cases "CheckBlock (block_env.truncate (node_env.truncate env)) (Consensus_Params.truncate params) (ns_index nd) (chainActive nd) block fc True True")
  have "ns_disk (set_dirty p (set_entry p b' nd)) = ns_disk nd" for b' by (simp add: set_dirty_def set_entry_def)
  moreover have "nd' = nd \<or> (\<exists>b'. nd' = set_dirty p (set_entry p b' nd))"
    using r unfolding check_new_block_def c prod.case
    by (cases "bind_sum q (\<lambda>_. ContextualCheckBlock (be_hash env) (ns_index nd) block (pprev b))") (auto split: tx_error.splits if_splits)
  ultimately show ?thesis by metis
qed

lemma check_new_block_passed:
  assumes "check_new_block env params block fc p b nd = (Inr u, fc', nd')"
  shows "(\<exists>fc1. CheckBlock (block_env.truncate (node_env.truncate env)) (Consensus_Params.truncate params) (ns_index nd) (chainActive nd) block
      fc True True = (Inr (), fc1)) \<and> ContextualCheckBlock (be_hash env) (ns_index nd) block (pprev b) = Inr ()"
proof -
  obtain q fc1 where c: "CheckBlock (block_env.truncate (node_env.truncate env)) (Consensus_Params.truncate params) (ns_index nd) (chainActive nd) block
      fc True True = (q, fc1)"
    by (cases "CheckBlock (block_env.truncate (node_env.truncate env)) (Consensus_Params.truncate params) (ns_index nd) (chainActive nd) block fc True True")
  have "bind_sum q (\<lambda>_. ContextualCheckBlock (be_hash env) (ns_index nd) block (pprev b)) = Inr ()"
    using assms unfolding check_new_block_def c prod.case
    by (cases "bind_sum q (\<lambda>_. ContextualCheckBlock (be_hash env) (ns_index nd) block (pprev b))") (auto split: tx_error.splits if_splits)
  then show ?thesis unfolding c by (cases q) simp_all
qed

text \<open>What is written to the disk without having been asked for is a new block whose chain has at least the work of the tip
  and the least work that counts, not too far ahead of the tip, and it has passed all checks that need no coins.\<close>

theorem AcceptBlock_unrequested:
  assumes r: "AcceptBlock env params B new block fc False dbp nd = Some ((r, nd'), fc', fNew)"
    and tip: "Tip (chainActive nd) = Some t" and disk: "ns_disk nd' \<noteq> ns_disk nd"
  shows "\<exists>p b tip nd1. AcceptBlockHeader (accept_env.truncate env) params new block nd = Some (Inr p, nd1) \<and>
    ns_index nd1 p = Some b \<and> ns_index nd1 t = Some tip \<and> nTx b = 0 \<and> nStatus b AND BLOCK_HAVE_DATA = 0 \<and>
    0 \<le> CompareTo (nChainWork b) (nChainWork tip) \<and> 0 \<le> CompareTo (nChainWork b) (nMinimumChainWork env) \<and>
    int (nHeight b) \<le> Height (chainActive nd) + int MIN_BLOCKS_TO_KEEP \<and>
    (\<exists>fc1. CheckBlock (block_env.truncate (node_env.truncate env)) (Consensus_Params.truncate params) (ns_index nd1) (chainActive nd) block
      fc True True = (Inr (), fc1)) \<and> ContextualCheckBlock (be_hash env) (ns_index nd1) block (pprev b) = Inr ()"
proof -
  obtain q nd1 where h: "AcceptBlockHeader (accept_env.truncate env) params new block nd = Some (q, nd1)"
    using r by (auto simp: AcceptBlock_def split: bind_splits)
  note fr = AcceptBlockHeader_frame [OF h]
  note a = r [unfolded AcceptBlock_def h bind.bind_lunit prod.case]
  obtain p where q: "q = Inr p" using a disk fr by (cases q) auto
  obtain b store where b: "ns_index nd1 p = Some b" "worth_storing env False b nd1 = Inr store"
    using a disk fr unfolding q sum.case by (auto simp: deref_def split: option.splits sum.splits)
  have store using a disk fr b unfolding q sum.case by (cases store) (auto simp: deref_def)
  have a: "(case check_new_block env params block fc p b nd1 of (Inl e, fc, nd) \<Rightarrow> Some ((Inl e, nd), fc, True)
      | (Inr _, fc, nd) \<Rightarrow> map_option (\<lambda>out. (out, fc, True)) (store_block env B block p b dbp nd)) = Some ((r, nd'), fc', fNew)"
    using a b \<open>store\<close> unfolding q sum.case by (simp add: deref_def)
  obtain k fc1 nd2 where k: "check_new_block env params block fc p b nd1 = (k, fc1, nd2)"
    by (cases "check_new_block env params block fc p b nd1")
  note f2 = check_new_block_frame [OF k]
  have "k = Inr ()" using a disk fr f2 unfolding k prod.case by (cases k) auto
  note chk = check_new_block_passed [OF k [unfolded \<open>k = Inr ()\<close>]]
  obtain c where tp: "ns_index nd1 t = Some c" using b(2) tip fr by (auto simp: worth_storing_def deref_def split: option.splits)
  show ?thesis using h q b(1) tp chk b(2) \<open>store\<close> tip fr
    by (simp add: worth_storing_def deref_def Let_def split: if_splits)
qed

section \<open>Trying a block\<close>

lemma connect_checked_just:
  assumes "connect_checked env params B block b p True view ns = (r, view', ns')"
  shows "\<exists>c. ns' = ns\<lparr>scriptExecutionCache := c\<rparr>"
proof -
  have id: "\<exists>c. ns = ns\<lparr>scriptExecutionCache := c\<rparr>" by (rule exI [of _ "scriptExecutionCache ns"]) simp
  obtain best v where g: "Cache_GetBestBlock B view = (best, v)" by (cases "Cache_GetBestBlock B view")
  let ?start = "\<lparr>cs_view = v, nFees = 0, nSigOpsCost = 0, vtxundo = [], cs_checks = [], cs_cache = scriptExecutionCache ns\<rparr>"
  have fin: "connect_finish env params block h p prev True cs n = (k, w, n') \<Longrightarrow> n' = n" for h prev cs n k w n'
    by (auto simp: connect_finish_def Let_def split: option.splits if_splits)
  show ?thesis
  proof (cases "hash_of_prev (ns_index ns) b")
    case (Inl f)
    then show ?thesis using assms id by (simp add: connect_checked_def)
  next
    case (Inr h)
    note a = assms [unfolded connect_checked_def Inr sum.case g prod.case]
    show ?thesis
    proof (cases "h \<noteq> best \<or> (\<exists>e. fScriptChecks_for env params ns p = Inl e) \<or> (\<not> uint256_IsNull best \<and> pprev b = None)")
      case True
      then show ?thesis using a id by (auto split: if_splits sum.splits)
    next
      case False
      then obtain k where k: "fScriptChecks_for env params ns p = Inr k" by (cases "fScriptChecks_for env params ns p") auto
      obtain q cs where t: "connect_txs env B (ns_index ns) p (int (nHeight b)) True k True (vtx block) ?start = (q, cs)"
        by (cases "connect_txs env B (ns_index ns) p (int (nHeight b)) True k True (vtx block) ?start")
      show ?thesis using a False unfolding k sum.case t prod.case Let_def
        by (cases q) (auto dest: fin split: if_splits)
    qed
  qed
qed

lemma ConnectBlock_just:
  assumes "ConnectBlock env params B block fc p True view ns = (r, fc', view', ns')"
  shows "\<exists>c. ns' = ns\<lparr>scriptExecutionCache := c\<rparr>"
proof (cases "ns_index ns p")
  case None
  then show ?thesis using assms exI [of _ "scriptExecutionCache ns"] by (simp add: ConnectBlock_def)
next
  case (Some b)
  obtain q fc1 where ck: "CheckBlock (block_env.truncate env) (Consensus_Params.truncate params) (ns_index ns) (chainActive ns) block
      fc (\<not> True) (\<not> True) = (q, fc1)"
    by (cases "CheckBlock (block_env.truncate env) (Consensus_Params.truncate params) (ns_index ns) (chainActive ns) block
      fc (\<not> True) (\<not> True)")
  obtain r2 v2 n2 where cc: "connect_checked env params B block b p True view ns = (r2, v2, n2)"
    by (cases "connect_checked env params B block b p True view ns")
  have "ns' = ns \<or> ns' = n2" using assms unfolding ConnectBlock_def Some option.case ck cc prod.case
    by (cases q) (simp_all split: if_splits)
  then show ?thesis using connect_checked_just [OF cc] exI [of _ "scriptExecutionCache ns"] by auto
qed

text \<open>Whatever the answer, trying a block changes nothing but the two caches, and the coins are only read.\<close>

theorem TestBlockValidity_keeps:
  assumes free: "ns_index nd p = None" and r: "TestBlockValidity env params B p block fc q pow root nd = Some ((r, nd'), fc')"
  shows "\<exists>c v. nd' = nd\<lparr>scriptExecutionCache := c, pcoinsTip := v\<rparr> \<and> reads (Cache_ops B) (pcoinsTip nd) v"
proof (cases "nd' = nd")
  case True
  then show ?thesis by (intro exI [of _ "scriptExecutionCache nd"] exI [of _ "pcoinsTip nd"]) simp
next
  case False
  obtain prev where q: "(Tip (chainActive nd) \<noteq> Some q) = False" "ns_index nd q = Some prev"
    using r False by (auto simp: TestBlockValidity_def split: if_splits option.splits)
  note a = r [unfolded TestBlockValidity_def q if_False option.case]
  obtain k where k: "ContextualCheckBlockHeader (ops512 env) (Consensus_Params.truncate params) (ae_checkpoints env)
      (mapBlockIndex nd) (ns_index nd) (GetBlockHeader block) (Some q) (AdjustedTime env) = Some k"
    using a by (auto split: bind_splits)
  note a = a [unfolded k bind.bind_lunit option.inject]
  obtain u where u: "k = Inr u" using a False by (cases k) auto
  obtain m fc1 where m: "CheckBlock (block_env.truncate (node_env.truncate env)) (Consensus_Params.truncate params) (ns_index nd) (chainActive nd)
      block fc pow root = (m, fc1)"
    by (cases "CheckBlock (block_env.truncate (node_env.truncate env)) (Consensus_Params.truncate params) (ns_index nd) (chainActive nd)
      block fc pow root")
  note a = a [unfolded u sum.case m prod.case]
  obtain u' where u': "m = Inr u'" using a False by (cases m) auto
  note a = a [unfolded u' sum.case]
  obtain u'' where u'': "ContextualCheckBlock (be_hash env) (ns_index nd) block (Some q) = Inr u''"
    using a False by (cases "ContextualCheckBlock (be_hash env) (ns_index nd) block (Some q)") auto
  define b where "b = dummy_entry block q prev (BlockHeader_GetHash (be_hash env) (GetBlockHeader block))"
  define ns0 where "ns0 = (node_state.truncate nd)\<lparr>ns_index := (ns_index nd)(p \<mapsto> b)\<rparr>"
  obtain r1 fc2 view ns where c: "ConnectBlock (node_env.truncate env) params (Cache_ops B) block fc1 p True
      (CCoinsViewCache_new (pcoinsTip nd)) ns0 = (r1, fc2, view, ns)"
    by (cases "ConnectBlock (node_env.truncate env) params (Cache_ops B) block fc1 p True (CCoinsViewCache_new (pcoinsTip nd)) ns0")
  have nd': "nd' = (put_state (ns\<lparr>ns_index := (ns_index ns)(p := None)\<rparr>) nd)\<lparr>pcoinsTip := base view\<rparr>"
    using a unfolding u'' sum.case Let_def truncate_sel b_def [symmetric] ns0_def [symmetric] c prod.case by simp
  obtain ca where ca: "ns = ns0\<lparr>scriptExecutionCache := ca\<rparr>" using ConnectBlock_just [OF c] by blast
  have del: "((ns_index nd)(p \<mapsto> b))(p := None) = ns_index nd" using free by auto
  have "nd' = nd\<lparr>scriptExecutionCache := ca, pcoinsTip := base view\<rparr>"
    unfolding nd' ca ns0_def using del
    by (cases nd) (simp add: put_state_def node_state.truncate_def node_state.extend_def)
  then show ?thesis using ConnectBlock_reads [OF c] by auto
qed

section \<open>An invalidated block\<close>

definition chain_same :: "'z chain_state_scheme \<Rightarrow> 'z chain_state_scheme \<Rightarrow> bool" where
  "chain_same cs cs' \<longleftrightarrow> same_core (ns_index cs) (ns_index cs') \<and> chainActive cs' = chainActive cs"

lemma chain_same_refl [simp]: "chain_same cs cs"
  by (simp add: chain_same_def)

lemma chain_same_trans: "chain_same a b \<Longrightarrow> chain_same b c \<Longrightarrow> chain_same a c"
  using same_core_trans by (auto simp: chain_same_def)

lemma chain_kept_same: "chain_kept a b \<Longrightarrow> chain_same a b"
  by (simp add: chain_kept_def kept_def chain_same_def)

lemma chain_same_contains:
  assumes "chain_same cs cs'"
  shows "Contains (ns_index cs') (chainActive cs') p = Contains (ns_index cs) (chainActive cs) p"
proof -
  have s: "same_core (ns_index cs) (ns_index cs')" and c: "chainActive cs' = chainActive cs" using assms by (simp_all add: chain_same_def)
  show ?thesis using same_core_None [OF s, of p] same_core_at [OF s, of p]
    by (cases "ns_index cs' p"; cases "ns_index cs p") (auto simp: Contains_def deref_def c)
qed

lemma mark_same: "ns_index cs p = Some b \<Longrightarrow> chain_same cs (erase_candidate p (set_dirty p (set_entry p (b\<lparr>nStatus := s\<rparr>) cs)))"
  by (auto simp: chain_same_def entry_core_def intro: same_core_upd)

lemma mark_disconnected_same: "mark_disconnected p walk cs = Some y \<Longrightarrow> y = Inr cs' \<Longrightarrow> chain_same cs cs'"
proof (induction arbitrary: cs' rule: mark_disconnected.raw_induct [rotated, consumes 1, case_names 1])
  case (1 rec p walk cs y cs')
  show ?case
  proof (cases "walk = Some p")
    case True
    then show ?thesis using 1(2,3) by simp
  next
    case False
    then obtain q b where b: "walk = Some q" "ns_index cs q = Some b" using 1(2,3) by (auto split: option.splits)
    let ?cs = "erase_candidate q (set_dirty q (set_entry q (b\<lparr>nStatus := nStatus b OR BLOCK_FAILED_CHILD\<rparr>) cs))"
    have "rec p (pprev b) ?cs = Some y" using 1(2) b False by simp
    from chain_same_trans [OF mark_same [OF b(2)] 1(1) [OF this 1(3)]] show ?thesis .
  qed
qed

lemma readd_candidates_same: "readd_candidates qs cs = Inr cs' \<Longrightarrow> chain_same cs cs'"
proof (induction qs arbitrary: cs)
  case (Cons q qs)
  have a: "chain_same cs (add_candidate q cs)" by (simp add: chain_same_def add_candidate_def)
  have "readd_candidates qs cs = Inr cs' \<or> readd_candidates qs (add_candidate q cs) = Inr cs'"
    using Cons.prems by (auto split: sum.splits option.splits if_splits)
  then show ?case using Cons.IH chain_same_trans [OF a] by blast
qed simp

lemma disconnect_from_gone:
  "disconnect_from env params B p pool nd = Some out \<Longrightarrow> out = ((Inr True, nd'), pool') \<Longrightarrow>
   Contains (ns_index nd') (chainActive nd') p = Inr False"
proof (induction rule: disconnect_from.raw_induct [rotated, consumes 1, case_names 1])
  case (1 rec env params B p pool nd out)
  show ?case
  proof (cases "Contains (ns_index nd) (chainActive nd) p")
    case (Inl f)
    then show ?thesis using 1(2,3) by simp
  next
    case (Inr c)
    show ?thesis
    proof (cases c)
      case False
      then show ?thesis using 1(2,3) Inr by simp
    next
      case True
      then obtain r1 nd1 pool1 where d: "DisconnectTip env params B pool nd = Some ((r1, nd1), pool1)"
        using 1(2) Inr by (auto split: bind_splits)
      then have "r1 = Inr True" "rec env params B p pool1 nd1 = Some out"
        using 1(2,3) Inr True by (auto split: if_splits)
      then show ?thesis using 1(1) 1(3) by blast
    qed
  qed
qed

text \<open>When it succeeds the block is no longer in the active chain.\<close>

theorem InvalidateBlock_gone:
  assumes safe: "pool_safe env" and r: "InvalidateBlock env params B p nd = Some (Inr True, nd')"
  shows "Contains (ns_index nd') (chainActive nd') p = Inr False"
proof -
  obtain r1 nd1 pool where d: "disconnect_from env params B p (Some DisconnectedBlockTransactions_new) nd = Some ((r1, nd1), pool)"
    using r by (auto simp: InvalidateBlock_def Let_def split: bind_splits)
  note a = r [unfolded InvalidateBlock_def Let_def d bind.bind_lunit prod.case]
  have r1: "r1 = Inr True" using a by (auto split: sum.splits if_splits)
  note a = a [unfolded r1 sum.case simp_thms if_False]
  note gone = disconnect_from_gone [OF d, of nd1 pool, unfolded r1, OF refl]
  obtain m where m: "(if Contains (ns_index nd) (chainActive nd) p = Inr True then mark_disconnected p (Tip (chainActive nd)) nd1 else Some (Inr nd1)) = Some m"
    using a by (auto split: bind_splits)
  note a = a [unfolded m bind.bind_lunit]
  obtain nd2 where m2: "m = Inr nd2" using a by (cases m) auto
  have s2: "chain_same nd1 nd2" using m m2 mark_disconnected_same [of p "Tip (chainActive nd)" nd1 m nd2] by (auto split: if_splits)
  obtain nd3 where n3: "mark_invalid p nd2 = Inr nd3" using a m2 by (cases "mark_invalid p nd2") auto
  have s3: "chain_same nd2 nd3"
  proof -
    obtain b where b: "ns_index nd2 p = Some b" using n3 by (auto simp: mark_invalid_def deref_def split: option.splits)
    from mark_same [OF b] n3 b show ?thesis by (auto simp: mark_invalid_def deref_def Let_def chain_same_def)
  qed
  obtain txs nd4 where n4: "UpdateMempoolForReorg env txs True nd3 = Inr nd4"
    "bind_sum (readd_candidates (map_order env (mapBlockIndex nd4)) nd4) (InvalidChainFound p) = Inr nd'"
    using a m2 n3 by (auto split: sum.splits)
  have s4: "chain_same nd3 nd4" using safe n4(1) chain_kept_same unfolding pool_safe_def by blast
  obtain nd5 where n5: "readd_candidates (map_order env (mapBlockIndex nd4)) nd4 = Inr nd5" "InvalidChainFound p nd5 = Inr nd'"
    using n4(2) by (auto split: sum.splits)
  have s5: "chain_same nd5 nd'" using InvalidChainFound_kept [OF n5(2)] chain_kept_same by blast
  have "chain_same nd1 nd'"
    using chain_same_trans [OF chain_same_trans [OF chain_same_trans [OF chain_same_trans [OF s2 s3] s4] readd_candidates_same [OF n5(1)]] s5] .
  from chain_same_contains [OF this] gone show ?thesis by simp
qed

end
