(* ===== verification/PartialMerkle.thy ===== *)
theory PartialMerkle imports Merkle
begin

unbundle bit_operations_syntax

text \<open>
  Partial Merkle trees, \<open>CPartialMerkleTree\<close> of \<^verbatim>\<open>src/src/merkleblock.h\<close> and \<^verbatim>\<open>src/src/merkleblock.cpp\<close>: the proof
  that a set of transactions is in a block.  Building a tree and extracting it gives back the matches and
  the Merkle root of the block, also across the wire, where the bits are padded to whole bytes; and every
  transaction extracted from a tree with the root of a block is one of that block, unless two hashed pairs
  collide.
\<close>

section \<open>The tree\<close>

record CPartialMerkleTree =
  nTransactions :: u32
  vBits :: "bool list"
  vHash :: "uint256 list"
  fBad :: bool

definition CPartialMerkleTree_null :: CPartialMerkleTree where
  "CPartialMerkleTree_null = \<lparr>nTransactions = 0, vBits = [], vHash = [], fBad = True\<rparr>"

definition CalcTreeWidth :: "u32 \<Rightarrow> nat \<Rightarrow> u32" where
  "CalcTreeWidth n height = drop_bit height (n + push_bit height 1 - 1)"

function tree_nHeight :: "u32 \<Rightarrow> nat \<Rightarrow> nat" where
  "tree_nHeight n nHeight = (if 1 < CalcTreeWidth n nHeight then tree_nHeight n (nHeight + 1) else nHeight)"
  by pat_completeness auto
termination
proof (relation "measure (\<lambda>(n, nHeight). 32 - nHeight)", rule wf_measure)
  fix n :: u32 and h :: nat
  assume w: "1 < CalcTreeWidth n h"
  have "h < 32"
  proof (rule ccontr)
    assume "\<not> h < 32"
    then have "drop_bit h x = 0" for x :: u32
      by (intro bit_word_eqI) (auto simp: bit_simps dest: bit_imp_le_length)
    with w show False by (simp add: CalcTreeWidth_def)
  qed
  then show "((n, h + 1), n, h) \<in> measure (\<lambda>(n, nHeight). 32 - nHeight)" by simp
qed

declare tree_nHeight.simps [simp del]

text \<open>\<open>None\<close>: the assertion that there is a transaction, or an access past the end.\<close>

primrec CalcHash ::
  "(uint256 \<Rightarrow> uint256 \<Rightarrow> uint256) \<Rightarrow> u32 \<Rightarrow> uint256 list \<Rightarrow> nat \<Rightarrow> nat \<Rightarrow> uint256 option" where
  "CalcHash H n vTxid 0 pos = (if pos < length vTxid then Some (vTxid ! pos) else None)"
| "CalcHash H n vTxid (Suc height) pos =
     (if vTxid = [] then None
      else Option.bind (CalcHash H n vTxid height (pos * 2)) (\<lambda>left.
        Option.bind (if pos * 2 + 1 < unat (CalcTreeWidth n height) then CalcHash H n vTxid height (pos * 2 + 1)
                     else Some left) (\<lambda>right.
          Some (H left right))))"

definition fParentOfMatch :: "u32 \<Rightarrow> bool list \<Rightarrow> nat \<Rightarrow> nat \<Rightarrow> bool" where
  "fParentOfMatch n vMatch height pos =
     list_ex (\<lambda>p. vMatch ! p) [pos * 2 ^ height ..< min ((pos + 1) * 2 ^ height) (unat n)]"

primrec TraverseAndBuild ::
  "(uint256 \<Rightarrow> uint256 \<Rightarrow> uint256) \<Rightarrow> u32 \<Rightarrow> uint256 list \<Rightarrow> bool list \<Rightarrow> nat \<Rightarrow> nat \<Rightarrow>
   bool list \<times> uint256 list \<Rightarrow> (bool list \<times> uint256 list) option" where
  "TraverseAndBuild H n vTxid vMatch 0 pos s =
     Option.bind (CalcHash H n vTxid 0 pos) (\<lambda>hash.
       Some (fst s @ [fParentOfMatch n vMatch 0 pos], snd s @ [hash]))"
| "TraverseAndBuild H n vTxid vMatch (Suc height) pos s =
     (let f = fParentOfMatch n vMatch (Suc height) pos; s = (fst s @ [f], snd s) in
      if \<not> f then
        Option.bind (CalcHash H n vTxid (Suc height) pos) (\<lambda>hash. Some (fst s, snd s @ [hash]))
      else
        Option.bind (TraverseAndBuild H n vTxid vMatch height (pos * 2) s) (\<lambda>s.
          if pos * 2 + 1 < unat (CalcTreeWidth n height)
          then TraverseAndBuild H n vTxid vMatch height (pos * 2 + 1) s else Some s))"

definition CPartialMerkleTree_build ::
  "(uint256 \<Rightarrow> uint256 \<Rightarrow> uint256) \<Rightarrow> uint256 list \<Rightarrow> bool list \<Rightarrow> CPartialMerkleTree option" where
  "CPartialMerkleTree_build H vTxid vMatch =
     (let n = of_nat (length vTxid) in
      Option.bind (TraverseAndBuild H n vTxid vMatch (tree_nHeight n 0) 0 ([], [])) (\<lambda>s.
        Some \<lparr>nTransactions = n, vBits = fst s, vHash = snd s, fBad = False\<rparr>))"

section \<open>Extraction\<close>

record extraction =
  nBitsUsed :: nat
  nHashUsed :: nat
  x_fBad :: bool
  x_vMatch :: "uint256 list"
  x_vnIndex :: "nat list"

primrec TraverseAndExtract ::
  "(uint256 \<Rightarrow> uint256 \<Rightarrow> uint256) \<Rightarrow> CPartialMerkleTree \<Rightarrow> nat \<Rightarrow> nat \<Rightarrow> extraction \<Rightarrow> uint256 \<times> extraction" where
  "TraverseAndExtract H t 0 pos s =
     (if length (vBits t) \<le> nBitsUsed s then (0, s\<lparr>x_fBad := True\<rparr>)
      else let f = vBits t ! nBitsUsed s; s = s\<lparr>nBitsUsed := nBitsUsed s + 1\<rparr> in
        if length (vHash t) \<le> nHashUsed s then (0, s\<lparr>x_fBad := True\<rparr>)
        else let hash = vHash t ! nHashUsed s; s = s\<lparr>nHashUsed := nHashUsed s + 1\<rparr> in
          (hash, if f then s\<lparr>x_vMatch := x_vMatch s @ [hash], x_vnIndex := x_vnIndex s @ [pos]\<rparr> else s))"
| "TraverseAndExtract H t (Suc height) pos s =
     (if length (vBits t) \<le> nBitsUsed s then (0, s\<lparr>x_fBad := True\<rparr>)
      else let f = vBits t ! nBitsUsed s; s = s\<lparr>nBitsUsed := nBitsUsed s + 1\<rparr> in
        if \<not> f then
          if length (vHash t) \<le> nHashUsed s then (0, s\<lparr>x_fBad := True\<rparr>)
          else (vHash t ! nHashUsed s, s\<lparr>nHashUsed := nHashUsed s + 1\<rparr>)
        else let (left, s) = TraverseAndExtract H t height (pos * 2) s in
          if pos * 2 + 1 < unat (CalcTreeWidth (nTransactions t) height) then
            let (right, s) = TraverseAndExtract H t height (pos * 2 + 1) s in
            (H left right, if right = left then s\<lparr>x_fBad := True\<rparr> else s)
          else (H left left, s))"

text \<open>The root (0 on failure), the matches, the indices, which are appended to those the caller passes, and
  the tree with its flag.\<close>

definition ExtractMatches ::
  "(uint256 \<Rightarrow> uint256 \<Rightarrow> uint256) \<Rightarrow> CPartialMerkleTree \<Rightarrow> nat list \<Rightarrow>
   uint256 \<times> uint256 list \<times> nat list \<times> CPartialMerkleTree" where
  "ExtractMatches H t vnIndex =
     (if nTransactions t = 0 then (0, [], vnIndex, t)
      else if MAX_BLOCK_WEIGHT div MIN_TRANSACTION_WEIGHT < unat (nTransactions t) then (0, [], vnIndex, t)
      else if unat (nTransactions t) < length (vHash t) then (0, [], vnIndex, t)
      else if length (vBits t) < length (vHash t) then (0, [], vnIndex, t)
      else let (hashMerkleRoot, s) = TraverseAndExtract H t (tree_nHeight (nTransactions t) 0) 0
                 \<lparr>nBitsUsed = 0, nHashUsed = 0, x_fBad = fBad t, x_vMatch = [], x_vnIndex = vnIndex\<rparr>;
               t' = t\<lparr>fBad := x_fBad s\<rparr>
           in (if x_fBad s \<or> (nBitsUsed s + 7) div 8 \<noteq> (length (vBits t) + 7) div 8 \<or>
                  nHashUsed s \<noteq> length (vHash t) then 0 else hashMerkleRoot,
               x_vMatch s, x_vnIndex s, t'))"

section \<open>The wire format\<close>

definition pack_bits :: "bool list \<Rightarrow> bytes" where
  "pack_bits bs = map (\<lambda>j. fold (\<lambda>i b. b OR (if 8 * j + i < length bs \<and> bs ! (8 * j + i) then push_bit i 1 else 0))
     [0..<8] 0) [0..<(length bs + 7) div 8]"

definition unpack_bits :: "bytes \<Rightarrow> bool list" where
  "unpack_bits bs = map (\<lambda>p. bit (bs ! (p div 8)) (p mod 8)) [0..<8 * length bs]"

definition Serialize_CPartialMerkleTree :: "CPartialMerkleTree \<Rightarrow> bytes" where
  "Serialize_CPartialMerkleTree t =
     ser_writedata32 (nTransactions t) @ Serialize_vector uint256_bytes (vHash t) @
     Serialize_bytes (pack_bits (vBits t))"

definition Unserialize_CPartialMerkleTree :: "CPartialMerkleTree reader" where
  "Unserialize_CPartialMerkleTree s =
     bind_sum (ser_readdata32 s) (\<lambda>(n, s). bind_sum (Unserialize_vector Unserialize_uint256 32 s) (\<lambda>(hs, s).
     bind_sum (Unserialize_bytes s) (\<lambda>(bs, s).
       Inr (\<lparr>nTransactions = n, vBits = unpack_bits bs, vHash = hs, fBad = False\<rparr>, s))))"

section \<open>The nodes of the tree\<close>

lemma CalcTreeWidth_num:
  assumes "unat n + 2 ^ h \<le> 2 ^ 32"
  shows "unat (CalcTreeWidth n h) = tree_width (unat n) h"
proof -
  have "1 \<le> unat n + 2 ^ h" using one_le_power [of "2 :: nat" h] by linarith
  then have "n + push_bit h 1 - 1 = of_nat (unat n + 2 ^ h - 1)"
    by (simp add: of_nat_diff push_bit_eq_mult)
  moreover have "unat n + 2 ^ h - 1 < 2 ^ 32" using assms by (simp add: le_diff_iff)
  ultimately have "unat (n + push_bit h 1 - 1) = unat n + 2 ^ h - 1"
    by (simp add: unat_of_nat)
  then show ?thesis
    unfolding CalcTreeWidth_def tree_width_def unat_drop_bit_eq by (simp only: drop_bit_eq_div)
qed

lemma width_less:
  assumes "unat n < 2 ^ 30" "0 < unat n" "h \<le> 31"
  shows "pos < unat (CalcTreeWidth n h) \<longleftrightarrow> pos * 2 ^ h < unat n"
proof -
  have "(2 :: nat) ^ h \<le> 2 ^ 31" using assms(3) by (rule power_increasing) simp
  then have "unat n + 2 ^ h \<le> 2 ^ 32" using assms(1) by simp
  then show ?thesis using assms(2) by (simp add: CalcTreeWidth_num tree_width_gt)
qed

lemma tree_nHeight_eq:
  "unat n < 2 ^ 30 \<Longrightarrow> 0 < unat n \<Longrightarrow> 2 ^ h < 2 * unat n \<Longrightarrow> tree_nHeight n h = height_from (unat n) h"
proof (induction n h rule: tree_nHeight.induct)
  case (1 n h)
  have "(2 :: nat) ^ h < 2 ^ 31" using 1(2,4) by simp
  then have "h < 31" by (rule power_less_imp_less_exp [rotated]) simp
  then have w: "1 < CalcTreeWidth n h \<longleftrightarrow> 2 ^ h < unat n" "1 < tree_width (unat n) h \<longleftrightarrow> 2 ^ h < unat n"
    using width_less [OF 1(2,3), of h 1] 1(3) by (simp_all add: word_less_nat_alt tree_width_gt)
  show ?case
    using 1 w by (subst tree_nHeight.simps, subst height_from.simps) simp
qed

lemma CalcHash_node:
  assumes n: "length xs < 2 ^ 30" and num: "unat n = length xs"
  shows "h \<le> 31 \<Longrightarrow> pos * 2 ^ h < length xs \<Longrightarrow> CalcHash H n xs h pos = Some (node H xs h pos)"
proof (induction h arbitrary: pos)
  case 0
  then show ?case by (simp add: node_0)
next
  case (Suc h)
  have n0: "0 < unat n" using Suc.prems(2) num by (cases xs) simp_all
  have w: "pos * 2 + 1 < unat (CalcTreeWidth n h) \<longleftrightarrow> (pos * 2 + 1) * 2 ^ h < length xs"
    using width_less [of n h "pos * 2 + 1"] n n0 num Suc.prems(1) by simp
  have "pos * 2 * 2 ^ h < length xs" using Suc.prems(2) by (simp add: ac_simps)
  with Suc have l: "CalcHash H n xs h (pos * 2) = Some (node H xs h (pos * 2))" by simp
  have r: "CalcHash H n xs h (pos * 2 + 1) = Some (node H xs h (pos * 2 + 1))" if "(pos * 2 + 1) * 2 ^ h < length xs"
    using Suc that by simp
  show ?case
    unfolding CalcHash.simps w l node_Suc [OF Suc.prems(2)] using r Suc.prems(2)
    by (auto simp: mult.commute [of pos 2])
qed

section \<open>Building and extracting\<close>

definition leaves_below :: "nat \<Rightarrow> nat \<Rightarrow> nat \<Rightarrow> nat list" where
  "leaves_below N h pos = [pos * 2 ^ h ..< min ((pos + 1) * 2 ^ h) N]"

lemma upt_split_min:
  fixes P :: nat
  assumes "P \<le> M" "M \<le> K"
  shows "[P..<min K N] = [P..<min M N] @ [M..<min K N]"
proof (cases "N \<le> M")
  case True
  then have "min K N = N" "min M N = N" "[M..<N] = []" using assms by simp_all
  then show ?thesis by (simp only: append_Nil2)
next
  case False
  then have "min M N = M" by simp
  moreover have "M \<le> min K N" using False assms(2) by simp
  then obtain d where "min K N = M + d" using le_Suc_ex by blast
  ultimately show ?thesis using upt_add_eq_append [OF assms(1), of d] by simp
qed

lemma leaves_below_Suc: "leaves_below N (Suc h) pos = leaves_below N h (pos * 2) @ leaves_below N h (pos * 2 + 1)"
proof -
  define P where "P = pos * (2 * 2 ^ h)"
  define Q :: nat where "Q = 2 ^ h"
  have e: "pos * 2 ^ Suc h = P" "(pos + 1) * 2 ^ Suc h = P + 2 * Q" "pos * 2 * 2 ^ h = P"
    "(pos * 2 + 1) * 2 ^ h = P + Q" "(pos * 2 + 1 + 1) * 2 ^ h = P + 2 * Q"
    by (simp_all add: P_def Q_def algebra_simps)
  show ?thesis unfolding leaves_below_def e by (rule upt_split_min) simp_all
qed

definition matches_below :: "nat \<Rightarrow> bool list \<Rightarrow> nat \<Rightarrow> nat \<Rightarrow> nat list" where
  "matches_below N vMatch h pos = filter (\<lambda>p. vMatch ! p) (leaves_below N h pos)"

lemma fParentOfMatch_iff: "fParentOfMatch n vMatch h pos \<longleftrightarrow> matches_below (unat n) vMatch h pos \<noteq> []"
  by (auto simp: fParentOfMatch_def matches_below_def leaves_below_def list_ex_iff filter_empty_conv)

lemma matches_below_Suc:
  "matches_below N vMatch (Suc h) pos = matches_below N vMatch h (pos * 2) @ matches_below N vMatch h (pos * 2 + 1)"
  by (simp add: matches_below_def leaves_below_Suc)

lemma leaves_below_empty: "N \<le> pos * 2 ^ h \<Longrightarrow> leaves_below N h pos = []"
  by (simp add: leaves_below_def)

text \<open>No node has the hash of its sibling.\<close>

definition siblings_differ :: "(uint256 \<Rightarrow> uint256 \<Rightarrow> uint256) \<Rightarrow> uint256 list \<Rightarrow> bool" where
  "siblings_differ H xs \<longleftrightarrow>
     (\<forall>h i. (2 * i + 1) * 2 ^ h < length xs \<longrightarrow> node H xs h (2 * i) \<noteq> node H xs h (2 * i + 1))"

text \<open>What building appends at a node, and that extraction reads it back.\<close>

definition reads_back ::
  "(uint256 \<Rightarrow> uint256 \<Rightarrow> uint256) \<Rightarrow> uint256 list \<Rightarrow> u32 \<Rightarrow> bool list \<Rightarrow> nat \<Rightarrow> nat \<Rightarrow> bool list \<Rightarrow> uint256 list \<Rightarrow> bool" where
  "reads_back H xs n vMatch h pos b g \<longleftrightarrow>
     (\<forall>t s bs bs' hs hs'.
        nTransactions t = n \<longrightarrow> vBits t = bs @ b @ bs' \<longrightarrow> vHash t = hs @ g @ hs' \<longrightarrow>
        nBitsUsed s = length bs \<longrightarrow> nHashUsed s = length hs \<longrightarrow>
        TraverseAndExtract H t h pos s =
          (node H xs h pos, s\<lparr>nBitsUsed := length bs + length b, nHashUsed := length hs + length g,
             x_vMatch := x_vMatch s @ map ((!) xs) (matches_below (length xs) vMatch h pos),
             x_vnIndex := x_vnIndex s @ matches_below (length xs) vMatch h pos\<rparr>))"

lemma reads_backD:
  "reads_back H xs n vMatch h pos b g \<Longrightarrow> nTransactions t = n \<Longrightarrow> vBits t = bs @ b @ bs' \<Longrightarrow>
   vHash t = hs @ g @ hs' \<Longrightarrow> nBitsUsed s = length bs \<Longrightarrow> nHashUsed s = length hs \<Longrightarrow>
   TraverseAndExtract H t h pos s =
     (node H xs h pos, s\<lparr>nBitsUsed := length bs + length b, nHashUsed := length hs + length g,
        x_vMatch := x_vMatch s @ map ((!) xs) (matches_below (length xs) vMatch h pos),
        x_vnIndex := x_vnIndex s @ matches_below (length xs) vMatch h pos\<rparr>)"
  unfolding reads_back_def by blast

lemma leaves_below_0: "pos < N \<Longrightarrow> leaves_below N 0 pos = [pos]"
  by (simp add: leaves_below_def)

lemma build_extract:
  assumes n: "length xs < 2 ^ 30" and num: "unat n = length xs" and d: "siblings_differ H xs"
  shows "h \<le> 31 \<Longrightarrow> pos * 2 ^ h < length xs \<Longrightarrow>
    \<exists>b g. TraverseAndBuild H n xs vMatch h pos s = Some (fst s @ b, snd s @ g) \<and>
      0 < length g \<and> length g \<le> length b \<and> length g \<le> length (leaves_below (length xs) h pos) \<and>
      length b < 2 ^ Suc h \<and>
      reads_back H xs n vMatch h pos b g"
proof (induction h arbitrary: pos s)
  case 0
  then have l: "pos < length xs" by simp
  let ?f = "fParentOfMatch n vMatch 0 pos"
  have m: "matches_below (length xs) vMatch 0 pos = (if ?f then [pos] else [])"
    using l num by (simp add: fParentOfMatch_iff matches_below_def leaves_below_0)
  have "reads_back H xs n vMatch 0 pos [?f] [xs ! pos]"
    unfolding reads_back_def m using l by (simp add: Let_def nth_append node_0)
  then show ?case using l n by (intro exI [of _ "[?f]"] exI [of _ "[xs ! pos]"]) (simp add: leaves_below_0)
next
  case (Suc h)
  let ?f = "fParentOfMatch n vMatch (Suc h) pos"
  have ne: "0 < unat n" using Suc.prems(2) num by (cases xs) simp_all
  have l0: "pos * 2 * 2 ^ h < length xs" using Suc.prems(2) by (simp add: ac_simps)
  show ?case
  proof (cases ?f)
    case False
    have c: "CalcHash H n xs (Suc h) pos = Some (node H xs (Suc h) pos)"
      by (rule CalcHash_node [OF n num Suc.prems])
    have m: "matches_below (length xs) vMatch (Suc h) pos = []"
      using False num by (simp add: fParentOfMatch_iff)
    have "reads_back H xs n vMatch (Suc h) pos [False] [node H xs (Suc h) pos]"
      unfolding reads_back_def m by (simp add: Let_def nth_append)
    moreover have "1 \<le> length (leaves_below (length xs) (Suc h) pos)"
    proof -
      have "pos * 2 ^ Suc h < min ((pos + 1) * 2 ^ Suc h) (length xs)" using Suc.prems(2) by simp
      then show ?thesis unfolding leaves_below_def length_upt by linarith
    qed
    moreover have "length [False] < 2 ^ Suc (Suc h)" using one_less_power [of "2 :: nat" "Suc (Suc h)"] by simp
    ultimately show ?thesis using False c
      by (intro exI [of _ "[False]"] exI [of _ "[node H xs (Suc h) pos]"]) (simp add: Let_def del: CalcHash.simps)
  next
    case True
    note fm = True
    have w: "pos * 2 + 1 < unat (CalcTreeWidth n h) \<longleftrightarrow> (pos * 2 + 1) * 2 ^ h < length xs"
      using width_less [of n h "pos * 2 + 1"] n ne num Suc.prems(1) by simp
    obtain b g where L: "TraverseAndBuild H n xs vMatch h (pos * 2) (fst s @ [True], snd s) =
        Some (fst s @ [True] @ b, snd s @ g)" "0 < length g" "length g \<le> length b"
        "length g \<le> length (leaves_below (length xs) h (pos * 2))" "reads_back H xs n vMatch h (pos * 2) b g"
        "length b < 2 ^ Suc h"
      using Suc.IH [OF _ l0, of "(fst s @ [True], snd s)"] Suc.prems(1) by auto
    show ?thesis
    proof (cases "(pos * 2 + 1) * 2 ^ h < length xs")
      case False
      then have m: "matches_below (length xs) vMatch (Suc h) pos = matches_below (length xs) vMatch h (pos * 2)"
        by (simp add: matches_below_def leaves_below_Suc leaves_below_empty)
      have nd: "node H xs (Suc h) pos = H (node H xs h (pos * 2)) (node H xs h (pos * 2))"
        using False Suc.prems(2) by (simp add: node_Suc mult.commute [of pos 2])
      have "reads_back H xs n vMatch (Suc h) pos (True # b) g"
        unfolding reads_back_def
      proof (intro allI impI)
        fix t :: CPartialMerkleTree and s :: extraction and bs bs' hs hs'
        assume t: "nTransactions t = n" "vBits t = bs @ (True # b) @ bs'" "vHash t = hs @ g @ hs'"
          "nBitsUsed s = length bs" "nHashUsed s = length hs"
        have "TraverseAndExtract H t h (pos * 2) (s\<lparr>nBitsUsed := nBitsUsed s + 1\<rparr>) =
            (node H xs h (pos * 2), (s\<lparr>nBitsUsed := nBitsUsed s + 1\<rparr>)
             \<lparr>nBitsUsed := length (bs @ [True]) + length b, nHashUsed := length hs + length g,
              x_vMatch := x_vMatch (s\<lparr>nBitsUsed := nBitsUsed s + 1\<rparr>) @ map ((!) xs) (matches_below (length xs) vMatch h (pos * 2)),
              x_vnIndex := x_vnIndex (s\<lparr>nBitsUsed := nBitsUsed s + 1\<rparr>) @ matches_below (length xs) vMatch h (pos * 2)\<rparr>)"
          using t by (intro reads_backD [OF L(5)]) simp_all
        then show "TraverseAndExtract H t (Suc h) pos s =
          (node H xs (Suc h) pos, s\<lparr>nBitsUsed := length bs + length (True # b), nHashUsed := length hs + length g,
             x_vMatch := x_vMatch s @ map ((!) xs) (matches_below (length xs) vMatch (Suc h) pos),
             x_vnIndex := x_vnIndex s @ matches_below (length xs) vMatch (Suc h) pos\<rparr>)"
          unfolding m nd using t w False by (simp add: Let_def nth_append)
      qed
      moreover have "length g \<le> length (leaves_below (length xs) (Suc h) pos)" using L(4) by (simp add: leaves_below_Suc)
      moreover have "length (True # b) < 2 ^ Suc (Suc h)" using L(6) by simp
      ultimately show ?thesis using fm L(1-3) w False
        by (intro exI [of _ "True # b"] exI [of _ g]) (simp add: Let_def)
    next
      case True
      obtain b' g' where R: "TraverseAndBuild H n xs vMatch h (pos * 2 + 1) (fst s @ [True] @ b, snd s @ g) =
          Some (fst s @ [True] @ b @ b', snd s @ g @ g')" "length g' \<le> length b'"
          "length g' \<le> length (leaves_below (length xs) h (pos * 2 + 1))" "reads_back H xs n vMatch h (pos * 2 + 1) b' g'"
          "length b' < 2 ^ Suc h"
        using Suc.IH [OF _ True, of "(fst s @ [True] @ b, snd s @ g)"] Suc.prems(1) by auto
      have m: "matches_below (length xs) vMatch (Suc h) pos =
          matches_below (length xs) vMatch h (pos * 2) @ matches_below (length xs) vMatch h (pos * 2 + 1)"
        by (rule matches_below_Suc)
      have nd: "node H xs (Suc h) pos = H (node H xs h (pos * 2)) (node H xs h (pos * 2 + 1))"
        and ne: "node H xs h (pos * 2 + 1) \<noteq> node H xs h (pos * 2)"
        using True Suc.prems(2) d by (simp_all add: node_Suc siblings_differ_def mult.commute [of pos 2]) metis
      have "reads_back H xs n vMatch (Suc h) pos (True # b @ b') (g @ g')"
        unfolding reads_back_def
      proof (intro allI impI)
        fix t :: CPartialMerkleTree and s :: extraction and bs bs' hs hs'
        assume t: "nTransactions t = n" "vBits t = bs @ (True # b @ b') @ bs'" "vHash t = hs @ (g @ g') @ hs'"
          "nBitsUsed s = length bs" "nHashUsed s = length hs"
        define s1 where "s1 = s\<lparr>nBitsUsed := nBitsUsed s + 1\<rparr>"
        define s2 where "s2 = s1\<lparr>nBitsUsed := length (bs @ [True]) + length b, nHashUsed := length hs + length g,
              x_vMatch := x_vMatch s1 @ map ((!) xs) (matches_below (length xs) vMatch h (pos * 2)),
              x_vnIndex := x_vnIndex s1 @ matches_below (length xs) vMatch h (pos * 2)\<rparr>"
        have "TraverseAndExtract H t h (pos * 2) s1 = (node H xs h (pos * 2), s2)"
          unfolding s2_def using t by (intro reads_backD [OF L(5)]) (simp_all add: s1_def)
        moreover have "TraverseAndExtract H t h (pos * 2 + 1) s2 = (node H xs h (pos * 2 + 1), s2
            \<lparr>nBitsUsed := length (bs @ [True] @ b) + length b', nHashUsed := length (hs @ g) + length g',
              x_vMatch := x_vMatch s2 @ map ((!) xs) (matches_below (length xs) vMatch h (pos * 2 + 1)),
              x_vnIndex := x_vnIndex s2 @ matches_below (length xs) vMatch h (pos * 2 + 1)\<rparr>)"
          using t by (intro reads_backD [OF R(4)]) (simp_all add: s2_def)
        ultimately show "TraverseAndExtract H t (Suc h) pos s =
          (node H xs (Suc h) pos, s\<lparr>nBitsUsed := length bs + length (True # b @ b'), nHashUsed := length hs + length (g @ g'),
             x_vMatch := x_vMatch s @ map ((!) xs) (matches_below (length xs) vMatch (Suc h) pos),
             x_vnIndex := x_vnIndex s @ matches_below (length xs) vMatch (Suc h) pos\<rparr>)"
          unfolding m nd using t w True ne by (simp add: Let_def nth_append s1_def [symmetric]) (simp add: s2_def s1_def)
      qed
      moreover have "length (g @ g') \<le> length (leaves_below (length xs) (Suc h) pos)"
        using L(4) R(3) by (simp add: leaves_below_Suc)
      moreover have "length (True # b @ b') < 2 ^ Suc (Suc h)" using L(6) R(5) by simp
      ultimately show ?thesis using fm L(1-3) R(1,2) w True
        by (intro exI [of _ "True # b @ b'"] exI [of _ "g @ g'"]) (simp add: Let_def)
    qed
  qed
qed

text \<open>Building a tree never fails on a non-empty list, and extracting it, with padding bits, gives the
  matches, their positions and the Merkle root.\<close>

lemma tree_height_bound:
  assumes "0 < m" "m \<le> 133333"
  shows "tree_height m \<le> 18"
proof -
  have "height_from m l \<le> 18" if "l \<le> 18" for l
    using that assms
  proof (induction m l rule: height_from.induct)
    case (1 m l)
    show ?case
    proof (cases "1 < tree_width m l")
      case True
      then have "2 ^ l < m" using 1(3) by (simp add: tree_width_gt)
      with 1(4) have "(2 :: nat) ^ l < 2 ^ 18" by simp
      then have "l < 18" by (rule power_less_imp_less_exp [rotated]) simp
      with 1 True show ?thesis by (subst height_from.simps) simp
    next
      case False
      with 1(2) show ?thesis by (subst height_from.simps) simp
    qed
  qed
  from this [of 0] show ?thesis by simp
qed

theorem ExtractMatches_build:
  assumes n: "0 < length xs" "length xs \<le> MAX_BLOCK_WEIGHT div MIN_TRANSACTION_WEIGHT" and d: "siblings_differ H xs"
  obtains t where "CPartialMerkleTree_build H xs vMatch = Some t" "fBad t = False"
    "length (vHash t) \<le> length xs" "length (vBits t) \<le> 2 ^ 19"
    "\<And>k. (length (vBits t) + 7) div 8 = (length (vBits t @ replicate k False) + 7) div 8 \<Longrightarrow>
      ExtractMatches H (t\<lparr>vBits := vBits t @ replicate k False\<rparr>) [] =
        (fst (ComputeMerkleRoot H xs), map ((!) xs) (filter (\<lambda>p. vMatch ! p) [0..<length xs]),
         filter (\<lambda>p. vMatch ! p) [0..<length xs], t\<lparr>vBits := vBits t @ replicate k False\<rparr>)"
proof -
  define N :: u32 where "N = of_nat (length xs)"
  have len: "length xs \<le> 133333" using n(2) by (simp add: MAX_BLOCK_WEIGHT_def MIN_TRANSACTION_WEIGHT_def WITNESS_SCALE_FACTOR_def)
  then have num: "unat N = length xs" by (simp add: N_def unat_of_nat)
  have lt: "length xs < 2 ^ 30" using len by simp
  define L where "L = tree_height (length xs)"
  have L: "tree_nHeight N 0 = L" using tree_nHeight_eq [of N 0] num lt n(1) by (simp add: L_def)
  have top: "length xs \<le> 2 ^ L" unfolding L_def by (rule tree_height_ge [OF n(1)])
  have L18: "L \<le> 18" unfolding L_def by (rule tree_height_bound) (use len n(1) in simp_all)
  then obtain b g where b: "TraverseAndBuild H N xs vMatch L 0 ([], []) = Some (b, g)" "length g \<le> length b"
    "length g \<le> length (leaves_below (length xs) L 0)" "reads_back H xs N vMatch L 0 b g"
    "length b < 2 ^ Suc L"
    using build_extract [OF lt num d, of L 0 vMatch "([], [])"] n(1) by auto
  have lv: "leaves_below (length xs) L 0 = [0..<length xs]" using top by (simp add: leaves_below_def min_def)
  define t where "t = \<lparr>nTransactions = N, vBits = b, vHash = g, fBad = False\<rparr>"
  have root: "fst (ComputeMerkleRoot H xs) = node H xs L 0"
    using ComputeMerkleRoot_eq [of xs H] n(1) len top by (simp add: node_top L_def)
  show thesis
  proof
    show "CPartialMerkleTree_build H xs vMatch = Some t"
      using b(1) L by (simp add: CPartialMerkleTree_build_def N_def t_def Let_def)
    show "fBad t = False" by (simp add: t_def)
    show "length (vHash t) \<le> length xs" using b(3) lv by (simp add: t_def)
    have "(2 :: nat) ^ Suc L \<le> 2 ^ 19" using L18 by (intro power_increasing) simp_all
    with b(5) show "length (vBits t) \<le> 2 ^ 19" by (simp add: t_def)
    fix k assume k: "(length (vBits t) + 7) div 8 = (length (vBits t @ replicate k False) + 7) div 8"
    let ?t = "t\<lparr>vBits := vBits t @ replicate k False\<rparr>"
    let ?s = "\<lparr>nBitsUsed = 0, nHashUsed = 0, x_fBad = False, x_vMatch = [], x_vnIndex = []\<rparr>"
    have "TraverseAndExtract H ?t L 0 ?s = (node H xs L 0, \<lparr>nBitsUsed = length b, nHashUsed = length g,
        x_fBad = False, x_vMatch = map ((!) xs) (matches_below (length xs) vMatch L 0),
        x_vnIndex = matches_below (length xs) vMatch L 0\<rparr>)"
      using reads_backD [OF b(4), of ?t "[]" "replicate k False" "[]" "[]" ?s] by (simp add: t_def)
    moreover have "N \<noteq> 0" using num n(1) by auto
    moreover have "matches_below (length xs) vMatch L 0 = filter (\<lambda>p. vMatch ! p) [0..<length xs]"
      by (simp add: matches_below_def lv)
    ultimately show "ExtractMatches H ?t [] =
        (fst (ComputeMerkleRoot H xs), map ((!) xs) (filter (\<lambda>p. vMatch ! p) [0..<length xs]),
         filter (\<lambda>p. vMatch ! p) [0..<length xs], ?t)"
      unfolding root using k b(2,3) num n(2) lv L by (simp add: ExtractMatches_def t_def Let_def)
  qed
qed

section \<open>Soundness of a proof\<close>

text \<open>The pairs that extraction hashes.\<close>

primrec extract_pairs ::
  "(uint256 \<Rightarrow> uint256 \<Rightarrow> uint256) \<Rightarrow> CPartialMerkleTree \<Rightarrow> nat \<Rightarrow> nat \<Rightarrow> extraction \<Rightarrow> (uint256 \<times> uint256) set" where
  "extract_pairs H t 0 pos s = {}"
| "extract_pairs H t (Suc height) pos s =
     (if length (vBits t) \<le> nBitsUsed s then {}
      else let f = vBits t ! nBitsUsed s; s = s\<lparr>nBitsUsed := nBitsUsed s + 1\<rparr> in
        if \<not> f then {}
        else let (left, s') = TraverseAndExtract H t height (pos * 2) s in
          if pos * 2 + 1 < unat (CalcTreeWidth (nTransactions t) height) then
            insert (left, fst (TraverseAndExtract H t height (pos * 2 + 1) s'))
              (extract_pairs H t height (pos * 2) s \<union> extract_pairs H t height (pos * 2 + 1) s')
          else insert (left, left) (extract_pairs H t height (pos * 2) s))"

lemma TraverseAndExtract_bad: "x_fBad s \<Longrightarrow> x_fBad (snd (TraverseAndExtract H t h pos s))"
proof (induction h arbitrary: pos s)
  case 0
  then show ?case by (simp add: Let_def)
next
  case (Suc h)
  let ?s = "s\<lparr>nBitsUsed := nBitsUsed s + 1\<rparr>"
  have a: "x_fBad (snd (TraverseAndExtract H t h (pos * 2) ?s))" using Suc by simp
  have "x_fBad (snd (TraverseAndExtract H t h (pos * 2 + 1) (snd (TraverseAndExtract H t h (pos * 2) ?s))))"
    by (rule Suc.IH [OF a])
  with a Suc.prems show ?case by (simp add: Let_def split_beta)
qed

text \<open>The matches that extraction adds are entries of the list whose node it computes.\<close>

definition extends_with :: "uint256 list \<Rightarrow> extraction \<Rightarrow> extraction \<Rightarrow> bool" where
  "extends_with xs s s' \<longleftrightarrow>
     (\<exists>is. (\<forall>i\<in>set is. i < length xs) \<and> x_vnIndex s' = x_vnIndex s @ is \<and> x_vMatch s' = x_vMatch s @ map ((!) xs) is)"

lemma extends_with_trans: "extends_with xs a b \<Longrightarrow> extends_with xs b c \<Longrightarrow> extends_with xs a c"
  unfolding extends_with_def by (elim exE, rule_tac x = "is @ isa" in exI) auto

lemma extends_with_same: "x_vnIndex s' = x_vnIndex s \<Longrightarrow> x_vMatch s' = x_vMatch s \<Longrightarrow> extends_with xs s s'"
  unfolding extends_with_def by (rule exI [of _ "[]"]) simp

fun node_pairs ::
  "(uint256 \<Rightarrow> uint256 \<Rightarrow> uint256) \<Rightarrow> uint256 list \<Rightarrow> nat \<Rightarrow> nat \<Rightarrow> (uint256 \<times> uint256) set" where
  "node_pairs H xs 0 i = {}"
| "node_pairs H xs (Suc l) i =
     (if (2 * i + 1) * 2 ^ l < length xs
      then insert (node H xs l (2 * i), node H xs l (2 * i + 1)) (node_pairs H xs l (2 * i) \<union> node_pairs H xs l (2 * i + 1))
      else insert (node H xs l (2 * i), node H xs l (2 * i)) (node_pairs H xs l (2 * i)))"

lemma extract_sound:
  assumes n: "length xs < 2 ^ 30" and num: "unat (nTransactions t) = length xs" and inj: "inj_on (\<lambda>(a, b). H a b) P"
  shows "h \<le> 31 \<Longrightarrow> pos * 2 ^ h < length xs \<Longrightarrow> TraverseAndExtract H t h pos s = (v, s') \<Longrightarrow> \<not> x_fBad s' \<Longrightarrow>
    v = node H xs h pos \<Longrightarrow> extract_pairs H t h pos s \<subseteq> P \<Longrightarrow> node_pairs H xs h pos \<subseteq> P \<Longrightarrow> extends_with xs s s'"
proof (induction h arbitrary: pos s v s')
  case 0
  let ?s = "s\<lparr>nBitsUsed := nBitsUsed s + 1\<rparr>"
  have l: "pos < length xs" using 0(2) by simp
  show ?case
  proof (cases "vBits t ! nBitsUsed s")
    case True
    with 0(3,4) have "s' = ?s\<lparr>nHashUsed := nHashUsed s + 1, x_vMatch := x_vMatch s @ [v], x_vnIndex := x_vnIndex s @ [pos]\<rparr>"
      by (auto simp: Let_def split: if_splits)
    then show ?thesis using 0(5) l unfolding extends_with_def by (intro exI [of _ "[pos]"]) (simp add: node_0)
  next
    case False
    with 0(3,4) show ?thesis by (auto simp: Let_def intro!: extends_with_same split: if_splits)
  qed
next
  case (Suc h)
  let ?s = "s\<lparr>nBitsUsed := nBitsUsed s + 1\<rparr>"
  have ne: "0 < unat (nTransactions t)" using Suc.prems(2) num by (cases xs) simp_all
  have l0: "pos * 2 * 2 ^ h < length xs" using Suc.prems(2) by (simp add: ac_simps)
  have w: "pos * 2 + 1 < unat (CalcTreeWidth (nTransactions t) h) \<longleftrightarrow> (pos * 2 + 1) * 2 ^ h < length xs"
    using width_less [of "nTransactions t" h "pos * 2 + 1"] n ne num Suc.prems(1) by simp
  have ok: "\<not> length (vBits t) \<le> nBitsUsed s" using Suc.prems(3,4) by auto
  have in_P: "a = c \<and> b = d" if "H a b = H c d" "(a, b) \<in> P" "(c, d) \<in> P" for a b c d
    using inj_onD [OF inj, of "(a, b)" "(c, d)"] that by simp
  have base: "extends_with xs s s''" if "extends_with xs ?s s''" for s''
    using that by (simp add: extends_with_def)
  show ?case
  proof (cases "vBits t ! nBitsUsed s")
    case False
    with Suc.prems(3,4) ok show ?thesis by (auto simp: Let_def intro!: extends_with_same split: if_splits)
  next
    case True
    obtain left s1 where L: "TraverseAndExtract H t h (pos * 2) ?s = (left, s1)" by fastforce
    show ?thesis
    proof (cases "(pos * 2 + 1) * 2 ^ h < length xs")
      case False
      then have vv: "v = H left left" "s' = s1" using Suc.prems(3) True ok L w by (simp_all add: Let_def)
      have nd: "node H xs (Suc h) pos = H (node H xs h (2 * pos)) (node H xs h (2 * pos))"
        using False Suc.prems(2) by (simp add: node_Suc mult.commute [of pos 2])
      have ps: "(left, left) \<in> P" "extract_pairs H t h (pos * 2) ?s \<subseteq> P"
        "(node H xs h (2 * pos), node H xs h (2 * pos)) \<in> P" "node_pairs H xs h (pos * 2) \<subseteq> P"
        using Suc.prems(6,7) True ok L w False by (simp_all add: Let_def mult.commute [of pos 2])
      have "left = node H xs h (pos * 2)"
        using in_P [OF _ ps(1,3)] vv(1) nd Suc.prems(5) by (simp add: mult.commute [of pos 2])
      with Suc.IH [OF _ l0 L _ _ ps(2,4)] vv(2) Suc.prems(1,4) show ?thesis by (intro base) simp
    next
      case rt: True
      obtain right s2 where R: "TraverseAndExtract H t h (pos * 2 + 1) s1 = (right, s2)" by fastforce
      then have vv: "v = H left right" "s' = (if right = left then s2\<lparr>x_fBad := True\<rparr> else s2)"
        using Suc.prems(3) True ok L w rt by (simp_all add: Let_def)
      with Suc.prems(4) have s2: "s' = s2" "\<not> x_fBad s2" by (auto split: if_splits)
      have s1: "\<not> x_fBad s1" using TraverseAndExtract_bad [of s1 H t h "pos * 2 + 1"] R s2(2) by auto
      have nd: "node H xs (Suc h) pos = H (node H xs h (2 * pos)) (node H xs h (2 * pos + 1))"
        using rt Suc.prems(2) by (simp add: node_Suc mult.commute [of pos 2])
      have ps: "(left, right) \<in> P" "extract_pairs H t h (pos * 2) ?s \<subseteq> P" "extract_pairs H t h (pos * 2 + 1) s1 \<subseteq> P"
        "(node H xs h (2 * pos), node H xs h (2 * pos + 1)) \<in> P" "node_pairs H xs h (pos * 2) \<subseteq> P"
        "node_pairs H xs h (pos * 2 + 1) \<subseteq> P"
        using Suc.prems(6,7) True ok L R w rt by (simp_all add: Let_def mult.commute [of pos 2])
      have "left = node H xs h (pos * 2) \<and> right = node H xs h (pos * 2 + 1)"
        using in_P [OF _ ps(1,4)] vv(1) nd Suc.prems(5) by (simp add: mult.commute [of pos 2])
      then have "extends_with xs ?s s1" "extends_with xs s1 s2"
        using Suc.IH [OF _ l0 L s1 _ ps(2,5)] Suc.IH [OF _ rt R s2(2) _ ps(3,6)] Suc.prems(1) by simp_all
      then show ?thesis unfolding s2(1) by (intro base) (rule extends_with_trans)
    qed
  qed
qed

theorem ExtractMatches_sound:
  assumes n: "unat (nTransactions t) = length xs" and root: "fst (ExtractMatches H t []) = fst (ComputeMerkleRoot H xs)"
    and nz: "fst (ExtractMatches H t []) \<noteq> 0"
    and inj: "inj_on (\<lambda>(a, b). H a b)
      (extract_pairs H t (tree_height (length xs)) 0
         \<lparr>nBitsUsed = 0, nHashUsed = 0, x_fBad = fBad t, x_vMatch = [], x_vnIndex = []\<rparr> \<union>
       node_pairs H xs (tree_height (length xs)) 0)"
  obtains "is" t' where "ExtractMatches H t [] = (fst (ComputeMerkleRoot H xs), map ((!) xs) is, is, t')"
    "\<forall>i\<in>set is. i < length xs"
proof -
  let ?s = "\<lparr>nBitsUsed = 0, nHashUsed = 0, x_fBad = fBad t, x_vMatch = [], x_vnIndex = []\<rparr>"
  define L where "L = tree_height (length xs)"
  have n0: "0 < length xs" using nz n by (auto simp: ExtractMatches_def unat_eq_0)
  have len: "length xs \<le> 133333"
    using nz n by (auto simp: ExtractMatches_def MAX_BLOCK_WEIGHT_def MIN_TRANSACTION_WEIGHT_def WITNESS_SCALE_FACTOR_def split: if_splits)
  have L: "tree_nHeight (nTransactions t) 0 = L" using tree_nHeight_eq [of "nTransactions t" 0] n len n0 by (simp add: L_def)
  have top: "length xs \<le> 2 ^ L" unfolding L_def by (rule tree_height_ge [OF n0])
  have "L \<le> 18" unfolding L_def by (rule tree_height_bound) (use len n0 in simp_all)
  then have L31: "L \<le> 31" by simp
  obtain v s' where e: "TraverseAndExtract H t L 0 ?s = (v, s')" by fastforce
  have g: "nTransactions t \<noteq> 0" "\<not> MAX_BLOCK_WEIGHT div MIN_TRANSACTION_WEIGHT < unat (nTransactions t)"
    "\<not> unat (nTransactions t) < length (vHash t)" "\<not> length (vBits t) < length (vHash t)"
    using nz by (auto simp: ExtractMatches_def split: if_splits)
  have ex: "ExtractMatches H t [] = (if x_fBad s' \<or> (nBitsUsed s' + 7) div 8 \<noteq> (length (vBits t) + 7) div 8 \<or>
      nHashUsed s' \<noteq> length (vHash t) then 0 else v, x_vMatch s', x_vnIndex s', t\<lparr>fBad := x_fBad s'\<rparr>)"
    using g L e by (simp add: ExtractMatches_def Let_def)
  with nz have ok: "\<not> x_fBad s'" "fst (ExtractMatches H t []) = v" by (auto split: if_splits)
  have v: "v = node H xs L 0"
    using root ok(2) ComputeMerkleRoot_eq [of xs H] n0 len top by (simp add: node_top L_def)
  have "extends_with xs ?s s'"
    using extract_sound [OF _ n inj L31 _ e ok(1) v] n0 len by (simp add: L_def)
  then obtain "is" where "is": "\<forall>i\<in>set is. i < length xs" "x_vnIndex s' = is" "x_vMatch s' = map ((!) xs) is"
    by (auto simp: extends_with_def)
  with ex ok(2) root show thesis by (intro that [of "is" "t\<lparr>fBad := x_fBad s'\<rparr>"]) (auto simp: prod_eq_iff)
qed

section \<open>The wire round trip\<close>

definition padding :: "'a list \<Rightarrow> nat" where
  "padding bs = 8 * ((length bs + 7) div 8) - length bs"

lemma bit_pack_byte:
  "j < 8 \<Longrightarrow> bit (fold (\<lambda>i b. b OR (if P i then push_bit i 1 else 0)) [0..<8] (0 :: byte)) j \<longleftrightarrow> P j"
proof -
  have "bit (fold (\<lambda>i b. b OR (if P i then push_bit i 1 else 0)) is (w :: byte)) j \<longleftrightarrow> bit w j \<or> j \<in> set is \<and> P j"
    if "j < 8" for "is" w
    using that by (induction "is" arbitrary: w) (auto simp: bit_simps)
  then show "j < 8 \<Longrightarrow> ?thesis" by simp
qed

lemma unpack_pack: "unpack_bits (pack_bits bs) = bs @ replicate (padding bs) False"
proof (rule nth_equalityI)
  let ?n = "8 * ((length bs + 7) div 8)"
  have le: "length bs \<le> ?n" by presburger
  then show len: "length (unpack_bits (pack_bits bs)) = length (bs @ replicate (padding bs) False)"
    by (simp add: unpack_bits_def pack_bits_def padding_def)
  fix p assume "p < length (unpack_bits (pack_bits bs))"
  then have p: "p < ?n" by (simp add: unpack_bits_def pack_bits_def)
  then have d: "p div 8 < (length bs + 7) div 8" by (simp add: less_mult_imp_div_less mult.commute)
  have "unpack_bits (pack_bits bs) ! p \<longleftrightarrow> bit (pack_bits bs ! (p div 8)) (p mod 8)"
    using p by (simp add: unpack_bits_def pack_bits_def)
  also have "\<dots> \<longleftrightarrow> 8 * (p div 8) + p mod 8 < length bs \<and> bs ! (8 * (p div 8) + p mod 8)"
    unfolding pack_bits_def using d by (simp only: nth_map length_upt nth_upt minus_nat.diff_0 add_0) (rule bit_pack_byte, simp)
  finally show "unpack_bits (pack_bits bs) ! p = (bs @ replicate (padding bs) False) ! p"
    using p by (simp add: nth_append padding_def)
qed

lemma padding_bytes: "(length bs + 7) div 8 = (length (bs @ replicate (padding bs) False) + 7) div 8"
  unfolding padding_def length_append length_replicate by presburger

lemma partial_tree_round_trip:
  assumes "fits_size (vHash t)" "fits_size (pack_bits (vBits t))"
  shows "Unserialize_CPartialMerkleTree (Serialize_CPartialMerkleTree t @ s) =
    Inr (t\<lparr>vBits := vBits t @ replicate (padding (vBits t)) False, fBad := False\<rparr>, s)"
proof -
  have u: "Serialize_vector uint256_bytes = Serialize_vector Serialize_uint256"
    by (intro ext) (simp add: Serialize_vector_def Serialize_uint256_def [abs_def])
  show ?thesis
    using assms
    by (simp add: Unserialize_CPartialMerkleTree_def Serialize_CPartialMerkleTree_def codec_simps u
      hashes.vector_unser_ser list_all_iff unpack_pack)
qed

section \<open>Merkle blocks\<close>

text \<open>\<open>CMerkleBlock\<close> of a block and a set of transaction ids; no filter is given, so no transaction is
  recorded in \<open>vMatchedTxn\<close>.\<close>

record CMerkleBlock =
  header :: CBlockHeader
  txn :: CPartialMerkleTree
  vMatchedTxn :: "(nat \<times> uint256) list"

definition CMerkleBlock_txids ::
  "(bytes \<Rightarrow> bytes) \<Rightarrow> CBlock \<Rightarrow> (uint256 \<Rightarrow> bool) \<Rightarrow> CMerkleBlock option" where
  "CMerkleBlock_txids h block txids =
     (let vHashes = map (GetHash h) (vtx block); vMatch = map txids vHashes in
      Option.bind (CPartialMerkleTree_build (hash_pair h) vHashes vMatch) (\<lambda>t.
        Some \<lparr>header = GetBlockHeader block, txn = t, vMatchedTxn = []\<rparr>))"

definition Serialize_CMerkleBlock :: "CMerkleBlock \<Rightarrow> bytes" where
  "Serialize_CMerkleBlock m = Serialize_CBlockHeader (header m) @ Serialize_CPartialMerkleTree (txn m)"

definition Unserialize_CMerkleBlock :: "CMerkleBlock reader" where
  "Unserialize_CMerkleBlock s =
     bind_sum (Unserialize_CBlockHeader s) (\<lambda>(hd, s). bind_sum (Unserialize_CPartialMerkleTree s) (\<lambda>(t, s).
       Inr (\<lparr>header = hd, txn = t, vMatchedTxn = []\<rparr>, s)))"

text \<open>What a peer extracts from the merkle block it is sent: the header, the Merkle root of the block and
  the selected transactions.\<close>

lemma CPartialMerkleTree_build_n:
  "CPartialMerkleTree_build H xs vMatch = Some t \<Longrightarrow> nTransactions t = of_nat (length xs)"
  by (auto simp: CPartialMerkleTree_build_def Let_def bind_eq_Some_conv)

lemma map_filter_nth: "map ((!) xs) (filter (\<lambda>p. P (xs ! p)) [0..<length xs]) = filter P xs"
proof -
  have "map ((!) xs) (filter (\<lambda>p. P (xs ! p)) [0..<length xs]) = filter P (map ((!) xs) [0..<length xs])"
    by (simp add: filter_map comp_def)
  then show ?thesis by (simp only: map_nth)
qed

theorem merkle_block_proof:
  assumes "0 < length (vtx block)" "length (vtx block) \<le> MAX_BLOCK_WEIGHT div MIN_TRANSACTION_WEIGHT"
    and d: "siblings_differ (hash_pair h) (map (GetHash h) (vtx block))"
    and hd: "fits_size (nSolution block)"
  obtains m m' where "CMerkleBlock_txids h block txids = Some m"
    "Unserialize_CMerkleBlock (Serialize_CMerkleBlock m @ s) = Inr (m', s)"
    "header m' = GetBlockHeader block"
    "fst (ExtractMatches (hash_pair h) (txn m') []) = fst (BlockMerkleRoot h block)"
    "fst (snd (ExtractMatches (hash_pair h) (txn m') [])) = filter txids (map (GetHash h) (vtx block))"
proof -
  let ?xs = "map (GetHash h) (vtx block)"
  obtain t where t: "CPartialMerkleTree_build (hash_pair h) ?xs (map txids ?xs) = Some t" "fBad t = False"
    "length (vHash t) \<le> length ?xs" "length (vBits t) \<le> 2 ^ 19" and ex: "\<And>k. (length (vBits t) + 7) div 8 = (length (vBits t @ replicate k False) + 7) div 8 \<Longrightarrow>
      ExtractMatches (hash_pair h) (t\<lparr>vBits := vBits t @ replicate k False\<rparr>) [] =
        (fst (ComputeMerkleRoot (hash_pair h) ?xs), map ((!) ?xs) (filter (\<lambda>p. map txids ?xs ! p) [0..<length ?xs]),
         filter (\<lambda>p. map txids ?xs ! p) [0..<length ?xs], t\<lparr>vBits := vBits t @ replicate k False\<rparr>)"
    by (rule ExtractMatches_build [of ?xs "hash_pair h" "map txids ?xs"]) (use assms in \<open>simp_all only: length_map\<close>)
  let ?t = "t\<lparr>vBits := vBits t @ replicate (padding (vBits t)) False\<rparr>"
  let ?m = "\<lparr>header = GetBlockHeader block, txn = t, vMatchedTxn = []\<rparr>"
  have fits: "fits_size (vHash t)" "fits_size (pack_bits (vBits t))"
    using t(3,4) assms(2) by (simp_all add: MAX_BLOCK_WEIGHT_def MIN_TRANSACTION_WEIGHT_def WITNESS_SCALE_FACTOR_def pack_bits_def)
  have e: "?t\<lparr>fBad := False\<rparr> = ?t" using t(2) by simp
  have "filter (\<lambda>p. map txids ?xs ! p) [0..<length ?xs] = filter (\<lambda>p. txids (?xs ! p)) [0..<length ?xs]"
    by (intro filter_cong) simp_all
  then have "map ((!) ?xs) (filter (\<lambda>p. map txids ?xs ! p) [0..<length ?xs]) = filter txids ?xs"
    by (simp only: map_filter_nth)
  note x = ex [OF padding_bytes] this
  show thesis
  proof
    show "CMerkleBlock_txids h block txids = Some ?m" using t(1) by (simp add: CMerkleBlock_txids_def Let_def comp_def)
    show "Unserialize_CMerkleBlock (Serialize_CMerkleBlock ?m @ s) = Inr (?m\<lparr>txn := ?t\<rparr>, s)"
      using hd partial_tree_round_trip [OF fits]
      by (simp add: GetBlockHeader_def Unserialize_CMerkleBlock_def Serialize_CMerkleBlock_def block_header.unser_ser e)
  qed (simp_all only: x fst_conv snd_conv BlockMerkleRoot_def CMerkleBlock.simps simp_thms)
qed

end
