(* ===== verification/Supply.thy ===== *)
theory Supply imports Connect
begin

text \<open>
  The money that a chain of blocks can make: every block that \<open>ConnectBlock\<close> accepts on the coins that the blocks
  below it left adds the subsidy of its height at most, so that the coins never exceed what is issued up to the
  height.  A block with nothing but a coinbase that pays no more than the subsidy is accepted.
\<close>

section \<open>A block with a coinbase only\<close>

context coins_view
begin

lemma connect_coinbase:
  assumes c: "cache_ok (cs_view cs)" and cb: "IsCoinBase tx" and fit: "tx_fits (be_hash env) tx (cache_contents (cs_view cs))"
    and ops: "nSigOpsCost cs + GetLegacySigOpCount tx * WITNESS_SCALE_FACTOR \<le> MAX_BLOCK_SIGOPS_COST"
  shows "\<exists>view'. connect_tx env B H pindex height just chk True tx cs = (Inr (), cs\<lparr>cs_view := view',
    nSigOpsCost := nSigOpsCost cs + GetLegacySigOpCount tx * WITNESS_SCALE_FACTOR\<rparr>) \<and> cache_ok view' \<and>
    cache_contents view' = apply_tx (be_hash env) height tx (cache_contents (cs_view cs))"
proof -
  from UpdateCoins_ok [OF c fit, of height] obtain view' where
    "UpdateCoins (be_hash env) B tx (cs_view cs) height = Inr (spent_coins (cache_contents (cs_view cs)) tx, view')"
    "cache_ok view'" "cache_contents view' = apply_tx (be_hash env) height tx (cache_contents (cs_view cs))" by blast
  then show ?thesis using cb ops
    by (intro exI [of _ view']) (simp add: connect_tx_def GetTransactionSigOpCost_def Let_def)
qed

lemma ConnectBlock_coinbase:
  assumes c: "cache_ok view" and b: "ns_index ns pindex = Some b"
    and hash: "phashBlock b = Some (BlockHeader_GetHash (be_hash env) (GetBlockHeader block))"
    and ck: "CheckBlock (block_env.truncate env) (Consensus_Params.truncate params) (ns_index ns) (chainActive ns) block
        False False False = (Inr (), fc)"
    and prev: "hash_of_prev (ns_index ns) b = Inr (cache_best view)" "cache_best view \<noteq> 0 \<longrightarrow> pprev b \<noteq> None"
    and scripts: "fScriptChecks_for env params ns pindex = Inr chk"
    and cb: "vtx block = [cb]" "IsCoinBase cb" "tx_fits (be_hash env) cb (cache_contents view)"
    and ops: "GetLegacySigOpCount cb * WITNESS_SCALE_FACTOR \<le> MAX_BLOCK_SIGOPS_COST"
    and out: "GetValueOut cb = Some out" "out \<le> GetBlockSubsidy (nSubsidyHalvingInterval params) (int (nHeight b))"
  shows "\<exists>view' ns'. ConnectBlock env params B block False pindex True view ns = (Inr True, fc, view', ns') \<and> cache_ok view' \<and>
    cache_contents view' = apply_tx (be_hash env) (int (nHeight b)) cb (cache_contents view)"
proof -
  obtain best v where g: "Cache_GetBestBlock B view = (best, v)" by (cases "Cache_GetBestBlock B view")
  note v = Cache_GetBestBlock_ok [OF c g]
  define cs where "cs = \<lparr>cs_view = v, nFees = 0, nSigOpsCost = 0, vtxundo = [], cs_checks = [], cs_cache = scriptExecutionCache ns\<rparr>"
  have fields: "cs_view cs = v" "nFees cs = 0" "nSigOpsCost cs = 0" "cs_checks cs = []" "cs_cache cs = scriptExecutionCache ns"
    by (simp_all add: cs_def)
  have "cache_ok (cs_view cs)" "tx_fits (be_hash env) cb (cache_contents (cs_view cs))"
    "nSigOpsCost cs + GetLegacySigOpCount cb * WITNESS_SCALE_FACTOR \<le> MAX_BLOCK_SIGOPS_COST"
    using v cb(3) ops by (simp_all add: fields)
  from connect_coinbase [OF this(1) cb(2) this(2,3), of "ns_index ns" pindex "int (nHeight b)" True chk] obtain view' cs' where
    t: "connect_tx env B (ns_index ns) pindex (int (nHeight b)) True chk True cb cs = (Inr (), cs')" and
    cs': "cs' = cs\<lparr>cs_view := view', nSigOpsCost := nSigOpsCost cs + GetLegacySigOpCount cb * WITNESS_SCALE_FACTOR\<rparr>"
    and view': "cache_ok view'" "cache_contents view' = apply_tx (be_hash env) (int (nHeight b)) cb (cache_contents (cs_view cs))" by blast
  have txs: "connect_txs env B (ns_index ns) pindex (int (nHeight b)) True chk True (vtx block) cs = (Inr (), cs')"
    by (simp add: cb(1) t)
  have fin: "connect_finish env params block (nHeight b) pindex p True cs' m = (Inr True, view', m)" for p m
    using out cb(1) by (simp add: connect_finish_def Let_def cs' fields)
  have "hash_of_prev (ns_index ns) b = Inr best" "best \<noteq> 0 \<longrightarrow> pprev b \<noteq> None" using v prev by simp_all
  then have cc: "connect_checked env params B block b pindex True view ns = (Inr True, view', ns\<lparr>scriptExecutionCache := cs_cache cs'\<rparr>)"
    unfolding connect_checked_def g sum.case prod.case scripts cs_def [symmetric] txs Let_def fin by auto
  have "ConnectBlock env params B block False pindex True view ns = (Inr True, fc, view', ns\<lparr>scriptExecutionCache := cs_cache cs'\<rparr>)"
    unfolding ConnectBlock_def b option.case hash not_True_eq_False ck cc sum.case prod.case by (simp only: if_False simp_thms)
  moreover have "cache_contents view' = apply_tx (be_hash env) (int (nHeight b)) cb (cache_contents view)"
    using view'(2) v by (simp only: fields)
  ultimately show ?thesis using view'(1) by blast
qed

end

section \<open>A chain of blocks\<close>

text \<open>The coins behind \<open>n\<close> blocks that \<open>ConnectBlock\<close> accepted one after the other on the coins of the tip; the
  environment and the other state may differ from block to block.  No transaction of a block repeats an input or
  overwrites coins.\<close>

inductive money_after :: "Chain_Params \<Rightarrow> nat \<Rightarrow> (COutPoint \<rightharpoonup> Coin) \<Rightarrow> bool" for params where
  money_none: "money_after params 0 Map.empty"
| money_block: "money_after params n (tip.cache_contents view) \<Longrightarrow> tip.cache_ok view \<Longrightarrow> ns_index ns pindex = Some b \<Longrightarrow> nHeight b = n \<Longrightarrow>
    ConnectBlock env params (Cache_ops (CCoinsViewDB_ops batch)) block False pindex just view ns = (Inr True, fc, view', ns') \<Longrightarrow>
    txs_new (be_hash env) (int n) (vtx block) (tip.cache_contents view) \<Longrightarrow>
    money_after params (Suc n) (tip.cache_contents view')"

inductive_cases money_after_SucE: "money_after params (Suc n) f"

lemma apply_txs_finite: "finite (dom f) \<Longrightarrow> finite (dom (apply_txs h height txs f))"
proof (induction txs arbitrary: f)
  case (Cons tx txs)
  have "finite (dom (tx_coins_from cb height txid i vout))" for cb txid i vout
    by (induction vout arbitrary: i) auto
  then have "finite (dom (apply_tx h height tx f))"
    using Cons.prems(1) by (simp add: apply_tx_def new_coins_def dom_without)
  then show ?case using Cons by simp
qed simp

lemma money_issued: "money_after params n f \<Longrightarrow> finite (dom f) \<and> coins_value f \<le> (\<Sum>k<n. GetBlockSubsidy (nSubsidyHalvingInterval params) (int k))"
proof (induction rule: money_after.induct)
  case money_none
  then show ?case by (simp add: coins_value_def)
next
  case (money_block n view ns pindex b env batch block just fc view' ns')
  note r = money_block.hyps(5) and h = money_block.hyps(4)
  note new = money_block.hyps(6) [folded h]
  note o = tip.ConnectBlock_ok [OF money_block.hyps(2,3) r new]
  then show ?case using money_block.IH h apply_txs_finite by auto
qed

theorem money_bounded:
  assumes "money_after params n f" "nSubsidyHalvingInterval params = 2000000"
  shows "coins_value f \<le> MAX_MONEY"
proof (cases n)
  case 0
  then show ?thesis using money_issued [OF assms(1)] by (simp add: MAX_MONEY_def COIN_def)
next
  case (Suc m)
  then have "coins_value f \<le> issued 2000000 m"
    using money_issued [OF assms(1)] assms(2) by (simp add: issued_def lessThan_Suc_atMost)
  then show ?thesis using issued_max order_trans by blast
qed

end
