(* ===== verification/Spec2Isabelle.thy ===== *)
theory Spec2Isabelle
  imports Activate ArithUint256 BestTip BlockCheck BlockFiles BlockTree BlockUndo Chain ChainOps Coins CoinsDB Compressor Connect Cuckoo DiskIndex InputCheck Interpreter Merkle PartialMerkle Pow Prelude Reads Script Serialize StateFlush Strings Supply TipCoins TipMove Transaction TxVerify Verify VersionBits
begin

text \<open>
  Verification of the consensus core of the ecoin node (\<^verbatim>\<open>src/src\<close>, a fork of Bitcoin Core with ed25519
  keys, SHA3 hashes and equihash proof of work).

  How the program is put together.  A node receives blocks and transactions as bytes
  (\<^verbatim>\<open>streams.h\<close>, \<^verbatim>\<open>serialize.h\<close>, \<^verbatim>\<open>primitives\<close>), places block headers in an index that is a tree
  with an active branch (\<^verbatim>\<open>chain.h\<close>, \<^verbatim>\<open>chain.cpp\<close>), checks their proof of work against a target that is
  adjusted along the branch (\<^verbatim>\<open>pow.cpp\<close>, \<^verbatim>\<open>arith_uint256.cpp\<close>), and runs the scripts of each input in a
  stack machine that asks a checker about signatures and lock times (\<^verbatim>\<open>script/interpreter.cpp\<close>).  The
  transactions of a block spend and make coins in a stack of caches over a database (\<^verbatim>\<open>coins.cpp\<close>,
  \<^verbatim>\<open>txdb.cpp\<close>, \<^verbatim>\<open>validation.cpp\<close>); undo data takes a block back.

  The theories, from the bottom.
  \<^item> \<open>Prelude\<close>: machine types, the little-endian bytes of a word.
  \<^item> \<open>Serialize\<close>: \<open>CDataStream\<close> and the elementary codecs.  The locale \<open>codec\<close> is the contract between
    a writer and its reader; \<open>vector_codec\<close> extends it to vectors.  Every codec of the development
    interprets one of them.
  \<^item> \<open>Script\<close>, \<open>Interpreter\<close>: the script language and \<open>EvalScript\<close>.  A state is the record
    \<open>eval_state\<close>; each group of opcodes is a handler, \<open>eval_exec\<close> dispatches, \<open>eval_step\<close> is one turn of
    the loop and \<open>eval_run\<close> the loop, which ends because the remaining script gets shorter.  Lemmas over
    \<open>ensures\<close> (no assertion fails, the result satisfies a predicate) and \<open>weaker\<close> (success is kept when
    flags are dropped) follow the structure of the handlers.
  \<^item> \<open>Transaction\<close>, \<open>Verify\<close>: transactions and blocks with their codecs; signature hashes, the
    signature checker and \<open>VerifyScript\<close>.
  \<^item> \<open>ArithUint256\<close>: the multi-limb integers and the compact format of targets, related to the natural
    numbers by \<open>num\<close>.
  \<^item> \<open>Chain\<close>, \<open>DiskIndex\<close>: the block index as a store of records linked by addresses, with the skip list,
    the active chain, locators, forks, median times and work; the records of the block database.
  \<^item> \<open>Strings\<close>, \<open>Pow\<close>: hexadecimal text; proof of work, retargeting and block authorization.
  \<^item> \<open>Merkle\<close>, \<open>PartialMerkle\<close>: the constant-space Merkle calculator of \<^verbatim>\<open>consensus/merkle.cpp\<close>, related to the
    recursive tree \<open>tree_hash\<close>, and the partial trees of \<^verbatim>\<open>merkleblock.cpp\<close> that prove to a peer that
    transactions are in a block.
  \<^item> \<open>Coins\<close>, \<open>Compressor\<close>, \<open>CoinsDB\<close>: the unspent outputs.  A view is a record of operations (the virtual
    functions of \<open>CCoinsView\<close>); the locale \<open>coins_view\<close> is its contract, a map from outpoints to coins and a best
    block.  A cache over a view that keeps the contract keeps it too, so the contract is interpreted on the
    database (\<open>db\<close>), on the tip's cache over it (\<open>tip\<close>) and on a block's cache over that (\<open>block_view\<close>).  In the
    properties \<open>tip.cache_contents c\<close> is what is seen through a block's cache \<open>c\<close>.
  \<^item> \<open>TxVerify\<close>, \<open>BlockUndo\<close>: the checks of a transaction, its effect on the coins (\<open>apply_tx\<close> on the map), and
    the disconnecting of a block.
  \<^item> \<open>VersionBits\<close>: the deployments of \<^verbatim>\<open>versionbits.cpp\<close> as a state machine over periods, with its cache.
  \<^item> \<open>BlockCheck\<close>: \<open>CheckBlock\<close>, the contextual checks and the witness commitment of \<^verbatim>\<open>validation.cpp\<close>.
  \<^item> \<open>Cuckoo\<close>, \<open>InputCheck\<close>: the cuckoo cache of \<^verbatim>\<open>cuckoocache.h\<close>, the signature and script caches over it,
    \<open>CScriptCheck\<close> and \<open>CheckInputs\<close>.
  \<^item> \<open>BlockFiles\<close>: the block and undo files, the places for new blocks and undo data, what is written and read
    back.
  \<^item> \<open>Connect\<close>: \<open>ConnectBlock\<close>, with the money it can make and its inverse \<open>DisconnectBlock\<close>.
  \<^item> \<open>Supply\<close>: the coins behind a chain of connected blocks never exceed the money that is issued.
  \<^item> \<open>BlockTree\<close>: \<open>CChainState\<close> with its candidates, new headers, received blocks, failed blocks, and the search
    for the best candidate (\<open>FindMostWorkChain\<close>).
  \<^item> \<open>StateFlush\<close>: \<open>FlushStateToDisk\<close> and the pruning of block files.
  \<^item> \<open>Reads\<close>: connecting and disconnecting a block only read from the view below the block's cache until it is
    flushed, whether they succeed or fail (\<open>reads\<close>).
  \<^item> \<open>Activate\<close>: \<open>ConnectTip\<close> and \<open>DisconnectTip\<close>, the queue of disconnected transactions, \<open>ActivateBestChainStep\<close>
    and \<open>ActivateBestChain\<close>.  The memory pool after a reorganisation, requests to shut down and the memory that is
    used are fields of \<open>chain_env\<close>.
  \<^item> \<open>TipMove\<close>, \<open>TipCoins\<close>: what no move of the tip changes (\<open>kept\<close>), and the invariant \<open>tip_ok\<close> that the cache of
    the tip has the best block and the coins of the tip.
  \<^item> \<open>BestTip\<close>: the locale \<open>node_moves\<close> is what the loops rely on about their steps; its interpretation on the moves
    of the node gives that \<open>ActivateBestChain\<close> ends at a block that no candidate beats.
  \<^item> \<open>ChainOps\<close>: \<open>PreciousBlock\<close>, \<open>InvalidateBlock\<close>, \<open>ResetBlockFailureFlags\<close>, \<open>AcceptBlock\<close>, \<open>ProcessNewBlock\<close> and
    \<open>TestBlockValidity\<close>.

  Errors are values: an exception, a failed assertion or a bad pointer is the left side of a sum.  A loop
  that ends only on well-formed data is a \<^theory_text>\<open>partial_function\<close>, \<open>None\<close> being divergence, and the
  lemmas show that it ends on a block tree (\<open>ActivateBestChain\<close> need not: a best candidate whose block is corrupted on
  the disk is retried for ever).  No fuel is used.  Hash functions, ed25519 and the 512-bit
  integers of boost are parameters.

  Not modelled: networking, the memory pool, the wallet, the interfaces and the storage engine; equihash.  Of
  \<^verbatim>\<open>validation.cpp\<close>: the acceptance of transactions to the memory pool and its side of a reorganisation, warnings and
  callbacks (among them the fork warnings and the notification of header tips), the optional self-check
  \<open>CheckBlockIndex\<close>, the loading, rewinding and verifying of the chain at the start, and imported files.
\<close>

unbundle bit_operations_syntax

section \<open>Concrete inputs of the witnesses\<close>

definition demo_hash :: "bytes \<Rightarrow> bytes" where
  "demo_hash bs = replicate 32 (of_nat (length bs))"

definition demo_hashers :: hashers where
  "demo_hashers = \<lparr>RIPEMD160 = (\<lambda>_. replicate 20 0), SHA1 = (\<lambda>_. replicate 20 0),
     SHA3_256 = demo_hash, Hash160 = (\<lambda>_. replicate 20 0), Hash256 = demo_hash\<rparr>"

definition demo_env :: "u32 \<Rightarrow> eval_env" where
  "demo_env fl = \<lparr>flags = fl, sigversion = SIGVERSION_BASE, sig_checker = BaseSignatureChecker,
     hash_fns = demo_hashers\<rparr>"

lemma demo_small: "hashes_small (hash_fns (demo_env fl))"
  by (simp add: hashes_small_def demo_env_def demo_hashers_def demo_hash_def MAX_SCRIPT_ELEMENT_SIZE_def)

lemma demo_subenv: "f AND f' = f \<Longrightarrow> subenv (demo_env f') (demo_env f)"
  by (simp add: subenv_def demo_env_def)

definition demo_in :: CTxIn where
  "demo_in = \<lparr>prevout = COutPoint 5 1, scriptSig = [0x51], nSequence = 7, scriptWitness = [[1, 2], []]\<rparr>"

definition demo_tx :: CTransaction where
  "demo_tx = \<lparr>tx_vin = [demo_in], tx_vout = [\<lparr>nValue = 3, scriptPubKey = [0x51]\<rparr>], tx_nVersion = 2, tx_nLockTime = 0\<rparr>"

lemma demo_tx_ok: "tx_ok demo_tx" "HasWitness demo_tx" "tx_wire_ok demo_tx" "length (tx_vin demo_tx) = 1"
  "tx_ok (strip_witness demo_tx)"
  by (simp_all add: tx_ok_def tx_wire_ok_def demo_tx_def demo_in_def CTxIn_ok_def CTxOut_ok_def witness_ok_def
    HasWitness_def CScriptWitness_IsNull_def strip_witness_def clear_witness_def)

definition demo_header :: CBlockHeader where
  "demo_header = \<lparr>bh_nVersion = 4, hashPrevBlock = 9, hashMerkleRoot = 8, nTime = 100, nBits = 0x1d00ffff, nNonce = 3,
     nSolution = [1, 2, 3]\<rparr>"

definition demo_block :: CBlock where
  "demo_block = CBlockHeader.extend demo_header (CBlock.fields [demo_tx])"

lemma demo_block_ok: "block_ok demo_block"
  by (simp add: block_ok_def demo_block_def CBlockHeader.defs CBlock.defs demo_header_def demo_tx_ok)

definition demo_ed :: ed25519_env where
  "demo_ed = \<lparr>ed_verify = (\<lambda>_ _ _. True), vch_uninit = replicate 32 0, heap_behind = []\<rparr>"


text \<open>A chain of two blocks.\<close>

definition demo_entry :: "nat \<Rightarrow> ptr option \<Rightarrow> CBlockIndex" where
  "demo_entry h prev = CBlockIndex_null\<lparr>phashBlock := Some (of_nat h), pprev := prev, nHeight := h,
     bi_nTime := of_nat h, nTimeMax := of_nat h, bi_nBits := 0x1d00ffff\<rparr>"

definition demo_heap :: index_heap where
  "demo_heap = [0 \<mapsto> demo_entry 0 None, 1 \<mapsto> demo_entry 1 (Some 0)]"

lemma demo_heap_at [simp]: "demo_heap 0 = Some (demo_entry 0 None)" "demo_heap 1 = Some (demo_entry 1 (Some 0))"
  "demo_heap (Suc 0) = Some (demo_entry 1 (Some 0))"
  by (simp_all add: demo_heap_def)

lemma demo_entry_fields [simp]: "nHeight (demo_entry h p) = h" "pprev (demo_entry h p) = p" "pskip (demo_entry h p) = None"
  "phashBlock (demo_entry h p) = Some (of_nat h)" "bi_nTime (demo_entry h p) = of_nat h"
  "nTimeMax (demo_entry h p) = of_nat h" "bi_nBits (demo_entry h p) = 0x1d00ffff"
  by (simp_all add: demo_entry_def CBlockIndex_null_def)

lemma demo_heap_cases: "demo_heap p = Some b \<Longrightarrow> p = 0 \<and> b = demo_entry 0 None \<or> p = 1 \<and> b = demo_entry 1 (Some 0)"
  by (auto simp: demo_heap_def split: if_splits)

lemma demo_tree: "tree_ok demo_heap" "hashes_ok demo_heap" "time_max_ok demo_heap"
  by (auto simp: tree_ok_def hashes_ok_def time_max_ok_def entry_ok_def dest!: demo_heap_cases)

lemma demo_branch: "is_branch demo_heap [Some 0, Some 1]" "is_branch demo_heap [Some 0]"
proof -
  have "branch demo_heap 1 (nHeight (demo_entry 1 (Some 0))) = [Some 0, Some 1]" "branch demo_heap 0 (nHeight (demo_entry 0 None)) = [Some 0]"
    by (simp_all add: branch_def upt_rec)
  then show "is_branch demo_heap [Some 0, Some 1]" "is_branch demo_heap [Some 0]"
    by (metis is_branchI demo_heap_at(2), metis is_branchI demo_heap_at(1))
qed

definition demo_params :: Consensus_Params where
  "demo_params = \<lparr>powLimit = 2 ^ 224, fPowAllowMinDifficultyBlocks = False, fPowNoRetargeting = False,
     nPowTargetSpacing = 600, nPowTargetTimespan = 1200, authorizationForkHeight = 1, authorizationKey = replicate 32 1\<rparr>"

lemma demo_params_fields [simp]: "nPowTargetTimespan demo_params = 1200" "DifficultyAdjustmentInterval demo_params = 2"
  "fPowNoRetargeting demo_params = False" "powLimit demo_params = 2 ^ 224" "authorizationForkHeight demo_params = 1"
  by (simp_all add: demo_params_def DifficultyAdjustmentInterval_def signed_divide_int_def)

definition demo_coinbase_block :: CBlock where
  "demo_coinbase_block = CBlockHeader.extend demo_header (CBlock.fields
     [\<lparr>tx_vin = [\<lparr>prevout = COutPoint 0 (- 1), scriptSig = [0x51, 0x01, 0x64, 64] @ replicate 64 1, nSequence = 0,
         scriptWitness = []\<rparr>],
       tx_vout = [\<lparr>nValue = 3, scriptPubKey = [0x51]\<rparr>], tx_nVersion = 2, tx_nLockTime = 0\<rparr>])"

text \<open>A database with one coin, the caches over it and a block that spends the coin.\<close>

definition demo_coin :: "nat \<Rightarrow> Coin" where
  "demo_coin height = \<lparr>coin_out = \<lparr>nValue = 10, scriptPubKey = [0x51]\<rparr>, coin_fCoinBase = False, coin_nHeight = of_nat height\<rparr>"

definition demo_db :: "nat \<Rightarrow> coins_db" where
  "demo_db height = \<lparr>db_coin = [COutPoint 5 1 \<mapsto> demo_coin height], db_best = Some 7, db_heads = None\<rparr>"

abbreviation demo_base :: "coins_db CCoinsViewCache view_ops" where
  "demo_base \<equiv> Cache_ops (CCoinsViewDB_ops 1000)"

definition demo_view :: "nat \<Rightarrow> coins_db CCoinsViewCache CCoinsViewCache" where
  "demo_view height = CCoinsViewCache_new (CCoinsViewCache_new (demo_db height))"

lemma demo_db_ok: "db_ok (demo_db height)"
  by (simp add: db_ok_def demo_db_def DB_GetBestBlock_def demo_coin_def IsSpent_def CTxOut_IsNull_def)

lemma demo_view_ok [simp]:
  "tip.cache_ok (demo_view height)" "tip.cache_contents (demo_view height) = [COutPoint 5 1 \<mapsto> demo_coin height]"
  "tip.cache_best (demo_view height) = 7"
  using tip.cache_new_ok(1) [OF db.cache_new_ok(1) [OF demo_db_ok]]
  by (simp_all add: demo_view_def tip.cache_new_ok(2,3) db.cache_new_ok(2,3)) (simp_all add: demo_db_def DB_GetBestBlock_def)

definition demo_coinbase :: CTransaction where
  "demo_coinbase = \<lparr>tx_vin = [\<lparr>prevout = COutPoint 0 (- 1), scriptSig = [0x54, 0], nSequence = 0, scriptWitness = []\<rparr>],
     tx_vout = [\<lparr>nValue = 3, scriptPubKey = [0x51]\<rparr>], tx_nVersion = 2, tx_nLockTime = 0\<rparr>"

definition demo_spend_block :: CBlock where
  "demo_spend_block = CBlockHeader.extend demo_header (CBlock.fields [demo_coinbase, demo_tx])"

lemma demo_txids:
  "GetHash demo_hash demo_coinbase = 0x3F3F3F3F3F3F3F3F3F3F3F3F3F3F3F3F3F3F3F3F3F3F3F3F3F3F3F3F3F3F3F3F"
  "GetHash demo_hash demo_tx = 0x3E3E3E3E3E3E3E3E3E3E3E3E3E3E3E3E3E3E3E3E3E3E3E3E3E3E3E3E3E3E3E3E"
  by code_simp+

lemma demo_coinbase_form: "IsCoinBase demo_coinbase" "\<not> IsCoinBase demo_tx" "vtx demo_spend_block = [demo_coinbase, demo_tx]"
  by code_simp+

lemma demo_tx_fields:
  "tx_vin demo_tx = [demo_in]" "tx_vout demo_tx = [\<lparr>nValue = 3, scriptPubKey = [0x51]\<rparr>]" "prevout demo_in = COutPoint 5 1"
  "tx_vout demo_coinbase = [\<lparr>nValue = 3, scriptPubKey = [0x51]\<rparr>]"
  by (simp_all add: demo_tx_def demo_in_def demo_coinbase_def)

lemma demo_block_fits:
  "txs_fit demo_hash 4 (vtx demo_spend_block) [COutPoint 5 1 \<mapsto> demo_coin height]"
  "spent_by demo_hash 4 (vtx demo_spend_block) [COutPoint 5 1 \<mapsto> demo_coin height] = [[], [demo_coin height]]"
  by (simp_all add: tx_fits_def demo_coinbase_form tx_inputs_def apply_tx_def spent_coins_def new_coins_def without_def
      demo_txids tx_coin_def map_add_def demo_tx_fields CTxOut_IsNull_def)

text \<open>Trees with two leaves.\<close>

lemma demo_two_leaves:
  fixes i k :: nat
  shows "(2 * i + 2) * 2 ^ k \<le> 2 \<Longrightarrow> i = 0 \<and> k = 0" "(2 * i + 1) * 2 ^ k < 2 \<Longrightarrow> i = 0 \<and> k = 0"
proof -
  have p: "1 \<le> (2 :: nat) ^ k" for k by simp
  have le: "(2 * i + 1) * 1 \<le> (2 * i + 1) * 2 ^ k" "(2 * i + 2) * 1 \<le> (2 * i + 2) * 2 ^ k" by (intro mult_le_mono order_refl p)+
  have k: "k = 0 \<or> 2 \<le> (2 :: nat) ^ k" using p by (cases k) auto
  show "i = 0 \<and> k = 0" if a: "(2 * i + 2) * 2 ^ k \<le> 2"
  proof -
    from le_trans [OF le(2) a] have "i = 0" by simp
    then show ?thesis using a k by auto
  qed
  show "i = 0 \<and> k = 0" if a: "(2 * i + 1) * 2 ^ k < 2"
  proof -
    from le_less_trans [OF le(1) a] have "i = 0" by simp
    then show ?thesis using a k by auto
  qed
qed

lemma demo_tree_two: "tree_height 2 = 1" "dup_nodes H [a, b] 2 \<longleftrightarrow> a = b" "siblings_differ H [a, b] \<longleftrightarrow> a \<noteq> b"
proof -
  show "tree_height 2 = 1" by (rule height_from_eq) simp_all
  have n: "node H [a, b] 0 0 = a" "node H [a, b] 0 (Suc 0) = b" by (simp_all add: node_0)
  show "dup_nodes H [a, b] 2 \<longleftrightarrow> a = b"
    unfolding dup_nodes_def using n demo_two_leaves(1) by (fastforce intro: exI [of _ 0])
  show "siblings_differ H [a, b] \<longleftrightarrow> a \<noteq> b"
    
  proof
    assume "siblings_differ H [a, b]"
    then have "(2 * 0 + 1) * 2 ^ 0 < length [a, b] \<longrightarrow> node H [a, b] 0 (2 * 0) \<noteq> node H [a, b] 0 (2 * 0 + 1)"
      unfolding siblings_differ_def by blast
    then show "a \<noteq> b" using n by simp
  next
    assume "a \<noteq> b"
    moreover have len: "length [a, b] = 2" by simp
    moreover have "i = 0 \<and> h = 0" if "(2 * i + 1) * 2 ^ h < length [a, b]" for h i
      using that unfolding len by (rule demo_two_leaves(2))
    ultimately show "siblings_differ H [a, b]" unfolding siblings_differ_def using n by fastforce
  qed
qed

text \<open>The state of a node.\<close>

definition demo_chain_params :: Chain_Params where
  "demo_chain_params = Consensus_Params.extend demo_params \<lparr>hashGenesisBlock = 1, nSubsidyHalvingInterval = 2000000,
     nRuleChangeActivationThreshold = 2, nMinerConfirmationWindow = 2, vDeployments = []\<rparr>"

definition demo_connect_env :: connect_env where
  "demo_connect_env = \<lparr>be_ed = demo_ed, be_verify_pubkey = (\<lambda>_. True), be_hash = demo_hash, CheckEquihashSolution = (\<lambda>_. True),
     ce_hashers = demo_hashers\<rparr>"

definition demo_disk_env :: disk_env where
  "demo_disk_env = \<lparr>fPruneMode = False, nFreeBytesAvailable = 2 ^ 30, messageStart = [1, 2, 3, 4]\<rparr>"

definition demo_node_env :: node_env where
  "demo_node_env = connect_env.extend demo_connect_env \<lparr>ne_disk = demo_disk_env, nScriptCheckThreads = 0, hashAssumeValid = 0,
     nMinimumChainWork = arith_of_u64 0, fTxIndex = False, scriptExecutionCacheNonce = 0\<rparr>"

definition demo_disk :: disk_state where
  "demo_disk = \<lparr>blk_files = Map.empty, rev_files = Map.empty, vinfoBlockFile = [], nLastBlockFile = 0, setDirtyFileInfo = [],
     fCheckForPruning = False\<rparr>"

definition demo_state :: "index_heap \<Rightarrow> CChain \<Rightarrow> node_state" where
  "demo_state H C = \<lparr>ns_index = H, mapBlockIndex = Map.empty, chainActive = C, pindexBestHeader = None, ns_disk = demo_disk,
     ns_txindex = Map.empty, setDirtyBlockIndex = [], scriptExecutionCache = cache_setup 0 3 2 cache_empty\<rparr>"

definition demo_chain_state :: "index_heap \<Rightarrow> CChain \<Rightarrow> ptr list \<Rightarrow> chain_state" where
  "demo_chain_state H C candidates = node_state.extend (demo_state H C) \<lparr>setBlockIndexCandidates = candidates,
     nBlockSequenceId = 1, nBlockReverseSequenceId = -1, nLastPreciousChainwork = arith_of_u64 0, g_failed_blocks = [],
     mapBlocksUnlinked = [], pindexBestInvalid = None\<rparr>"

lemma demo_state_fields [simp]:
  "ns_index (demo_state H C) = H" "chainActive (demo_state H C) = C"
  "ns_index (demo_chain_state H C ps) = H" "chainActive (demo_chain_state H C ps) = C" "setBlockIndexCandidates (demo_chain_state H C ps) = ps"
  "pindexBestInvalid (demo_chain_state H C ps) = None" "mapBlockIndex (demo_chain_state H C ps) = Map.empty"
  "pindexBestHeader (demo_chain_state H C ps) = None" "ns_disk (demo_chain_state H C ps) = demo_disk"
  by (simp_all add: demo_state_def demo_chain_state_def node_state.defs)

text \<open>A genesis block with a coinbase only, and the empty coins it is connected to.\<close>

definition demo_genesis :: CBlock where
  "demo_genesis = CBlockHeader.extend demo_header (CBlock.fields [demo_coinbase])"

definition demo_genesis_entry :: CBlockIndex where
  "demo_genesis_entry = CBlockIndex_null\<lparr>phashBlock := Some (BlockHeader_GetHash demo_hash (GetBlockHeader demo_genesis))\<rparr>"

definition demo_empty_view :: "coins_db CCoinsViewCache CCoinsViewCache" where
  "demo_empty_view = CCoinsViewCache_new (CCoinsViewCache_new \<lparr>db_coin = Map.empty, db_best = None, db_heads = None\<rparr>)"

lemma demo_empty_view_ok [simp]:
  "tip.cache_ok demo_empty_view" "tip.cache_contents demo_empty_view = Map.empty" "tip.cache_best demo_empty_view = 0"
proof -
  have "db_ok \<lparr>db_coin = Map.empty, db_best = None, db_heads = None\<rparr>" by (simp add: db_ok_def DB_GetBestBlock_def DB_GetHeadBlocks_def)
  from tip.cache_new_ok(1) [OF db.cache_new_ok(1) [OF this]]
  show "tip.cache_ok demo_empty_view" "tip.cache_contents demo_empty_view = Map.empty" "tip.cache_best demo_empty_view = 0"
    by (simp_all add: demo_empty_view_def tip.cache_new_ok(2,3) db.cache_new_ok(2,3) DB_GetBestBlock_def)
qed

lemma demo_genesis_form: "vtx demo_genesis = [demo_coinbase]" "length (Serialize_CBlock False demo_genesis) < 1000"
  "GetLegacySigOpCount demo_coinbase = 0" "length (SerializeTransaction False demo_coinbase) < 1000"
  by code_simp+

lemma demo_coinbase_checked: "CheckTransaction demo_coinbase False = Inr ()"
proof -
  have "tx_vin demo_coinbase \<noteq> []" "tx_vout demo_coinbase \<noteq> []" "map nValue (tx_vout demo_coinbase) = [3]"
    "length (scriptSig (tx_vin demo_coinbase ! 0)) = 2"
    by (simp_all add: demo_coinbase_def)
  then show ?thesis using demo_genesis_form(4) demo_coinbase_form(1)
    by (simp add: CheckTransaction_iff WITNESS_SCALE_FACTOR_def MAX_BLOCK_WEIGHT_def MoneyRange_def MAX_MONEY_def COIN_def
        demo_tx_fields)
qed

lemma demo_genesis_checked:
  assumes "be_hash env = demo_hash"
  shows "CheckBlock env params H [] demo_genesis False False False = (Inr (), False)"
proof -
  have "check_authorization env params H [] demo_genesis False = Inr ()" by (simp add: check_authorization_def Tip_def)
  then show ?thesis
    using CheckBlock_iff [of env params H "[]" demo_genesis False False] demo_coinbase_form(1) demo_genesis_form demo_coinbase_checked
    by (simp add: WITNESS_SCALE_FACTOR_def MAX_BLOCK_WEIGHT_def)
qed

lemma demo_genesis_connects:
  "\<exists>view' ns'. ConnectBlock demo_node_env demo_chain_params (Cache_ops (CCoinsViewDB_ops 1000)) demo_genesis False 0 True demo_empty_view
     (demo_state [0 \<mapsto> demo_genesis_entry] []) = (Inr True, False, view', ns')"
proof -
  let ?ns = "demo_state [0 \<mapsto> demo_genesis_entry] []"
  have env: "be_hash demo_node_env = demo_hash" "block_env.truncate demo_node_env = block_env.truncate demo_connect_env"
      "be_hash (block_env.truncate demo_connect_env) = demo_hash" "hashAssumeValid demo_node_env = 0"
    by (simp_all only: demo_node_env_def demo_connect_env_def connect_env.extend_def block_env.truncate_def block_env.select_convs
        connect_env.select_convs node_env.select_convs connect_env.more_def block_env.more_def)
  have e: "phashBlock demo_genesis_entry = Some (BlockHeader_GetHash demo_hash (GetBlockHeader demo_genesis))"
      "pprev demo_genesis_entry = None" "nHeight demo_genesis_entry = 0"
    by (simp_all add: demo_genesis_entry_def CBlockIndex_null_def)
  have ck: "CheckBlock (block_env.truncate demo_node_env) (Consensus_Params.truncate demo_chain_params) (ns_index ?ns) (chainActive ?ns)
      demo_genesis False False False = (Inr (), False)"
    unfolding env demo_state_fields by (rule demo_genesis_checked) (rule env(3))
  have fit: "tx_fits (be_hash demo_node_env) demo_coinbase (tip.cache_contents demo_empty_view)"
    by (simp add: tx_fits_def tx_inputs_def demo_coinbase_form demo_tx_fields CTxOut_IsNull_def)
  have out: "GetValueOut demo_coinbase = Some 3" by code_simp
  have sub: "3 \<le> GetBlockSubsidy (nSubsidyHalvingInterval demo_chain_params) (int (nHeight demo_genesis_entry))"
    by (simp add: e GetBlockSubsidy_def GENESIS_MONEY_def COIN_def)
  have "\<exists>view' ns'. ConnectBlock demo_node_env demo_chain_params (Cache_ops (CCoinsViewDB_ops 1000)) demo_genesis False 0 True demo_empty_view
     ?ns = (Inr True, False, view', ns') \<and> tip.cache_ok view' \<and>
     tip.cache_contents view' = apply_tx (be_hash demo_node_env) (int (nHeight demo_genesis_entry)) demo_coinbase (tip.cache_contents demo_empty_view)"
    by (rule tip.ConnectBlock_coinbase [OF demo_empty_view_ok(1) _ _ ck _ _ _ demo_genesis_form(1) demo_coinbase_form(1) fit _ out sub])
      (simp_all add: e env hash_of_prev_def fScriptChecks_for_def demo_genesis_form(3))
  then show ?thesis by blast
qed

lemma demo_genesis_money: "\<exists>f. money_after demo_chain_params 1 f"
proof -
  obtain view' ns' where r: "ConnectBlock demo_node_env demo_chain_params (Cache_ops (CCoinsViewDB_ops 1000)) demo_genesis False 0 True
      demo_empty_view (demo_state [0 \<mapsto> demo_genesis_entry] []) = (Inr True, False, view', ns')"
    using demo_genesis_connects by blast
  have "txs_new (be_hash demo_node_env) (int 0) (vtx demo_genesis) (tip.cache_contents demo_empty_view)"
    by (simp add: demo_genesis_form(1) tx_new_def tx_inputs_def demo_coinbase_form)
  from money_block [OF _ demo_empty_view_ok(1) _ _ r this, of demo_genesis_entry] money_none show ?thesis
    by (auto simp: demo_genesis_entry_def CBlockIndex_null_def)
qed

text \<open>Two candidates.\<close>

definition demo_work_entry :: "nat \<Rightarrow> ptr option \<Rightarrow> CBlockIndex" where
  "demo_work_entry h prev = (demo_entry h prev)\<lparr>nChainTx := 1, nStatus := BLOCK_HAVE_DATA, nChainWork := arith_of_u64 (of_nat h + 1)\<rparr>"

definition demo_work_heap :: index_heap where
  "demo_work_heap = [0 \<mapsto> demo_work_entry 0 None, 1 \<mapsto> demo_work_entry 1 (Some 0)]"

lemma demo_work_cases: "demo_work_heap p = Some b \<Longrightarrow>
  p = 0 \<and> b = demo_work_entry 0 None \<or> p = 1 \<and> b = demo_work_entry 1 (Some 0)"
  by (auto simp: demo_work_heap_def split: if_splits)

lemma demo_same_shape: "same_shape demo_heap demo_work_heap"
  by (auto simp: same_shape_def fun_eq_iff demo_heap_def demo_work_heap_def entry_shape_def demo_work_entry_def)

lemma demo_candidates: "candidates_linked (demo_chain_state demo_work_heap [Some 0] [0, 1])"
proof -
  have "works_ok demo_work_heap"
    by (auto simp: works_ok_def demo_work_entry_def dest!: demo_work_cases)
  moreover have "linked demo_work_heap p" for p
    by (auto simp: linked_def demo_work_entry_def dest!: demo_work_cases)
  moreover have "demo_work_heap 0 \<noteq> None" "demo_work_heap 1 \<noteq> None" by (simp_all add: demo_work_heap_def)
  ultimately show ?thesis
    using same_shape_tree [OF demo_same_shape demo_tree(1)] same_shape_branch [OF demo_same_shape demo_branch(2)]
    by (simp add: candidates_linked_def)
qed

lemma demo_usable: "usable demo_work_heap [Some 0] p"
proof -
  have "\<not> entry_bad (demo_work_entry h q)" for h q
    by (simp add: entry_bad_def entry_failed_def demo_work_entry_def BLOCK_HAVE_DATA_def BLOCK_FAILED_MASK_def BLOCK_FAILED_VALID_def BLOCK_FAILED_CHILD_def)
  then show ?thesis by (auto simp: usable_def dest!: demo_work_cases)
qed

lemma demo_work_less: "work_key demo_work_heap 0 < work_key demo_work_heap 1"
  by (simp add: work_key_def demo_work_heap_def demo_work_entry_def num_arith_of_u64)

text \<open>A node whose tip's cache is over a database with one coin.\<close>

definition demo_node :: "coins_db node" where
  "demo_node = chain_state.extend (demo_chain_state Map.empty [] []) \<lparr>pcoinsTip = CCoinsViewCache_new (demo_db 3),
     pblocktree = \<lparr>bt_files = Map.empty, bt_last = None, bt_blocks = Map.empty, bt_pruned = False\<rparr>, fHavePruned = False,
     nLastWrite = 0, nLastFlush = 0, nLastSetChain = 0\<rparr>"

definition demo_run_env :: "(nat, coins_db) run_env" where
  "demo_run_env = accept_env.extend (node_env.extend demo_node_env
       \<lparr>ops512 = \<lparr>of_text = (\<lambda>_. 0), times512 = (\<lambda>_ _. 0), quotient512 = (\<lambda>_ _. 0), greater512 = (\<lambda>_ _. False), to_text = (\<lambda>_. [])\<rparr>,
        ae_checkpoints = None, AdjustedTime = 0\<rparr>)
     \<lparr>re_version = 70015, re_now = 1, nMempoolUsage = 0, nMempoolSizeMax = 0, nCoinCacheUsage = 0, DynamicMemoryUsage = (\<lambda>_. 0),
      fReindex = False, nPruneTarget = 0, PruneAfterHeight = 0\<rparr>"


text \<open>A tip at height 1000 in one file, and a block at height 5 in another.\<close>

definition demo_stored_entry :: "nat \<Rightarrow> int \<Rightarrow> CBlockIndex" where
  "demo_stored_entry h f = CBlockIndex_null\<lparr>nHeight := h, nFile := f, nStatus := BLOCK_HAVE_DATA\<rparr>"

definition demo_prune_state :: chain_state where
  "demo_prune_state = (demo_chain_state [0 \<mapsto> demo_stored_entry 1000 1, 1 \<mapsto> demo_stored_entry 5 0] [Some 0] [])\<lparr>
     ns_disk := demo_disk\<lparr>nLastBlockFile := 1, vinfoBlockFile := [CBlockFileInfo_null\<lparr>fi_nSize := 500, nHeightLast := 5\<rparr>,
       CBlockFileInfo_null\<lparr>fi_nSize := 500, nHeightLast := 1000\<rparr>]\<rparr>\<rparr>"

lemma demo_prune_tip: "Tip (chainActive demo_prune_state) = Some 0" "ns_index demo_prune_state 0 = Some (demo_stored_entry 1000 1)"
  by (simp_all add: demo_prune_state_def Tip_def)

lemma demo_prune_entry: "nHeight (demo_stored_entry h f) = h" "nStatus (demo_stored_entry h f) AND BLOCK_HAVE_DATA \<noteq> 0"
  by (simp_all add: demo_stored_entry_def BLOCK_HAVE_DATA_def)

lemma demo_prune_ok: "MIN_BLOCKS_TO_KEEP \<le> 500" "dom (ns_index demo_prune_state) \<subseteq> set [0, 1]"
  "nLastBlockFile (ns_disk demo_prune_state) \<le> length (vinfoBlockFile (ns_disk demo_prune_state))"
  "heights_recorded (ns_index demo_prune_state) (vinfoBlockFile (ns_disk demo_prune_state))"
  by (auto simp: MIN_BLOCKS_TO_KEEP_def demo_prune_state_def heights_recorded_def demo_stored_entry_def split: if_splits)






text \<open>A node whose best candidate is stored with transactions that do not match its header.\<close>

definition demo_small_hash :: "bytes \<Rightarrow> bytes" where
  "demo_small_hash bs = 2 # replicate 31 0"

definition demo_chain_env :: "(bytes \<Rightarrow> bytes) \<Rightarrow> (nat, coins_db) chain_env" where
  "demo_chain_env h = run_env.extend (demo_run_env\<lparr>be_hash := h\<rparr>) \<lparr>map_order = (\<lambda>_. [0, 1]), UpdateMempoolForReorg = (\<lambda>_ _ nd. Inr nd),
     ShutdownRequested = (\<lambda>_. False), nStopAtHeight = 0, tx_usage = (\<lambda>_. 100), entry_usage = 64\<rparr>"

lemma demo_chain_env_fields [simp]:
  "be_hash (demo_chain_env h) = h" "CheckEquihashSolution (demo_chain_env h) hd0"
  "be_hash (block_env.truncate (node_env.truncate (demo_chain_env h))) = h"
  "CheckEquihashSolution (block_env.truncate (node_env.truncate (demo_chain_env h))) hd0"
  "\<not> stop_requested (demo_chain_env h) nd" "pool_safe (demo_chain_env h)"
  by (simp_all add: demo_chain_env_def demo_run_env_def demo_node_env_def demo_connect_env_def run_env.defs accept_env.defs node_env.defs
      connect_env.defs block_env.defs stop_requested_def pool_safe_def)

definition demo_tip_entry :: CBlockIndex where
  "demo_tip_entry = (demo_work_entry 0 None)\<lparr>phashBlock := Some 7\<rparr>"

definition demo_corrupt_entry :: CBlockIndex where
  "demo_corrupt_entry = (demo_work_entry 1 (Some 0))\<lparr>phashBlock := Some 2\<rparr>"

definition demo_corrupt_disk :: disk_state where
  "demo_corrupt_disk = demo_disk\<lparr>blk_files := [0 \<mapsto> Serialize_CBlock True demo_block]\<rparr>"

definition demo_corrupt_node :: "coins_db node" where
  "demo_corrupt_node = demo_node\<lparr>ns_index := [0 \<mapsto> demo_tip_entry, 1 \<mapsto> demo_corrupt_entry], chainActive := [Some 0],
     setBlockIndexCandidates := [0, 1], ns_disk := demo_corrupt_disk\<rparr>"

lemma demo_corrupt_read: "read_block (demo_chain_env demo_small_hash) demo_chain_params demo_corrupt_entry demo_corrupt_node = Inr (Some demo_block)"
proof -
  have "GetBlockPos demo_corrupt_entry = \<lparr>pos_nFile = 0, pos_nPos = 0\<rparr>" by code_simp
  moreover have "Unserialize_CBlock True (Serialize_CBlock True demo_block) = Inr (demo_block, [])"
    using block.unser_ser [OF demo_block_ok, of "[]"] by simp
  moreover have "BlockHeader_GetHash demo_small_hash (GetBlockHeader demo_block) = 2" by code_simp
  moreover have "CheckProofOfWork 2 (nBits demo_block) (Consensus_Params.truncate demo_chain_params)" by code_simp
  moreover have "GetBlockHash demo_corrupt_entry = Inr 2" by code_simp
  moreover have "ns_disk demo_corrupt_node = demo_corrupt_disk" by (simp add: demo_corrupt_node_def)
  ultimately show ?thesis
    by (simp add: read_block_def ReadBlockFromDisk_index_def ReadBlockFromDisk_def CDiskBlockPos_IsNull_def demo_corrupt_disk_def)
qed

definition demo_hard_params :: Chain_Params where
  "demo_hard_params = demo_chain_params\<lparr>powLimit := 0\<rparr>"

lemma demo_small_block_hash: "BlockHeader_GetHash demo_small_hash (GetBlockHeader demo_block) = 2"
  by code_simp

lemma demo_pow:
  "CheckProofOfWork 2 (nBits demo_block) (Consensus_Params.truncate demo_chain_params)"
  "\<not> CheckProofOfWork 2 (nBits demo_block) (Consensus_Params.truncate demo_hard_params)"
proof -
  have "compact_num (nBits demo_block) \<noteq> 0"
    by (simp add: demo_block_def CBlockHeader.defs demo_header_def compact_num_def compact_mantissa_def compact_exponent_def)
  then show "\<not> CheckProofOfWork 2 (nBits demo_block) (Consensus_Params.truncate demo_hard_params)"
    by (simp add: CheckProofOfWork_iff demo_hard_params_def demo_chain_params_def Consensus_Params.defs)
  show "CheckProofOfWork 2 (nBits demo_block) (Consensus_Params.truncate demo_chain_params)" by code_simp
qed

lemma demo_wrong_root: "check_merkle_root demo_small_hash demo_block = Inl (reject_corrupt 100 ''bad-txnmrklroot'')"
proof -
  have v: "vtx demo_block = [demo_tx]" "hashMerkleRoot demo_block = 8" "GetHash demo_small_hash demo_tx = 2" by code_simp+
  have "fst (ComputeMerkleRoot H [x]) = x" for H x
    using ComputeMerkleRoot_eq [of "[x]" H] by (simp add: height_from_eq [of "Suc 0" 0 0])
  then have "fst (BlockMerkleRoot demo_small_hash demo_block) = 2" by (simp add: BlockMerkleRoot_def v)
  then show ?thesis by (simp add: check_merkle_root_def v(2) case_prod_unfold)
qed

lemma demo_checks:
  "CheckBlock (block_env.truncate (node_env.truncate (demo_chain_env demo_small_hash))) (Consensus_Params.truncate demo_chain_params) H C
     demo_block False True True = (Inl (Rejected (reject_corrupt 100 ''bad-txnmrklroot'')), False)"
  "CheckBlock (block_env.truncate (node_env.truncate (demo_chain_env demo_small_hash))) (Consensus_Params.truncate demo_hard_params) H C
     demo_block False True True = (Inl (Rejected (reject 50 ''high-hash'')), False)"
  by (simp_all add: CheckBlock_def CheckBlockHeader_def demo_small_block_hash demo_pow demo_wrong_root lift_reject_def)

text \<open>The two entries, and the node with them.\<close>

definition demo_corrupt_heap :: index_heap where
  "demo_corrupt_heap = [0 \<mapsto> demo_tip_entry, 1 \<mapsto> demo_corrupt_entry]"

lemma demo_corrupt_fields:
  "ns_index demo_corrupt_node = demo_corrupt_heap" "chainActive demo_corrupt_node = [Some 0]"
  "setBlockIndexCandidates demo_corrupt_node = [0, 1]" "pindexBestInvalid demo_corrupt_node = None"
  by (simp_all add: demo_corrupt_node_def demo_corrupt_heap_def demo_node_def chain_state.defs demo_chain_state_def node_state.defs)

lemma demo_corrupt_at:
  "demo_corrupt_heap 0 = Some (demo_tip_entry)" "demo_corrupt_heap 1 = Some demo_corrupt_entry"
  "demo_corrupt_heap (Suc 0) = Some demo_corrupt_entry"
  "pprev demo_corrupt_entry = Some 0" "nHeight demo_corrupt_entry = 1" "phashBlock demo_corrupt_entry = Some 2" "nChainTx demo_corrupt_entry = 1"
  "nStatus demo_corrupt_entry = BLOCK_HAVE_DATA" "nHeight demo_tip_entry = 0" "phashBlock demo_tip_entry = Some 7" "pprev demo_tip_entry = None"
  by (simp_all add: demo_tip_entry_def demo_corrupt_heap_def demo_corrupt_entry_def demo_work_entry_def)

lemma demo_corrupt_cases: "demo_corrupt_heap p = Some b \<Longrightarrow>
  p = 0 \<and> b = demo_tip_entry \<or> p = 1 \<and> b = demo_corrupt_entry"
  by (auto simp: demo_corrupt_heap_def split: if_splits)

lemma demo_corrupt_shape: "same_shape demo_heap demo_corrupt_heap"
  by (auto simp: same_shape_def fun_eq_iff demo_heap_def demo_corrupt_heap_def entry_shape_def demo_tip_entry_def demo_work_entry_def demo_corrupt_entry_def)

lemma demo_corrupt_linked: "candidates_linked demo_corrupt_node"
proof -
  have "works_ok demo_corrupt_heap"
    by (auto simp: works_ok_def demo_tip_entry_def demo_work_entry_def demo_corrupt_entry_def dest!: demo_corrupt_cases)
  moreover have "linked demo_corrupt_heap p" for p
    by (auto simp: linked_def demo_tip_entry_def demo_work_entry_def demo_corrupt_entry_def dest!: demo_corrupt_cases)
  ultimately show ?thesis
    using same_shape_tree [OF demo_corrupt_shape demo_tree(1)] same_shape_branch [OF demo_corrupt_shape demo_branch(2)]
    by (simp add: candidates_linked_def demo_corrupt_fields demo_corrupt_at)
qed

lemma demo_corrupt_work: "\<not> CBlockIndexWorkComparator demo_corrupt_heap 1 0"
proof -
  have "works_ok demo_corrupt_heap" using demo_corrupt_linked by (simp add: candidates_linked_def demo_corrupt_fields)
  then show ?thesis
    by (simp add: comparator_key demo_corrupt_at work_key_def) (simp add: demo_tip_entry_def demo_corrupt_entry_def demo_work_entry_def num_arith_of_u64)
qed

lemma demo_corrupt_found: "FindMostWorkChain demo_corrupt_node = Some (Inr (Some 1, demo_corrupt_node))"
proof -
  have best: "best_candidate demo_corrupt_heap [0, Suc 0] = Some (Suc 0)" using demo_corrupt_work by simp
  have on: "Contains demo_corrupt_heap [Some 0] 0 = Inr True" "Contains demo_corrupt_heap [Some 0] 1 = Inr False" by code_simp+
  have st: "nStatus demo_corrupt_entry AND BLOCK_FAILED_MASK = 0" "nStatus demo_corrupt_entry AND BLOCK_HAVE_DATA \<noteq> 0"
    by (simp_all add: demo_corrupt_at BLOCK_HAVE_DATA_def BLOCK_FAILED_MASK_def BLOCK_FAILED_VALID_def BLOCK_FAILED_CHILD_def)
  have "unusable_on_path demo_corrupt_heap [Some 0] (Some 0) = Some (Inr None)" by (subst unusable_on_path.simps) (simp add: on)
  then have "unusable_on_path demo_corrupt_heap [Some 0] (Some 1) = Some (Inr None)"
    using on st by (subst unusable_on_path.simps) (simp add: deref_def demo_corrupt_at)
  then show ?thesis by (subst FindMostWorkChain.simps) (simp add: demo_corrupt_fields best del: best_candidate.simps)
qed

text \<open>The same block under a limit that its proof of work misses is refused for good.\<close>

definition demo_marked_node :: "coins_db node" where
  "demo_marked_node = demo_corrupt_node\<lparr>ns_index := demo_corrupt_heap(1 \<mapsto> demo_corrupt_entry\<lparr>nStatus := BLOCK_HAVE_DATA OR BLOCK_FAILED_VALID\<rparr>),
     g_failed_blocks := [1], setDirtyBlockIndex := [1], setBlockIndexCandidates := [0], pindexBestInvalid := Some 1\<rparr>"

lemma demo_marked: "InvalidBlockFound 1 False demo_corrupt_node = Inr demo_marked_node"
  "InvalidChainFound 1 demo_marked_node = Inr demo_marked_node"
proof -
  have g: "g_failed_blocks demo_corrupt_node = []" "setDirtyBlockIndex demo_corrupt_node = []"
    by (simp_all add: demo_corrupt_node_def demo_node_def chain_state.defs demo_chain_state_def node_state.defs demo_state_def)
  show "InvalidBlockFound 1 False demo_corrupt_node = Inr demo_marked_node"
    by (simp add: InvalidBlockFound_def InvalidChainFound_def deref_def Let_def set_entry_def set_dirty_def erase_candidate_def
        demo_corrupt_fields demo_corrupt_at Tip_def g demo_marked_node_def insort_insert_key_def)
  have "CompareTo w w \<le> 0" for w by (simp add: CompareTo_num)
  then show "InvalidChainFound 1 demo_marked_node = Inr demo_marked_node"
    by (simp add: InvalidChainFound_def deref_def demo_marked_node_def Tip_def demo_corrupt_fields)
qed

lemma demo_refused_connect:
  "ConnectTip (demo_chain_env demo_small_hash) demo_hard_params (CCoinsViewDB_ops 1000) 1 (Some (demo_block, False)) pool demo_corrupt_node =
     Some ((Inl (Rejected (reject 50 ''high-hash'')), demo_marked_node), pool)"
  "block_to_connect (demo_chain_env demo_small_hash) demo_hard_params 1 (Some (demo_block, False)) demo_corrupt_node = Inr (Some (demo_block, False))"
proof -
  have b: "ns_index demo_corrupt_node 1 = Some demo_corrupt_entry" by (simp add: demo_corrupt_fields demo_corrupt_at)
  show con: "block_to_connect (demo_chain_env demo_small_hash) demo_hard_params 1 (Some (demo_block, False)) demo_corrupt_node =
      Inr (Some (demo_block, False))"
    using b by (simp add: block_to_connect_def deref_def demo_corrupt_at demo_corrupt_fields Tip_def)
  have h: "phashBlock demo_corrupt_entry = Some (BlockHeader_GetHash (be_hash (demo_chain_env demo_small_hash)) (GetBlockHeader demo_block))"
    by (simp add: demo_corrupt_at demo_small_block_hash)
  have rj: "rj_corruption (reject 50 ''high-hash'') = False" by (simp add: reject_def)
  show "ConnectTip (demo_chain_env demo_small_hash) demo_hard_params (CCoinsViewDB_ops 1000) 1 (Some (demo_block, False)) pool demo_corrupt_node =
     Some ((Inl (Rejected (reject 50 ''high-hash'')), demo_marked_node), pool)"
    by (rule refused_connect [OF b con h demo_checks(2), unfolded rj, OF demo_marked(1)])
qed

lemma demo_refused_run:
  "\<exists>nd'. ActivateBestChain (demo_chain_env demo_small_hash) demo_hard_params (CCoinsViewDB_ops 1000) (Some (demo_block, False))
     demo_corrupt_node = Some (Inr True, nd') \<and> Tip (chainActive nd') = Some 0"
proof -
  let ?env = "demo_chain_env demo_small_hash" and ?B = "CCoinsViewDB_ops 1000" and ?nd = demo_corrupt_node and ?bl = "Some (demo_block, False)"
  note l = demo_corrupt_linked [unfolded candidates_linked_def demo_corrupt_fields]
  have b: "ns_index ?nd 1 = Some demo_corrupt_entry" "ns_index ?nd 0 = Some (demo_tip_entry)" "Tip (chainActive ?nd) = Some 0"
    by (simp_all add: demo_corrupt_fields demo_corrupt_at Tip_def)
  have t: "tree_ok (ns_index ?nd)" "is_branch (ns_index ?nd) (chainActive ?nd)" using l by (simp_all add: demo_corrupt_fields)
  have h: "phashBlock demo_corrupt_entry = Some 2" by (simp add: demo_corrupt_at)
  have rj: "rj_corruption (reject 50 ''high-hash'') = False" by (simp add: reject_def)
  have m: "(if rj_corruption (reject 50 ''high-hash'') then Inr demo_marked_node else InvalidChainFound 1 demo_marked_node) = Inr demo_marked_node"
    by (simp only: rj demo_marked(2) if_False)
  have step: "ActivateBestChainStep ?env demo_hard_params ?B 1 ?bl ?nd = Some (Inr (True, True), demo_marked_node)"
    by (rule refused_step [OF t b(3,2,1) demo_corrupt_at(4) demo_refused_connect(1) m])
  have bf: "block_for ?env ?nd 1 ?bl = Inr ?bl"
    using b h by (simp add: block_for_def deref_def GetBlockHash_def demo_small_block_hash)
  have mk: "Tip (chainActive demo_marked_node) = Some 0" by (simp add: demo_marked_node_def demo_corrupt_fields Tip_def)
  have "FindMostWorkChain demo_marked_node = Some (Inr (Some 0, demo_marked_node))"
  proof -
    have "unusable_on_path (ns_index demo_marked_node) (chainActive demo_marked_node) (Some 0) = Some (Inr None)"
      by (subst unusable_on_path.simps) (simp add: Contains_def deref_def demo_marked_node_def demo_corrupt_fields demo_corrupt_at chain_at_def)
    then show ?thesis by (subst FindMostWorkChain.simps) (simp add: demo_marked_node_def)
  qed
  then have again: "activate_loop ?env demo_hard_params ?B ?bl None demo_marked_node = Some (Inr (True, True), demo_marked_node)"
    by (subst activate_loop.simps) (simp add: mk)
  have "activate_loop ?env demo_hard_params ?B ?bl None ?nd = Some (Inr (True, True), demo_marked_node)"
    using demo_corrupt_found b(3) bf step mk again by (subst activate_loop.simps) simp
  then show ?thesis using mk by (simp add: ActivateBestChain_def)
qed


text \<open>A header that is known, with less work than the tip.\<close>

definition demo_low_node :: "coins_db node" where
  "demo_low_node = demo_corrupt_node\<lparr>mapBlockIndex := [2 \<mapsto> 1],
     ns_index := [0 \<mapsto> demo_tip_entry\<lparr>nChainWork := arith_of_u64 5\<rparr>, 1 \<mapsto> demo_corrupt_entry\<lparr>nStatus := BLOCK_VALID_TREE\<rparr>]\<rparr>"

lemma demo_low_fields: "chainActive demo_low_node = [Some 0]" "mapBlockIndex demo_low_node = [2 \<mapsto> 1]"
  "ns_index demo_low_node = [0 \<mapsto> demo_tip_entry\<lparr>nChainWork := arith_of_u64 5\<rparr>, 1 \<mapsto> demo_corrupt_entry\<lparr>nStatus := BLOCK_VALID_TREE\<rparr>]"
  by (simp_all add: demo_low_node_def demo_corrupt_fields)

lemma demo_low_work: "CompareTo (nChainWork demo_corrupt_entry) (arith_of_u64 5) < 0"
  by (simp add: CompareTo_num demo_corrupt_entry_def demo_work_entry_def num_arith_of_u64)

lemma demo_low_header:
  "AcceptBlockHeader (accept_env.truncate (demo_chain_env demo_small_hash)) demo_chain_params 2 demo_block demo_low_node = Some (Inr 1, demo_low_node)"
proof -
  have "hashGenesisBlock demo_chain_params = 1" "be_hash (accept_env.truncate (demo_chain_env demo_small_hash)) = demo_small_hash"
    by (simp_all add: demo_chain_params_def Consensus_Params.defs accept_env.defs)
  then show ?thesis
    by (simp add: AcceptBlockHeader_def demo_small_block_hash demo_low_fields block_status_defs)
qed

lemma demo_low_accept:
  "AcceptBlock (demo_chain_env demo_small_hash) demo_chain_params (CCoinsViewDB_ops 1000) 2 demo_block False False None demo_low_node =
     Some ((Inr True, demo_low_node), False, False)"
  using demo_low_work by (simp add: AcceptBlock_def demo_low_header demo_low_fields deref_def worth_storing_def Tip_def Let_def)

text \<open>A block that has failed although its scripts had been checked.\<close>

definition demo_failed_entry :: CBlockIndex where
  "demo_failed_entry = (demo_work_entry 1 (Some 0))\<lparr>nStatus := BLOCK_HAVE_DATA OR BLOCK_VALID_SCRIPTS OR BLOCK_FAILED_VALID\<rparr>"

definition demo_failed_heap :: index_heap where
  "demo_failed_heap = [0 \<mapsto> demo_work_entry 0 None, 1 \<mapsto> demo_failed_entry]"

lemma demo_failed_ok:
  "tree_ok demo_failed_heap" "demo_failed_heap 1 = Some demo_failed_entry" "dom demo_failed_heap = {0, 1}"
proof -
  have "same_shape demo_heap demo_failed_heap"
    by (auto simp: same_shape_def fun_eq_iff demo_heap_def demo_failed_heap_def entry_shape_def demo_work_entry_def demo_failed_entry_def)
  then show "tree_ok demo_failed_heap" using same_shape_tree demo_tree(1) by blast
qed (auto simp: demo_failed_heap_def)

lemma demo_failed_clear: "clear_failed demo_failed_entry = demo_failed_entry\<lparr>nStatus := BLOCK_HAVE_DATA OR BLOCK_VALID_SCRIPTS\<rparr>"
  by (simp add: clear_failed_def demo_failed_entry_def block_status_defs)

lemma demo_failed_again: "ancestor demo_failed_heap 1 q \<and> candidate_again demo_failed_heap 0 q \<longleftrightarrow> q = 1"
proof -
  have w: "works_ok demo_failed_heap"
    by (auto simp: works_ok_def demo_failed_heap_def demo_work_entry_def demo_failed_entry_def split: if_splits)
  have "demo_failed_heap 0 \<noteq> None" "demo_failed_heap 1 \<noteq> None" by (simp_all add: demo_failed_heap_def)
  moreover have "work_key demo_failed_heap 0 < work_key demo_failed_heap 1"
    by (simp add: work_key_def demo_failed_heap_def demo_failed_entry_def demo_work_entry_def num_arith_of_u64)
  ultimately have "CBlockIndexWorkComparator demo_failed_heap 0 1" using comparator_key [OF w] by blast
  moreover have "nStatus demo_failed_entry AND BLOCK_FAILED_MASK \<noteq> 0" "nChainTx demo_failed_entry \<noteq> 0"
    "BLOCK_VALID_TRANSACTIONS \<le> nStatus (clear_failed demo_failed_entry) AND BLOCK_VALID_MASK"
    unfolding demo_failed_clear by (simp_all add: demo_failed_entry_def demo_work_entry_def block_status_defs)
  ultimately have "candidate_again demo_failed_heap 0 1" unfolding candidate_again_def using demo_failed_ok(2) by blast
  moreover have "ancestor demo_failed_heap 1 1" by (simp add: ancestor_def exI [of _ 0])
  moreover have "\<not> candidate_again demo_failed_heap 0 q" if "q \<noteq> 1" for q
    using that by (auto simp: candidate_again_def demo_failed_heap_def demo_work_entry_def block_status_defs split: if_splits)
  ultimately show ?thesis by blast
qed

section \<open>Properties\<close>

text \<open>C1. When ActivateBestChain reports success and no shutdown was asked for, the tip is a block that no candidate left beats (by work, then by the earliest sequence number), the active chain is still one branch of the block tree, and the tree and the map of blocks are unchanged; candidates are only thrown out. The memory pool is only assumed not to change the chain.\<close>

theorem best_tip_activated:
  assumes "pool_safe env" and "\<forall>nd. \<not> stop_requested env nd" and "candidates_linked nd"
    and "ActivateBestChain env params B pblock nd = Some (Inr True, nd')"
  shows "kept nd nd' \<and> candidates_linked nd' \<and>
    (Tip (chainActive nd') = None \<or> (\<exists>p. Tip (chainActive nd') = Some p \<and> none_better nd' p))"
  using assms by (rule ActivateBestChain_best)

lemma best_tip_activated_witness:
  "\<exists>nd'. ActivateBestChain (demo_chain_env demo_small_hash) demo_hard_params (CCoinsViewDB_ops 1000) (Some (demo_block, False))
       demo_corrupt_node = Some (Inr True, nd') \<and> Tip (chainActive nd') = Some 0 \<and> none_better nd' 0 \<and> candidates_linked nd'"
proof -
  obtain nd' where r: "ActivateBestChain (demo_chain_env demo_small_hash) demo_hard_params (CCoinsViewDB_ops 1000) (Some (demo_block, False))
       demo_corrupt_node = Some (Inr True, nd')" "Tip (chainActive nd') = Some 0"
    using demo_refused_run by blast
  from best_tip_activated [OF demo_chain_env_fields(6) _ demo_corrupt_linked r(1)] r show ?thesis by auto
qed

text \<open>C2. When the best candidate lies on the tip and the block read from disk for it has transactions that do not match its header, ActivateBestChain never returns: the block counts as possibly corrupted, is neither marked nor dropped, and is found again in every turn of the loop.\<close>

theorem corrupted_block_retried_forever:
  assumes "candidates_linked nd" and "FindMostWorkChain nd = Some (Inr (Some p, nd))"
    and "Tip (chainActive nd) = Some q" and "ns_index nd p = Some b" and "pprev b = Some q"
    and "read_block env params b nd = Inr (Some block)"
    and "phashBlock b = Some (BlockHeader_GetHash (be_hash env) (GetBlockHeader block))"
    and "CheckBlock (block_env.truncate (node_env.truncate env)) (Consensus_Params.truncate params) (ns_index nd) (chainActive nd)
      block False True True = (Inl (Rejected rj), False)"
    and "rj_corruption rj" and "\<not> stop_requested env nd"
  shows "ActivateBestChain env params B None nd = None"
  using assms by (rule corrupt_block_loops)

lemma corrupted_block_retried_forever_witness:
  "ActivateBestChain (demo_chain_env demo_small_hash) demo_chain_params (CCoinsViewDB_ops 1000) None demo_corrupt_node = None"
proof -
  have b: "ns_index demo_corrupt_node 1 = Some demo_corrupt_entry" "pprev demo_corrupt_entry = Some 0"
    "phashBlock demo_corrupt_entry = Some (BlockHeader_GetHash (be_hash (demo_chain_env demo_small_hash)) (GetBlockHeader demo_block))"
    "Tip (chainActive demo_corrupt_node) = Some 0"
    by (simp_all add: demo_corrupt_fields demo_corrupt_at Tip_def demo_small_block_hash)
  show ?thesis
    by (rule corrupted_block_retried_forever [OF demo_corrupt_linked demo_corrupt_found b(4,1,2) demo_corrupt_read b(3)
      demo_checks(1) _ demo_chain_env_fields(5)]) (simp add: reject_corrupt_def reject_def)
qed

text \<open>C3. ResetBlockFailureFlags clears the failure flags of exactly the ancestors and descendants of the block (and of the block), every other entry and the active chain stay as they are, and exactly those descendants become candidates that had failed, can be connected now and are better than the tip; the walks end without a failed assertion.\<close>

theorem reset_block_flags:
  assumes "tree_ok (ns_index cs)" and "Tip (chainActive cs) = Some tip" and "ns_index cs p = Some b"
    and "set entries = dom (ns_index cs)"
  shows "\<exists>cs'. ResetBlockFailureFlags entries p cs = Some (Inr cs') \<and>
    ns_index cs' = cleared (\<lambda>q. ancestor (ns_index cs) p q \<or> ancestor (ns_index cs) q p) (ns_index cs) \<and>
    set (setBlockIndexCandidates cs') = set (setBlockIndexCandidates cs) \<union>
      {q. ancestor (ns_index cs) p q \<and> candidate_again (ns_index cs) tip q} \<and>
    chainActive cs' = chainActive cs \<and> mapBlockIndex cs' = mapBlockIndex cs"
  using assms by (rule ResetBlockFailureFlags_ok)

lemma reset_block_flags_witness:
  "\<exists>cs'. ResetBlockFailureFlags [0, 1] 1 (demo_chain_state demo_failed_heap [Some 0] [0]) = Some (Inr cs') \<and>
     ns_index cs' 1 = Some (demo_failed_entry\<lparr>nStatus := BLOCK_HAVE_DATA OR BLOCK_VALID_SCRIPTS\<rparr>) \<and> set (setBlockIndexCandidates cs') = {0, 1}"
proof -
  let ?cs = "demo_chain_state demo_failed_heap [Some 0] [0]"
  obtain cs' where r: "ResetBlockFailureFlags [0, 1] 1 ?cs = Some (Inr cs')"
    "ns_index cs' = cleared (\<lambda>q. ancestor demo_failed_heap 1 q \<or> ancestor demo_failed_heap q 1) demo_failed_heap"
    "set (setBlockIndexCandidates cs') = {0} \<union> {q. ancestor demo_failed_heap 1 q \<and> candidate_again demo_failed_heap 0 q}"
    using reset_block_flags [of ?cs 0 1 demo_failed_entry "[0, 1]"] demo_failed_ok by (auto simp: Tip_def)
  have "ancestor demo_failed_heap 1 q \<and> candidate_again demo_failed_heap 0 q \<longleftrightarrow> q = 1" for q using demo_failed_again by blast
  then have "set (setBlockIndexCandidates cs') = {0, 1}" using r(3) by auto
  moreover have "ns_index cs' 1 = Some (demo_failed_entry\<lparr>nStatus := BLOCK_HAVE_DATA OR BLOCK_VALID_SCRIPTS\<rparr>)"
    using demo_failed_ok(2) demo_failed_clear demo_failed_again [of 1] by (simp add: r(2) cleared_def)
  ultimately show ?thesis using r(1) by blast
qed



text \<open>C5. A block that nobody asked for reaches the disk only when its header is accepted, it is new, its chain has at least the work of the tip and the least work that counts, it is not more than 288 blocks ahead of the tip, and it passes all the checks that need no coins; otherwise AcceptBlock leaves the block files alone.\<close>

theorem unrequested_block_not_stored:
  assumes "AcceptBlock env params B new block fc False dbp nd = Some ((r, nd'), fc', fNew)" and "Tip (chainActive nd) = Some t"
  shows "ns_disk nd' = ns_disk nd \<or>
    (\<exists>p b tip nd1. AcceptBlockHeader (accept_env.truncate env) params new block nd = Some (Inr p, nd1) \<and>
      ns_index nd1 p = Some b \<and> ns_index nd1 t = Some tip \<and> nTx b = 0 \<and> nStatus b AND BLOCK_HAVE_DATA = 0 \<and>
      0 \<le> CompareTo (nChainWork b) (nChainWork tip) \<and> 0 \<le> CompareTo (nChainWork b) (nMinimumChainWork env) \<and>
      int (nHeight b) \<le> Height (chainActive nd) + int MIN_BLOCKS_TO_KEEP \<and>
      (\<exists>fc1. CheckBlock (block_env.truncate (node_env.truncate env)) (Consensus_Params.truncate params) (ns_index nd1) (chainActive nd) block
        fc True True = (Inr (), fc1)) \<and> ContextualCheckBlock (be_hash env) (ns_index nd1) block (pprev b) = Inr ())"
  using AcceptBlock_unrequested [OF assms] by blast

lemma unrequested_block_not_stored_witness:
  "\<exists>nd'. AcceptBlock (demo_chain_env demo_small_hash) demo_chain_params (CCoinsViewDB_ops 1000) 2 demo_block False False None demo_low_node =
     Some ((Inr True, nd'), False, False) \<and> ns_disk nd' = ns_disk demo_low_node"
proof -
  have "Tip (chainActive demo_low_node) = Some 0" by (simp add: demo_low_fields Tip_def)
  from unrequested_block_not_stored [OF demo_low_accept this] demo_low_work demo_low_header show ?thesis
    using demo_low_accept by (auto simp: demo_low_fields)
qed

text \<open>C6. The money supply: when blocks are connected one after the other from the empty set of coins, no transaction repeating an input or overwriting coins, the value of all coins is at most the sum of the subsidies of the heights so far, and with the halving interval of the network never exceeds MAX_MONEY.\<close>

theorem money_supply_bounded:
  assumes "money_after params n f"
  shows "coins_value f \<le> (\<Sum>k<n. GetBlockSubsidy (nSubsidyHalvingInterval params) (int k)) \<and>
    (nSubsidyHalvingInterval params = 2000000 \<longrightarrow> coins_value f \<le> MAX_MONEY)"
  using money_issued [OF assms] money_bounded [OF assms] by blast

lemma money_supply_bounded_witness:
  "\<exists>f. money_after demo_chain_params 1 f \<and> coins_value f \<le> GENESIS_MONEY \<and> coins_value f \<le> MAX_MONEY"
proof -
  have p: "nSubsidyHalvingInterval demo_chain_params = 2000000" by (simp add: demo_chain_params_def Consensus_Params.defs)
  obtain f where "money_after demo_chain_params 1 f" using demo_genesis_money by blast
  with money_supply_bounded [OF this] p show ?thesis by (auto simp: GetBlockSubsidy_def)
qed


text \<open>C8. The search for the best tip (FindMostWorkChain) always ends without a failed assertion, throws out only candidates whose branch has a failed or missing block outside the active chain, and returns a candidate whose branch can be connected and that has the most work (then the earliest sequence number) of all candidates left; it returns none only when no candidate is left.\<close>

theorem best_chain_found:
  assumes "candidates_linked cs"
  shows "\<exists>r cs'. FindMostWorkChain cs = Some (Inr (r, cs')) \<and> chainActive cs' = chainActive cs \<and> candidates_linked cs' \<and>
    set (setBlockIndexCandidates cs') \<subseteq> set (setBlockIndexCandidates cs) \<and>
    {q \<in> set (setBlockIndexCandidates cs). usable (ns_index cs) (chainActive cs) q} \<subseteq> set (setBlockIndexCandidates cs') \<and>
    (case r of None \<Rightarrow> setBlockIndexCandidates cs' = []
     | Some p \<Rightarrow> usable (ns_index cs) (chainActive cs) p \<and>
         is_arg_max (work_key (ns_index cs)) (\<lambda>q. q \<in> set (setBlockIndexCandidates cs')) p)"
proof -
  obtain r cs' where r: "FindMostWorkChain cs = Some (Inr (r, cs'))" "chainActive cs' = chainActive cs" "candidates_linked cs'"
    "set (setBlockIndexCandidates cs') \<subseteq> set (setBlockIndexCandidates cs)"
    "\<forall>q\<in>set (setBlockIndexCandidates cs). usable (ns_index cs) (chainActive cs) q \<longrightarrow> q \<in> set (setBlockIndexCandidates cs')"
    "case r of None \<Rightarrow> setBlockIndexCandidates cs' = []
      | Some p \<Rightarrow> p \<in> set (setBlockIndexCandidates cs') \<and> usable (ns_index cs) (chainActive cs) p \<and>
          (\<forall>q\<in>set (setBlockIndexCandidates cs'). work_key (ns_index cs) q \<le> work_key (ns_index cs) p)"
    using FindMostWorkChain_ok [OF assms] by blast
  have "case r of None \<Rightarrow> setBlockIndexCandidates cs' = []
     | Some p \<Rightarrow> usable (ns_index cs) (chainActive cs) p \<and>
         is_arg_max (work_key (ns_index cs)) (\<lambda>q. q \<in> set (setBlockIndexCandidates cs')) p"
    using r(6) by (cases r) (auto simp: is_arg_max_def not_less)
  with r(1-5) show ?thesis by blast
qed

lemma best_chain_found_witness:
  "\<exists>cs'. FindMostWorkChain (demo_chain_state demo_work_heap [Some 0] [0, 1]) = Some (Inr (Some 1, cs'))"
proof -
  obtain r cs' where r: "FindMostWorkChain (demo_chain_state demo_work_heap [Some 0] [0, 1]) = Some (Inr (r, cs'))"
    "{q \<in> {0, 1}. usable demo_work_heap [Some 0] q} \<subseteq> set (setBlockIndexCandidates cs')"
    "set (setBlockIndexCandidates cs') \<subseteq> {0, 1}"
    "case r of None \<Rightarrow> setBlockIndexCandidates cs' = []
     | Some p \<Rightarrow> usable demo_work_heap [Some 0] p \<and> is_arg_max (work_key demo_work_heap) (\<lambda>q. q \<in> set (setBlockIndexCandidates cs')) p"
    using best_chain_found [OF demo_candidates, unfolded demo_state_fields] by auto
  have "1 \<in> set (setBlockIndexCandidates cs')" using r(2) demo_usable by auto
  then have "r = Some 1"
    using r(3,4) demo_work_less by (cases r) (auto simp: is_arg_max_def)
  with r(1) show ?thesis by blast
qed





text \<open>C11. Pruning to a target never takes the data of a block that is less than 288 blocks below the tip: when the information on the files bounds the heights in them, FindFilesToPrune succeeds, keeps the active chain and the shape of the tree, and leaves the entries of those blocks as they are.\<close>

theorem recent_blocks_not_pruned:
  assumes "Tip (chainActive cs) = Some tip" and "ns_index cs tip = Some t" and "MIN_BLOCKS_TO_KEEP \<le> nPruneAfterHeight"
    and "nHeight t < 2 ^ 31" and "nLastBlockFile (ns_disk cs) \<le> length (vinfoBlockFile (ns_disk cs))"
    and "dom (ns_index cs) \<subseteq> set entries" and "heights_recorded (ns_index cs) (vinfoBlockFile (ns_disk cs))"
  shows "\<exists>fs cs'. FindFilesToPrune entries target nPruneAfterHeight cs = Inr (fs, cs') \<and>
    same_shape (ns_index cs) (ns_index cs') \<and> chainActive cs' = chainActive cs \<and>
    (\<forall>q b. ns_index cs q = Some b \<longrightarrow> nStatus b AND BLOCK_HAVE_DATA \<noteq> 0 \<longrightarrow> nHeight t < nHeight b + MIN_BLOCKS_TO_KEEP \<longrightarrow>
      ns_index cs' q = Some b)"
  using FindFilesToPrune_keeps [OF assms] by blast

lemma recent_blocks_not_pruned_witness:
  "\<exists>fs cs'. FindFilesToPrune [0, 1] 1000 500 demo_prune_state = Inr (fs, cs') \<and> ns_index cs' 0 = Some (demo_stored_entry 1000 1)"
proof -
  have h: "nHeight (demo_stored_entry 1000 1) < 2 ^ 31" by (simp add: demo_prune_entry)
  obtain fs cs' where r: "FindFilesToPrune [0, 1] 1000 500 demo_prune_state = Inr (fs, cs')"
    "\<forall>q b. ns_index demo_prune_state q = Some b \<longrightarrow> nStatus b AND BLOCK_HAVE_DATA \<noteq> 0 \<longrightarrow>
       nHeight (demo_stored_entry 1000 1) < nHeight b + MIN_BLOCKS_TO_KEEP \<longrightarrow> ns_index cs' q = Some b"
    using recent_blocks_not_pruned [OF demo_prune_tip demo_prune_ok(1) h demo_prune_ok(3,2,4), of 1000] by blast
  have "ns_index cs' 0 = Some (demo_stored_entry 1000 1)"
    by (rule r(2) [rule_format, OF demo_prune_tip(2) demo_prune_entry(2)]) (simp add: MIN_BLOCKS_TO_KEEP_def)
  with r(1) show ?thesis by blast
qed



text \<open>C13. The cuckoo cache never reports an element that was not inserted (apart from the default element it is filled with), whatever insertions, lookups and erasures came before.\<close>

theorem cache_has_only_inserted:
  assumes "cuckoo_run h dflt es c" and "fst (cache_contains h c e erase)"
  shows "e \<in> set es"
  using assms by (rule contains_only_inserted)

lemma cache_has_only_inserted_witness:
  "(5 :: nat) \<in> set [5, 0]"
proof -
  have r: "cuckoo_run (\<lambda>_ _. 0) (0 :: nat) [5, 0] (cache_insert (\<lambda>_ _. 0) (cache_setup 0 3 2 cache_empty) 5)"
    by (intro cuckoo_run.intros) simp
  have "fst (cache_contains (\<lambda>_ _. 0) (cache_insert (\<lambda>_ _. 0) (cache_setup 0 3 2 cache_empty) 5) (5 :: nat) False)"
    using flags_setup_set [of 0 2]
    by (simp add: numeral_3_eq_3 numeral_2_eq_2 cache_insert_def epoch_check_def cache_setup_def cache_empty_def Let_def
        compute_hashes_def resize_list_def put_def please_keep_def cache_contains_def)
  from cache_has_only_inserted [OF r this] show ?thesis .
qed



text \<open>C15. Checking the scripts of a transaction through the queue (CheckInputs collects the checks and they are run afterwards) gives the same verdict as running them at once, for every state of the script cache.\<close>

theorem parallel_script_checks:
  assumes "tip.cache_ok c" and "\<forall>txin\<in>set (tx_vin tx). tip.cache_contents c (prevout txin) \<noteq> None"
  shows "(\<exists>checks. fst (CheckInputs env (Cache_ops (CCoinsViewDB_ops z)) nonce tx c fScriptChecks fl store txdata True sc) = Inr checks \<and>
      list_all (\<lambda>chk. CScriptCheck_run env chk = Inr ()) checks) \<longleftrightarrow>
    fst (CheckInputs env (Cache_ops (CCoinsViewDB_ops z)) nonce tx c fScriptChecks fl store txdata False sc) = Inr []"
  using assms by (rule tip.CheckInputs_queue_direct)

lemma parallel_script_checks_witness:
  "(\<exists>checks. fst (CheckInputs demo_connect_env demo_base 0 demo_tx (demo_view 3) True GetBlockScriptFlags True
        (Precompute demo_hash demo_tx) True (cache_setup 0 3 2 cache_empty)) = Inr checks \<and>
      list_all (\<lambda>chk. CScriptCheck_run demo_connect_env chk = Inr ()) checks) \<longleftrightarrow>
    fst (CheckInputs demo_connect_env demo_base 0 demo_tx (demo_view 3) True GetBlockScriptFlags True
        (Precompute demo_hash demo_tx) False (cache_setup 0 3 2 cache_empty)) = Inr []"
  by (rule parallel_script_checks) (simp_all add: demo_tx_fields)

text \<open>C16. Flushing a cache of coins (here the one a block is connected in, over the tip's cache, over the database) never fails and moves exactly its contents and its best block to its base; what is seen through the cache does not change.\<close>

theorem coin_cache_flush:
  assumes "tip.cache_ok c" and "hashBlock c \<noteq> 0"
  shows "\<exists>c'. Flush (Cache_ops (CCoinsViewDB_ops z)) c = Inr (True, c') \<and> tip.cache_ok c' \<and>
    db.cache_contents (base c') = tip.cache_contents c \<and> tip.cache_contents c' = tip.cache_contents c \<and>
    db.cache_best (base c') = tip.cache_best c \<and> cacheCoins c' = []"
  using assms by (rule tip.Flush_ok)

lemma coin_cache_flush_witness:
  "\<exists>c'. Flush demo_base (SetBestBlock (demo_view 3) 8) = Inr (True, c') \<and> tip.cache_ok c' \<and>
    db.cache_contents (base c') = [COutPoint 5 1 \<mapsto> demo_coin 3] \<and> db.cache_best (base c') = 8"
proof -
  let ?c = "SetBestBlock (demo_view 3) 8"
  have c: "tip.cache_ok ?c" "tip.cache_contents ?c = [COutPoint 5 1 \<mapsto> demo_coin 3]" "tip.cache_best ?c = 8"
    using demo_view_ok [of 3]
    by (simp_all add: SetBestBlock_def tip.cache_ok_def tip.cache_contents_def tip.cache_best_def demo_view_def
        CCoinsViewCache_new_def)
  moreover have "hashBlock ?c \<noteq> 0" by (simp add: SetBestBlock_def)
  ultimately show ?thesis using coin_cache_flush [of ?c 1000] by auto
qed

text \<open>C17. When writing the coins is interrupted between two batches, the database has no best block, names the transition it is in, holds each coin as it was or as it will be, and flushing the same entries again gives the same database as an uninterrupted flush.\<close>

theorem interrupted_flush_recovers:
  assumes "db_ok db" and "distinct (map fst m)" and "entries_ok (map_of m) (db_coin db)" and "h \<noteq> 0"
    and "0 < k" and "k < length (flush_batches z (DB_GetBestBlock db) m h)"
    and "db' = fold WriteBatch (take k (flush_batches z (DB_GetBestBlock db) m h)) db"
  shows "DB_GetBestBlock db' = 0 \<and> DB_GetHeadBlocks db' = [h, DB_GetBestBlock db] \<and>
    (\<forall>p. db_coin db' p \<in> {db_coin db p, see_through (map_of m) (db_coin db) p}) \<and>
    DB_BatchWrite z db' m h = DB_BatchWrite z db m h"
  using interrupted_flush(1-3) [OF assms(1-3,5,6)] interrupted_flush_again [OF assms(1-6)]
  unfolding assms(7) by auto

lemma interrupted_flush_recovers_witness:
  "\<exists>db'. DB_GetHeadBlocks db' = [8, 7] \<and>
     DB_BatchWrite 0 db' [(COutPoint 5 1, \<lparr>ce_coin = coinEmpty, ce_flags = 1\<rparr>)] 8 =
     DB_BatchWrite 0 (demo_db 3) [(COutPoint 5 1, \<lparr>ce_coin = coinEmpty, ce_flags = 1\<rparr>)] 8"
proof -
  let ?m = "[(COutPoint 5 1, \<lparr>ce_coin = coinEmpty, ce_flags = 1\<rparr>)]"
  have f: "entries_ok (map_of ?m) (db_coin (demo_db 3))"
    by (simp add: entries_ok_def demo_db_def is_dirty_bit is_fresh_bit)
  have b: "DB_GetBestBlock (demo_db 3) = 7" by (simp add: demo_db_def DB_GetBestBlock_def)
  have "1 < length (flush_batches 0 7 ?m 8)" by code_simp
  with interrupted_flush_recovers [OF demo_db_ok _ f _ _ _ refl, of 8 1 0] show ?thesis
    unfolding b by fastforce
qed



text \<open>C19. A block whose transaction spends the last output of a coin of height zero (the genesis output, which the node lets be spent) can be connected but not disconnected: the missing height is taken for missing undo data, and disconnecting fails.\<close>

theorem genesis_coin_not_restored:
  assumes "tip.cache_ok c" and "vtx block = [cb, tx]" and "IsCoinBase cb" and "\<not> IsCoinBase tx" and "tx_vin tx = [i]"
    and "height < 2 ^ 31" and "txs_fit h (int height) [cb, tx] (tip.cache_contents c)"
    and "tip.cache_contents c (prevout i) = Some u" and "coin_nHeight u = 0"
    and "\<forall>j. j \<noteq> op_n (prevout i) \<longrightarrow> tip.cache_contents c (COutPoint (op_hash (prevout i)) j) = None"
    and "GetHash h cb \<noteq> op_hash (prevout i)" and "GetHash h tx \<noteq> op_hash (prevout i)"
  shows "\<exists>undo c1 c2. UpdateCoins_all h (Cache_ops (CCoinsViewDB_ops z)) (int height) (vtx block) c = Inr (undo, c1) \<and>
    DisconnectBlock h (Cache_ops (CCoinsViewDB_ops z)) block height prev (Some (tl undo)) c1 = Inr (DISCONNECT_FAILED, c2)"
  using assms by (rule tip.genesis_spend_not_disconnected)

lemma genesis_coin_not_restored_witness:
  "\<exists>undo c1 c2. UpdateCoins_all demo_hash demo_base 4 (vtx demo_spend_block) (demo_view 0) = Inr (undo, c1) \<and>
    DisconnectBlock demo_hash demo_base demo_spend_block 4 7 (Some (tl undo)) c1 = Inr (DISCONNECT_FAILED, c2)"
proof -
  have "coin_nHeight (demo_coin 0) = 0" by (simp add: demo_coin_def)
  from genesis_coin_not_restored [of "demo_view 0", OF _ demo_coinbase_form(3,1,2) demo_tx_fields(1) _ _ _ this,
      where height = 4 and h = demo_hash and z = 1000 and prev = 7]
  show ?thesis using demo_block_fits(1) [of 0] by (simp add: demo_tx_fields demo_txids demo_coinbase_form)
qed

text \<open>C20. The checks a transaction gets in a block accept one that spends the same cached coin twice and pays out twice its value, and the coin is spent twice without a failed assertion: the duplicate-input check is switched off for blocks.\<close>

theorem double_spend_accepted_by_block_checks:
  assumes "map_of (cacheCoins c) p = Some e" and "\<not> is_fresh e" and "\<not> IsSpent (ce_coin e)" and "mature height (ce_coin e)"
    and "tx_vin tx = [i, i']" and "prevout i = p" and "prevout i' = p" and "\<not> COutPoint_IsNull p" and "tx_vout tx = [out]"
    and "MoneyRange (nValue (coin_out (ce_coin e)))" and "MoneyRange (nValue out)"
    and "nValue out = nValue (coin_out (ce_coin e)) + nValue (coin_out (ce_coin e))"
    and "length (SerializeTransaction False tx) * WITNESS_SCALE_FACTOR \<le> MAX_BLOCK_WEIGHT"
  shows "CheckTransaction tx False = Inr () \<and> CheckTxInputs B tx c height = (Inr 0, c) \<and>
    (\<exists>c'. spend_inputs B (tx_vin tx) c = Inr ([ce_coin e, coinEmpty], c'))"
  using assms by (rule double_spend_accepted)

lemma double_spend_accepted_by_block_checks_witness:
  "\<exists>c tx. tip.cache_ok c \<and> CheckTransaction tx False = Inr () \<and> CheckTxInputs demo_base tx c 4 = (Inr 0, c) \<and>
    (\<exists>c'. spend_inputs demo_base (tx_vin tx) c = Inr ([demo_coin 3, coinEmpty], c'))"
proof -
  let ?c = "snd (FetchCoin demo_base (demo_view 3) (COutPoint 5 1))"
  let ?tx = "demo_tx\<lparr>tx_vin := [demo_in, demo_in], tx_vout := [\<lparr>nValue = 20, scriptPubKey = [0x51]\<rparr>]\<rparr>"
  have c: "map_of (cacheCoins ?c) (COutPoint 5 1) = Some \<lparr>ce_coin = demo_coin 3, ce_flags = 0\<rparr>" by code_simp
  have ok: "tip.cache_ok ?c" using tip.FetchCoin_ok [OF demo_view_ok(1), OF prod.collapse [symmetric]] by blast
  have "length (SerializeTransaction False ?tx) = 104" by code_simp
  then have l: "length (SerializeTransaction False ?tx) * WITNESS_SCALE_FACTOR \<le> MAX_BLOCK_WEIGHT"
    by (simp add: WITNESS_SCALE_FACTOR_def MAX_BLOCK_WEIGHT_def)
  have m: "MoneyRange 10" "MoneyRange 20" by code_simp+
  have "CheckTransaction ?tx False = Inr () \<and> CheckTxInputs demo_base ?tx ?c 4 = (Inr 0, ?c) \<and>
      (\<exists>c'. spend_inputs demo_base (tx_vin ?tx) ?c = Inr ([demo_coin 3, coinEmpty], c'))"
    using double_spend_accepted_by_block_checks [OF c, of 4 ?tx demo_in demo_in "\<lparr>nValue = 20, scriptPubKey = [0x51]\<rparr>"] l m
    by (simp add: demo_coin_def IsSpent_def CTxOut_IsNull_def mature_def demo_tx_fields COutPoint_IsNull_def is_fresh_bit)
  with ok show ?thesis by blast
qed

text \<open>C21. The context-free check accepts a transaction exactly when it has inputs and outputs, is not too large, its output values and their sum are in the money range, its inputs differ (when that is checked), and a coinbase has a script of 2 to 100 bytes and any other transaction no null input.\<close>

theorem transaction_check:
  "CheckTransaction tx dup = Inr () \<longleftrightarrow>
     tx_vin tx \<noteq> [] \<and> tx_vout tx \<noteq> [] \<and>
     length (SerializeTransaction False tx) * WITNESS_SCALE_FACTOR \<le> MAX_BLOCK_WEIGHT \<and>
     list_all (\<lambda>out. MoneyRange (nValue out)) (tx_vout tx) \<and> MoneyRange (sum_list (map nValue (tx_vout tx))) \<and>
     (if dup then distinct (map prevout (tx_vin tx)) else True) \<and>
     (if IsCoinBase tx then 2 \<le> length (scriptSig (tx_vin tx ! 0)) \<and> length (scriptSig (tx_vin tx ! 0)) \<le> 100
      else list_all (\<lambda>i. \<not> COutPoint_IsNull (prevout i)) (tx_vin tx))"
  unfolding CheckTransaction_iff by (auto simp: list_all_iff)

text \<open>C22. The relative lock times of a transaction of version 2 are satisfied by a block exactly when each input by itself is: its coin is the required number of blocks below the block, or the median time past before the coin the required time before that of the block's predecessor, or its sequence number has the disable bit.\<close>

theorem relative_lock_times:
  assumes "SequenceLocks tx fl phs H block = Inr (phs', b)" and "deref H block = Inr e" and "pprev e = Some q"
    and "GetMedianTimePast H q = Inr time" and "0 \<le> time" and "2 \<le> tx_nVersion tx" and "bit fl LOCKTIME_VERIFY_SEQUENCE"
  shows "b \<longleftrightarrow> list_all2 (input_unlocked H block (int (nHeight e)) time) (tx_vin tx) phs"
  using assms by (rule SequenceLocks_iff)

lemma relative_lock_times_witness:
  "\<exists>phs b. SequenceLocks demo_tx 1 [0] demo_heap 1 = Inr (phs, b) \<and> b = input_unlocked demo_heap 1 1 0 demo_in 0"
proof -
  have s: "SequenceLocks demo_tx 1 [0] demo_heap 1 = Inr ([0], False)" by code_simp
  have d: "deref demo_heap 1 = Inr (demo_entry 1 (Some 0))" "GetMedianTimePast demo_heap 0 = Inr 0" by code_simp+
  from relative_lock_times [OF s d(1) _ d(2)] s show ?thesis
    by (simp add: demo_tx_fields LOCKTIME_VERIFY_SEQUENCE_def bit_simps) (simp add: demo_tx_def)
qed



text \<open>C24. The constant-space Merkle calculator gives the root of the recursively hashed tree (the last node of an odd level being paired with itself) and flags exactly the lists in which two nodes that are paired are equal.\<close>

theorem merkle_root_is_tree_hash:
  assumes "0 < length xs" and "length xs < 2 ^ 32"
  shows "ComputeMerkleRoot H xs = (tree_hash H (tree_height (length xs)) xs, dup_nodes H xs (length xs))"
  using assms by (rule ComputeMerkleRoot_eq)

lemma merkle_root_is_tree_hash_witness:
  "ComputeMerkleRoot (\<lambda>a b. 3 * a + b) [1, 2] = (5, False)"
  using merkle_root_is_tree_hash [of "[1, 2]" "\<lambda>a b. 3 * a + b"]
  by (simp add: demo_tree_two numeral_2_eq_2 [symmetric])

text \<open>C25. The Merkle root commits to the transactions: two different lists of hashes with trees of the same height, neither flagged as mutated (the flag of CVE-2012-2459), have different roots, unless the hash function collides on the pairs that are hashed.\<close>

theorem merkle_root_commits:
  assumes "\<not> snd (ComputeMerkleRoot H xs)" and "\<not> snd (ComputeMerkleRoot H ys)" and "xs \<noteq> ys"
    and "tree_height (length xs) = tree_height (length ys)"
    and "0 < length xs" and "length xs < 2 ^ 32" and "0 < length ys" and "length ys < 2 ^ 32"
    and "inj_on (\<lambda>(a, b). H a b)
      (tree_pairs H (tree_height (length xs)) xs \<union> tree_pairs H (tree_height (length ys)) ys)"
  shows "fst (ComputeMerkleRoot H xs) \<noteq> fst (ComputeMerkleRoot H ys)"
  using ComputeMerkleRoot_commits [OF _ _ assms(4-9)] assms(1-3) by (metis prod.collapse)

lemma merkle_root_commits_witness:
  "fst (ComputeMerkleRoot (\<lambda>a b. 3 * a + b) [1, 2]) \<noteq> fst (ComputeMerkleRoot (\<lambda>a b. 3 * a + b) [1, 3])"
proof -
  let ?H = "\<lambda>a b. 3 * a + b :: uint256"
  have "\<not> snd (ComputeMerkleRoot ?H [1, 2])" "\<not> snd (ComputeMerkleRoot ?H [1, 3])"
    using ComputeMerkleRoot_eq [of "[1, 2]" ?H] ComputeMerkleRoot_eq [of "[1, 3]" ?H]
    by (simp_all add: demo_tree_two numeral_2_eq_2 [symmetric])
  then show ?thesis using demo_tree_two(1)
    by (intro merkle_root_commits) (simp_all add: numeral_2_eq_2 [symmetric])
qed

text \<open>C26. A peer that is sent the Merkle block of a block and a set of transaction ids extracts the Merkle root of the block and exactly the selected ids, in order, after the trip over the wire.\<close>

theorem spv_proof_complete:
  assumes "0 < length (vtx block)" and "length (vtx block) \<le> MAX_BLOCK_WEIGHT div MIN_TRANSACTION_WEIGHT"
    and "siblings_differ (hash_pair h) (map (GetHash h) (vtx block))" and "fits_size (nSolution block)"
  shows "\<exists>m m'. CMerkleBlock_txids h block txids = Some m \<and>
    Unserialize_CMerkleBlock (Serialize_CMerkleBlock m @ s) = Inr (m', s) \<and> header m' = GetBlockHeader block \<and>
    fst (ExtractMatches (hash_pair h) (txn m') []) = fst (BlockMerkleRoot h block) \<and>
    fst (snd (ExtractMatches (hash_pair h) (txn m') [])) = filter txids (map (GetHash h) (vtx block))"
  using merkle_block_proof [OF assms] by metis

lemma spv_proof_complete_witness:
  "\<exists>m m'. CMerkleBlock_txids demo_hash demo_spend_block (\<lambda>t. t = GetHash demo_hash demo_tx) = Some m \<and>
    Unserialize_CMerkleBlock (Serialize_CMerkleBlock m @ [1]) = Inr (m', [1]) \<and>
    fst (ExtractMatches (hash_pair demo_hash) (txn m') []) = fst (BlockMerkleRoot demo_hash demo_spend_block)"
proof -
  have l: "MAX_BLOCK_WEIGHT div MIN_TRANSACTION_WEIGHT = 133333"
    by (simp add: MAX_BLOCK_WEIGHT_def MIN_TRANSACTION_WEIGHT_def WITNESS_SCALE_FACTOR_def)
  have "siblings_differ (hash_pair demo_hash) (map (GetHash demo_hash) (vtx demo_spend_block))"
    by (simp add: demo_coinbase_form demo_tree_two demo_txids)
  moreover have "fits_size (nSolution demo_spend_block)"
    by (simp add: demo_spend_block_def CBlockHeader.defs CBlock.defs demo_header_def)
  ultimately show ?thesis
    using spv_proof_complete [of demo_spend_block demo_hash "\<lambda>t. t = GetHash demo_hash demo_tx" "[1]"]
    by (simp add: demo_coinbase_form(3) l) blast
qed

text \<open>C27. A partial Merkle tree that extracts to the Merkle root of a list of as many transactions names only transactions of that list, at their positions, unless the hash function collides on the pairs that are hashed.\<close>

theorem spv_proof_sound:
  assumes "unat (nTransactions t) = length xs" and "fst (ExtractMatches H t []) = fst (ComputeMerkleRoot H xs)"
    and "fst (ExtractMatches H t []) \<noteq> 0"
    and "inj_on (\<lambda>(a, b). H a b)
      (extract_pairs H t (tree_height (length xs)) 0
         \<lparr>nBitsUsed = 0, nHashUsed = 0, x_fBad = fBad t, x_vMatch = [], x_vnIndex = []\<rparr> \<union>
       node_pairs H xs (tree_height (length xs)) 0)"
  shows "\<exists>ps t'. ExtractMatches H t [] = (fst (ComputeMerkleRoot H xs), map ((!) xs) ps, ps, t') \<and> (\<forall>p\<in>set ps. p < length xs)"
  using ExtractMatches_sound [OF assms] by metis

lemma spv_proof_sound_witness:
  "\<exists>ps t'. ExtractMatches (\<lambda>a b. 3 * a + b) \<lparr>nTransactions = 2, vBits = [True, False, True], vHash = [1, 2], fBad = False\<rparr> [] =
    (5, map ((!) [1, 2]) ps, ps, t')"
proof -
  let ?t = "\<lparr>nTransactions = 2, vBits = [True, False, True], vHash = [1, 2], fBad = False\<rparr> :: CPartialMerkleTree"
  let ?H = "\<lambda>a b. 3 * a + b :: uint256"
  let ?s = "\<lparr>nBitsUsed = 0, nHashUsed = 0, x_fBad = False, x_vMatch = [], x_vnIndex = []\<rparr> :: extraction"
  have w: "CalcTreeWidth 2 0 = 2" "CalcTreeWidth 2 (Suc 0) = 1" by code_simp+
  then have h: "tree_nHeight 2 0 = Suc 0" by (simp add: tree_nHeight.simps [of 2 0] tree_nHeight.simps [of 2 "Suc 0"])
  have l: "MAX_BLOCK_WEIGHT div MIN_TRANSACTION_WEIGHT = 133333"
    by (simp add: MAX_BLOCK_WEIGHT_def MIN_TRANSACTION_WEIGHT_def WITNESS_SCALE_FACTOR_def)
  have e: "fst (ExtractMatches ?H ?t []) = 5" by (simp add: ExtractMatches_def h l w Let_def)
  have r: "fst (ComputeMerkleRoot ?H [1, 2]) = 5"
    using ComputeMerkleRoot_eq [of "[1, 2]" ?H] by (simp add: demo_tree_two numeral_2_eq_2 [symmetric])
  have pairs: "extract_pairs ?H ?t 1 0 ?s \<union> node_pairs ?H [1, 2] 1 0 = {(1, 2)}"
    by (simp add: w Let_def node_0)
  have t2: "tree_height (length [1, 2 :: uint256]) = 1" using demo_tree_two(1) by (simp add: numeral_2_eq_2 [symmetric])
  have inj: "inj_on (\<lambda>(a, b). ?H a b) (extract_pairs ?H ?t (tree_height (length [1, 2 :: uint256])) 0
      \<lparr>nBitsUsed = 0, nHashUsed = 0, x_fBad = fBad ?t, x_vMatch = [], x_vnIndex = []\<rparr> \<union>
      node_pairs ?H [1, 2] (tree_height (length [1, 2 :: uint256])) 0)"
    unfolding t2 CPartialMerkleTree.simps pairs by simp
  show ?thesis using spv_proof_sound [OF _ _ _ inj] e r by (simp only: r) auto
qed

text \<open>C28. Verification flags only restrict (a soft fork): an input accepted under a set of flags is accepted, by the same checker, under every subset of them that keeps CLEANSTACK and WITNESS consistent.\<close>

theorem VerifyScript_soft_fork:
  assumes "subenv env' env" and "flags_ok (flags env)"
    and "VerifyScript env' sig pub wit = Inr ()"
  shows "VerifyScript env sig pub wit = Inr ()"
  using assms by (rule VerifyScript_weaker)

lemma VerifyScript_soft_fork_witness:
  "VerifyScript (demo_env 0) [0x51] [] None = Inr ()"
proof -
  have "VerifyScript (demo_env SCRIPT_VERIFY_P2SH) [0x51] [] None = Inr ()" by code_simp
  then show ?thesis
    by (intro VerifyScript_soft_fork [OF demo_subenv [of 0 SCRIPT_VERIFY_P2SH]])
      (simp_all add: flags_ok_def demo_env_def flag_set_def)
qed



text \<open>C30. Running a script keeps the main stack within the limit of 1000 elements (or the larger stack it was started on) and every element within 520 bytes, and no assertion of an opcode handler fails.\<close>

theorem EvalScript_bounds:
  assumes "small st" and "length st \<le> N" and "MAX_STACK_SIZE \<le> N" and "N < 2 ^ 63"
    and "hashes_small (hash_fns env)"
  shows "EvalScript env st script \<noteq> Inl Assertion_failed \<and>
    (\<forall>st'. EvalScript env st script = Inr st' \<longrightarrow> small st' \<and> length st' \<le> N)"
  using EvalScript_ok [OF assms, of script] by (cases "EvalScript env st script") (auto simp: ensures_def)

lemma EvalScript_bounds_witness:
  "EvalScript (demo_env 0) [] [0x51, 0x76] = Inr [[1], [1]] \<and> small [[1], [1]]"
proof -
  have r: "EvalScript (demo_env 0) [] [0x51, 0x76] = Inr [[1], [1]]" by code_simp
  have "EvalScript (demo_env 0) [] [0x51, 0x76] \<noteq> Inl Assertion_failed \<and>
      (\<forall>st'. EvalScript (demo_env 0) [] [0x51, 0x76] = Inr st' \<longrightarrow> small st' \<and> length st' \<le> 1000)"
    by (rule EvalScript_bounds) (simp_all add: demo_small MAX_STACK_SIZE_def)
  with r show ?thesis by blast
qed

text \<open>C31. Every transaction the wire format can carry is read back unchanged, witnesses included, and exactly its bytes are consumed.\<close>

theorem transaction_round_trip:
  assumes "tx_wire_ok tx"
  shows "UnserializeTransaction True (SerializeTransaction True tx @ s) = Inr (tx, s)"
  using assms by (rule tx_round_trip)

lemma transaction_round_trip_witness:
  "UnserializeTransaction True (SerializeTransaction True demo_tx @ [7]) = Inr (demo_tx, [7])"
  by (rule transaction_round_trip) (rule demo_tx_ok)

text \<open>C32. The hashes precomputed for a transaction change no signature hash: with and without the cache the result is the same for every input, hash type and signature version.\<close>

theorem sighash_cache_equivalent:
  "SignatureHash h sc tx idx ht amount sv (Some (Precompute h tx)) = SignatureHash h sc tx idx ht amount sv None"
  by (rule SignatureHash_cached)



text \<open>C34. The 32-bit read position of the stream wraps: reading a positive multiple of 2 to the 32 bytes from a shorter buffer is not reported as the end of data but reads outside the buffer.\<close>

theorem stream_position_wraps:
  assumes "stream_pos s = 0" and "0 < k" and "length (stream_vch s) < k * 2 ^ 32"
  shows "CDataStream_read s (k * 2 ^ 32) = Inl OutOfBounds"
  using assms by (rule CDataStream_read_wraps)

lemma stream_position_wraps_witness:
  "CDataStream_read \<lparr>stream_vch = [1], stream_pos = 0\<rparr> (1 * 2 ^ 32) = Inl OutOfBounds"
  by (rule stream_position_wraps) simp_all

text \<open>C35. On a block tree the skip-list search for the ancestor at a height finds the block that walking the predecessors finds, gives no block outside the heights of the branch, and its assertion never fails.\<close>

theorem ancestor_by_skip_list:
  assumes "tree_ok H" and "H p = Some b"
  shows "GetAncestor H p h =
    Inr (if int (nHeight b) < h \<or> h < 0 then None else nth_prev H (nHeight b - nat h) p)"
  using assms by (rule GetAncestor_prev)

lemma ancestor_by_skip_list_witness:
  "GetAncestor demo_heap 1 0 = Inr (Some 0)"
  using ancestor_by_skip_list [OF demo_tree(1), of 1 _ 0] by simp

text \<open>C36. Setting a new tip ends, rewrites only what differs, and leaves exactly the branch from the first block to the tip, whatever branch was active before.\<close>

theorem set_tip_switches_branch:
  assumes "tree_ok H" and "is_branch H C" and "H p = Some b"
  shows "SetTip H C (Some p) = Some (Inr (branch H p (nHeight b)))"
  using assms by (rule SetTip_branch)

lemma set_tip_switches_branch_witness:
  "SetTip demo_heap [Some 0] (Some 1) = Some (Inr [Some 0, Some 1])"
  using set_tip_switches_branch [OF demo_tree(1) demo_branch(2) demo_heap_at(2)] by (simp add: branch_def upt_rec)

text \<open>C37. The work of a block is 2 to the 256 divided by its target plus one, computed without overflow, and zero for a negative, overflowing or zero target.\<close>

theorem block_proof_value:
  "\<exists>w. GetBlockProof c = Some w \<and> length w = WIDTH \<and>
    num w = (if (compact_num c \<noteq> 0 \<and> c AND 0x00800000 \<noteq> 0) \<or> 2 ^ 256 \<le> compact_num c \<or> compact_num c = 0
             then 0 else 2 ^ 256 div (compact_num c + 1))"
  by (rule GetBlockProof_num)



text \<open>C39. On a block tree with positive parameters the next work is always computed: the loops over minimal-difficulty blocks end, the height of the first block of the interval is not negative, and that block exists.\<close>

theorem next_work_total:
  assumes "uint512 ops val" and "tree_ok H" and "H p = Some b" and "0 < nPowTargetTimespan params"
    and "nPowTargetTimespan params < 2 ^ 61" and "0 < DifficultyAdjustmentInterval params"
  shows "\<exists>c. GetNextWorkRequired ops H params (Some p) hdr = Some (Inr c)"
  using uint512.GetNextWorkRequired_ends [OF assms] .

lemma next_work_total_witness:
  "\<exists>c. GetNextWorkRequired word512_ops demo_heap demo_params (Some 1) demo_header = Some (Inr c)"
  by (rule next_work_total [OF word512.uint512_axioms demo_tree(1) demo_heap_at(2)]) simp_all

text \<open>C40. The authorization signature covers the coinbase outputs only: a block that is authorized authorizes every block, on any chain, whose coinbase has the same script and outputs, as long as height and time take as many bytes.\<close>

theorem authorization_replay:
  assumes "CheckAuthorization ed vk h params H C b = Inr True"
    and "Tip C = Some p" "H p = Some i" "Tip C' = Some p'" "H' p' = Some i'"
    and "0 < authorizationForkHeight params" "authorizationForkHeight params \<le> int (nHeight i) + 1"
    and "vk (authorizationKey params)"
    and "length (push_int64 [] (int (nHeight i') + 1)) + length (push_int64 [] (uint (nTime b'))) =
      length (push_int64 [] (int (nHeight i) + 1)) + length (push_int64 [] (uint (nTime b)))"
    and "vtx b' \<noteq> []" and "IsCoinBase (vtx b' ! 0)"
    and "scriptSig (tx_vin (vtx b' ! 0) ! 0) = scriptSig (tx_vin (vtx b ! 0) ! 0)"
    and "tx_vout (vtx b' ! 0) = tx_vout (vtx b ! 0)"
  shows "CheckAuthorization ed vk h params H' C' b' = Inr True"
  using assms by (rule CheckAuthorization_replay)

lemma authorization_replay_witness:
  "CheckAuthorization demo_ed (\<lambda>_. True) demo_hash demo_params demo_heap [Some 0, Some 1]
    (demo_coinbase_block\<lparr>hashPrevBlock := 77\<rparr>) = Inr True"
proof -
  have a: "CheckAuthorization demo_ed (\<lambda>_. True) demo_hash demo_params demo_heap [Some 0] demo_coinbase_block = Inr True"
    by code_simp
  have cb: "vtx demo_coinbase_block \<noteq> []" "IsCoinBase (vtx demo_coinbase_block ! 0)" by code_simp+
  have l: "length (push_int64 [] (int 1 + 1)) = length (push_int64 [] (int 0 + 1))" by code_simp
  have tip: "Tip [Some 0] = Some 0" "Tip [Some 0, Some 1] = Some 1" by (simp_all add: Tip_def)
  show ?thesis
    by (rule authorization_replay [where ed = demo_ed and h = demo_hash and vk = "\<lambda>_. True" and params = demo_params and
        H' = demo_heap and C' = "[Some 0, Some 1]" and b' = "demo_coinbase_block\<lparr>hashPrevBlock := 77\<rparr>" and
        b = demo_coinbase_block and H = demo_heap and C = "[Some 0]" and p = 0 and
        i = "demo_entry 0 None" and p' = 1 and i' = "demo_entry 1 (Some 0)", OF a tip(1) demo_heap_at(1) tip(2) demo_heap_at(2)])
      (use cb l in simp_all)
qed

end
